(* ===== verification/Prelude.thy ===== *)
theory Prelude
  imports Main "HOL-Library.Word" "HOL-Library.AList"
begin

text \<open>
  The vocabulary every component of the development shares.

  \<^item> Rust's fixed-width integers as words; \<open>usize\<close> is 64 bits wide (the code uses
    \<open>rdtscp\<close> and targets x86-64).
  \<^item> \<open>fault\<close> and \<open>res\<close>: a computation that may panic, or that would be undefined
    behaviour in an \<open>unsafe\<close> block, is a sum whose left side names what happened. A
    property that some operation "does not fault" is proved as an equation with \<open>Inr\<close>.
  \<^item> \<open>profile\<close>: the two cargo profiles. \<open>Debug\<close> (\<open>dev\<close>/\<open>test\<close>) checks integer
    overflow and runs \<open>debug_assert!\<close> and \<open>#[cfg(debug_assertions)]\<close> code; \<open>Release\<close>
    (\<open>release\<close>/\<open>bench\<close>) wraps and skips it. The workspace's Cargo.toml overrides neither.
  \<^item> the generic facts on lists, maps and words that the component proofs use, collected
    under \<open>res_simps\<close>, \<open>arith_u\<close> and in the simpset.
\<close>

named_theorems res_simps \<open>evaluation of the fault monad and of the profile-dependent checks\<close>
named_theorems arith_u \<open>reading unsigned machine arithmetic as arithmetic on naturals\<close>

section \<open>Machine integers\<close>

type_synonym u8 = "8 word"
type_synonym u16 = "16 word"
type_synonym u32 = "32 word"
type_synonym u64 = "64 word"
type_synonym usize = "64 word"

abbreviation u32_MAX :: u32 where
  "u32_MAX \<equiv> 4294967295"

section \<open>Faults\<close>

datatype fault = Panic string | UndefinedBehaviour string

type_synonym 'a res = "fault + 'a"

definition rbind :: "'a res \<Rightarrow> ('a \<Rightarrow> 'b res) \<Rightarrow> 'b res" where
  "rbind m f = (case m of Inl e \<Rightarrow> Inl e | Inr x \<Rightarrow> f x)"

lemma rbind_Inl [simp, res_simps]: "rbind (Inl e) f = Inl e"
  by (simp add: rbind_def)

lemma rbind_Inr [simp, res_simps]: "rbind (Inr x) f = f x"
  by (simp add: rbind_def)

lemma rbind_cong [fundef_cong]:
  assumes "m = m'" and "\<And>x. m' = Inr x \<Longrightarrow> f x = f' x"
  shows "rbind m f = rbind m' f'"
  using assms by (cases m') (auto simp: rbind_def)

lemma rbind_eq_Inr: "rbind m f = Inr y \<longleftrightarrow> (\<exists>x. m = Inr x \<and> f x = Inr y)"
  by (cases m) auto

lemma rbind_assoc: "rbind (rbind m f) g = rbind m (\<lambda>x. rbind (f x) g)"
  by (cases m) auto

text \<open>\<open>Option::expect\<close> and \<open>Result::expect\<close>.\<close>

definition expect :: "string \<Rightarrow> 'a option \<Rightarrow> 'a res" where
  "expect msg v = (case v of None \<Rightarrow> Inl (Panic msg) | Some x \<Rightarrow> Inr x)"

lemma expect_simps [simp, res_simps]:
  "expect msg None = Inl (Panic msg)"
  "expect msg (Some x) = Inr x"
  by (simp_all add: expect_def)

text \<open>\<open>assert!\<close>: checked in both profiles.\<close>

definition assert_that :: "bool \<Rightarrow> string \<Rightarrow> unit res" where
  "assert_that c msg = (if c then Inr () else Inl (Panic msg))"

lemma assert_that_simps [simp, res_simps]:
  "c \<Longrightarrow> assert_that c msg = Inr ()"
  "\<not> c \<Longrightarrow> assert_that c msg = Inl (Panic msg)"
  by (simp_all add: assert_that_def)

lemma assert_that_Inr: "assert_that c msg = Inr u \<longleftrightarrow> c"
  by (simp add: assert_that_def)

section \<open>Build profiles\<close>

datatype profile = Debug | Release

definition debug_assert :: "profile \<Rightarrow> bool \<Rightarrow> string \<Rightarrow> unit res" where
  "debug_assert p c msg = (if p = Debug then assert_that c msg else Inr ())"

definition debug_only :: "profile \<Rightarrow> unit res \<Rightarrow> unit res" where
  "debug_only p m = (if p = Debug then m else Inr ())"

lemma debug_assert_simps [simp, res_simps]:
  "c \<Longrightarrow> debug_assert p c msg = Inr ()"
  "debug_assert Release c msg = Inr ()"
  "\<not> c \<Longrightarrow> debug_assert Debug c msg = Inl (Panic msg)"
  by (simp_all add: debug_assert_def)

lemma debug_only_simps [simp, res_simps]:
  "debug_only Release m = Inr ()"
  "debug_only Debug m = m"
  by (simp_all add: debug_only_def)

lemma debug_only_ok: "(p = Debug \<Longrightarrow> m = Inr ()) \<Longrightarrow> debug_only p m = Inr ()"
  by (cases p) auto

text \<open>The arithmetic operators \<open>+\<close> and \<open>-\<close> on unsigned integers.\<close>

definition plus_u :: "profile \<Rightarrow> 'w::len word \<Rightarrow> 'w word \<Rightarrow> 'w word res" where
  "plus_u p a b =
     (if p = Debug \<and> 2 ^ LENGTH('w) \<le> unat a + unat b
      then Inl (Panic ''attempt to add with overflow'') else Inr (a + b))"

definition minus_u :: "profile \<Rightarrow> 'w::len word \<Rightarrow> 'w word \<Rightarrow> 'w word res" where
  "minus_u p a b =
     (if p = Debug \<and> a < b
      then Inl (Panic ''attempt to subtract with overflow'') else Inr (a - b))"

definition times_u :: "profile \<Rightarrow> 'w::len word \<Rightarrow> 'w word \<Rightarrow> 'w word res" where
  "times_u p a b =
     (if p = Debug \<and> 2 ^ LENGTH('w) \<le> unat a * unat b then Inl (Panic ''attempt to multiply with overflow'')
      else Inr (a * b))"

lemma plus_u_Release [simp, res_simps]: "plus_u Release a b = Inr (a + b)"
  by (simp add: plus_u_def)

lemma minus_u_Release [simp, res_simps]: "minus_u Release a b = Inr (a - b)"
  by (simp add: minus_u_def)

lemma plus_u_ok:
  fixes a b :: "'w::len word"
  shows "(p = Debug \<Longrightarrow> unat a + unat b < 2 ^ LENGTH('w)) \<Longrightarrow> plus_u p a b = Inr (a + b)"
  by (cases p) (auto simp: plus_u_def)

lemma minus_u_ok: "(p = Debug \<Longrightarrow> b \<le> a) \<Longrightarrow> minus_u p a b = Inr (a - b)"
  by (cases p) (auto simp: minus_u_def)

text \<open>\<open>saturating_sub\<close>.\<close>

lemma times_u_ok:
  "(p = Debug \<Longrightarrow> unat a * unat b < 2 ^ LENGTH('w::len)) \<Longrightarrow> times_u p (a :: 'w word) b = Inr (a * b)"
  by (cases p) (auto simp: times_u_def)

definition saturating_sub :: "'w::len word \<Rightarrow> 'w word \<Rightarrow> 'w word" where
  "saturating_sub a b = (if b \<le> a then a - b else 0)"

lemma unat_saturating_sub [arith_u]: "unat (saturating_sub a b) = unat a - unat b"
  by (auto simp: saturating_sub_def unat_sub word_le_nat_alt)

section \<open>Words and naturals\<close>

lemma unat_plus_no_overflow [arith_u]:
  fixes a b :: "'w::len word"
  shows "unat a + unat b < 2 ^ LENGTH('w) \<Longrightarrow> unat (a + b) = unat a + unat b"
  by (simp add: unat_word_ariths)

lemma unat_minus_le [arith_u]:
  fixes a b :: "'w::len word"
  shows "b \<le> a \<Longrightarrow> unat (a - b) = unat a - unat b"
  by (simp add: unat_sub)

lemma unat_of_nat_small:
  "n < 2 ^ LENGTH('w) \<Longrightarrow> unat (of_nat n :: 'w::len word) = n"
  by (simp add: unat_of_nat take_bit_nat_eq_self)

lemma unat_of_nat_u32: "n < 4294967296 \<Longrightarrow> unat (of_nat n :: u32) = n"
  by (rule unat_of_nat_small) simp

lemma unat_of_nat_u64: "n < 18446744073709551616 \<Longrightarrow> unat (of_nat n :: u64) = n"
  by (rule unat_of_nat_small) simp

lemma unat_u32_bound: "unat (w :: u32) < 4294967296"
  using unsigned_less [of w] by simp

lemma unat_u64_bound: "unat (w :: u64) < 18446744073709551616"
  using unsigned_less [of w] by simp

lemma unat_inject [simp]: "unat a = unat b \<longleftrightarrow> a = b"
  by (simp add: word_unat_eq_iff)

section \<open>Lists\<close>

text \<open>\<open>slice.get(i)\<close>: bounds-checked access.\<close>

definition slice_get :: "'a list \<Rightarrow> nat \<Rightarrow> 'a option" where
  "slice_get xs i = (if i < length xs then Some (xs ! i) else None)"

lemma slice_get_Some: "slice_get xs i = Some x \<longleftrightarrow> i < length xs \<and> xs ! i = x"
  by (auto simp: slice_get_def)

lemma slice_get_None: "slice_get xs i = None \<longleftrightarrow> length xs \<le> i"
  by (auto simp: slice_get_def)

lemma nth_list_update_iff:
  "xs[i := y] ! j = (if i = j \<and> i < length xs then y else xs ! j)"
  by (cases "i < length xs") (auto simp: list_update_beyond nth_list_update)

lemma length_filter_list_update:
  assumes "i < length xs"
  shows "length (filter P (xs[i := y])) + (if P (xs ! i) then 1 else 0)
    = length (filter P xs) + (if P y then 1 else 0)"
  using assms
proof (induction xs arbitrary: i)
  case (Cons x xs)
  then show ?case by (cases i) auto
qed simp

lemma set_list_update_distinct:
  "i < length xs \<Longrightarrow> set (xs[i := y]) \<subseteq> insert y (set xs)"
  by (simp add: set_update_subset_insert)

lemma sum_list_list_update_diff:
  fixes f :: "'a \<Rightarrow> 'b::ab_group_add"
  assumes "i < length xs"
  shows "sum_list (map f (xs[i := y])) = sum_list (map f xs) - f (xs ! i) + f y"
  using assms by (induction xs arbitrary: i) (auto split: nat.split simp: algebra_simps)

lemma sum_list_remove1:
  fixes f :: "'a \<Rightarrow> 'b::ab_group_add"
  assumes "x \<in> set xs"
  shows "sum_list (map f (remove1 x xs)) = sum_list (map f xs) - f x"
  using assms by (induction xs) (auto simp: algebra_simps)

lemma remove1_split:
  "x \<notin> set as \<Longrightarrow> remove1 x (as @ x # bs) = as @ bs"
  by (induction as) auto

section \<open>Association lists as hash maps\<close>

text \<open>
  \<open>std::collections::HashMap\<close> (and \<open>FxHashMap\<close>, the same table with another hasher): an
  association list with distinct keys. Only lookups, insertion, removal, the number of entries
  and order-independent iteration are used by the sources.
\<close>

type_synonym ('k, 'v) hash_map = "('k \<times> 'v) list"

abbreviation hm_get :: "('k, 'v) hash_map \<Rightarrow> 'k \<Rightarrow> 'v option" where
  "hm_get m k \<equiv> map_of m k"

abbreviation hm_contains_key :: "('k, 'v) hash_map \<Rightarrow> 'k \<Rightarrow> bool" where
  "hm_contains_key m k \<equiv> map_of m k \<noteq> None"

definition hm_insert :: "'k \<Rightarrow> 'v \<Rightarrow> ('k, 'v) hash_map \<Rightarrow> ('k, 'v) hash_map" where
  "hm_insert k v m = AList.update k v m"

definition hm_remove :: "'k \<Rightarrow> ('k, 'v) hash_map \<Rightarrow> ('k, 'v) hash_map" where
  "hm_remove k m = AList.delete k m"

definition hm_wf :: "('k, 'v) hash_map \<Rightarrow> bool" where
  "hm_wf m \<longleftrightarrow> distinct (map fst m)"

lemma hm_get_insert [simp]: "map_of (hm_insert k v m) = (map_of m)(k \<mapsto> v)"
  by (simp add: hm_insert_def update_conv')

lemma hm_get_remove [simp]: "map_of (hm_remove k m) = (map_of m)(k := None)"
  by (simp add: hm_remove_def delete_conv')

lemma hm_wf_insert [simp]: "hm_wf m \<Longrightarrow> hm_wf (hm_insert k v m)"
  by (simp add: hm_wf_def hm_insert_def distinct_update)

lemma hm_wf_remove [simp]: "hm_wf m \<Longrightarrow> hm_wf (hm_remove k m)"
  by (simp add: hm_wf_def hm_remove_def distinct_delete)

lemma hm_wf_Nil [simp]: "hm_wf []"
  by (simp add: hm_wf_def)

lemma hm_length: "hm_wf m \<Longrightarrow> length m = card (dom (map_of m))"
  by (metis hm_wf_def dom_map_of_conv_image_fst distinct_card length_map list.set_map)

lemma find_unique:
  assumes "distinct (map f xs)" and "x \<in> set xs" and "f x = k"
  shows "find (\<lambda>y. f y = k) xs = Some x"
  using assms by (induction xs) (auto simp: rev_image_eqI)

section \<open>Runs and simulation\<close>

text \<open>
  A run of a machine whose steps may fault, and the runs of an abstract machine that stay within
  what its implementation can carry. The locale lifts a simulation of single steps to runs.
\<close>

fun res_fold :: "('c \<Rightarrow> 'a \<Rightarrow> 'c res) \<Rightarrow> 'c \<Rightarrow> 'a list \<Rightarrow> 'c res" where
  "res_fold f c [] = Inr c"
| "res_fold f c (a # as) = rbind (f c a) (\<lambda>c'. res_fold f c' as)"

fun allowed_run :: "('s \<Rightarrow> 'a \<Rightarrow> 's) \<Rightarrow> ('s \<Rightarrow> 'a \<Rightarrow> bool) \<Rightarrow> 's \<Rightarrow> 'a list \<Rightarrow> bool" where
  "allowed_run f ok s [] = True"
| "allowed_run f ok s (a # as) = (ok s a \<and> allowed_run f ok (f s a) as)"

locale simulation =
  fixes cstep :: "'c \<Rightarrow> 'a \<Rightarrow> 'c res"
    and astep :: "'s \<Rightarrow> 'a \<Rightarrow> 's"
    and inv :: "'c \<Rightarrow> bool"
    and view :: "'c \<Rightarrow> 's"
    and allows :: "'s \<Rightarrow> 'a \<Rightarrow> bool"
  assumes simulate: "inv c \<Longrightarrow> allows (view c) a \<Longrightarrow>
    \<exists>c'. cstep c a = Inr c' \<and> inv c' \<and> view c' = astep (view c) a"
begin

lemma simulate_run:
  assumes "inv c" and "allowed_run astep allows (view c) as"
  shows "\<exists>c'. res_fold cstep c as = Inr c' \<and> inv c' \<and> view c' = foldl astep (view c) as"
  using assms
proof (induction as arbitrary: c)
  case (Cons a as)
  from simulate [OF Cons.prems(1)] Cons.prems(2) obtain c1 where
    "cstep c a = Inr c1" "inv c1" "view c1 = astep (view c) a" by auto
  with Cons.IH [of c1] Cons.prems(2) show ?case by auto
qed simp

end

end
