(* ===== verification/Dex_Types.thy ===== *)
theory Dex_Types
  imports Prelude
begin

text \<open>
  The domain types of \<open>crates/types\<close>: the enums of \<open>enums.rs\<close> with their \<open>repr(u8)\<close>
  discriminants, \<open>OrderId\<close> and \<open>IntentHash\<close> (\<open>ids.rs\<close>), \<open>Order\<close> and \<open>OrderRequest\<close>
  (\<open>order.rs\<close>), \<open>OrderEvent\<close> (\<open>events.rs\<close>), \<open>Position\<close> (\<open>position.rs\<close>), \<open>L2Update\<close>
  and \<open>TimingDelta\<close>; and the \<open>repr(C)\<close> layout rule, under which the compile-time size and
  alignment assertions of \<open>lib.rs\<close> are checked.

  Field selectors carry a prefix per struct (\<open>o_\<close>, \<open>rq_\<close>, ...), since records share one
  name space; constructors that Rust qualifies by their enum carry one too (\<open>RqNew\<close>, \<open>EvNew\<close>).
\<close>

section \<open>Enums\<close>

datatype Side = Bid | Ask

datatype OrderType = Limit

datatype TimeInForce = GTC | IOC | FOK

datatype RequestType = RqNew | RqCancel | RqAmend

datatype RejectReason =
    InsufficientBalance | InsufficientMargin | PositionLimitExceeded | RateLimitExceeded
  | InvalidPrice | InvalidQuantity | UnknownInstrument | UnknownOrder | SystemAtCapacity
  | InsufficientLiquidity | RrDuplicateIntent

text \<open>\<open>repr(u8)\<close>: the discriminants.\<close>

fun Side_u8 :: "Side \<Rightarrow> u8" where
  "Side_u8 Bid = 0" | "Side_u8 Ask = 1"

fun OrderType_u8 :: "OrderType \<Rightarrow> u8" where
  "OrderType_u8 Limit = 0"

fun TimeInForce_u8 :: "TimeInForce \<Rightarrow> u8" where
  "TimeInForce_u8 GTC = 0" | "TimeInForce_u8 IOC = 1" | "TimeInForce_u8 FOK = 2"

fun RequestType_u8 :: "RequestType \<Rightarrow> u8" where
  "RequestType_u8 RqNew = 0" | "RequestType_u8 RqCancel = 1" | "RequestType_u8 RqAmend = 2"

fun RejectReason_u8 :: "RejectReason \<Rightarrow> u8" where
  "RejectReason_u8 InsufficientBalance = 0"
| "RejectReason_u8 InsufficientMargin = 1"
| "RejectReason_u8 PositionLimitExceeded = 2"
| "RejectReason_u8 RateLimitExceeded = 3"
| "RejectReason_u8 InvalidPrice = 4"
| "RejectReason_u8 InvalidQuantity = 5"
| "RejectReason_u8 UnknownInstrument = 6"
| "RejectReason_u8 UnknownOrder = 7"
| "RejectReason_u8 SystemAtCapacity = 8"
| "RejectReason_u8 InsufficientLiquidity = 9"
| "RejectReason_u8 RrDuplicateIntent = 10"

section \<open>Structs\<close>

datatype OrderId = OrderId u64

primrec order_id_0 :: "OrderId \<Rightarrow> u64" where
  "order_id_0 (OrderId n) = n"

text \<open>\<open>IntentHash([u8; 32])\<close>: the array as a list; its length is the type invariant \<open>hash_wf\<close>.\<close>

datatype IntentHash = IntentHash "u8 list"

primrec hash_bytes :: "IntentHash \<Rightarrow> u8 list" where
  "hash_bytes (IntentHash bs) = bs"

definition hash_wf :: "IntentHash \<Rightarrow> bool" where
  "hash_wf h \<longleftrightarrow> length (hash_bytes h) = 32"

record Order =
  o_order_id :: OrderId
  o_price :: u64
  o_quantity :: u64
  o_origin_ts :: u64
  o_instrument_id :: u32
  o_side :: Side
  o_order_type :: OrderType
  o_tif :: TimeInForce
  o_padding :: u8
  o_intent_hash :: IntentHash

record OrderRequest =
  rq_price :: u64
  rq_quantity :: u64
  rq_origin_ts :: u64
  rq_instrument_id :: u32
  rq_side :: Side
  rq_order_type :: OrderType
  rq_tif :: TimeInForce
  rq_request_type :: RequestType
  rq_intent_hash :: IntentHash

text \<open>Arguments of the struct-like variants in declaration order.\<close>

datatype OrderEvent =
    EvNew Order
  | EvFill (ev_id: u64) (ev_fill_qty: u64) (ev_fill_price: u64) (ev_origin_ts: u64)
      (ev_intent_hash: IntentHash)
  | EvPartialFill (ev_id: u64) (ev_fill_qty: u64) (ev_fill_price: u64) (ev_remaining_qty: u64)
      (ev_origin_ts: u64) (ev_intent_hash: IntentHash)
  | EvCancel (ev_id: u64) (ev_origin_ts: u64) (ev_intent_hash: IntentHash)
  | EvReject (ev_id: u64) (ev_reason: RejectReason) (ev_remaining_qty: u64) (ev_origin_ts: u64)
      (ev_intent_hash: IntentHash)

datatype Position = Flat | Long (pos_qty: u64) (pos_avg_price: u64) | Short (pos_qty: u64) (pos_avg_price: u64)

record L2Update =
  l2_price :: u64
  l2_quantity :: u64
  l2_origin_ts :: u64
  l2_instrument_id :: u32
  l2_side :: Side
  l2_padding :: "u8 list"

record TimingDelta =
  td_origin_ts :: u64
  td_current_ts :: u64
  td_publisher_id :: u32
  td_msg_type :: u8
  td_core_id :: u8
  td_padding :: "u8 list"

definition PRICE_SCALE :: u64 where
  "PRICE_SCALE = 100000000"

text \<open>Well-formed values: the fixed-size arrays have their size.\<close>

definition order_wf :: "Order \<Rightarrow> bool" where
  "order_wf ord \<longleftrightarrow> hash_wf (o_intent_hash ord)"

fun event_wf :: "OrderEvent \<Rightarrow> bool" where
  "event_wf (EvNew ord) = order_wf ord"
| "event_wf (EvFill i q pr ts h) = hash_wf h"
| "event_wf (EvPartialFill i q pr r ts h) = hash_wf h"
| "event_wf (EvCancel i ts h) = hash_wf h"
| "event_wf (EvReject i rr r ts h) = hash_wf h"

section \<open>Layout\<close>

text \<open>
  \<open>repr(C)\<close>: each field, given as (size, alignment), starts at the next multiple of its
  alignment; the size of the struct is rounded up to its alignment, the largest of its fields'.
\<close>

definition round_up :: "nat \<Rightarrow> nat \<Rightarrow> nat" where
  "round_up n a = (n + a - 1) div a * a"

fun repr_c_end :: "nat \<Rightarrow> (nat \<times> nat) list \<Rightarrow> nat" where
  "repr_c_end off [] = off"
| "repr_c_end off ((s, a) # fs) = repr_c_end (round_up off a + s) fs"

definition repr_c_align :: "(nat \<times> nat) list \<Rightarrow> nat" where
  "repr_c_align fs = foldr (\<lambda>(s, a) m. max a m) fs 1"

definition repr_c_size :: "(nat \<times> nat) list \<Rightarrow> nat" where
  "repr_c_size fs = round_up (repr_c_end 0 fs) (repr_c_align fs)"

abbreviation lay_u8 :: "nat \<times> nat" where "lay_u8 \<equiv> (1, 1)"
abbreviation lay_u32 :: "nat \<times> nat" where "lay_u32 \<equiv> (4, 4)"
abbreviation lay_u64 :: "nat \<times> nat" where "lay_u64 \<equiv> (8, 8)"

definition lay_bytes :: "nat \<Rightarrow> nat \<times> nat" where
  "lay_bytes n = (n, 1)"

definition Order_layout :: "(nat \<times> nat) list" where
  "Order_layout = [lay_u64, lay_u64, lay_u64, lay_u64, lay_u32, lay_u8, lay_u8, lay_u8, lay_u8,
     lay_bytes 32]"

definition OrderRequest_layout :: "(nat \<times> nat) list" where
  "OrderRequest_layout = [lay_u64, lay_u64, lay_u64, lay_u32, lay_u8, lay_u8, lay_u8, lay_u8,
     lay_bytes 32]"

definition L2Update_layout :: "(nat \<times> nat) list" where
  "L2Update_layout = [lay_u64, lay_u64, lay_u64, lay_u32, lay_u8, lay_bytes 3]"

definition TimingDelta_layout :: "(nat \<times> nat) list" where
  "TimingDelta_layout = [lay_u64, lay_u64, lay_u32, lay_u8, lay_u8, lay_bytes 2]"

definition PodOrderEvent_layout :: "(nat \<times> nat) list" where
  "PodOrderEvent_layout = [lay_u8, lay_bytes 7, lay_u64, lay_bytes 72]"

definition PodPosition_layout :: "(nat \<times> nat) list" where
  "PodPosition_layout = [lay_u8, lay_bytes 7, lay_u64, lay_u64]"

text \<open>The \<open>const _: () = assert!(...)\<close> items at the end of \<open>lib.rs\<close>.\<close>

definition layout_assertions :: bool where
  "layout_assertions \<longleftrightarrow>
     repr_c_size Order_layout = 72 \<and> repr_c_size OrderRequest_layout = 64 \<and>
     repr_c_size L2Update_layout = 32 \<and> repr_c_size TimingDelta_layout = 24 \<and>
     repr_c_align Order_layout = 8 \<and> repr_c_align OrderRequest_layout = 8 \<and>
     repr_c_align L2Update_layout = 8 \<and> repr_c_align TimingDelta_layout = 8 \<and>
     repr_c_size PodOrderEvent_layout = 88 \<and> repr_c_size PodPosition_layout = 24 \<and>
     repr_c_align PodOrderEvent_layout = 8 \<and> repr_c_align PodPosition_layout = 8"

text \<open>A struct declared \<open>repr(C)\<close> has no implicit padding when its field sizes add up to its size
  (what \<open>Pod\<close> and \<open>NoUninit\<close> demand).\<close>

definition no_padding :: "(nat \<times> nat) list \<Rightarrow> bool" where
  "no_padding fs \<longleftrightarrow> sum_list (map fst fs) = repr_c_size fs"

text \<open>
  The wire structs have the sizes and alignments that \<open>lib.rs\<close> asserts at compile time, and
  none of them has implicit padding, so every byte of a value crossing the IPC boundary is
  initialised.
\<close>

theorem wire_layouts:
  "layout_assertions \<and>
   list_all no_padding [Order_layout, OrderRequest_layout, L2Update_layout, TimingDelta_layout,
     PodOrderEvent_layout, PodPosition_layout]"
  by (simp add: layout_assertions_def no_padding_def repr_c_size_def repr_c_align_def round_up_def
      lay_bytes_def Order_layout_def OrderRequest_layout_def L2Update_layout_def
      TimingDelta_layout_def PodOrderEvent_layout_def PodPosition_layout_def)

end
