(* ===== verification/BTree_Map.thy ===== *)
theory BTree_Map
  imports Prelude
begin

text \<open>
  \<open>std::collections::BTreeMap\<close> as the book uses it: an association list kept strictly
  ascending in its keys, which is also what \<open>iter()\<close> yields. \<open>ordered_map\<close> states the
  contract a client relies on (lookup after insertion and removal, iteration in key order,
  the first and last entry are the extreme keys) and its interpretation \<open>bt\<close> discharges it
  for these operations. The second half relates whole-map iteration to lookups; the book's
  priority order is stated through it.
\<close>

section \<open>Operations\<close>

type_synonym ('k, 'v) btree_map = "('k \<times> 'v) list"

definition bt_wf :: "('k::linorder, 'v) btree_map \<Rightarrow> bool" where
  "bt_wf m \<longleftrightarrow> sorted_wrt (<) (map fst m)"

abbreviation bt_get :: "('k, 'v) btree_map \<Rightarrow> 'k \<Rightarrow> 'v option" where
  "bt_get m k \<equiv> map_of m k"

text \<open>Insertion or replacement; also the write-back of a value borrowed by \<open>get_mut\<close>.\<close>

fun bt_insert :: "'k::linorder \<Rightarrow> 'v \<Rightarrow> ('k, 'v) btree_map \<Rightarrow> ('k, 'v) btree_map" where
  "bt_insert k v [] = [(k, v)]"
| "bt_insert k v ((a, b) # m) =
     (if k < a then (k, v) # (a, b) # m
      else if k = a then (k, v) # m
      else (a, b) # bt_insert k v m)"

fun bt_remove :: "'k \<Rightarrow> ('k, 'v) btree_map \<Rightarrow> ('k, 'v) btree_map" where
  "bt_remove k [] = []"
| "bt_remove k ((a, b) # m) = (if k = a then m else (a, b) # bt_remove k m)"

definition bt_first_key_value :: "('k, 'v) btree_map \<Rightarrow> ('k \<times> 'v) option" where
  "bt_first_key_value m = (case m of [] \<Rightarrow> None | e # _ \<Rightarrow> Some e)"

definition bt_last_key_value :: "('k, 'v) btree_map \<Rightarrow> ('k \<times> 'v) option" where
  "bt_last_key_value m = (case m of [] \<Rightarrow> None | _ # _ \<Rightarrow> Some (last m))"

section \<open>The contract\<close>

locale ordered_map =
  fixes wf :: "'m \<Rightarrow> bool"
    and lookup :: "'m \<Rightarrow> 'k::linorder \<Rightarrow> 'v option"
    and entries :: "'m \<Rightarrow> ('k \<times> 'v) list"
    and put :: "'k \<Rightarrow> 'v \<Rightarrow> 'm \<Rightarrow> 'm"
    and del :: "'k \<Rightarrow> 'm \<Rightarrow> 'm"
    and first :: "'m \<Rightarrow> ('k \<times> 'v) option"
    and final :: "'m \<Rightarrow> ('k \<times> 'v) option"
  assumes wf_put: "wf m \<Longrightarrow> wf (put k v m)"
    and wf_del: "wf m \<Longrightarrow> wf (del k m)"
    and lookup_put: "wf m \<Longrightarrow> lookup (put k v m) = (lookup m)(k \<mapsto> v)"
    and lookup_del: "wf m \<Longrightarrow> lookup (del k m) = (lookup m)(k := None)"
    and entries_sorted: "wf m \<Longrightarrow> sorted_wrt (<) (map fst (entries m))"
    and entries_lookup: "wf m \<Longrightarrow> (k, v) \<in> set (entries m) \<longleftrightarrow> lookup m k = Some v"
    and first_entries: "first m = (if entries m = [] then None else Some (hd (entries m)))"
    and final_entries: "final m = (if entries m = [] then None else Some (last (entries m)))"
begin

lemma entries_empty_iff: "wf m \<Longrightarrow> entries m = [] \<longleftrightarrow> lookup m = (\<lambda>_. None)"
proof
  assume "wf m" and e: "entries m = []"
  then show "lookup m = (\<lambda>_. None)"
    using entries_lookup [OF \<open>wf m\<close>] by (metis empty_iff empty_set not_None_eq ext)
next
  assume "wf m" and l: "lookup m = (\<lambda>_. None)"
  then have "(k, v) \<notin> set (entries m)" for k v
    by (simp add: entries_lookup)
  then have "set (entries m) = {}" by (metis ex_in_conv surj_pair)
  then show "entries m = []" by simp
qed

lemma first_None_iff: "wf m \<Longrightarrow> first m = None \<longleftrightarrow> lookup m = (\<lambda>_. None)"
  by (simp add: first_entries entries_empty_iff)

lemma final_None_iff: "wf m \<Longrightarrow> final m = None \<longleftrightarrow> lookup m = (\<lambda>_. None)"
  by (simp add: final_entries entries_empty_iff)

lemma first_lookup: "wf m \<Longrightarrow> first m = Some (k, v) \<Longrightarrow> lookup m k = Some v"
  using entries_lookup [of m k v] by (auto simp: first_entries split: if_splits) (metis hd_in_set)

lemma final_lookup: "wf m \<Longrightarrow> final m = Some (k, v) \<Longrightarrow> lookup m k = Some v"
  using entries_lookup [of m k v] by (auto simp: final_entries split: if_splits) (metis last_in_set)

lemma first_least:
  assumes "wf m" and "first m = Some (k, v)" and "lookup m k' = Some v'"
  shows "k \<le> k'"
proof -
  from assms(2) obtain es where es: "entries m = (k, v) # es"
    by (cases "entries m") (auto simp: first_entries)
  moreover have "(k', v') \<in> set (entries m)"
    using assms(1,3) by (simp add: entries_lookup)
  ultimately show ?thesis
    using entries_sorted [OF assms(1)] by (auto simp: less_imp_le)
qed

lemma final_greatest:
  assumes "wf m" and "final m = Some (k, v)" and "lookup m k' = Some v'"
  shows "k' \<le> k"
proof -
  from assms(2) obtain es where es: "entries m = es @ [(k, v)]"
    by (cases "entries m" rule: rev_cases) (auto simp: final_entries)
  moreover have "(k', v') \<in> set (entries m)"
    using assms(1,3) by (simp add: entries_lookup)
  ultimately show ?thesis
    using entries_sorted [OF assms(1)] by (auto simp: sorted_wrt_append less_imp_le)
qed

end

section \<open>The operations satisfy the contract\<close>

lemma bt_wf_Nil [simp]: "bt_wf []"
  by (simp add: bt_wf_def)

lemma bt_wf_Cons [simp]: "bt_wf ((a, b) # m) \<longleftrightarrow> (\<forall>x \<in> fst ` set m. a < x) \<and> bt_wf m"
  by (auto simp: bt_wf_def)

lemma bt_wf_append:
  "bt_wf (m @ n) \<longleftrightarrow> bt_wf m \<and> bt_wf n \<and> (\<forall>x \<in> fst ` set m. \<forall>y \<in> fst ` set n. x < y)"
  by (auto simp: bt_wf_def sorted_wrt_append)

lemma fst_set_bt_insert: "fst ` set (bt_insert k v m) = insert k (fst ` set m)"
  by (induction k v m rule: bt_insert.induct) auto

lemma fst_set_bt_remove: "fst ` set (bt_remove k m) \<subseteq> fst ` set m"
  by (induction k m rule: bt_remove.induct) auto

lemma bt_wf_insert [simp]: "bt_wf m \<Longrightarrow> bt_wf (bt_insert k v m)"
  by (induction k v m rule: bt_insert.induct) (auto simp: fst_set_bt_insert)

lemma bt_wf_remove [simp]: "bt_wf m \<Longrightarrow> bt_wf (bt_remove k m)"
proof (induction k m rule: bt_remove.induct)
  case (2 k a b m)
  then have "\<forall>x \<in> fst ` set (bt_remove k m). a < x"
    using fst_set_bt_remove [of k m] by (simp add: subset_iff) (metis image_iff)
  with "2" show ?case by auto
qed simp

lemma map_of_less: "bt_wf m \<Longrightarrow> \<forall>x \<in> fst ` set m. a < x \<Longrightarrow> map_of m a = None"
  by (auto simp: map_of_eq_None_iff)

lemma bt_get_insert [simp]: "map_of (bt_insert k v m) = (map_of m)(k \<mapsto> v)"
  by (induction k v m rule: bt_insert.induct) auto

lemma bt_get_remove [simp]: "bt_wf m \<Longrightarrow> map_of (bt_remove k m) = (map_of m)(k := None)"
proof (induction k m rule: bt_remove.induct)
  case (2 k a b m)
  then show ?case by (auto simp: fun_eq_iff map_of_less)
qed simp

lemma bt_entries: "bt_wf m \<Longrightarrow> (k, v) \<in> set m \<longleftrightarrow> map_of m k = Some v"
  by (metis bt_wf_def map_of_eq_Some_iff strict_sorted_iff)

interpretation bt: ordered_map bt_wf map_of id bt_insert bt_remove
  bt_first_key_value bt_last_key_value
proof unfold_locales
  fix m :: "('a::linorder \<times> 'b) list"
  show "bt_wf m \<Longrightarrow> sorted_wrt (<) (map fst (id m))"
    by (simp add: bt_wf_def)
  show "bt_first_key_value m = (if id m = [] then None else Some (hd (id m)))"
    by (simp add: bt_first_key_value_def split: list.split)
  show "bt_last_key_value m = (if id m = [] then None else Some (last (id m)))"
    by (simp add: bt_last_key_value_def split: list.split)
qed (simp_all add: bt_entries)

section \<open>Splitting a map at a key\<close>

lemma bt_split_present:
  assumes "bt_wf m" and "map_of m k = Some v"
  obtains l r where "m = l @ (k, v) # r"
    and "\<forall>x \<in> fst ` set l. x < k" and "\<forall>x \<in> fst ` set r. k < x"
proof -
  from assms have "(k, v) \<in> set m" by (simp add: bt_entries)
  then obtain l r where m: "m = l @ (k, v) # r" by (auto simp: in_set_conv_decomp)
  with assms(1) have "\<forall>x \<in> fst ` set l. x < k" and "\<forall>x \<in> fst ` set r. k < x"
    by (auto simp: bt_wf_append)
  with m show thesis by (rule that)
qed

lemma bt_split_absent:
  assumes "bt_wf m" and "map_of m k = None"
  obtains l r where "m = l @ r"
    and "\<forall>x \<in> fst ` set l. x < k" and "\<forall>x \<in> fst ` set r. k < x"
proof
  show "m = filter (\<lambda>e. fst e < k) m @ filter (\<lambda>e. k < fst e) m"
    using assms
  proof (induction m)
    case (Cons e m)
    obtain a b where e: "e = (a, b)" by force
    from Cons.prems e have IH: "m = filter (\<lambda>e. fst e < k) m @ filter (\<lambda>e. k < fst e) m"
      by (intro Cons.IH) (auto split: if_splits)
    show ?case
    proof (cases "a < k")
      case True
      with IH e show ?thesis by simp
    next
      case False
      with Cons.prems e have "k < a" by (auto split: if_splits)
      with Cons.prems e have "\<forall>x \<in> set m. k < fst x" by fastforce
      then have "filter (\<lambda>e. fst e < k) m = []" and "filter (\<lambda>e. k < fst e) m = m"
        by (auto simp: filter_empty_conv filter_id_conv)
      with \<open>k < a\<close> e show ?thesis by simp
    qed
  qed simp
qed auto

lemma bt_insert_split:
  assumes "\<forall>x \<in> fst ` set l. x < k" and "\<forall>x \<in> fst ` set r. k < x"
  shows "bt_insert k v (l @ r) = l @ (k, v) # r"
    and "bt_insert k v (l @ (k, w) # r) = l @ (k, v) # r"
  using assms
  by (induction l) (auto split: prod.split, (cases r; auto)+)

lemma bt_remove_split:
  fixes k :: "'k::linorder"
  assumes "\<forall>x \<in> fst ` set l. x < k"
  shows "bt_remove k (l @ (k, w) # r) = l @ r"
  using assms by (induction l) auto

end
