(* ===== verification/Arena.thy ===== *)
theory Arena
  imports Prelude
begin

text \<open>
  The generational arena of \<open>crates/arena/src/lib.rs\<close>: \<open>ArenaIdx\<close>, \<open>Slot\<close>,
  \<open>Arena\<close> and all of their operations.

  A slot's \<open>MaybeUninit<T>\<close> storage is a \<open>storage\<close>: uninitialised, the intrusive free-list
  link that \<open>write_next_free\<close> puts there, or a value. The operations in \<open>unsafe\<close> blocks
  (\<open>get_unchecked_mut\<close>, \<open>read_next_free\<close>, the \<open>assume_init\<close> family) yield
  \<open>UndefinedBehaviour\<close> where Rust gives them no meaning, so "never faults" is memory safety.

  \<open>arena_wf\<close> is the representation invariant (the free list threads exactly the vacant slots),
  \<open>arena_map\<close> the abstraction to a finite map from handles to values, and the locale
  \<open>slot_store\<close> the contract the order book relies on; its interpretation \<open>ar\<close> is the
  refinement of that contract by the code.
\<close>

section \<open>Handles\<close>

record ArenaIdx =
  idx_slot :: u32
  idx_generation :: u32

definition SENTINEL :: ArenaIdx where
  "SENTINEL = \<lparr>idx_slot = 0, idx_generation = 0\<rparr>"

definition is_valid :: "ArenaIdx \<Rightarrow> bool" where
  "is_valid i \<longleftrightarrow> i \<noteq> SENTINEL"

definition ArenaIdx_new :: "u32 \<Rightarrow> u32 \<Rightarrow> ArenaIdx" where
  "ArenaIdx_new s g = \<lparr>idx_slot = s, idx_generation = g\<rparr>"

definition MAX_CAPACITY :: u32 where
  "MAX_CAPACITY = u32_MAX - 1"

section \<open>Slots\<close>

datatype 'a storage = Uninit | NextFree u32 | Live 'a

record 'a Slot =
  sl_generation :: u32
  sl_occupied :: u8
  sl_value :: "'a storage"

fun assume_init :: "'a storage \<Rightarrow> 'a res" where
  "assume_init (Live v) = Inr v"
| "assume_init _ = Inl (UndefinedBehaviour ''assume_init on storage that holds no value'')"

definition Slot_insert :: "profile \<Rightarrow> 'a Slot \<Rightarrow> 'a \<Rightarrow> 'a Slot res" where
  "Slot_insert p s v =
     rbind (debug_assert p (sl_occupied s = 0) ''insert on occupied slot'') (\<lambda>_.
       Inr (s\<lparr>sl_value := Live v, sl_occupied := 1\<rparr>))"

definition Slot_get :: "'a Slot \<Rightarrow> u32 \<Rightarrow> 'a option res" where
  "Slot_get s g =
     (if sl_occupied s = 1 \<and> g = sl_generation s
      then rbind (assume_init (sl_value s)) (\<lambda>v. Inr (Some v)) else Inr None)"

text \<open>
  \<open>get_mut\<close> hands out a mutable borrow: the current value and the write through it.
\<close>

definition Slot_get_mut :: "'a Slot \<Rightarrow> u32 \<Rightarrow> ('a \<times> ('a \<Rightarrow> 'a Slot)) option res" where
  "Slot_get_mut s g =
     (if sl_occupied s = 1 \<and> g = sl_generation s
      then rbind (assume_init (sl_value s)) (\<lambda>v. Inr (Some (v, \<lambda>v'. s\<lparr>sl_value := Live v'\<rparr>)))
      else Inr None)"

text \<open>The generation step of \<open>Slot::remove\<close>: wrap around, skipping the sentinel's 0.\<close>

definition next_generation :: "u32 \<Rightarrow> u32" where
  "next_generation g = (if g + 1 = 0 then 1 else g + 1)"

definition Slot_remove :: "'a Slot \<Rightarrow> u32 \<Rightarrow> ('a Slot \<times> 'a option) res" where
  "Slot_remove s g =
     (if sl_occupied s \<noteq> 1 \<or> sl_generation s \<noteq> g then Inr (s, None)
      else let s' = s\<lparr>sl_occupied := 0, sl_generation := next_generation (sl_generation s)\<rparr>
           in rbind (assume_init (sl_value s')) (\<lambda>v. Inr (s', Some v)))"

definition write_next_free :: "'a Slot \<Rightarrow> u32 \<Rightarrow> 'a Slot" where
  "write_next_free s n = s\<lparr>sl_value := NextFree n\<rparr>"

definition read_next_free :: "'a Slot \<Rightarrow> u32 res" where
  "read_next_free s =
     (case sl_value s of NextFree n \<Rightarrow> Inr n
      | _ \<Rightarrow> Inl (UndefinedBehaviour ''free-list link read from storage that holds none''))"

section \<open>The arena\<close>

record 'a Arena =
  ar_slots :: "'a Slot list"
  ar_free_head :: u32
  ar_len :: usize

text \<open>\<open>ASSERT_T_LAYOUT\<close>, evaluated at compile time for each \<open>T\<close>.\<close>

definition ASSERT_T_LAYOUT :: "nat \<Rightarrow> nat \<Rightarrow> bool" where
  "ASSERT_T_LAYOUT size_of_T align_of_T \<longleftrightarrow> 4 \<le> size_of_T \<and> 4 \<le> align_of_T"

definition Arena_new :: "u32 \<Rightarrow> 'a Arena res" where
  "Arena_new capacity =
     rbind (assert_that (0 < capacity \<and> capacity < u32_MAX) ''invalid capacity'') (\<lambda>_.
       let mk = (\<lambda>i :: u32.
             let slot = \<lparr>sl_generation = 1, sl_occupied = 0, sl_value = Uninit\<rparr>;
                 nxt = (if i + 1 < capacity then i + 1 else u32_MAX)
             in write_next_free slot nxt)
       in Inr \<lparr>ar_slots = map (\<lambda>i. mk (of_nat i)) [0..<unat capacity],
               ar_free_head = 0, ar_len = 0\<rparr>)"

definition Arena_get :: "'a Arena \<Rightarrow> ArenaIdx \<Rightarrow> 'a option res" where
  "Arena_get a idx =
     (if \<not> is_valid idx then Inr None
      else case slice_get (ar_slots a) (unat (idx_slot idx)) of
        None \<Rightarrow> Inr None
      | Some s \<Rightarrow> Slot_get s (idx_generation idx))"

definition Arena_get_mut :: "'a Arena \<Rightarrow> ArenaIdx \<Rightarrow> ('a \<times> ('a \<Rightarrow> 'a Arena)) option res" where
  "Arena_get_mut a idx =
     (if \<not> is_valid idx then Inr None
      else case slice_get (ar_slots a) (unat (idx_slot idx)) of
        None \<Rightarrow> Inr None
      | Some s \<Rightarrow>
          rbind (Slot_get_mut s (idx_generation idx)) (\<lambda>r.
            Inr (map_option (\<lambda>(v, w). (v, \<lambda>v'.
              a\<lparr>ar_slots := (ar_slots a)[unat (idx_slot idx) := w v']\<rparr>)) r)))"

definition get_unchecked :: "'a list \<Rightarrow> nat \<Rightarrow> 'a res" where
  "get_unchecked xs i =
     (case slice_get xs i of
        None \<Rightarrow> Inl (UndefinedBehaviour ''get_unchecked_mut out of bounds'')
      | Some x \<Rightarrow> Inr x)"

definition Arena_alloc :: "profile \<Rightarrow> 'a Arena \<Rightarrow> 'a \<Rightarrow> ('a Arena \<times> ArenaIdx option) res" where
  "Arena_alloc p a v =
     (if ar_free_head a = u32_MAX then Inr (a, None)
      else let slot_idx = ar_free_head a in
        rbind (get_unchecked (ar_slots a) (unat slot_idx)) (\<lambda>s.
        rbind (read_next_free s) (\<lambda>next_free_slot.
        let g = sl_generation s in
        rbind (Slot_insert p s v) (\<lambda>s'.
        rbind (plus_u p (ar_len a) 1) (\<lambda>len'.
          Inr (\<lparr>ar_slots = (ar_slots a)[unat slot_idx := s'],
                ar_free_head = next_free_slot, ar_len = len'\<rparr>,
               Some \<lparr>idx_slot = slot_idx, idx_generation = g\<rparr>))))))"

definition Arena_remove :: "profile \<Rightarrow> 'a Arena \<Rightarrow> ArenaIdx \<Rightarrow> ('a Arena \<times> 'a option) res" where
  "Arena_remove p a idx =
     (case slice_get (ar_slots a) (unat (idx_slot idx)) of
        None \<Rightarrow> Inr (a, None)
      | Some s \<Rightarrow>
          rbind (Slot_remove s (idx_generation idx)) (\<lambda>(s', r).
            case r of
              None \<Rightarrow> Inr (a\<lparr>ar_slots := (ar_slots a)[unat (idx_slot idx) := s']\<rparr>, None)
            | Some v \<Rightarrow>
                rbind (minus_u p (ar_len a) 1) (\<lambda>len'.
                  Inr (\<lparr>ar_slots = (ar_slots a)[unat (idx_slot idx) :=
                                     write_next_free s' (ar_free_head a)],
                        ar_free_head = idx_slot idx, ar_len = len'\<rparr>, Some v))))"

text \<open>\<open>Drop for Arena\<close>: the values whose destructor runs, in slot order.\<close>

fun drop_slots :: "'a Slot list \<Rightarrow> 'a list res" where
  "drop_slots [] = Inr []"
| "drop_slots (s # ss) =
     (if sl_occupied s = 1
      then rbind (assume_init (sl_value s)) (\<lambda>v. rbind (drop_slots ss) (\<lambda>vs. Inr (v # vs)))
      else drop_slots ss)"

definition Arena_drop :: "bool \<Rightarrow> 'a Arena \<Rightarrow> 'a list res" where
  "Arena_drop needs_drop a = (if \<not> needs_drop then Inr [] else drop_slots (ar_slots a))"

section \<open>Representation invariant and abstraction\<close>

text \<open>\<open>free_chain ss h fs\<close>: following the links from \<open>h\<close> visits the slots \<open>fs\<close> and stops.\<close>

fun free_chain :: "'a Slot list \<Rightarrow> u32 \<Rightarrow> nat list \<Rightarrow> bool" where
  "free_chain ss h [] \<longleftrightarrow> h = u32_MAX"
| "free_chain ss h (i # fs) \<longleftrightarrow>
     h = of_nat i \<and> i < length ss \<and> (\<exists>n. sl_value (ss ! i) = NextFree n \<and> free_chain ss n fs)"

definition slot_wf :: "'a Slot \<Rightarrow> bool" where
  "slot_wf s \<longleftrightarrow> sl_generation s \<noteq> 0 \<and>
     (sl_occupied s = 0 \<or> sl_occupied s = 1 \<and> (\<exists>v. sl_value s = Live v))"

definition live_count :: "'a Slot list \<Rightarrow> nat" where
  "live_count ss = length (filter (\<lambda>s. sl_occupied s = 1) ss)"

definition arena_fl :: "'a Arena \<Rightarrow> nat list \<Rightarrow> bool" where
  "arena_fl a fs \<longleftrightarrow>
     0 < length (ar_slots a) \<and> length (ar_slots a) < 4294967295 \<and>
     (\<forall>s \<in> set (ar_slots a). slot_wf s) \<and>
     free_chain (ar_slots a) (ar_free_head a) fs \<and> distinct fs \<and>
     set fs = {i. i < length (ar_slots a) \<and> sl_occupied (ar_slots a ! i) = 0} \<and>
     ar_len a = of_nat (live_count (ar_slots a))"

definition arena_wf :: "'a Arena \<Rightarrow> bool" where
  "arena_wf a \<longleftrightarrow> (\<exists>fs. arena_fl a fs)"

definition arena_map :: "'a Arena \<Rightarrow> ArenaIdx \<Rightarrow> 'a option" where
  "arena_map a idx =
     (case slice_get (ar_slots a) (unat (idx_slot idx)) of
        None \<Rightarrow> None
      | Some s \<Rightarrow>
          (if sl_occupied s = 1 \<and> sl_generation s = idx_generation idx
           then (case sl_value s of Live v \<Rightarrow> Some v | _ \<Rightarrow> None) else None))"

definition arena_capacity :: "'a Arena \<Rightarrow> nat" where
  "arena_capacity a = length (ar_slots a)"

text \<open>The write through a borrow that \<open>get_mut\<close> handed out.\<close>

definition Arena_put :: "'a Arena \<Rightarrow> ArenaIdx \<Rightarrow> 'a \<Rightarrow> 'a Arena" where
  "Arena_put a idx v =
     a\<lparr>ar_slots := (ar_slots a)[unat (idx_slot idx) :=
         (ar_slots a ! unat (idx_slot idx))\<lparr>sl_value := Live v\<rparr>]\<rparr>"

lemma free_chain_update:
  "i \<notin> set fs \<Longrightarrow> free_chain (ss[i := s]) h fs = free_chain ss h fs"
  by (induction ss h fs rule: free_chain.induct) auto

lemma live_count_update:
  assumes "i < length ss"
  shows "live_count (ss[i := s]) + (if sl_occupied (ss ! i) = 1 then 1 else 0)
    = live_count ss + (if sl_occupied s = 1 then 1 else 0)"
  using length_filter_list_update [OF assms, of "\<lambda>s. sl_occupied s = 1" s]
  by (simp add: live_count_def)

lemma live_count_le: "live_count ss \<le> length ss"
  by (simp add: live_count_def)

lemma arena_map_Some:
  "arena_map a idx = Some v \<longleftrightarrow>
     unat (idx_slot idx) < length (ar_slots a) \<and>
     sl_occupied (ar_slots a ! unat (idx_slot idx)) = 1 \<and>
     sl_generation (ar_slots a ! unat (idx_slot idx)) = idx_generation idx \<and>
     sl_value (ar_slots a ! unat (idx_slot idx)) = Live v"
  by (auto simp: arena_map_def slice_get_def split: storage.splits)

lemma arena_fl_slot:
  "arena_fl a fs \<Longrightarrow> i < length (ar_slots a) \<Longrightarrow> slot_wf (ar_slots a ! i)"
  by (auto simp: arena_fl_def)

lemma arena_wf_slot: "arena_wf a \<Longrightarrow> i < length (ar_slots a) \<Longrightarrow> slot_wf (ar_slots a ! i)"
  by (auto simp: arena_wf_def intro: arena_fl_slot)

lemma arena_map_None:
  assumes "arena_wf a"
  shows "arena_map a idx = None \<longleftrightarrow>
     (unat (idx_slot idx) < length (ar_slots a) \<longrightarrow>
        sl_occupied (ar_slots a ! unat (idx_slot idx)) \<noteq> 1 \<or>
        sl_generation (ar_slots a ! unat (idx_slot idx)) \<noteq> idx_generation idx)"
  using arena_wf_slot [OF assms, of "unat (idx_slot idx)"]
  by (auto simp: arena_map_def slice_get_def slot_wf_def split: storage.splits)

lemma arena_map_sentinel: "arena_wf a \<Longrightarrow> arena_map a SENTINEL = None"
  using arena_wf_slot [of a 0] by (auto simp: arena_map_None SENTINEL_def slot_wf_def)

text \<open>Handles of live values: one per occupied slot.\<close>

definition slot_handle :: "'a Arena \<Rightarrow> nat \<Rightarrow> ArenaIdx" where
  "slot_handle a i = \<lparr>idx_slot = of_nat i, idx_generation = sl_generation (ar_slots a ! i)\<rparr>"

lemma arena_wf_length: "arena_wf a \<Longrightarrow> length (ar_slots a) < 4294967295"
  by (auto simp: arena_wf_def arena_fl_def)

lemma dom_arena_map:
  assumes "arena_wf a"
  shows "dom (arena_map a) =
    slot_handle a ` {i. i < length (ar_slots a) \<and> sl_occupied (ar_slots a ! i) = 1}"
proof (intro set_eqI iffI)
  fix idx assume "idx \<in> dom (arena_map a)"
  then obtain v where "arena_map a idx = Some v" by auto
  then show "idx \<in> slot_handle a ` {i. i < length (ar_slots a) \<and> sl_occupied (ar_slots a ! i) = 1}"
    by (intro image_eqI [of _ _ "unat (idx_slot idx)"]) (auto simp: arena_map_Some slot_handle_def)
next
  fix idx assume "idx \<in> slot_handle a ` {i. i < length (ar_slots a) \<and> sl_occupied (ar_slots a ! i) = 1}"
  then obtain i where i: "idx = slot_handle a i" "i < length (ar_slots a)"
    "sl_occupied (ar_slots a ! i) = 1" by auto
  with arena_wf_slot [OF assms, of i] arena_wf_length [OF assms]
  show "idx \<in> dom (arena_map a)"
    by (auto simp: dom_def arena_map_Some slot_handle_def slot_wf_def unat_of_nat_u32)
qed

lemma inj_slot_handle:
  assumes "arena_wf a"
  shows "inj_on (slot_handle a) {i. i < length (ar_slots a) \<and> P i}"
proof (rule inj_onI)
  fix i j assume "i \<in> {i. i < length (ar_slots a) \<and> P i}" "j \<in> {i. i < length (ar_slots a) \<and> P i}"
  then have "i < 4294967296" "j < 4294967296"
    using arena_wf_length [OF assms] by auto
  moreover assume "slot_handle a i = slot_handle a j"
  then have "unat (of_nat i :: u32) = unat (of_nat j :: u32)"
    by (simp add: slot_handle_def)
  ultimately show "i = j" by (simp only: unat_of_nat_u32)
qed

lemma card_arena_map:
  assumes "arena_wf a"
  shows "card (dom (arena_map a)) = live_count (ar_slots a)"
  by (simp add: dom_arena_map [OF assms] card_image [OF inj_slot_handle [OF assms]]
      live_count_def length_filter_conv_card)

lemma finite_arena_map: "arena_wf a \<Longrightarrow> finite (dom (arena_map a))"
  by (simp add: dom_arena_map)

section \<open>Every operation keeps the invariant and acts on the map\<close>

lemma arena_fl_head:
  assumes "arena_fl a fs"
  shows "ar_free_head a = u32_MAX \<longleftrightarrow> fs = []"
proof (cases fs)
  case (Cons i fs')
  with assms have "ar_free_head a = of_nat i" "i < 4294967295"
    by (auto simp: arena_fl_def)
  then have "unat (ar_free_head a) < 4294967295" by (simp add: unat_of_nat_u32)
  then have "ar_free_head a \<noteq> u32_MAX" by auto
  with Cons show ?thesis by simp
qed (use assms in \<open>auto simp: arena_fl_def\<close>)

lemma arena_fl_count:
  assumes "arena_fl a fs"
  shows "length fs + live_count (ar_slots a) = length (ar_slots a)"
proof -
  let ?F = "{i. i < length (ar_slots a) \<and> sl_occupied (ar_slots a ! i) = 0}"
  let ?L = "{i. i < length (ar_slots a) \<and> sl_occupied (ar_slots a ! i) = 1}"
  from assms have "distinct fs" "set fs = ?F" by (auto simp: arena_fl_def)
  then have "length fs = card ?F" by (metis distinct_card)
  moreover have "live_count (ar_slots a) = card ?L"
    by (simp add: live_count_def length_filter_conv_card)
  moreover have "?F \<union> ?L = {..<length (ar_slots a)}"
    using arena_fl_slot [OF assms] by (auto simp: slot_wf_def)
  then have "card (?F \<union> ?L) = length (ar_slots a)" by simp
  moreover have "?F \<inter> ?L = {}" by auto
  ultimately show ?thesis by (simp add: card_Un_disjoint)
qed

lemma arena_len_ok:
  assumes "arena_wf a"
  shows "unat (ar_len a) = live_count (ar_slots a)"
  using assms live_count_le [of "ar_slots a"]
  by (auto simp: arena_wf_def arena_fl_def unat_of_nat_u64)

lemma arena_get_spec:
  assumes "arena_wf a"
  shows "Arena_get a idx = Inr (arena_map a idx)"
  using arena_map_sentinel [OF assms] arena_wf_slot [OF assms, of "unat (idx_slot idx)"]
  by (auto simp: Arena_get_def is_valid_def arena_map_def slice_get_def Slot_get_def slot_wf_def)

lemma arena_get_mut_None:
  assumes "arena_wf a" and "arena_map a idx = None"
  shows "Arena_get_mut a idx = Inr None"
  using assms
  by (auto simp: Arena_get_mut_def arena_map_None slice_get_def Slot_get_mut_def)

lemma arena_get_mut_Some:
  assumes "arena_wf a" and "arena_map a idx = Some v"
  shows "Arena_get_mut a idx = Inr (Some (v, Arena_put a idx))"
proof -
  have "is_valid idx" using assms arena_map_sentinel [of a] by (auto simp: is_valid_def)
  with assms show ?thesis
    by (auto simp: Arena_get_mut_def arena_map_Some slice_get_def Slot_get_mut_def Arena_put_def)
qed

lemma arena_put_spec:
  assumes wf: "arena_wf a" and idx: "arena_map a idx = Some v"
  shows "arena_wf (Arena_put a idx v')"
    and "arena_map (Arena_put a idx v') = (arena_map a)(idx \<mapsto> v')"
    and "arena_capacity (Arena_put a idx v') = arena_capacity a"
proof -
  let ?i = "unat (idx_slot idx)"
  let ?s = "(ar_slots a ! ?i)\<lparr>sl_value := Live v'\<rparr>"
  from wf obtain fs where fl: "arena_fl a fs" by (auto simp: arena_wf_def)
  from idx have i: "?i < length (ar_slots a)" "sl_occupied (ar_slots a ! ?i) = 1"
    "sl_generation (ar_slots a ! ?i) = idx_generation idx" by (auto simp: arena_map_Some)
  with fl have "?i \<notin> set fs" by (auto simp: arena_fl_def)
  moreover have "live_count ((ar_slots a)[?i := ?s]) = live_count (ar_slots a)"
    using live_count_update [OF i(1), of ?s] i(2) by simp
  moreover have "slot_wf ?s"
    using arena_fl_slot [OF fl i(1)] i(2) by (auto simp: slot_wf_def)
  ultimately have "arena_fl (Arena_put a idx v') fs"
    using fl i set_update_subset_insert [of "ar_slots a" ?i ?s]
    by (auto simp: arena_fl_def Arena_put_def free_chain_update nth_list_update)
  then show "arena_wf (Arena_put a idx v')" by (auto simp: arena_wf_def)
  show "arena_map (Arena_put a idx v') = (arena_map a)(idx \<mapsto> v')"
  proof
    fix j
    show "arena_map (Arena_put a idx v') j = ((arena_map a)(idx \<mapsto> v')) j"
      using i by (cases "idx_slot j = idx_slot idx"; cases "idx_generation j = idx_generation idx")
        (auto simp: arena_map_def Arena_put_def slice_get_def nth_list_update)
  qed
  show "arena_capacity (Arena_put a idx v') = arena_capacity a"
    by (simp add: arena_capacity_def Arena_put_def)
qed

lemma arena_alloc_full:
  assumes "arena_wf a" and "card (dom (arena_map a)) = arena_capacity a"
  shows "Arena_alloc p a v = Inr (a, None)"
proof -
  from assms(1) obtain fs where fl: "arena_fl a fs" by (auto simp: arena_wf_def)
  with assms have "fs = []"
    using arena_fl_count [OF fl] card_arena_map [OF assms(1)] by (simp add: arena_capacity_def)
  with arena_fl_head [OF fl] show ?thesis by (simp add: Arena_alloc_def)
qed

lemma arena_alloc_ok:
  assumes wf: "arena_wf a" and room: "card (dom (arena_map a)) < arena_capacity a"
  obtains a' idx where "Arena_alloc p a v = Inr (a', Some idx)"
    and "idx_slot idx = ar_free_head a"
    and "idx_generation idx = sl_generation (ar_slots a ! unat (ar_free_head a))"
    and "arena_wf a'" and "arena_map a idx = None" and "is_valid idx"
    and "arena_map a' = (arena_map a)(idx \<mapsto> v)" and "arena_capacity a' = arena_capacity a"
proof -
  from wf obtain fs where fl: "arena_fl a fs" by (auto simp: arena_wf_def)
  have cnt: "live_count (ar_slots a) < length (ar_slots a)"
    using room card_arena_map [OF wf] by (simp add: arena_capacity_def)
  then obtain i fs' where fs: "fs = i # fs'"
    using arena_fl_count [OF fl] by (cases fs) auto
  define s where "s = ar_slots a ! i"
  from fl fs obtain n where i: "i < length (ar_slots a)" "sl_occupied s = 0"
    and head: "ar_free_head a = of_nat i" and n: "sl_value s = NextFree n"
    and chain: "free_chain (ar_slots a) n fs'" and dist: "i \<notin> set fs'" "distinct fs'"
    by (auto simp: arena_fl_def s_def)
  from fl i have uh: "unat (ar_free_head a) = i"
    by (simp add: head arena_fl_def unat_of_nat_u32)
  let ?s' = "s\<lparr>sl_value := Live v, sl_occupied := 1\<rparr>"
  let ?a' = "\<lparr>ar_slots = (ar_slots a)[i := ?s'], ar_free_head = n, ar_len = ar_len a + 1\<rparr>"
  let ?idx = "\<lparr>idx_slot = ar_free_head a, idx_generation = sl_generation s\<rparr>"
  have len: "plus_u p (ar_len a) 1 = Inr (ar_len a + 1)"
    using arena_len_ok [OF wf] cnt arena_wf_length [OF wf] by (intro plus_u_ok) auto
  have gen: "sl_generation s \<noteq> 0"
    using arena_fl_slot [OF fl i(1)] by (simp add: s_def slot_wf_def)
  have live: "live_count ((ar_slots a)[i := ?s']) = live_count (ar_slots a) + 1"
    using live_count_update [OF i(1), of ?s'] i(2) by (simp add: s_def)
  have eq: "Arena_alloc p a v = Inr (?a', Some ?idx)"
    using arena_fl_head [OF fl] fs i n uh len
    by (simp add: Arena_alloc_def get_unchecked_def slice_get_def read_next_free_def
        Slot_insert_def s_def Let_def)
  have "arena_fl ?a' fs'"
    using fl fs i n chain dist live gen set_update_subset_insert [of "ar_slots a" i ?s']
    by (auto simp: arena_fl_def free_chain_update nth_list_update slot_wf_def)
  then have wf': "arena_wf ?a'" by (auto simp: arena_wf_def)
  moreover have none: "arena_map a ?idx = None"
    using i uh by (simp add: arena_map_def slice_get_def s_def)
  moreover have "arena_map ?a' = (arena_map a)(?idx \<mapsto> v)"
  proof
    fix j
    show "arena_map ?a' j = ((arena_map a)(?idx \<mapsto> v)) j"
      using i uh head by (cases "idx_slot j = ar_free_head a"; cases "idx_generation j = sl_generation s")
        (auto simp: arena_map_def slice_get_def s_def nth_list_update)
  qed
  ultimately show thesis
    using that [of ?a' ?idx] eq gen uh
    by (simp add: is_valid_def SENTINEL_def arena_capacity_def s_def)
qed

lemma next_generation_nonzero [simp]: "next_generation g \<noteq> 0"
  by (simp add: next_generation_def)

lemma arena_remove_None:
  assumes "arena_wf a" and "arena_map a idx = None"
  shows "Arena_remove p a idx = Inr (a, None)"
  using assms
  by (auto simp: Arena_remove_def arena_map_None slice_get_def Slot_remove_def)

lemma arena_remove_Some:
  assumes wf: "arena_wf a" and idx: "arena_map a idx = Some v"
  obtains a' where "Arena_remove p a idx = Inr (a', Some v)"
    and "arena_wf a'" and "arena_map a' = (arena_map a)(idx := None)"
    and "arena_capacity a' = arena_capacity a"
    and "ar_free_head a' = idx_slot idx"
    and "sl_generation (ar_slots a' ! unat (idx_slot idx)) = next_generation (idx_generation idx)"
proof -
  from wf obtain fs where fl: "arena_fl a fs" by (auto simp: arena_wf_def)
  define i where "i = unat (idx_slot idx)"
  define s where "s = ar_slots a ! i"
  from idx have i: "i < length (ar_slots a)" "sl_occupied s = 1"
    "sl_generation s = idx_generation idx" "sl_value s = Live v"
    by (auto simp: arena_map_Some i_def s_def)
  let ?s' = "s\<lparr>sl_occupied := 0, sl_generation := next_generation (sl_generation s),
    sl_value := NextFree (ar_free_head a)\<rparr>"
  let ?a' = "\<lparr>ar_slots = (ar_slots a)[i := ?s'], ar_free_head = idx_slot idx, ar_len = ar_len a - 1\<rparr>"
  have live: "live_count ((ar_slots a)[i := ?s']) + 1 = live_count (ar_slots a)"
    using live_count_update [OF i(1), of ?s'] i(2) by (simp add: s_def)
  then have "1 \<le> unat (ar_len a)" using arena_len_ok [OF wf] by simp
  then have "minus_u p (ar_len a) 1 = Inr (ar_len a - 1)"
    by (intro minus_u_ok) (simp add: word_le_nat_alt)
  then have eq: "Arena_remove p a idx = Inr (?a', Some v)"
    using i by (simp add: Arena_remove_def slice_get_def Slot_remove_def write_next_free_def
        flip: i_def s_def)
  have len: "ar_len a - 1 = of_nat (live_count ((ar_slots a)[i := ?s']))"
    using fl by (simp add: arena_fl_def flip: live)
  have "i \<notin> set fs" using fl i by (auto simp: arena_fl_def s_def)
  moreover have "idx_slot idx = of_nat i" by (simp add: i_def)
  ultimately have "arena_fl ?a' (i # fs)"
    using fl i len set_update_subset_insert [of "ar_slots a" i ?s']
    by (auto simp: arena_fl_def free_chain_update nth_list_update slot_wf_def s_def)
  then have "arena_wf ?a'" by (auto simp: arena_wf_def)
  moreover have "arena_map ?a' = (arena_map a)(idx := None)"
  proof
    fix j
    show "arena_map ?a' j = ((arena_map a)(idx := None)) j"
      using i by (cases "idx_slot j = idx_slot idx"; cases "idx_generation j = idx_generation idx")
        (auto simp: arena_map_def slice_get_def nth_list_update i_def s_def)
  qed
  ultimately show thesis
    using that [of ?a'] eq i by (simp add: arena_capacity_def i_def)
qed

lemma free_chain_map_upt:
  assumes "n < 4294967295" and "i \<le> n" and "length ss = n"
    and "\<forall>j < n. sl_value (ss ! j) = NextFree (if Suc j < n then of_nat (Suc j) else u32_MAX)"
  shows "free_chain ss (if i < n then of_nat i else u32_MAX) [i..<n]"
  using assms(2)
proof (induction "n - i" arbitrary: i)
  case 0
  then show ?case by simp
next
  case (Suc k)
  then have "i < n" by simp
  with Suc.hyps(1) [of "Suc i"] Suc.hyps(2) assms(3,4) show ?case
    by (simp add: upt_conv_Cons)
qed

lemma Arena_new_invalid:
  "\<not> (0 < capacity \<and> capacity < u32_MAX) \<Longrightarrow> Arena_new capacity = Inl (Panic ''invalid capacity'')"
  by (simp only: Arena_new_def assert_that_def if_False rbind_Inl)

lemma Arena_new_ok:
  assumes "0 < capacity" and "capacity < u32_MAX"
  obtains a where "Arena_new capacity = Inr a" and "arena_wf a"
    and "arena_map a = (\<lambda>_. None)" and "arena_capacity a = unat capacity"
proof -
  define n where "n = unat capacity"
  have n: "0 < n" "n < 4294967295"
    using assms by (auto simp: n_def word_less_nat_alt)
  define mk :: "u32 \<Rightarrow> 'a Slot" where "mk = (\<lambda>i. write_next_free
    \<lparr>sl_generation = 1, sl_occupied = 0, sl_value = Uninit\<rparr>
    (if i + 1 < capacity then i + 1 else u32_MAX))"
  define ss where "ss = map (\<lambda>i. mk (of_nat i)) [0..<n]"
  let ?a = "\<lparr>ar_slots = ss, ar_free_head = 0, ar_len = 0\<rparr> :: 'a Arena"
  have eq: "Arena_new capacity = Inr ?a"
    using assms by (simp add: Arena_new_def Let_def ss_def mk_def n_def)
  have nx: "(if (of_nat j :: u32) + 1 < capacity then of_nat j + 1 else u32_MAX)
      = (if Suc j < n then of_nat (Suc j) else u32_MAX)" if "j < n" for j
  proof -
    have "unat (of_nat (Suc j) :: u32) = Suc j"
      using that n by (intro unat_of_nat_u32) simp
    then have "(of_nat j :: u32) + 1 < capacity \<longleftrightarrow> Suc j < n"
      by (simp add: word_less_nat_alt n_def add.commute)
    then show ?thesis by (simp add: add.commute)
  qed
  have ss: "length ss = n" "\<And>j. j < n \<Longrightarrow> sl_occupied (ss ! j) = 0 \<and> sl_generation (ss ! j) = 1
      \<and> sl_value (ss ! j) = NextFree (if Suc j < n then of_nat (Suc j) else u32_MAX)"
    by (simp_all only: ss_def mk_def write_next_free_def length_map length_upt nth_map nth_upt
        diff_zero add_0 nx Slot.simps simp_thms)
  have "free_chain ss (if 0 < n then of_nat 0 else u32_MAX) [0..<n]"
    using n ss by (intro free_chain_map_upt) auto
  moreover have live: "live_count ss = 0"
    by (auto simp: live_count_def filter_empty_conv in_set_conv_nth ss)
  ultimately have "arena_fl ?a [0..<n]"
    using n ss by (auto simp: arena_fl_def slot_wf_def all_set_conv_all_nth)
  then have "arena_wf ?a" by (auto simp: arena_wf_def)
  moreover have "arena_map ?a = (\<lambda>_. None)"
    by (rule ext) (auto simp: arena_map_def slice_get_def ss split: option.split)
  ultimately show thesis
    using that eq ss(1) by (simp add: arena_capacity_def n_def)
qed

lemma Arena_new_wf:
  assumes "Arena_new capacity = Inr a"
  shows "arena_wf a" and "arena_capacity a = unat capacity" and "arena_map a = (\<lambda>_. None)"
proof -
  have "0 < capacity" "capacity < u32_MAX"
    using assms Arena_new_invalid [of capacity] by (metis Inl_Inr_False)+
  then obtain b :: "'a Arena" where "Arena_new capacity = Inr b" "arena_wf b"
    "arena_map b = (\<lambda>_. None)" "arena_capacity b = unat capacity" by (rule Arena_new_ok)
  with assms show "arena_wf a" and "arena_capacity a = unat capacity" and "arena_map a = (\<lambda>_. None)"
    by simp_all
qed

section \<open>The contract of a slot store\<close>

locale slot_store =
  fixes wf :: "'s \<Rightarrow> bool"
    and contents :: "'s \<Rightarrow> 'i \<Rightarrow> 'a option"
    and capacity :: "'s \<Rightarrow> nat"
    and null :: 'i
    and get :: "'s \<Rightarrow> 'i \<Rightarrow> 'a option res"
    and get_mut :: "'s \<Rightarrow> 'i \<Rightarrow> ('a \<times> ('a \<Rightarrow> 's)) option res"
    and put :: "'s \<Rightarrow> 'i \<Rightarrow> 'a \<Rightarrow> 's"
    and alloc :: "'s \<Rightarrow> 'a \<Rightarrow> ('s \<times> 'i option) res"
    and remove :: "'s \<Rightarrow> 'i \<Rightarrow> ('s \<times> 'a option) res"
  assumes null_free: "wf s \<Longrightarrow> contents s null = None"
    and finite_contents: "wf s \<Longrightarrow> finite (dom (contents s))"
    and card_contents: "wf s \<Longrightarrow> card (dom (contents s)) \<le> capacity s"
    and get_eq: "wf s \<Longrightarrow> get s i = Inr (contents s i)"
    and get_mut_absent: "wf s \<Longrightarrow> contents s i = None \<Longrightarrow> get_mut s i = Inr None"
    and get_mut_present: "wf s \<Longrightarrow> contents s i = Some v \<Longrightarrow> get_mut s i = Inr (Some (v, put s i))"
    and put_ok: "wf s \<Longrightarrow> contents s i = Some v \<Longrightarrow>
      wf (put s i v') \<and> contents (put s i v') = (contents s)(i \<mapsto> v') \<and> capacity (put s i v') = capacity s"
    and alloc_full: "wf s \<Longrightarrow> card (dom (contents s)) = capacity s \<Longrightarrow> alloc s v = Inr (s, None)"
    and alloc_room: "wf s \<Longrightarrow> card (dom (contents s)) < capacity s \<Longrightarrow>
      \<exists>s' i. alloc s v = Inr (s', Some i) \<and> wf s' \<and> contents s i = None \<and> i \<noteq> null \<and>
        contents s' = (contents s)(i \<mapsto> v) \<and> capacity s' = capacity s"
    and remove_absent: "wf s \<Longrightarrow> contents s i = None \<Longrightarrow> remove s i = Inr (s, None)"
    and remove_present: "wf s \<Longrightarrow> contents s i = Some v \<Longrightarrow>
      \<exists>s'. remove s i = Inr (s', Some v) \<and> wf s' \<and> contents s' = (contents s)(i := None) \<and>
        capacity s' = capacity s"
begin

lemma live_not_null: "wf s \<Longrightarrow> contents s i = Some v \<Longrightarrow> i \<noteq> null"
  using null_free by fastforce

text \<open>The two outcomes of an allocation, and nothing else.\<close>

lemma alloc_cases:
  assumes "wf s"
  obtains (full) "card (dom (contents s)) = capacity s" "alloc s v = Inr (s, None)"
  | (room) s' i where "card (dom (contents s)) < capacity s" "alloc s v = Inr (s', Some i)"
      "wf s'" "contents s i = None" "i \<noteq> null"
      "contents s' = (contents s)(i \<mapsto> v)" "capacity s' = capacity s"
  using alloc_full [OF assms] alloc_room [OF assms] card_contents [OF assms]
  by (metis le_neq_implies_less)

text \<open>A round trip: what was stored is what is removed, and the store is as before.\<close>

lemma alloc_remove:
  assumes "wf s" and "alloc s v = Inr (s', Some i)"
  obtains s'' where "remove s' i = Inr (s'', Some v)" "wf s''" "contents s'' = contents s"
proof -
  from assms obtain "wf s'" "contents s i = None" "contents s' = (contents s)(i \<mapsto> v)"
    by (cases rule: alloc_cases [OF assms(1), of v]) auto
  moreover from this obtain s'' where "remove s' i = Inr (s'', Some v)" "wf s''"
    "contents s'' = (contents s')(i := None)"
    using remove_present [of s' i v] by auto
  ultimately show thesis by (intro that [of s'']) (auto simp: fun_eq_iff)
qed

end

interpretation ar: slot_store arena_wf arena_map arena_capacity SENTINEL
  Arena_get Arena_get_mut Arena_put "Arena_alloc p" "Arena_remove p" for p
proof unfold_locales
  fix s :: "'a Arena" and v :: 'a and i
  assume wf: "arena_wf s"
  show "card (dom (arena_map s)) \<le> arena_capacity s"
    by (simp add: card_arena_map [OF wf] arena_capacity_def live_count_le)
  show "\<exists>s' i. Arena_alloc p s v = Inr (s', Some i) \<and> arena_wf s' \<and> arena_map s i = None \<and>
      i \<noteq> SENTINEL \<and> arena_map s' = (arena_map s)(i \<mapsto> v) \<and> arena_capacity s' = arena_capacity s"
    if "card (dom (arena_map s)) < arena_capacity s"
    by (rule arena_alloc_ok [OF wf that, of p v]) (auto simp: is_valid_def)
  show "\<exists>s'. Arena_remove p s i = Inr (s', Some v) \<and> arena_wf s' \<and>
      arena_map s' = (arena_map s)(i := None) \<and> arena_capacity s' = arena_capacity s"
    if "arena_map s i = Some v"
    by (rule arena_remove_Some [OF wf that, of p]) auto
qed (auto simp: arena_map_sentinel finite_arena_map arena_get_spec arena_get_mut_None
    arena_get_mut_Some arena_alloc_full arena_remove_None dest: arena_put_spec)

section \<open>Generations\<close>

lemma u32_nonzeroE:
  fixes g :: u32
  assumes "g \<noteq> 0"
  obtains u where "unat g = Suc u" and "u < 4294967295"
proof (cases "unat g")
  case 0
  with assms show thesis by (simp add: unat_eq_0)
next
  case (Suc u)
  with unat_u32_bound [of g] that [of u] show thesis by simp
qed

lemma unat_next_generation:
  assumes "g \<noteq> 0"
  shows "unat (next_generation g) = unat g mod 4294967295 + 1"
proof (cases "g + 1 = 0")
  case True
  then have "g = u32_MAX" by (simp add: eq_neg_iff_add_eq_0 [symmetric])
  then show ?thesis by (simp add: next_generation_def)
next
  case False
  then have eq: "unat (g + 1) = unat g + 1"
    by (metis Suc_eq_plus1 unatSuc add.commute)
  with unat_u32_bound [of "g + 1"] False show ?thesis by (simp add: next_generation_def)
qed

lemma unat_next_generation_pow:
  assumes "unat g = Suc u" and "u < 4294967295"
  shows "(next_generation ^^ n) g \<noteq> 0 \<and>
    unat ((next_generation ^^ n) g) = (u + n) mod 4294967295 + 1"
proof (induction n)
  case 0
  from assms(1) have "g \<noteq> 0" by auto
  with assms show ?case by simp
next
  case (Suc n)
  then show ?case by (simp add: unat_next_generation mod_simps)
qed

lemma next_generation_pow_neq:
  assumes "g \<noteq> 0" and "0 < n" and "n < 4294967295"
  shows "(next_generation ^^ n) g \<noteq> g"
proof
  assume eq: "(next_generation ^^ n) g = g"
  from assms(1) obtain u where u: "unat g = Suc u" "u < 4294967295" by (rule u32_nonzeroE)
  from unat_next_generation_pow [OF u, of n] eq u have "(u + n) mod 4294967295 = u" by simp
  moreover have "(u + n) mod 4294967295 = (if u + n < 4294967295 then u + n else u + n - 4294967295)"
    using u(2) assms(3) by (simp add: mod_if)
  ultimately show False using assms u by (simp split: if_splits)
qed

lemma next_generation_returns:
  assumes "g \<noteq> 0"
  shows "(next_generation ^^ n) g = g \<longleftrightarrow> 4294967295 dvd n"
proof -
  from assms obtain u where u: "unat g = Suc u" "u < 4294967295" by (rule u32_nonzeroE)
  have "(next_generation ^^ n) g = g \<longleftrightarrow> (u + n) mod 4294967295 = u mod 4294967295"
    using unat_next_generation_pow [OF u, of n] u by (auto simp flip: unat_inject)
  also have "\<dots> \<longleftrightarrow> 4294967295 dvd n" by (simp add: mod_eq_dvd_iff_nat)
  finally show ?thesis .
qed

section \<open>Sequences of operations\<close>

datatype 'a arena_op = OpAlloc 'a | OpGet ArenaIdx | OpSet ArenaIdx 'a | OpRemove ArenaIdx

fun arena_step :: "profile \<Rightarrow> 'a Arena \<Rightarrow> 'a arena_op \<Rightarrow> 'a Arena res" where
  "arena_step p a (OpAlloc v) = rbind (Arena_alloc p a v) (\<lambda>(a', _). Inr a')"
| "arena_step p a (OpGet i) = rbind (Arena_get a i) (\<lambda>_. Inr a)"
| "arena_step p a (OpSet i v) =
     rbind (Arena_get_mut a i) (\<lambda>r. Inr (case r of None \<Rightarrow> a | Some (_, w) \<Rightarrow> w v))"
| "arena_step p a (OpRemove i) = rbind (Arena_remove p a i) (\<lambda>(a', _). Inr a')"

fun arena_exec :: "profile \<Rightarrow> 'a Arena \<Rightarrow> 'a arena_op list \<Rightarrow> 'a Arena res" where
  "arena_exec p a [] = Inr a"
| "arena_exec p a (x # xs) = rbind (arena_step p a x) (\<lambda>a'. arena_exec p a' xs)"

lemma arena_exec_append:
  "arena_exec p a (xs @ ys) = rbind (arena_exec p a xs) (\<lambda>a'. arena_exec p a' ys)"
  by (induction xs arbitrary: a) (auto simp: rbind_assoc)

lemma arena_step_ok:
  assumes "arena_wf a"
  obtains a' where "arena_step p a x = Inr a'" and "arena_wf a'"
    and "arena_capacity a' = arena_capacity a"
proof (cases x)
  case (OpAlloc v)
  with that [of a] that assms show thesis
    by (cases rule: ar.alloc_cases [OF assms, of p v]) auto
next
  case (OpGet i)
  with that assms show thesis by (simp add: arena_get_spec)
next
  case (OpSet i v)
  with that assms show thesis
    by (cases "arena_map a i") (auto simp: arena_get_mut_None arena_get_mut_Some arena_put_spec)
next
  case (OpRemove i)
  with that assms show thesis
    by (cases "arena_map a i") (auto simp: arena_remove_None elim: arena_remove_Some [of a i _ p])
qed

lemma arena_exec_ok:
  assumes "arena_wf a"
  shows "\<exists>a'. arena_exec p a xs = Inr a' \<and> arena_wf a' \<and> arena_capacity a' = arena_capacity a"
  using assms
proof (induction xs arbitrary: a)
  case (Cons x xs)
  from arena_step_ok [OF Cons.prems, of p x] obtain b
    where "arena_step p a x = Inr b" "arena_wf b" "arena_capacity b = arena_capacity a" .
  with Cons.IH [of b] show ?case by simp
qed simp

lemma arena_step_generation:
  assumes "arena_step p a x = Inr a'"
  shows "sl_generation (ar_slots a' ! k) = sl_generation (ar_slots a ! k) \<or>
    sl_generation (ar_slots a' ! k) = next_generation (sl_generation (ar_slots a ! k))"
  using assms
proof (cases x)
  case (OpAlloc v)
  with assms show ?thesis
    by (auto simp: Arena_alloc_def rbind_eq_Inr get_unchecked_def slice_get_def Slot_insert_def
        Let_def nth_list_update_iff split: if_splits option.splits)
next
  case (OpSet i v)
  with assms show ?thesis
    by (auto simp: Arena_get_mut_def rbind_eq_Inr slice_get_def Slot_get_mut_def nth_list_update_iff
        split: if_splits option.splits)
next
  case (OpRemove i)
  with assms show ?thesis
    by (auto simp: Arena_remove_def rbind_eq_Inr slice_get_def Slot_remove_def write_next_free_def
        Let_def nth_list_update_iff split: if_splits option.splits)
qed (auto simp: rbind_eq_Inr)

lemma arena_exec_generation:
  assumes "arena_exec p a xs = Inr a'"
  shows "\<exists>m \<le> length xs. sl_generation (ar_slots a' ! k) =
    (next_generation ^^ m) (sl_generation (ar_slots a ! k))"
  using assms
proof (induction xs arbitrary: a)
  case (Cons x xs)
  then obtain b where b: "arena_step p a x = Inr b" "arena_exec p b xs = Inr a'"
    by (auto simp: rbind_eq_Inr)
  from Cons.IH [OF b(2)] obtain m where m: "m \<le> length xs"
    "sl_generation (ar_slots a' ! k) = (next_generation ^^ m) (sl_generation (ar_slots b ! k))"
    by blast
  from arena_step_generation [OF b(1), of k] show ?case
  proof
    assume "sl_generation (ar_slots b ! k) = sl_generation (ar_slots a ! k)"
    with m show ?thesis by (intro exI [of _ m]) simp
  next
    assume "sl_generation (ar_slots b ! k) = next_generation (sl_generation (ar_slots a ! k))"
    with m show ?thesis by (intro exI [of _ "Suc m"]) (simp add: funpow_swap1)
  qed
qed simp

section \<open>Properties\<close>

text \<open>
  C9: memory safety of the arena's \<open>unsafe\<close> code. From a fresh arena no sequence of
  allocations, reads, writes and removals, with any handles whatsoever (forged and stale ones
  included), panics or reaches undefined behaviour, in either build profile; the free list stays
  well formed and the capacity fixed.
\<close>

theorem arena_never_faults:
  assumes "Arena_new capacity = Inr a"
  shows "\<exists>a'. arena_exec p a xs = Inr a' \<and> arena_wf a' \<and> arena_capacity a' = unat capacity"
  using Arena_new_wf [OF assms] arena_exec_ok [of a p xs] by simp

theorem arena_never_faults_witness:
  "\<exists>a'. arena_exec Debug (projr (Arena_new 2))
      [OpAlloc (7::nat), OpRemove \<lparr>idx_slot = 9, idx_generation = 1\<rparr>,
       OpRemove \<lparr>idx_slot = 0, idx_generation = 1\<rparr>, OpRemove \<lparr>idx_slot = 0, idx_generation = 1\<rparr>]
      = Inr a' \<and> arena_wf a' \<and> arena_capacity a' = unat (2::u32)"
  by (rule arena_never_faults) (simp add: Arena_new_def)

text \<open>
  C7: the arena refines a finite map from handles to values. On a well-formed arena \<open>get\<close> is
  lookup, a write through \<open>get_mut\<close> is update, \<open>alloc\<close> returns \<open>None\<close> exactly when the arena is
  full and otherwise adds the value under a handle that was not live, and \<open>remove\<close> deletes the
  handle and returns its value, or changes nothing when the handle is not live.
\<close>

theorem arena_refines_map:
  assumes "arena_wf a"
  shows "Arena_get a i = Inr (arena_map a i) \<and>
    (\<exists>w. Arena_get_mut a i = Inr (map_option (\<lambda>v. (v, w)) (arena_map a i)) \<and>
       (arena_map a i \<noteq> None \<longrightarrow> (\<forall>v. arena_wf (w v) \<and> arena_map (w v) = (arena_map a)(i \<mapsto> v)))) \<and>
    (if card (dom (arena_map a)) = arena_capacity a then Arena_alloc p a v = Inr (a, None)
     else \<exists>a' j. Arena_alloc p a v = Inr (a', Some j) \<and> arena_wf a' \<and> is_valid j \<and>
       arena_map a j = None \<and> arena_map a' = (arena_map a)(j \<mapsto> v)) \<and>
    (\<exists>a'. Arena_remove p a i = Inr (a', arena_map a i) \<and> arena_wf a' \<and>
       arena_map a' = (arena_map a)(i := None))"
proof (intro conjI)
  show "Arena_get a i = Inr (arena_map a i)" by (rule ar.get_eq [OF assms])
  show "\<exists>w. Arena_get_mut a i = Inr (map_option (\<lambda>v. (v, w)) (arena_map a i)) \<and>
      (arena_map a i \<noteq> None \<longrightarrow> (\<forall>v. arena_wf (w v) \<and> arena_map (w v) = (arena_map a)(i \<mapsto> v)))"
    using ar.get_mut_absent [OF assms, of i] ar.get_mut_present [OF assms, of i] ar.put_ok [OF assms, of i]
    by (cases "arena_map a i") auto
  show "if card (dom (arena_map a)) = arena_capacity a then Arena_alloc p a v = Inr (a, None)
      else \<exists>a' j. Arena_alloc p a v = Inr (a', Some j) \<and> arena_wf a' \<and> is_valid j \<and>
        arena_map a j = None \<and> arena_map a' = (arena_map a)(j \<mapsto> v)"
    by (cases rule: ar.alloc_cases [OF assms, of p v]) (auto simp: is_valid_def)
  show "\<exists>a'. Arena_remove p a i = Inr (a', arena_map a i) \<and> arena_wf a' \<and>
      arena_map a' = (arena_map a)(i := None)"
    using ar.remove_absent [OF assms, of i p] ar.remove_present [OF assms, of i _ p] assms
    by (cases "arena_map a i") (auto simp: fun_upd_idem)
qed

theorem arena_refines_map_witness:
  "\<exists>a :: nat Arena. Arena_new 3 = Inr a \<and> Arena_get a SENTINEL = Inr (arena_map a SENTINEL) \<and>
     (\<exists>a' j. Arena_alloc Debug a 5 = Inr (a', Some j) \<and> arena_map a' = (arena_map a)(j \<mapsto> 5))"
proof -
  obtain a :: "nat Arena" where a: "Arena_new 3 = Inr a" "arena_wf a"
    "arena_map a = (\<lambda>_. None)" "arena_capacity a = unat (3::u32)"
    by (rule Arena_new_ok [of 3]) auto
  from arena_refines_map [OF a(2), of SENTINEL Debug 5] a show ?thesis by auto
qed

text \<open>
  C32: use-after-free detection. Once a handle has been removed, \<open>get\<close>, \<open>get_mut\<close> and
  \<open>remove\<close> reject it for as long as fewer than \<open>2^32 - 2\<close> further operations are made on the
  arena, whatever they are: reuse of the slot never makes the stale handle alias the new value.
\<close>

theorem stale_handle_rejected:
  assumes "Arena_new capacity = Inr a0" and "arena_exec p a0 xs = Inr a"
    and "Arena_remove p a i = Inr (a1, Some v)" and "arena_exec p a1 ys = Inr a2"
    and "length ys < 4294967294"
  shows "Arena_get a2 i = Inr None \<and> Arena_get_mut a2 i = Inr None \<and>
    Arena_remove p a2 i = Inr (a2, None)"
proof -
  have "arena_wf a0" by (rule Arena_new_wf [OF assms(1)])
  with assms(2) arena_exec_ok [of a0 p xs] have wf: "arena_wf a" by auto
  have live: "arena_map a i = Some v"
    using assms(3) ar.remove_absent [OF wf, of i p] ar.remove_present [OF wf, of i _ p]
    by (cases "arena_map a i") auto
  let ?k = "unat (idx_slot i)"
  from arena_remove_Some [OF wf live, of p] assms(3)
  have a1: "arena_wf a1" "sl_generation (ar_slots a1 ! ?k) = next_generation (idx_generation i)"
    by auto
  with assms(4) arena_exec_ok [of a1 p ys] have wf2: "arena_wf a2" by auto
  from arena_exec_generation [OF assms(4), of ?k] a1(2) obtain m where m: "m \<le> length ys"
    "sl_generation (ar_slots a2 ! ?k) = (next_generation ^^ m) (next_generation (idx_generation i))"
    by auto
  have "idx_generation i \<noteq> 0"
    using live arena_wf_slot [OF wf, of ?k] by (auto simp: arena_map_Some slot_wf_def)
  then have "(next_generation ^^ Suc m) (idx_generation i) \<noteq> idx_generation i"
    using m(1) assms(5) by (intro next_generation_pow_neq) auto
  with m(2) have "arena_map a2 i = None"
    by (simp add: arena_map_None [OF wf2] funpow_swap1)
  then show ?thesis
    using wf2 by (simp_all add: ar.get_eq ar.get_mut_absent ar.remove_absent)
qed

theorem stale_handle_rejected_witness:
  "let i = \<lparr>idx_slot = 0, idx_generation = 1\<rparr>;
       a = projr (arena_exec Debug (projr (Arena_new 1)) [OpAlloc (5::nat)]);
       a1 = fst (projr (Arena_remove Debug a i));
       a2 = projr (arena_exec Debug a1 [OpAlloc 6])
   in Arena_get a2 i = Inr None \<and> Arena_remove Debug a2 i = Inr (a2, None)"
proof -
  note defs = Arena_new_def write_next_free_def Arena_alloc_def get_unchecked_def slice_get_def
    read_next_free_def Slot_insert_def plus_u_def minus_u_def Arena_remove_def Slot_remove_def
    next_generation_def
  show ?thesis
    unfolding Let_def
    using stale_handle_rejected [of 1 "projr (Arena_new 1)" Debug "[OpAlloc (5::nat)]"
        "projr (arena_exec Debug (projr (Arena_new 1)) [OpAlloc 5])"
        "\<lparr>idx_slot = 0, idx_generation = 1\<rparr>"
        "fst (projr (Arena_remove Debug (projr (arena_exec Debug (projr (Arena_new 1)) [OpAlloc 5]))
           \<lparr>idx_slot = 0, idx_generation = 1\<rparr>))" 5 "[OpAlloc 6]"]
    by (simp add: defs)
qed

text \<open>Allocate a value and remove it again, \<open>n\<close> times.\<close>

fun churn :: "profile \<Rightarrow> 'a \<Rightarrow> nat \<Rightarrow> 'a Arena \<Rightarrow> 'a Arena res" where
  "churn p v 0 a = Inr a"
| "churn p v (Suc n) a =
     rbind (Arena_alloc p a v) (\<lambda>(a, i). case i of
         None \<Rightarrow> Inr a
       | Some i \<Rightarrow> rbind (Arena_remove p a i) (\<lambda>(a, _). churn p v n a))"

text \<open>
  C40: the bound of the stale-handle guarantee is sharp. Generations are 32 bits wide and skip zero,
  so the generation of a slot comes back after \<open>2^32 - 1\<close> removals. In a one-slot arena, after a
  handle was removed, \<open>n\<close> further values were allocated and removed and one more was allocated, the
  old handle reads that last value exactly when the number of removals, \<open>n + 1\<close>, is a multiple of
  \<open>2^32 - 1\<close>; in every other case it is rejected.
\<close>

theorem stale_handle_aliases_after_wrap:
  "\<exists>a0 a1 a2 i. Arena_new 1 = Inr a0 \<and> Arena_alloc p a0 u = Inr (a1, Some i) \<and> Arena_remove p a1 i = Inr (a2, Some u) \<and>
     (\<forall>n. \<exists>b c j. churn p w n a2 = Inr b \<and> Arena_alloc p b w = Inr (c, Some j) \<and>
        Arena_get c i = Inr (if (2 ^ 32 - 1) dvd Suc n then Some w else None))"
proof -
  define c :: "u32 \<Rightarrow> 'a Arena" where "c = (\<lambda>g. \<lparr>ar_slots = [\<lparr>sl_generation = g, sl_occupied = 0,
    sl_value = NextFree u32_MAX\<rparr>], ar_free_head = 0, ar_len = 0\<rparr>)"
  define h :: "u32 \<Rightarrow> ArenaIdx" where "h = (\<lambda>g. \<lparr>idx_slot = 0, idx_generation = g\<rparr>)"
  have alloc: "\<exists>a'. Arena_alloc p (c g) x = Inr (a', Some (h g)) \<and>
      Arena_remove p a' (h g) = Inr (c (next_generation g), Some x) \<and>
      Arena_get a' (h 1) = Inr (if g = 1 then Some x else None)" for g x
    by (auto simp: c_def h_def Arena_alloc_def Arena_remove_def get_unchecked_def slice_get_def
        read_next_free_def Slot_insert_def Slot_remove_def write_next_free_def plus_u_def minus_u_def
        Arena_get_def Slot_get_def is_valid_def SENTINEL_def)
  have churn: "churn p w n (c g) = Inr (c ((next_generation ^^ n) g))" for n g
  proof (induction n arbitrary: g)
    case (Suc n)
    from alloc [of g w] Suc show ?case by (auto simp: funpow_swap1)
  qed simp
  have new: "Arena_new 1 = Inr (c 1)" by (simp add: Arena_new_def c_def write_next_free_def)
  from alloc [of 1 u] obtain a1 where a1: "Arena_alloc p (c 1) u = Inr (a1, Some (h 1))"
    "Arena_remove p a1 (h 1) = Inr (c (next_generation 1), Some u)" by auto
  have "\<exists>b c' j. churn p w n (c (next_generation 1)) = Inr b \<and> Arena_alloc p b w = Inr (c', Some j) \<and>
      Arena_get c' (h 1) = Inr (if (2 ^ 32 - 1) dvd Suc n then Some w else None)" for n
  proof -
    have g: "(next_generation ^^ n) (next_generation 1) = (next_generation ^^ Suc n) 1" by (simp add: funpow_swap1)
    from alloc [of "(next_generation ^^ Suc n) 1" w] next_generation_returns [of 1 "Suc n"]
    show ?thesis unfolding churn g by (auto simp del: funpow.simps)
  qed
  with new a1 show ?thesis by blast
qed

end
