(* ===== verification/Intrusive_List.thy ===== *)
theory Intrusive_List
  imports Prelude
begin

text \<open>
  Doubly linked lists threaded through the nodes of a store, the shape of a price level: each
  node carries the handle of its predecessor and of its successor. \<open>dlseg\<close> says that a list of
  handles is such a chain. The locale \<open>intrusive\<close> is the interface of a node type that can
  carry the links (reading back what was written, the payload untouched), and its lemmas are the
  three list surgeries that the order book performs: appending a node, unlinking a node, and
  changing a payload in place. \<open>Order_Book\<close> interprets it on \<open>OrderNode\<close>.
\<close>

fun dlseg :: "('n \<Rightarrow> 'i) \<Rightarrow> ('n \<Rightarrow> 'i) \<Rightarrow> ('i \<Rightarrow> 'n option) \<Rightarrow> 'i \<Rightarrow> 'i list \<Rightarrow> 'i \<Rightarrow> bool" where
  "dlseg nx pv m p [] q \<longleftrightarrow> True"
| "dlseg nx pv m p (i # is) q \<longleftrightarrow>
     (\<exists>n. m i = Some n \<and> pv n = p \<and> nx n = hd (is @ [q]) \<and> dlseg nx pv m i is q)"

text \<open>Writing through an \<open>Option\<close> of a borrow: nothing happens when the handle is not live.\<close>

definition map_upd :: "'i \<Rightarrow> ('n \<Rightarrow> 'n) \<Rightarrow> ('i \<Rightarrow> 'n option) \<Rightarrow> 'i \<Rightarrow> 'n option" where
  "map_upd j f m = (case m j of None \<Rightarrow> m | Some n \<Rightarrow> m(j \<mapsto> f n))"

lemma map_upd_apply: "map_upd j f m i = (if i = j then map_option f (m i) else m i)"
  by (auto simp: map_upd_def split: option.split)

lemma map_upd_absent [simp]: "m j = None \<Longrightarrow> map_upd j f m = m"
  by (simp add: map_upd_def)

lemma dlseg_cong:
  "(\<And>i. i \<in> set is \<Longrightarrow> m' i = m i) \<Longrightarrow> dlseg nx pv m' p is q = dlseg nx pv m p is q"
  by (induction "is" arbitrary: p) auto

lemma dlseg_append:
  "dlseg nx pv m p (is @ js) q \<longleftrightarrow>
     dlseg nx pv m p is (hd (js @ [q])) \<and> dlseg nx pv m (last (p # is)) js q"
proof (induction "is" arbitrary: p)
  case (Cons i "is")
  then show ?case by (cases "is") auto
qed simp

lemma dlseg_live: "dlseg nx pv m p is q \<Longrightarrow> i \<in> set is \<Longrightarrow> \<exists>n. m i = Some n"
  by (induction "is" arbitrary: p) auto

lemma dlseg_node:
  assumes "dlseg nx pv m p (is @ i # js) q" and "m i = Some n"
  shows "pv n = last (p # is)" and "nx n = hd (js @ [q])"
  using assms by (auto simp: dlseg_append)

locale intrusive =
  fixes nx pv :: "'n \<Rightarrow> 'i"
    and set_nx set_pv :: "'n \<Rightarrow> 'i \<Rightarrow> 'n"
    and data :: "'n \<Rightarrow> 'd"
    and null :: 'i
  assumes nx_set_nx: "nx (set_nx n i) = i" and pv_set_nx: "pv (set_nx n i) = pv n"
    and nx_set_pv: "nx (set_pv n i) = nx n" and pv_set_pv: "pv (set_pv n i) = i"
    and data_set_nx: "data (set_nx n i) = data n" and data_set_pv: "data (set_pv n i) = data n"
begin

lemma retarget_end:
  assumes "dlseg nx pv m p is q" and "distinct is" and "is \<noteq> []"
  shows "dlseg nx pv (map_upd (last is) (\<lambda>n. set_nx n q') m) p is q'"
  using assms
proof (induction "is" arbitrary: p)
  case (Cons i "is")
  show ?case
  proof (cases "is")
    case Nil
    with Cons.prems show ?thesis by (auto simp: map_upd_apply nx_set_nx pv_set_nx)
  next
    case (Cons j js)
    with Cons.prems Cons.IH [of i] show ?thesis
      by (auto simp: map_upd_apply)
  qed
qed simp

lemma retarget_start:
  assumes "dlseg nx pv m p is q" and "distinct is" and "is \<noteq> []"
  shows "dlseg nx pv (map_upd (hd is) (\<lambda>n. set_pv n p') m) p' is q"
  using assms
proof (cases "is")
  case (Cons i js)
  with assms have "dlseg nx pv (map_upd i (\<lambda>n. set_pv n p') m) i js q = dlseg nx pv m i js q"
    by (intro dlseg_cong) (auto simp: map_upd_apply)
  with Cons assms show ?thesis by (auto simp: map_upd_apply nx_set_pv pv_set_pv)
qed simp

text \<open>Appending a fresh node \<open>j\<close> behind the tail \<open>t\<close>.\<close>

lemma push_back:
  assumes "dlseg nx pv m p (is @ [t]) q" and "distinct (is @ [t])" and "j \<notin> set (is @ [t])"
    and "m j = Some n" and "nx n = q"
  shows "dlseg nx pv (map_upd j (\<lambda>n. set_pv n t) (map_upd t (\<lambda>n. set_nx n j) m)) p (is @ [t, j]) q"
    (is "dlseg nx pv ?m' p _ q")
proof -
  have "dlseg nx pv (map_upd t (\<lambda>n. set_nx n j) m) p (is @ [t]) j"
    using retarget_end [OF assms(1,2), of j] by simp
  moreover have "dlseg nx pv ?m' p (is @ [t]) j
      = dlseg nx pv (map_upd t (\<lambda>n. set_nx n j) m) p (is @ [t]) j"
    using assms(3) by (intro dlseg_cong) (auto simp: map_upd_apply)
  ultimately have "dlseg nx pv ?m' p (is @ [t]) j" by simp
  moreover have "?m' j = Some (set_pv n t)"
    using assms(3,4) by (auto simp: map_upd_apply)
  ultimately show ?thesis
    using assms(5) dlseg_append [of nx pv ?m' p "is @ [t]" "[j]" q] by (simp add: nx_set_pv pv_set_pv)
qed

text \<open>Unlinking the node \<open>i\<close>: remove it, then splice its neighbours together.\<close>

lemma unlink:
  fixes m :: "'i \<Rightarrow> 'n option"
  assumes seg: "dlseg nx pv m null (is @ i # js) null" and dist: "distinct (is @ i # js)"
    and null: "m null = None"
  defines "p \<equiv> last (null # is)" and "q \<equiv> hd (js @ [null])"
  defines "m' \<equiv> map_upd q (\<lambda>n. set_pv n p) (map_upd p (\<lambda>n. set_nx n q) (m(i := None)))"
  shows "dlseg nx pv m' null (is @ js) null"
proof -
  let ?m1 = "m(i := None)"
  let ?m2 = "map_upd p (\<lambda>n. set_nx n q) ?m1"
  have "i \<noteq> null" using dlseg_live [OF seg, of i] null by auto
  then have null1: "?m1 null = None" using null by simp
  have pq: "p = null \<and> is = [] \<or> p \<in> set is \<and> is \<noteq> [] \<and> p = last is"
    "q = null \<and> js = [] \<or> q \<in> set js \<and> js \<noteq> [] \<and> q = hd js"
    unfolding p_def q_def by (simp, cases js) simp_all
  from seg have "dlseg nx pv m null is i" and j: "dlseg nx pv m i js null"
    by (auto simp: dlseg_append)
  then have "dlseg nx pv ?m1 null is i"
    using dist by (subst dlseg_cong [of _ _ m]) auto
  then have "dlseg nx pv ?m2 null is q"
    using dist pq(1) retarget_end [of ?m1 null "is" i q] by (cases "is = []") auto
  then have A: "dlseg nx pv m' null is q"
    using dist pq(2) null1 by (subst dlseg_cong [of _ _ ?m2]) (auto simp: m'_def map_upd_apply)
  have "dlseg nx pv ?m2 i js null"
    using j dist pq(1) null by (subst dlseg_cong [of _ _ m]) (auto simp: map_upd_apply)
  then have B: "dlseg nx pv m' p js null"
    using dist pq(2) retarget_start [of ?m2 i js null p] by (cases "js = []") (auto simp: m'_def)
  from A B show ?thesis by (simp add: dlseg_append p_def q_def)
qed

text \<open>Writing a payload in place.\<close>

lemma set_payload:
  assumes "dlseg nx pv m p is q" and "m i = Some n" and "nx n' = nx n" and "pv n' = pv n"
  shows "dlseg nx pv (m(i \<mapsto> n')) p is q"
  using assms by (induction "is" arbitrary: p) auto

text \<open>None of it changes a payload.\<close>

lemma payload_map_upd:
  assumes "\<And>n. data (f n) = data n"
  shows "map_option data (map_upd j f m i) = map_option data (m i)"
  by (auto simp: map_upd_apply option.map_comp comp_def assms)

end

end
