(* ===== verification/Order_Book.thy ===== *)
theory Order_Book
  imports Dex_Types BTree_Map Arena Intrusive_List
begin

text \<open>
  The single-instrument limit order book of \<open>crates/orderbook\<close>: \<open>OrderNode\<close> and
  \<open>PriceLevel\<close> (\<open>level.rs\<close>), \<open>OrderBook\<close> with every one of its operations (\<open>book.rs\<close>),
  and the run-time checker \<open>assert_invariants\<close> (\<open>invariants.rs\<close>) that a debug build calls at
  the end of each mutating operation.

  A mutating operation returns the new book with its result, in the fault monad: each
  \<open>expect\<close>, overflow check and failing assertion of the source is a branch. A value borrowed
  with \<open>get_mut\<close> or \<open>entry\<close> from a level map is changed and then written back with
  \<open>bt_insert\<close>. Proofs are in \<open>Order_Book_Inv\<close>.
\<close>

section \<open>Nodes and levels\<close>

record OrderNode =
  on_order :: Order
  on_next :: ArenaIdx
  on_prev :: ArenaIdx

record PriceLevel =
  lv_head :: ArenaIdx
  lv_tail :: ArenaIdx
  lv_len :: u32
  lv_total_qty :: u64

definition PriceLevel_default :: PriceLevel where
  "PriceLevel_default = \<lparr>lv_head = SENTINEL, lv_tail = SENTINEL, lv_len = 0, lv_total_qty = 0\<rparr>"

definition PriceLevel_len :: "PriceLevel \<Rightarrow> usize" where
  "PriceLevel_len l = ucast (lv_len l)"

definition PriceLevel_total_qty :: "PriceLevel \<Rightarrow> u64" where
  "PriceLevel_total_qty l = lv_total_qty l"

definition PriceLevel_head :: "PriceLevel \<Rightarrow> ArenaIdx option" where
  "PriceLevel_head l = (if is_valid (lv_head l) then Some (lv_head l) else None)"

definition PriceLevel_is_empty :: "PriceLevel \<Rightarrow> bool" where
  "PriceLevel_is_empty l \<longleftrightarrow> \<not> is_valid (lv_head l)"

section \<open>The book\<close>

datatype InsertError = ArenaFull | IeDuplicateIntent

record TopView =
  tv_price :: u64
  tv_arena_idx :: ArenaIdx
  tv_order :: Order

record OrderBook =
  ob_instrument_id :: u32
  ob_arena :: "OrderNode Arena"
  ob_bids :: "(u64, PriceLevel) btree_map"
  ob_asks :: "(u64, PriceLevel) btree_map"
  ob_index :: "(IntentHash, ArenaIdx) hash_map"

definition OrderBook_new :: "u32 \<Rightarrow> u32 \<Rightarrow> OrderBook res" where
  "OrderBook_new instrument_id capacity =
     rbind (Arena_new capacity) (\<lambda>arena.
       Inr \<lparr>ob_instrument_id = instrument_id, ob_arena = arena, ob_bids = [], ob_asks = [],
            ob_index = []\<rparr>)"

text \<open>The \<open>match side \<lbrace> Bid => &mut self.bids, Ask => &mut self.asks \<rbrace>\<close> borrow: reading and
  writing the level map of a side.\<close>

definition level_map :: "OrderBook \<Rightarrow> Side \<Rightarrow> (u64, PriceLevel) btree_map" where
  "level_map b side = (case side of Bid \<Rightarrow> ob_bids b | Ask \<Rightarrow> ob_asks b)"

definition set_level_map :: "Side \<Rightarrow> (u64, PriceLevel) btree_map \<Rightarrow> OrderBook \<Rightarrow> OrderBook" where
  "set_level_map side m b = (case side of Bid \<Rightarrow> b\<lparr>ob_bids := m\<rparr> | Ask \<Rightarrow> b\<lparr>ob_asks := m\<rparr>)"

definition best_bid :: "OrderBook \<Rightarrow> (u64 \<times> PriceLevel) option" where
  "best_bid b = bt_last_key_value (ob_bids b)"

definition best_ask :: "OrderBook \<Rightarrow> (u64 \<times> PriceLevel) option" where
  "best_ask b = bt_first_key_value (ob_asks b)"

text \<open>The top entry of a side: the \<open>last_key_value\<close>/\<open>first_key_value\<close> match that
  \<open>peek_top\<close>, \<open>pop_top\<close> and \<open>reduce_top\<close> share.\<close>

definition top_key_value :: "OrderBook \<Rightarrow> Side \<Rightarrow> (u64 \<times> PriceLevel) option" where
  "top_key_value b side =
     (case side of Bid \<Rightarrow> bt_last_key_value (ob_bids b) | Ask \<Rightarrow> bt_first_key_value (ob_asks b))"

definition OrderBook_is_empty :: "OrderBook \<Rightarrow> Side \<Rightarrow> bool" where
  "OrderBook_is_empty b side = (case side of Bid \<Rightarrow> ob_bids b = [] | Ask \<Rightarrow> ob_asks b = [])"

definition is_crossed :: "OrderBook \<Rightarrow> bool" where
  "is_crossed b =
     (case (bt_last_key_value (ob_bids b), bt_first_key_value (ob_asks b)) of
        (Some (bid, _), Some (ask, _)) \<Rightarrow> ask \<le> bid
      | _ \<Rightarrow> False)"

definition level_qty :: "OrderBook \<Rightarrow> Side \<Rightarrow> u64 \<Rightarrow> u64" where
  "level_qty b side price =
     (case map_option PriceLevel_total_qty (bt_get (level_map b side) price) of
        None \<Rightarrow> 0 | Some q \<Rightarrow> q)"

definition peek_top :: "OrderBook \<Rightarrow> Side \<Rightarrow> TopView option res" where
  "peek_top b side =
     (case top_key_value b side of
        None \<Rightarrow> Inr None
      | Some (price, level) \<Rightarrow>
          (case PriceLevel_head level of
             None \<Rightarrow> Inr None
           | Some arena_idx \<Rightarrow>
               rbind (Arena_get (ob_arena b) arena_idx) (\<lambda>r.
                 Inr (map_option (\<lambda>node. \<lparr>tv_price = price, tv_arena_idx = arena_idx,
                                         tv_order = on_order node\<rparr>) r))))"

definition bid_depth :: "OrderBook \<Rightarrow> usize \<Rightarrow> (u64 \<times> u64) list" where
  "bid_depth b max_levels =
     map (\<lambda>(p, l). (p, PriceLevel_total_qty l)) (take (unat max_levels) (rev (ob_bids b)))"

definition ask_depth :: "OrderBook \<Rightarrow> usize \<Rightarrow> (u64 \<times> u64) list" where
  "ask_depth b max_levels =
     map (\<lambda>(p, l). (p, PriceLevel_total_qty l)) (take (unat max_levels) (ob_asks b))"

section \<open>The invariant checker\<close>

text \<open>The bounded forward walk of \<open>walk_level\<close>; the nat is the number of steps left of
  \<open>0..level.len\<close>. Returns the visited handles, the cursor and the last visited handle.\<close>

fun walk_steps :: "OrderNode Arena \<Rightarrow> nat \<Rightarrow> ArenaIdx \<Rightarrow> ArenaIdx \<Rightarrow>
    (ArenaIdx list \<times> ArenaIdx \<times> ArenaIdx) res" where
  "walk_steps a 0 cur prev = Inr ([], cur, prev)"
| "walk_steps a (Suc n) cur prev =
     rbind (Arena_get a cur) (\<lambda>r.
     rbind (expect ''I1 violated'' r) (\<lambda>node.
     rbind (assert_that (on_prev node = prev) ''I7 violated: back-link mismatch'') (\<lambda>_.
     rbind (walk_steps a n (on_next node) cur) (\<lambda>(idxs, cur', prev').
       Inr (cur # idxs, cur', prev')))))"

definition walk_level :: "OrderBook \<Rightarrow> PriceLevel \<Rightarrow> ArenaIdx list res" where
  "walk_level b level =
     (if \<not> is_valid (lv_head level)
      then rbind (assert_that (\<not> is_valid (lv_tail level) \<and> lv_len level = 0)
                    ''I7 violated: level has no head but tail/len are set'') (\<lambda>_. Inr [])
      else
        rbind (walk_steps (ob_arena b) (unat (lv_len level)) (lv_head level) SENTINEL)
          (\<lambda>(idxs, cur, prev).
        rbind (assert_that (\<not> is_valid cur) ''I7 violated: more nodes than len'') (\<lambda>_.
        rbind (assert_that (prev = lv_tail level) ''I7 violated: walk did not end at tail'') (\<lambda>_.
          Inr idxs))))"

text \<open>The two loops over the walked handles: \<open>sum_qty\<close> (the checker is only compiled with
  overflow checks on) and the index check.\<close>

fun sum_qty_loop :: "OrderBook \<Rightarrow> ArenaIdx list \<Rightarrow> u64 \<Rightarrow> u64 res" where
  "sum_qty_loop b [] acc = Inr acc"
| "sum_qty_loop b (i # is) acc =
     rbind (Arena_get (ob_arena b) i) (\<lambda>r.
     rbind (expect ''I1 already checked in walk'' r) (\<lambda>node.
     rbind (plus_u Debug acc (o_quantity (on_order node))) (\<lambda>acc'.
       sum_qty_loop b is acc')))"

fun index_loop :: "OrderBook \<Rightarrow> ArenaIdx list \<Rightarrow> unit res" where
  "index_loop b [] = Inr ()"
| "index_loop b (i # is) =
     rbind (Arena_get (ob_arena b) i) (\<lambda>r.
     rbind (expect ''I1 already checked in walk'' r) (\<lambda>node.
     rbind (expect ''I4 violated: order not in index''
              (hm_get (ob_index b) (o_intent_hash (on_order node)))) (\<lambda>indexed_idx.
     rbind (assert_that (indexed_idx = i) ''I5 violated'') (\<lambda>_.
       index_loop b is))))"

fun check_levels :: "OrderBook \<Rightarrow> (u64 \<times> PriceLevel) list \<Rightarrow> usize \<Rightarrow> usize res" where
  "check_levels b [] total_orders = Inr total_orders"
| "check_levels b ((price, level) # ls) total_orders =
     rbind (assert_that (\<not> PriceLevel_is_empty level) ''I3 violated: empty level'') (\<lambda>_.
     rbind (walk_level b level) (\<lambda>idxs.
     rbind (assert_that (of_nat (length idxs) = PriceLevel_len level) ''I2 violated: len'') (\<lambda>_.
     rbind (sum_qty_loop b idxs 0) (\<lambda>sum_qty.
     rbind (assert_that (sum_qty = lv_total_qty level) ''I2 violated: total_qty'') (\<lambda>_.
     rbind (index_loop b idxs) (\<lambda>_.
     rbind (plus_u Debug total_orders (of_nat (length idxs))) (\<lambda>total_orders'.
       check_levels b ls total_orders')))))))"

definition assert_invariants :: "OrderBook \<Rightarrow> unit res" where
  "assert_invariants b =
     rbind (check_levels b (ob_bids b @ ob_asks b) 0) (\<lambda>total_orders.
       assert_that (of_nat (length (ob_index b)) = total_orders) ''I4 violated: index size'')"

section \<open>Mutating operations\<close>

definition OrderBook_insert ::
  "profile \<Rightarrow> OrderBook \<Rightarrow> Order \<Rightarrow> (OrderBook \<times> (InsertError + ArenaIdx)) res" where
  "OrderBook_insert p b order =
     (if hm_contains_key (ob_index b) (o_intent_hash order) then Inr (b, Inl IeDuplicateIntent)
      else
        rbind (Arena_alloc p (ob_arena b)
                 \<lparr>on_order = order, on_next = SENTINEL, on_prev = SENTINEL\<rparr>) (\<lambda>(a1, allocated).
        case allocated of
          None \<Rightarrow> Inr (b\<lparr>ob_arena := a1\<rparr>, Inl ArenaFull)
        | Some arena_idx \<Rightarrow>
            let levels = level_map b (o_side order);
                level = (case bt_get levels (o_price order) of
                           None \<Rightarrow> PriceLevel_default | Some l \<Rightarrow> l);
                old_tail = lv_tail level
            in
            rbind (if is_valid old_tail
                   then rbind (Arena_get_mut a1 old_tail) (\<lambda>r1.
                        rbind (expect ''tail must be live'' r1) (\<lambda>(tail_node, write1).
                        let a2 = write1 (tail_node\<lparr>on_next := arena_idx\<rparr>) in
                        rbind (Arena_get_mut a2 arena_idx) (\<lambda>r2.
                        rbind (expect ''just allocated'' r2) (\<lambda>(new_node, write2).
                          Inr (write2 (new_node\<lparr>on_prev := old_tail\<rparr>),
                               level\<lparr>lv_tail := arena_idx\<rparr>)))))
                   else Inr (a1, level\<lparr>lv_head := arena_idx, lv_tail := arena_idx\<rparr>))
              (\<lambda>(a3, level1).
            rbind (plus_u p (lv_total_qty level1) (o_quantity order)) (\<lambda>total_qty.
            rbind (plus_u p (lv_len level1) 1) (\<lambda>len.
            let level2 = level1\<lparr>lv_total_qty := total_qty, lv_len := len\<rparr>;
                b' = set_level_map (o_side order) (bt_insert (o_price order) level2 levels)
                       (b\<lparr>ob_arena := a3,
                          ob_index := hm_insert (o_intent_hash order) arena_idx (ob_index b)\<rparr>)
            in
            rbind (debug_only p (assert_invariants b')) (\<lambda>_.
              Inr (b', Inr arena_idx)))))))"

text \<open>\<open>if let Some(n) = arena.get_mut(i) \<lbrace> ... \<rbrace>\<close>: change the node if the handle is live.\<close>

definition if_let_get_mut ::
  "OrderNode Arena \<Rightarrow> ArenaIdx \<Rightarrow> (OrderNode \<Rightarrow> OrderNode) \<Rightarrow> OrderNode Arena res" where
  "if_let_get_mut a i f =
     rbind (Arena_get_mut a i) (\<lambda>r. Inr (case r of None \<Rightarrow> a | Some (n, write) \<Rightarrow> write (f n)))"

definition OrderBook_cancel ::
  "profile \<Rightarrow> OrderBook \<Rightarrow> IntentHash \<Rightarrow> (OrderBook \<times> Order option) res" where
  "OrderBook_cancel p b intent_hash =
     (case hm_get (ob_index b) intent_hash of
        None \<Rightarrow> Inr (b, None)
      | Some arena_idx \<Rightarrow>
          let b1 = b\<lparr>ob_index := hm_remove intent_hash (ob_index b)\<rparr> in
          rbind (Arena_remove p (ob_arena b1) arena_idx) (\<lambda>(a1, removed).
          case removed of
            None \<Rightarrow> Inr (b1\<lparr>ob_arena := a1\<rparr>, None)
          | Some node \<Rightarrow>
              let prev = on_prev node; nxt = on_next node in
              rbind (if_let_get_mut a1 prev (\<lambda>n. n\<lparr>on_next := nxt\<rparr>)) (\<lambda>a2.
              rbind (if_let_get_mut a2 nxt (\<lambda>n. n\<lparr>on_prev := prev\<rparr>)) (\<lambda>a3.
              let side = o_side (on_order node); price = o_price (on_order node);
                  levels = level_map b1 side
              in
              rbind (expect ''invariant: price level must exist'' (bt_get levels price)) (\<lambda>level.
              let level1 = (if \<not> is_valid prev then level\<lparr>lv_head := nxt\<rparr> else level);
                  level2 = (if \<not> is_valid nxt then level1\<lparr>lv_tail := prev\<rparr> else level1)
              in
              rbind (minus_u p (lv_total_qty level2) (o_quantity (on_order node))) (\<lambda>total_qty.
              rbind (minus_u p (lv_len level2) 1) (\<lambda>len.
              let level3 = level2\<lparr>lv_total_qty := total_qty, lv_len := len\<rparr>;
                  levels' = (if len = 0 then bt_remove price levels
                             else bt_insert price level3 levels);
                  b' = set_level_map side levels' (b1\<lparr>ob_arena := a3\<rparr>)
              in
              rbind (debug_only p (assert_invariants b')) (\<lambda>_.
                Inr (b', Some (on_order node)))))))))) "

definition pop_top :: "profile \<Rightarrow> OrderBook \<Rightarrow> Side \<Rightarrow> (OrderBook \<times> Order option) res" where
  "pop_top p b side =
     (case top_key_value b side of
        None \<Rightarrow> Inr (b, None)
      | Some (price, _) \<Rightarrow>
          let levels = level_map b side in
          rbind (expect ''invariant: price level must exist'' (bt_get levels price)) (\<lambda>level.
          rbind (Arena_remove p (ob_arena b) (lv_head level)) (\<lambda>(a1, removed).
          rbind (expect ''level head's arena slot must be valid'' removed) (\<lambda>node.
          let nxt = on_next node in
          rbind (Arena_get_mut a1 nxt) (\<lambda>r.
          let (a2, level1) =
                (case r of
                   Some (n, write) \<Rightarrow>
                     (write (n\<lparr>on_prev := SENTINEL\<rparr>), level\<lparr>lv_head := nxt\<rparr>)
                 | None \<Rightarrow> (a1, level\<lparr>lv_head := SENTINEL, lv_tail := SENTINEL\<rparr>))
          in
          rbind (minus_u p (lv_total_qty level1) (o_quantity (on_order node))) (\<lambda>total_qty.
          rbind (minus_u p (lv_len level1) 1) (\<lambda>len.
          let level2 = level1\<lparr>lv_total_qty := total_qty, lv_len := len\<rparr>;
              levels' = (if len = 0 then bt_remove price levels
                         else bt_insert price level2 levels);
              b' = set_level_map side levels'
                     (b\<lparr>ob_arena := a2,
                        ob_index := hm_remove (o_intent_hash (on_order node)) (ob_index b)\<rparr>)
          in
          rbind (debug_only p (assert_invariants b')) (\<lambda>_.
            Inr (b', Some (on_order node)))))))))) "

definition reduce_top :: "profile \<Rightarrow> OrderBook \<Rightarrow> Side \<Rightarrow> u64 \<Rightarrow> OrderBook res" where
  "reduce_top p b side qty =
     (case top_key_value b side of
        None \<Rightarrow> rbind (debug_assert p False ''reduce_top called on empty side'') (\<lambda>_. Inr b)
      | Some (price, _) \<Rightarrow>
          let levels = level_map b side in
          rbind (expect ''invariant: just-confirmed level missing'' (bt_get levels price)) (\<lambda>level.
          rbind (Arena_get_mut (ob_arena b) (lv_head level)) (\<lambda>r.
          rbind (expect ''invariant: level's head's arena slot must be valid'' r) (\<lambda>(node, write).
          rbind (debug_assert p (qty < o_quantity (on_order node))
                   ''invariant: reduce top called with full qty, use pop_top for full consumption'')
            (\<lambda>_.
          rbind (minus_u p (o_quantity (on_order node)) qty) (\<lambda>quantity.
          rbind (minus_u p (lv_total_qty level) qty) (\<lambda>total_qty.
          let b' = set_level_map side (bt_insert price (level\<lparr>lv_total_qty := total_qty\<rparr>) levels)
                     (b\<lparr>ob_arena := write (node\<lparr>on_order := (on_order node)\<lparr>o_quantity := quantity\<rparr>\<rparr>)\<rparr>)
          in
          rbind (debug_only p (assert_invariants b')) (\<lambda>_. Inr b'))))))))"

section \<open>The book as two priority queues\<close>

text \<open>Specification side: the orders of a level in list order, and of a side in price-time
  priority (best price first, then list order).\<close>

fun chain :: "(ArenaIdx \<Rightarrow> OrderNode option) \<Rightarrow> ArenaIdx \<Rightarrow> nat \<Rightarrow> Order list" where
  "chain m i 0 = []"
| "chain m i (Suc n) =
     (case m i of None \<Rightarrow> [] | Some node \<Rightarrow> on_order node # chain m (on_next node) n)"

definition level_orders :: "OrderBook \<Rightarrow> PriceLevel \<Rightarrow> Order list" where
  "level_orders b l = chain (arena_map (ob_arena b)) (lv_head l) (unat (lv_len l))"

definition priority_levels :: "OrderBook \<Rightarrow> Side \<Rightarrow> (u64 \<times> PriceLevel) list" where
  "priority_levels b side = (case side of Bid \<Rightarrow> rev (ob_bids b) | Ask \<Rightarrow> ob_asks b)"

definition resting :: "OrderBook \<Rightarrow> Side \<Rightarrow> Order list" where
  "resting b side = concat (map (\<lambda>(price, l). level_orders b l) (priority_levels b side))"

text \<open>The rank of a price on a side: smaller is better.\<close>

definition rank :: "Side \<Rightarrow> u64 \<Rightarrow> int" where
  "rank side price = (case side of Bid \<Rightarrow> - uint price | Ask \<Rightarrow> uint price)"

definition order_rank :: "Side \<Rightarrow> Order \<Rightarrow> int" where
  "order_rank side x = rank side (o_price x)"

text \<open>Joining a queue in price-time priority: behind every order that is at least as good.\<close>

definition enqueue :: "Side \<Rightarrow> Order \<Rightarrow> Order list \<Rightarrow> Order list" where
  "enqueue side x q =
     takeWhile (\<lambda>y. order_rank side y \<le> order_rank side x) q @ x #
     dropWhile (\<lambda>y. order_rank side y \<le> order_rank side x) q"

end
