(* ===== verification/Order_Book_Inv.thy ===== *)
theory Order_Book_Inv
  imports Order_Book
begin

text \<open>
  The invariant of the order book and what every operation does to it. \<open>book_rel p b L\<close>
  relates a book to a ghost map \<open>L\<close> giving, for each side and price, the queue of handles:
  each level is a well-formed intrusive list over its queue, its counters are the length and the
  (64-bit) sum of quantities, the queues partition the live slots of the arena by side and price,
  and the index is the inverse of the intent hashes. In a debug build the sums are exact as well,
  since an overflowing addition would have panicked.
\<close>

interpretation on: intrusive on_next on_prev "\<lambda>n i. n\<lparr>on_next := i\<rparr>" "\<lambda>n i. n\<lparr>on_prev := i\<rparr>"
  on_order SENTINEL
  by unfold_locales auto

section \<open>The invariant\<close>

abbreviation nodes :: "OrderBook \<Rightarrow> ArenaIdx \<Rightarrow> OrderNode option" where
  "nodes b \<equiv> arena_map (ob_arena b)"

definition node_qty :: "(ArenaIdx \<Rightarrow> OrderNode option) \<Rightarrow> ArenaIdx \<Rightarrow> u64" where
  "node_qty m i = (case m i of None \<Rightarrow> 0 | Some n \<Rightarrow> o_quantity (on_order n))"

definition queue_sum :: "(ArenaIdx \<Rightarrow> OrderNode option) \<Rightarrow> ArenaIdx list \<Rightarrow> nat" where
  "queue_sum m is = sum_list (map (\<lambda>i. unat (node_qty m i)) is)"

definition level_ok :: "profile \<Rightarrow> (ArenaIdx \<Rightarrow> OrderNode option) \<Rightarrow> PriceLevel \<Rightarrow> ArenaIdx list \<Rightarrow> bool" where
  "level_ok p m l is \<longleftrightarrow>
     is \<noteq> [] \<and> dlseg on_next on_prev m SENTINEL is SENTINEL \<and>
     lv_head l = hd is \<and> lv_tail l = last is \<and> lv_len l = of_nat (length is) \<and>
     lv_total_qty l = of_nat (queue_sum m is) \<and> (p = Debug \<longrightarrow> queue_sum m is < 2 ^ 64)"

definition on_level :: "Side \<Rightarrow> u64 \<Rightarrow> OrderNode \<Rightarrow> bool" where
  "on_level s pr n \<longleftrightarrow> o_side (on_order n) = s \<and> o_price (on_order n) = pr"

lemma on_level_unique: "on_level s pr n \<Longrightarrow> on_level s' pr' n \<Longrightarrow> s' = s \<and> pr' = pr"
  by (simp add: on_level_def)

type_synonym queues = "Side \<Rightarrow> u64 \<Rightarrow> ArenaIdx list"

definition book_rel :: "profile \<Rightarrow> OrderBook \<Rightarrow> queues \<Rightarrow> bool" where
  "book_rel p b L \<longleftrightarrow>
     arena_wf (ob_arena b) \<and> (\<forall>s. bt_wf (level_map b s)) \<and> hm_wf (ob_index b) \<and>
     (\<forall>s pr. distinct (L s pr)) \<and>
     (\<forall>s pr. case map_of (level_map b s) pr of
        None \<Rightarrow> L s pr = [] | Some l \<Rightarrow> level_ok p (nodes b) l (L s pr)) \<and>
     (\<forall>s pr i. i \<in> set (L s pr) \<longleftrightarrow> (\<exists>n. nodes b i = Some n \<and> on_level s pr n)) \<and>
     (\<forall>h i. map_of (ob_index b) h = Some i \<longleftrightarrow>
        (\<exists>n. nodes b i = Some n \<and> o_intent_hash (on_order n) = h))"

definition book_inv :: "profile \<Rightarrow> OrderBook \<Rightarrow> bool" where
  "book_inv p b \<longleftrightarrow> (\<exists>L. book_rel p b L)"

lemma book_relD:
  assumes "book_rel p b L"
  shows "arena_wf (ob_arena b)" and "bt_wf (level_map b s)" and "hm_wf (ob_index b)"
    and "distinct (L s pr)"
    and "map_of (level_map b s) pr = None \<Longrightarrow> L s pr = []"
    and "map_of (level_map b s) pr = Some l \<Longrightarrow> level_ok p (nodes b) l (L s pr)"
    and "i \<in> set (L s pr) \<longleftrightarrow> (\<exists>n. nodes b i = Some n \<and> on_level s pr n)"
    and "map_of (ob_index b) h = Some i \<longleftrightarrow>
      (\<exists>n. nodes b i = Some n \<and> o_intent_hash (on_order n) = h)"
proof -
  have "case map_of (level_map b s) pr of
      None \<Rightarrow> L s pr = [] | Some l \<Rightarrow> level_ok p (nodes b) l (L s pr)"
    using assms unfolding book_rel_def by blast
  then show "map_of (level_map b s) pr = None \<Longrightarrow> L s pr = []"
    and "map_of (level_map b s) pr = Some l \<Longrightarrow> level_ok p (nodes b) l (L s pr)" by simp_all
qed (use assms in \<open>(simp add: book_rel_def)+\<close>)

lemma queue_sum_cong: "(\<And>i. i \<in> set is \<Longrightarrow> m' i = m i) \<Longrightarrow> queue_sum m' is = queue_sum m is"
  unfolding queue_sum_def by (rule arg_cong [where f = sum_list], rule map_cong) (auto simp: node_qty_def)

lemma level_ok_cong:
  "(\<And>i. i \<in> set is \<Longrightarrow> m' i = m i) \<Longrightarrow> level_ok p m' l is = level_ok p m l is"
  using dlseg_cong [of "is" m' m on_next on_prev] queue_sum_cong [of "is" m' m]
  unfolding level_ok_def by metis

lemma level_map_set:
  "level_map (set_level_map s mp b) s' = (if s' = s then mp else level_map b s')"
  "ob_arena (set_level_map s mp b) = ob_arena b"
  "ob_index (set_level_map s mp b) = ob_index b"
  "ob_instrument_id (set_level_map s mp b) = ob_instrument_id b"
  by (cases s; cases s'; simp add: level_map_def set_level_map_def)+

lemma level_map_update [simp]:
  "level_map (b\<lparr>ob_arena := a\<rparr>) s = level_map b s"
  "level_map (b\<lparr>ob_index := ix\<rparr>) s = level_map b s"
  by (cases s; simp add: level_map_def)+

text \<open>
  The frame argument, once for all operations: an operation that rewrites the queue of one level
  (leaving every node outside it alone) and its entry in the level map keeps the invariant.
\<close>

lemma book_rel_change:
  assumes R: "book_rel p b L" and wf: "arena_wf a'"
    and frame: "\<And>i. i \<notin> set (L s pr) \<Longrightarrow> i \<notin> set is' \<Longrightarrow> arena_map a' i = nodes b i"
    and inside: "\<And>i. i \<in> set is' \<Longrightarrow> \<exists>n. arena_map a' i = Some n \<and> on_level s pr n"
    and gone: "\<And>i. i \<in> set (L s pr) \<Longrightarrow> i \<notin> set is' \<Longrightarrow> arena_map a' i = None"
    and fresh: "\<And>i. i \<in> set is' \<Longrightarrow> i \<notin> set (L s pr) \<Longrightarrow> nodes b i = None"
    and dist: "distinct is'"
    and mp: "bt_wf mp" "map_of mp = (map_of (level_map b s))(pr := lo)"
    and lo: "case lo of None \<Rightarrow> is' = [] | Some l \<Rightarrow> level_ok p (arena_map a') l is'"
    and ix: "hm_wf ix" "\<And>h i. map_of ix h = Some i \<longleftrightarrow>
        (\<exists>n. arena_map a' i = Some n \<and> o_intent_hash (on_order n) = h)"
  shows "book_rel p (set_level_map s mp (b\<lparr>ob_arena := a', ob_index := ix\<rparr>))
    (L(s := (L s)(pr := is')))" (is "book_rel p ?b ?L")
  unfolding book_rel_def
proof (intro conjI allI)
  let ?m = "nodes b" and ?m' = "arena_map a'"
  have n: "nodes ?b = ?m'" by (simp add: level_map_set)
  have other: "?m' i = ?m i" if i: "i \<in> set (L s' pr')" and ne: "s' \<noteq> s \<or> pr' \<noteq> pr" for i s' pr'
  proof (rule frame)
    from i obtain n where n: "?m i = Some n" "on_level s' pr' n" using book_relD(7) [OF R] by blast
    with ne show "i \<notin> set (L s pr)" using book_relD(7) [OF R, of i s pr] by (auto simp: on_level_def)
    then show "i \<notin> set is'" using fresh [of i] n by auto
  qed
  fix s' pr' i h
  show "bt_wf (level_map ?b s')" using mp book_relD(2) [OF R] by (simp add: level_map_set)
  show "distinct (?L s' pr')" using dist book_relD(4) [OF R] by simp
  show "case map_of (level_map ?b s') pr' of None \<Rightarrow> ?L s' pr' = []
      | Some l \<Rightarrow> level_ok p (nodes ?b) l (?L s' pr')"
  proof (cases "s' = s \<and> pr' = pr")
    case True
    then show ?thesis using lo mp n by (auto simp: level_map_set split: option.split)
  next
    case False
    then have "?L s' pr' = L s' pr'" and "map_of (level_map ?b s') pr' = map_of (level_map b s') pr'"
      using mp by (auto simp: level_map_set)
    moreover from False have "level_ok p ?m' l (L s' pr') = level_ok p ?m l (L s' pr')" for l
      using other by (intro level_ok_cong) auto
    ultimately show ?thesis
      using book_relD(5,6) [OF R, of s' pr'] n by (simp split: option.split)
  qed
  show "i \<in> set (?L s' pr') \<longleftrightarrow> (\<exists>n. nodes ?b i = Some n \<and> on_level s' pr' n)"
  proof (cases "s' = s \<and> pr' = pr")
    case True
    then show ?thesis
      using inside [of i] gone [of i] frame [of i] book_relD(7) [OF R, of i s pr] n
      by (cases "i \<in> set is'"; cases "i \<in> set (L s pr)") auto
  next
    case False
    have "(\<exists>n. ?m' i = Some n \<and> on_level s' pr' n) \<longleftrightarrow> (\<exists>n. ?m i = Some n \<and> on_level s' pr' n)"
    proof (cases "i \<in> set (L s pr) \<union> set is'")
      case True
      with False inside [of i] gone [of i] fresh [of i] book_relD(7) [OF R, of i s pr]
      show ?thesis by (metis Un_iff on_level_unique option.distinct(1) option.inject)
    next
      case False
      then show ?thesis using frame [of i] by simp
    qed
    with False n show ?thesis using book_relD(7) [OF R, of i s' pr'] by auto
  qed
qed (use wf ix in \<open>auto simp: level_map_set\<close>)

section \<open>Facts the operations share\<close>

definition book_orders :: "OrderBook \<Rightarrow> ArenaIdx \<Rightarrow> Order option" where
  "book_orders b i = map_option on_order (nodes b i)"

definition book_capacity :: "OrderBook \<Rightarrow> nat" where
  "book_capacity b = arena_capacity (ob_arena b)"

lemma queue_length:
  assumes "book_rel p b L"
  shows "length (L s pr) < 4294967295"
proof -
  have "set (L s pr) \<subseteq> dom (nodes b)" using book_relD(7) [OF assms] by auto
  then have "card (set (L s pr)) \<le> card (dom (nodes b))"
    using ar.finite_contents [OF book_relD(1) [OF assms]] by (rule card_mono [rotated])
  also have "\<dots> \<le> arena_capacity (ob_arena b)" by (rule ar.card_contents [OF book_relD(1) [OF assms]])
  finally show ?thesis
    using arena_wf_length [OF book_relD(1) [OF assms]] book_relD(4) [OF assms, of s pr]
    by (simp add: distinct_card arena_capacity_def)
qed

lemma level_exists:
  assumes R: "book_rel p b L" and n: "nodes b i = Some n" "on_level s pr n"
  obtains l where "map_of (level_map b s) pr = Some l" and "level_ok p (nodes b) l (L s pr)"
    and "i \<in> set (L s pr)"
proof -
  have i: "i \<in> set (L s pr)" using n book_relD(7) [OF R] by blast
  then obtain l where "map_of (level_map b s) pr = Some l"
    using book_relD(5) [OF R, of s pr] by fastforce
  with i that book_relD(6) [OF R] show thesis by blast
qed

lemma index_hash:
  assumes "book_rel p b L" and "nodes b i = Some n"
  shows "map_of (ob_index b) (o_intent_hash (on_order n)) = Some i"
  using book_relD(8) [OF assms(1)] assms(2) by blast

lemma if_let_get_mut_ok:
  assumes "arena_wf a"
  obtains a' where "if_let_get_mut a i f = Inr a'" and "arena_wf a'"
    and "arena_map a' = map_upd i f (arena_map a)" and "arena_capacity a' = arena_capacity a"
proof (cases "arena_map a i")
  case None
  with assms that [of a] show thesis by (simp add: if_let_get_mut_def ar.get_mut_absent)
next
  case (Some n)
  with assms that [of "Arena_put a i (f n)"] ar.put_ok [OF assms Some, of "f n"] show thesis
    by (simp add: if_let_get_mut_def ar.get_mut_present map_upd_def)
qed

lemma queue_sum_append [simp]: "queue_sum m (is @ js) = queue_sum m is + queue_sum m js"
  by (simp add: queue_sum_def)

lemma queue_sum_Cons [simp]: "queue_sum m (i # is) = unat (node_qty m i) + queue_sum m is"
  by (simp add: queue_sum_def)

lemma queue_sum_Nil [simp]: "queue_sum m [] = 0"
  by (simp add: queue_sum_def)

lemma queue_sum_payload:
  assumes "\<And>i. i \<in> set is \<Longrightarrow> map_option on_order (m' i) = map_option on_order (m i)"
  shows "queue_sum m' is = queue_sum m is"
proof -
  have "node_qty m' i = node_qty m i" if "i \<in> set is" for i
    using assms [OF that] by (auto simp: node_qty_def split: option.splits)
  then show ?thesis unfolding queue_sum_def by (intro arg_cong [where f = sum_list] map_cong) auto
qed

lemma is_valid_live: "arena_wf a \<Longrightarrow> arena_map a i = Some n \<Longrightarrow> is_valid i"
  unfolding is_valid_def by (rule ar.live_not_null)

lemma not_valid_SENTINEL [simp]: "\<not> is_valid SENTINEL"
  by (simp add: is_valid_def)

lemma level_ok_sum_le:
  assumes "level_ok Debug m l is" and "i \<in> set is" and "m i = Some n"
  shows "o_quantity (on_order n) \<le> lv_total_qty l"
proof -
  from assms(2) obtain as bs where "is = as @ i # bs" by (auto simp: in_set_conv_decomp)
  with assms have "unat (o_quantity (on_order n)) \<le> queue_sum m is" by (simp add: node_qty_def)
  with assms(1) show ?thesis by (simp add: level_ok_def word_le_nat_alt unat_of_nat_small)
qed

lemma level_ok_len:
  assumes "book_rel p b L" and "level_ok p (nodes b) l (L s pr)"
  shows "unat (lv_len l) = length (L s pr)" and "0 < lv_len l"
proof -
  show 1: "unat (lv_len l) = length (L s pr)"
    using assms(2) queue_length [OF assms(1), of s pr] by (simp add: level_ok_def unat_of_nat_u32)
  show "0 < lv_len l" using assms(2) 1 by (auto simp: level_ok_def word_less_nat_alt)
qed

lemma dlseg_head:
  assumes "dlseg on_next on_prev m SENTINEL is SENTINEL" and "is = i # js" and "m i = Some n"
  shows "on_prev n = SENTINEL"
  using assms by auto

section \<open>The checker accepts every book that satisfies the invariant\<close>

lemma walk_steps_ok:
  assumes "arena_wf a" and "dlseg on_next on_prev (arena_map a) p is q"
  shows "walk_steps a (length is) (hd (is @ [q])) p = Inr (is, q, last (p # is))"
  using assms(2) by (induction "is" arbitrary: p) (auto simp: ar.get_eq [OF assms(1)])

lemma walk_level_ok:
  assumes R: "book_rel p b L" and l: "level_ok p (nodes b) l (L s pr)"
  shows "walk_level b l = Inr (L s pr)"
proof -
  from l obtain i js where is_: "L s pr = i # js" by (cases "L s pr") (auto simp: level_ok_def)
  with l have "is_valid (lv_head l)"
    using is_valid_live [OF book_relD(1) [OF R], of i] by (auto simp: level_ok_def)
  moreover have "walk_steps (ob_arena b) (length (L s pr)) (lv_head l) SENTINEL =
      Inr (L s pr, SENTINEL, lv_tail l)"
    using walk_steps_ok [OF book_relD(1) [OF R], of SENTINEL "L s pr" SENTINEL] l is_
    by (simp add: level_ok_def)
  ultimately show ?thesis
    using level_ok_len(1) [OF R l] by (simp add: walk_level_def)
qed

lemma sum_qty_loop_ok:
  assumes "arena_wf (ob_arena b)" and "\<And>i. i \<in> set is \<Longrightarrow> nodes b i \<noteq> None"
    and "unat acc + queue_sum (nodes b) is < 2 ^ 64"
  shows "sum_qty_loop b is acc = Inr (acc + of_nat (queue_sum (nodes b) is))"
  using assms(2,3)
proof (induction "is" arbitrary: acc)
  case (Cons i "is")
  then obtain n where n: "nodes b i = Some n" by auto
  let ?q = "o_quantity (on_order n)"
  from Cons.prems(2) n have lt: "unat acc + unat ?q + queue_sum (nodes b) is < 2 ^ 64"
    by (simp add: node_qty_def)
  then have "unat (acc + ?q) = unat acc + unat ?q" by (intro unat_plus_no_overflow) simp
  with Cons.IH [of "acc + ?q"] Cons.prems(1) lt
  have "sum_qty_loop b is (acc + ?q) = Inr (acc + ?q + of_nat (queue_sum (nodes b) is))" by simp
  moreover have "plus_u Debug acc ?q = Inr (acc + ?q)" using lt by (intro plus_u_ok) simp
  ultimately show ?case using n by (simp add: ar.get_eq [OF assms(1)] node_qty_def add.assoc)
qed simp

lemma index_loop_ok:
  assumes R: "book_rel p b L" and "\<And>i. i \<in> set is \<Longrightarrow> nodes b i \<noteq> None"
  shows "index_loop b is = Inr ()"
  using assms(2)
proof (induction "is")
  case (Cons i "is")
  then obtain n where n: "nodes b i = Some n" by auto
  with index_hash [OF R n] Cons show ?case by (simp add: ar.get_eq [OF book_relD(1) [OF R]])
qed simp

lemma check_levels_append:
  "check_levels b (xs @ ys) t = rbind (check_levels b xs t) (check_levels b ys)"
proof (induction xs arbitrary: t)
  case (Cons e xs)
  then have "check_levels b (xs @ ys) = (\<lambda>t. rbind (check_levels b xs t) (check_levels b ys))"
    by (simp add: fun_eq_iff)
  then show ?case by (cases e) (simp add: rbind_assoc)
qed simp

lemma check_levels_ok:
  assumes R: "book_rel Debug b L"
    and "\<And>pr l. (pr, l) \<in> set ls \<Longrightarrow> map_of (level_map b s) pr = Some l"
    and "unat t + length (concat (map (\<lambda>e. L s (fst e)) ls)) < 2 ^ 64"
  shows "check_levels b ls t = Inr (t + of_nat (length (concat (map (\<lambda>e. L s (fst e)) ls))))"
  using assms(2,3)
proof (induction ls arbitrary: t)
  case (Cons e ls)
  obtain pr l where e: "e = (pr, l)" by force
  with Cons.prems have l: "level_ok Debug (nodes b) l (L s pr)" by (intro book_relD(6) [OF R]) simp
  let ?n = "length (L s pr)"
  have live: "nodes b i \<noteq> None" if "i \<in> set (L s pr)" for i
    using that book_relD(7) [OF R] by auto
  have ne: "\<not> PriceLevel_is_empty l"
    using l live [of "hd (L s pr)"] is_valid_live [OF book_relD(1) [OF R]]
    by (auto simp: PriceLevel_is_empty_def level_ok_def)
  have len: "of_nat ?n = PriceLevel_len l"
    using level_ok_len(1) [OF R l] by (metis PriceLevel_len_def of_nat_unat)
  have sum: "sum_qty_loop b (L s pr) 0 = Inr (lv_total_qty l)"
    using sum_qty_loop_ok [OF book_relD(1) [OF R], of "L s pr" 0] live l by (simp add: level_ok_def)
  have n: "unat (of_nat ?n :: usize) = ?n"
    using queue_length [OF R, of s pr] by (intro unat_of_nat_u64) simp
  from Cons.prems(2) e have lt: "unat t + ?n + length (concat (map (\<lambda>e. L s (fst e)) ls)) < 2 ^ 64"
    by (simp add: comp_def add.assoc)
  then have "unat (t + of_nat ?n) = unat t + ?n"
    by (subst unat_plus_no_overflow) (simp_all add: n)
  with lt Cons.prems(1) have
    "check_levels b ls (t + of_nat ?n) = Inr (t + of_nat ?n + of_nat (length (concat (map (\<lambda>e. L s (fst e)) ls))))"
    by (intro Cons.IH) simp_all
  moreover have "plus_u Debug t (of_nat ?n) = Inr (t + of_nat ?n)"
    using lt by (intro plus_u_ok) (simp add: n)
  ultimately show ?case
    using ne len sum index_loop_ok [OF R live] walk_level_ok [OF R l] e by (simp add: add.assoc)
qed simp

lemma distinct_concat_map:
  assumes "distinct xs" and "\<And>x. distinct (f x)"
    and "\<And>x y. x \<noteq> y \<Longrightarrow> set (f x) \<inter> set (f y) = {}"
  shows "distinct (concat (map f xs))"
  using assms(1)
proof (induction xs)
  case (Cons x xs)
  then have "set (f x) \<inter> set (f y) = {}" if "y \<in> set xs" for y
    using that by (intro assms(3)) auto
  then have "set (f x) \<inter> set (concat (map f xs)) = {}" by auto
  with Cons assms(2) show ?case by simp
qed simp

lemma card_index:
  assumes R: "book_rel p b L"
  shows "length (ob_index b) = card (dom (nodes b))"
proof -
  let ?ix = "map_of (ob_index b)"
  have "inj_on (\<lambda>h. the (?ix h)) (dom ?ix)"
    using book_relD(8) [OF R] unfolding inj_on_def by (metis domD option.sel)
  moreover have "(\<lambda>h. the (?ix h)) ` dom ?ix = dom (nodes b)"
  proof (intro set_eqI iffI)
    fix i assume "i \<in> dom (nodes b)"
    then obtain n where "nodes b i = Some n" by auto
    from index_hash [OF R this] show "i \<in> (\<lambda>h. the (?ix h)) ` dom ?ix"
      by (intro image_eqI [of _ _ "o_intent_hash (on_order n)"]) auto
  next
    fix i assume "i \<in> (\<lambda>h. the (?ix h)) ` dom ?ix"
    then obtain h where "?ix h = Some i" by auto
    then show "i \<in> dom (nodes b)" using book_relD(8) [OF R] by auto
  qed
  ultimately have "card (dom (nodes b)) = card (dom ?ix)" by (metis card_image)
  then show ?thesis using hm_length [OF book_relD(3) [OF R]] by simp
qed

lemma queues_partition:
  assumes R: "book_rel p b L"
  defines "all_of s \<equiv> concat (map (\<lambda>e. L s (fst e)) (level_map b s))"
  shows "distinct (all_of Bid @ all_of Ask)" and "set (all_of Bid @ all_of Ask) = dom (nodes b)"
proof -
  have m: "i \<in> set (all_of s) \<longleftrightarrow> (\<exists>n. nodes b i = Some n \<and> o_side (on_order n) = s)" for i s
  proof
    assume "\<exists>n. nodes b i = Some n \<and> o_side (on_order n) = s"
    then obtain n where n: "nodes b i = Some n" "on_level s (o_price (on_order n)) n"
      by (auto simp: on_level_def)
    from level_exists [OF R n] obtain l where "map_of (level_map b s) (o_price (on_order n)) = Some l"
      "i \<in> set (L s (o_price (on_order n)))" .
    with map_of_SomeD [of "level_map b s" "o_price (on_order n)" l]
    show "i \<in> set (all_of s)" by (force simp: all_of_def)
  qed (auto simp: all_of_def book_relD(7) [OF R] on_level_def)
  then show "set (all_of Bid @ all_of Ask) = dom (nodes b)" by (auto simp: dom_def) (metis Side.exhaust)
  have "distinct (map fst (level_map b s))" for s
    using book_relD(2) [OF R, of s] by (simp add: bt_wf_def strict_sorted_iff)
  then have "distinct (concat (map (L s) (map fst (level_map b s))))" for s
    by (rule distinct_concat_map) (auto simp: book_relD(4,7) [OF R] on_level_def)
  then have "distinct (all_of s)" for s by (simp add: all_of_def comp_def)
  with m show "distinct (all_of Bid @ all_of Ask)" by auto
qed

lemma assert_invariants_ok:
  assumes R: "book_rel Debug b L"
  shows "assert_invariants b = Inr ()"
proof -
  let ?all = "\<lambda>s. concat (map (\<lambda>e. L s (fst e)) (level_map b s))"
  let ?nb = "length (?all Bid)" and ?na = "length (?all Ask)"
  have tot: "?nb + ?na = card (dom (nodes b))"
    using queues_partition [OF R] by (metis distinct_card length_append)
  then have lt: "?nb + ?na < 2 ^ 64"
    using ar.card_contents [OF book_relD(1) [OF R]] arena_wf_length [OF book_relD(1) [OF R]]
    by (simp add: arena_capacity_def)
  have nb: "unat (of_nat ?nb :: usize) = ?nb" using lt by (intro unat_of_nat_u64) simp
  have "check_levels b (level_map b Bid) 0 = Inr (0 + of_nat ?nb)"
    using lt by (intro check_levels_ok [OF R]) (auto simp: bt_entries [OF book_relD(2) [OF R]])
  moreover have "check_levels b (level_map b Ask) (of_nat ?nb) = Inr (of_nat ?nb + of_nat ?na)"
    using lt nb by (intro check_levels_ok [OF R]) (auto simp: bt_entries [OF book_relD(2) [OF R]])
  ultimately have "check_levels b (ob_bids b @ ob_asks b) 0 = Inr (of_nat (?nb + ?na))"
    by (simp add: check_levels_append level_map_def)
  then show ?thesis
    by (simp add: assert_invariants_def tot card_index [OF R])
qed

section \<open>Removing a node\<close>

text \<open>The nodes after the removal of \<open>i\<close> and the splice of its neighbours, as \<open>cancel\<close> and
  \<open>pop_top\<close> leave them.\<close>

definition spliced :: "(ArenaIdx \<Rightarrow> OrderNode option) \<Rightarrow> ArenaIdx \<Rightarrow> OrderNode \<Rightarrow> ArenaIdx \<Rightarrow> OrderNode option" where
  "spliced m i n =
     map_upd (on_next n) (\<lambda>x. x\<lparr>on_prev := on_prev n\<rparr>)
       (map_upd (on_prev n) (\<lambda>x. x\<lparr>on_next := on_next n\<rparr>) (m(i := None)))"

lemma spliced_payload:
  "map_option on_order (spliced m i n j) = (if j = i then None else map_option on_order (m j))"
proof -
  have "map_option on_order (spliced m i n j) = map_option on_order ((m(i := None)) j)"
    unfolding spliced_def
    by (subst on.payload_map_upd, simp, subst on.payload_map_upd, simp, rule refl)
  then show ?thesis by simp
qed

lemma map_option_eq_SomeD: "map_option f x = Some y \<Longrightarrow> \<exists>z. x = Some z \<and> f z = y"
  by (cases x) auto

lemma on_level_payload:
  assumes "map_option on_order x = map_option on_order y"
  shows "(\<exists>n. x = Some n \<and> on_level s pr n) \<longleftrightarrow> (\<exists>n. y = Some n \<and> on_level s pr n)"
    and "(\<exists>n. x = Some n \<and> o_intent_hash (on_order n) = h) \<longleftrightarrow>
      (\<exists>n. y = Some n \<and> o_intent_hash (on_order n) = h)"
  using assms by (cases x; cases y; simp add: on_level_def)+

lemma of_nat_u32_eq_0:
  assumes "n < 4294967295"
  shows "(of_nat n :: u32) = 0 \<longleftrightarrow> n = 0"
proof
  assume "(of_nat n :: u32) = 0"
  then have "unat (of_nat n :: u32) = unat (0 :: u32)" by simp
  moreover have "unat (of_nat n :: u32) = n" using assms by (intro unat_of_nat_u32) linarith
  ultimately show "n = 0" by simp
qed simp

text \<open>The level counters after the removal.\<close>

definition level_without :: "PriceLevel \<Rightarrow> OrderNode \<Rightarrow> PriceLevel \<Rightarrow> bool" where
  "level_without l n l' \<longleftrightarrow>
     lv_head l' = (if is_valid (on_prev n) then lv_head l else on_next n) \<and>
     lv_tail l' = (if is_valid (on_next n) then lv_tail l else on_prev n) \<and>
     lv_len l' = lv_len l - 1 \<and> lv_total_qty l' = lv_total_qty l - o_quantity (on_order n)"

lemma level_ok_unlink:
  assumes l: "level_ok p m l (is @ i # js)" and dist: "distinct (is @ i # js)"
    and null: "m SENTINEL = None" and n: "m i = Some n" and l': "level_without l n l'"
  shows "is @ js = [] \<or> level_ok p (spliced m i n) l' (is @ js)"
    and "length (is @ js) < 4294967295 \<Longrightarrow> lv_len l' = 0 \<longleftrightarrow> is @ js = []"
proof -
  let ?m' = "spliced m i n"
  from l have seg: "dlseg on_next on_prev m SENTINEL (is @ i # js) SENTINEL"
    by (simp add: level_ok_def)
  note links = dlseg_node [OF seg n]
  have valid: "is_valid j" if "j \<in> set (is @ i # js)" for j
    using dlseg_live [OF seg that] null by (auto simp: is_valid_def)
  have seg': "dlseg on_next on_prev ?m' SENTINEL (is @ js) SENTINEL"
    using on.unlink [OF seg dist null] by (simp add: spliced_def links)
  have sum: "queue_sum ?m' (is @ js) = queue_sum m (is @ js)"
    using dist by (intro queue_sum_payload) (auto simp: spliced_payload)
  have total: "lv_total_qty l' = of_nat (queue_sum m (is @ js))"
    using l l' n by (simp add: level_ok_def level_without_def node_qty_def algebra_simps)
  have hd: "is @ js \<noteq> [] \<Longrightarrow> lv_head l' = hd (is @ js)"
    using l l' valid [of "last is"] by (auto simp: level_ok_def level_without_def links hd_append)
  have lt: "is @ js \<noteq> [] \<Longrightarrow> lv_tail l' = last (is @ js)"
    using l l' valid [of "hd js"] by (cases js) (auto simp: level_ok_def level_without_def links)
  show "is @ js = [] \<or> level_ok p ?m' l' (is @ js)"
    using seg' sum total hd lt l l' by (auto simp: level_ok_def level_without_def)
  have "lv_len l' = of_nat (length (is @ js))" using l l' by (simp add: level_ok_def level_without_def)
  then show "lv_len l' = 0 \<longleftrightarrow> is @ js = []" if "length (is @ js) < 4294967295"
    using of_nat_u32_eq_0 [of "length (is @ js)"] that by (simp only: length_0_conv)
qed

lemma remove_node_rel:
  assumes R: "book_rel p b L" and n: "nodes b i = Some n"
    and a3: "arena_wf a3" "arena_map a3 = spliced (nodes b) i n"
    and s: "s = o_side (on_order n)" and pr: "pr = o_price (on_order n)"
    and l: "map_of (level_map b s) pr = Some l" and l': "level_without l n l'"
  shows "book_rel p
    (set_level_map s (if lv_len l' = 0 then bt_remove pr (level_map b s) else bt_insert pr l' (level_map b s))
      (b\<lparr>ob_arena := a3, ob_index := hm_remove (o_intent_hash (on_order n)) (ob_index b)\<rparr>))
    (L(s := (L s)(pr := remove1 i (L s pr))))"
proof -
  have lev: "on_level s pr n" using s pr by (simp add: on_level_def)
  then have "i \<in> set (L s pr)" using n book_relD(7) [OF R] by blast
  then obtain as bs where q: "L s pr = as @ i # bs" by (auto simp: in_set_conv_decomp)
  have dist: "distinct (as @ i # bs)" using book_relD(4) [OF R, of s pr] q by simp
  then have q': "remove1 i (L s pr) = as @ bs" by (simp add: q remove1_split)
  have ok: "level_ok p (nodes b) l (as @ i # bs)" using book_relD(6) [OF R l] q by simp
  note ul = level_ok_unlink [OF ok dist ar.null_free [OF book_relD(1) [OF R]] n l']
  have len: "lv_len l' = 0 \<longleftrightarrow> as @ bs = []"
    using queue_length [OF R, of s pr] q by (intro ul(2)) simp
  define lo where "lo = (if as @ bs = [] then None else Some l')"
  define mp where "mp = (if lv_len l' = 0 then bt_remove pr (level_map b s) else bt_insert pr l' (level_map b s))"
  have pay: "map_option on_order (arena_map a3 j) = (if j = i then None else map_option on_order (nodes b j))" for j
    by (simp add: a3 spliced_payload)
  have "book_rel p (set_level_map s mp
      (b\<lparr>ob_arena := a3, ob_index := hm_remove (o_intent_hash (on_order n)) (ob_index b)\<rparr>))
    (L(s := (L s)(pr := as @ bs)))"
  proof (rule book_rel_change [OF R a3(1), of s pr "as @ bs" mp lo])
    fix j
    note seg = ok [unfolded level_ok_def, THEN conjunct2, THEN conjunct1]
    from dlseg_node [OF seg n] have pn: "on_prev n = last (SENTINEL # as)" "on_next n = hd (bs @ [SENTINEL])" .
    show "arena_map a3 j = nodes b j" if j: "j \<notin> set (L s pr)" "j \<notin> set (as @ bs)"
    proof -
      have "j = SENTINEL \<longrightarrow> nodes b j = None" using ar.null_free [OF book_relD(1) [OF R]] by simp
      moreover have "on_prev n = SENTINEL \<or> on_prev n \<in> set as" "on_next n = SENTINEL \<or> on_next n \<in> set bs"
        unfolding pn by (simp, cases bs) simp_all
      ultimately show ?thesis using j q by (auto simp: a3 spliced_def map_upd_apply)
    qed
    show "\<exists>n. arena_map a3 j = Some n \<and> on_level s pr n" if j: "j \<in> set (as @ bs)"
    proof -
      have "j \<noteq> i" "j \<in> set (L s pr)" using j dist q by auto
      then show ?thesis
        using on_level_payload(1) [of "arena_map a3 j" "nodes b j" s pr] pay [of j] book_relD(7) [OF R, of j s pr]
        by simp
    qed
    show "arena_map a3 j = None" if "j \<in> set (L s pr)" "j \<notin> set (as @ bs)"
      using that q pay [of i] by auto
    show "map_of (hm_remove (o_intent_hash (on_order n)) (ob_index b)) h = Some j \<longleftrightarrow>
        (\<exists>n. arena_map a3 j = Some n \<and> o_intent_hash (on_order n) = h)" for h
      using on_level_payload(2) [of "arena_map a3 j" "nodes b j" h] pay [of j]
        book_relD(8) [OF R, of h j] index_hash [OF R n] n
      by (cases "j = i") auto
  next
    show "map_of mp = (map_of (level_map b s))(pr := lo)"
      using len book_relD(2) [OF R, of s] by (auto simp: mp_def lo_def)
    show "case lo of None \<Rightarrow> as @ bs = [] | Some l \<Rightarrow> level_ok p (arena_map a3) l (as @ bs)"
      using ul(1) by (auto simp: lo_def a3)
  qed (use dist q book_relD(2) [OF R, of s] book_relD(3) [OF R] in \<open>auto simp: mp_def\<close>)
  then show ?thesis by (simp add: mp_def q')
qed

section \<open>Each operation keeps the invariant\<close>

text \<open>What no operation changes: the instrument and the arena's capacity.\<close>

definition same_book :: "OrderBook \<Rightarrow> OrderBook \<Rightarrow> bool" where
  "same_book b b' \<longleftrightarrow>
     ob_instrument_id b' = ob_instrument_id b \<and> book_capacity b' = book_capacity b"

lemma book_update_commute: "b\<lparr>ob_index := ix, ob_arena := a\<rparr> = b\<lparr>ob_arena := a, ob_index := ix\<rparr>"
  by simp

lemma debug_check_ok: "book_rel p b L \<Longrightarrow> debug_only p (assert_invariants b) = Inr ()"
  by (rule debug_only_ok) (simp add: assert_invariants_ok)

lemma removed_counters:
  assumes R: "book_rel p b L" and l: "map_of (level_map b s) pr = Some l"
    and n: "nodes b i = Some n" and i: "i \<in> set (L s pr)"
  shows "minus_u p (lv_total_qty l) (o_quantity (on_order n)) = Inr (lv_total_qty l - o_quantity (on_order n))"
    and "minus_u p (lv_len l) 1 = Inr (lv_len l - 1)"
proof -
  have ok: "level_ok p (nodes b) l (L s pr)" by (rule book_relD(6) [OF R l])
  show "minus_u p (lv_total_qty l) (o_quantity (on_order n)) = Inr (lv_total_qty l - o_quantity (on_order n))"
    using ok i n by (intro minus_u_ok level_ok_sum_le [of "nodes b" l "L s pr" i]) auto
  have "1 \<le> lv_len l" using level_ok_len [OF R ok] by (simp add: word_le_nat_alt word_less_nat_alt Suc_le_eq)
  then show "minus_u p (lv_len l) 1 = Inr (lv_len l - 1)" by (intro minus_u_ok)
qed

lemma cancel_absent:
  "map_of (ob_index b) h = None \<Longrightarrow> OrderBook_cancel p b h = Inr (b, None)"
  by (simp add: OrderBook_cancel_def)

lemma cancel_present:
  assumes R: "book_rel p b L" and n: "nodes b i = Some n" and h: "h = o_intent_hash (on_order n)"
    and s: "s = o_side (on_order n)" and pr: "pr = o_price (on_order n)"
  obtains b' where "OrderBook_cancel p b h = Inr (b', Some (on_order n))"
    and "book_rel p b' (L(s := (L s)(pr := remove1 i (L s pr))))"
    and "book_orders b' = (book_orders b)(i := None)" and "same_book b b'"
proof -
  note wf = book_relD(1) [OF R]
  have ix: "map_of (ob_index b) h = Some i" using index_hash [OF R n] h by simp
  have lev: "on_level s pr n" by (simp add: on_level_def s pr)
  from level_exists [OF R n lev] obtain l where l: "map_of (level_map b s) pr = Some l"
    and i: "i \<in> set (L s pr)" .
  from ar.remove_present [OF wf n, of p] obtain a1 where a1: "Arena_remove p (ob_arena b) i = Inr (a1, Some n)"
    "arena_wf a1" "arena_map a1 = (nodes b)(i := None)" "arena_capacity a1 = arena_capacity (ob_arena b)" by blast
  from if_let_get_mut_ok [OF a1(2), of "on_prev n" "\<lambda>x. x\<lparr>on_next := on_next n\<rparr>"] obtain a2
    where a2: "if_let_get_mut a1 (on_prev n) (\<lambda>x. x\<lparr>on_next := on_next n\<rparr>) = Inr a2" "arena_wf a2"
    "arena_map a2 = map_upd (on_prev n) (\<lambda>x. x\<lparr>on_next := on_next n\<rparr>) (arena_map a1)"
    "arena_capacity a2 = arena_capacity a1" .
  from if_let_get_mut_ok [OF a2(2), of "on_next n" "\<lambda>x. x\<lparr>on_prev := on_prev n\<rparr>"] obtain a3
    where a3: "if_let_get_mut a2 (on_next n) (\<lambda>x. x\<lparr>on_prev := on_prev n\<rparr>) = Inr a3" "arena_wf a3"
    "arena_map a3 = map_upd (on_next n) (\<lambda>x. x\<lparr>on_prev := on_prev n\<rparr>) (arena_map a2)"
    "arena_capacity a3 = arena_capacity a2" .
  have m3: "arena_map a3 = spliced (nodes b) i n" by (simp add: spliced_def a1 a2 a3)
  define l1 where "l1 = (if \<not> is_valid (on_prev n) then l\<lparr>lv_head := on_next n\<rparr> else l)"
  define l2 where "l2 = (if \<not> is_valid (on_next n) then l1\<lparr>lv_tail := on_prev n\<rparr> else l1)"
  define l3 where "l3 = l2\<lparr>lv_total_qty := lv_total_qty l2 - o_quantity (on_order n), lv_len := lv_len l2 - 1\<rparr>"
  have [simp]: "lv_total_qty l2 = lv_total_qty l" "lv_len l2 = lv_len l" by (simp_all add: l1_def l2_def)
  have l3: "level_without l n l3" by (simp add: level_without_def l1_def l2_def l3_def)
  define b' where "b' = set_level_map s
      (if lv_len l3 = 0 then bt_remove pr (level_map b s) else bt_insert pr l3 (level_map b s))
      (b\<lparr>ob_arena := a3, ob_index := hm_remove h (ob_index b)\<rparr>)"
  have R': "book_rel p b' (L(s := (L s)(pr := remove1 i (L s pr))))"
    using remove_node_rel [OF R n a3(2) m3 s pr l l3] by (simp add: b'_def h)
  have "OrderBook_cancel p b h = rbind (debug_only p (assert_invariants b')) (\<lambda>_. Inr (b', Some (on_order n)))"
    using ix a1(1) a2(1) a3(1) l removed_counters [OF R l n i]
    by (cases "is_valid (on_prev n)"; cases "is_valid (on_next n)"; cases "lv_len l - 1 = 0")
      (simp_all add: OrderBook_cancel_def b'_def l1_def l2_def l3_def Let_def s [symmetric] pr [symmetric]
        book_update_commute)
  with debug_check_ok [OF R'] have "OrderBook_cancel p b h = Inr (b', Some (on_order n))" by simp
  moreover have "book_orders b' = (book_orders b)(i := None)"
    by (auto simp: fun_eq_iff book_orders_def b'_def level_map_set m3 spliced_payload)
  moreover have "same_book b b'"
    by (simp add: same_book_def b'_def level_map_set book_capacity_def a3 a2 a1)
  ultimately show thesis using R' that by blast
qed

lemma top_lookup:
  assumes "book_rel p b L" and "top_key_value b s = Some (pr, l)"
  shows "map_of (level_map b s) pr = Some l" and "level_ok p (nodes b) l (L s pr)"
proof -
  show l: "map_of (level_map b s) pr = Some l"
    using assms(2) book_relD(2) [OF assms(1), of s]
    by (cases s) (auto simp: top_key_value_def level_map_def bt.first_lookup bt.final_lookup)
  show "level_ok p (nodes b) l (L s pr)" by (rule book_relD(6) [OF assms(1) l])
qed

lemma top_present:
  assumes R: "book_rel p b L" and top: "top_key_value b s = Some (pr, l)"
  obtains i "is" n where "L s pr = i # is" and "nodes b i = Some n"
  using top_lookup(2) [OF R top] by (cases "L s pr") (auto simp: level_ok_def)

lemma top_node:
  assumes R: "book_rel p b L" and top: "top_key_value b s = Some (pr, l)"
    and q: "L s pr = i # is" and n: "nodes b i = Some n"
  shows "lv_head l = i" and "on_prev n = SENTINEL" and "on_next n = hd (is @ [SENTINEL])"
    and "on_level s pr n"
  using top_lookup(2) [OF R top] q n book_relD(7) [OF R, of i s pr] by (auto simp: level_ok_def)

lemma pop_top_empty: "top_key_value b s = None \<Longrightarrow> pop_top p b s = Inr (b, None)"
  by (simp add: pop_top_def)

lemma pop_top_present:
  assumes R: "book_rel p b L" and top: "top_key_value b s = Some (pr, l)" and q: "L s pr = i # is"
    and n: "nodes b i = Some n"
  obtains b' where "pop_top p b s = Inr (b', Some (on_order n))"
    and "book_rel p b' (L(s := (L s)(pr := is)))"
    and "book_orders b' = (book_orders b)(i := None)" and "same_book b b'"
proof -
  note wf = book_relD(1) [OF R]
  note l = top_lookup(1) [OF R top]
  note hd = top_node(1) [OF R top q n] and pv = top_node(2) [OF R top q n]
    and nx = top_node(3) [OF R top q n] and lev = top_node(4) [OF R top q n]
  have s: "s = o_side (on_order n)" and pr: "pr = o_price (on_order n)"
    using lev by (simp_all add: on_level_def)
  from ar.remove_present [OF wf n, of p] obtain a1 where a1: "Arena_remove p (ob_arena b) i = Inr (a1, Some n)"
    "arena_wf a1" "arena_map a1 = (nodes b)(i := None)" "arena_capacity a1 = arena_capacity (ob_arena b)" by blast
  have a1null: "arena_map a1 SENTINEL = None" by (rule ar.null_free [OF a1(2)])
  have m2: "spliced (nodes b) i n = map_upd (on_next n) (\<lambda>x. x\<lparr>on_prev := SENTINEL\<rparr>) (arena_map a1)"
    using a1null by (simp add: spliced_def pv a1(3))
  have ok: "level_ok p (nodes b) l (i # is)" using book_relD(6) [OF R l] q by simp
  define r where "r = arena_map a1 (on_next n)"
  define a2 where "a2 = (case r of None \<Rightarrow> a1
    | Some x \<Rightarrow> Arena_put a1 (on_next n) (x\<lparr>on_prev := SENTINEL\<rparr>))"
  have a2: "arena_wf a2" "arena_map a2 = spliced (nodes b) i n" "arena_capacity a2 = arena_capacity a1"
    using a1(2) ar.put_ok [OF a1(2), of "on_next n"]
    by (auto simp: a2_def m2 map_upd_def r_def split: option.split)
  define l1 where "l1 = (case r of None \<Rightarrow> l\<lparr>lv_head := SENTINEL, lv_tail := SENTINEL\<rparr>
    | Some x \<Rightarrow> l\<lparr>lv_head := on_next n\<rparr>)"
  have mut: "Arena_get_mut a1 (on_next n) = Inr (map_option (\<lambda>x. (x, Arena_put a1 (on_next n))) r)"
    using a1(2) by (cases r) (simp_all add: r_def ar.get_mut_absent ar.get_mut_present)
  have r: "r = None \<longleftrightarrow> is = []"
  proof
    assume "r = None" show "is = []"
    proof (rule ccontr)
      assume "is \<noteq> []"
      then have "hd is \<in> set is" "hd is \<noteq> i" using book_relD(4) [OF R, of s pr] q by auto
      then have "\<exists>x. nodes b (hd is) = Some x" using book_relD(7) [OF R, of "hd is" s pr] q by auto
      then show False using \<open>r = None\<close> \<open>is \<noteq> []\<close> \<open>hd is \<noteq> i\<close> by (auto simp: r_def nx a1(3))
    qed
  qed (simp add: r_def nx a1null)
  have valid: "is \<noteq> [] \<Longrightarrow> is_valid (on_next n)"
    using r is_valid_live [OF a1(2)] by (auto simp: r_def)
  have cnt: "lv_total_qty l1 = lv_total_qty l" "lv_len l1 = lv_len l"
    by (auto simp: l1_def split: option.split)
  define l2 where "l2 = l1\<lparr>lv_total_qty := lv_total_qty l1 - o_quantity (on_order n), lv_len := lv_len l1 - 1\<rparr>"
  have l2: "level_without l n l2"
    using r valid ok by (cases "is = []") (auto simp: level_without_def l2_def l1_def pv nx split: option.split)
  define b' where "b' = set_level_map s
      (if lv_len l2 = 0 then bt_remove pr (level_map b s) else bt_insert pr l2 (level_map b s))
      (b\<lparr>ob_arena := a2, ob_index := hm_remove (o_intent_hash (on_order n)) (ob_index b)\<rparr>)"
  have R': "book_rel p b' (L(s := (L s)(pr := is)))"
    using remove_node_rel [OF R n a2(1,2) s pr l l2] by (simp add: b'_def q)
  have i: "i \<in> set (L s pr)" by (simp add: q)
  have "pop_top p b s = rbind (debug_only p (assert_invariants b')) (\<lambda>_. Inr (b', Some (on_order n)))"
    using top l hd a1(1) mut removed_counters [OF R l n i]
    by (cases r; cases "lv_len l - 1 = 0")
      (simp_all add: pop_top_def b'_def l2_def a2_def l1_def Let_def)
  with debug_check_ok [OF R'] have "pop_top p b s = Inr (b', Some (on_order n))" by simp
  moreover have "book_orders b' = (book_orders b)(i := None)"
    by (auto simp: fun_eq_iff book_orders_def b'_def level_map_set a2 spliced_payload)
  moreover have "same_book b b'"
    by (simp add: same_book_def b'_def level_map_set book_capacity_def a2 a1)
  ultimately show thesis using R' that by blast
qed

lemma reduce_top_empty:
  "top_key_value b s = None \<Longrightarrow> reduce_top p b s q =
     (if p = Debug then Inl (Panic ''reduce_top called on empty side'') else Inr b)"
  by (cases p) (simp_all add: reduce_top_def)

lemma reduce_top_present:
  assumes R: "book_rel p b L" and top: "top_key_value b s = Some (pr, l)" and q: "L s pr = i # is"
    and n: "nodes b i = Some n" and lt: "qty < o_quantity (on_order n)"
  obtains b' where "reduce_top p b s qty = Inr b'" and "book_rel p b' L"
    and "book_orders b' = (book_orders b)(i \<mapsto> (on_order n)\<lparr>o_quantity := o_quantity (on_order n) - qty\<rparr>)"
    and "same_book b b'"
proof -
  note wf = book_relD(1) [OF R]
  note l = top_lookup(1) [OF R top]
  note hd = top_node(1) [OF R top q n] and lev = top_node(4) [OF R top q n]
  define x where "x = (on_order n)\<lparr>o_quantity := o_quantity (on_order n) - qty\<rparr>"
  define n' where "n' = n\<lparr>on_order := x\<rparr>"
  define a' where "a' = Arena_put (ob_arena b) i n'"
  define l' where "l' = l\<lparr>lv_total_qty := lv_total_qty l - qty\<rparr>"
  define b' where "b' = set_level_map s (bt_insert pr l' (level_map b s)) (b\<lparr>ob_arena := a', ob_index := ob_index b\<rparr>)"
  have a': "arena_wf a'" "arena_map a' = (nodes b)(i \<mapsto> n')" "arena_capacity a' = arena_capacity (ob_arena b)"
    using ar.put_ok [OF wf n, of n'] by (simp_all add: a'_def)
  have ok: "level_ok p (nodes b) l (i # is)" using book_relD(6) [OF R l] q by simp
  have dist: "i \<notin> set is" using book_relD(4) [OF R, of s pr] q by simp
  have uq: "unat (o_quantity (on_order n) - qty) = unat (o_quantity (on_order n)) - unat qty"
    using lt by (intro unat_minus_le) simp
  have "queue_sum (arena_map a') is = queue_sum (nodes b) is"
    using dist by (intro queue_sum_cong) (auto simp: a')
  then have sum: "queue_sum (arena_map a') (i # is) + unat qty = queue_sum (nodes b) (i # is)"
    using lt uq by (simp add: node_qty_def a' n n'_def x_def word_less_nat_alt)
  have "dlseg on_next on_prev (arena_map a') SENTINEL (i # is) SENTINEL"
    unfolding a'(2) using ok by (intro on.set_payload [where n = n]) (auto simp: level_ok_def n n'_def)
  moreover have "lv_total_qty l' = of_nat (queue_sum (arena_map a') (i # is))"
    using ok arg_cong [OF sum, of "of_nat :: nat \<Rightarrow> u64"]
    by (simp add: level_ok_def l'_def algebra_simps)
  ultimately have ok': "level_ok p (arena_map a') l' (i # is)"
    using ok sum by (auto simp: level_ok_def l'_def)
  have pay: "map_option o_intent_hash (map_option on_order (arena_map a' j)) =
      map_option o_intent_hash (map_option on_order (nodes b j))" for j
    by (simp add: a' n n'_def x_def)
  have "book_rel p b' (L(s := (L s)(pr := i # is)))"
    unfolding b'_def
  proof (rule book_rel_change [OF R a'(1), of s pr "i # is" _ "Some l'"])
    fix j h
    show "\<exists>n. arena_map a' j = Some n \<and> on_level s pr n" if "j \<in> set (i # is)"
      using that book_relD(7) [OF R, of j s pr] q lev by (auto simp: a' n'_def x_def on_level_def)
    show "map_of (ob_index b) h = Some j \<longleftrightarrow> (\<exists>n. arena_map a' j = Some n \<and> o_intent_hash (on_order n) = h)"
      using book_relD(8) [OF R, of h j] n by (auto simp: a' n'_def x_def)
  qed (use q dist ok' book_relD(2) [OF R, of s] book_relD(3) [OF R] book_relD(4) [OF R, of s pr] in \<open>auto simp: a'\<close>)
  then have R': "book_rel p b' L" by (simp add: q [symmetric])
  have "qty \<le> lv_total_qty l" if "p = Debug"
    using level_ok_sum_le [of "nodes b" l "i # is" i n] ok that n lt by (auto intro: less_imp_le order_trans)
  then have "minus_u p (lv_total_qty l) qty = Inr (lv_total_qty l - qty)" by (intro minus_u_ok)
  moreover have "minus_u p (o_quantity (on_order n)) qty = Inr (o_quantity (on_order n) - qty)"
    using lt by (intro minus_u_ok) simp
  ultimately have "reduce_top p b s qty = rbind (debug_only p (assert_invariants b')) (\<lambda>_. Inr b')"
    using top l hd lt by (simp add: reduce_top_def ar.get_mut_present [OF wf n] b'_def a'_def l'_def n'_def x_def Let_def)
  with debug_check_ok [OF R'] have "reduce_top p b s qty = Inr b'" by simp
  moreover have "book_orders b' = (book_orders b)(i \<mapsto> x)"
    by (auto simp: fun_eq_iff book_orders_def b'_def level_map_set a' n'_def)
  moreover have "same_book b b'" by (simp add: same_book_def b'_def level_map_set book_capacity_def a')
  ultimately show thesis using R' that by (simp add: x_def)
qed

lemma insert_duplicate:
  "map_of (ob_index b) (o_intent_hash x) \<noteq> None \<Longrightarrow>
     OrderBook_insert p b x = Inr (b, Inl IeDuplicateIntent)"
  by (simp add: OrderBook_insert_def)

lemma insert_full:
  assumes "book_rel p b L" and "map_of (ob_index b) (o_intent_hash x) = None"
    and "card (dom (nodes b)) = book_capacity b"
  shows "OrderBook_insert p b x = Inr (b, Inl ArenaFull)"
  using assms ar.alloc_full [OF book_relD(1) [OF assms(1)], of p]
  by (simp add: OrderBook_insert_def book_capacity_def)

text \<open>The level an insertion works on, and its fields after the new node is linked in.\<close>

definition entry_or_default :: "OrderBook \<Rightarrow> Order \<Rightarrow> PriceLevel" where
  "entry_or_default b x = (case map_of (level_map b (o_side x)) (o_price x) of
     None \<Rightarrow> PriceLevel_default | Some l \<Rightarrow> l)"

lemma entry_or_default_ok:
  fixes x :: Order
  assumes R: "book_rel p b L"
  defines "q \<equiv> L (o_side x) (o_price x)" and "l \<equiv> entry_or_default b x"
  shows "lv_tail l = last (SENTINEL # q)" and "q \<noteq> [] \<Longrightarrow> lv_head l = hd q"
    and "lv_len l = of_nat (length q)" and "lv_total_qty l = of_nat (queue_sum (nodes b) q)"
    and "dlseg on_next on_prev (nodes b) SENTINEL q SENTINEL"
    and "p = Debug \<Longrightarrow> queue_sum (nodes b) q < 2 ^ 64"
  using book_relD(5,6) [OF R, of "o_side x" "o_price x"]
  by (cases "map_of (level_map b (o_side x)) (o_price x)";
      simp add: q_def l_def entry_or_default_def PriceLevel_default_def level_ok_def)+

lemma insert_linked:
  assumes R: "book_rel p b L" and h: "map_of (ob_index b) (o_intent_hash x) = None"
    and room: "card (dom (nodes b)) < book_capacity b"
  defines "s \<equiv> o_side x" and "pr \<equiv> o_price x" and "l \<equiv> entry_or_default b x"
  obtains a3 i l1 where
    "OrderBook_insert p b x =
       rbind (plus_u p (lv_total_qty l) (o_quantity x)) (\<lambda>total_qty.
       rbind (plus_u p (lv_len l) 1) (\<lambda>len.
         let b' = set_level_map s (bt_insert pr (l1\<lparr>lv_total_qty := total_qty, lv_len := len\<rparr>) (level_map b s))
               (b\<lparr>ob_arena := a3, ob_index := hm_insert (o_intent_hash x) i (ob_index b)\<rparr>)
         in rbind (debug_only p (assert_invariants b')) (\<lambda>_. Inr (b', Inr i))))"
    and "arena_wf a3" and "arena_capacity a3 = arena_capacity (ob_arena b)" and "nodes b i = None"
    and "\<And>j. map_option on_order (arena_map a3 j) = ((book_orders b)(i \<mapsto> x)) j"
    and "\<And>j. j \<notin> set (L s pr) \<Longrightarrow> j \<noteq> i \<Longrightarrow> arena_map a3 j = nodes b j"
    and "dlseg on_next on_prev (arena_map a3) SENTINEL (L s pr @ [i]) SENTINEL"
    and "lv_head l1 = hd (L s pr @ [i])" and "lv_tail l1 = i"
proof -
  note wf = book_relD(1) [OF R]
  note lo = entry_or_default_ok [OF R, of x, folded s_def pr_def l_def]
  have le: "(case map_of (level_map b s) pr of None \<Rightarrow> PriceLevel_default | Some l \<Rightarrow> l) = l"
    by (simp add: s_def pr_def l_def entry_or_default_def)
  let ?n = "\<lparr>on_order = x, on_next = SENTINEL, on_prev = SENTINEL\<rparr>"
  from room ar.alloc_room [OF wf, of p ?n] obtain a1 i where a1: "Arena_alloc p (ob_arena b) ?n = Inr (a1, Some i)"
    "arena_wf a1" "nodes b i = None" "i \<noteq> SENTINEL" "arena_map a1 = (nodes b)(i \<mapsto> ?n)"
    "arena_capacity a1 = arena_capacity (ob_arena b)" by (auto simp: book_capacity_def)
  have iL: "i \<notin> set (L s pr)" using a1(3) book_relD(7) [OF R] by auto
  have seg1: "dlseg on_next on_prev (arena_map a1) SENTINEL (L s pr) SENTINEL"
    using lo(5) iL by (subst dlseg_cong [of _ _ "nodes b"]) (auto simp: a1)
  show thesis
  proof (cases "L s pr" rule: rev_cases)
    case Nil
    show thesis
    proof (rule that [of "l\<lparr>lv_head := i, lv_tail := i\<rparr>" i a1])
      show "OrderBook_insert p b x =
         rbind (plus_u p (lv_total_qty l) (o_quantity x)) (\<lambda>total_qty.
         rbind (plus_u p (lv_len l) 1) (\<lambda>len.
           let b' = set_level_map s (bt_insert pr (l\<lparr>lv_head := i, lv_tail := i, lv_total_qty := total_qty, lv_len := len\<rparr>) (level_map b s))
                 (b\<lparr>ob_arena := a1, ob_index := hm_insert (o_intent_hash x) i (ob_index b)\<rparr>)
           in rbind (debug_only p (assert_invariants b')) (\<lambda>_. Inr (b', Inr i))))"
        using h a1(1) lo(1) Nil
        by (simp add: OrderBook_insert_def le s_def [symmetric] pr_def [symmetric] Let_def)
    qed (use a1 Nil in \<open>auto simp: book_orders_def\<close>)
  next
    case (snoc as t)
    have tv: "is_valid t" "t \<noteq> i" "lv_tail l = t" using lo(1) snoc iL dlseg_live [OF lo(5), of t]
        is_valid_live [OF wf, of t] by auto
    from dlseg_live [OF seg1, of t] snoc obtain nt where nt: "arena_map a1 t = Some nt" by auto
    define a2 where "a2 = Arena_put a1 t (nt\<lparr>on_next := i\<rparr>)"
    have a2: "arena_wf a2" "arena_map a2 = map_upd t (\<lambda>n. n\<lparr>on_next := i\<rparr>) (arena_map a1)"
      "arena_capacity a2 = arena_capacity a1"
      using ar.put_ok [OF a1(2) nt] nt by (simp_all add: a2_def map_upd_def)
    have i2: "arena_map a2 i = Some ?n" using tv by (simp add: a2 map_upd_apply a1)
    define a3 where "a3 = Arena_put a2 i (?n\<lparr>on_prev := t\<rparr>)"
    have a3: "arena_wf a3" "arena_map a3 = map_upd i (\<lambda>n. n\<lparr>on_prev := t\<rparr>) (arena_map a2)"
      "arena_capacity a3 = arena_capacity a2"
      using ar.put_ok [OF a2(1) i2] i2 by (simp_all add: a3_def map_upd_def)
    show thesis
    proof (rule that [of "l\<lparr>lv_tail := i\<rparr>" i a3])
      show "OrderBook_insert p b x =
         rbind (plus_u p (lv_total_qty l) (o_quantity x)) (\<lambda>total_qty.
         rbind (plus_u p (lv_len l) 1) (\<lambda>len.
           let b' = set_level_map s (bt_insert pr (l\<lparr>lv_tail := i, lv_total_qty := total_qty, lv_len := len\<rparr>) (level_map b s))
                 (b\<lparr>ob_arena := a3, ob_index := hm_insert (o_intent_hash x) i (ob_index b)\<rparr>)
           in rbind (debug_only p (assert_invariants b')) (\<lambda>_. Inr (b', Inr i))))"
        using h a1(1) tv ar.get_mut_present [OF a1(2) nt] ar.get_mut_present [OF a2(1) i2]
        by (simp add: OrderBook_insert_def le s_def [symmetric] pr_def [symmetric] Let_def a2_def [symmetric] a3_def)
      show "dlseg on_next on_prev (arena_map a3) SENTINEL (L s pr @ [i]) SENTINEL"
        using on.push_back [of "arena_map a1" SENTINEL as t SENTINEL i ?n] seg1 snoc iL
          book_relD(4) [OF R, of s pr] by (simp add: a3 a2 a1)
      show "map_option on_order (arena_map a3 j) = ((book_orders b)(i \<mapsto> x)) j" for j
        unfolding a3 a2 by (subst on.payload_map_upd, simp, subst on.payload_map_upd, simp)
          (simp add: a1 book_orders_def)
      show "arena_map a3 j = nodes b j" if "j \<notin> set (L s pr)" "j \<noteq> i" for j
        using that snoc by (simp add: a3 a2 a1 map_upd_apply)
      show "lv_head (l\<lparr>lv_tail := i\<rparr>) = hd (L s pr @ [i])" using lo(2) snoc by (simp add: hd_append)
    qed (use a1 a2 a3 in simp_all)
  qed
qed

lemma insert_room:
  assumes R: "book_rel p b L" and h: "map_of (ob_index b) (o_intent_hash x) = None"
    and room: "card (dom (nodes b)) < book_capacity b"
    and s: "s = o_side x" and pr: "pr = o_price x"
    and fits: "p = Debug \<Longrightarrow> queue_sum (nodes b) (L s pr) + unat (o_quantity x) < 2 ^ 64"
  obtains b' i where "OrderBook_insert p b x = Inr (b', Inr i)"
    and "book_rel p b' (L(s := (L s)(pr := L s pr @ [i])))" and "book_orders b i = None"
    and "book_orders b' = (book_orders b)(i \<mapsto> x)" and "same_book b b'"
proof -
  let ?l = "entry_or_default b x" and ?q = "L s pr"
  note lo = entry_or_default_ok [OF R, of x, folded s pr]
  obtain a3 i l1 where
    ins: "OrderBook_insert p b x =
       rbind (plus_u p (lv_total_qty ?l) (o_quantity x)) (\<lambda>total_qty.
       rbind (plus_u p (lv_len ?l) 1) (\<lambda>len.
         let b' = set_level_map s (bt_insert pr (l1\<lparr>lv_total_qty := total_qty, lv_len := len\<rparr>) (level_map b s))
               (b\<lparr>ob_arena := a3, ob_index := hm_insert (o_intent_hash x) i (ob_index b)\<rparr>)
         in rbind (debug_only p (assert_invariants b')) (\<lambda>_. Inr (b', Inr i))))"
    and a3: "arena_wf a3" "arena_capacity a3 = arena_capacity (ob_arena b)" and i: "nodes b i = None"
    and pay: "\<And>j. map_option on_order (arena_map a3 j) = ((book_orders b)(i \<mapsto> x)) j"
    and frame: "\<And>j. j \<notin> set ?q \<Longrightarrow> j \<noteq> i \<Longrightarrow> arena_map a3 j = nodes b j"
    and seg: "dlseg on_next on_prev (arena_map a3) SENTINEL (?q @ [i]) SENTINEL"
    and l1: "lv_head l1 = hd (?q @ [i])" "lv_tail l1 = i"
    by (rule insert_linked [OF R h room, folded s pr]) (rule that)
  have iL: "i \<notin> set ?q" using i book_relD(7) [OF R] by auto
  have len: "length ?q < 4294967295" by (rule queue_length [OF R])
  have plus: "plus_u p (lv_total_qty ?l) (o_quantity x) = Inr (lv_total_qty ?l + o_quantity x)"
    "plus_u p (lv_len ?l) 1 = Inr (lv_len ?l + 1)"
    using fits lo(3,4,6) len by (auto intro!: plus_u_ok simp: unat_of_nat_small unat_of_nat_u32)
  define l' where "l' = l1\<lparr>lv_total_qty := lv_total_qty ?l + o_quantity x, lv_len := lv_len ?l + 1\<rparr>"
  define b' where "b' = set_level_map s (bt_insert pr l' (level_map b s))
    (b\<lparr>ob_arena := a3, ob_index := hm_insert (o_intent_hash x) i (ob_index b)\<rparr>)"
  obtain ni where ni: "arena_map a3 i = Some ni" "on_order ni = x"
    using pay [of i] by auto
  have qs: "queue_sum (arena_map a3) ?q = queue_sum (nodes b) ?q"
    using iL by (intro queue_sum_payload) (auto simp: pay book_orders_def)
  have ok: "level_ok p (arena_map a3) l' (?q @ [i])"
    using seg l1 lo(3,4) fits ni qs by (simp add: level_ok_def l'_def node_qty_def algebra_simps)
  have R': "book_rel p b' (L(s := (L s)(pr := ?q @ [i])))"
    unfolding b'_def
  proof (rule book_rel_change [OF R a3(1), of s pr "?q @ [i]" _ "Some l'"])
    fix j k
    have "map_option on_order (arena_map a3 j) = map_option on_order (nodes b j)" if "j \<noteq> i"
      using pay [of j] that by (simp add: book_orders_def)
    note eq = on_level_payload [OF this]
    show "\<exists>n. arena_map a3 j = Some n \<and> on_level s pr n" if "j \<in> set (?q @ [i])"
      using that eq(1) [of s pr] book_relD(7) [OF R, of j s pr] ni s pr
      by (cases "j = i") (auto simp: on_level_def)
    show "map_of (hm_insert (o_intent_hash x) i (ob_index b)) k = Some j \<longleftrightarrow>
        (\<exists>n. arena_map a3 j = Some n \<and> o_intent_hash (on_order n) = k)"
      using eq(2) [of k] book_relD(8) [OF R, of k j] ni i h by (cases "j = i") auto
  qed (use frame iL ok i book_relD(2) [OF R, of s] book_relD(3) [OF R] book_relD(4) [OF R, of s pr] in auto)
  have "OrderBook_insert p b x = rbind (debug_only p (assert_invariants b')) (\<lambda>_. Inr (b', Inr i))"
    by (simp add: ins plus b'_def l'_def Let_def)
  with debug_check_ok [OF R'] have "OrderBook_insert p b x = Inr (b', Inr i)" by simp
  moreover have "book_orders b' = (book_orders b)(i \<mapsto> x)"
    using pay by (auto simp: fun_eq_iff book_orders_def b'_def level_map_set)
  moreover have "same_book b b'" by (simp add: same_book_def b'_def level_map_set book_capacity_def a3)
  ultimately show thesis using R' i that by (simp add: book_orders_def)
qed

lemma insert_overflow:
  assumes R: "book_rel Debug b L" and h: "map_of (ob_index b) (o_intent_hash x) = None"
    and room: "card (dom (nodes b)) < book_capacity b"
    and over: "2 ^ 64 \<le> queue_sum (nodes b) (L (o_side x) (o_price x)) + unat (o_quantity x)"
  shows "OrderBook_insert Debug b x = Inl (Panic ''attempt to add with overflow'')"
proof -
  note lo = entry_or_default_ok [OF R, of x]
  have "plus_u Debug (lv_total_qty (entry_or_default b x)) (o_quantity x) =
      Inl (Panic ''attempt to add with overflow'')"
    using over lo(4,6) by (simp add: plus_u_def unat_of_nat_small)
  then show ?thesis by (rule_tac insert_linked [OF R h room]) simp
qed

lemma OrderBook_new_rel:
  assumes "OrderBook_new inst capacity = Inr b"
  shows "book_rel p b (\<lambda>s pr. [])" and "book_orders b = (\<lambda>_. None)"
    and "ob_instrument_id b = inst" and "book_capacity b = unat capacity"
proof -
  from assms obtain a where a: "Arena_new capacity = Inr a"
    "b = \<lparr>ob_instrument_id = inst, ob_arena = a, ob_bids = [], ob_asks = [], ob_index = []\<rparr>"
    by (auto simp: OrderBook_new_def rbind_eq_Inr)
  note wf = Arena_new_wf [OF a(1)]
  show "book_rel p b (\<lambda>s pr. [])" "book_orders b = (\<lambda>_. None)"
    "ob_instrument_id b = inst" "book_capacity b = unat capacity"
    using wf a(2) by (auto simp: book_rel_def level_map_def book_orders_def book_capacity_def split: Side.split)
qed

end
