(* ===== verification/Order_Book_Spec.thy ===== *)
theory Order_Book_Spec
  imports Order_Book_Inv "HOL-Library.Multiset"
begin

text \<open>
  The order book refines two priority queues. \<open>resting b s\<close> is the list of the orders of a side
  in price-time priority; each operation is characterised by what it does to these lists. The
  proofs go through one fact: a list that is sorted by rank and has the right sub-list at every
  price is unique (\<open>sorted_filter_unique\<close>).
\<close>

section \<open>Sorted lists are determined by their sub-lists of equal key\<close>

lemma sorted_filter_unique:
  fixes f :: "'a \<Rightarrow> 'k::linorder"
  assumes "sorted (map f xs)" and "sorted (map f ys)"
    and "\<And>k. filter (\<lambda>x. k = f x) xs = filter (\<lambda>x. k = f x) ys"
  shows "xs = ys"
proof -
  have "count (mset xs) x = count (mset ys) x" for x
    using arg_cong [OF assms(3) [of "f x"], of "\<lambda>l. count (mset l) x"] by (simp add: mset_filter)
  then have "mset xs = mset ys" by (intro multiset_eqI)
  then have "sort_key f ys = xs"
    using assms by (intro properties_for_sort_key) simp_all
  moreover have "sort_key f ys = ys" using assms(2) by (rule sort_key_id_if_sorted)
  ultimately show ?thesis by simp
qed

lemma filter_concat_blocks:
  assumes "distinct ks" and "\<And>k x. x \<in> set (f k) \<Longrightarrow> g x = k"
  shows "filter (\<lambda>x. g x = k) (concat (map f ks)) = (if k \<in> set ks then f k else [])"
  using assms(1)
proof (induction ks)
  case (Cons a ks)
  have "filter (\<lambda>x. g x = k) (f a) = (if a = k then f a else [])"
    using assms(2) by (auto simp: filter_id_conv filter_empty_conv)
  with Cons show ?case by auto
qed simp

lemma sorted_concat_blocks:
  fixes r :: "'k \<Rightarrow> int"
  assumes "sorted_wrt (\<lambda>a b. r a < r b) ks" and "\<And>k x. x \<in> set (f k) \<Longrightarrow> g x = r k"
  shows "sorted (map g (concat (map f ks)))"
  using assms(1)
proof (induction ks)
  case (Cons a ks)
  have "map g (f a) = replicate (length (f a)) (r a)"
    using assms(2) by (induction "f a") (auto simp: map_replicate_const [symmetric] intro: map_cong)
  then have "sorted (map g (f a))" by simp
  with Cons show ?case
    using assms(2) by (fastforce simp: sorted_append)
qed simp

section \<open>The priority lists of a well-formed book\<close>

definition queue_orders :: "OrderBook \<Rightarrow> ArenaIdx list \<Rightarrow> Order list" where
  "queue_orders b is = map (\<lambda>i. the (book_orders b i)) is"

lemma queue_orders_cong:
  "(\<And>i. i \<in> set is \<Longrightarrow> book_orders b' i = book_orders b i) \<Longrightarrow> queue_orders b' is = queue_orders b is"
  by (simp add: queue_orders_def)

lemma uint_less: "(\<lambda>x y :: u64. uint x < uint y) = (<)"
  by (simp add: fun_eq_iff word_less_def)

lemma rank_inject [simp]: "rank s a = rank s b \<longleftrightarrow> a = b"
  by (cases s) (simp_all add: rank_def word_uint_eq_iff)

lemma order_rank_eq: "rank s pr = order_rank s x \<longleftrightarrow> o_price x = pr"
  by (auto simp: order_rank_def)

lemma chain_ok:
  assumes "dlseg on_next on_prev m p is q"
  shows "chain m (hd (is @ [q])) (length is) = map (\<lambda>i. the (map_option on_order (m i))) is"
  using assms by (induction "is" arbitrary: p) auto

lemma level_orders_ok:
  assumes R: "book_rel p b L" and l: "map_of (level_map b s) pr = Some l"
  shows "level_orders b l = queue_orders b (L s pr)"
proof -
  note ok = book_relD(6) [OF R l]
  have "chain (nodes b) (hd (L s pr @ [SENTINEL])) (length (L s pr)) = queue_orders b (L s pr)"
    using ok chain_ok [of "nodes b" SENTINEL "L s pr" SENTINEL]
    by (simp add: level_ok_def queue_orders_def book_orders_def)
  then show ?thesis
    using ok level_ok_len(1) [OF R ok] by (simp add: level_orders_def level_ok_def hd_append)
qed

lemma queue_orders_mem:
  assumes "book_rel p b L"
  shows "x \<in> set (queue_orders b (L s pr)) \<longleftrightarrow>
    (\<exists>i. book_orders b i = Some x) \<and> o_side x = s \<and> o_price x = pr"
proof
  assume "x \<in> set (queue_orders b (L s pr))"
  then obtain i where i: "i \<in> set (L s pr)" "x = the (book_orders b i)" by (auto simp: queue_orders_def)
  moreover from i(1) obtain n where "nodes b i = Some n" "on_level s pr n"
    using book_relD(7) [OF assms] by blast
  ultimately show "(\<exists>i. book_orders b i = Some x) \<and> o_side x = s \<and> o_price x = pr"
    by (auto simp: book_orders_def on_level_def)
next
  assume "(\<exists>i. book_orders b i = Some x) \<and> o_side x = s \<and> o_price x = pr"
  then obtain i n where n: "nodes b i = Some n" "on_order n = x" "on_level s pr n"
    by (auto simp: book_orders_def on_level_def)
  then have "i \<in> set (L s pr)" using book_relD(7) [OF assms] by blast
  with n show "x \<in> set (queue_orders b (L s pr))"
    by (auto simp: queue_orders_def book_orders_def intro!: image_eqI [of _ _ i])
qed

lemma priority_levels_sorted:
  assumes "book_rel p b L"
  shows "sorted_wrt (\<lambda>a b. rank s a < rank s b) (map fst (priority_levels b s))"
  using book_relD(2) [OF assms, of s]
  by (cases s) (simp_all add: priority_levels_def level_map_def bt_wf_def rank_def rev_map [symmetric]
      sorted_wrt_rev uint_less)

lemma priority_levels_set: "set (priority_levels b s) = set (level_map b s)"
  by (cases s) (simp_all add: priority_levels_def level_map_def)

lemma resting_blocks:
  assumes R: "book_rel p b L"
  shows "resting b s = concat (map (\<lambda>pr. queue_orders b (L s pr)) (map fst (priority_levels b s)))"
proof -
  have "level_orders b l = queue_orders b (L s pr)" if "(pr, l) \<in> set (priority_levels b s)" for pr l
    using that level_orders_ok [OF R] bt_entries [OF book_relD(2) [OF R, of s]]
    by (simp add: priority_levels_set)
  then show ?thesis
    unfolding resting_def by (intro arg_cong [where f = concat]) (auto simp: comp_def)
qed

lemma resting_sorted:
  assumes R: "book_rel p b L"
  shows "sorted (map (order_rank s) (resting b s))"
  unfolding resting_blocks [OF R]
  by (rule sorted_concat_blocks [OF priority_levels_sorted [OF R]])
    (auto simp: queue_orders_mem [OF R] order_rank_def)

lemma resting_at:
  assumes R: "book_rel p b L"
  shows "filter (\<lambda>x. o_price x = pr) (resting b s) = queue_orders b (L s pr)"
proof -
  let ?ks = "map fst (priority_levels b s)"
  have "distinct ?ks"
    using book_relD(2) [OF R, of s]
    by (cases s) (auto simp: bt_wf_def priority_levels_def level_map_def strict_sorted_iff rev_map [symmetric])
  then have "filter (\<lambda>x. o_price x = pr) (resting b s) =
      (if pr \<in> set ?ks then queue_orders b (L s pr) else [])"
    unfolding resting_blocks [OF R]
    by (rule filter_concat_blocks) (auto simp: queue_orders_mem [OF R])
  moreover have "pr \<notin> set ?ks \<Longrightarrow> L s pr = []"
    using book_relD(5) [OF R, of s pr] by (simp add: priority_levels_set map_of_eq_None_iff)
  ultimately show ?thesis by (auto simp: queue_orders_def)
qed

lemma resting_unique:
  assumes "book_rel p b L" and "sorted (map (order_rank s) xs)"
    and "\<And>pr. filter (\<lambda>x. o_price x = pr) xs = queue_orders b (L s pr)"
  shows "resting b s = xs"
proof (rule sorted_filter_unique [OF resting_sorted [OF assms(1)] assms(2)])
  fix k
  show "filter (\<lambda>x. k = order_rank s x) (resting b s) = filter (\<lambda>x. k = order_rank s x) xs"
  proof (cases "k \<in> range (rank s)")
    case True
    then show ?thesis using resting_at [OF assms(1)] assms(3) by (auto simp: order_rank_eq)
  next
    case False
    then have "k \<noteq> order_rank s x" for x by (auto simp: order_rank_def)
    then show ?thesis by simp
  qed
qed

lemma resting_mem:
  assumes R: "book_rel p b L"
  shows "x \<in> set (resting b s) \<longleftrightarrow> (\<exists>i. book_orders b i = Some x) \<and> o_side x = s"
  using arg_cong [OF resting_at [OF R, of "o_price x" s], of "\<lambda>l. x \<in> set l"]
  by (simp add: queue_orders_mem [OF R])

lemma resting_side: "book_rel p b L \<Longrightarrow> x \<in> set (resting b s) \<Longrightarrow> o_side x = s"
  by (simp add: resting_mem)

lemma resting_frame:
  assumes R: "book_rel p b L" and R': "book_rel p b' L'" and L: "L' s = L s"
    and eq: "\<And>i pr. i \<in> set (L s pr) \<Longrightarrow> book_orders b' i = book_orders b i"
  shows "resting b' s = resting b s"
proof (rule resting_unique [OF R' resting_sorted [OF R]])
  show "filter (\<lambda>x. o_price x = pr) (resting b s) = queue_orders b' (L' s pr)" for pr
    using resting_at [OF R, of pr s] L eq by (simp add: queue_orders_def)
qed

lemma resting_distinct:
  assumes R: "book_rel p b L"
  shows "x \<in> set (resting b s) \<Longrightarrow> y \<in> set (resting b s') \<Longrightarrow>
    o_intent_hash x = o_intent_hash y \<Longrightarrow> x = y"
  using book_relD(8) [OF R] by (auto simp: resting_mem [OF R] book_orders_def) (metis option.inject)

section \<open>Joining the queue\<close>

lemma dropWhile_rank:
  fixes f :: "'a \<Rightarrow> 'k::linorder"
  assumes "sorted (map f xs)" and "y \<in> set (dropWhile (\<lambda>y. f y \<le> c) xs)"
  shows "c < f y"
  using assms
proof (induction xs)
  case (Cons a xs)
  then show ?case by (cases "f a \<le> c") (auto intro: less_le_trans)
qed simp

lemma enqueue_sorted:
  assumes "sorted (map (order_rank s) q)"
  shows "sorted (map (order_rank s) (enqueue s x q))"
proof -
  let ?P = "\<lambda>y. order_rank s y \<le> order_rank s x"
  have "sorted (map (order_rank s) (takeWhile ?P q @ dropWhile ?P q))" using assms by simp
  then show ?thesis
    unfolding enqueue_def map_append sorted_append
    using dropWhile_rank [OF assms, of _ "order_rank s x"]
    by (auto simp: less_imp_le dest: set_takeWhileD)
qed

lemma filter_enqueue:
  assumes "sorted (map (order_rank s) q)"
  shows "filter (\<lambda>y. o_price y = pr) (enqueue s x q) =
    filter (\<lambda>y. o_price y = pr) q @ (if o_price x = pr then [x] else [])"
proof -
  let ?P = "\<lambda>y. order_rank s y \<le> order_rank s x"
  have split: "filter (\<lambda>y. o_price y = pr) q =
      filter (\<lambda>y. o_price y = pr) (takeWhile ?P q) @ filter (\<lambda>y. o_price y = pr) (dropWhile ?P q)"
    by (metis filter_append takeWhile_dropWhile_id)
  have "filter (\<lambda>y. o_price y = pr) (dropWhile ?P q) = []" if "o_price x = pr"
    using dropWhile_rank [OF assms, of _ "order_rank s x"] that
    by (fastforce simp: filter_empty_conv order_rank_def)
  with split show ?thesis by (auto simp: enqueue_def)
qed

lemma set_enqueue: "set (enqueue s x q) = insert x (set q)"
  unfolding enqueue_def by (metis list.simps(15) set_append takeWhile_dropWhile_id Un_insert_right)

lemma resting_insert:
  assumes R: "book_rel p b L" and s: "s = o_side x" and pr: "pr = o_price x"
    and R': "book_rel p b' (L(s := (L s)(pr := L s pr @ [i])))"
    and i: "book_orders b i = None" and ord: "book_orders b' = (book_orders b)(i \<mapsto> x)"
  shows "resting b' s' = (if s' = s then enqueue s x (resting b s) else resting b s')"
proof -
  have live: "book_orders b j \<noteq> None" if "j \<in> set (L s' pr')" for j s' pr'
    using that book_relD(7) [OF R] by (auto simp: book_orders_def)
  then have ne: "i \<notin> set (L s' pr')" for s' pr' using i by blast
  have "queue_orders b' (L s pr') = queue_orders b (L s pr')" for pr'
    using ne [of s pr'] by (auto simp: queue_orders_def ord)
  then have "filter (\<lambda>y. o_price y = pr') (enqueue s x (resting b s)) =
      queue_orders b' ((L(s := (L s)(pr := L s pr @ [i]))) s pr')" for pr'
    using resting_at [OF R, of pr' s] filter_enqueue [where x = x and pr = pr', OF resting_sorted [OF R, of s]] pr
    by (auto simp: queue_orders_def ord)
  then have "resting b' s = enqueue s x (resting b s)"
    using enqueue_sorted [OF resting_sorted [OF R], of s x] by (intro resting_unique [OF R'])
  moreover have "resting b' s' = resting b s'" if "s' \<noteq> s"
    using that ne by (intro resting_frame [OF R R']) (auto simp: ord)
  ultimately show ?thesis by simp
qed

section \<open>Leaving the queue\<close>

lemma sorted_filter_map: "sorted (map f xs) \<Longrightarrow> sorted (map f (filter P xs))"
  by (induction xs) auto

lemma resting_remove:
  assumes R: "book_rel p b L" and x: "book_orders b i = Some x"
    and s: "s = o_side x" and pr: "pr = o_price x"
    and R': "book_rel p b' (L(s := (L s)(pr := remove1 i (L s pr))))"
    and ord: "book_orders b' = (book_orders b)(i := None)"
  shows "resting b' s' = filter (\<lambda>y. o_intent_hash y \<noteq> o_intent_hash x) (resting b s')"
proof (rule resting_unique [OF R' sorted_filter_map [OF resting_sorted [OF R]]])
  fix pr'
  let ?L' = "L(s := (L s)(pr := remove1 i (L s pr)))"
  from x obtain n where n: "nodes b i = Some n" "on_order n = x" by (auto simp: book_orders_def)
  have mem: "i \<in> set (L s' pr') \<longleftrightarrow> s' = s \<and> pr' = pr"
    using book_relD(7) [OF R, of i s' pr'] n s pr by (auto simp: on_level_def)
  have hash: "o_intent_hash (the (book_orders b j)) = o_intent_hash x \<longleftrightarrow> j = i"
    if "j \<in> set (L s' pr')" for j
  proof -
    from that obtain m where m: "nodes b j = Some m" using book_relD(7) [OF R] by blast
    then show ?thesis
      using index_hash [OF R m] index_hash [OF R n(1)] n by (auto simp: book_orders_def)
  qed
  have q': "?L' s' pr' = filter (\<lambda>j. j \<noteq> i) (L s' pr')"
  proof (cases "s' = s \<and> pr' = pr")
    case True
    then show ?thesis
      using book_relD(4) [OF R, of s pr]
      by (simp add: distinct_remove1_removeAll removeAll_filter_not_eq eq_commute [of i])
  next
    case False
    with mem have "filter (\<lambda>j. j \<noteq> i) (L s' pr') = L s' pr'" by (auto simp: filter_id_conv)
    with False show ?thesis by auto
  qed
  have "filter (\<lambda>y. o_price y = pr') (filter (\<lambda>y. o_intent_hash y \<noteq> o_intent_hash x) (resting b s')) =
      filter (\<lambda>y. o_intent_hash y \<noteq> o_intent_hash x) (queue_orders b (L s' pr'))"
    by (simp add: resting_at [OF R, symmetric] conj_commute)
  also have "\<dots> = map (\<lambda>j. the (book_orders b j)) (filter (\<lambda>j. j \<noteq> i) (L s' pr'))"
    using hash by (auto simp: queue_orders_def filter_map comp_def intro!: arg_cong [where f = "map _"] filter_cong)
  also have "\<dots> = queue_orders b' (?L' s' pr')" unfolding q' by (auto simp: queue_orders_def ord)
  finally show "filter (\<lambda>y. o_price y = pr') (filter (\<lambda>y. o_intent_hash y \<noteq> o_intent_hash x) (resting b s')) =
      queue_orders b' (?L' s' pr')" .
qed

section \<open>The head of the queue\<close>

lemma top_is_head:
  assumes R: "book_rel p b L"
  shows "top_key_value b s = (case priority_levels b s of [] \<Rightarrow> None | e # _ \<Rightarrow> Some e)"
proof (cases s)
  case Bid
  then show ?thesis
    by (cases "ob_bids b" rule: rev_cases)
      (simp_all add: top_key_value_def priority_levels_def bt.final_entries)
qed (simp add: top_key_value_def priority_levels_def bt_first_key_value_def)

lemma top_None:
  assumes R: "book_rel p b L"
  shows "top_key_value b s = None \<longleftrightarrow> resting b s = []"
proof (cases "priority_levels b s")
  case Nil
  then show ?thesis by (simp add: top_is_head [OF R] resting_def)
next
  case (Cons e es)
  obtain pr l where e: "e = (pr, l)" by force
  then have "top_key_value b s = Some (pr, l)" by (simp add: top_is_head [OF R] Cons)
  with level_orders_ok [OF R top_lookup(1) [OF R this]] top_lookup(2) [OF R this]
  show ?thesis by (simp add: resting_def Cons e queue_orders_def level_ok_def)
qed

lemma top_Some:
  assumes R: "book_rel p b L" and top: "top_key_value b s = Some (pr, l)"
    and q: "L s pr = i # is" and n: "nodes b i = Some n"
  shows "resting b s \<noteq> []" and "hd (resting b s) = on_order n" and "o_price (on_order n) = pr"
    and "o_side (on_order n) = s"
proof -
  from top obtain es where es: "priority_levels b s = (pr, l) # es"
    by (auto simp: top_is_head [OF R] split: list.splits)
  have "level_orders b l = on_order n # queue_orders b is"
    using level_orders_ok [OF R top_lookup(1) [OF R top]] q n by (simp add: queue_orders_def book_orders_def)
  then show "resting b s \<noteq> []" and "hd (resting b s) = on_order n"
    by (simp_all add: resting_def es)
  show "o_price (on_order n) = pr" "o_side (on_order n) = s"
    using top_node(4) [OF R top q n] by (simp_all add: on_level_def)
qed

text \<open>The top of a side, from the queue: its level, the handle at its head and its node.\<close>

lemma head_present:
  assumes R: "book_rel p b L" and x: "resting b s = x # xs"
  obtains pr l i "is" n where "top_key_value b s = Some (pr, l)" and "L s pr = i # is"
    and "nodes b i = Some n" and "on_order n = x" and "pr = o_price x" and "s = o_side x"
    and "lv_head l = i"
proof -
  from x top_None [OF R, of s] obtain pr l where top: "top_key_value b s = Some (pr, l)" by fastforce
  from top_present [OF R top] obtain i "is" n where q: "L s pr = i # is" and n: "nodes b i = Some n" .
  from top_Some [OF R top q n] x top_node(1) [OF R top q n] show thesis
    by (intro that [OF top q n]) auto
qed

lemma peek_top_ok:
  assumes R: "book_rel p b L"
  shows "resting b s = [] \<Longrightarrow> peek_top b s = Inr None"
    and "resting b s = x # xs \<Longrightarrow>
      \<exists>i. peek_top b s = Inr (Some \<lparr>tv_price = o_price x, tv_arena_idx = i, tv_order = x\<rparr>)"
proof -
  show "resting b s = [] \<Longrightarrow> peek_top b s = Inr None"
    using top_None [OF R, of s] by (simp add: peek_top_def)
  assume "resting b s = x # xs"
  from head_present [OF R this] obtain pr l i "is" n where top: "top_key_value b s = Some (pr, l)"
    and n: "nodes b i = Some n" "on_order n = x" "pr = o_price x" "lv_head l = i" .
  with is_valid_live [OF book_relD(1) [OF R] n(1)]
  show "\<exists>i. peek_top b s = Inr (Some \<lparr>tv_price = o_price x, tv_arena_idx = i, tv_order = x\<rparr>)"
    by (simp add: peek_top_def PriceLevel_head_def ar.get_eq [OF book_relD(1) [OF R]])
qed

lemma resting_head_change:
  assumes R: "book_rel p b L" and R': "book_rel p b' (L(s := (L s)(pr := js)))"
    and x: "resting b s = x # xs" and pr: "pr = o_price x" and s: "s = o_side x"
    and q: "L s pr = i # is" and js: "js = ks @ is" and i: "i \<notin> set is"
    and ys: "queue_orders b' ks = ys" "\<And>y. y \<in> set ys \<Longrightarrow> o_price y = pr"
    and eq: "\<And>j. j \<noteq> i \<Longrightarrow> book_orders b' j = book_orders b j"
  shows "resting b' s = ys @ xs" and "s' \<noteq> s \<Longrightarrow> resting b' s' = resting b s'"
proof -
  have only: "i \<in> set (L s'' pr'') \<Longrightarrow> s'' = s \<and> pr'' = pr" for s'' pr''
    using book_relD(7) [OF R, of i s'' pr''] book_relD(7) [OF R, of i s pr] q
    by (auto dest: on_level_unique)
  have same: "queue_orders b' (L s pr') = queue_orders b (L s pr')" if "pr' \<noteq> pr" for pr'
    using only [of s pr'] that eq by (intro queue_orders_cong) metis
  have tl: "queue_orders b' is = queue_orders b is"
    using i eq by (intro queue_orders_cong) metis
  show "resting b' s = ys @ xs"
  proof (rule resting_unique [OF R'])
    have "map (order_rank s) ys = replicate (length ys) (order_rank s x)"
      using ys(2) pr by (intro replicate_eqI) (auto simp: order_rank_def)
    then show "sorted (map (order_rank s) (ys @ xs))"
      using resting_sorted [OF R, of s] x by (simp add: sorted_append)
    fix pr'
    have "filter (\<lambda>y. o_price y = pr') (x # xs) = queue_orders b (L s pr')"
      using resting_at [OF R, of pr' s] x by simp
    then have "filter (\<lambda>y. o_price y = pr') xs = (if pr' = pr then queue_orders b is else queue_orders b (L s pr'))"
      using pr q by (auto simp: queue_orders_def split: if_splits)
    moreover have "filter (\<lambda>y. o_price y = pr') ys = (if pr' = pr then ys else [])"
      using ys(2) by (auto simp: filter_id_conv filter_empty_conv)
    ultimately show "filter (\<lambda>y. o_price y = pr') (ys @ xs) =
        queue_orders b' ((L(s := (L s)(pr := js))) s pr')"
      using ys(1) js tl same by (auto simp: queue_orders_def)
  qed
  show "resting b' s' = resting b s'" if "s' \<noteq> s"
    using that only eq by (intro resting_frame [OF R R']) fastforce+
qed

lemma resting_hashes:
  assumes R: "book_rel p b L"
  shows "distinct (map o_intent_hash (resting b s))"
proof -
  have "inj_on (\<lambda>i. the (book_orders b i)) (set (L s pr))" for pr
  proof (rule inj_onI)
    fix i j assume "i \<in> set (L s pr)" "j \<in> set (L s pr)" and eq: "the (book_orders b i) = the (book_orders b j)"
    then obtain n m where "nodes b i = Some n" "nodes b j = Some m" using book_relD(7) [OF R] by blast
    with index_hash [OF R, of i n] index_hash [OF R, of j m] eq show "i = j" by (simp add: book_orders_def)
  qed
  then have "distinct (queue_orders b (L s pr))" for pr
    using book_relD(4) [OF R, of s pr] by (simp add: queue_orders_def distinct_map)
  moreover have "distinct (map fst (priority_levels b s))"
    using book_relD(2) [OF R, of s]
    by (cases s) (auto simp: bt_wf_def priority_levels_def level_map_def strict_sorted_iff rev_map [symmetric])
  ultimately have "distinct (resting b s)"
    unfolding resting_blocks [OF R]
    by (intro distinct_concat_map) (auto simp: queue_orders_mem [OF R])
  then show ?thesis
    using resting_distinct [OF R, of _ s _ s] by (auto simp: distinct_map intro!: inj_onI)
qed

section \<open>Volumes\<close>

definition volume :: "Order list \<Rightarrow> nat" where
  "volume xs = sum_list (map (\<lambda>x. unat (o_quantity x)) xs)"

lemma volume_simps [simp]:
  "volume [] = 0" "volume (x # xs) = unat (o_quantity x) + volume xs"
  "volume (xs @ ys) = volume xs + volume ys"
  by (simp_all add: volume_def)

text \<open>The resting volume of a level, from the priority list.\<close>

definition level_volume :: "OrderBook \<Rightarrow> Side \<Rightarrow> u64 \<Rightarrow> nat" where
  "level_volume b s pr = volume (filter (\<lambda>x. o_price x = pr) (resting b s))"

lemma queue_sum_volume:
  assumes R: "book_rel p b L"
  shows "queue_sum (nodes b) (L s pr) = level_volume b s pr"
proof -
  have "node_qty (nodes b) i = o_quantity (the (book_orders b i))" if "i \<in> set (L s pr)" for i
    using that book_relD(7) [OF R, of i s pr] by (auto simp: node_qty_def book_orders_def)
  then show ?thesis
    by (simp add: level_volume_def resting_at [OF R] queue_orders_def volume_def queue_sum_def comp_def
        cong: map_cong)
qed

lemma volume_filter_le: "volume (filter P xs) \<le> volume xs"
  by (induction xs) auto

section \<open>What each operation does, in terms of the queues\<close>

definition has_room :: "OrderBook \<Rightarrow> bool" where
  "has_room b \<longleftrightarrow> length (resting b Bid) + length (resting b Ask) < book_capacity b"

definition hash_resting :: "OrderBook \<Rightarrow> IntentHash \<Rightarrow> bool" where
  "hash_resting b h \<longleftrightarrow> (\<exists>s. h \<in> o_intent_hash ` set (resting b s))"

lemma length_resting:
  assumes R: "book_rel p b L"
  shows "length (resting b Bid) + length (resting b Ask) = card (dom (nodes b))"
proof -
  have "length (resting b s) = length (concat (map (\<lambda>e. L s (fst e)) (level_map b s)))" for s
  proof -
    have "length (resting b s) = sum_list (map (length \<circ> (\<lambda>e. L s (fst e))) (priority_levels b s))"
      unfolding resting_blocks [OF R] by (simp add: length_concat queue_orders_def comp_def)
    also have "\<dots> = sum_list (map (length \<circ> (\<lambda>e. L s (fst e))) (level_map b s))"
      by (cases s) (simp_all add: priority_levels_def level_map_def rev_map [symmetric])
    finally show ?thesis by (simp add: length_concat comp_def)
  qed
  with queues_partition [OF R] show ?thesis by (metis distinct_card length_append)
qed

lemma index_resting:
  assumes R: "book_rel p b L"
  shows "map_of (ob_index b) h = None \<longleftrightarrow> \<not> hash_resting b h"
proof -
  have "map_of (ob_index b) h \<noteq> None \<longleftrightarrow> (\<exists>i x. book_orders b i = Some x \<and> o_intent_hash x = h)"
    using book_relD(8) [OF R, of h] by (fastforce simp: book_orders_def)
  also have "\<dots> \<longleftrightarrow> hash_resting b h"
    unfolding hash_resting_def image_iff bex_simps resting_mem [OF R] Bex_def by blast
  finally show ?thesis by blast
qed

end
