(* ===== verification/Book_Interface.thy ===== *)
theory Book_Interface
  imports Order_Book_Spec
begin

text \<open>
  What the matching engine may rely on. The locale \<open>priority_book\<close> states the contract of a
  book as two price-time priority queues: which order is at the head, what removing, reducing,
  inserting and cancelling do to the queues, and that nothing else changes. Its interpretation
  \<open>pb\<close> on the operations of \<open>Order_Book\<close>, for each build profile, is the refinement theorem of
  the order book; the properties at the end restate its main facts for reachable books.
\<close>

lemma filter_enqueue_drop: "\<not> P x \<Longrightarrow> filter P (enqueue s x q) = filter P q"
  unfolding enqueue_def by simp (metis filter_append takeWhile_dropWhile_id)

lemma enqueue_same_price: "\<forall>y \<in> set q. o_price y = o_price x \<Longrightarrow> enqueue s x q = q @ [x]"
proof -
  assume a: "\<forall>y \<in> set q. o_price y = o_price x"
  then have "takeWhile (\<lambda>y. order_rank s y \<le> order_rank s x) q = q" "dropWhile (\<lambda>y. order_rank s y \<le> order_rank s x) q = []"
    by (auto simp: takeWhile_eq_all_conv dropWhile_eq_Nil_conv order_rank_def)
  then show ?thesis by (simp add: enqueue_def)
qed

section \<open>The contract\<close>

locale priority_book =
  fixes inv :: "'b \<Rightarrow> bool"
    and queue :: "'b \<Rightarrow> Side \<Rightarrow> Order list"
    and ident :: "'b \<Rightarrow> 'i"
    and room :: "'b \<Rightarrow> bool"
    and fits :: "'b \<Rightarrow> Order \<Rightarrow> bool"
    and peek :: "'b \<Rightarrow> Side \<Rightarrow> TopView option res"
    and pop :: "'b \<Rightarrow> Side \<Rightarrow> ('b \<times> Order option) res"
    and reduce :: "'b \<Rightarrow> Side \<Rightarrow> u64 \<Rightarrow> 'b res"
    and ins :: "'b \<Rightarrow> Order \<Rightarrow> ('b \<times> (InsertError + ArenaIdx)) res"
    and cancel :: "'b \<Rightarrow> IntentHash \<Rightarrow> ('b \<times> Order option) res"
  assumes q_side: "inv b \<Longrightarrow> x \<in> set (queue b s) \<Longrightarrow> o_side x = s"
    and q_sorted: "inv b \<Longrightarrow> sorted (map (order_rank s) (queue b s))"
    and q_hashes: "inv b \<Longrightarrow> distinct (map o_intent_hash (queue b Bid @ queue b Ask))"
    and peek_empty: "inv b \<Longrightarrow> queue b s = [] \<Longrightarrow> peek b s = Inr None"
    and peek_head: "inv b \<Longrightarrow> queue b s = x # xs \<Longrightarrow>
      \<exists>i. peek b s = Inr (Some \<lparr>tv_price = o_price x, tv_arena_idx = i, tv_order = x\<rparr>)"
    and pop_empty: "inv b \<Longrightarrow> queue b s = [] \<Longrightarrow> pop b s = Inr (b, None)"
    and pop_head: "inv b \<Longrightarrow> queue b s = x # xs \<Longrightarrow>
      \<exists>b'. pop b s = Inr (b', Some x) \<and> inv b' \<and> queue b' = (queue b)(s := xs) \<and> ident b' = ident b"
    and reduce_head: "inv b \<Longrightarrow> queue b s = x # xs \<Longrightarrow> qty < o_quantity x \<Longrightarrow>
      \<exists>b'. reduce b s qty = Inr b' \<and> inv b' \<and>
        queue b' = (queue b)(s := x\<lparr>o_quantity := o_quantity x - qty\<rparr> # xs) \<and> ident b' = ident b"
    and ins_dup: "inv b \<Longrightarrow> o_intent_hash x \<in> o_intent_hash ` set (queue b Bid @ queue b Ask) \<Longrightarrow>
      ins b x = Inr (b, Inl IeDuplicateIntent)"
    and ins_full: "inv b \<Longrightarrow> o_intent_hash x \<notin> o_intent_hash ` set (queue b Bid @ queue b Ask) \<Longrightarrow>
      \<not> room b \<Longrightarrow> ins b x = Inr (b, Inl ArenaFull)"
    and ins_ok: "inv b \<Longrightarrow> o_intent_hash x \<notin> o_intent_hash ` set (queue b Bid @ queue b Ask) \<Longrightarrow>
      room b \<Longrightarrow> fits b x \<Longrightarrow>
      \<exists>b' i. ins b x = Inr (b', Inr i) \<and> inv b' \<and> ident b' = ident b \<and>
        queue b' = (queue b)(o_side x := enqueue (o_side x) x (queue b (o_side x)))"
    and cancel_absent: "inv b \<Longrightarrow> h \<notin> o_intent_hash ` set (queue b Bid @ queue b Ask) \<Longrightarrow>
      cancel b h = Inr (b, None)"
    and cancel_ok: "inv b \<Longrightarrow> x \<in> set (queue b s) \<Longrightarrow>
      \<exists>b'. cancel b (o_intent_hash x) = Inr (b', Some x) \<and> inv b' \<and> ident b' = ident b \<and>
        queue b' = (\<lambda>s. filter (\<lambda>y. o_intent_hash y \<noteq> o_intent_hash x) (queue b s))"
begin

text \<open>The head of a queue has the best price of its side.\<close>

lemma head_best:
  assumes "inv b" and "queue b s = x # xs" and "y \<in> set (queue b s)"
  shows "order_rank s x \<le> order_rank s y"
  using q_sorted [OF assms(1), of s] assms(2,3) by auto

text \<open>
  One fill against the head of a queue, as the matcher performs it: the head is popped when it is
  consumed and reduced otherwise. Either way the book afterwards is the book before with the head
  shortened by the fill.
\<close>

lemma fill_head:
  assumes "inv b" and "queue b s = x # xs" and "fill \<le> o_quantity x"
  obtains b' where
    "(if o_quantity x - fill = 0 then rbind (pop b s) (\<lambda>(b', _). Inr b') else reduce b s fill) = Inr b'"
    and "inv b'" and "ident b' = ident b"
    and "queue b' = (queue b)(s := (if o_quantity x - fill = 0 then xs
           else x\<lparr>o_quantity := o_quantity x - fill\<rparr> # xs))"
proof (cases "o_quantity x - fill = 0")
  case True
  with pop_head [OF assms(1,2)] that show thesis by auto
next
  case False
  with assms(3) have "fill < o_quantity x" by auto
  with reduce_head [OF assms(1,2)] False that show thesis by auto
qed

text \<open>Inserting and cancelling the inserted order is the identity on the queues.\<close>

lemma ins_cancel:
  assumes "inv b" and "ins b x = Inr (b', Inr i)" and "fits b x"
  obtains b'' where "cancel b' (o_intent_hash x) = Inr (b'', Some x)" and "inv b''"
    and "queue b'' = queue b"
proof -
  let ?H = "o_intent_hash ` set (queue b Bid @ queue b Ask)"
  have h: "o_intent_hash x \<notin> ?H" and "room b"
    using assms ins_dup [OF assms(1), of x] ins_full [OF assms(1), of x] by auto
  from ins_ok [OF assms(1) this assms(3)] assms(2) have inv': "inv b'"
    and q': "queue b' = (queue b)(o_side x := enqueue (o_side x) x (queue b (o_side x)))" by auto
  have "x \<in> set (queue b' (o_side x))" by (simp add: q' set_enqueue)
  from cancel_ok [OF inv' this] obtain b'' where b'': "cancel b' (o_intent_hash x) = Inr (b'', Some x)"
    "inv b''" "queue b'' = (\<lambda>s. filter (\<lambda>y. o_intent_hash y \<noteq> o_intent_hash x) (queue b' s))" by blast
  have keep: "filter (\<lambda>y. o_intent_hash y \<noteq> o_intent_hash x) (queue b s) = queue b s" for s
  proof -
    have "o_intent_hash y \<noteq> o_intent_hash x" if "y \<in> set (queue b s)" for y
      using that h by (cases s) (metis UnCI image_eqI set_append)+
    then show ?thesis by (simp add: filter_id_conv)
  qed
  with b'' that show thesis by (auto simp: q' fun_eq_iff filter_enqueue_drop)
qed

end

section \<open>The order book satisfies the contract\<close>

definition fits :: "profile \<Rightarrow> OrderBook \<Rightarrow> Order \<Rightarrow> bool" where
  "fits p b x \<longleftrightarrow> (p = Debug \<longrightarrow>
     level_volume b (o_side x) (o_price x) + unat (o_quantity x) < 2 ^ 64)"

definition book_ident :: "OrderBook \<Rightarrow> u32 \<times> nat" where
  "book_ident b = (ob_instrument_id b, book_capacity b)"

lemma same_book_ident: "same_book b b' \<longleftrightarrow> book_ident b' = book_ident b"
  by (auto simp: same_book_def book_ident_def)

lemma hash_resting_iff:
  "hash_resting b h \<longleftrightarrow> h \<in> o_intent_hash ` set (resting b Bid @ resting b Ask)"
proof -
  have "(\<exists>s. P s) \<longleftrightarrow> P Bid \<or> P Ask" for P by (metis Side.exhaust)
  then show ?thesis by (simp only: hash_resting_def set_append image_Un Un_iff)
qed

lemma book_invE:
  assumes "book_inv p b"
  obtains L where "book_rel p b L"
  using assms by (auto simp: book_inv_def)

lemma has_room_iff:
  assumes R: "book_rel p b L"
  shows "has_room b \<longleftrightarrow> card (dom (nodes b)) < book_capacity b"
    and "\<not> has_room b \<longleftrightarrow> card (dom (nodes b)) = book_capacity b"
  using length_resting [OF R] ar.card_contents [OF book_relD(1) [OF R]]
  by (auto simp: has_room_def book_capacity_def)

lemma book_pop_head:
  assumes R: "book_rel p b L" and x: "resting b s = x # xs"
  shows "\<exists>b'. pop_top p b s = Inr (b', Some x) \<and> book_inv p b' \<and> resting b' = (resting b)(s := xs) \<and>
    book_ident b' = book_ident b"
proof -
  from head_present [OF R x] obtain pr l i "is" n where top: "top_key_value b s = Some (pr, l)"
    and q: "L s pr = i # is" and n: "nodes b i = Some n" and nx: "on_order n = x"
    and pr: "pr = o_price x" and s: "s = o_side x" .
  from pop_top_present [OF R top q n] obtain b' where b': "pop_top p b s = Inr (b', Some (on_order n))"
    "book_rel p b' (L(s := (L s)(pr := is)))" "book_orders b' = (book_orders b)(i := None)" "same_book b b'" .
  have i: "i \<notin> set is" using book_relD(4) [OF R, of s pr] q by simp
  have "resting b' s' = ((resting b)(s := xs)) s'" for s'
    using resting_head_change [where ks = "[]" and ys = "[]", OF R b'(2) x pr s q] i b'(3)
    by (cases "s' = s") (auto simp: queue_orders_def)
  with b' nx show ?thesis by (auto simp: book_inv_def same_book_ident)
qed

lemma book_reduce_head:
  assumes R: "book_rel p b L" and x: "resting b s = x # xs" and lt: "qty < o_quantity x"
  shows "\<exists>b'. reduce_top p b s qty = Inr b' \<and> book_inv p b' \<and>
    resting b' = (resting b)(s := x\<lparr>o_quantity := o_quantity x - qty\<rparr> # xs) \<and> book_ident b' = book_ident b"
proof -
  from head_present [OF R x] obtain pr l i "is" n where top: "top_key_value b s = Some (pr, l)"
    and q: "L s pr = i # is" and n: "nodes b i = Some n" and nx: "on_order n = x"
    and pr: "pr = o_price x" and s: "s = o_side x" .
  let ?x' = "x\<lparr>o_quantity := o_quantity x - qty\<rparr>"
  from reduce_top_present [OF R top q n, of qty] lt nx obtain b' where b': "reduce_top p b s qty = Inr b'"
    "book_rel p b' L" "book_orders b' = (book_orders b)(i \<mapsto> ?x')" "same_book b b'" by auto
  have i: "i \<notin> set is" using book_relD(4) [OF R, of s pr] q by simp
  have R': "book_rel p b' (L(s := (L s)(pr := i # is)))" using b'(2) by (simp add: q [symmetric])
  have "resting b' s' = ((resting b)(s := ?x' # xs)) s'" for s'
    using resting_head_change [where ks = "[i]" and ys = "[?x']", OF R R' x pr s q] i b'(3) pr
    by (cases "s' = s") (auto simp: queue_orders_def)
  with b' show ?thesis by (auto simp: book_inv_def same_book_ident)
qed

lemma book_insert_ok:
  assumes R: "book_rel p b L" and "\<not> hash_resting b (o_intent_hash x)" and "has_room b" and "fits p b x"
  shows "\<exists>b' i. OrderBook_insert p b x = Inr (b', Inr i) \<and> book_inv p b' \<and> book_ident b' = book_ident b \<and>
    resting b' = (resting b)(o_side x := enqueue (o_side x) x (resting b (o_side x)))"
proof -
  have h: "map_of (ob_index b) (o_intent_hash x) = None" using assms(2) by (simp add: index_resting [OF R])
  have room: "card (dom (nodes b)) < book_capacity b" using assms(3) by (simp add: has_room_iff(1) [OF R])
  have fit: "queue_sum (nodes b) (L (o_side x) (o_price x)) + unat (o_quantity x) < 2 ^ 64" if "p = Debug"
    using assms(4) that by (simp add: fits_def queue_sum_volume [OF R])
  from insert_room [OF R h room refl refl fit] obtain b' i where b': "OrderBook_insert p b x = Inr (b', Inr i)"
    "book_rel p b' (L(o_side x := (L (o_side x))(o_price x := L (o_side x) (o_price x) @ [i])))"
    "book_orders b i = None" "book_orders b' = (book_orders b)(i \<mapsto> x)" "same_book b b'" by blast
  have "resting b' = (resting b)(o_side x := enqueue (o_side x) x (resting b (o_side x)))"
    using resting_insert [OF R refl refl b'(2-4)] by (auto simp: fun_eq_iff)
  with b' show ?thesis by (auto simp: book_inv_def same_book_ident)
qed

lemma book_cancel_ok:
  assumes R: "book_rel p b L" and x: "x \<in> set (resting b s)"
  shows "\<exists>b'. OrderBook_cancel p b (o_intent_hash x) = Inr (b', Some x) \<and> book_inv p b' \<and>
    book_ident b' = book_ident b \<and>
    resting b' = (\<lambda>s. filter (\<lambda>y. o_intent_hash y \<noteq> o_intent_hash x) (resting b s))"
proof -
  from x obtain i n where n: "nodes b i = Some n" "on_order n = x"
    by (auto simp: resting_mem [OF R] book_orders_def)
  from cancel_present [OF R n(1) refl refl refl] n(2) obtain b'
    where b': "OrderBook_cancel p b (o_intent_hash x) = Inr (b', Some x)"
    "book_rel p b' (L(o_side x := (L (o_side x))(o_price x := remove1 i (L (o_side x) (o_price x)))))"
    "book_orders b' = (book_orders b)(i := None)" "same_book b b'" by auto
  have "book_orders b i = Some x" using n by (simp add: book_orders_def)
  from resting_remove [OF R this refl refl b'(2,3)] b' show ?thesis
    by (auto simp: book_inv_def same_book_ident)
qed

interpretation pb: priority_book "book_inv p" resting book_ident has_room "fits p"
  peek_top "pop_top p" "reduce_top p" "OrderBook_insert p" "OrderBook_cancel p" for p
proof unfold_locales
  fix b s x xs h qty
  assume "book_inv p b"
  then obtain L where R: "book_rel p b L" by (rule book_invE)
  show "x \<in> set (resting b s) \<Longrightarrow> o_side x = s" by (rule resting_side [OF R])
  show "sorted (map (order_rank s) (resting b s))" by (rule resting_sorted [OF R])
  show "distinct (map o_intent_hash (resting b Bid @ resting b Ask))"
    using resting_hashes [OF R] resting_distinct [OF R, of _ Bid _ Ask] resting_side [OF R]
    by (auto simp: image_iff) (metis Side.distinct(1))
  show "resting b s = [] \<Longrightarrow> peek_top b s = Inr None" by (rule peek_top_ok(1) [OF R])
  show "resting b s = x # xs \<Longrightarrow>
      \<exists>i. peek_top b s = Inr (Some \<lparr>tv_price = o_price x, tv_arena_idx = i, tv_order = x\<rparr>)"
    by (rule peek_top_ok(2) [OF R])
  show "resting b s = [] \<Longrightarrow> pop_top p b s = Inr (b, None)"
    using top_None [OF R, of s] by (intro pop_top_empty) simp
  show "resting b s = x # xs \<Longrightarrow> \<exists>b'. pop_top p b s = Inr (b', Some x) \<and> book_inv p b' \<and>
      resting b' = (resting b)(s := xs) \<and> book_ident b' = book_ident b"
    by (rule book_pop_head [OF R])
  show "resting b s = x # xs \<Longrightarrow> qty < o_quantity x \<Longrightarrow> \<exists>b'. reduce_top p b s qty = Inr b' \<and> book_inv p b' \<and>
      resting b' = (resting b)(s := x\<lparr>o_quantity := o_quantity x - qty\<rparr> # xs) \<and> book_ident b' = book_ident b"
    by (rule book_reduce_head [OF R])
  note hash = hash_resting_iff [symmetric] index_resting [OF R, symmetric]
  show "o_intent_hash x \<in> o_intent_hash ` set (resting b Bid @ resting b Ask) \<Longrightarrow>
      OrderBook_insert p b x = Inr (b, Inl IeDuplicateIntent)"
    unfolding hash_resting_iff [symmetric] using index_resting [OF R] by (intro insert_duplicate) blast
  show "o_intent_hash x \<notin> o_intent_hash ` set (resting b Bid @ resting b Ask) \<Longrightarrow> \<not> has_room b \<Longrightarrow>
      OrderBook_insert p b x = Inr (b, Inl ArenaFull)"
    unfolding hash has_room_iff(2) [OF R] by (rule insert_full [OF R])
  show "o_intent_hash x \<notin> o_intent_hash ` set (resting b Bid @ resting b Ask) \<Longrightarrow> has_room b \<Longrightarrow> fits p b x \<Longrightarrow>
      \<exists>b' i. OrderBook_insert p b x = Inr (b', Inr i) \<and> book_inv p b' \<and> book_ident b' = book_ident b \<and>
        resting b' = (resting b)(o_side x := enqueue (o_side x) x (resting b (o_side x)))"
    unfolding hash_resting_iff [symmetric] by (rule book_insert_ok [OF R])
  show "h \<notin> o_intent_hash ` set (resting b Bid @ resting b Ask) \<Longrightarrow> OrderBook_cancel p b h = Inr (b, None)"
    unfolding hash by (rule cancel_absent)
  show "x \<in> set (resting b s) \<Longrightarrow> \<exists>b'. OrderBook_cancel p b (o_intent_hash x) = Inr (b', Some x) \<and>
      book_inv p b' \<and> book_ident b' = book_ident b \<and>
      resting b' = (\<lambda>s. filter (\<lambda>y. o_intent_hash y \<noteq> o_intent_hash x) (resting b s))"
    by (rule book_cancel_ok [OF R])
qed

end
