(* ===== verification/Book_Props.thy ===== *)
theory Book_Props
  imports Book_Interface
begin

text \<open>
  The properties of the order book, over the books that can arise: \<open>book_reach p inst cap\<close> is
  the reachability relation of a book created by \<open>OrderBook::new(inst, cap)\<close> under its public
  operations in build profile \<open>p\<close>. The market-data views (\<open>level_qty\<close>, \<open>bid_depth\<close>,
  \<open>ask_depth\<close>, \<open>is_crossed\<close>) are related to the queues as well.
\<close>

section \<open>Market-data views\<close>

definition price_ladder :: "OrderBook \<Rightarrow> Side \<Rightarrow> u64 list" where
  "price_ladder b s = remdups_adj (map o_price (resting b s))"

lemma remdups_adj_blocks:
  assumes "distinct ks" and "\<And>k. k \<in> set ks \<Longrightarrow> f k \<noteq> []" and "\<And>k x. x \<in> set (f k) \<Longrightarrow> g x = k"
  shows "remdups_adj (map g (concat (map f ks))) = ks"
  using assms(1,2)
proof (induction ks)
  case (Cons k ks)
  let ?r = "map g (concat (map f ks))"
  from Cons have IH: "remdups_adj ?r = ks" by simp
  have blk: "map g (f k) = replicate (length (f k)) k"
    using assms(3) by (intro replicate_eqI) auto
  obtain m where m: "length (f k) = Suc m" using Cons.prems(2) [of k] by (cases "f k") auto
  have "?r = [] \<or> k \<noteq> hd ?r"
    using IH Cons.prems(1) by (metis distinct.simps(2) hd_in_set remdups_adj_set)
  then have "remdups_adj (replicate (Suc m) k @ ?r) = remdups_adj (replicate (Suc m) k) @ remdups_adj ?r"
    by (intro remdups_adj_append') auto
  then show ?case using IH blk m remdups_adj_replicate [of "Suc m" k] by simp
qed simp

lemma ladder_levels:
  assumes R: "book_rel p b L"
  shows "price_ladder b s = map fst (priority_levels b s)"
  unfolding price_ladder_def resting_blocks [OF R]
proof (rule remdups_adj_blocks)
  show "distinct (map fst (priority_levels b s))"
    using book_relD(2) [OF R, of s]
    by (cases s) (auto simp: bt_wf_def priority_levels_def level_map_def strict_sorted_iff rev_map [symmetric])
  show "queue_orders b (L s pr) \<noteq> []" if "pr \<in> set (map fst (priority_levels b s))" for pr
    using that book_relD(6) [OF R, of s pr] bt_entries [OF book_relD(2) [OF R, of s]]
    by (fastforce simp: priority_levels_set queue_orders_def level_ok_def)
qed (simp add: queue_orders_mem [OF R])

lemma depth_ladder:
  assumes R: "book_rel p b L"
  shows "map (\<lambda>(pr, l). (pr, PriceLevel_total_qty l)) (priority_levels b s) =
    map (\<lambda>pr. (pr, of_nat (level_volume b s pr))) (price_ladder b s)"
  using book_relD(6) [OF R, of s] bt_entries [OF book_relD(2) [OF R, of s]]
  by (auto simp: ladder_levels [OF R] priority_levels_set PriceLevel_total_qty_def level_ok_def
      queue_sum_volume [OF R])

lemma length_ladder: "length (price_ladder b s) \<le> length (resting b s)"
  by (metis length_map price_ladder_def remdups_adj_length)

lemma resting_bounded:
  assumes "book_inv p b"
  shows "length (resting b Bid) + length (resting b Ask) < 4294967295"
proof -
  from assms obtain L where R: "book_rel p b L" by (rule book_invE)
  then show ?thesis
    using length_resting [OF R] ar.card_contents [OF book_relD(1) [OF R]] arena_wf_length [OF book_relD(1) [OF R]]
    by (simp add: arena_capacity_def)
qed

lemma level_qty_volume:
  assumes "book_inv p b"
  shows "level_qty b s pr = of_nat (level_volume b s pr)"
proof -
  from assms obtain L where R: "book_rel p b L" by (rule book_invE)
  show ?thesis
  proof (cases "map_of (level_map b s) pr")
    case None
    then show ?thesis
      using book_relD(5) [OF R None] queue_sum_volume [OF R, of s pr] by (simp add: level_qty_def)
  next
    case (Some l)
    then show ?thesis
      using book_relD(6) [OF R Some] queue_sum_volume [OF R, of s pr]
      by (simp add: level_qty_def PriceLevel_total_qty_def level_ok_def)
  qed
qed

lemma best_price:
  assumes "book_inv p b"
  shows "map_option fst (top_key_value b s) = map_option o_price (case resting b s of [] \<Rightarrow> None | x # _ \<Rightarrow> Some x)"
proof -
  from assms obtain L where R: "book_rel p b L" by (rule book_invE)
  show ?thesis
  proof (cases "resting b s")
    case Nil
    then show ?thesis using top_None [OF R, of s] by simp
  next
    case (Cons x xs)
    from head_present [OF R this] Cons show ?thesis by auto
  qed
qed

lemma is_crossed_top:
  "is_crossed b \<longleftrightarrow> (\<exists>x y. map_option fst (top_key_value b Bid) = Some x \<and>
     map_option fst (top_key_value b Ask) = Some y \<and> y \<le> x)"
  by (auto simp: is_crossed_def top_key_value_def split: option.splits)

lemma is_crossed_iff:
  assumes "book_inv p b"
  shows "is_crossed b \<longleftrightarrow>
    (\<exists>x \<in> set (resting b Bid). \<exists>y \<in> set (resting b Ask). o_price y \<le> o_price x)"
proof
  assume "is_crossed b"
  then show "\<exists>x \<in> set (resting b Bid). \<exists>y \<in> set (resting b Ask). o_price y \<le> o_price x"
    unfolding is_crossed_top best_price [OF assms] by (auto split: list.splits)
next
  assume "\<exists>x \<in> set (resting b Bid). \<exists>y \<in> set (resting b Ask). o_price y \<le> o_price x"
  then obtain x y where xy: "x \<in> set (resting b Bid)" "y \<in> set (resting b Ask)" "o_price y \<le> o_price x" by blast
  then obtain x0 xs y0 ys where q: "resting b Bid = x0 # xs" "resting b Ask = y0 # ys"
    by (metis list.set_cases)
  have "o_price x \<le> o_price x0"
    using pb.head_best [OF assms q(1) xy(1)] by (simp add: order_rank_def rank_def word_le_def)
  moreover have "o_price y0 \<le> o_price y"
    using pb.head_best [OF assms q(2) xy(2)] by (simp add: order_rank_def rank_def word_le_def)
  ultimately have "o_price y0 \<le> o_price x0" using xy(3) by simp
  with q show "is_crossed b" unfolding is_crossed_top best_price [OF assms] by simp
qed

section \<open>Reachable books\<close>

inductive book_reach :: "profile \<Rightarrow> u32 \<Rightarrow> u32 \<Rightarrow> OrderBook \<Rightarrow> bool" for p inst cap where
  reach_new: "OrderBook_new inst cap = Inr b \<Longrightarrow> book_reach p inst cap b"
| reach_insert: "book_reach p inst cap b \<Longrightarrow> OrderBook_insert p b x = Inr (b', r) \<Longrightarrow> book_reach p inst cap b'"
| reach_cancel: "book_reach p inst cap b \<Longrightarrow> OrderBook_cancel p b h = Inr (b', r') \<Longrightarrow> book_reach p inst cap b'"
| reach_pop: "book_reach p inst cap b \<Longrightarrow> pop_top p b s = Inr (b', r') \<Longrightarrow> book_reach p inst cap b'"
| reach_reduce: "book_reach p inst cap b \<Longrightarrow> peek_top b s = Inr (Some v) \<Longrightarrow>
    qty < o_quantity (tv_order v) \<Longrightarrow> reduce_top p b s qty = Inr b' \<Longrightarrow> book_reach p inst cap b'"

lemma insert_outcomes:
  assumes inv: "book_inv p b"
  shows "hash_resting b (o_intent_hash x) \<Longrightarrow> OrderBook_insert p b x = Inr (b, Inl IeDuplicateIntent)"
    and "\<not> hash_resting b (o_intent_hash x) \<Longrightarrow> \<not> has_room b \<Longrightarrow> OrderBook_insert p b x = Inr (b, Inl ArenaFull)"
    and "\<not> hash_resting b (o_intent_hash x) \<Longrightarrow> has_room b \<Longrightarrow> \<not> fits p b x \<Longrightarrow>
      OrderBook_insert p b x = Inl (Panic ''attempt to add with overflow'')"
    and "\<not> hash_resting b (o_intent_hash x) \<Longrightarrow> has_room b \<Longrightarrow> fits p b x \<Longrightarrow>
      \<exists>b' i. OrderBook_insert p b x = Inr (b', Inr i) \<and> book_inv p b' \<and> book_ident b' = book_ident b \<and>
        resting b' = (resting b)(o_side x := enqueue (o_side x) x (resting b (o_side x)))"
proof -
  from inv obtain L where R: "book_rel p b L" by (rule book_invE)
  show "OrderBook_insert p b x = Inl (Panic ''attempt to add with overflow'')"
    if "\<not> hash_resting b (o_intent_hash x)" "has_room b" "\<not> fits p b x"
  proof -
    from that(3) have p: "p = Debug" by (simp add: fits_def)
    with that(3) have "2 ^ 64 \<le> level_volume b (o_side x) (o_price x) + unat (o_quantity x)"
      by (simp add: fits_def)
    with that R show ?thesis unfolding p
      by (intro insert_overflow [where L = L]) (simp_all add: index_resting has_room_iff(1) queue_sum_volume p)
  qed
qed (use inv pb.ins_dup pb.ins_full pb.ins_ok in \<open>auto simp only: hash_resting_iff\<close>)

text \<open>When \<open>reduce_top\<close> faults: only a debug build checks its precondition.\<close>

lemma book_reduce_overfill:
  assumes R: "book_rel p b L" and x: "resting b s = x # xs" and ge: "o_quantity x \<le> qty"
  shows "(\<exists>e. reduce_top p b s qty = Inl e) \<longleftrightarrow> p = Debug"
proof -
  from head_present [OF R x] obtain pr l i "is" n where top: "top_key_value b s = Some (pr, l)"
    and q: "L s pr = i # is" and n: "nodes b i = Some n" and nx: "on_order n = x"
    and pr: "pr = o_price x" and s: "s = o_side x" .
  note l = top_lookup(1) [OF R top] and hd = top_node(1) [OF R top q n]
  show ?thesis
    using top l hd ge nx
    by (cases p) (simp_all add: reduce_top_def ar.get_mut_present [OF book_relD(1) [OF R] n] Let_def minus_u_def not_less)
qed
lemma reduce_top_faults:
  assumes "book_inv p b"
  shows "(\<exists>e. reduce_top p b s qty = Inl e) \<longleftrightarrow>
    p = Debug \<and> (case resting b s of [] \<Rightarrow> True | x # _ \<Rightarrow> o_quantity x \<le> qty)"
proof -
  from assms obtain L where R: "book_rel p b L" by (rule book_invE)
  show ?thesis
  proof (cases "resting b s")
    case Nil
    with top_None [OF R, of s] reduce_top_empty [of b s p qty] show ?thesis by auto
  next
    case (Cons x xs)
    with pb.reduce_head [OF assms Cons, of qty] book_reduce_overfill [OF R Cons, of qty]
    show ?thesis by (cases "qty < o_quantity x") (auto simp: not_less)
  qed
qed

lemma cancel_outcomes:
  assumes inv: "book_inv p b"
  shows "\<not> hash_resting b h \<Longrightarrow> OrderBook_cancel p b h = Inr (b, None)"
    and "hash_resting b h \<Longrightarrow> \<exists>x b' s. x \<in> set (resting b s) \<and> o_intent_hash x = h \<and>
      OrderBook_cancel p b h = Inr (b', Some x) \<and> book_inv p b' \<and> book_ident b' = book_ident b \<and>
      resting b' = (\<lambda>s. filter (\<lambda>y. o_intent_hash y \<noteq> h) (resting b s))"
proof -
  show "\<not> hash_resting b h \<Longrightarrow> OrderBook_cancel p b h = Inr (b, None)"
    unfolding hash_resting_iff by (rule pb.cancel_absent [OF inv])
  assume "hash_resting b h"
  then obtain s x where x: "x \<in> set (resting b s)" "o_intent_hash x = h"
    by (auto simp: hash_resting_def)
  with pb.cancel_ok [OF inv x(1)] show "\<exists>x b' s. x \<in> set (resting b s) \<and> o_intent_hash x = h \<and>
      OrderBook_cancel p b h = Inr (b', Some x) \<and> book_inv p b' \<and> book_ident b' = book_ident b \<and>
      resting b' = (\<lambda>s. filter (\<lambda>y. o_intent_hash y \<noteq> h) (resting b s))" by blast
qed

lemma book_reach_inv:
  assumes "book_reach p inst cap b"
  shows "book_inv p b \<and> book_ident b = (inst, unat cap)"
  using assms
proof induction
  case (reach_new b)
  then show ?case
    using OrderBook_new_rel [OF reach_new] by (auto simp: book_inv_def book_ident_def)
next
  case (reach_insert b x b' r)
  with insert_outcomes [of p b x] show ?case
    by (cases "hash_resting b (o_intent_hash x)"; cases "has_room b"; cases "fits p b x") auto
next
  case (reach_cancel b h b' r')
  with cancel_outcomes [of p b h] show ?case by (cases "hash_resting b h") auto
next
  case (reach_pop b s b' r')
  with pb.pop_empty [of p b s] pb.pop_head [of p b s] show ?case by (cases "resting b s") auto
next
  case (reach_reduce b s v qty b')
  then have inv: "book_inv p b" by simp
  show ?case
  proof (cases "resting b s")
    case Nil
    with pb.peek_empty [OF inv Nil] reach_reduce show ?thesis by simp
  next
    case (Cons x xs)
    from pb.peek_head [OF inv Cons] reach_reduce have "qty < o_quantity x" by auto
    from pb.reduce_head [OF inv Cons this] reach_reduce show ?thesis by auto
  qed
qed

lemma new_book_empty:
  assumes "OrderBook_new i cap = Inr b"
  shows "resting b = (\<lambda>_. [])"
proof
  fix s
  have "x \<notin> set (resting b s)" for x
    using resting_mem [OF OrderBook_new_rel(1) [OF assms]] OrderBook_new_rel(2) [OF assms] by auto
  then show "resting b s = []" by (cases "resting b s") (metis list.set_intros(1))+
qed

section \<open>A sample book\<close>

text \<open>The orders the unit tests of \<open>book.rs\<close> build, and a reachable one-order book, used to
  exhibit the hypotheses of the properties below.\<close>

definition make_order :: "u64 \<Rightarrow> u64 \<Rightarrow> Side \<Rightarrow> u8 \<Rightarrow> Order" where
  "make_order price qty side hash_byte =
     \<lparr>o_order_id = OrderId 1, o_price = price, o_quantity = qty, o_origin_ts = 0,
      o_instrument_id = 1, o_side = side, o_order_type = Limit, o_tif = GTC, o_padding = 0,
      o_intent_hash = IntentHash (hash_byte # replicate 31 0)\<rparr>"

lemma make_order_simps [simp]:
  "o_price (make_order pr q s h) = pr" "o_quantity (make_order pr q s h) = q"
  "o_side (make_order pr q s h) = s" "o_intent_hash (make_order pr q s h) = IntentHash (h # replicate 31 0)"
  by (simp_all add: make_order_def)

lemma new_book_sample:
  obtains b where "book_reach p 1 64 b" and "resting b = (\<lambda>_. [])" and "book_ident b = (1, 64)"
proof -
  obtain a :: "OrderNode Arena" where "Arena_new 64 = Inr a" by (rule Arena_new_ok [of 64]) simp_all
  then obtain b where b: "OrderBook_new 1 64 = Inr b" by (simp add: OrderBook_new_def)
  note R = OrderBook_new_rel(1) [OF b, of p] and o = OrderBook_new_rel(2) [OF b]
  have "x \<notin> set (resting b s)" for x s by (simp add: resting_mem [OF R] o)
  then have "resting b s = []" for s by (cases "resting b s") (metis list.set_intros(1))+
  then have "resting b = (\<lambda>_. [])" by (simp add: fun_eq_iff)
  with reach_new [OF b, of p] book_reach_inv [OF reach_new [OF b, of p]] that show thesis by simp
qed

lemma one_order_sample:
  assumes "unat q < 2 ^ 64"
  obtains b where "book_reach p 1 64 b" and "resting b = (\<lambda>_. [])(s := [make_order pr q s h])"
    and "book_ident b = (1, 64)"
proof -
  obtain b0 where b0: "book_reach p 1 64 b0" "resting b0 = (\<lambda>_. [])" "book_ident b0 = (1, 64)"
    by (rule new_book_sample)
  let ?x = "make_order pr q s h"
  have inv: "book_inv p b0" using book_reach_inv [OF b0(1)] by simp
  have "\<not> hash_resting b0 (o_intent_hash ?x)" "has_room b0" "fits p b0 ?x"
    using assms b0(2,3) by (auto simp: hash_resting_def has_room_def fits_def level_volume_def book_ident_def)
  from insert_outcomes(4) [OF inv this] obtain b i where b: "OrderBook_insert p b0 ?x = Inr (b, Inr i)"
    "book_ident b = book_ident b0" "resting b = (resting b0)(s := enqueue s ?x (resting b0 s))" by auto
  with reach_insert [OF b0(1) b(1)] b0 that show thesis by (simp add: enqueue_def)
qed

section \<open>Properties\<close>

text \<open>
  C10: the structural invariant I1-I7 holds for every reachable book (levels are well-formed
  doubly linked lists over live arena slots, counters agree with the lists, no empty level, the
  index is exact), instrument and capacity are those given to \<open>new\<close>, and the run-time checker
  \<open>assert_invariants\<close> of a debug build never fires.
\<close>

theorem book_invariant_reachable:
  assumes "book_reach p inst cap b"
  shows "book_inv p b \<and> ob_instrument_id b = inst \<and> book_capacity b = unat cap \<and>
    (p = Debug \<longrightarrow> assert_invariants b = Inr ())"
  using book_reach_inv [OF assms] by (auto simp: book_ident_def elim!: book_invE intro: assert_invariants_ok)

theorem book_invariant_reachable_witness:
  "\<exists>b. book_reach Debug 1 64 b \<and> resting b Bid = [make_order 100 10 Bid 1] \<and>
     assert_invariants b = Inr () \<and> book_capacity b = 64"
proof -
  obtain b where b: "book_reach Debug 1 64 b" "resting b = (\<lambda>_. [])(Bid := [make_order 100 10 Bid 1])"
    by (rule one_order_sample [of 10 Debug Bid 100 1]) simp_all
  from book_invariant_reachable [OF b(1)] b show ?thesis by auto
qed

text \<open>
  C33: when an operation of a reachable book panics, exactly. \<open>cancel\<close>, \<open>pop_top\<close> and
  \<open>peek_top\<close> never do, in either profile, and no operation does in a release build. In a debug build
  \<open>insert\<close> panics exactly when it would accept the order and the level it joins would then hold
  2^64 units or more, and \<open>reduce_top\<close> exactly when the side is empty or the quantity is not below
  the quantity of the top order.
\<close>

theorem book_panics_only_on_overflow:
  assumes "book_reach p inst cap b"
  shows "(\<exists>r. OrderBook_cancel p b h = Inr r) \<and> (\<exists>r. pop_top p b s = Inr r) \<and> (\<exists>r. peek_top b s = Inr r) \<and>
    ((\<exists>e. OrderBook_insert p b x = Inl e) \<longleftrightarrow>
       p = Debug \<and> \<not> hash_resting b (o_intent_hash x) \<and> has_room b \<and>
       2 ^ 64 \<le> level_volume b (o_side x) (o_price x) + unat (o_quantity x)) \<and>
    ((\<exists>e. reduce_top p b s qty = Inl e) \<longleftrightarrow>
       p = Debug \<and> (case resting b s of [] \<Rightarrow> True | y # _ \<Rightarrow> o_quantity y \<le> qty))"
proof -
  have inv: "book_inv p b" using book_reach_inv [OF assms] by simp
  have "\<exists>r. OrderBook_cancel p b h = Inr r"
    using cancel_outcomes [OF inv, of h] by (cases "hash_resting b h") auto
  moreover have "\<exists>r. pop_top p b s = Inr r"
    using pb.pop_empty [OF inv, of s] pb.pop_head [OF inv, of s] by (cases "resting b s") auto
  moreover have "\<exists>r. peek_top b s = Inr r"
    using pb.peek_empty [OF inv, of s] pb.peek_head [OF inv, of s] by (cases "resting b s") auto
  moreover have "(\<exists>e. OrderBook_insert p b x = Inl e) \<longleftrightarrow>
      \<not> hash_resting b (o_intent_hash x) \<and> has_room b \<and> \<not> fits p b x"
    using insert_outcomes [OF inv, of x]
    by (cases "hash_resting b (o_intent_hash x)"; cases "has_room b"; cases "fits p b x") auto
  moreover note reduce_top_faults [OF inv, of s qty]
  ultimately show ?thesis by (simp add: fits_def not_less conj_ac)
qed

theorem book_panics_only_on_overflow_witness:
  "\<exists>b. book_reach Debug 1 64 b \<and> (\<exists>r. pop_top Debug b Bid = Inr r) \<and>
     (\<exists>e. OrderBook_insert Debug b (make_order 100 18446744073709551615 Bid 2) = Inl e) \<and>
     (\<exists>e. reduce_top Debug b Bid 10 = Inl e) \<and> \<not> (\<exists>e. reduce_top Debug b Bid 9 = Inl e) \<and>
     (\<exists>e. reduce_top Debug b Ask 1 = Inl e)"
proof -
  obtain b where b: "book_reach Debug 1 64 b" "resting b = (\<lambda>_. [])(Bid := [make_order 100 10 Bid 1])"
    "book_ident b = (1, 64)"
    by (rule one_order_sample [of 10 Debug Bid 100 1]) simp_all
  then have "\<not> hash_resting b (o_intent_hash (make_order 100 18446744073709551615 Bid 2))" "has_room b"
    "2 ^ 64 \<le> level_volume b Bid 100 + unat (18446744073709551615 :: u64)"
    by (auto simp: hash_resting_def has_room_def book_ident_def level_volume_def split: if_splits)
  with book_panics_only_on_overflow [OF b(1), where s = Bid and x = "make_order 100 18446744073709551615 Bid 2" and qty = 10]
    book_panics_only_on_overflow [OF b(1), where s = Bid and qty = 9]
    book_panics_only_on_overflow [OF b(1), where s = Ask and qty = 1] b(1,2)
  show ?thesis by auto
qed

text \<open>
  C4: insertion implements price-time priority. It is refused exactly when the intent hash is
  already resting (\<open>DuplicateIntent\<close>) or, failing that, when the arena is full
  (\<open>ArenaFull\<close>), and then changes nothing; otherwise the order joins the queue of its side
  behind every order whose price is at least as good and before every worse one, and the other
  side is untouched.
\<close>

theorem insert_price_time_priority:
  assumes "book_reach p inst cap b" and "OrderBook_insert p b x = Inr (b', r)"
  shows "r = Inl IeDuplicateIntent \<and> hash_resting b (o_intent_hash x) \<and> b' = b \<or>
    r = Inl ArenaFull \<and> \<not> hash_resting b (o_intent_hash x) \<and> \<not> has_room b \<and> b' = b \<or>
    (\<exists>i. r = Inr i) \<and> \<not> hash_resting b (o_intent_hash x) \<and> has_room b \<and>
      resting b' = (resting b)(o_side x := enqueue (o_side x) x (resting b (o_side x)))"
  using insert_outcomes [of p b x] book_reach_inv [OF assms(1)] assms(2)
  by (cases "hash_resting b (o_intent_hash x)"; cases "has_room b"; cases "fits p b x") auto

theorem insert_price_time_priority_witness:
  "\<exists>b b' r. book_reach Debug 1 64 b \<and> OrderBook_insert Debug b (make_order 100 7 Bid 2) = Inr (b', r) \<and>
     resting b' Bid = [make_order 100 10 Bid 1, make_order 100 7 Bid 2]"
proof -
  obtain b where b: "book_reach Debug 1 64 b" "resting b = (\<lambda>_. [])(Bid := [make_order 100 10 Bid 1])"
    "book_ident b = (1, 64)"
    by (rule one_order_sample [of 10 Debug Bid 100 1]) simp_all
  let ?x = "make_order 100 7 Bid 2"
  have free: "\<not> hash_resting b (o_intent_hash ?x)" "has_room b" "fits Debug b ?x"
    using b by (auto simp: hash_resting_def has_room_def book_ident_def level_volume_def fits_def split: if_splits)
  from insert_outcomes(4) [OF _ free] book_reach_inv [OF b(1)] obtain b' i
    where b': "OrderBook_insert Debug b ?x = Inr (b', Inr i)" by auto
  from insert_price_time_priority [OF b(1) b'] free b have "resting b' Bid = enqueue Bid ?x (resting b Bid)" by auto
  with b b' show ?thesis by (auto simp: enqueue_def order_rank_def)
qed

text \<open>
  C8: cancellation removes exactly the order with the given intent hash and returns it; every
  other order keeps its place in its queue. A hash that is not resting yields \<open>None\<close> and changes
  nothing.
\<close>

theorem cancel_removes_exactly:
  assumes "book_reach p inst cap b" and "OrderBook_cancel p b h = Inr (b', r)"
  shows "(case r of
      None \<Rightarrow> \<not> hash_resting b h \<and> b' = b
    | Some x \<Rightarrow> x \<in> set (resting b (o_side x)) \<and> o_intent_hash x = h \<and>
        resting b' = (resting b)(o_side x := remove1 x (resting b (o_side x))))"
proof -
  have inv: "book_inv p b" using book_reach_inv [OF assms(1)] by simp
  show ?thesis
  proof (cases "hash_resting b h")
    case False
    then show ?thesis using cancel_outcomes(1) [OF inv False] assms(2) by simp
  next
    case True
    from cancel_outcomes(2) [OF inv True] assms(2) obtain x s where x: "r = Some x" "x \<in> set (resting b s)"
      "o_intent_hash x = h" "resting b' = (\<lambda>s. filter (\<lambda>y. o_intent_hash y \<noteq> h) (resting b s))" by auto
    have s: "s = o_side x" using pb.q_side [OF inv x(2)] by simp
    have dist: "distinct (map o_intent_hash (resting b Bid @ resting b Ask))" by (rule pb.q_hashes [OF inv])
    have "resting b' s' = ((resting b)(s := remove1 x (resting b s))) s'" for s'
    proof (cases "s' = s")
      case True
      from x(2) obtain as bs where q: "resting b s = as @ x # bs" by (auto simp: in_set_conv_decomp)
      have "distinct (map o_intent_hash (as @ x # bs))"
        using dist q by (cases s) auto
      then have neq: "o_intent_hash y \<noteq> o_intent_hash x" if "y \<in> set as \<union> set bs" for y
        using that unfolding map_append list.map(2) distinct_append distinct.simps(2) by auto (metis image_eqI)+
      then have "filter (\<lambda>y. o_intent_hash y \<noteq> h) (as @ x # bs) = as @ bs"
        using x(3) by (auto simp: filter_id_conv)
      moreover have "remove1 x (as @ x # bs) = as @ bs" using neq by (intro remove1_split) auto
      ultimately show ?thesis using True x(4) q by simp
    next
      case False
      then have "o_intent_hash ` set (resting b s) \<inter> o_intent_hash ` set (resting b s') = {}"
        using dist by (cases s; cases s') (simp_all add: Int_commute)
      then have "\<forall>y \<in> set (resting b s'). o_intent_hash y \<noteq> h" using x(2,3) by blast
      with False x(4) show ?thesis by (simp add: filter_id_conv)
    qed
    with x s show ?thesis by (auto simp: fun_eq_iff)
  qed
qed

theorem cancel_removes_exactly_witness:
  "\<exists>b b'. book_reach Debug 1 64 b \<and>
     OrderBook_cancel Debug b (o_intent_hash (make_order 100 10 Bid 1)) =
       Inr (b', Some (make_order 100 10 Bid 1)) \<and> resting b' Bid = []"
proof -
  obtain b where b: "book_reach Debug 1 64 b" "resting b = (\<lambda>_. [])(Bid := [make_order 100 10 Bid 1])"
    by (rule one_order_sample [of 10 Debug Bid 100 1]) simp_all
  let ?x = "make_order 100 10 Bid 1"
  have inv: "book_inv Debug b" using book_reach_inv [OF b(1)] by simp
  have "?x \<in> set (resting b Bid)" using b(2) by simp
  from pb.cancel_ok [OF inv this] obtain b' where b': "OrderBook_cancel Debug b (o_intent_hash ?x) = Inr (b', Some ?x)"
    by blast
  from cancel_removes_exactly [OF b(1) b'] b(2) have "resting b' Bid = []" by simp
  with b(1) b' show ?thesis by blast
qed

text \<open>
  C17: the top of a side is the order of best price that arrived first. \<open>peek_top\<close> shows it with
  its price and \<open>pop_top\<close> removes and returns it, leaving the rest of both queues; both yield
  \<open>None\<close> exactly on an empty side. No resting order of the side has a better price.
\<close>

theorem top_is_best_and_oldest:
  assumes "book_reach p inst cap b" and "pop_top p b s = Inr (b', r)"
  shows "(case resting b s of
      [] \<Rightarrow> peek_top b s = Inr None \<and> r = None \<and> b' = b
    | x # xs \<Rightarrow> (\<exists>i. peek_top b s = Inr (Some \<lparr>tv_price = o_price x, tv_arena_idx = i, tv_order = x\<rparr>)) \<and>
        r = Some x \<and> resting b' = (resting b)(s := xs) \<and>
        (\<forall>y \<in> set xs. rank s (o_price x) \<le> rank s (o_price y)))"
proof (cases "resting b s")
  have inv: "book_inv p b" using book_reach_inv [OF assms(1)] by simp
  {
    case Nil
    with pb.peek_empty [OF inv Nil] pb.pop_empty [OF inv Nil] assms(2) show ?thesis by simp
  next
    case (Cons x xs)
    have "\<forall>y \<in> set xs. rank s (o_price x) \<le> rank s (o_price y)"
      using pb.head_best [OF inv Cons] Cons by (auto simp: order_rank_def)
    with Cons pb.peek_head [OF inv Cons] pb.pop_head [OF inv Cons] assms(2) show ?thesis by simp
  }
qed

theorem top_is_best_and_oldest_witness:
  "\<exists>b b'. book_reach Release 1 64 b \<and> pop_top Release b Ask = Inr (b', Some (make_order 105 3 Ask 4)) \<and>
     resting b' Ask = []"
proof -
  obtain b where b: "book_reach Release 1 64 b" "resting b = (\<lambda>_. [])(Ask := [make_order 105 3 Ask 4])"
    by (rule one_order_sample [of 3 Release Ask 105 4]) simp_all
  have "book_inv Release b" using book_reach_inv [OF b(1)] by simp
  from pb.pop_head [OF this, of Ask] b(2) obtain b' r where b': "pop_top Release b Ask = Inr (b', r)" by auto
  from top_is_best_and_oldest [OF b(1) b'] b b' show ?thesis by auto
qed

text \<open>
  A partial fill of the top order. \<open>reduce_top\<close>, called with less than the top order's
  quantity, takes exactly that much off it: it keeps its place and its other fields, and no other
  order changes.
\<close>

theorem reduce_top_effect:
  assumes "book_reach p inst cap b" and "resting b s = x # xs" and "qty < o_quantity x"
  shows "\<exists>b'. reduce_top p b s qty = Inr b' \<and> book_reach p inst cap b' \<and>
    resting b' = (resting b)(s := x\<lparr>o_quantity := o_quantity x - qty\<rparr> # xs) \<and>
    level_volume b' s (o_price x) + unat qty = level_volume b s (o_price x)"
proof -
  have inv: "book_inv p b" using book_reach_inv [OF assms(1)] by simp
  from pb.reduce_head [OF inv assms(2,3)] obtain b' where b': "reduce_top p b s qty = Inr b'"
    "resting b' = (resting b)(s := x\<lparr>o_quantity := o_quantity x - qty\<rparr> # xs)" by blast
  from pb.peek_head [OF inv assms(2)] obtain v where "peek_top b s = Inr (Some v)" "tv_order v = x" by auto
  with assms(1,3) b'(1) have "book_reach p inst cap b'" by (auto intro: reach_reduce)
  moreover have "level_volume b' s (o_price x) + unat qty = level_volume b s (o_price x)"
    using assms(2,3) unat_minus_le [OF less_imp_le [OF assms(3)]]
    by (simp add: level_volume_def b'(2) word_less_nat_alt)
  ultimately show ?thesis using b' by blast
qed

theorem reduce_top_effect_witness:
  "\<exists>b b'. book_reach Debug 1 64 b \<and> reduce_top Debug b Bid 4 = Inr b' \<and>
     map o_quantity (resting b' Bid) = [6]"
proof -
  obtain b where b: "book_reach Debug 1 64 b" "resting b = (\<lambda>_. [])(Bid := [make_order 100 10 Bid 1])"
    by (rule one_order_sample [of 10 Debug Bid 100 1]) simp_all
  from reduce_top_effect [OF b(1), of Bid "make_order 100 10 Bid 1" "[]" 4] b show ?thesis by auto
qed

text \<open>
  Inserting an order and cancelling it again restores both queues; the intent hash is free
  for reuse afterwards.
\<close>

theorem insert_cancel_round_trip:
  assumes "book_reach p inst cap b" and "OrderBook_insert p b x = Inr (b', Inr i)"
  shows "\<exists>b''. OrderBook_cancel p b' (o_intent_hash x) = Inr (b'', Some x) \<and> resting b'' = resting b \<and>
    \<not> hash_resting b'' (o_intent_hash x)"
proof -
  have inv: "book_inv p b" using book_reach_inv [OF assms(1)] by simp
  have ok: "\<not> hash_resting b (o_intent_hash x)" "fits p b x"
    using insert_outcomes [OF inv, of x] assms(2)
    by (cases "hash_resting b (o_intent_hash x)"; cases "has_room b"; cases "fits p b x"; simp)+
  from pb.ins_cancel [OF inv assms(2) ok(2)] ok(1) show ?thesis
    by (metis hash_resting_def)
qed

theorem insert_cancel_round_trip_witness:
  "\<exists>b b' b'' i. book_reach Debug 1 64 b \<and> OrderBook_insert Debug b (make_order 100 7 Ask 2) = Inr (b', Inr i) \<and>
     OrderBook_cancel Debug b' (o_intent_hash (make_order 100 7 Ask 2)) = Inr (b'', Some (make_order 100 7 Ask 2)) \<and>
     resting b'' = resting b"
proof -
  obtain b where b: "book_reach Debug 1 64 b" "resting b = (\<lambda>_. [])(Bid := [make_order 100 10 Bid 1])"
    "book_ident b = (1, 64)"
    by (rule one_order_sample [of 10 Debug Bid 100 1]) simp_all
  let ?x = "make_order 100 7 Ask 2"
  have free: "\<not> hash_resting b (o_intent_hash ?x)" "has_room b" "fits Debug b ?x"
    using b by (auto simp: hash_resting_def has_room_def book_ident_def level_volume_def fits_def split: if_splits)
  from insert_outcomes(4) [OF _ free] book_reach_inv [OF b(1)] obtain b' i
    where b': "OrderBook_insert Debug b ?x = Inr (b', Inr i)" by auto
  from insert_cancel_round_trip [OF b(1) b'] b(1) b' show ?thesis by blast
qed

text \<open>
  C34: the market-data views agree with the queues. \<open>level_qty\<close> and the depth iterators report,
  for each distinct resting price of a side in priority order, the sum of the quantities resting
  there (modulo 2^64), and \<open>is_crossed\<close> holds exactly when some bid meets some ask.
\<close>

theorem views_agree_with_queues:
  assumes "book_reach p inst cap b"
  shows "level_qty b s pr = of_nat (level_volume b s pr) \<and>
    bid_depth b n = take (unat n) (map (\<lambda>pr. (pr, of_nat (level_volume b Bid pr))) (price_ladder b Bid)) \<and>
    ask_depth b n = take (unat n) (map (\<lambda>pr. (pr, of_nat (level_volume b Ask pr))) (price_ladder b Ask)) \<and>
    sorted_wrt (\<lambda>x y. rank s x < rank s y) (price_ladder b s) \<and>
    set (price_ladder b s) = o_price ` set (resting b s) \<and>
    (is_crossed b \<longleftrightarrow> (\<exists>x \<in> set (resting b Bid). \<exists>y \<in> set (resting b Ask). o_price y \<le> o_price x))"
proof -
  have inv: "book_inv p b" using book_reach_inv [OF assms] by simp
  then obtain L where R: "book_rel p b L" by (rule book_invE)
  have "set (price_ladder b s) = o_price ` set (resting b s)" by (simp add: price_ladder_def)
  moreover have "sorted_wrt (\<lambda>x y. rank s x < rank s y) (price_ladder b s)"
    using priority_levels_sorted [OF R, of s] by (simp add: ladder_levels [OF R])
  ultimately show ?thesis
    using level_qty_volume [OF inv, of s pr] is_crossed_iff [OF inv] depth_ladder [OF R, of Bid]
      depth_ladder [OF R, of Ask]
    by (simp add: bid_depth_def ask_depth_def priority_levels_def take_map [symmetric])
qed

theorem views_agree_with_queues_witness:
  "\<exists>b. book_reach Debug 1 64 b \<and> level_qty b Bid 100 = 10 \<and> bid_depth b 5 = [(100, 10)] \<and> \<not> is_crossed b"
proof -
  obtain b where b: "book_reach Debug 1 64 b" "resting b = (\<lambda>_. [])(Bid := [make_order 100 10 Bid 1])"
    by (rule one_order_sample [of 10 Debug Bid 100 1]) simp_all
  from views_agree_with_queues [OF b(1), of Bid 100 5] b show ?thesis
    by (auto simp: level_volume_def price_ladder_def)
qed

end
