(* ===== verification/Matching.thy ===== *)
theory Matching
  imports Book_Props
begin

text \<open>
  Price-time matching: \<open>sink.rs\<close>, \<open>events.rs\<close> and \<open>matching.rs\<close> of \<open>crates/matcher\<close>.
  The event sink is the trait \<open>EventSink\<close>: the operations take its \<open>emit\<close> as an argument, the
  locale \<open>event_sink\<close> is the trait's contract and \<open>Vec<OrderEvent>\<close> its interpretation.

  The \<open>while\<close> loop of \<open>cross_loop\<close> is the recursive function \<open>cross_steps\<close>; its termination
  is proved for every book, well-formed or not: a step either empties an arena slot or leaves the
  taker with nothing.
\<close>

section \<open>Event sinks\<close>

definition Vec_emit :: "OrderEvent list \<Rightarrow> OrderEvent \<Rightarrow> OrderEvent list" where
  "Vec_emit out ev = out @ [ev]"

definition push_reject ::
  "('o \<Rightarrow> OrderEvent \<Rightarrow> 'o) \<Rightarrow> RejectReason \<Rightarrow> u64 \<Rightarrow> OrderRequest \<Rightarrow> 'o \<Rightarrow> 'o" where
  "push_reject emit reason remaining_qty req out =
     emit out (EvReject 0 reason remaining_qty (rq_origin_ts req) (rq_intent_hash req))"

definition push_cancel :: "('o \<Rightarrow> OrderEvent \<Rightarrow> 'o) \<Rightarrow> u64 \<Rightarrow> OrderRequest \<Rightarrow> 'o \<Rightarrow> 'o" where
  "push_cancel emit i req out = emit out (EvCancel i (rq_origin_ts req) (rq_intent_hash req))"

section \<open>Matching\<close>

fun opposite :: "Side \<Rightarrow> Side" where
  "opposite Ask = Bid"
| "opposite Bid = Ask"

fun crossing :: "Side \<Rightarrow> u64 \<Rightarrow> u64 \<Rightarrow> bool" where
  "crossing Bid taker_price maker_price \<longleftrightarrow> maker_price \<le> taker_price"
| "crossing Ask taker_price maker_price \<longleftrightarrow> taker_price \<le> maker_price"

text \<open>The accumulator loop of \<open>liquidity_reaches\<close>.\<close>

fun liquidity_loop :: "profile \<Rightarrow> Side \<Rightarrow> u64 \<Rightarrow> u64 \<Rightarrow> u64 \<Rightarrow> (u64 \<times> u64) list \<Rightarrow> bool res" where
  "liquidity_loop p taker_side taker_price required acc [] = Inr False"
| "liquidity_loop p taker_side taker_price required acc ((price, qty) # levels) =
     (if \<not> crossing taker_side taker_price price then Inr False
      else rbind (plus_u p acc qty) (\<lambda>acc'.
        if required \<le> acc' then Inr True
        else liquidity_loop p taker_side taker_price required acc' levels))"

definition liquidity_reaches :: "profile \<Rightarrow> (u64 \<times> u64) list \<Rightarrow> Side \<Rightarrow> u64 \<Rightarrow> u64 \<Rightarrow> bool res" where
  "liquidity_reaches p levels taker_side taker_price required =
     liquidity_loop p taker_side taker_price required 0 levels"

abbreviation usize_MAX :: usize where
  "usize_MAX \<equiv> 18446744073709551615"

definition has_sufficient_liquidity :: "profile \<Rightarrow> OrderBook \<Rightarrow> OrderRequest \<Rightarrow> bool res" where
  "has_sufficient_liquidity p book req =
     (case rq_side req of
        Bid \<Rightarrow> liquidity_reaches p (ask_depth book usize_MAX) Bid (rq_price req) (rq_quantity req)
      | Ask \<Rightarrow> liquidity_reaches p (bid_depth book usize_MAX) Ask (rq_price req) (rq_quantity req))"

subsection \<open>Every step empties a slot or finishes the taker\<close>

abbreviation book_live :: "OrderBook \<Rightarrow> nat" where
  "book_live b \<equiv> live_count (ar_slots (ob_arena b))"

lemma get_mut_live:
  assumes "Arena_get_mut a i = Inr (Some (v, w))"
  shows "live_count (ar_slots (w v')) = live_count (ar_slots a)"
proof -
  let ?k = "unat (idx_slot i)"
  from assms have k: "?k < length (ar_slots a)"
    and w: "w v' = a\<lparr>ar_slots := (ar_slots a)[?k := (ar_slots a ! ?k)\<lparr>sl_value := Live v'\<rparr>]\<rparr>"
    by (auto simp: Arena_get_mut_def Slot_get_mut_def slice_get_def rbind_eq_Inr split: if_splits option.splits)
  show ?thesis
    using live_count_update [OF k, of "(ar_slots a ! ?k)\<lparr>sl_value := Live v'\<rparr>"] w by simp
qed

lemma remove_live:
  assumes "Arena_remove p a i = Inr (a', Some v)"
  shows "live_count (ar_slots a') < live_count (ar_slots a)"
proof -
  let ?k = "unat (idx_slot i)"
  from assms obtain s where k: "?k < length (ar_slots a)" and occ: "sl_occupied (ar_slots a ! ?k) = 1"
    and a': "ar_slots a' = (ar_slots a)[?k := s]" and s: "sl_occupied s = 0"
    by (auto simp: Arena_remove_def Slot_remove_def slice_get_def rbind_eq_Inr Let_def write_next_free_def
        split: if_splits option.splits)
  show ?thesis using live_count_update [OF k, of s] occ s a' by simp
qed

lemma set_level_map_live [simp]: "book_live (set_level_map s m b) = book_live b"
  by (simp add: level_map_set)

lemma pop_top_live:
  assumes "peek_top b s = Inr (Some t)" and "pop_top p b s = Inr (b', r)"
  shows "book_live b' < book_live b"
proof -
  from assms(1) obtain pr l where top: "top_key_value b s = Some (pr, l)"
    by (auto simp: peek_top_def split: option.splits)
  from assms(2) obtain level a1 node m where l: "bt_get (level_map b s) pr = Some level"
    and rm: "Arena_remove p (ob_arena b) (lv_head level) = Inr (a1, Some node)"
    and mut: "Arena_get_mut a1 (on_next node) = Inr m"
    unfolding pop_top_def top by (auto simp: rbind_eq_Inr expect_def Let_def split: option.splits)
  have "book_live b' = live_count (ar_slots a1)"
    using assms(2) l rm mut
    by (cases m) (auto simp: pop_top_def top rbind_eq_Inr Let_def get_mut_live)
  with remove_live [OF rm] show ?thesis by simp
qed

lemma reduce_top_live:
  assumes "reduce_top p b s q = Inr b'"
  shows "book_live b' = book_live b"
  using assms unfolding reduce_top_def
  by (auto simp: rbind_eq_Inr expect_def Let_def get_mut_live split: option.splits prod.splits)

subsection \<open>The loop\<close>

definition taker_event :: "OrderRequest \<Rightarrow> u64 \<Rightarrow> u64 \<Rightarrow> u64 \<Rightarrow> u64 \<Rightarrow> OrderEvent" where
  "taker_event req order_id fill_qty fill_price remaining =
     (if remaining = 0
      then EvFill order_id fill_qty fill_price (rq_origin_ts req) (rq_intent_hash req)
      else EvPartialFill order_id fill_qty fill_price remaining (rq_origin_ts req) (rq_intent_hash req))"

definition maker_event :: "OrderRequest \<Rightarrow> Order \<Rightarrow> u64 \<Rightarrow> u64 \<Rightarrow> u64 \<Rightarrow> OrderEvent" where
  "maker_event req maker fill_qty fill_price maker_remaining =
     (if maker_remaining = 0
      then EvFill (order_id_0 (o_order_id maker)) fill_qty fill_price (rq_origin_ts req) (o_intent_hash maker)
      else EvPartialFill (order_id_0 (o_order_id maker)) fill_qty fill_price maker_remaining
             (rq_origin_ts req) (o_intent_hash maker))"

function cross_steps :: "('o \<Rightarrow> OrderEvent \<Rightarrow> 'o) \<Rightarrow> profile \<Rightarrow> OrderRequest \<Rightarrow> u64 \<Rightarrow>
    OrderBook \<Rightarrow> u64 \<Rightarrow> 'o \<Rightarrow> (OrderBook \<times> u64 \<times> 'o) res" where
  "cross_steps emit p req order_id book remaining out =
     (if remaining = 0 then Inr (book, remaining, out)
      else rbind (peek_top book (opposite (rq_side req))) (\<lambda>peeked.
        case peeked of
          None \<Rightarrow> Inr (book, remaining, out)
        | Some view \<Rightarrow>
            if \<not> crossing (rq_side req) (rq_price req) (tv_price view) then Inr (book, remaining, out)
            else
              let maker_qty = o_quantity (tv_order view);
                  fill_qty = min remaining maker_qty;
                  fill_price = tv_price view
              in
              rbind (minus_u p maker_qty fill_qty) (\<lambda>maker_remaining.
              rbind (minus_u p remaining fill_qty) (\<lambda>remaining'.
              let out1 = emit out (taker_event req order_id fill_qty fill_price remaining');
                  out2 = emit out1 (maker_event req (tv_order view) fill_qty fill_price maker_remaining)
              in
              if maker_remaining = 0
              then rbind (pop_top p book (opposite (rq_side req))) (\<lambda>(book', _).
                     cross_steps emit p req order_id book' remaining' out2)
              else rbind (reduce_top p book (opposite (rq_side req)) fill_qty) (\<lambda>book'.
                     cross_steps emit p req order_id book' remaining' out2)))))"
  by pat_completeness auto

lemma partial_fill_finishes:
  fixes r q :: u64
  assumes "minus_u p q (min r q) = Inr m" and "m \<noteq> 0" and "minus_u p r (min r q) = Inr r'"
  shows "r' = 0"
proof -
  have "m = q - min r q" "r' = r - min r q"
    using assms(1,3) by (auto simp: minus_u_def split: if_splits)
  with assms(2) show ?thesis by (auto simp: min_def split: if_splits)
qed

termination cross_steps
proof (relation "measures [\<lambda>(_, _, _, _, b, _, _). book_live b, \<lambda>(_, _, _, _, _, r, _). unat r]")
  show "wf (measures [\<lambda>(_, _, _, _, b, _, _). book_live b, \<lambda>(_, _, _, _, _, r, _). unat r])" by simp
qed (auto dest: pop_top_live reduce_top_live partial_fill_finishes simp: unat_gt_0)

declare cross_steps.simps [simp del]

text \<open>One iteration that trades.\<close>

lemma cross_steps_step:
  assumes "remaining \<noteq> 0" and "peek_top b (opposite (rq_side req)) = Inr (Some v)"
    and "crossing (rq_side req) (rq_price req) (tv_price v)"
    and f: "f = min remaining (o_quantity (tv_order v))" and mr: "mr = o_quantity (tv_order v) - f"
    and r': "r' = remaining - f"
  shows "cross_steps emit p req order_id b remaining out =
    (let out2 = emit (emit out (taker_event req order_id f (tv_price v) r'))
                  (maker_event req (tv_order v) f (tv_price v) mr)
     in if mr = 0
        then rbind (pop_top p b (opposite (rq_side req))) (\<lambda>(b', _). cross_steps emit p req order_id b' r' out2)
        else rbind (reduce_top p b (opposite (rq_side req)) f) (\<lambda>b'. cross_steps emit p req order_id b' r' out2))"
proof -
  have "minus_u p (o_quantity (tv_order v)) f = Inr mr" "minus_u p remaining f = Inr r'"
    by (auto simp: f mr r' intro: minus_u_ok)
  then show ?thesis
    using assms(1-3) by (subst cross_steps.simps) (simp add: f [symmetric] Let_def)
qed

definition cross_loop :: "('o \<Rightarrow> OrderEvent \<Rightarrow> 'o) \<Rightarrow> profile \<Rightarrow> OrderBook \<Rightarrow> OrderRequest \<Rightarrow> u64 \<Rightarrow> 'o \<Rightarrow>
    (OrderBook \<times> u64 \<times> 'o) res" where
  "cross_loop emit p book req order_id out = cross_steps emit p req order_id book (rq_quantity req) out"

text \<open>The order that rests, built from the request and what is left of it.\<close>

definition resting_order :: "OrderRequest \<Rightarrow> u64 \<Rightarrow> u64 \<Rightarrow> Order" where
  "resting_order req order_id remaining =
     \<lparr>o_order_id = OrderId order_id, o_price = rq_price req, o_quantity = remaining,
      o_origin_ts = rq_origin_ts req, o_instrument_id = rq_instrument_id req, o_side = rq_side req,
      o_order_type = rq_order_type req, o_tif = rq_tif req, o_padding = 0,
      o_intent_hash = rq_intent_hash req\<rparr>"

definition match_limit :: "('o \<Rightarrow> OrderEvent \<Rightarrow> 'o) \<Rightarrow> profile \<Rightarrow> OrderBook \<Rightarrow> OrderRequest \<Rightarrow> u64 \<Rightarrow> 'o \<Rightarrow>
    (OrderBook \<times> 'o) res" where
  "match_limit emit p book req order_id out =
     rbind (if rq_tif req = FOK then has_sufficient_liquidity p book req else Inr True) (\<lambda>fillable.
     if \<not> fillable
     then Inr (book, push_reject emit InsufficientLiquidity (rq_quantity req) req out)
     else
       rbind (cross_loop emit p book req order_id out) (\<lambda>(book1, remaining, out1).
       if remaining = 0 then Inr (book1, out1)
       else case rq_tif req of
         FOK \<Rightarrow> rbind (debug_assert p False
                   ''FOK left a residual, must never happen, pre-check must have prevented this'')
                 (\<lambda>_. Inr (book1, out1))
       | IOC \<Rightarrow> Inr (book1, push_reject emit InsufficientLiquidity remaining req out1)
       | GTC \<Rightarrow>
           let resting = resting_order req order_id remaining in
           rbind (OrderBook_insert p book1 resting) (\<lambda>(book2, r).
             case r of
               Inr _ \<Rightarrow> Inr (book2, emit out1 (EvNew resting))
             | Inl ArenaFull \<Rightarrow> Inr (book2, push_reject emit SystemAtCapacity remaining req out1)
             | Inl IeDuplicateIntent \<Rightarrow> Inr (book2, push_reject emit RrDuplicateIntent remaining req out1))))"

section \<open>The contract of an event sink\<close>

text \<open>
  Whatever the sink is, it sees the same events in the same order as a \<open>Vec\<close>, and it has no
  influence on the book: the operations with any lawful sink are simulated by those with \<open>Vec\<close>.
\<close>

definition sink_sim :: "('o \<Rightarrow> OrderEvent list) \<Rightarrow> ('b \<times> 'o) res \<Rightarrow> ('b \<times> OrderEvent list) res" where
  "sink_sim view m = rbind m (\<lambda>(b, out). Inr (b, view out))"

locale event_sink =
  fixes emit :: "'o \<Rightarrow> OrderEvent \<Rightarrow> 'o"
    and view :: "'o \<Rightarrow> OrderEvent list"
  assumes view_emit: "view (emit out ev) = view out @ [ev]"
begin

lemma cross_steps_sim:
  "cross_steps Vec_emit p req order_id book remaining (view out) =
   rbind (cross_steps emit p req order_id book remaining out) (\<lambda>(b, r, out'). Inr (b, r, view out'))"
proof -
  have "e = emit \<Longrightarrow> ?thesis" for e
  proof (induction e p req order_id book remaining out rule: cross_steps.induct)
    case (1 e p req order_id book remaining out)
    let ?s = "opposite (rq_side req)"
    consider "remaining = 0" | f where "peek_top book ?s = Inl f" "remaining \<noteq> 0"
      | "peek_top book ?s = Inr None" "remaining \<noteq> 0"
      | v where "peek_top book ?s = Inr (Some v)" "\<not> crossing (rq_side req) (rq_price req) (tv_price v)" "remaining \<noteq> 0"
      | v where "peek_top book ?s = Inr (Some v)" "crossing (rq_side req) (rq_price req) (tv_price v)" "remaining \<noteq> 0"
      by (metis option.exhaust sum.exhaust)
    then show ?case
    proof cases
      case (5 v)
      define f where "f = min remaining (o_quantity (tv_order v))"
      define mr where "mr = o_quantity (tv_order v) - f"
      define r' where "r' = remaining - f"
      have sub: "minus_u p (o_quantity (tv_order v)) f = Inr mr" "minus_u p remaining f = Inr r'"
        by (auto simp: f_def mr_def r'_def intro: minus_u_ok)
      note step = cross_steps_step [OF 5(3) 5(1,2) f_def mr_def r'_def]
      note IH = 1(1) [OF _ 5(1) refl _ refl f_def refl sub refl refl] 1(2) [OF _ 5(1) refl _ refl f_def refl sub refl refl]
      show ?thesis
      proof (cases "mr = 0")
        case True
        then show ?thesis
          using IH(1) 5 1(3) by (cases "pop_top p book ?s") (auto simp: step view_emit Vec_emit_def)
      next
        case False
        then show ?thesis
          using IH(2) 5 1(3) by (cases "reduce_top p book ?s f") (auto simp: step view_emit Vec_emit_def)
      qed
    qed (simp_all add: cross_steps.simps [of _ _ _ _ book])
  qed
  then show ?thesis by simp
qed

lemma match_limit_sim:
  "match_limit Vec_emit p book req order_id (view out) =
   sink_sim view (match_limit emit p book req order_id out)"
proof -
  let ?m = "cross_loop emit p book req order_id out"
  have loop: "cross_loop Vec_emit p book req order_id (view out) = rbind ?m (\<lambda>(b, r, out'). Inr (b, r, view out'))"
    by (simp add: cross_loop_def cross_steps_sim)
  have rej: "push_reject Vec_emit rr q req (view o') = view (push_reject emit rr q req o')" for rr q o'
    by (simp add: push_reject_def Vec_emit_def view_emit)
  have emt: "Vec_emit (view o') ev = view (emit o' ev)" for o' ev
    by (simp add: Vec_emit_def view_emit)
  show ?thesis
    unfolding match_limit_def sink_sim_def loop
    by (auto simp: rbind_def rej emt Let_def split: sum.split prod.split TimeInForce.split InsertError.split)
qed

end

interpretation vec: event_sink Vec_emit "\<lambda>out. out"
  by unfold_locales (simp add: Vec_emit_def)

section \<open>Abstract matching on a priority queue\<close>

text \<open>
  What a taker does to the opposing queue, in one recursion over the queue: the fills as pairs of
  maker and quantity, the taker's remainder, and the queue that is left.
\<close>

fun sweep :: "(u64 \<Rightarrow> bool) \<Rightarrow> u64 \<Rightarrow> Order list \<Rightarrow> (Order \<times> u64) list \<times> u64 \<times> Order list" where
  "sweep cr remaining [] = ([], remaining, [])"
| "sweep cr remaining (x # xs) =
     (if remaining = 0 \<or> \<not> cr (o_price x) then ([], remaining, x # xs)
      else if o_quantity x \<le> remaining
      then let (fills, r, q) = sweep cr (remaining - o_quantity x) xs in ((x, o_quantity x) # fills, r, q)
      else ([(x, remaining)], 0, x\<lparr>o_quantity := o_quantity x - remaining\<rparr> # xs))"

fun fill_events :: "OrderRequest \<Rightarrow> u64 \<Rightarrow> u64 \<Rightarrow> (Order \<times> u64) list \<Rightarrow> OrderEvent list" where
  "fill_events req order_id remaining [] = []"
| "fill_events req order_id remaining ((x, q) # fs) =
     taker_event req order_id q (o_price x) (remaining - q) #
     maker_event req x q (o_price x) (o_quantity x - q) #
     fill_events req order_id (remaining - q) fs"

text \<open>The loop refines the recursion.\<close>

lemma cross_steps_refines:
  assumes "book_inv p b" and "sweep (crossing (rq_side req) (rq_price req)) remaining
      (resting b (opposite (rq_side req))) = (fills, r, q)"
  shows "\<exists>b'. cross_steps Vec_emit p req order_id b remaining out =
      Inr (b', r, out @ fill_events req order_id remaining fills) \<and>
    book_inv p b' \<and> book_ident b' = book_ident b \<and>
    resting b' = (resting b)(opposite (rq_side req) := q)"
  using assms
proof (induction "resting b (opposite (rq_side req))" arbitrary: b remaining out fills)
  case Nil
  let ?s = "opposite (rq_side req)"
  from Nil pb.peek_empty [OF Nil.prems(1), of ?s]
  show ?case by (simp add: cross_steps.simps [of _ _ _ _ b] fun_upd_idem)
next
  case (Cons x xs)
  let ?s = "opposite (rq_side req)" and ?cr = "crossing (rq_side req) (rq_price req)"
  note inv = Cons.prems(1) and q = Cons.hyps(2) [symmetric]
  from pb.peek_head [OF inv q] obtain i where
    peek: "peek_top b ?s = Inr (Some \<lparr>tv_price = o_price x, tv_arena_idx = i, tv_order = x\<rparr>)" ..
  show ?case
  proof (cases "remaining = 0 \<or> \<not> ?cr (o_price x)")
    case True
    with Cons.prems(2) q peek show ?thesis
      using inv by (auto simp: cross_steps.simps [of _ _ _ _ b] fun_upd_idem)
  next
    case False
    let ?f = "min remaining (o_quantity x)"
    let ?out = "out @ [taker_event req order_id ?f (o_price x) (remaining - ?f),
      maker_event req x ?f (o_price x) (o_quantity x - ?f)]"
    have sub: "minus_u p (o_quantity x) ?f = Inr (o_quantity x - ?f)" "minus_u p remaining ?f = Inr (remaining - ?f)"
      by (auto intro: minus_u_ok)
    show ?thesis
    proof (cases "o_quantity x \<le> remaining")
      case True
      then have f: "?f = o_quantity x" by (simp add: min_def)
      from pb.pop_head [OF inv q] obtain b1 where b1: "pop_top p b ?s = Inr (b1, Some x)"
        "book_inv p b1" "resting b1 = (resting b)(?s := xs)" "book_ident b1 = book_ident b" by blast
      from Cons.prems(2) q False True obtain fs where sw: "sweep ?cr (remaining - o_quantity x) xs = (fs, r, q)"
        and res: "fills = (x, o_quantity x) # fs" by (auto split: prod.splits)
      have "cross_steps Vec_emit p req order_id b remaining out =
          cross_steps Vec_emit p req order_id b1 (remaining - ?f) ?out"
        using False peek sub b1(1) f
        by (subst cross_steps.simps) (simp add: Let_def Vec_emit_def)
      moreover have "xs = resting b1 ?s" using b1(3) by simp
      from Cons.hyps(1) [OF this b1(2), of "remaining - o_quantity x" fs ?out] sw b1(3)
      obtain b' where "cross_steps Vec_emit p req order_id b1 (remaining - ?f) ?out =
          Inr (b', r, ?out @ fill_events req order_id (remaining - o_quantity x) fs)" "book_inv p b'"
        "book_ident b' = book_ident b1" "resting b' = (resting b1)(?s := q)" using f by auto
      ultimately show ?thesis using b1 res f by auto
    next
      case small: False
      then have f: "?f = remaining" by (simp add: min_def not_le less_imp_le)
      from small have lt: "remaining < o_quantity x" and ne: "o_quantity x \<noteq> remaining" by auto
      from pb.reduce_head [OF inv q lt] obtain b1 where b1: "reduce_top p b ?s remaining = Inr b1"
        "book_inv p b1" "resting b1 = (resting b)(?s := x\<lparr>o_quantity := o_quantity x - remaining\<rparr> # xs)"
        "book_ident b1 = book_ident b" by blast
      have "cross_steps Vec_emit p req order_id b remaining out = Inr (b1, 0, ?out)"
        using False peek sub b1(1) f ne
        by (subst cross_steps.simps) (simp add: Let_def Vec_emit_def cross_steps.simps [of _ _ _ _ b1])
      with Cons.prems(2) q False small b1 f show ?thesis by auto
    qed
  qed
qed

section \<open>Facts about the sweep\<close>

definition filled :: "(Order \<times> u64) list \<Rightarrow> nat" where
  "filled fs = sum_list (map (\<lambda>(x, n). unat n) fs)"

lemma filled_simps [simp]: "filled [] = 0" "filled ((x, n) # fs) = unat n + filled fs"
  by (simp_all add: filled_def)

lemma unat_minus_add: "(b :: u64) \<le> a \<Longrightarrow> unat (a - b) + unat b = unat a"
  by (simp add: unat_minus_le word_le_nat_alt)

lemma sweep_conserves:
  assumes "sweep cr remaining q = (fs, r, q')"
  shows "filled fs + unat r = unat remaining" and "volume q = filled fs + volume q'"
  using assms
proof (induction cr remaining q arbitrary: fs rule: sweep.induct)
  case (2 cr remaining x xs)
  note le = unat_minus_add [of "o_quantity x" remaining] unat_minus_add [of remaining "o_quantity x"]
  {
    case 1
    with "2.IH"(1) le show ?case by (auto split: if_splits prod.splits)
  next
    case 2
    with "2.IH"(2) le show ?case by (auto split: if_splits prod.splits simp: not_le less_imp_le)
  }
qed auto

lemma sweep_fill:
  assumes "sweep cr remaining q = (fs, r, q')" and "(x, n) \<in> set fs"
  shows "cr (o_price x) \<and> n \<le> o_quantity x \<and> n \<le> remaining"
  using assms
proof (induction cr remaining q arbitrary: fs rule: sweep.induct)
  case (2 cr remaining y ys)
  have "a - b \<le> a" if "b \<le> a" for a b :: u64
    using that by (simp add: word_le_nat_alt unat_minus_le)
  with 2 show ?case by (auto split: if_splits prod.splits simp: not_le less_imp_le) (meson order_trans)
qed auto

text \<open>Makers trade in queue order, all but the last one in full.\<close>

lemma sweep_prefix:
  assumes "sweep cr remaining q = (fs, r, q')"
  shows "map fst fs = take (length fs) q \<and>
    (\<forall>(x, n) \<in> set (butlast fs). n = o_quantity x) \<and>
    (q' = drop (length fs) q \<or>
     (\<exists>x n. fs \<noteq> [] \<and> last fs = (x, n) \<and> n < o_quantity x \<and> r = 0 \<and>
        q' = x\<lparr>o_quantity := o_quantity x - n\<rparr> # drop (length fs) q))"
  using assms
proof (induction cr remaining q arbitrary: fs rule: sweep.induct)
  case (2 cr remaining x xs)
  show ?case
  proof (cases "remaining = 0 \<or> \<not> cr (o_price x)")
    case False
    show ?thesis
    proof (cases "o_quantity x \<le> remaining")
      case True
      with False 2(2) obtain fs' where "sweep cr (remaining - o_quantity x) xs = (fs', r, q')"
        "fs = (x, o_quantity x) # fs'" by (auto split: prod.splits)
      with "2.IH" [OF False True, of fs'] show ?thesis by auto
    qed (use False 2(2) in auto)
  qed (use 2(2) in auto)
qed auto

lemma sweep_remainder:
  assumes "sweep cr remaining q = (fs, r, q')"
  shows "unat r = unat remaining - volume (takeWhile (\<lambda>x. cr (o_price x)) q)"
  using assms
proof (induction cr remaining q arbitrary: fs rule: sweep.induct)
  case (2 cr remaining x xs)
  then show ?case
    by (auto split: if_splits prod.splits simp: unat_minus_le word_le_nat_alt)
qed auto

lemma sweep_stops:
  assumes "sweep cr remaining q = (fs, r, q')" and "r \<noteq> 0"
  shows "q' = dropWhile (\<lambda>x. cr (o_price x)) q"
  using assms
  by (induction cr remaining q arbitrary: fs rule: sweep.induct) (auto split: if_splits prod.splits)

text \<open>What crosses is closed under better prices.\<close>

lemma crossing_mono:
  "rank (opposite s) a \<le> rank (opposite s) b \<Longrightarrow> crossing s pr b \<Longrightarrow> crossing s pr a"
  by (cases s) (auto simp: rank_def word_le_def)

lemma takeWhile_crossing:
  assumes "sorted (map (order_rank (opposite s)) q)"
  shows "takeWhile (\<lambda>x. crossing s pr (o_price x)) q = filter (\<lambda>x. crossing s pr (o_price x)) q"
  using assms
proof (induction q)
  case (Cons x xs)
  then show ?case
    by (auto simp: order_rank_def filter_empty_conv [symmetric] intro!: filter_False [symmetric]
        dest: crossing_mono)
qed simp

lemma dropWhile_crossing:
  assumes "sorted (map (order_rank (opposite s)) q)"
    and "y \<in> set (dropWhile (\<lambda>x. crossing s pr (o_price x)) q)"
  shows "\<not> crossing s pr (o_price y)"
  using assms
proof (induction q)
  case (Cons x xs)
  then show ?case
    by (cases "crossing s pr (o_price x)") (auto simp: order_rank_def dest: crossing_mono)
qed simp

end
