(* ===== verification/Match_Props.thy ===== *)
theory Match_Props
  imports Matching
begin

text \<open>
  The properties of the matcher: how far the fill-or-kill gate can be trusted, what a limit order
  does under each time-in-force, and the trading rules (price-time priority, maker's price, limit
  respected, quantity conserved, no book left crossed), and exactly when matching panics.
\<close>

section \<open>The fill-or-kill gate\<close>

text \<open>The volume the opposing queue offers at crossing prices.\<close>

definition crossing_volume :: "OrderBook \<Rightarrow> OrderRequest \<Rightarrow> nat" where
  "crossing_volume b req =
     volume (filter (\<lambda>x. crossing (rq_side req) (rq_price req) (o_price x)) (resting b (opposite (rq_side req))))"

lemma volume_by_price:
  assumes "finite K" and "o_price ` set q \<subseteq> K"
  shows "volume (filter (\<lambda>x. P (o_price x)) q) = (\<Sum>k \<in> {k \<in> K. P k}. volume (filter (\<lambda>x. o_price x = k) q))"
  using assms(2)
proof (induction q)
  case (Cons x xs)
  have "(\<Sum>k \<in> {k \<in> K. P k}. volume (filter (\<lambda>y. o_price y = k) (x # xs))) =
      (\<Sum>k \<in> {k \<in> K. P k}. (if o_price x = k then unat (o_quantity x) else 0) + volume (filter (\<lambda>y. o_price y = k) xs))"
    by (intro sum.cong) auto
  also have "\<dots> = (if P (o_price x) then unat (o_quantity x) else 0) +
      (\<Sum>k \<in> {k \<in> K. P k}. volume (filter (\<lambda>y. o_price y = k) xs))"
    using assms(1) Cons.prems by (auto simp: sum.distrib sum.delta')
  finally show ?case using Cons by simp
qed simp

lemma ladder_volume:
  assumes inv: "book_inv p b"
  shows "sum_list (map (level_volume b s) (filter P (price_ladder b s))) =
    volume (filter (\<lambda>x. P (o_price x)) (resting b s))"
proof -
  from inv obtain L where R: "book_rel p b L" by (rule book_invE)
  have "sorted_wrt (\<lambda>x y. rank s x < rank s y) (price_ladder b s)"
    using priority_levels_sorted [OF R, of s] by (simp add: ladder_levels [OF R])
  then have "distinct (price_ladder b s)"
    by (auto simp: distinct_conv_nth sorted_wrt_iff_nth_less) (metis less_irrefl linorder_neqE_nat)
  then have "sum_list (map (level_volume b s) (filter P (price_ladder b s))) =
      sum (level_volume b s) {k \<in> set (price_ladder b s). P k}"
    by (simp add: sum_list_distinct_conv_sum_set)
  also have "\<dots> = volume (filter (\<lambda>x. P (o_price x)) (resting b s))"
    using volume_by_price [of "set (price_ladder b s)" "resting b s" P]
    by (simp add: price_ladder_def level_volume_def)
  finally show ?thesis .
qed

lemma gate_sound:
  assumes "liquidity_loop p s pr required acc levels = Inr True"
  shows "unat required \<le> unat acc + sum_list (map (unat \<circ> snd) (takeWhile (\<lambda>(k, _). crossing s pr k) levels))"
  using assms
proof (induction p s pr required acc levels rule: liquidity_loop.induct)
  case (2 p s pr required acc k q levels)
  then obtain acc' where acc': "plus_u p acc q = Inr acc'" "crossing s pr k"
    by (auto simp: rbind_eq_Inr split: if_splits)
  then have le: "unat acc' \<le> unat acc + unat q"
    by (auto simp: plus_u_def unat_word_ariths split: if_splits)
  show ?case
  proof (cases "required \<le> acc'")
    case True
    then show ?thesis using le acc'(2) by (auto simp: word_le_nat_alt)
  next
    case False
    then show ?thesis using "2.IH" [OF _ acc'(1) False] 2(2) le acc' by auto
  qed
qed simp

lemma gate_exact:
  assumes "unat acc < unat required"
    and "unat acc + sum_list (map (unat \<circ> snd) (takeWhile (\<lambda>(k, _). crossing s pr k) levels)) < 2 ^ 64"
  shows "liquidity_loop p s pr required acc levels =
    Inr (unat required \<le> unat acc + sum_list (map (unat \<circ> snd) (takeWhile (\<lambda>(k, _). crossing s pr k) levels)))"
  using assms
proof (induction p s pr required acc levels rule: liquidity_loop.induct)
  case (2 p s pr required acc k q levels)
  show ?case
  proof (cases "crossing s pr k")
    case True
    with 2(3) have lt: "unat acc + unat q < 2 ^ 64" by simp
    then have acc': "plus_u p acc q = Inr (acc + q)" "unat (acc + q) = unat acc + unat q"
      by (auto intro: plus_u_ok unat_plus_no_overflow)
    show ?thesis
    proof (cases "required \<le> acc + q")
      case True
      then show ?thesis using acc' \<open>crossing s pr k\<close> by (auto simp: word_le_nat_alt)
    next
      case False
      then have "unat (acc + q) < unat required" by (simp add: word_le_nat_alt)
      from "2.IH" [OF _ acc'(1) False this] 2(3) True acc' False show ?thesis
        by (simp add: word_le_nat_alt add.assoc)
    qed
  qed (use 2(2) in simp)
qed simp

text \<open>Both directions of \<open>has_sufficient_liquidity\<close>, in terms of the opposing queue.\<close>

definition depth_of :: "OrderBook \<Rightarrow> Side \<Rightarrow> (u64 \<times> u64) list" where
  "depth_of b s = map (\<lambda>pr. (pr, of_nat (level_volume b s pr))) (price_ladder b s)"

lemma gate_depth:
  assumes inv: "book_inv p b"
  shows "has_sufficient_liquidity p' b req =
    liquidity_loop p' (rq_side req) (rq_price req) (rq_quantity req) 0 (depth_of b (opposite (rq_side req)))"
proof -
  from inv obtain L where R: "book_rel p b L" by (rule book_invE)
  have len: "length (price_ladder b s) \<le> unat usize_MAX" for s
    using length_ladder [of b s] resting_bounded [OF inv] by (cases s) auto
  have "ask_depth b usize_MAX = depth_of b Ask" "bid_depth b usize_MAX = depth_of b Bid"
    using depth_ladder [OF R, of Ask] depth_ladder [OF R, of Bid] len [of Ask] len [of Bid]
    by (simp_all add: ask_depth_def bid_depth_def depth_of_def priority_levels_def take_map [symmetric])
  then show ?thesis
    by (cases "rq_side req") (simp_all add: has_sufficient_liquidity_def liquidity_reaches_def)
qed

lemma crossing_depth:
  fixes req :: OrderRequest
  assumes inv: "book_inv p b"
  defines "s \<equiv> rq_side req"
  shows "takeWhile (\<lambda>(k, _). crossing s (rq_price req) k) (depth_of b (opposite s)) =
    map (\<lambda>pr. (pr, of_nat (level_volume b (opposite s) pr)))
      (filter (crossing s (rq_price req)) (price_ladder b (opposite s)))"
    (is "_ = map ?f (filter ?P ?l)")
proof -
  from inv obtain L where R: "book_rel p b L" by (rule book_invE)
  have srt: "sorted_wrt (\<lambda>x y. rank (opposite s) x < rank (opposite s) y) ?l"
    using priority_levels_sorted [OF R, of "opposite s"] by (simp add: ladder_levels [OF R])
  have "takeWhile ?P l = filter ?P l" if "sorted_wrt (\<lambda>x y. rank (opposite s) x < rank (opposite s) y) l" for l
    using that
  proof (induction l)
    case (Cons a l)
    have "\<not> ?P a \<Longrightarrow> filter ?P l = []"
      using Cons.prems by (auto simp: filter_empty_conv dest: crossing_mono [OF less_imp_le])
    with Cons show ?case by auto
  qed simp
  from this [OF srt] show ?thesis
    by (simp add: depth_of_def takeWhile_map comp_def)
qed

lemma fok_gate_sound:
  assumes inv: "book_inv p b" and "has_sufficient_liquidity p' b req = Inr True"
  shows "unat (rq_quantity req) \<le> crossing_volume b req"
proof -
  let ?s = "opposite (rq_side req)" and ?P = "crossing (rq_side req) (rq_price req)"
  have "unat (rq_quantity req) \<le>
      sum_list (map (\<lambda>pr. unat (of_nat (level_volume b ?s pr) :: u64)) (filter ?P (price_ladder b ?s)))"
    using gate_sound [OF assms(2) [unfolded gate_depth [OF inv]]]
    by (simp add: crossing_depth [OF inv] comp_def)
  also have "\<dots> \<le> sum_list (map (level_volume b ?s) (filter ?P (price_ladder b ?s)))"
    by (intro sum_list_mono) (simp add: unat_of_nat)
  finally show ?thesis by (simp add: ladder_volume [OF inv] crossing_volume_def)
qed

lemma fok_gate_exact:
  assumes inv: "book_inv p b" and "0 < rq_quantity req" and "crossing_volume b req < 2 ^ 64"
  shows "has_sufficient_liquidity p' b req = Inr (unat (rq_quantity req) \<le> crossing_volume b req)"
proof -
  let ?s = "opposite (rq_side req)" and ?P = "crossing (rq_side req) (rq_price req)"
  let ?ks = "filter ?P (price_ladder b ?s)"
  have tot: "sum_list (map (level_volume b ?s) ?ks) = crossing_volume b req"
    by (simp add: ladder_volume [OF inv] crossing_volume_def)
  have "level_volume b ?s k < 2 ^ 64" if "k \<in> set ?ks" for k
    using member_le_sum_list [of "level_volume b ?s k" "map (level_volume b ?s) ?ks"] that tot assms(3)
    by (auto intro: le_less_trans)
  then have "map (\<lambda>pr. unat (of_nat (level_volume b ?s pr) :: u64)) ?ks = map (level_volume b ?s) ?ks"
    by (intro map_cong) (auto intro: unat_of_nat_small)
  then have eq: "sum_list (map (unat \<circ> snd) (takeWhile (\<lambda>(k, _). ?P k) (depth_of b ?s))) = crossing_volume b req"
    unfolding crossing_depth [OF inv] map_map comp_def snd_conv using tot by metis
  show ?thesis
    unfolding gate_depth [OF inv]
    using assms(2,3) eq by (subst gate_exact) (simp_all add: word_less_nat_alt)
qed

section \<open>A limit order under each time-in-force\<close>

text \<open>The sweep of a request against a book.\<close>

definition sweep_of :: "OrderBook \<Rightarrow> OrderRequest \<Rightarrow> (Order \<times> u64) list \<times> u64 \<times> Order list" where
  "sweep_of b req = sweep (crossing (rq_side req) (rq_price req)) (rq_quantity req) (resting b (opposite (rq_side req)))"

lemma cross_loop_refines:
  assumes "book_inv p b" and "sweep_of b req = (fills, r, q)"
  shows "\<exists>b'. cross_loop Vec_emit p b req order_id out =
      Inr (b', r, out @ fill_events req order_id (rq_quantity req) fills) \<and>
    book_inv p b' \<and> book_ident b' = book_ident b \<and>
    resting b' = (resting b)(opposite (rq_side req) := q)"
  using cross_steps_refines [OF assms(1)] assms(2) by (simp add: sweep_of_def cross_loop_def)

lemma takeWhile_queue:
  assumes "book_inv p b"
  shows "volume (takeWhile (\<lambda>x. crossing (rq_side req) (rq_price req) (o_price x)) (resting b (opposite (rq_side req))))
    = crossing_volume b req"
  using takeWhile_crossing [OF pb.q_sorted [OF assms, of "opposite (rq_side req)"], of "rq_price req"]
  by (simp add: crossing_volume_def)

lemma sweep_of_remainder:
  assumes "book_inv p b" and "sweep_of b req = (fills, r, q)"
  shows "unat r = unat (rq_quantity req) - crossing_volume b req"
  using sweep_remainder assms(2) takeWhile_queue [OF assms(1)] by (auto simp: sweep_of_def)

text \<open>After a sweep that left something of the taker, nothing of the opposing queue crosses.\<close>

lemma sweep_of_clears:
  assumes "book_inv p b" and "sweep_of b req = (fills, r, q)" and "r \<noteq> 0" and "y \<in> set q"
  shows "\<not> crossing (rq_side req) (rq_price req) (o_price y)"
  using sweep_stops [OF assms(2) [unfolded sweep_of_def] assms(3)] assms(4)
    dropWhile_crossing [OF pb.q_sorted [OF assms(1), of "opposite (rq_side req)"]] by blast

lemma match_ioc:
  assumes inv: "book_inv p b" and sw: "sweep_of b req = (fills, r, q)" and tif: "rq_tif req = IOC"
  shows "\<exists>b'. match_limit Vec_emit p b req order_id out =
      Inr (b', out @ fill_events req order_id (rq_quantity req) fills @
             (if r = 0 then [] else [EvReject 0 InsufficientLiquidity r (rq_origin_ts req) (rq_intent_hash req)])) \<and>
    book_inv p b' \<and> book_ident b' = book_ident b \<and> resting b' = (resting b)(opposite (rq_side req) := q)"
  using cross_loop_refines [OF inv sw, of order_id out] tif
  by (auto simp: match_limit_def push_reject_def Vec_emit_def)

lemma match_fok_gate:
  assumes inv: "book_inv p b" and tif: "rq_tif req = FOK"
  shows "has_sufficient_liquidity p b req = Inr False \<Longrightarrow> match_limit Vec_emit p b req order_id out =
      Inr (b, out @ [EvReject 0 InsufficientLiquidity (rq_quantity req) (rq_origin_ts req) (rq_intent_hash req)])"
    and "has_sufficient_liquidity p b req = Inl e \<Longrightarrow> match_limit Vec_emit p b req order_id out = Inl e"
    and "has_sufficient_liquidity p b req = Inr True \<Longrightarrow> sweep_of b req = (fills, r, q) \<Longrightarrow>
      r = 0 \<and> (\<exists>b'. match_limit Vec_emit p b req order_id out =
        Inr (b', out @ fill_events req order_id (rq_quantity req) fills) \<and> book_inv p b' \<and>
        book_ident b' = book_ident b \<and> resting b' = (resting b)(opposite (rq_side req) := q))"
proof -
  show "has_sufficient_liquidity p b req = Inr False \<Longrightarrow> match_limit Vec_emit p b req order_id out =
      Inr (b, out @ [EvReject 0 InsufficientLiquidity (rq_quantity req) (rq_origin_ts req) (rq_intent_hash req)])"
    and "has_sufficient_liquidity p b req = Inl e \<Longrightarrow> match_limit Vec_emit p b req order_id out = Inl e"
    using tif by (simp_all add: match_limit_def push_reject_def Vec_emit_def)
  assume gate: "has_sufficient_liquidity p b req = Inr True" and sw: "sweep_of b req = (fills, r, q)"
  have "r = 0"
    using sweep_of_remainder [OF inv sw] fok_gate_sound [OF inv gate] by (simp add: unat_eq_zero)
  with cross_loop_refines [OF inv sw, of order_id out] gate tif show "r = 0 \<and> (\<exists>b'. match_limit Vec_emit p b req order_id out =
        Inr (b', out @ fill_events req order_id (rq_quantity req) fills) \<and> book_inv p b' \<and>
        book_ident b' = book_ident b \<and> resting b' = (resting b)(opposite (rq_side req) := q))"
    by (auto simp: match_limit_def)
qed

text \<open>The residual of a good-till-cancelled order: what \<open>insert\<close> says decides its event.\<close>

definition gtc_residual :: "profile \<Rightarrow> OrderBook \<Rightarrow> OrderRequest \<Rightarrow> u64 \<Rightarrow> u64 \<Rightarrow> OrderEvent list \<Rightarrow>
    (OrderBook \<times> OrderEvent list) res" where
  "gtc_residual p b req order_id r out =
     (if r = 0 then Inr (b, out)
      else if hash_resting b (rq_intent_hash req)
      then Inr (b, out @ [EvReject 0 RrDuplicateIntent r (rq_origin_ts req) (rq_intent_hash req)])
      else if \<not> has_room b
      then Inr (b, out @ [EvReject 0 SystemAtCapacity r (rq_origin_ts req) (rq_intent_hash req)])
      else rbind (OrderBook_insert p b (resting_order req order_id r))
             (\<lambda>(b2, _). Inr (b2, out @ [EvNew (resting_order req order_id r)])))"

lemma resting_order_simps [simp]:
  "o_intent_hash (resting_order req order_id r) = rq_intent_hash req"
  "o_side (resting_order req order_id r) = rq_side req"
  "o_price (resting_order req order_id r) = rq_price req"
  "o_quantity (resting_order req order_id r) = r"
  by (simp_all add: resting_order_def)

lemma match_gtc:
  assumes inv: "book_inv p b" and sw: "sweep_of b req = (fills, r, q)" and tif: "rq_tif req = GTC"
  obtains b1 where "book_inv p b1" and "book_ident b1 = book_ident b"
    and "resting b1 = (resting b)(opposite (rq_side req) := q)"
    and "match_limit Vec_emit p b req order_id out =
      gtc_residual p b1 req order_id r (out @ fill_events req order_id (rq_quantity req) fills)"
proof -
  let ?x = "resting_order req order_id r" and ?out = "out @ fill_events req order_id (rq_quantity req) fills"
  from cross_loop_refines [OF inv sw, of order_id out] obtain b1 where
    b1: "cross_loop Vec_emit p b req order_id out = Inr (b1, r, ?out)" "book_inv p b1"
    "book_ident b1 = book_ident b" "resting b1 = (resting b)(opposite (rq_side req) := q)" by blast
  note out = insert_outcomes [OF b1(2), of ?x, simplified]
  have "match_limit Vec_emit p b req order_id out = gtc_residual p b1 req order_id r ?out"
  proof (cases "r = 0 \<or> hash_resting b1 (rq_intent_hash req) \<or> \<not> has_room b1")
    case True
    then show ?thesis
      using b1(1) tif out(1,2) by (auto simp: match_limit_def gtc_residual_def push_reject_def Vec_emit_def)
  next
    case False
    then show ?thesis
      using b1(1) tif out(3,4)
      by (cases "fits p b1 ?x") (auto simp: match_limit_def gtc_residual_def push_reject_def Vec_emit_def)
  qed
  with b1 that show thesis by blast
qed

text \<open>Once the remainder is ready to rest, the only way to fail is a debug build's overflow check.\<close>

lemma gtc_residual_returns:
  assumes "book_inv p b" and "fits p b (resting_order req order_id r)"
  shows "\<exists>b' out'. gtc_residual p b req order_id r out = Inr (b', out')"
  using insert_outcomes(4) [OF assms(1) _ _ assms(2)] by (auto simp: gtc_residual_def)



lemma gtc_residual_queues:
  assumes inv: "book_inv p b" and res: "gtc_residual p b req order_id r out = Inr (b', out')"
  shows "book_inv p b' \<and> book_ident b' = book_ident b \<and>
    (resting b' = resting b \<or> r \<noteq> 0 \<and> resting b' = (resting b)
       (rq_side req := enqueue (rq_side req) (resting_order req order_id r) (resting b (rq_side req))))"
proof (cases "r = 0 \<or> hash_resting b (rq_intent_hash req) \<or> \<not> has_room b")
  case True
  with res inv show ?thesis by (auto simp: gtc_residual_def split: if_splits)
next
  case False
  with res obtain i where "OrderBook_insert p b (resting_order req order_id r) = Inr (b', i)"
    by (auto simp: gtc_residual_def rbind_eq_Inr)
  with insert_outcomes(3,4) [OF inv, of "resting_order req order_id r"] False show ?thesis
    by (cases "fits p b (resting_order req order_id r)") auto
qed

section \<open>No crossed book, and when a match can panic\<close>

lemma sweep_prices:
  assumes "sweep cr remaining q = (fs, r, q')"
  shows "o_price ` set q' \<subseteq> o_price ` set q"
  using assms
  by (induction cr remaining q arbitrary: fs rule: sweep.induct) (auto split: if_splits prod.splits)

lemma match_limit_queues:
  assumes inv: "book_inv p b" and sw: "sweep_of b req = (fills, r, q)"
    and res: "match_limit Vec_emit p b req order_id out = Inr (b', out')"
  shows "book_inv p b' \<and> book_ident b' = book_ident b \<and>
    (resting b' = resting b \<or> resting b' = (resting b)(opposite (rq_side req) := q) \<or>
     r \<noteq> 0 \<and> resting b' = (resting b)(opposite (rq_side req) := q,
       rq_side req := enqueue (rq_side req) (resting_order req order_id r) (resting b (rq_side req))))"
proof (cases "rq_tif req")
  case GTC
  have "opposite (rq_side req) \<noteq> rq_side req" by (cases "rq_side req") simp_all
  moreover from match_gtc [OF inv sw GTC, of order_id out] obtain b1 where b1: "book_inv p b1"
    "book_ident b1 = book_ident b" "resting b1 = (resting b)(opposite (rq_side req) := q)"
    "match_limit Vec_emit p b req order_id out =
      gtc_residual p b1 req order_id r (out @ fill_events req order_id (rq_quantity req) fills)" .
  ultimately show ?thesis using gtc_residual_queues [OF b1(1) res [unfolded b1(4)]] by auto
next
  case IOC
  from match_ioc [OF inv sw IOC, of order_id out] res show ?thesis by auto
next
  case FOK
  show ?thesis
  proof (cases "has_sufficient_liquidity p b req")
    case (Inl e)
    with match_fok_gate(2) [OF inv FOK Inl] res show ?thesis by simp
  next
    case (Inr ok)
    show ?thesis
    proof (cases ok)
      case True
      with match_fok_gate(3) [OF inv FOK _ sw, of order_id out] Inr res show ?thesis by auto
    next
      case False
      with match_fok_gate(1) [OF inv FOK, of order_id out] Inr res inv show ?thesis by auto
    qed
  qed
qed

lemma crossed_sides:
  assumes "book_inv p b"
  shows "is_crossed b \<longleftrightarrow> (\<exists>x \<in> set (resting b s). \<exists>y \<in> set (resting b (opposite s)). crossing s (o_price x) (o_price y))"
  unfolding is_crossed_iff [OF assms] by (cases s) auto

lemma match_limit_uncrossed:
  assumes inv: "book_inv p b" and unc: "\<not> is_crossed b"
    and res: "match_limit Vec_emit p b req order_id out = Inr (b', out')"
  shows "book_inv p b' \<and> book_ident b' = book_ident b \<and> \<not> is_crossed b'"
proof -
  let ?s = "rq_side req" and ?t = "opposite (rq_side req)"
  have ne: "?t \<noteq> ?s" by (cases ?s) simp_all
  obtain fills r q where sw: "sweep_of b req = (fills, r, q)" by (metis prod_cases3)
  note mq = match_limit_queues [OF inv sw res]
  then have inv': "book_inv p b'" by simp
  have old: "\<not> crossing ?s (o_price x) (o_price y)" if "x \<in> set (resting b ?s)" "y \<in> set (resting b ?t)" for x y
    using unc that crossed_sides [OF inv, of ?s] by blast
  have q: "\<not> crossing ?s (o_price x) (o_price y)" if x: "x \<in> set (resting b ?s)" and "y \<in> set q" for x y
  proof -
    from that(2) sweep_prices [OF sw [unfolded sweep_of_def]] obtain z where "z \<in> set (resting b ?t)" "o_price z = o_price y"
      by (metis (no_types, lifting) imageE image_eqI subsetD)
    with old [OF x] show ?thesis by metis
  qed
  have new: "\<not> crossing ?s (o_price (resting_order req order_id r)) (o_price y)" if "r \<noteq> 0" "y \<in> set q" for y
    using sweep_of_clears [OF inv sw that] by simp
  have "\<not> crossing ?s (o_price x) (o_price y)" if "x \<in> set (resting b' ?s)" "y \<in> set (resting b' ?t)" for x y
    using mq that old q new ne by (auto simp: set_enqueue split: if_splits)
  with crossed_sides [OF inv', of ?s] mq show ?thesis by blast
qed

lemma match_limit_returns:
  assumes inv: "book_inv p b" and qty: "0 < rq_quantity req"
    and bound: "p = Debug \<Longrightarrow>
      volume (resting b Bid) + volume (resting b Ask) + unat (rq_quantity req) < 2 ^ 64"
  shows "\<exists>b' out'. match_limit Vec_emit p b req order_id out = Inr (b', out')"
proof -
  let ?s = "rq_side req" and ?t = "opposite (rq_side req)"
  obtain fills r q where sw: "sweep_of b req = (fills, r, q)" by (metis prod_cases3)
  show ?thesis
  proof (cases "rq_tif req")
    case IOC
    from match_ioc [OF inv sw IOC, of order_id out] show ?thesis by blast
  next
    case FOK
    have "\<exists>ok. has_sufficient_liquidity p b req = Inr ok"
    proof (cases p)
      case Debug
      have "crossing_volume b req \<le> volume (resting b ?t)" by (simp add: crossing_volume_def volume_filter_le)
      also have "\<dots> \<le> volume (resting b Bid) + volume (resting b Ask)" by (cases ?t) simp_all
      finally have "crossing_volume b req < 2 ^ 64" using bound [OF Debug] by simp
      from fok_gate_exact [OF inv qty this] show ?thesis by blast
    next
      case Release
      have "\<exists>ok. liquidity_loop Release s pr required acc levels = Inr ok" for s pr required acc levels
        by (induction "Release" s pr required acc levels rule: liquidity_loop.induct) auto
      then show ?thesis by (simp add: gate_depth [OF inv] Release)
    qed
    then obtain ok where "has_sufficient_liquidity p b req = Inr ok" by blast
    with match_fok_gate(1) [OF inv FOK, of order_id out] match_fok_gate(3) [OF inv FOK _ sw, of order_id out]
    show ?thesis by (cases ok) auto
  next
    case GTC
    let ?x = "resting_order req order_id r"
    from match_gtc [OF inv sw GTC, of order_id out] obtain b1 where b1: "book_inv p b1"
      "resting b1 = (resting b)(?t := q)"
      "match_limit Vec_emit p b req order_id out =
        gtc_residual p b1 req order_id r (out @ fill_events req order_id (rq_quantity req) fills)" .
    have "unat r \<le> unat (rq_quantity req)" using sweep_of_remainder [OF inv sw] by simp
    moreover have "level_volume b1 ?s (rq_price req) \<le> volume (resting b Bid) + volume (resting b Ask)"
      using volume_filter_le [of _ "resting b ?s"] b1(2)
      by (cases ?s) (auto simp: level_volume_def intro: order_trans [OF volume_filter_le])
    ultimately have fits: "fits p b1 ?x"
      using bound by (auto simp: fits_def)
    from gtc_residual_returns [OF b1(1) fits] b1(3) show ?thesis by simp
  qed
qed

section \<open>When matching panics\<close>

text \<open>The running total of volumes \<open>vs\<close>, started at \<open>acc\<close>, passes 2^64 before it reaches
  \<open>required\<close>.\<close>

definition total_overflows :: "nat \<Rightarrow> nat \<Rightarrow> nat list \<Rightarrow> bool" where
  "total_overflows acc required vs \<longleftrightarrow>
     (\<exists>k < length vs. acc + sum_list (take k vs) < required \<and> 2 ^ 64 \<le> acc + sum_list (take (Suc k) vs))"

lemma total_overflows_simps [simp]:
  "\<not> total_overflows acc required []"
  "total_overflows acc required (v # vs) \<longleftrightarrow>
     acc < required \<and> 2 ^ 64 \<le> acc + v \<or> total_overflows (acc + v) required vs"
  unfolding total_overflows_def length_Cons Ex_less_Suc2 by (auto simp: add.assoc)

lemma total_overflows_reached: "required \<le> acc \<Longrightarrow> \<not> total_overflows acc required vs"
  by (auto simp: total_overflows_def)

lemma gate_overflows:
  assumes "acc < required"
  shows "(\<exists>f. liquidity_loop Debug s pr required acc levels = Inl f) \<longleftrightarrow>
    total_overflows (unat acc) (unat required) (map (unat \<circ> snd) (takeWhile (\<lambda>(k, _). crossing s pr k) levels))"
  using assms
proof (induction "Debug" s pr required acc levels rule: liquidity_loop.induct)
  case (2 s pr required acc k q levels)
  show ?case
  proof (cases "crossing s pr k \<and> unat acc + unat q < 2 ^ 64")
    case False
    with 2(2) total_overflows_reached show ?thesis by (auto simp: plus_u_def word_less_nat_alt)
  next
    case True
    then have acc': "plus_u Debug acc q = Inr (acc + q)" "unat (acc + q) = unat acc + unat q"
      by (auto intro: plus_u_ok unat_plus_no_overflow)
    show ?thesis
    proof (cases "required \<le> acc + q")
      case True
      with total_overflows_reached [of "unat required" "unat acc + unat q"] acc' \<open>crossing s pr k \<and> _\<close>
      show ?thesis by (auto simp: word_le_nat_alt)
    next
      case False
      with 2(1) [OF _ acc'(1) False] acc' True show ?thesis by simp
    qed
  qed
qed simp

lemma level_volume_bounded:
  assumes "book_inv Debug b"
  shows "level_volume b s pr < 2 ^ 64"
proof -
  from assms obtain L where R: "book_rel Debug b L" by (rule book_invE)
  show ?thesis
    using book_relD(5,6) [OF R, of s pr]
    by (cases "map_of (level_map b s) pr") (auto simp: level_ok_def queue_sum_volume [OF R, symmetric] queue_sum_def)
qed

text \<open>When matching a request overflows a \<open>u64\<close>: the accumulator of the fill-or-kill gate, added
  up level by level until it covers the request, or the total of the level that a
  good-till-cancelled remainder is about to join.\<close>

definition match_overflows :: "OrderBook \<Rightarrow> OrderRequest \<Rightarrow> bool" where
  "match_overflows b req \<longleftrightarrow> (case rq_tif req of
     IOC \<Rightarrow> False
   | FOK \<Rightarrow> total_overflows 0 (unat (rq_quantity req))
       (map (level_volume b (opposite (rq_side req)))
         (filter (crossing (rq_side req) (rq_price req)) (price_ladder b (opposite (rq_side req)))))
   | GTC \<Rightarrow> (let (fs, r, q) = sweep_of b req; swept = (resting b)(opposite (rq_side req) := q);
         remaining = swept Bid @ swept Ask
       in r \<noteq> 0 \<and> rq_intent_hash req \<notin> o_intent_hash ` set remaining \<and> length remaining < book_capacity b \<and>
          2 ^ 64 \<le> level_volume b (rq_side req) (rq_price req) + unat r))"

lemma gtc_residual_panics:
  assumes "book_inv p b"
  shows "(\<exists>f. gtc_residual p b req order_id r out = Inl f) \<longleftrightarrow> p = Debug \<and>
    r \<noteq> 0 \<and> rq_intent_hash req \<notin> o_intent_hash ` set (resting b Bid @ resting b Ask) \<and>
    length (resting b Bid @ resting b Ask) < book_capacity b \<and>
    2 ^ 64 \<le> level_volume b (rq_side req) (rq_price req) + unat r"
proof -
  let ?x = "resting_order req order_id r"
  have "(\<exists>f. gtc_residual p b req order_id r out = Inl f) \<longleftrightarrow>
      r \<noteq> 0 \<and> \<not> hash_resting b (rq_intent_hash req) \<and> has_room b \<and> \<not> fits p b ?x"
    using insert_outcomes(3,4) [OF assms, of ?x]
    by (cases "fits p b ?x") (auto simp: gtc_residual_def)
  then show ?thesis unfolding hash_resting_iff has_room_def fits_def by (auto simp: not_less)
qed

lemma match_limit_panics:
  assumes inv: "book_inv p b" and qty: "0 < rq_quantity req"
  shows "(\<exists>f. match_limit Vec_emit p b req order_id out = Inl f) \<longleftrightarrow> p = Debug \<and> match_overflows b req"
proof -
  let ?s = "rq_side req" and ?t = "opposite (rq_side req)"
  obtain fills r q where sw: "sweep_of b req = (fills, r, q)" by (metis prod_cases3)
  show ?thesis
  proof (cases "rq_tif req")
    case IOC
    from match_ioc [OF inv sw IOC, of order_id out] IOC show ?thesis by (auto simp: match_overflows_def)
  next
    case FOK
    have "(\<exists>f. match_limit Vec_emit p b req order_id out = Inl f) \<longleftrightarrow> (\<exists>f. has_sufficient_liquidity p b req = Inl f)"
    proof (cases "has_sufficient_liquidity p b req")
      case (Inr ok)
      with match_fok_gate(1) [OF inv FOK, of order_id out] match_fok_gate(3) [OF inv FOK _ sw, of order_id out]
      show ?thesis by (cases ok) auto
    qed (use match_fok_gate(2) [OF inv FOK] in auto)
    also have "\<dots> \<longleftrightarrow> p = Debug \<and> match_overflows b req"
    proof (cases p)
      case Debug
      have v: "unat (of_nat (level_volume b ?t k) :: u64) = level_volume b ?t k" for k
        using level_volume_bounded inv Debug by (intro unat_of_nat_small) simp
      show ?thesis
        using gate_overflows [OF qty, of ?s "rq_price req" "depth_of b ?t"] Debug FOK
        by (simp add: gate_depth [OF inv] crossing_depth [OF inv] match_overflows_def comp_def v)
    next
      case Release
      with match_limit_returns [OF inv qty, of order_id out] calculation show ?thesis by auto
    qed
    finally show ?thesis .
  next
    case GTC
    from match_gtc [OF inv sw GTC, of order_id out] obtain b1 where b1: "book_inv p b1" "book_ident b1 = book_ident b"
      "resting b1 = (resting b)(?t := q)"
      "match_limit Vec_emit p b req order_id out =
        gtc_residual p b1 req order_id r (out @ fill_events req order_id (rq_quantity req) fills)" .
    have "?t \<noteq> ?s" by (cases ?s) simp_all
    then have "level_volume b1 ?s (rq_price req) = level_volume b ?s (rq_price req)"
      by (simp add: level_volume_def b1(3))
    with b1(2) GTC sw show ?thesis
      unfolding b1(4) gtc_residual_panics [OF b1(1)] unfolding b1(3)
      by (simp add: match_overflows_def Let_def book_ident_def)
  qed
qed

section \<open>A sample request\<close>

text \<open>The requests the unit tests of \<open>engine.rs\<close> build.\<close>

definition test_req :: "Side \<Rightarrow> u64 \<Rightarrow> u64 \<Rightarrow> TimeInForce \<Rightarrow> RequestType \<Rightarrow> u8 \<Rightarrow> OrderRequest" where
  "test_req side price qty tif request_type hash_byte =
     \<lparr>rq_price = price, rq_quantity = qty, rq_origin_ts = 1000, rq_instrument_id = 1, rq_side = side,
      rq_order_type = Limit, rq_tif = tif, rq_request_type = request_type,
      rq_intent_hash = IntentHash (hash_byte # replicate 31 0)\<rparr>"

lemma test_req_simps [simp]:
  "rq_price (test_req s pr q t ty h) = pr" "rq_quantity (test_req s pr q t ty h) = q"
  "rq_side (test_req s pr q t ty h) = s" "rq_tif (test_req s pr q t ty h) = t"
  "rq_request_type (test_req s pr q t ty h) = ty" "rq_instrument_id (test_req s pr q t ty h) = 1"
  "rq_intent_hash (test_req s pr q t ty h) = IntentHash (h # replicate 31 0)"
  by (simp_all add: test_req_def)

lemma ask_book_sample:
  obtains b where "book_reach p 1 64 b" and "book_inv p b"
    and "resting b = (\<lambda>_. [])(Ask := [make_order 100 10 Ask 1])" and "book_ident b = (1, 64)"
proof -
  obtain b where b: "book_reach p 1 64 b" "resting b = (\<lambda>_. [])(Ask := [make_order 100 10 Ask 1])"
    "book_ident b = (1, 64)" by (rule one_order_sample [of 10 p Ask 100 1]) simp_all
  with book_reach_inv [OF b(1)] that show thesis by simp
qed

section \<open>Properties\<close>

text \<open>The traded quantity an event reports.\<close>

fun fill_qty_of :: "OrderEvent \<Rightarrow> nat" where
  "fill_qty_of (EvFill i q pr ts h) = unat q"
| "fill_qty_of (EvPartialFill i q pr r ts h) = unat q"
| "fill_qty_of _ = 0"

lemma fill_events_qty: "sum_list (map fill_qty_of (fill_events req order_id remaining fs)) = 2 * filled fs"
  by (induction req order_id remaining fs rule: fill_events.induct)
    (auto simp: taker_event_def maker_event_def)

text \<open>
  C1: price-time priority of matching. On a reachable book the cross loop always returns, and its
  trades are exactly this: the makers are a prefix of the opposing queue in priority order, each
  but the last is filled completely, each trade is at the maker's own price, which is within the
  taker's limit; and if anything of the taker is left, no order that is left on the opposing side
  crosses its limit. The taker's own side is untouched.
\<close>

theorem matching_price_time_priority:
  assumes "book_reach p inst cap b"
  shows "\<exists>b' r fs. cross_loop Vec_emit p b req order_id out =
      Inr (b', r, out @ fill_events req order_id (rq_quantity req) fs) \<and>
    map fst fs = take (length fs) (resting b (opposite (rq_side req))) \<and>
    (\<forall>(x, n) \<in> set (butlast fs). n = o_quantity x) \<and>
    (\<forall>(x, n) \<in> set fs. n \<le> o_quantity x \<and> crossing (rq_side req) (rq_price req) (o_price x)) \<and>
    (r \<noteq> 0 \<longrightarrow> (\<forall>y \<in> set (resting b' (opposite (rq_side req))).
       \<not> crossing (rq_side req) (rq_price req) (o_price y))) \<and>
    resting b' (rq_side req) = resting b (rq_side req)"
proof -
  have inv: "book_inv p b" using book_reach_inv [OF assms] by simp
  have side: "opposite (rq_side req) \<noteq> rq_side req" by (cases "rq_side req") simp_all
  obtain fs r q where sw: "sweep_of b req = (fs, r, q)" by (metis prod_cases3)
  note sw' = sw [unfolded sweep_of_def]
  from cross_loop_refines [OF inv sw, of order_id out] obtain b' where b': "cross_loop Vec_emit p b req order_id out =
      Inr (b', r, out @ fill_events req order_id (rq_quantity req) fs)"
    "resting b' = (resting b)(opposite (rq_side req) := q)" by blast
  have "\<forall>(x, n) \<in> set fs. n \<le> o_quantity x \<and> crossing (rq_side req) (rq_price req) (o_price x)"
    using sweep_fill [OF sw'] by blast
  moreover have "r \<noteq> 0 \<longrightarrow> (\<forall>y \<in> set (resting b' (opposite (rq_side req))).
      \<not> crossing (rq_side req) (rq_price req) (o_price y))"
    using sweep_of_clears [OF inv sw] b'(2) by simp
  ultimately show ?thesis using b' sweep_prefix [OF sw'] side by fastforce
qed

theorem matching_price_time_priority_witness:
  "\<exists>b b' r fs. book_reach Debug 1 64 b \<and>
     cross_loop Vec_emit Debug b (test_req Bid 105 4 GTC RqNew 2) 7 [] =
       Inr (b', r, fill_events (test_req Bid 105 4 GTC RqNew 2) 7 4 fs) \<and>
     map fst fs = take (length fs) [make_order 100 10 Ask 1] \<and> resting b' Bid = []"
proof -
  obtain b where b: "book_reach Debug 1 64 b" "resting b = (\<lambda>_. [])(Ask := [make_order 100 10 Ask 1])"
    by (rule ask_book_sample)
  from matching_price_time_priority [OF b(1), of "test_req Bid 105 4 GTC RqNew 2" 7 "[]"] b
  show ?thesis by fastforce
qed

text \<open>
  C16: quantity is conserved. The taker is never overfilled, the two fill events of the trades add
  up to twice what was traded, and the volume of the opposing side drops by exactly that amount.
\<close>

theorem matching_conserves_quantity:
  assumes "book_reach p inst cap b" and "cross_loop Vec_emit p b req order_id [] = Inr (b', r, evs)"
  shows "unat r \<le> unat (rq_quantity req) \<and>
    sum_list (map fill_qty_of evs) = 2 * (unat (rq_quantity req) - unat r) \<and>
    volume (resting b (opposite (rq_side req))) =
      volume (resting b' (opposite (rq_side req))) + (unat (rq_quantity req) - unat r)"
proof -
  have inv: "book_inv p b" using book_reach_inv [OF assms(1)] by simp
  obtain fs r0 q where sw: "sweep_of b req = (fs, r0, q)" by (metis prod_cases3)
  from cross_loop_refines [OF inv sw, of order_id "[]"] assms(2) have
    "r0 = r" "evs = fill_events req order_id (rq_quantity req) fs"
    "resting b' = (resting b)(opposite (rq_side req) := q)" by auto
  with sweep_conserves [OF sw [unfolded sweep_of_def]] show ?thesis
    by (simp add: fill_events_qty) linarith
qed

theorem matching_conserves_quantity_witness:
  "\<exists>b b' r evs. book_reach Debug 1 64 b \<and>
     cross_loop Vec_emit Debug b (test_req Bid 105 4 GTC RqNew 2) 7 [] = Inr (b', r, evs) \<and>
     10 = volume (resting b' Ask) + (4 - unat r)"
proof -
  obtain b where b: "book_reach Debug 1 64 b" "book_inv Debug b"
    "resting b = (\<lambda>_. [])(Ask := [make_order 100 10 Ask 1])" by (rule ask_book_sample)
  let ?r = "test_req Bid 105 4 GTC RqNew 2"
  obtain fs r q where "sweep_of b ?r = (fs, r, q)" by (metis prod_cases3)
  from cross_loop_refines [OF b(2) this, of 7 "[]"] obtain b' evs
    where b': "cross_loop Vec_emit Debug b ?r 7 [] = Inr (b', r, evs)" by auto
  from matching_conserves_quantity [OF b(1) b'] b b' show ?thesis by fastforce
qed

text \<open>
  C14: fill-or-kill is all or nothing, in both profiles and even when the gate's 64-bit
  accumulator wraps: whenever matching a FOK request returns, either the book is unchanged and the
  only event rejects the whole quantity, or the whole quantity traded, with no residual and no
  reject, and nothing rests.
\<close>

theorem fok_all_or_nothing:
  assumes "book_reach p inst cap b" and "rq_tif req = FOK"
    and "match_limit Vec_emit p b req order_id [] = Inr (b', evs)"
  shows "b' = b \<and> evs = [EvReject 0 InsufficientLiquidity (rq_quantity req) (rq_origin_ts req) (rq_intent_hash req)] \<or>
    sum_list (map fill_qty_of evs) = 2 * unat (rq_quantity req) \<and>
    (\<exists>fs. evs = fill_events req order_id (rq_quantity req) fs) \<and>
    volume (resting b (opposite (rq_side req))) =
      volume (resting b' (opposite (rq_side req))) + unat (rq_quantity req) \<and>
    resting b' (rq_side req) = resting b (rq_side req)"
proof -
  have inv: "book_inv p b" using book_reach_inv [OF assms(1)] by simp
  have side: "opposite (rq_side req) \<noteq> rq_side req" by (cases "rq_side req") simp_all
  obtain fs r q where sw: "sweep_of b req = (fs, r, q)" by (metis prod_cases3)
  note gate = match_fok_gate [OF inv assms(2)]
  consider e where "has_sufficient_liquidity p b req = Inl e" | "has_sufficient_liquidity p b req = Inr False"
    | "has_sufficient_liquidity p b req = Inr True" by (metis sum.exhaust)
  then show ?thesis
  proof cases
    case 1
    from gate(2) [OF 1] assms(3) show ?thesis by simp
  next
    case 2
    from gate(1) [OF 2, of order_id "[]"] assms(3) show ?thesis by simp
  next
    case 3
    from gate(3) [OF 3 sw, of order_id "[]"] assms(3) have r: "r = 0"
      "evs = fill_events req order_id (rq_quantity req) fs"
      "resting b' = (resting b)(opposite (rq_side req) := q)" by auto
    with sweep_conserves [OF sw [unfolded sweep_of_def]] side show ?thesis
      by (auto simp: fill_events_qty)
  qed
qed

theorem fok_all_or_nothing_witness:
  "\<exists>b. book_reach Debug 1 64 b \<and> (\<exists>b' evs. match_limit Vec_emit Debug b (test_req Bid 105 11 FOK RqNew 2) 7 [] =
     Inr (b', evs) \<and> (b' = b \<or> sum_list (map fill_qty_of evs) = 22))"
proof -
  obtain b where b: "book_reach Debug 1 64 b" "book_inv Debug b"
    "resting b = (\<lambda>_. [])(Ask := [make_order 100 10 Ask 1])" by (rule ask_book_sample)
  let ?r = "test_req Bid 105 11 FOK RqNew 2"
  from match_limit_returns [OF b(2), of ?r 7 "[]"] b(3) obtain b' evs
    where m: "match_limit Vec_emit Debug b ?r 7 [] = Inr (b', evs)" by auto
  have "b' = b \<or> sum_list (map fill_qty_of evs) = 22" using fok_all_or_nothing [OF b(1) _ m] by auto
  with b(1) m show ?thesis by blast
qed

text \<open>
  The fill-or-kill gate decides correctly as long as the volume at crossing prices fits in 64
  bits: a FOK request of positive quantity trades in full when the crossing volume reaches its
  quantity and is rejected otherwise, with no panic in either profile.
\<close>

theorem fok_decides_by_volume:
  assumes "book_reach p inst cap b" and "rq_tif req = FOK" and "0 < rq_quantity req"
    and "crossing_volume b req < 2 ^ 64"
  shows "\<exists>b' evs. match_limit Vec_emit p b req order_id [] = Inr (b', evs) \<and>
    (if unat (rq_quantity req) \<le> crossing_volume b req
     then sum_list (map fill_qty_of evs) = 2 * unat (rq_quantity req)
     else b' = b \<and> evs = [EvReject 0 InsufficientLiquidity (rq_quantity req) (rq_origin_ts req) (rq_intent_hash req)])"
proof -
  have inv: "book_inv p b" using book_reach_inv [OF assms(1)] by simp
  obtain fs r q where sw: "sweep_of b req = (fs, r, q)" by (metis prod_cases3)
  note gate = match_fok_gate [OF inv assms(2)] and ex = fok_gate_exact [OF inv assms(3,4), of p]
  show ?thesis
  proof (cases "unat (rq_quantity req) \<le> crossing_volume b req")
    case True
    with gate(3) [OF _ sw, of order_id "[]"] ex sweep_conserves(1) [OF sw [unfolded sweep_of_def]]
    show ?thesis by (auto simp: fill_events_qty)
  next
    case False
    with gate(1) [of order_id "[]"] ex show ?thesis by simp
  qed
qed

theorem fok_decides_by_volume_witness:
  "\<exists>b b' evs. book_reach Debug 1 64 b \<and>
     match_limit Vec_emit Debug b (test_req Bid 105 10 FOK RqNew 2) 7 [] = Inr (b', evs) \<and>
     sum_list (map fill_qty_of evs) = 20"
proof -
  obtain b where b: "book_reach Debug 1 64 b" "resting b = (\<lambda>_. [])(Ask := [make_order 100 10 Ask 1])"
    by (rule ask_book_sample)
  have "crossing_volume b (test_req Bid 105 10 FOK RqNew 2) = 10" using b(2) by (simp add: crossing_volume_def)
  with fok_decides_by_volume [OF b(1), of "test_req Bid 105 10 FOK RqNew 2" 7] b(1) show ?thesis by auto
qed

text \<open>
  Immediate-or-cancel never rests. The request trades what crosses, the unfilled remainder (if
  any) is rejected with \<open>InsufficientLiquidity\<close> and its exact quantity, and the taker's own side
  of the book is untouched, in both profiles and without a panic.
\<close>

theorem ioc_never_rests:
  assumes "book_reach p inst cap b" and "rq_tif req = IOC"
  shows "\<exists>b' fs r. match_limit Vec_emit p b req order_id [] =
      Inr (b', fill_events req order_id (rq_quantity req) fs @
             (if r = 0 then [] else [EvReject 0 InsufficientLiquidity r (rq_origin_ts req) (rq_intent_hash req)])) \<and>
    filled fs + unat r = unat (rq_quantity req) \<and>
    unat r = unat (rq_quantity req) - crossing_volume b req \<and>
    resting b' (rq_side req) = resting b (rq_side req)"
proof -
  have inv: "book_inv p b" using book_reach_inv [OF assms(1)] by simp
  have side: "opposite (rq_side req) \<noteq> rq_side req" by (cases "rq_side req") simp_all
  obtain fs r q where sw: "sweep_of b req = (fs, r, q)" by (metis prod_cases3)
  from match_ioc [OF inv sw assms(2), of order_id "[]"] sweep_conserves(1) [OF sw [unfolded sweep_of_def]]
    sweep_of_remainder [OF inv sw] side
  show ?thesis by fastforce
qed

theorem ioc_never_rests_witness:
  "\<exists>b b' evs r. book_reach Release 1 64 b \<and>
     match_limit Vec_emit Release b (test_req Bid 105 15 IOC RqNew 2) 7 [] = Inr (b', evs) \<and>
     r = 5 \<and> last evs = EvReject 0 InsufficientLiquidity r 1000 (IntentHash (2 # replicate 31 0)) \<and>
     resting b' Bid = []"
proof -
  obtain b where b: "book_reach Release 1 64 b" "resting b = (\<lambda>_. [])(Ask := [make_order 100 10 Ask 1])"
    by (rule ask_book_sample)
  let ?r = "test_req Bid 105 15 IOC RqNew 2"
  have "crossing_volume b ?r = 10" using b(2) by (simp add: crossing_volume_def)
  with ioc_never_rests [OF b(1), of ?r 7] obtain b' evs r where m:
    "match_limit Vec_emit Release b ?r 7 [] = Inr (b', evs)" "unat r = 5" "resting b' Bid = resting b Bid"
    "r \<noteq> 0 \<longrightarrow> last evs = EvReject 0 InsufficientLiquidity r (rq_origin_ts ?r) (rq_intent_hash ?r)" by fastforce
  then have "r = 5" by (simp add: word_unat_eq_iff)
  with m b show ?thesis by (auto simp: test_req_def)
qed



text \<open>
  C38: where the fill-or-kill gate errs. Its accumulator is a \<open>u64\<close> added with \<open>+=\<close>: on a
  reachable book whose two crossing levels hold \<open>2^63\<close> units each, a FOK request for
  \<open>2^63 + 1\<close> is rejected by a release build although the liquidity is there, and stops a debug
  build with an overflow panic.
\<close>

theorem fok_gate_overflow:
  "\<exists>b. let req = test_req Bid 101 9223372036854775809 FOK RqNew 9 in
     book_reach p 1 64 b \<and> unat (rq_quantity req) \<le> crossing_volume b req \<and>
     match_limit Vec_emit p b req 7 [] =
       (if p = Debug then Inl (Panic ''attempt to add with overflow'')
        else Inr (b, [EvReject 0 InsufficientLiquidity (rq_quantity req) 1000 (rq_intent_hash req)]))"
proof -
  let ?q = "9223372036854775808 :: u64" and ?req = "test_req Bid 101 9223372036854775809 FOK RqNew 9"
  let ?x = "make_order 100 ?q Ask 1" and ?y = "make_order 101 ?q Ask 2"
  obtain b0 where b0: "book_reach p 1 64 b0" "resting b0 = (\<lambda>_. [])(Ask := [?x])" "book_ident b0 = (1, 64)"
    by (rule one_order_sample [of ?q p Ask 100 1]) simp_all
  have free: "\<not> hash_resting b0 (o_intent_hash ?y)" "has_room b0" "fits p b0 ?y"
    using b0 by (auto simp: hash_resting_def has_room_def book_ident_def level_volume_def fits_def split: if_splits)
  from insert_outcomes(4) [OF _ free] book_reach_inv [OF b0(1)] obtain b i where b:
    "OrderBook_insert p b0 ?y = Inr (b, Inr i)" "book_inv p b"
    "resting b = (resting b0)(Ask := enqueue Ask ?y (resting b0 Ask))" by auto
  then have q: "resting b Ask = [?x, ?y]" using b0(2) by (simp add: enqueue_def order_rank_def rank_def)
  have reach: "book_reach p 1 64 b" by (rule reach_insert [OF b0(1) b(1)])
  have d: "depth_of b Ask = [(100, ?q), (101, ?q)]"
    by (simp add: depth_of_def price_ladder_def level_volume_def q)
  have gate: "has_sufficient_liquidity p b ?req =
      (if p = Debug then Inl (Panic ''attempt to add with overflow'') else Inr False)"
    by (simp add: gate_depth [OF b(2)] d plus_u_def)
  have "match_limit Vec_emit p b ?req 7 [] =
      (if p = Debug then Inl (Panic ''attempt to add with overflow'')
       else Inr (b, [EvReject 0 InsufficientLiquidity (rq_quantity ?req) 1000 (rq_intent_hash ?req)]))"
    using match_fok_gate(1,2) [OF b(2), of ?req] gate by (auto simp: test_req_def)
  moreover have "unat (rq_quantity ?req) \<le> crossing_volume b ?req"
    by (simp add: crossing_volume_def q)
  ultimately show ?thesis using reach by (auto simp: Let_def)
qed

text \<open>
  Matching preserves the market's sanity. If a reachable book is not crossed, then after
  matching any request it still satisfies the book invariant and is not crossed; and matching a
  request of positive quantity returns, without a panic, in a release build always and in a debug
  build whenever the resting volume and the request together fit in 64 bits.
\<close>

theorem match_limit_safe:
  assumes "book_reach p inst cap b" and "\<not> is_crossed b" and "0 < rq_quantity req"
    and "p = Debug \<longrightarrow> volume (resting b Bid) + volume (resting b Ask) + unat (rq_quantity req) < 2 ^ 64"
  shows "\<exists>b' evs. match_limit Vec_emit p b req order_id out = Inr (b', evs) \<and> book_inv p b' \<and> \<not> is_crossed b'"
proof -
  have inv: "book_inv p b" using book_reach_inv [OF assms(1)] by simp
  from match_limit_returns [OF inv assms(3), of order_id out] assms(4) obtain b' evs
    where m: "match_limit Vec_emit p b req order_id out = Inr (b', evs)" by auto
  with match_limit_uncrossed [OF inv assms(2) m] show ?thesis by blast
qed

theorem match_limit_safe_witness:
  "\<exists>b b' evs. book_reach Debug 1 64 b \<and>
     match_limit Vec_emit Debug b (test_req Bid 105 15 GTC RqNew 2) 7 [] = Inr (b', evs) \<and> \<not> is_crossed b'"
proof -
  obtain b where b: "book_reach Debug 1 64 b" "book_inv Debug b"
    "resting b = (\<lambda>_. [])(Ask := [make_order 100 10 Ask 1])" by (rule ask_book_sample)
  have "\<not> is_crossed b" by (simp add: is_crossed_iff [OF b(2)] b(3))
  from match_limit_safe [OF b(1) this, of "test_req Bid 105 15 GTC RqNew 2" 7 "[]"] b(1,3) show ?thesis by auto
qed

end
