(* ===== verification/Engine.thy ===== *)
theory Engine
  imports Match_Props
begin

text \<open>
  The multi-instrument matching engine of \<open>crates/matcher\<close>: \<open>engine.rs\<close> and the engine-level
  checker of \<open>invariants.rs\<close>. One book per registered instrument, order ids minted from one
  counter, events to a caller-supplied sink. \<open>engine_exec\<close> runs a sequence of calls, the
  interleavings a single-threaded caller can produce.
\<close>

section \<open>The engine\<close>

datatype AddInstrumentError = AlreadyRegistered | InvalidCapacity

record Engine =
  en_books :: "(u32, OrderBook) hash_map"
  en_next_order_id :: u64

definition Engine_new :: Engine where
  "Engine_new = \<lparr>en_books = [], en_next_order_id = 0\<rparr>"

definition add_instrument :: "Engine \<Rightarrow> u32 \<Rightarrow> u32 \<Rightarrow> (Engine \<times> (AddInstrumentError + unit)) res" where
  "add_instrument e instrument_id capacity =
     (if capacity = 0 \<or> capacity = MAX_CAPACITY then Inr (e, Inl InvalidCapacity)
      else if hm_contains_key (en_books e) instrument_id then Inr (e, Inl AlreadyRegistered)
      else rbind (OrderBook_new instrument_id capacity) (\<lambda>book.
        Inr (e\<lparr>en_books := hm_insert instrument_id book (en_books e)\<rparr>, Inr ())))"

definition Engine_book :: "Engine \<Rightarrow> u32 \<Rightarrow> OrderBook option" where
  "Engine_book e instrument_id = hm_get (en_books e) instrument_id"

definition mint_order_id :: "profile \<Rightarrow> Engine \<Rightarrow> (Engine \<times> u64) res" where
  "mint_order_id p e =
     (let i = en_next_order_id e in
      rbind (plus_u p (en_next_order_id e) 1) (\<lambda>n. Inr (e\<lparr>en_next_order_id := n\<rparr>, i)))"

definition process_new ::
  "('o \<Rightarrow> OrderEvent \<Rightarrow> 'o) \<Rightarrow> profile \<Rightarrow> Engine \<Rightarrow> OrderRequest \<Rightarrow> 'o \<Rightarrow> (Engine \<times> 'o) res" where
  "process_new emit p e req out =
     (if \<not> hm_contains_key (en_books e) (rq_instrument_id req)
      then Inr (e, push_reject emit UnknownInstrument (rq_quantity req) req out)
      else if rq_quantity req = 0
      then Inr (e, push_reject emit InvalidQuantity (rq_quantity req) req out)
      else if rq_price req = 0
      then Inr (e, push_reject emit InvalidPrice (rq_quantity req) req out)
      else
        rbind (mint_order_id p e) (\<lambda>(e1, order_id).
        rbind (expect ''invariant: book existence checked at step 1''
                 (hm_get (en_books e1) (rq_instrument_id req))) (\<lambda>book.
        rbind (match_limit emit p book req order_id out) (\<lambda>(book', out').
          Inr (e1\<lparr>en_books := hm_insert (rq_instrument_id req) book' (en_books e1)\<rparr>, out')))))"

definition process_cancel ::
  "('o \<Rightarrow> OrderEvent \<Rightarrow> 'o) \<Rightarrow> profile \<Rightarrow> Engine \<Rightarrow> OrderRequest \<Rightarrow> 'o \<Rightarrow> (Engine \<times> 'o) res" where
  "process_cancel emit p e req out =
     (case hm_get (en_books e) (rq_instrument_id req) of
        None \<Rightarrow> Inr (e, push_reject emit UnknownInstrument 0 req out)
      | Some book \<Rightarrow>
          rbind (OrderBook_cancel p book (rq_intent_hash req)) (\<lambda>(book', cancelled).
          let e' = e\<lparr>en_books := hm_insert (rq_instrument_id req) book' (en_books e)\<rparr> in
          case cancelled of
            Some order \<Rightarrow> Inr (e', push_cancel emit (order_id_0 (o_order_id order)) req out)
          | None \<Rightarrow> Inr (e', push_reject emit UnknownOrder 0 req out)))"

definition process_amend ::
  "('o \<Rightarrow> OrderEvent \<Rightarrow> 'o) \<Rightarrow> profile \<Rightarrow> Engine \<Rightarrow> OrderRequest \<Rightarrow> 'o \<Rightarrow> (Engine \<times> 'o) res" where
  "process_amend emit p e req out = Inl (Panic ''not yet implemented: amend deferred to later'')"

text \<open>\<open>assert_invariants\<close> of the matcher: M1, no book crossed at rest.\<close>

fun check_uncrossed :: "(u32 \<times> OrderBook) list \<Rightarrow> unit res" where
  "check_uncrossed [] = Inr ()"
| "check_uncrossed ((instrument_id, book) # bs) =
     rbind (assert_that (\<not> is_crossed book) ''M1 violated: book is crossed at rest'') (\<lambda>_.
       check_uncrossed bs)"

definition Engine_assert_invariants :: "Engine \<Rightarrow> unit res" where
  "Engine_assert_invariants e = check_uncrossed (en_books e)"

definition Engine_process ::
  "('o \<Rightarrow> OrderEvent \<Rightarrow> 'o) \<Rightarrow> profile \<Rightarrow> Engine \<Rightarrow> OrderRequest \<Rightarrow> 'o \<Rightarrow> (Engine \<times> 'o) res" where
  "Engine_process emit p e req out =
     rbind (case rq_request_type req of
              RqNew \<Rightarrow> process_new emit p e req out
            | RqCancel \<Rightarrow> process_cancel emit p e req out
            | RqAmend \<Rightarrow> process_amend emit p e req out) (\<lambda>(e', out').
     rbind (debug_only p (Engine_assert_invariants e')) (\<lambda>_. Inr (e', out')))"

section \<open>Runs\<close>

datatype command = AddInstrument u32 u32 | Process OrderRequest

fun engine_step :: "profile \<Rightarrow> Engine \<times> OrderEvent list \<Rightarrow> command \<Rightarrow> (Engine \<times> OrderEvent list) res" where
  "engine_step p (e, out) (AddInstrument i cap) = rbind (add_instrument e i cap) (\<lambda>(e', _). Inr (e', out))"
| "engine_step p (e, out) (Process req) = Engine_process Vec_emit p e req out"

fun engine_exec :: "profile \<Rightarrow> Engine \<times> OrderEvent list \<Rightarrow> command list \<Rightarrow> (Engine \<times> OrderEvent list) res" where
  "engine_exec p st [] = Inr st"
| "engine_exec p st (c # cs) = rbind (engine_step p st c) (\<lambda>st'. engine_exec p st' cs)"

section \<open>The invariant\<close>

definition engine_inv :: "profile \<Rightarrow> Engine \<Rightarrow> bool" where
  "engine_inv p e \<longleftrightarrow> hm_wf (en_books e) \<and>
     (\<forall>i b. map_of (en_books e) i = Some b \<longrightarrow>
        book_inv p b \<and> ob_instrument_id b = i \<and> \<not> is_crossed b)"

lemma engine_invD:
  assumes "engine_inv p e"
  shows "hm_wf (en_books e)"
    and "map_of (en_books e) i = Some b \<Longrightarrow> book_inv p b"
    and "map_of (en_books e) i = Some b \<Longrightarrow> ob_instrument_id b = i"
    and "map_of (en_books e) i = Some b \<Longrightarrow> \<not> is_crossed b"
  using assms by (auto simp: engine_inv_def)

lemma engine_inv_new: "engine_inv p Engine_new"
  by (simp add: engine_inv_def Engine_new_def)

lemma engine_inv_put:
  assumes "engine_inv p e" and "book_inv p b" and "ob_instrument_id b = i" and "\<not> is_crossed b"
  shows "engine_inv p (e\<lparr>en_books := hm_insert i b (en_books e), en_next_order_id := n\<rparr>)"
  using assms by (auto simp: engine_inv_def)

lemma engine_inv_id: "engine_inv p e \<Longrightarrow> engine_inv p (e\<lparr>en_next_order_id := n\<rparr>)"
  by (simp add: engine_inv_def)

lemma engine_check_ok:
  assumes "engine_inv p e"
  shows "Engine_assert_invariants e = Inr ()"
proof -
  have "check_uncrossed bs = Inr ()" if "\<forall>(i, b) \<in> set bs. \<not> is_crossed b" for bs
    using that by (induction bs rule: check_uncrossed.induct) auto
  moreover have "\<forall>(i, b) \<in> set (en_books e). \<not> is_crossed b"
    using engine_invD [OF assms] by (auto simp: hm_wf_def)
  ultimately show ?thesis by (simp add: Engine_assert_invariants_def)
qed

lemma debug_engine_check: "engine_inv p e \<Longrightarrow> debug_only q (Engine_assert_invariants e) = Inr ()"
  by (cases q) (simp_all add: engine_check_ok)

section \<open>What each call does\<close>

definition registered :: "Engine \<Rightarrow> u32 \<Rightarrow> bool" where
  "registered e i \<longleftrightarrow> map_of (en_books e) i \<noteq> None"

lemma add_instrument_outcomes:
  assumes "engine_inv p e"
  shows "cap = 0 \<or> cap = MAX_CAPACITY \<Longrightarrow> add_instrument e i cap = Inr (e, Inl InvalidCapacity)"
    and "cap \<noteq> 0 \<Longrightarrow> cap \<noteq> MAX_CAPACITY \<Longrightarrow> registered e i \<Longrightarrow> add_instrument e i cap = Inr (e, Inl AlreadyRegistered)"
    and "cap = u32_MAX \<Longrightarrow> \<not> registered e i \<Longrightarrow> add_instrument e i cap = Inl (Panic ''invalid capacity'')"
    and "0 < cap \<Longrightarrow> cap < MAX_CAPACITY \<Longrightarrow> \<not> registered e i \<Longrightarrow> \<exists>b e'. OrderBook_new i cap = Inr b \<and>
      add_instrument e i cap = Inr (e', Inr ()) \<and> e' = e\<lparr>en_books := hm_insert i b (en_books e)\<rparr> \<and> engine_inv p e'"
proof -
  show "cap = 0 \<or> cap = MAX_CAPACITY \<Longrightarrow> add_instrument e i cap = Inr (e, Inl InvalidCapacity)"
    by (auto simp: add_instrument_def)
  show "cap \<noteq> 0 \<Longrightarrow> cap \<noteq> MAX_CAPACITY \<Longrightarrow> registered e i \<Longrightarrow> add_instrument e i cap = Inr (e, Inl AlreadyRegistered)"
    by (auto simp: add_instrument_def registered_def)
  show "cap = u32_MAX \<Longrightarrow> \<not> registered e i \<Longrightarrow> add_instrument e i cap = Inl (Panic ''invalid capacity'')"
    by (simp add: add_instrument_def registered_def MAX_CAPACITY_def OrderBook_new_def Arena_new_invalid)
  assume cap: "0 < cap" "cap < MAX_CAPACITY" and free: "\<not> registered e i"
  have "MAX_CAPACITY < u32_MAX" by (simp add: MAX_CAPACITY_def)
  with cap(2) have "cap < u32_MAX" by (rule less_trans)
  with cap(1) obtain a :: "OrderNode Arena" where "Arena_new cap = Inr a" by (rule Arena_new_ok)
  then obtain b where b: "OrderBook_new i cap = Inr b" by (simp add: OrderBook_new_def)
  note R = OrderBook_new_rel [OF b]
  have inv: "book_inv p b" using R(1) by (auto simp: book_inv_def)
  have "\<not> is_crossed b" by (simp add: is_crossed_iff [OF inv] new_book_empty [OF b])
  with engine_inv_put [OF assms inv R(3), of "en_next_order_id e"] b cap free
  show "\<exists>b e'. OrderBook_new i cap = Inr b \<and> add_instrument e i cap = Inr (e', Inr ()) \<and>
      e' = e\<lparr>en_books := hm_insert i b (en_books e)\<rparr> \<and> engine_inv p e'"
    by (auto simp: add_instrument_def registered_def)
qed

lemma process_new_rejects:
  "\<not> registered e (rq_instrument_id req) \<Longrightarrow>
     process_new emit p e req out = Inr (e, push_reject emit UnknownInstrument (rq_quantity req) req out)"
  "registered e (rq_instrument_id req) \<Longrightarrow> rq_quantity req = 0 \<Longrightarrow>
     process_new emit p e req out = Inr (e, push_reject emit InvalidQuantity 0 req out)"
  "registered e (rq_instrument_id req) \<Longrightarrow> rq_quantity req \<noteq> 0 \<Longrightarrow> rq_price req = 0 \<Longrightarrow>
     process_new emit p e req out = Inr (e, push_reject emit InvalidPrice (rq_quantity req) req out)"
  by (auto simp: process_new_def registered_def)

lemma engine_update_commute:
  "e\<lparr>en_next_order_id := n, en_books := bs\<rparr> = e\<lparr>en_books := bs, en_next_order_id := n\<rparr>"
  by simp

lemma process_new_valid:
  assumes "map_of (en_books e) (rq_instrument_id req) = Some b" and "rq_quantity req \<noteq> 0" and "rq_price req \<noteq> 0"
  shows "process_new emit p e req out =
    rbind (plus_u p (en_next_order_id e) 1) (\<lambda>n.
    rbind (match_limit emit p b req (en_next_order_id e) out) (\<lambda>(b', out').
      Inr (e\<lparr>en_books := hm_insert (rq_instrument_id req) b' (en_books e), en_next_order_id := n\<rparr>, out')))"
proof (cases "plus_u p (en_next_order_id e) 1")
  case (Inr n)
  with assms show ?thesis by (simp add: process_new_def mint_order_id_def Let_def engine_update_commute)
qed (use assms in \<open>simp add: process_new_def mint_order_id_def Let_def\<close>)

lemma process_new_inv:
  assumes inv: "engine_inv p e" and res: "process_new Vec_emit p e req out = Inr (e', out')"
  shows "engine_inv p e' \<and> (\<forall>j. j \<noteq> rq_instrument_id req \<longrightarrow> map_of (en_books e') j = map_of (en_books e) j)"
proof (cases "registered e (rq_instrument_id req) \<and> rq_quantity req \<noteq> 0 \<and> rq_price req \<noteq> 0")
  case False
  then have "e' = e" using res process_new_rejects [of e req Vec_emit p out]
    by (cases "registered e (rq_instrument_id req)"; cases "rq_quantity req = 0") auto
  with inv show ?thesis by simp
next
  case True
  then obtain b where b: "map_of (en_books e) (rq_instrument_id req) = Some b" by (auto simp: registered_def)
  from res True obtain n b' where m: "match_limit Vec_emit p b req (en_next_order_id e) out = Inr (b', out')"
    and e': "e' = e\<lparr>en_books := hm_insert (rq_instrument_id req) b' (en_books e), en_next_order_id := n\<rparr>"
    by (auto simp: process_new_valid [OF b] rbind_eq_Inr)
  from match_limit_uncrossed [OF engine_invD(2,4) [OF inv b] m] engine_invD(3) [OF inv b]
  have "book_inv p b'" "ob_instrument_id b' = rq_instrument_id req" "\<not> is_crossed b'"
    by (auto simp: book_ident_def)
  from engine_inv_put [OF inv this, of n] e' show ?thesis by auto
qed

lemma process_cancel_outcomes:
  assumes inv: "engine_inv p e"
  shows "\<not> registered e (rq_instrument_id req) \<Longrightarrow>
      process_cancel emit p e req out = Inr (e, push_reject emit UnknownInstrument 0 req out)"
    and "map_of (en_books e) (rq_instrument_id req) = Some b \<Longrightarrow> \<not> hash_resting b (rq_intent_hash req) \<Longrightarrow>
      \<exists>e'. process_cancel emit p e req out = Inr (e', push_reject emit UnknownOrder 0 req out) \<and>
        map_of (en_books e') = map_of (en_books e) \<and> en_next_order_id e' = en_next_order_id e \<and> engine_inv p e'"
    and "map_of (en_books e) (rq_instrument_id req) = Some b \<Longrightarrow> hash_resting b (rq_intent_hash req) \<Longrightarrow>
      \<exists>x s b' e'. x \<in> set (resting b s) \<and> o_intent_hash x = rq_intent_hash req \<and>
        process_cancel emit p e req out = Inr (e', push_cancel emit (order_id_0 (o_order_id x)) req out) \<and>
        e' = e\<lparr>en_books := hm_insert (rq_instrument_id req) b' (en_books e)\<rparr> \<and> engine_inv p e' \<and>
        resting b' = (\<lambda>s. filter (\<lambda>y. o_intent_hash y \<noteq> rq_intent_hash req) (resting b s))"
proof -
  show "\<not> registered e (rq_instrument_id req) \<Longrightarrow>
      process_cancel emit p e req out = Inr (e, push_reject emit UnknownInstrument 0 req out)"
    by (simp add: process_cancel_def registered_def)
next
  assume b: "map_of (en_books e) (rq_instrument_id req) = Some b" and h: "\<not> hash_resting b (rq_intent_hash req)"
  let ?e = "e\<lparr>en_books := hm_insert (rq_instrument_id req) b (en_books e)\<rparr>"
  have same: "map_of (en_books ?e) = map_of (en_books e)" using b by auto
  then have "engine_inv p ?e" using inv by (auto simp: engine_inv_def)
  with same b cancel_outcomes(1) [OF engine_invD(2) [OF inv b] h]
  show "\<exists>e'. process_cancel emit p e req out = Inr (e', push_reject emit UnknownOrder 0 req out) \<and>
        map_of (en_books e') = map_of (en_books e) \<and> en_next_order_id e' = en_next_order_id e \<and> engine_inv p e'"
    by (intro exI [of _ ?e]) (simp add: process_cancel_def)
next
  assume b: "map_of (en_books e) (rq_instrument_id req) = Some b" and h: "hash_resting b (rq_intent_hash req)"
  note binv = engine_invD(2) [OF inv b]
  from cancel_outcomes(2) [OF binv h] obtain x b' s where x: "x \<in> set (resting b s)" "o_intent_hash x = rq_intent_hash req"
    "OrderBook_cancel p b (rq_intent_hash req) = Inr (b', Some x)" "book_inv p b'" "book_ident b' = book_ident b"
    "resting b' = (\<lambda>s. filter (\<lambda>y. o_intent_hash y \<noteq> rq_intent_hash req) (resting b s))" by blast
  have "\<not> is_crossed b'"
    using engine_invD(4) [OF inv b] by (simp add: is_crossed_iff [OF binv] is_crossed_iff [OF x(4)] x(6))
  with engine_inv_put [OF inv x(4), of "rq_instrument_id req" "en_next_order_id e"] x(5) engine_invD(3) [OF inv b]
  have "engine_inv p (e\<lparr>en_books := hm_insert (rq_instrument_id req) b' (en_books e)\<rparr>)" by (simp add: book_ident_def)
  with x b show "\<exists>x s b' e'. x \<in> set (resting b s) \<and> o_intent_hash x = rq_intent_hash req \<and>
        process_cancel emit p e req out = Inr (e', push_cancel emit (order_id_0 (o_order_id x)) req out) \<and>
        e' = e\<lparr>en_books := hm_insert (rq_instrument_id req) b' (en_books e)\<rparr> \<and> engine_inv p e' \<and>
        resting b' = (\<lambda>s. filter (\<lambda>y. o_intent_hash y \<noteq> rq_intent_hash req) (resting b s))"
    by (fastforce simp: process_cancel_def Let_def)
qed

lemma process_cancel_inv:
  assumes inv: "engine_inv p e" and res: "process_cancel Vec_emit p e req out = Inr (e', out')"
  shows "engine_inv p e' \<and> (\<forall>j. j \<noteq> rq_instrument_id req \<longrightarrow> map_of (en_books e') j = map_of (en_books e) j)"
proof (cases "map_of (en_books e) (rq_instrument_id req)")
  case None
  then have "e' = e" using process_cancel_outcomes(1) [OF inv, of req Vec_emit out] res by (simp add: registered_def)
  with inv show ?thesis by simp
next
  case (Some b)
  show ?thesis
    using process_cancel_outcomes(2,3) [OF inv Some, of Vec_emit out] res
    by (cases "hash_resting b (rq_intent_hash req)") auto
qed

lemma Engine_process_cases:
  assumes "Engine_process Vec_emit p e req out = Inr (e', out')"
  obtains (New) "rq_request_type req = RqNew" "process_new Vec_emit p e req out = Inr (e', out')"
  | (Cancel) "rq_request_type req = RqCancel" "process_cancel Vec_emit p e req out = Inr (e', out')"
  using assms by (cases "rq_request_type req") (auto simp: Engine_process_def rbind_eq_Inr process_amend_def)

lemma Engine_process_inv:
  assumes "engine_inv p e" and "Engine_process Vec_emit p e req out = Inr (e', out')"
  shows "engine_inv p e' \<and> (\<forall>j. j \<noteq> rq_instrument_id req \<longrightarrow> map_of (en_books e') j = map_of (en_books e) j)"
  using assms(2) process_new_inv [OF assms(1)] process_cancel_inv [OF assms(1)]
  by (cases rule: Engine_process_cases) blast+

lemma engine_step_inv:
  assumes "engine_inv p e" and "engine_step p (e, out) c = Inr (e', out')"
  shows "engine_inv p e'"
proof (cases c)
  case (AddInstrument i cap)
  consider "cap = 0 \<or> cap = MAX_CAPACITY" | "cap \<noteq> 0" "cap \<noteq> MAX_CAPACITY" "registered e i"
    | "cap = u32_MAX" "\<not> registered e i" | "0 < cap" "cap < MAX_CAPACITY" "\<not> registered e i"
  proof -
    have "cap < MAX_CAPACITY \<or> cap = MAX_CAPACITY \<or> cap = u32_MAX"
      using unat_u32_bound [of cap] by (auto simp: MAX_CAPACITY_def word_less_nat_alt word_unat_eq_iff)
    then show thesis using that by (metis word_gt_0)
  qed
  then show ?thesis
    using add_instrument_outcomes [OF assms(1), of cap i] AddInstrument assms by cases auto
next
  case (Process req)
  with assms Engine_process_inv show ?thesis by auto
qed

lemma engine_exec_inv:
  "engine_inv p e \<Longrightarrow> engine_exec p (e, out) cs = Inr (e', out') \<Longrightarrow> engine_inv p e'"
proof (induction cs arbitrary: e out)
  case (Cons c cs)
  then obtain e1 out1 where "engine_step p (e, out) c = Inr (e1, out1)" "engine_exec p (e1, out1) cs = Inr (e', out')"
    by (auto simp: rbind_eq_Inr)
  with Cons.IH engine_step_inv [OF Cons.prems(1)] show ?case by blast
qed simp

end
