(* ===== verification/Engine_Props.thy ===== *)
theory Engine_Props
  imports Engine
begin

text \<open>
  The properties of the matching engine over runs of calls: invariant M1, absence of panics,
  exactly when a request panics, isolation of instruments, validation, uniqueness of order ids,
  cancellation, and every outcome of registering an instrument.
\<close>

section \<open>Order ids\<close>

text \<open>An order resting in the book of an instrument.\<close>

definition live_order :: "Engine \<Rightarrow> u32 \<Rightarrow> Order \<Rightarrow> bool" where
  "live_order e i x \<longleftrightarrow> (\<exists>b s. map_of (en_books e) i = Some b \<and> x \<in> set (resting b s))"

abbreviation oid :: "Order \<Rightarrow> u64" where
  "oid x \<equiv> order_id_0 (o_order_id x)"

definition ids_inv :: "Engine \<Rightarrow> bool" where
  "ids_inv e \<longleftrightarrow>
     (\<forall>i x. live_order e i x \<longrightarrow> oid x < en_next_order_id e) \<and>
     (\<forall>i x j y. live_order e i x \<longrightarrow> live_order e j y \<longrightarrow> oid x = oid y \<longrightarrow>
        i = j \<and> o_intent_hash x = o_intent_hash y)"

lemma sweep_idents:
  assumes "sweep cr remaining q = (fs, r, q')" and "y \<in> set q'"
  shows "\<exists>z \<in> set q. oid z = oid y \<and> o_intent_hash z = o_intent_hash y"
  using assms
  by (induction cr remaining q arbitrary: fs rule: sweep.induct) (auto split: if_splits prod.splits)

text \<open>What matching can add to a book: a remainder under the minted id; the rest was there.\<close>

lemma match_limit_idents:
  assumes inv: "book_inv p b" and res: "match_limit Vec_emit p b req order_id out = Inr (b', out')"
    and y: "y \<in> set (resting b' s)"
  shows "(\<exists>z. z \<in> set (resting b Bid) \<union> set (resting b Ask) \<and> oid z = oid y \<and> o_intent_hash z = o_intent_hash y) \<or>
    oid y = order_id \<and> o_intent_hash y = rq_intent_hash req"
proof -
  let ?old = "set (resting b Bid) \<union> set (resting b Ask)"
  have mem: "set (resting b t) \<subseteq> ?old" for t by (cases t) auto
  obtain fs r q where sw: "sweep_of b req = (fs, r, q)" by (metis prod_cases3)
  have q: "\<exists>z \<in> ?old. oid z = oid y \<and> o_intent_hash z = o_intent_hash y" if "y \<in> set q"
    using sweep_idents [OF sw [unfolded sweep_of_def] that] mem by blast
  let ?x = "resting_order req order_id r"
  consider "y \<in> set (resting b s)" | "y \<in> set q" | "y = ?x" | t where "y \<in> set (resting b t)"
    using match_limit_queues [OF inv sw res] y by (auto simp: set_enqueue split: if_splits)
  then show ?thesis
  proof cases
    case 3
    then show ?thesis by (simp add: resting_order_def)
  qed (use q mem in blast)+
qed

lemma live_order_put:
  assumes "live_order (e\<lparr>en_books := hm_insert k b' (en_books e), en_next_order_id := n\<rparr>) i y"
  shows "i \<noteq> k \<and> live_order e i y \<or> i = k \<and> (\<exists>s. y \<in> set (resting b' s))"
  using assms by (auto simp: live_order_def split: if_splits)

lemma ids_inv_subset:
  assumes "ids_inv e" and "en_next_order_id e' = en_next_order_id e"
    and "\<And>i y. live_order e' i y \<Longrightarrow> \<exists>z. live_order e i z \<and> oid z = oid y \<and> o_intent_hash z = o_intent_hash y"
  shows "ids_inv e'"
  using assms unfolding ids_inv_def by metis

lemma ids_inv_fresh:
  assumes ids: "ids_inv e" and n: "en_next_order_id e < n" "en_next_order_id e' = n"
    and step: "\<And>i y. live_order e' i y \<Longrightarrow>
      (\<exists>z. live_order e i z \<and> oid z = oid y \<and> o_intent_hash z = o_intent_hash y) \<or>
      i = k \<and> oid y = en_next_order_id e \<and> o_intent_hash y = h"
  shows "ids_inv e'"
proof -
  have old: "oid x < en_next_order_id e" if "live_order e i x" for i x using ids that by (auto simp: ids_inv_def)
  have uni: "i = j \<and> o_intent_hash x = o_intent_hash y" if "live_order e i x" "live_order e j y" "oid x = oid y" for i x j y
    using ids that unfolding ids_inv_def by blast
  show ?thesis
    unfolding ids_inv_def
  proof (intro conjI allI impI)
    fix i x assume "live_order e' i x"
    from step [OF this] old n show "oid x < en_next_order_id e'" by (metis less_trans)
  next
    fix i x j y assume x: "live_order e' i x" and y: "live_order e' j y" and eq: "oid x = oid y"
    from step [OF x] step [OF y] show "i = j"
      by (elim disjE exE conjE) (metis eq uni old less_irrefl)+
    from step [OF x] step [OF y] show "o_intent_hash x = o_intent_hash y"
      by (elim disjE exE conjE) (metis eq uni old less_irrefl)+
  qed
qed

lemma step_ids:
  assumes inv: "engine_inv p e" and ids: "ids_inv e" and nowrap: "unat (en_next_order_id e) + 1 < 2 ^ 64"
    and res: "engine_step p (e, out) c = Inr (e', out')"
  shows "ids_inv e' \<and> unat (en_next_order_id e') \<le> unat (en_next_order_id e) + 1"
proof (cases c)
  case (AddInstrument i cap)
  with res obtain r where r: "add_instrument e i cap = Inr (e', r)" by (auto simp: rbind_eq_Inr)
  show ?thesis
  proof (cases "e' = e")
    case False
    with r obtain b where b: "OrderBook_new i cap = Inr b"
      "e' = e\<lparr>en_books := hm_insert i b (en_books e)\<rparr>"
      by (auto simp: add_instrument_def rbind_eq_Inr split: if_splits)
    have none: "y \<notin> set (resting b s)" for y s by (simp add: new_book_empty [OF b(1)])
    have "ids_inv e'"
    proof (rule ids_inv_subset [OF ids])
      show "\<exists>z. live_order e j z \<and> oid z = oid y \<and> o_intent_hash z = o_intent_hash y" if "live_order e' j y" for j y
        using that none live_order_put [where e = e and k = i and b' = b and n = "en_next_order_id e" and i = j and y = y] b(2) by auto
    qed (simp add: b(2))
    with b(2) show ?thesis by simp
  qed (use ids in simp)
next
  case (Process req)
  with res have pr: "Engine_process Vec_emit p e req out = Inr (e', out')" by simp
  let ?k = "rq_instrument_id req"
  from pr show ?thesis
  proof (cases rule: Engine_process_cases)
    case New
    show ?thesis
    proof (cases "registered e ?k \<and> rq_quantity req \<noteq> 0 \<and> rq_price req \<noteq> 0")
      case False
      then have "e' = e" using New(2) process_new_rejects [of e req Vec_emit p out]
        by (cases "registered e ?k"; cases "rq_quantity req = 0") auto
      with ids show ?thesis by simp
    next
      case True
      then obtain b where b: "map_of (en_books e) ?k = Some b" by (auto simp: registered_def)
      from New(2) True obtain n b' where n: "plus_u p (en_next_order_id e) 1 = Inr n"
        and m: "match_limit Vec_emit p b req (en_next_order_id e) out = Inr (b', out')"
        and e': "e' = e\<lparr>en_books := hm_insert ?k b' (en_books e), en_next_order_id := n\<rparr>"
        by (auto simp: process_new_valid [OF b] rbind_eq_Inr)
      have n': "unat n = unat (en_next_order_id e) + 1"
        using n nowrap by (auto simp: plus_u_def unat_plus_no_overflow split: if_splits)
      have "ids_inv e'"
      proof (rule ids_inv_fresh [OF ids, where n = n])
        show "(\<exists>z. live_order e i z \<and> oid z = oid y \<and> o_intent_hash z = o_intent_hash y) \<or>
            i = ?k \<and> oid y = en_next_order_id e \<and> o_intent_hash y = rq_intent_hash req" if l: "live_order e' i y" for i y
        proof (cases "i = ?k")
          case True
          with live_order_put [OF l [unfolded e']] obtain s where "y \<in> set (resting b' s)" by auto
          from match_limit_idents [OF engine_invD(2) [OF inv b] m this] True b show ?thesis
            by (fastforce simp: live_order_def)
        qed (use live_order_put [OF l [unfolded e']] in blast)
      qed (use n' e' in \<open>simp_all add: word_less_nat_alt\<close>)
      with e' n' show ?thesis by simp
    qed
  next
    case Cancel
    show ?thesis
    proof (cases "map_of (en_books e) ?k")
      case None
      then show ?thesis
        using process_cancel_outcomes(1) [OF inv, of req Vec_emit out] Cancel(2) ids by (simp add: registered_def)
    next
      case (Some b)
      show ?thesis
      proof (cases "hash_resting b (rq_intent_hash req)")
        case False
        with process_cancel_outcomes(2) [OF inv Some False, of Vec_emit out] Cancel(2) ids show ?thesis
          by (auto intro!: ids_inv_subset [OF ids] simp: live_order_def)
      next
        case True
        with process_cancel_outcomes(3) [OF inv Some True, of Vec_emit out] Cancel(2) obtain b' where
          e': "e' = e\<lparr>en_books := hm_insert ?k b' (en_books e)\<rparr>"
          "resting b' = (\<lambda>s. filter (\<lambda>y. o_intent_hash y \<noteq> rq_intent_hash req) (resting b s))" by auto
        then show ?thesis using Some
          by (auto intro!: ids_inv_subset [OF ids] simp: live_order_def split: if_splits)
      qed
    qed
  qed
qed

lemma exec_ids:
  assumes "engine_inv p e" and "ids_inv e" and "unat (en_next_order_id e) + length cs < 2 ^ 64"
    and "engine_exec p (e, out) cs = Inr (e', out')"
  shows "ids_inv e'"
  using assms
proof (induction cs arbitrary: e out)
  case (Cons c cs)
  then obtain e1 out1 where s: "engine_step p (e, out) c = Inr (e1, out1)" "engine_exec p (e1, out1) cs = Inr (e', out')"
    by (auto simp: rbind_eq_Inr)
  have "unat (en_next_order_id e) + 1 < 2 ^ 64" using Cons.prems(3) by simp
  from step_ids [OF Cons.prems(1,2) this s(1)] Cons.prems(3) have "ids_inv e1"
    "unat (en_next_order_id e1) + length cs < 2 ^ 64" by auto
  with Cons.IH [OF engine_step_inv [OF Cons.prems(1) s(1)] _ _ s(2)] show ?case by blast
qed simp

section \<open>Panics\<close>

text \<open>A simple sufficient condition for a request to be served: it is not an \<open>Amend\<close> and, in a debug
  build, the id counter and the whole volume of the book it goes to have room for it. The exact
  condition is \<open>process_panics\<close> below.\<close>

definition serviceable :: "profile \<Rightarrow> Engine \<Rightarrow> OrderRequest \<Rightarrow> bool" where
  "serviceable p e req \<longleftrightarrow> rq_request_type req \<noteq> RqAmend \<and>
     (p = Debug \<longrightarrow> unat (en_next_order_id e) + 1 < 2 ^ 64 \<and>
        (\<forall>b. map_of (en_books e) (rq_instrument_id req) = Some b \<longrightarrow>
           volume (resting b Bid) + volume (resting b Ask) + unat (rq_quantity req) < 2 ^ 64))"

lemma process_cancel_returns:
  assumes inv: "engine_inv p e"
  shows "\<exists>e' out'. process_cancel Vec_emit p e req out = Inr (e', out')"
proof (cases "map_of (en_books e) (rq_instrument_id req)")
  case None
  then show ?thesis using process_cancel_outcomes(1) [OF inv, of req Vec_emit out] by (simp add: registered_def)
next
  case (Some b)
  then show ?thesis using process_cancel_outcomes(2,3) [OF inv Some, of Vec_emit out]
    by (cases "hash_resting b (rq_intent_hash req)") auto
qed

lemma process_returns:
  assumes inv: "engine_inv p e" and srv: "serviceable p e req"
  shows "\<exists>e' out'. Engine_process Vec_emit p e req out = Inr (e', out')"
proof (cases "rq_request_type req")
  case RqNew
  have "\<exists>e' out'. process_new Vec_emit p e req out = Inr (e', out')"
  proof (cases "registered e (rq_instrument_id req) \<and> rq_quantity req \<noteq> 0 \<and> rq_price req \<noteq> 0")
    case False
    then show ?thesis using process_new_rejects [of e req Vec_emit p out]
      by (cases "registered e (rq_instrument_id req)"; cases "rq_quantity req = 0") auto
  next
    case True
    then obtain b where b: "map_of (en_books e) (rq_instrument_id req) = Some b" by (auto simp: registered_def)
    have "plus_u p (en_next_order_id e) 1 = Inr (en_next_order_id e + 1)"
      using srv by (intro plus_u_ok) (simp add: serviceable_def)
    moreover have "\<exists>b' out'. match_limit Vec_emit p b req (en_next_order_id e) out = Inr (b', out')"
      using True srv b by (intro match_limit_returns [OF engine_invD(2) [OF inv b]])
        (auto simp: serviceable_def word_gt_0)
    ultimately show ?thesis using True by (auto simp: process_new_valid [OF b])
  qed
  then obtain e' out' where e': "process_new Vec_emit p e req out = Inr (e', out')" by blast
  with process_new_inv [OF inv e'] RqNew show ?thesis by (auto simp: Engine_process_def debug_engine_check [of p])
next
  case RqCancel
  from process_cancel_returns [OF inv, of req out] obtain e' out' where
    e': "process_cancel Vec_emit p e req out = Inr (e', out')" by blast
  with process_cancel_inv [OF inv e'] RqCancel show ?thesis by (auto simp: Engine_process_def debug_engine_check [of p])
qed (use srv in \<open>simp add: serviceable_def\<close>)

text \<open>Exactly when a call of \<open>process\<close> panics.\<close>

lemma process_panics:
  assumes inv: "engine_inv p e"
  shows "(\<exists>f. Engine_process Vec_emit p e req out = Inl f) \<longleftrightarrow>
    rq_request_type req = RqAmend \<or>
    p = Debug \<and> rq_request_type req = RqNew \<and> rq_quantity req \<noteq> 0 \<and> rq_price req \<noteq> 0 \<and>
      (\<exists>b. map_of (en_books e) (rq_instrument_id req) = Some b \<and>
         (unat (en_next_order_id e) = 2 ^ 64 - 1 \<or> match_overflows b req))"
proof (cases "rq_request_type req")
  case RqNew
  have check: "(\<exists>f. Engine_process Vec_emit p e req out = Inl f) \<longleftrightarrow> (\<exists>f. process_new Vec_emit p e req out = Inl f)"
    using RqNew process_new_inv [OF inv, of req out]
    by (cases "process_new Vec_emit p e req out") (auto simp: Engine_process_def debug_engine_check [of p])
  show ?thesis
  proof (cases "registered e (rq_instrument_id req) \<and> rq_quantity req \<noteq> 0 \<and> rq_price req \<noteq> 0")
    case False
    then show ?thesis using check RqNew process_new_rejects [of e req Vec_emit p out]
      by (cases "registered e (rq_instrument_id req)"; cases "rq_quantity req = 0") (auto simp: registered_def)
  next
    case True
    then obtain b where b: "map_of (en_books e) (rq_instrument_id req) = Some b" by (auto simp: registered_def)
    have "(\<exists>f. plus_u p (en_next_order_id e) 1 = Inl f) \<longleftrightarrow> p = Debug \<and> unat (en_next_order_id e) = 2 ^ 64 - 1"
      using unat_u64_bound [of "en_next_order_id e"] by (auto simp: plus_u_def)
    moreover have "(\<exists>f. match_limit Vec_emit p b req (en_next_order_id e) out = Inl f) \<longleftrightarrow> p = Debug \<and> match_overflows b req"
      using True by (intro match_limit_panics [OF engine_invD(2) [OF inv b]]) (simp add: word_gt_0)
    ultimately show ?thesis
      using True b RqNew unfolding check process_new_valid [OF b conjunct1 [OF conjunct2 [OF True]] conjunct2 [OF conjunct2 [OF True]]]
      by (cases "plus_u p (en_next_order_id e) 1";
          cases "match_limit Vec_emit p b req (en_next_order_id e) out") auto
  qed
next
  case RqCancel
  with process_cancel_returns [OF inv, of req out] process_cancel_inv [OF inv, of req out] show ?thesis
    by (auto simp: Engine_process_def debug_engine_check [of p])
qed (simp add: Engine_process_def process_amend_def)

definition release_safe :: "command \<Rightarrow> bool" where
  "release_safe c = (case c of AddInstrument i cap \<Rightarrow> cap \<noteq> u32_MAX | Process req \<Rightarrow> rq_request_type req \<noteq> RqAmend)"

lemma release_step_returns:
  assumes inv: "engine_inv Release e" and c: "release_safe c"
  shows "\<exists>e' out'. engine_step Release (e, out) c = Inr (e', out')"
proof (cases c)
  case (AddInstrument i cap)
  have "\<exists>r. add_instrument e i cap = Inr r"
  proof (cases "cap = 0 \<or> cap = MAX_CAPACITY \<or> registered e i")
    case True
    then show ?thesis using add_instrument_outcomes(1,2) [OF inv, of cap i] by auto
  next
    case False
    have "cap < MAX_CAPACITY"
      using False c AddInstrument unat_u32_bound [of cap]
      by (auto simp: release_safe_def MAX_CAPACITY_def word_less_nat_alt word_unat_eq_iff)
    with False show ?thesis using add_instrument_outcomes(4) [OF inv, of cap i] by (auto simp: word_gt_0)
  qed
  with AddInstrument show ?thesis by auto
next
  case (Process req)
  with c process_returns [OF inv, of req out] show ?thesis by (simp add: serviceable_def release_safe_def)
qed

lemma release_exec_returns:
  assumes "engine_inv Release e" and "list_all release_safe cs"
  shows "\<exists>e' out'. engine_exec Release (e, out) cs = Inr (e', out')"
  using assms
proof (induction cs arbitrary: e out)
  case (Cons c cs)
  from release_step_returns [OF Cons.prems(1), of c out] Cons.prems(2) obtain e1 out1
    where s: "engine_step Release (e, out) c = Inr (e1, out1)" by auto
  with Cons.IH [OF engine_step_inv [OF Cons.prems(1) s]] Cons.prems(2) show ?case by auto
qed simp

section \<open>A sample engine\<close>

lemma sample_engine:
  obtains e b where "engine_exec p (Engine_new, []) [AddInstrument 1 64] = Inr (e, [])" and "engine_inv p e"
    and "en_next_order_id e = 0" and "map_of (en_books e) = [1 \<mapsto> b]" and "resting b = (\<lambda>_. [])"
    and "book_capacity b = 64"
proof -
  have "(0 :: u32) < 64" "(64 :: u32) < MAX_CAPACITY" "\<not> registered Engine_new 1"
    by (simp_all add: MAX_CAPACITY_def registered_def Engine_new_def)
  from add_instrument_outcomes(4) [OF engine_inv_new this] obtain b e where b: "OrderBook_new 1 64 = Inr b"
    "add_instrument Engine_new 1 64 = Inr (e, Inr ())" "e = Engine_new\<lparr>en_books := hm_insert 1 b (en_books Engine_new)\<rparr>"
    "engine_inv p e" by blast
  note new_book_empty [OF b(1)]
  moreover have "book_capacity b = 64" using book_reach_inv [OF reach_new [OF b(1)]] by (simp add: book_ident_def)
  moreover have "engine_exec p (Engine_new, []) [AddInstrument 1 64] = Inr (e, [])" using b(2) by simp
  ultimately show thesis using b(3,4) that by (auto simp: Engine_new_def)
qed

text \<open>The same engine after one ask has come to rest.\<close>

lemma sample_engine_ask:
  fixes p :: profile
  defines "x \<equiv> resting_order (test_req Ask 100 10 GTC RqNew 1) 0 10"
  obtains e b where "engine_exec p (Engine_new, []) [AddInstrument 1 64, Process (test_req Ask 100 10 GTC RqNew 1)]
      = Inr (e, [EvNew x])"
    and "engine_inv p e" and "map_of (en_books e) 1 = Some b" and "resting b = (\<lambda>_. [])(Ask := [x])"
    and "en_next_order_id e = 1" and "book_capacity b = 64"
proof -
  let ?r = "test_req Ask 100 10 GTC RqNew 1"
  obtain e0 b0 where e0: "engine_exec p (Engine_new, []) [AddInstrument 1 64] = Inr (e0, [])" "engine_inv p e0"
    "en_next_order_id e0 = 0" "map_of (en_books e0) = [1 \<mapsto> b0]" "resting b0 = (\<lambda>_. [])"
    "book_capacity b0 = 64" by (rule sample_engine)
  have b0: "map_of (en_books e0) (rq_instrument_id ?r) = Some b0" using e0(4) by simp
  note inv = engine_invD(2) [OF e0(2) b0]
  have "serviceable p e0 ?r" using e0 by (simp add: serviceable_def)
  from process_returns [OF e0(2) this, of "[]"] obtain e out where pr: "Engine_process Vec_emit p e0 ?r [] = Inr (e, out)"
    by blast
  then have new: "process_new Vec_emit p e0 ?r [] = Inr (e, out)" by (cases rule: Engine_process_cases) auto
  then obtain b where m: "match_limit Vec_emit p b0 ?r 0 [] = Inr (b, out)"
    and e: "e = e0\<lparr>en_books := hm_insert 1 b (en_books e0), en_next_order_id := 1\<rparr>"
    using e0(3) by (auto simp: process_new_valid [OF b0] rbind_eq_Inr plus_u_def)
  have sw: "sweep_of b0 ?r = ([], 10, [])" by (simp add: sweep_of_def e0(5))
  have tif: "rq_tif ?r = GTC" by simp
  from match_gtc [OF inv sw tif, of 0 "[]"] obtain b1 where b1: "book_inv p b1" "book_ident b1 = book_ident b0"
    "resting b1 = (resting b0)(opposite (rq_side ?r) := [])"
    "match_limit Vec_emit p b0 ?r 0 [] = gtc_residual p b1 ?r 0 10 ([] @ fill_events ?r 0 (rq_quantity ?r) [])" .
  then have q1: "resting b1 = (\<lambda>_. [])" and gtc: "gtc_residual p b1 ?r 0 10 [] = Inr (b, out)"
    using m e0(5) by auto
  have room: "has_room b1" "\<not> hash_resting b1 (rq_intent_hash ?r)" "fits p b1 x"
    using b1(2) q1 e0(6) by (auto simp: has_room_def hash_resting_def fits_def level_volume_def book_ident_def x_def)
  with insert_outcomes(4) [OF b1(1), of x] q1 gtc have "out = [EvNew x]" "resting b = (\<lambda>_. [])(Ask := [x])"
    "book_ident b = book_ident b0"
    using b1(2) by (auto simp: gtc_residual_def x_def enqueue_def)
  moreover have "engine_inv p e" using Engine_process_inv [OF e0(2) pr] by simp
  moreover have "engine_exec p (Engine_new, []) [AddInstrument 1 64, Process ?r] =
      rbind (engine_exec p (Engine_new, []) [AddInstrument 1 64]) (\<lambda>(e0, out0). Engine_process Vec_emit p e0 ?r out0)"
    by (auto simp: rbind_def split: sum.split)
  then have "engine_exec p (Engine_new, []) [AddInstrument 1 64, Process ?r] = Inr (e, out)"
    unfolding e0(1) using pr by simp
  ultimately show thesis using e e0(6) that [of e b] by (simp add: book_ident_def)
qed

section \<open>Properties\<close>

text \<open>
  C18: in a release build the engine never stops. Any sequence of calls, with any requests, runs to
  completion, unless it contains an \<open>Amend\<close> request or registers an instrument with capacity
  \<open>u32::MAX\<close>; and afterwards every book satisfies its invariant, belongs to the instrument it
  is registered under and is not crossed (M1).
\<close>

theorem release_engine_never_panics:
  assumes "list_all release_safe cs"
  shows "\<exists>e out. engine_exec Release (Engine_new, []) cs = Inr (e, out) \<and> engine_inv Release e"
  using release_exec_returns [OF engine_inv_new assms, of "[]"] engine_exec_inv [OF engine_inv_new] by blast

theorem release_engine_never_panics_witness:
  "\<exists>e out. engine_exec Release (Engine_new, [])
     [AddInstrument 1 64, Process (test_req Ask 100 10 GTC RqNew 1), Process (test_req Bid 100 4 IOC RqNew 2),
      Process (test_req Bid 0 0 FOK RqCancel 9)] = Inr (e, out) \<and> engine_inv Release e"
  by (rule release_engine_never_panics) (simp add: release_safe_def)

text \<open>
  C5: invariant M1 holds after every call of every run, in both profiles: each registered book is
  well formed, carries its own instrument id and is not crossed, so the checker at the tail of
  \<open>process\<close> never fires. The next request panics in exactly these cases: it is an \<open>Amend\<close>; or, in
  a debug build, it is a valid \<open>New\<close> for a registered instrument and the id counter is at
  \<open>u64::MAX\<close> or matching it overflows: for fill-or-kill the accumulator of the liquidity gate passes
  2^64 before it covers the quantity, for good-till-cancelled the remainder is about to rest at a
  level that would then hold 2^64 units or more, for immediate-or-cancel never.
\<close>

theorem engine_uncrossed_at_rest:
  assumes "engine_exec p (Engine_new, []) cs = Inr (e, out)"
  shows "engine_inv p e \<and> Engine_assert_invariants e = Inr () \<and>
    ((\<exists>f. Engine_process Vec_emit p e req out = Inl f) \<longleftrightarrow>
      rq_request_type req = RqAmend \<or>
      p = Debug \<and> rq_request_type req = RqNew \<and> rq_quantity req \<noteq> 0 \<and> rq_price req \<noteq> 0 \<and>
        (\<exists>b. Engine_book e (rq_instrument_id req) = Some b \<and>
           (unat (en_next_order_id e) = 2 ^ 64 - 1 \<or> match_overflows b req)))"
proof -
  have inv: "engine_inv p e" by (rule engine_exec_inv [OF engine_inv_new assms])
  then show ?thesis using engine_check_ok [OF inv] process_panics [OF inv, of req out] by (simp add: Engine_book_def)
qed

theorem engine_uncrossed_at_rest_witness:
  "\<exists>e out. engine_exec Debug (Engine_new, []) [AddInstrument 1 64, Process (test_req Ask 100 10 GTC RqNew 1)] = Inr (e, out) \<and>
     Engine_assert_invariants e = Inr () \<and>
     (\<exists>e' out'. Engine_process Vec_emit Debug e (test_req Bid 105 10 FOK RqNew 2) out = Inr (e', out')) \<and>
     (\<exists>f. Engine_process Vec_emit Debug e (test_req Ask 100 18446744073709551615 GTC RqNew 3) out = Inl f) \<and>
     (\<exists>f. Engine_process Vec_emit Debug e (test_req Bid 105 10 GTC RqAmend 4) out = Inl f)"
proof -
  obtain e b where e: "engine_exec Debug (Engine_new, []) [AddInstrument 1 64, Process (test_req Ask 100 10 GTC RqNew 1)]
      = Inr (e, [EvNew (resting_order (test_req Ask 100 10 GTC RqNew 1) 0 10)])"
    and inv: "engine_inv Debug e" and b: "map_of (en_books e) 1 = Some b"
    "resting b = (\<lambda>_. [])(Ask := [resting_order (test_req Ask 100 10 GTC RqNew 1) 0 10])" "en_next_order_id e = 1"
    and cap: "book_capacity b = 64" by (rule sample_engine_ask)
  note P = engine_uncrossed_at_rest [OF e]
  have "\<not> match_overflows b (test_req Bid 105 10 FOK RqNew 2)"
    using b by (simp add: match_overflows_def price_ladder_def level_volume_def)
  then have fok: "\<exists>e' out'. Engine_process Vec_emit Debug e (test_req Bid 105 10 FOK RqNew 2)
      [EvNew (resting_order (test_req Ask 100 10 GTC RqNew 1) 0 10)] = Inr (e', out')"
    using P [of "test_req Bid 105 10 FOK RqNew 2"] b by (simp add: Engine_book_def) (metis sum.exhaust surj_pair)
  have "match_overflows b (test_req Ask 100 18446744073709551615 GTC RqNew 3)"
    using b cap by (simp add: match_overflows_def level_volume_def sweep_of_def)
  with P [of "test_req Ask 100 18446744073709551615 GTC RqNew 3"] P [of "test_req Bid 105 10 GTC RqAmend 4"] b e fok
  show ?thesis by (auto simp: Engine_book_def)
qed

text \<open>
  Instruments are isolated. Serving a request changes no book but the one of the request's
  instrument.
\<close>

theorem instruments_isolated:
  assumes "engine_exec p (Engine_new, []) cs = Inr (e, out)"
    and "Engine_process Vec_emit p e req out = Inr (e', out')" and "j \<noteq> rq_instrument_id req"
  shows "Engine_book e' j = Engine_book e j"
  using Engine_process_inv [OF engine_exec_inv [OF engine_inv_new assms(1)] assms(2)] assms(3)
  by (simp add: Engine_book_def)

theorem instruments_isolated_witness:
  "\<exists>e e' out'. engine_exec Debug (Engine_new, []) [AddInstrument 1 64] = Inr (e, []) \<and>
     Engine_process Vec_emit Debug e (test_req Ask 100 10 GTC RqNew 1) [] = Inr (e', out') \<and>
     Engine_book e' 2 = Engine_book e 2"
proof -
  obtain e b where e: "engine_exec Debug (Engine_new, []) [AddInstrument 1 64] = Inr (e, [])" "engine_inv Debug e"
    "en_next_order_id e = 0" "map_of (en_books e) = [1 \<mapsto> b]" "resting b = (\<lambda>_. [])"
    by (rule sample_engine)
  then have "serviceable Debug e (test_req Ask 100 10 GTC RqNew 1)" by (simp add: serviceable_def)
  from process_returns [OF e(2) this, of "[]"] obtain e' out' where
    e': "Engine_process Vec_emit Debug e (test_req Ask 100 10 GTC RqNew 1) [] = Inr (e', out')" by blast
  from instruments_isolated [OF e(1) e', of 2] e(1) e' show ?thesis by auto
qed

text \<open>
  C23: order ids are unique. In a run of fewer than 2^64 calls two orders resting anywhere in the
  engine never share an order id, and every id in use is below the counter.
\<close>

theorem order_ids_unique:
  assumes "engine_exec p (Engine_new, []) cs = Inr (e, out)" and "length cs < 2 ^ 64"
    and "live_order e i x" and "live_order e j y" and "o_order_id x = o_order_id y"
  shows "i = j \<and> x = y \<and> oid x < en_next_order_id e"
proof -
  have inv: "engine_inv p e" by (rule engine_exec_inv [OF engine_inv_new assms(1)])
  have "ids_inv Engine_new" by (simp add: ids_inv_def live_order_def Engine_new_def)
  from exec_ids [OF engine_inv_new this _ assms(1)] assms(2) have ids: "ids_inv e" by (simp add: Engine_new_def)
  with assms(3-5) have i: "i = j" and h: "o_intent_hash x = o_intent_hash y" and lt: "oid x < en_next_order_id e"
    unfolding ids_inv_def by metis+
  from assms(3,4) i obtain b s t where b: "map_of (en_books e) i = Some b" "x \<in> set (resting b s)" "y \<in> set (resting b t)"
    by (auto simp: live_order_def)
  from engine_invD(2) [OF inv b(1)] obtain L where R: "book_rel p b L" by (rule book_invE)
  from resting_distinct [OF R b(2,3) h] i lt show ?thesis by simp
qed

theorem order_ids_unique_witness:
  "\<exists>e out. engine_exec Release (Engine_new, []) [AddInstrument 1 64, Process (test_req Ask 100 10 GTC RqNew 1)] =
       Inr (e, out) \<and> live_order e 1 (resting_order (test_req Ask 100 10 GTC RqNew 1) 0 10) \<and>
     oid (resting_order (test_req Ask 100 10 GTC RqNew 1) 0 10) < en_next_order_id e"
proof -
  let ?x = "resting_order (test_req Ask 100 10 GTC RqNew 1) 0 10"
  obtain e b where e: "engine_exec Release (Engine_new, []) [AddInstrument 1 64, Process (test_req Ask 100 10 GTC RqNew 1)] =
     Inr (e, [EvNew ?x])" "map_of (en_books e) 1 = Some b" "resting b = (\<lambda>_. [])(Ask := [?x])"
    by (rule sample_engine_ask)
  have l: "live_order e 1 ?x" using e(2,3) by (auto simp: live_order_def intro!: exI [of _ Ask])
  from order_ids_unique [OF e(1) _ l l refl] e(1) l show ?thesis by auto
qed

text \<open>
  C19: validation of new orders. A request for an unknown instrument, of quantity zero or of price
  zero (tested in this order) produces exactly one \<open>Reject\<close> with the whole quantity as remainder
  and leaves the engine, the id counter included, as it was; a valid one mints the next id and its
  events are those of matching it in its instrument's book.
\<close>

theorem new_orders_validated:
  assumes "engine_exec p (Engine_new, []) cs = Inr (e, out)" and "rq_request_type req = RqNew"
    and "Engine_process Vec_emit p e req out = Inr (e', out')"
  defines "rej \<equiv> \<lambda>reason. EvReject 0 reason (rq_quantity req) (rq_origin_ts req) (rq_intent_hash req)"
  shows "case Engine_book e (rq_instrument_id req) of
      None \<Rightarrow> e' = e \<and> out' = out @ [rej UnknownInstrument]
    | Some b \<Rightarrow>
        if rq_quantity req = 0 then e' = e \<and> out' = out @ [rej InvalidQuantity]
        else if rq_price req = 0 then e' = e \<and> out' = out @ [rej InvalidPrice]
        else en_next_order_id e' = en_next_order_id e + 1 \<and>
          (\<exists>b'. match_limit Vec_emit p b req (en_next_order_id e) out = Inr (b', out') \<and>
             Engine_book e' (rq_instrument_id req) = Some b')"
proof -
  from assms(2,3) have new: "process_new Vec_emit p e req out = Inr (e', out')"
    by (auto simp: Engine_process_def rbind_eq_Inr)
  show ?thesis
  proof (cases "map_of (en_books e) (rq_instrument_id req)")
    case None
    then show ?thesis using new process_new_rejects(1) [of e req Vec_emit p out]
      by (simp add: registered_def Engine_book_def push_reject_def Vec_emit_def rej_def)
  next
    case (Some b)
    then have reg: "registered e (rq_instrument_id req)" by (simp add: registered_def)
    consider "rq_quantity req = 0" | "rq_quantity req \<noteq> 0" "rq_price req = 0" | "rq_quantity req \<noteq> 0" "rq_price req \<noteq> 0"
      by blast
    then show ?thesis
    proof cases
      case 1
      then show ?thesis using new process_new_rejects(2) [OF reg 1, of Vec_emit p out] Some
        by (simp add: Engine_book_def push_reject_def Vec_emit_def rej_def)
    next
      case 2
      then show ?thesis using new process_new_rejects(3) [OF reg 2, of Vec_emit p out] Some
        by (simp add: Engine_book_def push_reject_def Vec_emit_def rej_def)
    next
      case 3
      then show ?thesis using new process_new_valid [OF Some 3, of Vec_emit p out] Some
        by (auto simp: Engine_book_def rbind_eq_Inr plus_u_def split: if_splits)
    qed
  qed
qed

theorem new_orders_validated_witness:
  "\<exists>e e' out'. engine_exec Debug (Engine_new, []) [AddInstrument 1 64] = Inr (e, []) \<and>
     Engine_process Vec_emit Debug e (test_req Bid 100 0 GTC RqNew 1) [] = Inr (e', out') \<and>
     e' = e \<and> map ev_reason out' = [InvalidQuantity]"
proof -
  obtain e b where e: "engine_exec Debug (Engine_new, []) [AddInstrument 1 64] = Inr (e, [])" "engine_inv Debug e"
    "en_next_order_id e = 0" "map_of (en_books e) = [1 \<mapsto> b]" "resting b = (\<lambda>_. [])"
    by (rule sample_engine)
  let ?r = "test_req Bid 100 0 GTC RqNew 1"
  have "serviceable Debug e ?r" using e by (simp add: serviceable_def)
  from process_returns [OF e(2) this, of "[]"] obtain e' out' where
    e': "Engine_process Vec_emit Debug e ?r [] = Inr (e', out')" by blast
  from new_orders_validated [OF e(1) _ e'] e e' show ?thesis by (auto simp: Engine_book_def)
qed

text \<open>
  Cancellation through the engine. A cancel for a resting intent hash removes that order (every
  other order keeps its place), leaves the id counter alone and reports the order's own id; a
  cancel for an unknown instrument or an unknown hash emits one \<open>Reject\<close> with remainder 0 and
  changes no book.
\<close>

theorem cancel_requests_served:
  assumes "engine_exec p (Engine_new, []) cs = Inr (e, out)" and "rq_request_type req = RqCancel"
    and "Engine_process Vec_emit p e req out = Inr (e', out')"
  defines "rej \<equiv> \<lambda>reason. EvReject 0 reason 0 (rq_origin_ts req) (rq_intent_hash req)"
  shows "en_next_order_id e' = en_next_order_id e \<and>
    (case Engine_book e (rq_instrument_id req) of
      None \<Rightarrow> out' = out @ [rej UnknownInstrument] \<and> Engine_book e' = Engine_book e
    | Some b \<Rightarrow>
        if hash_resting b (rq_intent_hash req)
        then \<exists>x b' s. x \<in> set (resting b s) \<and> o_intent_hash x = rq_intent_hash req \<and>
          out' = out @ [EvCancel (oid x) (rq_origin_ts req) (rq_intent_hash req)] \<and>
          Engine_book e' (rq_instrument_id req) = Some b' \<and>
          resting b' = (\<lambda>s. filter (\<lambda>y. o_intent_hash y \<noteq> rq_intent_hash req) (resting b s))
        else out' = out @ [rej UnknownOrder] \<and> Engine_book e' = Engine_book e)"
proof -
  have inv: "engine_inv p e" by (rule engine_exec_inv [OF engine_inv_new assms(1)])
  from assms(2,3) have can: "process_cancel Vec_emit p e req out = Inr (e', out')"
    by (auto simp: Engine_process_def rbind_eq_Inr)
  show ?thesis
  proof (cases "map_of (en_books e) (rq_instrument_id req)")
    case None
    then show ?thesis using can process_cancel_outcomes(1) [OF inv, of req Vec_emit out]
      by (simp add: registered_def Engine_book_def push_reject_def Vec_emit_def rej_def)
  next
    case (Some b)
    show ?thesis
    proof (cases "hash_resting b (rq_intent_hash req)")
      case True
      from process_cancel_outcomes(3) [OF inv Some True, of Vec_emit out] can Some True show ?thesis
        by (auto simp: Engine_book_def push_cancel_def Vec_emit_def)
    next
      case False
      from process_cancel_outcomes(2) [OF inv Some False, of Vec_emit out] can Some False show ?thesis
        by (auto simp: Engine_book_def push_reject_def Vec_emit_def rej_def fun_eq_iff)
    qed
  qed
qed

theorem cancel_requests_served_witness:
  "\<exists>e out e' out'. engine_exec Debug (Engine_new, []) [AddInstrument 1 64, Process (test_req Ask 100 10 GTC RqNew 1)] =
       Inr (e, out) \<and>
     Engine_process Vec_emit Debug e (test_req Bid 0 0 GTC RqCancel 1) out = Inr (e', out') \<and>
     out' = out @ [EvCancel 0 1000 (IntentHash (1 # replicate 31 0))]"
proof -
  let ?x = "resting_order (test_req Ask 100 10 GTC RqNew 1) 0 10" and ?c = "test_req Bid 0 0 GTC RqCancel 1"
  obtain e b where e: "engine_exec Debug (Engine_new, []) [AddInstrument 1 64, Process (test_req Ask 100 10 GTC RqNew 1)] =
     Inr (e, [EvNew ?x])" "engine_inv Debug e" "map_of (en_books e) 1 = Some b" "resting b = (\<lambda>_. [])(Ask := [?x])"
    "en_next_order_id e = 1" by (rule sample_engine_ask)
  have "serviceable Debug e ?c" using e(3-5) by (simp add: serviceable_def)
  from process_returns [OF e(2) this, of "[EvNew ?x]"] obtain e' out' where
    e': "Engine_process Vec_emit Debug e ?c [EvNew ?x] = Inr (e', out')" by blast
  have h: "hash_resting b (rq_intent_hash ?c)" using e(4) by (auto simp: hash_resting_def intro!: exI [of _ Ask])
  from cancel_requests_served [OF e(1) _ e'] e(3) h obtain x s where x: "x \<in> set (resting b s)"
    "out' = [EvNew ?x] @ [EvCancel (oid x) (rq_origin_ts ?c) (rq_intent_hash ?c)]" by (auto simp: Engine_book_def)
  from x(1) e(4) have "x = ?x" by (auto split: if_splits)
  then have "oid x = 0" by (simp add: resting_order_def)
  with e(1) e' x(2) show ?thesis by (auto simp: test_req_def)
qed

text \<open>
  C39: every outcome of \<open>add_instrument\<close> in any state of any run. Capacities 0 and
  \<open>MAX_CAPACITY\<close> (\<open>u32::MAX - 1\<close>) are refused with \<open>InvalidCapacity\<close>; otherwise a registered
  instrument is refused with \<open>AlreadyRegistered\<close>, and neither refusal changes the engine. Every
  other capacity below \<open>MAX_CAPACITY\<close> registers an empty book of that capacity for the instrument and
  leaves all other books and the id counter alone. The guard compares with \<open>==\<close>, so \<open>u32::MAX\<close>,
  which lies above the interval the error type documents, is not refused: it panics in
  \<open>Arena::new\<close>.
\<close>

theorem add_instrument_exact:
  assumes "engine_exec p (Engine_new, []) cs = Inr (e, out)"
  shows "if unat cap = 0 \<or> unat cap = 2 ^ 32 - 2 then add_instrument e i cap = Inr (e, Inl InvalidCapacity)
    else if Engine_book e i \<noteq> None then add_instrument e i cap = Inr (e, Inl AlreadyRegistered)
    else if unat cap = 2 ^ 32 - 1 then add_instrument e i cap = Inl (Panic ''invalid capacity'')
    else \<exists>b e'. add_instrument e i cap = Inr (e', Inr ()) \<and> engine_inv p e' \<and>
      Engine_book e' i = Some b \<and> resting b = (\<lambda>_. []) \<and> ob_instrument_id b = i \<and> book_capacity b = unat cap \<and>
      (\<forall>j. j \<noteq> i \<longrightarrow> Engine_book e' j = Engine_book e j) \<and> en_next_order_id e' = en_next_order_id e"
proof -
  have inv: "engine_inv p e" by (rule engine_exec_inv [OF engine_inv_new assms])
  have cap: "cap = 0 \<longleftrightarrow> unat cap = 0" "cap = MAX_CAPACITY \<longleftrightarrow> unat cap = 2 ^ 32 - 2" "cap = u32_MAX \<longleftrightarrow> unat cap = 2 ^ 32 - 1"
    by (simp_all add: word_unat_eq_iff MAX_CAPACITY_def)
  have reg: "registered e i \<longleftrightarrow> Engine_book e i \<noteq> None" by (simp add: registered_def Engine_book_def)
  have range: "cap = 0 \<or> cap = MAX_CAPACITY \<or> cap \<noteq> 0 \<and> cap \<noteq> MAX_CAPACITY \<and> cap = u32_MAX \<or>
      0 < cap \<and> cap \<noteq> 0 \<and> cap < MAX_CAPACITY \<and> cap \<noteq> MAX_CAPACITY \<and> cap \<noteq> u32_MAX"
    using unat_u32_bound [of cap] by (simp add: word_less_nat_alt word_unat_eq_iff MAX_CAPACITY_def) arith
  consider "cap = 0 \<or> cap = MAX_CAPACITY" | "cap \<noteq> 0" "cap \<noteq> MAX_CAPACITY" "registered e i"
    | "cap = u32_MAX" "\<not> registered e i" | "0 < cap" "cap < MAX_CAPACITY" "cap \<noteq> u32_MAX" "\<not> registered e i"
    using range by blast
  then show ?thesis
  proof cases
    case 4
    from add_instrument_outcomes(4) [OF inv 4(1,2,4)] obtain b e' where b: "OrderBook_new i cap = Inr b"
      "add_instrument e i cap = Inr (e', Inr ())" "e' = e\<lparr>en_books := hm_insert i b (en_books e)\<rparr>" "engine_inv p e'" by blast
    with new_book_empty [OF b(1)] book_reach_inv [OF reach_new [OF b(1), of p]] 4 show ?thesis
      unfolding cap [symmetric] reg [symmetric] by (auto simp: Engine_book_def book_ident_def)
  qed (use add_instrument_outcomes(1-3) [OF inv, of cap i] in
    \<open>unfold cap [symmetric] reg [symmetric], auto simp: MAX_CAPACITY_def\<close>)
qed

theorem add_instrument_exact_witness:
  "\<exists>e. engine_exec Release (Engine_new, []) [AddInstrument 1 64] = Inr (e, []) \<and>
     add_instrument e 1 64 = Inr (e, Inl AlreadyRegistered) \<and>
     add_instrument e 2 4294967295 = Inl (Panic ''invalid capacity'') \<and>
     (\<exists>e' b. add_instrument e 2 4294967293 = Inr (e', Inr ()) \<and> Engine_book e' 2 = Some b \<and> book_capacity b = 4294967293)"
proof -
  obtain e b where e: "engine_exec Release (Engine_new, []) [AddInstrument 1 64] = Inr (e, [])"
    "map_of (en_books e) = [1 \<mapsto> b]" by (rule sample_engine)
  then have book: "Engine_book e 1 = Some b" "Engine_book e 2 = None" by (simp_all add: Engine_book_def)
  from add_instrument_exact [OF e(1), of 64 1] add_instrument_exact [OF e(1), of 4294967295 2]
    add_instrument_exact [OF e(1), of 4294967293 2] book e(1)
  show ?thesis by auto
qed

end
