(* ===== verification/Exchange_Spec.thy ===== *)
theory Exchange_Spec
  imports Engine_Props
begin

text \<open>
  The abstract exchange and the refinement of it by the engine. The exchange keeps, per instrument,
  a capacity and the two price-time priority queues of resting orders, and one counter of order
  ids; it has no arena, no price levels, no index and no build profile, and it never fails. A
  command is one equation over these queues. The interpretation \<open>sim\<close> on the engine shows that, as
  long as the machine arithmetic of the build can carry the numbers involved
  (\<open>exchange_allows\<close>), every run of the engine ends without a panic in the state and with the
  events of the abstract exchange.
\<close>

section \<open>The abstract exchange\<close>

record market =
  mk_capacity :: nat
  mk_queue :: "Side \<Rightarrow> Order list"

record exchange =
  ex_market :: "u32 \<rightharpoonup> market"
  ex_next_id :: u64

definition exchange_new :: exchange where
  "exchange_new = \<lparr>ex_market = (\<lambda>_. None), ex_next_id = 0\<rparr>"

definition market_orders :: "market \<Rightarrow> Order list" where
  "market_orders m = mk_queue m Bid @ mk_queue m Ask"

definition refusal :: "RejectReason \<Rightarrow> u64 \<Rightarrow> OrderRequest \<Rightarrow> OrderEvent" where
  "refusal reason qty req = EvReject 0 reason qty (rq_origin_ts req) (rq_intent_hash req)"

text \<open>What the opposing queue offers to a request, as a number without a width.\<close>

definition offered :: "market \<Rightarrow> OrderRequest \<Rightarrow> nat" where
  "offered m req =
     volume (filter (\<lambda>x. crossing (rq_side req) (rq_price req) (o_price x)) (mk_queue m (opposite (rq_side req))))"

definition market_rest :: "market \<Rightarrow> OrderRequest \<Rightarrow> u64 \<Rightarrow> u64 \<Rightarrow> market \<times> OrderEvent list" where
  "market_rest m req order_id r =
     (if rq_intent_hash req \<in> o_intent_hash ` set (market_orders m) then (m, [refusal RrDuplicateIntent r req])
      else if mk_capacity m \<le> length (market_orders m) then (m, [refusal SystemAtCapacity r req])
      else let x = resting_order req order_id r; s = rq_side req in
        (m\<lparr>mk_queue := (mk_queue m)(s := enqueue s x (mk_queue m s))\<rparr>, [EvNew x]))"

definition market_trade :: "market \<Rightarrow> OrderRequest \<Rightarrow> u64 \<Rightarrow> market \<times> OrderEvent list" where
  "market_trade m req order_id =
     (if rq_tif req = FOK \<and> offered m req < unat (rq_quantity req)
      then (m, [refusal InsufficientLiquidity (rq_quantity req) req])
      else let t = opposite (rq_side req);
               (fills, r, q) = sweep (crossing (rq_side req) (rq_price req)) (rq_quantity req) (mk_queue m t);
               m1 = m\<lparr>mk_queue := (mk_queue m)(t := q)\<rparr>;
               evs = fill_events req order_id (rq_quantity req) fills in
        if r = 0 then (m1, evs)
        else if rq_tif req = GTC then (let (m2, evs2) = market_rest m1 req order_id r in (m2, evs @ evs2))
        else (m1, evs @ [refusal InsufficientLiquidity r req]))"

definition market_cancel :: "market \<Rightarrow> OrderRequest \<Rightarrow> market \<times> OrderEvent list" where
  "market_cancel m req =
     (case find (\<lambda>x. o_intent_hash x = rq_intent_hash req) (market_orders m) of
        None \<Rightarrow> (m, [refusal UnknownOrder 0 req])
      | Some x \<Rightarrow>
          (m\<lparr>mk_queue := (\<lambda>s. filter (\<lambda>y. o_intent_hash y \<noteq> rq_intent_hash req) (mk_queue m s))\<rparr>,
           [EvCancel (oid x) (rq_origin_ts req) (rq_intent_hash req)]))"

definition exchange_new_order :: "exchange \<Rightarrow> OrderRequest \<Rightarrow> exchange \<times> OrderEvent list" where
  "exchange_new_order X req =
     (case ex_market X (rq_instrument_id req) of
        None \<Rightarrow> (X, [refusal UnknownInstrument (rq_quantity req) req])
      | Some m \<Rightarrow>
          if rq_quantity req = 0 then (X, [refusal InvalidQuantity 0 req])
          else if rq_price req = 0 then (X, [refusal InvalidPrice (rq_quantity req) req])
          else let (m', evs) = market_trade m req (ex_next_id X) in
            (X\<lparr>ex_market := (ex_market X)(rq_instrument_id req \<mapsto> m'), ex_next_id := ex_next_id X + 1\<rparr>, evs))"

definition exchange_cancel :: "exchange \<Rightarrow> OrderRequest \<Rightarrow> exchange \<times> OrderEvent list" where
  "exchange_cancel X req =
     (case ex_market X (rq_instrument_id req) of
        None \<Rightarrow> (X, [refusal UnknownInstrument 0 req])
      | Some m \<Rightarrow>
          let (m', evs) = market_cancel m req in
            (X\<lparr>ex_market := (ex_market X)(rq_instrument_id req \<mapsto> m')\<rparr>, evs))"

definition exchange_add :: "exchange \<Rightarrow> u32 \<Rightarrow> u32 \<Rightarrow> exchange" where
  "exchange_add X i cap =
     (if cap = 0 \<or> MAX_CAPACITY \<le> cap \<or> ex_market X i \<noteq> None then X
      else X\<lparr>ex_market := (ex_market X)(i \<mapsto> \<lparr>mk_capacity = unat cap, mk_queue = (\<lambda>_. [])\<rparr>)\<rparr>)"

fun exchange_step :: "exchange \<times> OrderEvent list \<Rightarrow> command \<Rightarrow> exchange \<times> OrderEvent list" where
  "exchange_step (X, log) (AddInstrument i cap) = (exchange_add X i cap, log)"
| "exchange_step (X, log) (Process req) =
     (let (X', evs) = (case rq_request_type req of
                         RqNew \<Rightarrow> exchange_new_order X req
                       | RqCancel \<Rightarrow> exchange_cancel X req
                       | RqAmend \<Rightarrow> (X, [])) in (X', log @ evs))"

text \<open>
  The commands a build of the engine can carry out like the abstract exchange. No amendment, which
  is not implemented, and no capacity of \<open>u32::MAX\<close>; the volume the fill-or-kill gate adds up
  must fit in its 64 bits; and in a debug build, where overflow panics, so must the id counter
  and the volume of the book.
\<close>

fun exchange_allows :: "profile \<Rightarrow> exchange \<times> OrderEvent list \<Rightarrow> command \<Rightarrow> bool" where
  "exchange_allows p (X, log) (AddInstrument i cap) = (cap \<noteq> u32_MAX)"
| "exchange_allows p (X, log) (Process req) =
     (rq_request_type req \<noteq> RqAmend \<and>
      (p = Debug \<longrightarrow> unat (ex_next_id X) + 1 < 2 ^ 64) \<and>
      (case ex_market X (rq_instrument_id req) of
         None \<Rightarrow> True
       | Some m \<Rightarrow> (rq_tif req = FOK \<longrightarrow> offered m req < 2 ^ 64) \<and>
           (p = Debug \<longrightarrow> volume (market_orders m) + unat (rq_quantity req) < 2 ^ 64)))"

section \<open>The engine refines the exchange\<close>

definition market_of :: "OrderBook \<Rightarrow> market" where
  "market_of b = \<lparr>mk_capacity = book_capacity b, mk_queue = resting b\<rparr>"

definition exchange_of :: "Engine \<Rightarrow> exchange" where
  "exchange_of e = \<lparr>ex_market = map_option market_of \<circ> map_of (en_books e), ex_next_id = en_next_order_id e\<rparr>"

lemma market_of_simps [simp]:
  "mk_capacity (market_of b) = book_capacity b" "mk_queue (market_of b) = resting b"
  "market_orders (market_of b) = resting b Bid @ resting b Ask"
  "offered (market_of b) req = crossing_volume b req"
  by (simp_all add: market_of_def market_orders_def offered_def crossing_volume_def)

lemma exchange_of_simps [simp]:
  "ex_next_id (exchange_of e) = en_next_order_id e"
  "ex_market (exchange_of e) i = map_option market_of (map_of (en_books e) i)"
  by (simp_all add: exchange_of_def)

lemma exchange_of_new: "exchange_of Engine_new = exchange_new"
  by (simp add: exchange_of_def exchange_new_def Engine_new_def fun_eq_iff)

lemma exchange_of_put:
  "exchange_of (e\<lparr>en_books := hm_insert i b (en_books e), en_next_order_id := n\<rparr>) =
     (exchange_of e)\<lparr>ex_market := (ex_market (exchange_of e))(i \<mapsto> market_of b), ex_next_id := n\<rparr>"
  by (auto simp: exchange_of_def fun_eq_iff)

lemma market_of_sweep:
  assumes "book_ident b1 = book_ident b" and "resting b1 = (resting b)(t := q)"
  shows "market_of b1 = (market_of b)\<lparr>mk_queue := (resting b)(t := q)\<rparr>"
  using assms by (simp add: market_of_def book_ident_def)

lemma exchange_of_book:
  "exchange_of (e\<lparr>en_books := hm_insert i b (en_books e)\<rparr>) =
     (exchange_of e)\<lparr>ex_market := (ex_market (exchange_of e))(i \<mapsto> market_of b)\<rparr>"
  by (auto simp: exchange_of_def fun_eq_iff)

text \<open>A remainder that comes to rest.\<close>

lemma residual_refines:
  assumes inv: "book_inv p b" and r: "r \<noteq> 0"
    and res: "gtc_residual p b req order_id r out = Inr (b', out')"
  shows "(market_of b', out') = (let (m, evs) = market_rest (market_of b) req order_id r in (m, out @ evs))"
proof (cases "hash_resting b (rq_intent_hash req) \<or> \<not> has_room b")
  case True
  with r res show ?thesis
    by (auto simp: gtc_residual_def market_rest_def refusal_def hash_resting_iff has_room_def)
next
  case False
  let ?x = "resting_order req order_id r"
  from False r res obtain i where ins: "OrderBook_insert p b ?x = Inr (b', i)" "out' = out @ [EvNew ?x]"
    by (auto simp: gtc_residual_def rbind_eq_Inr)
  with insert_outcomes(3,4) [OF inv, of ?x] False have
    "book_ident b' = book_ident b" "resting b' = (resting b)(rq_side req := enqueue (rq_side req) ?x (resting b (rq_side req)))"
    by (cases "fits p b ?x"; auto)+
  with False ins(2) show ?thesis
    by (auto simp: market_rest_def hash_resting_iff has_room_def Let_def market_of_sweep)
qed

lemma match_limit_refines:
  assumes inv: "book_inv p b" and qty: "0 < rq_quantity req"
    and gate: "rq_tif req = FOK \<Longrightarrow> crossing_volume b req < 2 ^ 64"
    and res: "match_limit Vec_emit p b req order_id out = Inr (b', out')"
  shows "(market_of b', out') = (let (m, evs) = market_trade (market_of b) req order_id in (m, out @ evs))"
proof -
  obtain fills r q where sw: "sweep_of b req = (fills, r, q)" by (metis prod_cases3)
  note sw' = sw [unfolded sweep_of_def]
  show ?thesis
  proof (cases "rq_tif req")
    case IOC
    from match_ioc [OF inv sw IOC, of order_id out] res IOC sw' show ?thesis
      by (auto simp: market_trade_def market_of_sweep refusal_def)
  next
    case FOK
    note ex = fok_gate_exact [OF inv qty gate [OF FOK], of p]
    show ?thesis
    proof (cases "unat (rq_quantity req) \<le> crossing_volume b req")
      case True
      with match_fok_gate(3) [OF inv FOK _ sw, of order_id out] ex res FOK sw' show ?thesis
        by (auto simp: market_trade_def market_of_sweep)
    next
      case False
      with match_fok_gate(1) [OF inv FOK, of order_id out] ex res FOK show ?thesis
        by (auto simp: market_trade_def refusal_def)
    qed
  next
    case GTC
    from match_gtc [OF inv sw GTC, of order_id out] obtain b1 where b1: "book_inv p b1" "book_ident b1 = book_ident b"
      "resting b1 = (resting b)(opposite (rq_side req) := q)" "match_limit Vec_emit p b req order_id out =
        gtc_residual p b1 req order_id r (out @ fill_events req order_id (rq_quantity req) fills)" .
    show ?thesis
    proof (cases "r = 0")
      case True
      with b1 res GTC sw' show ?thesis by (auto simp: market_trade_def market_of_sweep gtc_residual_def)
    next
      case False
      from residual_refines [OF b1(1) False, of req order_id] b1 res GTC sw' False show ?thesis
        by (simp add: market_trade_def market_of_sweep [symmetric] split: prod.splits)
    qed
  qed
qed

lemma cancel_refines:
  assumes inv: "engine_inv p e" and res: "process_cancel Vec_emit p e req out = Inr (e', out')"
  shows "(exchange_of e', out') = (let (X, evs) = exchange_cancel (exchange_of e) req in (X, out @ evs))"
proof (cases "map_of (en_books e) (rq_instrument_id req)")
  case None
  with process_cancel_outcomes(1) [OF inv, of req Vec_emit out] res show ?thesis
    by (simp add: registered_def exchange_cancel_def push_reject_def Vec_emit_def refusal_def)
next
  case (Some b)
  note binv = engine_invD(2) [OF inv Some]
  have same: "(exchange_of e)\<lparr>ex_market := (ex_market (exchange_of e))(rq_instrument_id req \<mapsto> market_of b)\<rparr> = exchange_of e"
    using Some by (auto simp: exchange_of_def fun_eq_iff)
  show ?thesis
  proof (cases "hash_resting b (rq_intent_hash req)")
    case False
    then have "find (\<lambda>x. o_intent_hash x = rq_intent_hash req) (resting b Bid @ resting b Ask) = None"
      unfolding find_None_iff hash_resting_iff by force
    moreover from process_cancel_outcomes(2) [OF inv Some False, of Vec_emit out] res
    have "exchange_of e' = exchange_of e" "out' = out @ [refusal UnknownOrder 0 req]"
      by (auto simp: exchange_of_def push_reject_def Vec_emit_def refusal_def)
    ultimately show ?thesis using Some same by (simp add: exchange_cancel_def market_cancel_def)
  next
    case True
    from process_cancel_outcomes(3) [OF inv Some True, of Vec_emit out] res obtain x s b' where
      x: "x \<in> set (resting b s)" "o_intent_hash x = rq_intent_hash req"
      and e': "e' = e\<lparr>en_books := hm_insert (rq_instrument_id req) b' (en_books e)\<rparr>" "engine_inv p e'"
      "out' = out @ [EvCancel (oid x) (rq_origin_ts req) (rq_intent_hash req)]"
      "resting b' = (\<lambda>s. filter (\<lambda>y. o_intent_hash y \<noteq> rq_intent_hash req) (resting b s))"
      by (auto simp: push_cancel_def Vec_emit_def)
    from x(1) have "x \<in> set (resting b Bid @ resting b Ask)" by (cases s) auto
    from pb.q_hashes [OF binv] this x(2)
    have find: "find (\<lambda>x. o_intent_hash x = rq_intent_hash req) (resting b Bid @ resting b Ask) = Some x"
      by (rule find_unique)
    have "\<exists>b''. map_of (en_books e') (rq_instrument_id req) = Some b'' \<and> book_capacity b'' = book_capacity b"
      using cancel_outcomes(2) [OF binv True] res Some by (auto simp: process_cancel_def Let_def book_ident_def)
    then have "market_of b' = (market_of b)
        \<lparr>mk_queue := (\<lambda>s. filter (\<lambda>y. o_intent_hash y \<noteq> rq_intent_hash req) (mk_queue (market_of b) s))\<rparr>"
      using e'(1,4) by (simp add: market_of_def)
    with find Some e' show ?thesis by (simp add: exchange_of_book exchange_cancel_def market_cancel_def)
  qed
qed

lemma new_order_refines:
  assumes inv: "engine_inv p e" and res: "process_new Vec_emit p e req out = Inr (e', out')"
    and nowrap: "p = Debug \<Longrightarrow> unat (en_next_order_id e) + 1 < 2 ^ 64"
    and gate: "\<And>b. map_of (en_books e) (rq_instrument_id req) = Some b \<Longrightarrow> rq_tif req = FOK \<Longrightarrow>
      crossing_volume b req < 2 ^ 64"
  shows "(exchange_of e', out') = (let (X, evs) = exchange_new_order (exchange_of e) req in (X, out @ evs))"
proof (cases "registered e (rq_instrument_id req) \<and> rq_quantity req \<noteq> 0 \<and> rq_price req \<noteq> 0")
  case False
  with res process_new_rejects [of e req Vec_emit p out] show ?thesis
    by (cases "registered e (rq_instrument_id req)"; cases "rq_quantity req = 0")
      (auto simp: registered_def exchange_new_order_def push_reject_def Vec_emit_def refusal_def)
next
  case True
  then obtain b where b: "map_of (en_books e) (rq_instrument_id req) = Some b" by (auto simp: registered_def)
  have "plus_u p (en_next_order_id e) 1 = Inr (en_next_order_id e + 1)"
    using nowrap by (intro plus_u_ok) simp
  with res True obtain b' where m: "match_limit Vec_emit p b req (en_next_order_id e) out = Inr (b', out')"
    and e': "e' = e\<lparr>en_books := hm_insert (rq_instrument_id req) b' (en_books e), en_next_order_id := en_next_order_id e + 1\<rparr>"
    by (auto simp: process_new_valid [OF b] rbind_eq_Inr)
  have "0 < rq_quantity req" using True by (simp add: word_gt_0)
  from match_limit_refines [OF engine_invD(2) [OF inv b] this gate [OF b] m] True b show ?thesis
    by (simp add: exchange_new_order_def e' exchange_of_put split: prod.splits)
qed

lemma add_refines:
  assumes inv: "engine_inv p e" and cap: "cap \<noteq> u32_MAX"
  shows "\<exists>e' r. add_instrument e i cap = Inr (e', r) \<and> engine_inv p e' \<and> exchange_of e' = exchange_add (exchange_of e) i cap"
proof (cases "cap = 0 \<or> cap = MAX_CAPACITY \<or> registered e i")
  case True
  then show ?thesis using add_instrument_outcomes(1,2) [OF inv, of cap i] inv
    by (cases "cap = 0 \<or> cap = MAX_CAPACITY") (auto simp: exchange_add_def registered_def)
next
  case False
  have less: "cap < MAX_CAPACITY"
    using False cap unat_u32_bound [of cap] by (auto simp: MAX_CAPACITY_def word_less_nat_alt word_unat_eq_iff)
  have pos: "0 < cap" and free: "\<not> registered e i" using False by (simp_all add: word_gt_0)
  from add_instrument_outcomes(4) [OF inv pos less free] obtain b e' where b: "OrderBook_new i cap = Inr b"
    "add_instrument e i cap = Inr (e', Inr ())" "e' = e\<lparr>en_books := hm_insert i b (en_books e)\<rparr>" "engine_inv p e'" by blast
  note new_book_empty [OF b(1)]
  moreover have "book_capacity b = unat cap" using OrderBook_new_rel [OF b(1)] by (simp add: book_ident_def)
  ultimately have "market_of b = \<lparr>mk_capacity = unat cap, mk_queue = (\<lambda>_. [])\<rparr>" by (simp add: market_of_def fun_eq_iff)
  with b less pos free show ?thesis
    by (auto simp: exchange_of_book exchange_add_def registered_def)
qed

definition run_view :: "Engine \<times> OrderEvent list \<Rightarrow> exchange \<times> OrderEvent list" where
  "run_view = map_prod exchange_of id"

lemma engine_step_simulates:
  assumes inv: "engine_inv p e" and ok: "exchange_allows p (exchange_of e, out) c"
  shows "\<exists>e' out'. engine_step p (e, out) c = Inr (e', out') \<and> engine_inv p e' \<and>
    (exchange_of e', out') = exchange_step (exchange_of e, out) c"
proof (cases c)
  case (AddInstrument i cap)
  with add_refines [OF inv, of cap i] ok show ?thesis by auto
next
  case (Process req)
  have srv: "serviceable p e req"
    using ok unfolding Process by (auto simp: serviceable_def split: option.splits)
  from process_returns [OF inv this, of out] obtain e' out' where
    pr: "Engine_process Vec_emit p e req out = Inr (e', out')" by blast
  from pr have "(exchange_of e', out') = exchange_step (exchange_of e, out) c"
  proof (cases rule: Engine_process_cases)
    case New
    have gate: "crossing_volume b req < 2 ^ 64"
      if "map_of (en_books e) (rq_instrument_id req) = Some b" "rq_tif req = FOK" for b
      using ok that by (simp add: Process)
    from new_order_refines [OF inv New(2) _ gate] New(1) ok show ?thesis by (simp add: Process)
  next
    case Cancel
    from cancel_refines [OF inv Cancel(2)] Cancel(1) show ?thesis by (simp add: Process)
  qed
  with pr Engine_process_inv [OF inv pr] show ?thesis by (auto simp: Process)
qed

interpretation sim: simulation "engine_step p" exchange_step "\<lambda>(e, out). engine_inv p e" run_view "exchange_allows p"
  for p
  by unfold_locales (auto simp: run_view_def dest: engine_step_simulates)

lemma engine_exec_fold: "engine_exec p st cs = res_fold (engine_step p) st cs"
  by (induction cs arbitrary: st) simp_all

section \<open>Properties\<close>

text \<open>
  C2: the engine refines the abstract exchange. Take any sequence of commands that the abstract
  exchange, run alone, only ever receives in states where the build can carry the numbers involved.
  Then the engine runs the sequence without a panic, its books hold exactly the queues of the
  abstract markets in the same price-time order, its id counter is the abstract one, and it has
  emitted exactly the abstract events in the same order.
\<close>

theorem engine_refines_exchange:
  assumes "allowed_run exchange_step (exchange_allows p) (exchange_new, []) cs"
  shows "\<exists>e log. engine_exec p (Engine_new, []) cs = Inr (e, log) \<and> engine_inv p e \<and>
    foldl exchange_step (exchange_new, []) cs = (exchange_of e, log)"
proof -
  have start: "run_view (Engine_new, []) = (exchange_new, [])" by (simp add: run_view_def exchange_of_new)
  with sim.simulate_run [of p "(Engine_new, [])" cs] assms show ?thesis
    by (auto simp: engine_inv_new engine_exec_fold run_view_def)
qed

theorem engine_refines_exchange_witness:
  "\<exists>e b log. engine_exec Debug (Engine_new, [])
     [AddInstrument 1 2, Process (test_req Ask 100 10 GTC RqNew 1), Process (test_req Ask 99 5 GTC RqNew 2),
      Process (test_req Bid 100 20 FOK RqNew 3), Process (test_req Bid 100 8 IOC RqNew 4)] = Inr (e, log) \<and>
     map_of (en_books e) 1 = Some b \<and>
     map (\<lambda>x. (oid x, o_quantity x)) (resting b Ask) = [(0, 7)] \<and> resting b Bid = [] \<and> length log = 7"
proof -
  let ?cs = "[AddInstrument 1 2, Process (test_req Ask 100 10 GTC RqNew 1), Process (test_req Ask 99 5 GTC RqNew 2),
      Process (test_req Bid 100 20 FOK RqNew 3), Process (test_req Bid 100 8 IOC RqNew 4)]"
  note defs = exchange_new_def exchange_add_def exchange_new_order_def market_trade_def market_rest_def
    market_orders_def offered_def enqueue_def MAX_CAPACITY_def Let_def
  have ok: "allowed_run exchange_step (exchange_allows Debug) (exchange_new, []) ?cs" by (simp add: defs)
  from engine_refines_exchange [OF this] obtain e log where
    e: "engine_exec Debug (Engine_new, []) ?cs = Inr (e, log)" "foldl exchange_step (exchange_new, []) ?cs = (exchange_of e, log)"
    by blast
  have "map_option (\<lambda>m. (map (\<lambda>x. (oid x, o_quantity x)) (mk_queue m Ask), mk_queue m Bid))
      (ex_market (fst (foldl exchange_step (exchange_new, []) ?cs)) 1) = Some ([(0, 7)], [])"
    and "length (snd (foldl exchange_step (exchange_new, []) ?cs)) = 7"
    by (simp_all add: defs resting_order_def order_rank_def rank_def)
  with e show ?thesis by auto
qed

end
