(* ===== verification/Event_Log.thy ===== *)
theory Event_Log
  imports Exchange_Spec
begin

text \<open>
  The event stream as the record of the engine's state. \<open>apply_event\<close> is a subscriber that
  knows nothing but the events: it files announced orders, and shortens or removes the orders that
  fills and cancellations name by id. The theorem of this theory says that such a subscriber
  always holds exactly the resting orders of every book, in their price-time order.
\<close>

section \<open>A subscriber\<close>

type_synonym ledger = "u32 \<times> Side \<Rightarrow> Order list"

fun apply_event :: "OrderEvent \<Rightarrow> ledger \<Rightarrow> ledger" where
  "apply_event (EvNew x) Q =
     (let k = (o_instrument_id x, o_side x) in Q(k := enqueue (o_side x) x (Q k)))"
| "apply_event (EvFill i q pr ts h) Q = (\<lambda>k. filter (\<lambda>x. oid x \<noteq> i) (Q k))"
| "apply_event (EvPartialFill i q pr r ts h) Q =
     (\<lambda>k. map (\<lambda>x. if oid x = i then x\<lparr>o_quantity := r\<rparr> else x) (Q k))"
| "apply_event (EvCancel i ts h) Q = (\<lambda>k. filter (\<lambda>x. oid x \<noteq> i) (Q k))"
| "apply_event (EvReject i reason r ts h) Q = Q"

definition replay :: "OrderEvent list \<Rightarrow> ledger" where
  "replay log = fold apply_event log (\<lambda>_. [])"

definition ledger_of :: "Engine \<Rightarrow> ledger" where
  "ledger_of e = (\<lambda>(i, s). case map_of (en_books e) i of None \<Rightarrow> [] | Some b \<Rightarrow> resting b s)"

lemma replay_append: "replay (log @ evs) = fold apply_event evs (replay log)"
  by (simp add: replay_def)

section \<open>Ids in a ledger\<close>

definition ids_distinct :: "('k \<Rightarrow> Order list) \<Rightarrow> bool" where
  "ids_distinct Q \<longleftrightarrow> (\<forall>k. distinct (map oid (Q k))) \<and>
     (\<forall>k l x y. x \<in> set (Q k) \<longrightarrow> y \<in> set (Q l) \<longrightarrow> oid x = oid y \<longrightarrow> k = l)"

definition id_free :: "u64 \<Rightarrow> ('k \<Rightarrow> Order list) \<Rightarrow> bool" where
  "id_free i Q \<longleftrightarrow> (\<forall>k. i \<notin> oid ` set (Q k))"

lemma ids_distinctD:
  assumes "ids_distinct Q"
  shows "distinct (map oid (Q k))"
    and "x \<in> set (Q k) \<Longrightarrow> y \<in> set (Q l) \<Longrightarrow> oid x = oid y \<Longrightarrow> k = l"
  using assms by (auto simp: ids_distinct_def)

lemma id_freeD: "id_free i Q \<Longrightarrow> x \<in> set (Q k) \<Longrightarrow> oid x \<noteq> i"
  by (auto simp: id_free_def)

lemma id_freeI: "(\<And>k x. x \<in> set (Q k) \<Longrightarrow> oid x \<noteq> i) \<Longrightarrow> id_free i Q"
  by (auto simp: id_free_def)

lemma ids_distinct_shrink:
  assumes "ids_distinct Q" and "distinct (map oid q)" and "oid ` set q \<subseteq> oid ` set (Q k)"
  shows "ids_distinct (Q(k := q))"
proof -
  have old: "\<exists>z \<in> set (Q l). oid z = oid x" if "x \<in> set ((Q(k := q)) l)" for l x
    using that assms(3) by (cases "l = k") force+
  have "l = m" if "x \<in> set ((Q(k := q)) l)" "y \<in> set ((Q(k := q)) m)" "oid x = oid y" for l m x y
    using old [OF that(1)] old [OF that(2)] that(3) ids_distinctD(2) [OF assms(1)] by metis
  moreover have "distinct (map oid ((Q(k := q)) l))" for l using assms(2) ids_distinctD(1) [OF assms(1)] by simp
  ultimately show ?thesis unfolding ids_distinct_def by blast
qed

lemma id_free_shrink: "id_free i Q \<Longrightarrow> oid ` set q \<subseteq> oid ` set (Q k) \<Longrightarrow> id_free i (Q(k := q))"
  by (fastforce simp: id_free_def)

lemma free_event: 
  assumes "id_free i Q"
  shows "apply_event (EvFill i q pr ts h) Q = Q" "apply_event (EvPartialFill i q pr r ts h) Q = Q"
proof -
  have "\<forall>x \<in> set (Q k). oid x \<noteq> i" for k using id_freeD [OF assms] by blast
  then show "apply_event (EvFill i q pr ts h) Q = Q" "apply_event (EvPartialFill i q pr r ts h) Q = Q"
    by (auto simp: fun_eq_iff filter_id_conv intro!: map_idI)
qed

lemma head_id_unique:
  assumes "ids_distinct Q" and "Q k = x # xs" and "y \<in> set (Q l)" and "l \<noteq> k \<or> y \<in> set xs"
  shows "oid y \<noteq> oid x"
proof
  assume eq: "oid y = oid x"
  have "x \<in> set (Q k)" using assms(2) by simp
  from ids_distinctD(2) [OF assms(1) assms(3) this eq] assms(4) have "y \<in> set xs" by blast
  then have "oid x \<in> set (map oid xs)" unfolding eq [symmetric] by (metis image_eqI list.set_map)
  with ids_distinctD(1) [OF assms(1), of k] assms(2) show False by simp
qed

lemma drop_head:
  assumes "ids_distinct Q" and "Q k = x # xs"
  shows "(\<lambda>l. filter (\<lambda>y. oid y \<noteq> oid x) (Q l)) = Q(k := xs)"
proof
  show "filter (\<lambda>y. oid y \<noteq> oid x) (Q l) = (Q(k := xs)) l" for l
    using head_id_unique [OF assms, of _ l] assms(2) by (cases "l = k") (simp_all add: filter_id_conv)
qed

lemma shorten_head:
  assumes "ids_distinct Q" and "Q k = x # xs"
  shows "(\<lambda>l. map (\<lambda>y. if oid y = oid x then y\<lparr>o_quantity := r\<rparr> else y) (Q l)) = Q(k := x\<lparr>o_quantity := r\<rparr> # xs)"
proof
  show "map (\<lambda>y. if oid y = oid x then y\<lparr>o_quantity := r\<rparr> else y) (Q l) = (Q(k := x\<lparr>o_quantity := r\<rparr> # xs)) l" for l
    using head_id_unique [OF assms, of _ l] assms(2) by (cases "l = k") (auto intro!: map_idI)
qed

lemma taker_event_free: "id_free i Q \<Longrightarrow> apply_event (taker_event req i q pr r) Q = Q"
  by (simp add: taker_event_def free_event del: apply_event.simps)

text \<open>The fills of a sweep, applied one by one, turn the opposing queue into what the sweep leaves.\<close>

lemma replay_fills:
  assumes "sweep cr remaining (Q k) = (fills, r, q)" and "ids_distinct Q" and "id_free order_id Q"
  shows "fold apply_event (fill_events req order_id remaining fills) Q = Q(k := q)"
  using assms
proof (induction cr remaining "Q k" arbitrary: Q fills r q rule: sweep.induct)
  case (1 cr remaining)
  then show ?case by auto
next
  case (2 cr remaining x xs)
  note Q = 2(2)[symmetric]
  consider (stop) "remaining = 0 \<or> \<not> cr (o_price x)" | (full) "\<not> (remaining = 0 \<or> \<not> cr (o_price x))" "o_quantity x \<le> remaining"
    | (part) "\<not> (remaining = 0 \<or> \<not> cr (o_price x))" "\<not> o_quantity x \<le> remaining" by blast
  then show ?case
  proof cases
    case stop
    with 2(3) Q show ?thesis by (auto simp: fun_upd_idem)
  next
    case full
    let ?Q = "Q(k := xs)"
    obtain fs' where sw: "sweep cr (remaining - o_quantity x) (?Q k) = (fs', r, q)" "fills = (x, o_quantity x) # fs'"
      using 2(3) Q full by (auto split: prod.splits)
    have d: "ids_distinct ?Q" using 2(4) Q by (intro ids_distinct_shrink) (use ids_distinctD(1) [OF 2(4), of k] in auto)
    have f: "id_free order_id ?Q" using 2(5) Q by (intro id_free_shrink) auto
    have "apply_event (maker_event req x (o_quantity x) (o_price x) 0) Q = ?Q"
      using drop_head [OF 2(4) Q] by (simp add: maker_event_def)
    with 2(1) [OF full, of ?Q fs' r q] sw d f taker_event_free [OF 2(5)] show ?thesis by simp
  next
    case part
    then have ne: "o_quantity x - remaining \<noteq> 0" by auto
    have "apply_event (maker_event req x remaining (o_price x) (o_quantity x - remaining)) Q =
        Q(k := x\<lparr>o_quantity := o_quantity x - remaining\<rparr> # xs)"
      using shorten_head [OF 2(4) Q, of "o_quantity x - remaining"] ne by (simp add: maker_event_def)
    with 2(3) Q part taker_event_free [OF 2(5)] show ?thesis by auto
  qed
qed

section \<open>The engine's ledger\<close>

lemma ledger_of_mem: "x \<in> set (ledger_of e (i, s)) \<longleftrightarrow> (\<exists>b. map_of (en_books e) i = Some b \<and> x \<in> set (resting b s))"
  by (cases "map_of (en_books e) i") (simp_all add: ledger_of_def)

lemma ledger_live: "x \<in> set (ledger_of e (i, s)) \<Longrightarrow> live_order e i x"
  by (auto simp: ledger_of_mem live_order_def)

lemma ledger_put:
  assumes "map_of (en_books e) i = Some b" and "en_books e' = hm_insert i b' (en_books e)"
  shows "ledger_of e' = (\<lambda>(j, s). if j = i then resting b' s else ledger_of e (j, s))"
    and "ledger_of e (i, s) = resting b s"
  using assms by (auto simp: ledger_of_def fun_eq_iff)

lemma ledger_hashes:
  assumes inv: "engine_inv p e" and x: "x \<in> set (ledger_of e (i, s))" and y: "y \<in> set (ledger_of e (i, t))"
    and h: "o_intent_hash x = o_intent_hash y"
  shows "x = y \<and> s = t"
proof -
  from x obtain b where b: "map_of (en_books e) i = Some b" "x \<in> set (resting b s)" by (auto simp: ledger_of_mem)
  with y have y': "y \<in> set (resting b t)" by (auto simp: ledger_of_mem)
  note binv = engine_invD(2) [OF inv b(1)]
  have "x \<in> set (resting b Bid @ resting b Ask)" "y \<in> set (resting b Bid @ resting b Ask)"
    using b(2) y' by (cases s; cases t; simp)+
  with pb.q_hashes [OF binv] h have "x = y" unfolding distinct_map by (meson inj_onD)
  with pb.q_side [OF binv b(2)] pb.q_side [OF binv y'] show ?thesis by simp
qed

lemma ledger_ids:
  assumes inv: "engine_inv p e" and ids: "ids_inv e"
  shows "ids_distinct (ledger_of e)" and "id_free (en_next_order_id e) (ledger_of e)"
proof -
  have same: "i = j \<and> s = t \<and> x = y" if "x \<in> set (ledger_of e (i, s))" "y \<in> set (ledger_of e (j, t))" "oid x = oid y"
    for x y i j s t
  proof -
    have "i = j" "o_intent_hash x = o_intent_hash y"
      using ids ledger_live [OF that(1)] ledger_live [OF that(2)] that(3) unfolding ids_inv_def by blast+
    with ledger_hashes [OF inv] that show ?thesis by blast
  qed
  have "distinct (map oid (ledger_of e (i, s)))" for i s
  proof -
    have "distinct (ledger_of e (i, s))"
    proof (cases "map_of (en_books e) i")
      case (Some b)
      have "distinct (map o_intent_hash (resting b s))"
        using pb.q_hashes [OF engine_invD(2) [OF inv Some]] by (cases s) simp_all
      with Some show ?thesis by (simp add: ledger_of_def distinct_map)
    qed (simp add: ledger_of_def)
    with same show ?thesis by (auto simp: distinct_map intro!: inj_onI)
  qed
  with same show "ids_distinct (ledger_of e)" unfolding ids_distinct_def split_paired_All prod.inject by blast
  have "oid x \<noteq> en_next_order_id e" if "x \<in> set (ledger_of e (i, s))" for x i s
    using ids ledger_live [OF that] unfolding ids_inv_def by (metis less_irrefl)
  then show "id_free (en_next_order_id e) (ledger_of e)" by (intro id_freeI) (metis surj_pair)
qed

lemma market_rest_cases:
  obtains (Refused) reason where "market_rest m req order_id r = (m, [refusal reason r req])"
  | (Rests) "market_rest m req order_id r = (m\<lparr>mk_queue := (mk_queue m)(rq_side req :=
      enqueue (rq_side req) (resting_order req order_id r) (mk_queue m (rq_side req)))\<rparr>,
      [EvNew (resting_order req order_id r)])"
  unfolding market_rest_def Let_def by metis

text \<open>What a returning match did, and the events that tell of it.\<close>

lemma match_limit_events:
  assumes inv: "book_inv p b" and sw: "sweep_of b req = (fills, r, q)"
    and res: "match_limit Vec_emit p b req order_id out = Inr (b', out')"
  obtains (Killed) reason where "resting b' = resting b" and "out' = out @ [refusal reason (rq_quantity req) req]"
  | (Traded) tail where "out' = out @ fill_events req order_id (rq_quantity req) fills @ tail"
      and "tail = [] \<or> (\<exists>reason. tail = [refusal reason r req])"
      and "resting b' = (resting b)(opposite (rq_side req) := q)"
  | (Rested) "out' = out @ fill_events req order_id (rq_quantity req) fills @ [EvNew (resting_order req order_id r)]"
      and "resting b' = (resting b)(opposite (rq_side req) := q,
        rq_side req := enqueue (rq_side req) (resting_order req order_id r) (resting b (rq_side req)))"
      and "r \<noteq> 0"
proof (cases "rq_tif req")
  case IOC
  from match_ioc [OF inv sw IOC, of order_id out] res Traded show thesis
    by (cases "r = 0") (auto simp: refusal_def)
next
  case FOK
  show thesis
  proof (cases "has_sufficient_liquidity p b req")
    case (Inl e)
    with match_fok_gate(2) [OF inv FOK Inl] res show thesis by simp
  next
    case (Inr ok)
    show thesis
    proof (cases ok)
      case True
      with match_fok_gate(3) [OF inv FOK _ sw, of order_id out] Inr res Traded [of "[]"] show thesis by auto
    next
      case False
      with match_fok_gate(1) [OF inv FOK, of order_id out] Inr res Killed show thesis by (auto simp: refusal_def)
    qed
  qed
next
  case GTC
  from match_gtc [OF inv sw GTC, of order_id out] obtain b1 where b1: "book_inv p b1"
    "resting b1 = (resting b)(opposite (rq_side req) := q)" "match_limit Vec_emit p b req order_id out =
      gtc_residual p b1 req order_id r (out @ fill_events req order_id (rq_quantity req) fills)" .
  have ne: "opposite (rq_side req) \<noteq> rq_side req" by (cases "rq_side req") simp_all
  note res' = res [unfolded b1(3)]
  show thesis
  proof (cases "r = 0")
    case True
    with res' b1(2) Traded [of "[]"] show thesis by (simp add: gtc_residual_def)
  next
    case False
    note eq = residual_refines [OF b1(1) False res']
    show thesis
    proof (cases rule: market_rest_cases [of "market_of b1" req order_id r])
      case (Refused reason)
      with eq have "market_of b' = market_of b1"
        "out' = out @ fill_events req order_id (rq_quantity req) fills @ [refusal reason r req]" by simp_all
      then show thesis using b1(2) Traded by (metis market_of_simps(2))
    next
      case Rests
      with eq have "mk_queue (market_of b') = (resting b1)(rq_side req := enqueue (rq_side req)
          (resting_order req order_id r) (resting b1 (rq_side req)))"
        "out' = out @ fill_events req order_id (rq_quantity req) fills @ [EvNew (resting_order req order_id r)]"
        by simp_all
      then show thesis using b1(2) ne False Rested by simp
    qed
  qed
qed

section \<open>The subscriber follows the engine\<close>

lemma replay_refusal: "replay (log @ [refusal reason n req]) = replay log"
  by (simp add: replay_append refusal_def)

lemma process_new_logged:
  assumes inv: "engine_inv p e" and ids: "ids_inv e" and log: "replay out = ledger_of e"
    and res: "process_new Vec_emit p e req out = Inr (e', out')"
  shows "replay out' = ledger_of e'"
proof (cases "registered e (rq_instrument_id req) \<and> rq_quantity req \<noteq> 0 \<and> rq_price req \<noteq> 0")
  case False
  then have "e' = e \<and> (\<exists>reason n. out' = out @ [refusal reason n req])"
    using res process_new_rejects [of e req Vec_emit p out]
    by (cases "registered e (rq_instrument_id req)"; cases "rq_quantity req = 0")
      (auto simp: push_reject_def Vec_emit_def refusal_def)
  with log show ?thesis by (auto simp: replay_refusal)
next
  case True
  let ?k = "rq_instrument_id req" and ?s = "rq_side req" and ?t = "opposite (rq_side req)"
  let ?Q = "ledger_of e" and ?x = "resting_order req (en_next_order_id e)"
  from True obtain b where b: "map_of (en_books e) ?k = Some b" by (auto simp: registered_def)
  from res True obtain n b' where m: "match_limit Vec_emit p b req (en_next_order_id e) out = Inr (b', out')"
    and "e' = e\<lparr>en_books := hm_insert ?k b' (en_books e), en_next_order_id := n\<rparr>"
    by (auto simp: process_new_valid [OF b] rbind_eq_Inr)
  then have "en_books e' = hm_insert ?k b' (en_books e)" by simp
  note put = ledger_put [OF b this]
  obtain fills r q where sw: "sweep_of b req = (fills, r, q)" by (metis prod_cases3)
  have ne: "?t \<noteq> ?s" by (cases ?s) simp_all
  have fills: "fold apply_event (fill_events req (en_next_order_id e) (rq_quantity req) fills) ?Q = ?Q((?k, ?t) := q)"
    using sw ledger_ids [OF inv ids] by (intro replay_fills) (simp_all add: sweep_of_def put(2))
  from engine_invD(2) [OF inv b] sw m show ?thesis
  proof (cases rule: match_limit_events)
    case (Killed reason)
    then show ?thesis using log put by (auto simp: replay_refusal fun_eq_iff)
  next
    case (Traded tail)
    have "ledger_of e' = ?Q((?k, ?t) := q)" unfolding put(1) Traded(3) using put(2) by (auto simp: fun_eq_iff)
    with Traded(1,2) fills log show ?thesis by (auto simp: replay_append refusal_def)
  next
    case Rested
    have "ledger_of e' = ?Q((?k, ?t) := q, (?k, ?s) := enqueue ?s (?x r) (?Q (?k, ?s)))"
      unfolding put(1) Rested(2) using put(2) by (auto simp: fun_eq_iff)
    with Rested(1) fills log ne show ?thesis by (simp add: replay_append resting_order_def Let_def)
  qed
qed

lemma process_cancel_logged:
  assumes inv: "engine_inv p e" and ids: "ids_inv e" and log: "replay out = ledger_of e"
    and res: "process_cancel Vec_emit p e req out = Inr (e', out')"
  shows "replay out' = ledger_of e'"
proof (cases "map_of (en_books e) (rq_instrument_id req)")
  case None
  with process_cancel_outcomes(1) [OF inv, of req Vec_emit out] res log show ?thesis
    by (auto simp: registered_def push_reject_def Vec_emit_def replay_append)
next
  case (Some b)
  let ?k = "rq_instrument_id req" and ?h = "rq_intent_hash req"
  show ?thesis
  proof (cases "hash_resting b ?h")
    case False
    from process_cancel_outcomes(2) [OF inv Some False, of Vec_emit out] res log show ?thesis
      by (auto simp: push_reject_def Vec_emit_def replay_append ledger_of_def)
  next
    case True
    from process_cancel_outcomes(3) [OF inv Some True, of Vec_emit out] res obtain x s b' where
      x: "x \<in> set (resting b s)" "o_intent_hash x = ?h"
      and e': "e' = e\<lparr>en_books := hm_insert ?k b' (en_books e)\<rparr>"
      "out' = out @ [EvCancel (oid x) (rq_origin_ts req) ?h]"
      "resting b' = (\<lambda>s. filter (\<lambda>y. o_intent_hash y \<noteq> ?h) (resting b s))"
      by (auto simp: push_cancel_def Vec_emit_def)
    from e'(1) have "en_books e' = hm_insert ?k b' (en_books e)" by simp
    note put = ledger_put [OF Some this]
    have x': "x \<in> set (ledger_of e (?k, s))" using x(1) put(2) by simp
    have key: "oid y = oid x \<longleftrightarrow> j = ?k \<and> o_intent_hash y = ?h" if y: "y \<in> set (ledger_of e (j, t))" for y j t
    proof
      assume "oid y = oid x"
      with ids ledger_live [OF x'] ledger_live [OF y] x(2) show "j = ?k \<and> o_intent_hash y = ?h"
        unfolding ids_inv_def by metis
    next
      assume "j = ?k \<and> o_intent_hash y = ?h"
      with ledger_hashes [OF inv x', of y t] y x(2) show "oid y = oid x" by simp
    qed
    have "filter (\<lambda>y. oid y \<noteq> oid x) (ledger_of e (j, t)) = ledger_of e' (j, t)" for j t
    proof -
      have "filter (\<lambda>y. oid y \<noteq> oid x) (ledger_of e (j, t)) =
          filter (\<lambda>y. \<not> (j = ?k \<and> o_intent_hash y = ?h)) (ledger_of e (j, t))"
        by (intro filter_cong refl) (simp add: key)
      also have "\<dots> = ledger_of e' (j, t)" by (cases "j = ?k") (simp_all add: put e'(3))
      finally show ?thesis .
    qed
    then show ?thesis using log e'(2) by (auto simp: replay_append fun_eq_iff)
  qed
qed

lemma engine_step_logged:
  assumes inv: "engine_inv p e" and ids: "ids_inv e" and log: "replay out = ledger_of e"
    and res: "engine_step p (e, out) c = Inr (e', out')"
  shows "replay out' = ledger_of e'"
proof (cases c)
  case (AddInstrument i cap)
  with res obtain r where r: "add_instrument e i cap = Inr (e', r)" "out' = out" by (auto simp: rbind_eq_Inr)
  have "ledger_of e' = ledger_of e"
  proof (cases "e' = e")
    case False
    with r(1) obtain b where b: "OrderBook_new i cap = Inr b" "map_of (en_books e) i = None"
      "e' = e\<lparr>en_books := hm_insert i b (en_books e)\<rparr>"
      by (auto simp: add_instrument_def rbind_eq_Inr split: if_splits)
    with new_book_empty [OF b(1)] show ?thesis by (auto simp: ledger_of_def fun_eq_iff)
  qed simp
  with log r(2) show ?thesis by simp
next
  case (Process req)
  with res have "Engine_process Vec_emit p e req out = Inr (e', out')" by simp
  then show ?thesis
    by (cases rule: Engine_process_cases)
      (use process_new_logged [OF inv ids log] process_cancel_logged [OF inv ids log] in blast)+
qed

lemma engine_exec_logged:
  assumes "engine_inv p e" and "ids_inv e" and "replay out = ledger_of e"
    and "unat (en_next_order_id e) + length cs < 2 ^ 64" and "engine_exec p (e, out) cs = Inr (e', out')"
  shows "replay out' = ledger_of e'"
  using assms
proof (induction cs arbitrary: e out)
  case (Cons c cs)
  then obtain e1 out1 where s: "engine_step p (e, out) c = Inr (e1, out1)" "engine_exec p (e1, out1) cs = Inr (e', out')"
    by (auto simp: rbind_eq_Inr)
  have "unat (en_next_order_id e) + 1 < 2 ^ 64" using Cons.prems(4) by simp
  note ids = step_ids [OF Cons.prems(1,2) this s(1)]
  from Cons.IH [OF engine_step_inv [OF Cons.prems(1) s(1)] _ engine_step_logged [OF Cons.prems(1-3) s(1)] _ s(2)]
    ids Cons.prems(4) show ?case by simp
qed simp

text \<open>A run from the start: its log replays to the books.\<close>

lemma run_start: "ids_inv Engine_new" "replay [] = ledger_of Engine_new"
  by (simp_all add: ids_inv_def live_order_def Engine_new_def replay_def ledger_of_def fun_eq_iff)

lemma run_log:
  assumes "engine_exec p (Engine_new, []) cs = Inr (e, log)" and "length cs < 2 ^ 64"
  shows "replay log = ledger_of e"
  using engine_exec_logged [OF engine_inv_new run_start _ assms(1)] assms(2) by (simp add: Engine_new_def)

section \<open>Properties\<close>

text \<open>
  C3: the events are a complete record of the books. After any run of fewer than 2^64 calls, in
  either profile, a subscriber that has applied the emitted events in order, and nothing else,
  holds for every instrument and side exactly the resting orders of the engine's book, with their
  remaining quantities and in price-time order, and nothing for instruments without a book.
\<close>

theorem events_reconstruct_books:
  assumes "engine_exec p (Engine_new, []) cs = Inr (e, log)" and "length cs < 2 ^ 64"
  shows "replay log (i, s) = (case Engine_book e i of None \<Rightarrow> [] | Some b \<Rightarrow> resting b s)"
  using run_log [OF assms] by (simp add: ledger_of_def Engine_book_def)

theorem events_reconstruct_books_witness:
  "\<exists>e log b. engine_exec Release (Engine_new, [])
     [AddInstrument 1 64, Process (test_req Ask 100 10 GTC RqNew 1), Process (test_req Bid 100 4 GTC RqNew 2)] =
       Inr (e, log) \<and> Engine_book e 1 = Some b \<and> replay log (1, Ask) = resting b Ask \<and>
     map (\<lambda>x. (oid x, o_quantity x)) (resting b Ask) = [(0, 6)] \<and> replay log (2, Ask) = []"
proof -
  let ?cs = "[AddInstrument 1 64, Process (test_req Ask 100 10 GTC RqNew 1), Process (test_req Bid 100 4 GTC RqNew 2)]"
  let ?run = "foldl exchange_step (exchange_new, []) ?cs"
  note defs = exchange_new_def exchange_add_def exchange_new_order_def market_trade_def market_rest_def
    market_orders_def offered_def enqueue_def MAX_CAPACITY_def Let_def
  have "allowed_run exchange_step (exchange_allows Release) (exchange_new, []) ?cs" by (simp add: defs)
  from sim.simulate_run [of Release "(Engine_new, [])" ?cs] this obtain e log where
    e: "engine_exec Release (Engine_new, []) ?cs = Inr (e, log)" "?run = (exchange_of e, log)"
    by (auto simp: engine_inv_new engine_exec_fold run_view_def exchange_of_new)
  have "map_option (\<lambda>m. map (\<lambda>x. (oid x, o_quantity x)) (mk_queue m Ask)) (ex_market (fst ?run) 1) = Some [(0, 6)]"
    "ex_market (fst ?run) 2 = None"
    by (simp_all add: defs resting_order_def)
  with e obtain b where b: "Engine_book e 1 = Some b" "map (\<lambda>x. (oid x, o_quantity x)) (resting b Ask) = [(0, 6)]"
    "Engine_book e 2 = None" by (auto simp: Engine_book_def)
  from events_reconstruct_books [OF e(1), of 1 Ask] events_reconstruct_books [OF e(1), of 2 Ask] b e(1)
  show ?thesis by auto
qed

end
