(* ===== verification/Wire.thy ===== *)
theory Wire
  imports Dex_Types
begin

text \<open>
  The wire forms of \<open>events.rs\<close> and \<open>position.rs\<close>: \<open>PodOrderEvent\<close> and \<open>PodPosition\<close>,
  tagged unions flattened to bytes, with their conversions in both directions.

  \<open>bytemuck\<close> is a third-party crate: \<open>bytes_of\<close> and \<open>checked::try_from_bytes\<close> are parameters
  of the conversions. The locale \<open>checked_cast\<close> names what the conversions rely on of them; the
  interpretations \<open>order_cast\<close> and \<open>reason_cast\<close> show that the \<open>repr(C)\<close> layout of
  \<open>Order\<close> and the \<open>repr(u8)\<close> one of \<open>RejectReason\<close> meet it. Integers are stored in native
  order, little-endian on the x86-64 target.
\<close>

unbundle bit_operations_syntax

section \<open>Bytes and slices\<close>

fun le_bytes :: "nat \<Rightarrow> 'w::len word \<Rightarrow> u8 list" where
  "le_bytes 0 w = []"
| "le_bytes (Suc n) w = ucast w # le_bytes n (drop_bit 8 w)"

fun of_le_bytes :: "u8 list \<Rightarrow> 'w::len word" where
  "of_le_bytes [] = 0"
| "of_le_bytes (b # bs) = ucast b OR push_bit 8 (of_le_bytes bs)"

abbreviation to_ne_bytes :: "u64 \<Rightarrow> u8 list" where
  "to_ne_bytes \<equiv> le_bytes 8"

abbreviation from_ne_bytes :: "u8 list \<Rightarrow> u64" where
  "from_ne_bytes \<equiv> of_le_bytes"

text \<open>\<open>dst[i..j].copy_from_slice(src)\<close> and \<open>&src[i..j]\<close>.\<close>

definition copy_from_slice :: "u8 list \<Rightarrow> nat \<Rightarrow> nat \<Rightarrow> u8 list \<Rightarrow> u8 list res" where
  "copy_from_slice dst i j src =
     (if j < i \<or> length dst < j then Inl (Panic ''slice index out of range'')
      else if length src \<noteq> j - i then Inl (Panic ''copy_from_slice: source slice length does not match'')
      else Inr (take i dst @ src @ drop j dst))"

definition slice_range :: "u8 list \<Rightarrow> nat \<Rightarrow> nat \<Rightarrow> u8 list res" where
  "slice_range src i j =
     (if j < i \<or> length src < j then Inl (Panic ''slice index out of range'')
      else Inr (take (j - i) (drop i src)))"

lemma length_le_bytes [simp]: "length (le_bytes n w) = n"
  by (induction n arbitrary: w) auto

lemma of_le_bytes_le_bytes: "of_le_bytes (le_bytes n w) = take_bit (8 * n) (w :: 'w::len word)"
proof (induction n arbitrary: w)
  case (Suc n)
  show ?case
    by (rule bit_word_eqI) (auto simp: Suc.IH bit_simps)
qed simp

lemma ne_bytes_roundtrip [simp]: "from_ne_bytes (to_ne_bytes w) = w"
  by (simp add: of_le_bytes_le_bytes take_bit_word_eq_self)

lemma u32_bytes_roundtrip [simp]: "of_le_bytes (le_bytes 4 w) = (w :: u32)"
  by (simp add: of_le_bytes_le_bytes take_bit_word_eq_self)

section \<open>PodOrderEvent\<close>

record PodOrderEvent =
  pe_tag :: u8
  pe_pad :: "u8 list"
  pe_origin_ts :: u64
  pe_payload :: "u8 list"

datatype InvalidTag = InvalidTag u8

definition PodOrderEvent_zeroed :: PodOrderEvent where
  "PodOrderEvent_zeroed =
     \<lparr>pe_tag = 0, pe_pad = replicate 7 0, pe_origin_ts = 0, pe_payload = replicate 72 0\<rparr>"

text \<open>One assignment \<open>pod_order.payload[i..j].copy_from_slice(src)\<close>.\<close>

definition put_payload :: "nat \<Rightarrow> nat \<Rightarrow> u8 list \<Rightarrow> PodOrderEvent \<Rightarrow> PodOrderEvent res" where
  "put_payload i j src pod =
     rbind (copy_from_slice (pe_payload pod) i j src) (\<lambda>pl. Inr (pod\<lparr>pe_payload := pl\<rparr>))"

fun PodOrderEvent_from :: "(Order \<Rightarrow> u8 list) \<Rightarrow> OrderEvent \<Rightarrow> PodOrderEvent res" where
  "PodOrderEvent_from bytes_of (EvNew ord) =
     put_payload 0 72 (bytes_of ord)
       (PodOrderEvent_zeroed\<lparr>pe_tag := 0, pe_origin_ts := o_origin_ts ord\<rparr>)"
| "PodOrderEvent_from bytes_of (EvFill i fill_qty fill_price origin_ts intent_hash) =
     rbind (put_payload 0 8 (to_ne_bytes i)
       (PodOrderEvent_zeroed\<lparr>pe_tag := 1, pe_origin_ts := origin_ts\<rparr>)) (\<lambda>pod.
     rbind (put_payload 8 16 (to_ne_bytes fill_qty) pod) (\<lambda>pod.
     rbind (put_payload 16 24 (to_ne_bytes fill_price) pod) (\<lambda>pod.
     put_payload 24 56 (hash_bytes intent_hash) pod)))"
| "PodOrderEvent_from bytes_of
     (EvPartialFill i fill_qty fill_price remaining_qty origin_ts intent_hash) =
     rbind (put_payload 0 8 (to_ne_bytes i)
       (PodOrderEvent_zeroed\<lparr>pe_tag := 2, pe_origin_ts := origin_ts\<rparr>)) (\<lambda>pod.
     rbind (put_payload 8 16 (to_ne_bytes fill_qty) pod) (\<lambda>pod.
     rbind (put_payload 16 24 (to_ne_bytes fill_price) pod) (\<lambda>pod.
     rbind (put_payload 24 32 (to_ne_bytes remaining_qty) pod) (\<lambda>pod.
     put_payload 32 64 (hash_bytes intent_hash) pod))))"
| "PodOrderEvent_from bytes_of (EvCancel i origin_ts intent_hash) =
     rbind (put_payload 0 8 (to_ne_bytes i)
       (PodOrderEvent_zeroed\<lparr>pe_tag := 3, pe_origin_ts := origin_ts\<rparr>)) (\<lambda>pod.
     put_payload 8 40 (hash_bytes intent_hash) pod)"
| "PodOrderEvent_from bytes_of (EvReject i reason remaining_qty origin_ts intent_hash) =
     rbind (put_payload 0 8 (to_ne_bytes i)
       (PodOrderEvent_zeroed\<lparr>pe_tag := 4, pe_origin_ts := origin_ts\<rparr>)) (\<lambda>pod.
     rbind (put_payload 8 40 (hash_bytes intent_hash) pod) (\<lambda>pod.
     rbind (put_payload 40 48 (to_ne_bytes remaining_qty) pod) (\<lambda>pod.
     put_payload 48 49 [RejectReason_u8 reason] pod)))"

definition read_u64 :: "PodOrderEvent \<Rightarrow> nat \<Rightarrow> u64 res" where
  "read_u64 value off =
     rbind (slice_range (pe_payload value) off (off + 8)) (\<lambda>s.
     rbind (copy_from_slice (replicate 8 0) 0 8 s) (\<lambda>buf. Inr (from_ne_bytes buf)))"

definition read_intent_hash :: "PodOrderEvent \<Rightarrow> nat \<Rightarrow> IntentHash res" where
  "read_intent_hash value off =
     rbind (slice_range (pe_payload value) off (off + 32)) (\<lambda>s.
     rbind (copy_from_slice (replicate 32 0) 0 32 s) (\<lambda>buf. Inr (IntentHash buf)))"

definition OrderEvent_try_from ::
  "(u8 list \<Rightarrow> Order option) \<Rightarrow> (u8 list \<Rightarrow> RejectReason option) \<Rightarrow> PodOrderEvent
   \<Rightarrow> (InvalidTag + OrderEvent) res" where
  "OrderEvent_try_from try_order try_reason value =
     (if pe_tag value = 0 then
        rbind (copy_from_slice (replicate 72 0) 0 72 (pe_payload value)) (\<lambda>buf.
          Inr (case try_order buf of None \<Rightarrow> Inl (InvalidTag 0) | Some ord \<Rightarrow> Inr (EvNew ord)))
      else if pe_tag value = 1 then
        rbind (read_u64 value 0) (\<lambda>i. rbind (read_u64 value 8) (\<lambda>q.
        rbind (read_u64 value 16) (\<lambda>pr. rbind (read_intent_hash value 24) (\<lambda>h.
          Inr (Inr (EvFill i q pr (pe_origin_ts value) h))))))
      else if pe_tag value = 2 then
        rbind (read_u64 value 0) (\<lambda>i. rbind (read_u64 value 8) (\<lambda>q.
        rbind (read_u64 value 16) (\<lambda>pr. rbind (read_u64 value 24) (\<lambda>r.
        rbind (read_intent_hash value 32) (\<lambda>h.
          Inr (Inr (EvPartialFill i q pr r (pe_origin_ts value) h)))))))
      else if pe_tag value = 3 then
        rbind (read_u64 value 0) (\<lambda>i. rbind (read_intent_hash value 8) (\<lambda>h.
          Inr (Inr (EvCancel i (pe_origin_ts value) h))))
      else if pe_tag value = 4 then
        rbind (slice_range (pe_payload value) 48 49) (\<lambda>rb.
        case try_reason rb of
          None \<Rightarrow> Inr (Inl (InvalidTag (pe_payload value ! 48)))
        | Some reason \<Rightarrow>
            rbind (read_u64 value 0) (\<lambda>i. rbind (read_u64 value 40) (\<lambda>r.
            rbind (read_intent_hash value 8) (\<lambda>h.
              Inr (Inr (EvReject i reason r (pe_origin_ts value) h))))))
      else Inr (Inl (InvalidTag (pe_tag value))))"

section \<open>PodPosition\<close>

record PodPosition =
  pp_tag :: u8
  pp_pad :: "u8 list"
  pp_qty :: u64
  pp_avg_price :: u64

fun PodPosition_from :: "Position \<Rightarrow> PodPosition" where
  "PodPosition_from Flat = \<lparr>pp_tag = 0, pp_pad = replicate 7 0, pp_qty = 0, pp_avg_price = 0\<rparr>"
| "PodPosition_from (Long q a) = \<lparr>pp_tag = 1, pp_pad = replicate 7 0, pp_qty = q, pp_avg_price = a\<rparr>"
| "PodPosition_from (Short q a) = \<lparr>pp_tag = 2, pp_pad = replicate 7 0, pp_qty = q, pp_avg_price = a\<rparr>"

definition Position_try_from :: "PodPosition \<Rightarrow> InvalidTag + Position" where
  "Position_try_from pod =
     (if pp_tag pod = 0 then Inr Flat
      else if pp_tag pod = 1 then Inr (Long (pp_qty pod) (pp_avg_price pod))
      else if pp_tag pod = 2 then Inr (Short (pp_qty pod) (pp_avg_price pod))
      else Inl (InvalidTag (pp_tag pod)))"

section \<open>Checked casts\<close>

text \<open>
  What the conversions use of \<open>bytemuck\<close> for a type of \<open>size\<close> bytes: a valid value is viewed as
  \<open>size\<close> bytes, and the checked cast of those bytes gives the value back.
\<close>

locale checked_cast =
  fixes valid :: "'t \<Rightarrow> bool"
    and size_of :: nat
    and bytes_of :: "'t \<Rightarrow> u8 list"
    and try_from_bytes :: "u8 list \<Rightarrow> 't option"
  assumes length_bytes_of: "valid x \<Longrightarrow> length (bytes_of x) = size_of"
    and try_from_bytes_of: "valid x \<Longrightarrow> try_from_bytes (bytes_of x) = Some x"
begin

lemma bytes_of_inj: "valid x \<Longrightarrow> valid y \<Longrightarrow> bytes_of x = bytes_of y \<Longrightarrow> x = y"
  by (metis option.inject try_from_bytes_of)

end

text \<open>The memory of an \<open>Order\<close>: its fields in \<open>repr(C)\<close> order, without padding (\<open>wire_layouts\<close>).\<close>

definition Order_bytes :: "Order \<Rightarrow> u8 list" where
  "Order_bytes ord =
     to_ne_bytes (order_id_0 (o_order_id ord)) @ to_ne_bytes (o_price ord) @
     to_ne_bytes (o_quantity ord) @ to_ne_bytes (o_origin_ts ord) @
     le_bytes 4 (o_instrument_id ord) @
     [Side_u8 (o_side ord), OrderType_u8 (o_order_type ord), TimeInForce_u8 (o_tif ord), o_padding ord] @
     hash_bytes (o_intent_hash ord)"

definition Side_of_u8 :: "u8 \<Rightarrow> Side option" where
  "Side_of_u8 b = List.find (\<lambda>s. Side_u8 s = b) [Bid, Ask]"

definition OrderType_of_u8 :: "u8 \<Rightarrow> OrderType option" where
  "OrderType_of_u8 b = List.find (\<lambda>t. OrderType_u8 t = b) [Limit]"

definition TimeInForce_of_u8 :: "u8 \<Rightarrow> TimeInForce option" where
  "TimeInForce_of_u8 b = List.find (\<lambda>t. TimeInForce_u8 t = b) [GTC, IOC, FOK]"

definition RejectReason_of_bytes :: "u8 list \<Rightarrow> RejectReason option" where
  "RejectReason_of_bytes bs =
     (case bs of
        [b] \<Rightarrow> List.find (\<lambda>r. RejectReason_u8 r = b)
          [InsufficientBalance, InsufficientMargin, PositionLimitExceeded, RateLimitExceeded,
           InvalidPrice, InvalidQuantity, UnknownInstrument, UnknownOrder, SystemAtCapacity,
           InsufficientLiquidity, RrDuplicateIntent]
      | _ \<Rightarrow> None)"

definition Order_of_bytes :: "u8 list \<Rightarrow> Order option" where
  "Order_of_bytes bs =
     (if length bs \<noteq> 72 then None
      else case (Side_of_u8 (bs ! 36), OrderType_of_u8 (bs ! 37), TimeInForce_of_u8 (bs ! 38)) of
        (Some s, Some ty, Some t) \<Rightarrow>
          Some \<lparr>o_order_id = OrderId (from_ne_bytes (take 8 bs)),
                o_price = from_ne_bytes (take 8 (drop 8 bs)),
                o_quantity = from_ne_bytes (take 8 (drop 16 bs)),
                o_origin_ts = from_ne_bytes (take 8 (drop 24 bs)),
                o_instrument_id = of_le_bytes (take 4 (drop 32 bs)),
                o_side = s, o_order_type = ty, o_tif = t, o_padding = bs ! 39,
                o_intent_hash = IntentHash (drop 40 bs)\<rparr>
      | _ \<Rightarrow> None)"

lemma Side_of_u8_Side_u8 [simp]: "Side_of_u8 (Side_u8 s) = Some s"
  by (cases s) (simp_all add: Side_of_u8_def)

lemma OrderType_of_u8_OrderType_u8 [simp]: "OrderType_of_u8 (OrderType_u8 t) = Some t"
  by (cases t) (simp_all add: OrderType_of_u8_def)

lemma TimeInForce_of_u8_TimeInForce_u8 [simp]: "TimeInForce_of_u8 (TimeInForce_u8 t) = Some t"
  by (cases t) (simp_all add: TimeInForce_of_u8_def)

lemma RejectReason_of_bytes_u8 [simp]: "RejectReason_of_bytes [RejectReason_u8 r] = Some r"
  by (cases r) (simp_all add: RejectReason_of_bytes_def)

interpretation order_cast: checked_cast order_wf 72 Order_bytes Order_of_bytes
proof
  fix ord assume wf: "order_wf ord"
  show len: "length (Order_bytes ord) = 72"
    using wf by (simp add: Order_bytes_def order_wf_def hash_wf_def)
  obtain n where n: "o_order_id ord = OrderId n" by (cases "o_order_id ord")
  obtain h where h: "o_intent_hash ord = IntentHash h" by (cases "o_intent_hash ord")
  show "Order_of_bytes (Order_bytes ord) = Some ord"
    unfolding Order_of_bytes_def using len n h
    by (simp add: Order_bytes_def nth_append)
qed

interpretation reason_cast: checked_cast "\<lambda>_. True" 1 "\<lambda>r. [RejectReason_u8 r]" RejectReason_of_bytes
  by unfold_locales simp_all

section \<open>A wire format\<close>

lemmas wire_defs = put_payload_def copy_from_slice_def slice_range_def PodOrderEvent_zeroed_def
  read_u64_def read_intent_hash_def OrderEvent_try_from_def

text \<open>The two casts together are all that the round trip of an event needs.\<close>

locale wire_format =
  oc: checked_cast order_wf 72 bytes_of try_order + rc: checked_cast "\<lambda>_. True" 1 "\<lambda>r. [RejectReason_u8 r]" try_reason
  for bytes_of try_order try_reason
begin

lemma event_roundtrip:
  assumes "event_wf e"
  shows "\<exists>pod. PodOrderEvent_from bytes_of e = Inr pod \<and> length (pe_payload pod) = 72 \<and>
    pe_origin_ts pod = (case e of EvNew ord \<Rightarrow> o_origin_ts ord | _ \<Rightarrow> ev_origin_ts e) \<and>
    OrderEvent_try_from try_order try_reason pod = Inr (Inr e)"
proof (cases e)
  case (EvNew ord)
  then have "order_wf ord" using assms by simp
  with EvNew show ?thesis
    using oc.length_bytes_of oc.try_from_bytes_of
    by (simp add: wire_defs)
next
  case (EvFill i q pr ts h)
  with assms show ?thesis by (cases h) (simp add: wire_defs hash_wf_def)
next
  case (EvPartialFill i q pr r ts h)
  with assms show ?thesis by (cases h) (simp add: wire_defs hash_wf_def)
next
  case (EvCancel i ts h)
  with assms show ?thesis by (cases h) (simp add: wire_defs hash_wf_def)
next
  case (EvReject i rr r ts h)
  with assms show ?thesis using rc.try_from_bytes_of
    by (cases h) (simp add: wire_defs hash_wf_def nth_append)
qed

end

interpretation layout: wire_format Order_bytes Order_of_bytes RejectReason_of_bytes
  by unfold_locales

section \<open>Intent hashes of the benchmarks\<close>

text \<open>The benchmarks and examples make distinct intent hashes from a counter.\<close>

definition hash_from_seed :: "u64 \<Rightarrow> IntentHash" where
  "hash_from_seed seed = IntentHash (to_ne_bytes seed @ replicate 24 0)"

lemma hash_from_seed_inj [simp]: "hash_from_seed a = hash_from_seed b \<longleftrightarrow> a = b"
proof
  assume "hash_from_seed a = hash_from_seed b"
  then have "to_ne_bytes a = to_ne_bytes b" by (simp add: hash_from_seed_def)
  then show "a = b" by (metis ne_bytes_roundtrip)
qed simp

section \<open>Properties\<close>

text \<open>
  C25: every event survives the wire. For any \<open>bytes_of\<close>/\<open>try_from_bytes\<close> that meet the
  checked-cast contract, converting a well-formed event to \<open>PodOrderEvent\<close> does not panic,
  fills a 72-byte payload with the event's \<open>origin_ts\<close> in the header, and converting back
  gives the event, for all five variants.
\<close>

theorem order_event_roundtrip:
  assumes "checked_cast order_wf 72 bytes_of try_order"
    and "checked_cast (\<lambda>_. True) 1 (\<lambda>r. [RejectReason_u8 r]) try_reason"
    and "event_wf e"
  shows "\<exists>pod. PodOrderEvent_from bytes_of e = Inr pod \<and> length (pe_payload pod) = 72 \<and>
    pe_origin_ts pod = (case e of EvNew ord \<Rightarrow> o_origin_ts ord | _ \<Rightarrow> ev_origin_ts e) \<and>
    OrderEvent_try_from try_order try_reason pod = Inr (Inr e)"
  by (rule wire_format.event_roundtrip [OF wire_format.intro [OF assms(1,2)] assms(3)])

theorem order_event_roundtrip_witness:
  "\<exists>pod. PodOrderEvent_from Order_bytes (EvReject 7 InvalidPrice 5 9 (IntentHash (replicate 32 90))) = Inr pod \<and>
     length (pe_payload pod) = 72 \<and> pe_origin_ts pod = 9 \<and>
     OrderEvent_try_from Order_of_bytes RejectReason_of_bytes pod =
       Inr (Inr (EvReject 7 InvalidPrice 5 9 (IntentHash (replicate 32 90))))"
  using order_event_roundtrip [OF order_cast.checked_cast_axioms reason_cast.checked_cast_axioms,
      of "EvReject 7 InvalidPrice 5 9 (IntentHash (replicate 32 90))"]
  by (simp add: hash_wf_def)

text \<open>
  C37: decoding is total on 72-byte payloads and rejects exactly what it must. It always returns,
  with an event or an error and never with a panic, whatever tag and bytes arrive; it fails precisely on a tag above 4, on a \<open>New\<close> whose bytes the checked cast refuses
  (\<open>InvalidTag(0)\<close>) and on a \<open>Reject\<close> whose reason byte is no discriminant (\<open>InvalidTag\<close> of
  that byte).
\<close>

theorem order_event_decode_errors:
  assumes "length (pe_payload pod) = 72"
  shows "(\<exists>r. OrderEvent_try_from try_order try_reason pod = Inr r) \<and>
    (OrderEvent_try_from try_order try_reason pod = Inr (Inl t) \<longleftrightarrow>
      pe_tag pod = 0 \<and> try_order (pe_payload pod) = None \<and> t = InvalidTag 0 \<or>
      pe_tag pod = 4 \<and> try_reason [pe_payload pod ! 48] = None \<and> t = InvalidTag (pe_payload pod ! 48) \<or>
      4 < pe_tag pod \<and> t = InvalidTag (pe_tag pod))"
proof -
  have rb: "take (Suc 0) (drop 48 (pe_payload pod)) = [pe_payload pod ! 48]"
    using assms by (simp add: take_Suc_conv_app_nth)
  have "pe_tag pod = 0 \<or> pe_tag pod = 1 \<or> pe_tag pod = 2 \<or> pe_tag pod = 3 \<or> pe_tag pod = 4 \<or>
      4 < pe_tag pod"
    by (simp add: word_less_nat_alt word_unat_eq_iff) arith
  with assms rb show ?thesis
    by (elim disjE) (auto simp: wire_defs split: option.splits)
qed

theorem order_event_decode_errors_witness:
  "OrderEvent_try_from Order_of_bytes RejectReason_of_bytes
     \<lparr>pe_tag = 99, pe_pad = replicate 7 0, pe_origin_ts = 0, pe_payload = replicate 72 0\<rparr>
   = Inr (Inl (InvalidTag 99))"
  using order_event_decode_errors [of "\<lparr>pe_tag = 99, pe_pad = replicate 7 0, pe_origin_ts = 0,
      pe_payload = replicate 72 0\<rparr>" Order_of_bytes RejectReason_of_bytes "InvalidTag 99"]
  by simp

text \<open>
  Positions survive the wire, and a \<open>PodPosition\<close> is refused exactly when its tag is none
  of 0, 1, 2.
\<close>

theorem position_roundtrip:
  "Position_try_from (PodPosition_from pos) = Inr pos \<and>
   (\<forall>pod. (\<exists>t. Position_try_from pod = Inl (InvalidTag t)) = (2 < pp_tag pod))"
proof (intro conjI allI)
  show "Position_try_from (PodPosition_from pos) = Inr pos"
    by (cases pos) (simp_all add: Position_try_from_def)
  fix pod :: PodPosition
  have "pp_tag pod = 0 \<or> pp_tag pod = 1 \<or> pp_tag pod = 2 \<or> 2 < pp_tag pod"
    by (simp add: word_less_nat_alt word_unat_eq_iff) arith
  then show "(\<exists>t. Position_try_from pod = Inl (InvalidTag t)) = (2 < pp_tag pod)"
    by (auto simp: Position_try_from_def)
qed

end
