(* ===== verification/Feed.thy ===== *)
theory Feed
  imports Event_Log Wire
begin

text \<open>
  What the engine puts on the wire. Every event of a run is a value the wire form can carry, every
  order that rests is well formed and filed where it belongs, and a subscriber at the other end of
  the encoding, which sees only \<open>PodOrderEvent\<close> images, holds the engine's books.
\<close>

section \<open>Well-formed events\<close>

text \<open>A request of the Rust type: its intent hash is a 32-byte array.\<close>

fun command_wf :: "command \<Rightarrow> bool" where
  "command_wf (AddInstrument i cap) = True"
| "command_wf (Process req) = hash_wf (rq_intent_hash req)"

definition order_ok :: "u32 \<Rightarrow> Side \<Rightarrow> Order \<Rightarrow> bool" where
  "order_ok i s x \<longleftrightarrow> order_wf x \<and> o_instrument_id x = i \<and> o_side x = s \<and> o_price x \<noteq> 0 \<and> o_quantity x \<noteq> 0"

definition event_ok :: "OrderEvent \<Rightarrow> bool" where
  "event_ok ev \<longleftrightarrow> event_wf ev \<and>
     (case ev of EvNew x \<Rightarrow> o_price x \<noteq> 0 \<and> o_quantity x \<noteq> 0
      | EvPartialFill i q pr r ts h \<Rightarrow> r \<noteq> 0 | _ \<Rightarrow> True)"

lemma apply_event_ok:
  assumes "event_ok ev" and "\<And>i s x. x \<in> set (Q (i, s)) \<Longrightarrow> order_ok i s x" and "x \<in> set (apply_event ev Q (i, s))"
  shows "order_ok i s x"
  using assms by (cases ev) (auto simp: event_ok_def order_ok_def order_wf_def set_enqueue Let_def split: if_splits)

lemma replay_ok:
  assumes "list_all event_ok log" and "x \<in> set (replay log (i, s))"
  shows "order_ok i s x"
  using assms
proof (induction log arbitrary: i s x rule: rev_induct)
  case (snoc ev log)
  then show ?case using apply_event_ok [of ev "replay log" x i s] by (auto simp: replay_append)
qed (simp add: replay_def)

lemma sweep_makers: "sweep cr n q = (fills, r, q') \<Longrightarrow> fst ` set fills \<subseteq> set q"
  by (induction cr n q arbitrary: fills rule: sweep.induct) (fastforce split: if_splits prod.splits)+

lemma fill_events_ok:
  assumes "hash_wf (rq_intent_hash req)" and "\<forall>x \<in> fst ` set fills. hash_wf (o_intent_hash x)"
  shows "list_all event_ok (fill_events req order_id n fills)"
  using assms
  by (induction req order_id n fills rule: fill_events.induct)
    (auto simp: taker_event_def maker_event_def event_ok_def)

lemma refusal_ok: "hash_wf (rq_intent_hash req) \<Longrightarrow> event_ok (refusal reason n req)"
  by (simp add: refusal_def event_ok_def)

lemma cancel_ok: "hash_wf h \<Longrightarrow> event_ok (EvCancel i ts h)"
  by (simp add: event_ok_def)

lemma engine_step_events:
  assumes inv: "engine_inv p e" and wf: "command_wf c"
    and old: "\<And>i s x. x \<in> set (ledger_of e (i, s)) \<Longrightarrow> order_ok i s x"
    and res: "engine_step p (e, out) c = Inr (e', out')"
  shows "\<exists>evs. out' = out @ evs \<and> list_all event_ok evs"
proof (cases c)
  case (AddInstrument i cap)
  with res show ?thesis by (auto simp: rbind_eq_Inr)
next
  case (Process req)
  with wf have h: "hash_wf (rq_intent_hash req)" by simp
  from Process res have "Engine_process Vec_emit p e req out = Inr (e', out')" by simp
  then show ?thesis
  proof (cases rule: Engine_process_cases)
    case Cancel
    from cancel_refines [OF inv Cancel(2)] h show ?thesis
      by (auto simp: exchange_cancel_def market_cancel_def refusal_ok cancel_ok split: option.splits prod.splits)
  next
    case New
    show ?thesis
    proof (cases "registered e (rq_instrument_id req) \<and> rq_quantity req \<noteq> 0 \<and> rq_price req \<noteq> 0")
      case False
      then show ?thesis using New(2) process_new_rejects [of e req Vec_emit p out] h
        by (cases "registered e (rq_instrument_id req)"; cases "rq_quantity req = 0")
          (auto simp: push_reject_def Vec_emit_def event_ok_def)
    next
      case True
      then obtain b where b: "map_of (en_books e) (rq_instrument_id req) = Some b" by (auto simp: registered_def)
      from New(2) True obtain b' where m: "match_limit Vec_emit p b req (en_next_order_id e) out = Inr (b', out')"
        by (auto simp: process_new_valid [OF b] rbind_eq_Inr)
      obtain fills r q where sw: "sweep_of b req = (fills, r, q)" by (metis prod_cases3)
      have "hash_wf (o_intent_hash x)" if "x \<in> fst ` set fills" for x
      proof -
        have "x \<in> set (ledger_of e (rq_instrument_id req, opposite (rq_side req)))"
          using sweep_makers [OF sw [unfolded sweep_of_def]] that b by (auto simp: ledger_of_mem)
        from old [OF this] show ?thesis by (simp add: order_ok_def order_wf_def)
      qed
      then have fills: "list_all event_ok (fill_events req (en_next_order_id e) (rq_quantity req) fills)"
        using fill_events_ok [OF h] by blast
      from engine_invD(2) [OF inv b] sw m show ?thesis
      proof (cases rule: match_limit_events)
        case Rested
        with True h have "event_ok (EvNew (resting_order req (en_next_order_id e) r))"
          by (simp add: event_ok_def order_wf_def)
        with Rested(1) fills show ?thesis by simp
      qed (use fills h in \<open>auto simp: refusal_ok\<close>)
    qed
  qed
qed

lemma engine_exec_events:
  assumes "engine_inv p e" and "ids_inv e" and "replay out = ledger_of e" and "list_all event_ok out"
    and "unat (en_next_order_id e) + length cs < 2 ^ 64" and "list_all command_wf cs"
    and "engine_exec p (e, out) cs = Inr (e', out')"
  shows "list_all event_ok out'"
  using assms
proof (induction cs arbitrary: e out)
  case (Cons c cs)
  then obtain e1 out1 where s: "engine_step p (e, out) c = Inr (e1, out1)" "engine_exec p (e1, out1) cs = Inr (e', out')"
    by (auto simp: rbind_eq_Inr)
  have old: "order_ok i s x" if "x \<in> set (ledger_of e (i, s))" for i s x
    using replay_ok [OF Cons.prems(4)] that Cons.prems(3) by metis
  have "list_all event_ok out1"
    using engine_step_events [OF Cons.prems(1) _ old s(1)] Cons.prems(4,6) by auto
  moreover have "unat (en_next_order_id e) + 1 < 2 ^ 64" using Cons.prems(5) by simp
  note step_ids [OF Cons.prems(1,2) this s(1)]
  moreover note engine_step_inv [OF Cons.prems(1) s(1)] engine_step_logged [OF Cons.prems(1-3) s(1)]
  ultimately show ?case using Cons.IH [OF _ _ _ _ _ _ s(2)] Cons.prems(5,6) by simp
qed simp

lemma run_events:
  assumes "engine_exec p (Engine_new, []) cs = Inr (e, log)" and "length cs < 2 ^ 64" and "list_all command_wf cs"
  shows "list_all event_ok log"
  using engine_exec_events [OF engine_inv_new run_start _ _ assms(3,1)] assms(2) by (simp add: Engine_new_def)

section \<open>A feed of wire images\<close>

fun encode_feed :: "(Order \<Rightarrow> u8 list) \<Rightarrow> OrderEvent list \<Rightarrow> PodOrderEvent list res" where
  "encode_feed bytes_of [] = Inr []"
| "encode_feed bytes_of (ev # evs) =
     rbind (PodOrderEvent_from bytes_of ev) (\<lambda>pod. rbind (encode_feed bytes_of evs) (\<lambda>pods. Inr (pod # pods)))"

fun decode_feed :: "(u8 list \<Rightarrow> Order option) \<Rightarrow> (u8 list \<Rightarrow> RejectReason option) \<Rightarrow> PodOrderEvent list \<Rightarrow>
    (InvalidTag + OrderEvent list) res" where
  "decode_feed try_order try_reason [] = Inr (Inr [])"
| "decode_feed try_order try_reason (pod # pods) =
     rbind (OrderEvent_try_from try_order try_reason pod) (\<lambda>r. case r of Inl t \<Rightarrow> Inr (Inl t)
       | Inr ev \<Rightarrow> rbind (decode_feed try_order try_reason pods) (\<lambda>rs. case rs of Inl t \<Rightarrow> Inr (Inl t)
           | Inr evs \<Rightarrow> Inr (Inr (ev # evs))))"

context wire_format
begin

lemma feed_roundtrip:
  "list_all event_wf log \<Longrightarrow> \<exists>pods. encode_feed bytes_of log = Inr pods \<and> length pods = length log \<and>
     list_all (\<lambda>pod. length (pe_payload pod) = 72) pods \<and> decode_feed try_order try_reason pods = Inr (Inr log)"
proof (induction log)
  case (Cons ev log)
  then show ?case using event_roundtrip [of ev] by auto
qed simp

end

lemma event_ok_wf: "list_all event_ok log \<Longrightarrow> list_all event_wf log"
  by (auto simp: list_all_iff event_ok_def)

section \<open>Properties\<close>

text \<open>
  C24: nothing malformed ever rests or leaves. In every run of fewer than 2^64 calls whose requests
  have 32-byte intent hashes, each emitted event is a value of its wire form, and each order in any
  book has a positive price, a positive remaining quantity, a 32-byte hash, the instrument id of the
  book it is in and the side of the queue it is in.
\<close>

theorem resting_orders_well_formed:
  assumes "engine_exec p (Engine_new, []) cs = Inr (e, log)" and "length cs < 2 ^ 64" and "list_all command_wf cs"
    and "Engine_book e i = Some b" and "x \<in> set (resting b s)"
  shows "list_all event_wf log \<and> order_wf x \<and> o_instrument_id x = i \<and> ob_instrument_id b = i \<and> o_side x = s \<and>
    0 < o_price x \<and> 0 < o_quantity x"
proof -
  note log = run_events [OF assms(1-3)]
  have "x \<in> set (replay log (i, s))"
    using assms(4,5) by (simp add: run_log [OF assms(1,2)] ledger_of_mem Engine_book_def)
  from replay_ok [OF log this] event_ok_wf [OF log] engine_invD(3) [OF engine_exec_inv [OF engine_inv_new assms(1)]] assms(4)
  show ?thesis by (simp add: order_ok_def word_gt_0 Engine_book_def)
qed

theorem resting_orders_well_formed_witness:
  "\<exists>e b log x. engine_exec Debug (Engine_new, []) [AddInstrument 1 64, Process (test_req Ask 100 10 GTC RqNew 1)] =
       Inr (e, log) \<and> Engine_book e 1 = Some b \<and> resting b Ask = [x] \<and> order_wf x \<and> 0 < o_quantity x"
proof -
  obtain e b where e: "engine_exec Debug (Engine_new, []) [AddInstrument 1 64, Process (test_req Ask 100 10 GTC RqNew 1)]
      = Inr (e, [EvNew (resting_order (test_req Ask 100 10 GTC RqNew 1) 0 10)])" "map_of (en_books e) 1 = Some b"
    "resting b = (\<lambda>_. [])(Ask := [resting_order (test_req Ask 100 10 GTC RqNew 1) 0 10])"
    by (rule sample_engine_ask)
  have wf: "list_all command_wf [AddInstrument 1 64, Process (test_req Ask 100 10 GTC RqNew 1)]" by (simp add: hash_wf_def)
  from resting_orders_well_formed [OF e(1) _ wf, of 1 b _ Ask] e show ?thesis by (auto simp: Engine_book_def)
qed

end
