(* ===== verification/Ipc_Queue.thy ===== *)
theory Ipc_Queue
  imports Dex_Types
begin

text \<open>
  The broadcast ring of \<open>crates/ipc\<close>: \<open>slot.rs\<close>, \<open>policy.rs\<close> and \<open>queue.rs\<close>. One producer
  publishes into a power-of-two ring of seqlock-protected slots; any number of consumers follow
  with their own cursor and decide by a lap policy what happens when the producer overtakes them.

  The queue behind the \<open>Arc\<close> is an explicit shared state that \<open>publish\<close> returns updated; a
  \<open>poll\<close> only reads it. Here every call is one atomic step: \<open>ring_rel\<close> relates the ring to the
  list of everything ever published, and the properties say what a consumer sees of that list.
  The interleaving of the individual loads and stores is the subject of \<open>Ipc_Seqlock\<close>.
\<close>

section \<open>Data\<close>

datatype LapPolicy = Halt | LpPanic | SkipAndAlert | SkipToLatest

datatype 'a PollResult =
    Ready 'a
  | Empty
  | Halted (last_safe_seq: u64) (pr_slots_lost: u64)
  | Skipped (pr_slots_lost: u64) (new_seq: u64)

record 'a RingSlot =
  rs_version :: u64
  rs_data :: 'a

text \<open>\<open>Slot::new\<close>; the argument is \<open>T::zeroed()\<close>.\<close>

definition RingSlot_new :: "'a \<Rightarrow> 'a RingSlot" where
  "RingSlot_new zeroed = \<lparr>rs_version = 0, rs_data = zeroed\<rparr>"

record 'a Queue =
  q_slots :: "'a RingSlot list"
  q_capacity :: u32
  q_mask :: u32
  q_log2_cap :: u8
  q_published :: u64

record Producer =
  p_cursor :: u64
  p_mask :: u32
  p_log2_cap :: u8

record Consumer =
  c_cursor :: u64
  c_mask :: u32
  c_log2_cap :: u8
  c_policy :: LapPolicy
  c_halted :: "u64 option"

section \<open>Construction\<close>

text \<open>\<open>u32::is_power_of_two\<close> and \<open>u32::trailing_zeros\<close>.\<close>

definition is_power_of_two :: "u32 \<Rightarrow> bool" where
  "is_power_of_two n \<longleftrightarrow> n \<in> set (map (\<lambda>k. 2 ^ k) [0..<32])"

fun trailing_zeros_from :: "nat \<Rightarrow> nat \<Rightarrow> u32 \<Rightarrow> nat" where
  "trailing_zeros_from 0 k n = k"
| "trailing_zeros_from (Suc fuel) k n = (if bit n k then k else trailing_zeros_from fuel (Suc k) n)"

definition trailing_zeros :: "u32 \<Rightarrow> nat" where
  "trailing_zeros n = trailing_zeros_from 32 0 n"

text \<open>The compile-time check of \<open>Queue::new\<close>: \<open>Slot<T>\<close> is \<open>repr(C, align(64))\<close> with an 8-byte
  version in front of the data.\<close>

definition RingSlot_size :: "nat \<Rightarrow> nat \<Rightarrow> nat" where
  "RingSlot_size size_of_T align_of_T = round_up (repr_c_end 0 [(8, 8), (size_of_T, align_of_T)]) 64"

definition slot_fits_cache_line :: "nat \<Rightarrow> nat \<Rightarrow> bool" where
  "slot_fits_cache_line size_of_T align_of_T \<longleftrightarrow> RingSlot_size size_of_T align_of_T \<le> 64"

definition Queue_new :: "'a \<Rightarrow> u32 \<Rightarrow> ('a Queue \<times> Producer) res" where
  "Queue_new zeroed capacity =
     rbind (assert_that (is_power_of_two capacity) ''capacity should be a power of two'') (\<lambda>_.
       let slots = replicate (unat capacity) (RingSlot_new zeroed);
           msk = capacity - 1;
           log2_cap = of_nat (trailing_zeros capacity)
       in Inr (\<lparr>q_slots = slots, q_capacity = capacity, q_mask = msk, q_log2_cap = log2_cap,
               q_published = 0\<rparr>,
              \<lparr>p_cursor = 0, p_mask = msk, p_log2_cap = log2_cap\<rparr>))"

definition Queue_published :: "'a Queue \<Rightarrow> u64" where
  "Queue_published q = q_published q"

definition subscribe :: "'a Queue \<Rightarrow> LapPolicy \<Rightarrow> Consumer" where
  "subscribe q policy =
     \<lparr>c_cursor = Queue_published q, c_mask = q_mask q, c_log2_cap = q_log2_cap q,
      c_policy = policy, c_halted = None\<rparr>"

section \<open>Publishing and polling\<close>

unbundle bit_operations_syntax

definition slot_index :: "u64 \<Rightarrow> u32 \<Rightarrow> nat" where
  "slot_index seq msk = unat (seq AND ucast msk)"

definition lap_of :: "u64 \<Rightarrow> u8 \<Rightarrow> u64" where
  "lap_of seq log2_cap = drop_bit (unat log2_cap) seq"

text \<open>Indexing a slice panics out of bounds.\<close>

definition index_slots :: "'a list \<Rightarrow> nat \<Rightarrow> 'a res" where
  "index_slots xs i = (case slice_get xs i of None \<Rightarrow> Inl (Panic ''index out of bounds'') | Some x \<Rightarrow> Inr x)"

definition publish :: "profile \<Rightarrow> 'a Queue \<Rightarrow> Producer \<Rightarrow> 'a \<Rightarrow> ('a Queue \<times> Producer \<times> u64) res" where
  "publish p q pd value =
     (let seq = p_cursor pd; i = slot_index seq (p_mask pd) in
      rbind (index_slots (q_slots q) i) (\<lambda>slot.
      rbind (times_u p 2 (lap_of seq (p_log2_cap pd))) (\<lambda>v.
      rbind (plus_u p v 1) (\<lambda>v1.
      rbind (plus_u p v 2) (\<lambda>v2.
      rbind (plus_u p seq 1) (\<lambda>cursor.
        let slot1 = slot\<lparr>rs_version := v1\<rparr>;
            slot2 = slot1\<lparr>rs_data := value\<rparr>;
            slot3 = slot2\<lparr>rs_version := v2\<rparr>
        in Inr (q\<lparr>q_slots := (q_slots q)[i := slot3], q_published := cursor\<rparr>,
                pd\<lparr>p_cursor := cursor\<rparr>, seq)))))))"

definition apply_lap_policy :: "profile \<Rightarrow> 'a Queue \<Rightarrow> Consumer \<Rightarrow> (Consumer \<times> 'a PollResult) res" where
  "apply_lap_policy p q c =
     (let live = Queue_published q in
      rbind (minus_u p live (c_cursor c)) (\<lambda>slots_lost.
      case c_policy c of
        Halt \<Rightarrow> Inr (c\<lparr>c_halted := Some slots_lost\<rparr>, Halted (c_cursor c) slots_lost)
      | LpPanic \<Rightarrow> Inl (Panic ''ipc consumer lapped'')
      | SkipToLatest \<Rightarrow> Inr (c\<lparr>c_cursor := live\<rparr>, Skipped slots_lost live)
      | SkipAndAlert \<Rightarrow> Inr (c\<lparr>c_cursor := live\<rparr>, Skipped slots_lost live)))"

definition poll :: "profile \<Rightarrow> 'a Queue \<Rightarrow> Consumer \<Rightarrow> (Consumer \<times> 'a PollResult) res" where
  "poll p q c =
     (case c_halted c of
        Some slots_lost \<Rightarrow> Inr (c, Halted (c_cursor c) slots_lost)
      | None \<Rightarrow>
          let seq = c_cursor c in
          rbind (index_slots (q_slots q) (slot_index seq (c_mask c))) (\<lambda>slot.
          rbind (plus_u p (lap_of seq (c_log2_cap c)) 1) (\<lambda>lap.
          rbind (times_u p 2 lap) (\<lambda>expected.
          let v1 = rs_version slot in
          if expected < v1 then apply_lap_policy p q c
          else if v1 < expected \<or> v1 AND 1 \<noteq> 0 then Inr (c, Empty)
          else
            let data = rs_data slot; v2 = rs_version slot in
            if v2 \<noteq> v1 then Inr (c, Empty)
            else rbind (plus_u p seq 1) (\<lambda>cursor. Inr (c\<lparr>c_cursor := cursor\<rparr>, Ready data))))))"

definition is_halted :: "Consumer \<Rightarrow> bool" where
  "is_halted c \<longleftrightarrow> c_halted c \<noteq> None"

section \<open>Arithmetic of the ring\<close>

text \<open>A capacity \<open>2^k\<close> with the mask and shift \<open>Queue::new\<close> derives from it.\<close>

definition ring_consts :: "nat \<Rightarrow> u32 \<Rightarrow> u8 \<Rightarrow> bool" where
  "ring_consts k msk log2_cap \<longleftrightarrow> k < 32 \<and> msk = 2 ^ k - 1 \<and> log2_cap = of_nat k"

lemma slot_index_mod:
  assumes "ring_consts k msk l"
  shows "slot_index seq msk = unat seq mod 2 ^ k"
proof -
  from assms have k: "k < 32" and m: "msk = 2 ^ k - 1" by (simp_all add: ring_consts_def)
  have "ucast msk = (mask_k :: u64)" if "mask_k = Bit_Operations.mask k" for mask_k
    using k m that by (auto intro!: bit_word_eqI simp: bit_simps mask_eq_exp_minus_1 [symmetric])
  then have "slot_index seq msk = unat (take_bit k seq)"
    by (simp add: slot_index_def take_bit_eq_mask)
  also have "\<dots> = take_bit k (unat seq)" by (rule unsigned_take_bit_eq)
  finally show ?thesis by (simp add: take_bit_eq_mod)
qed

lemma lap_of_div:
  assumes "ring_consts k msk l"
  shows "unat (lap_of seq l) = unat seq div 2 ^ k"
proof -
  from assms have "unat l = k" by (simp add: ring_consts_def unat_of_nat take_bit_nat_eq_self)
  then have "unat (lap_of seq l) = unat (drop_bit k seq)" by (simp only: lap_of_def)
  also have "\<dots> = drop_bit k (unat seq)" by (rule unat_drop_bit_eq)
  finally show ?thesis by (simp add: drop_bit_eq_div)
qed

text \<open>How often slot \<open>j\<close> of a ring of \<open>cap\<close> slots has been written after \<open>n\<close> publications.\<close>

definition writes :: "nat \<Rightarrow> nat \<Rightarrow> nat \<Rightarrow> nat" where
  "writes cap n j = (n + (cap - 1 - j)) div cap"

lemma writes_publish:
  assumes "j < cap"
  shows "writes cap (Suc n) j = (if n mod cap = j then Suc (writes cap n j) else writes cap n j)"
proof -
  have "Suc (n + (cap - 1 - j)) mod cap = 0 \<longleftrightarrow> n mod cap = j"
  proof -
    obtain d where d: "cap = Suc (j + d)" using assms less_imp_Suc_add by blast
    let ?m = "n mod cap"
    have "Suc (n + d) mod cap = (?m + Suc d) mod cap" by (metis add_Suc_right mod_add_left_eq)
    moreover have "?m < cap" using d by simp
    moreover have "(m + Suc d) mod cap = 0 \<longleftrightarrow> m = j" if "m < cap" for m
    proof (cases "m + Suc d < cap")
      case True
      then show ?thesis using d by (simp del: add_Suc_right)
    next
      case False
      then have "(m + Suc d) mod cap = m + Suc d - cap"
        using that d by (subst le_mod_geq) (auto simp del: add_Suc_right)
      also have "\<dots> = m - j" using d by simp
      finally show ?thesis using False d by linarith
    qed
    ultimately have "Suc (n + d) mod cap = 0 \<longleftrightarrow> ?m = j" by (simp del: add_Suc_right)
    then show ?thesis using d by simp
  qed
  then show ?thesis by (simp add: writes_def div_Suc)
qed

lemma writes_at:
  assumes "0 < cap"
  shows "writes cap n (n mod cap) = n div cap"
proof -
  have "n + (cap - 1 - n mod cap) = cap * (n div cap) + (cap - 1)"
    using mod_less_divisor [OF assms, of n] mult_div_mod_eq [of cap n] by linarith
  then have "writes cap n (n mod cap) = (cap * (n div cap) + (cap - 1)) div cap" by (simp add: writes_def)
  also have "\<dots> = n div cap" using assms div_mult_self2 [of cap "cap - 1" "n div cap"] by (simp add: add.commute del: add_diff_assoc)
  finally show ?thesis .
qed

lemma writes_le: "j < cap \<Longrightarrow> writes cap n j \<le> n"
proof (induction n)
  case (Suc n)
  then show ?case by (simp add: writes_publish)
qed (simp add: writes_def)

lemma written_before:
  assumes "j < cap" and "writes cap n j \<noteq> 0"
  shows "j + (writes cap n j - 1) * cap < n"
proof -
  have "writes cap n j * cap \<le> n + (cap - 1 - j)" by (simp add: writes_def)
  moreover have "(writes cap n j - 1) * cap + cap = writes cap n j * cap"
    using assms(2) by (cases "writes cap n j") simp_all
  ultimately show ?thesis using assms(1) by linarith
qed

lemma writes_mono: "m \<le> n \<Longrightarrow> writes cap m j \<le> writes cap n j"
  by (simp add: writes_def div_le_mono)

text \<open>The three positions a cursor can be in relative to the producer.\<close>

lemma writes_cursor:
  assumes "0 < cap"
  shows "n \<le> c \<Longrightarrow> writes cap n (c mod cap) < Suc (c div cap)"
    and "c < n \<Longrightarrow> n \<le> c + cap \<Longrightarrow> writes cap n (c mod cap) = Suc (c div cap)"
    and "c + cap < n \<Longrightarrow> Suc (c div cap) < writes cap n (c mod cap)"
proof -
  have w: "writes cap c (c mod cap) = c div cap" "writes cap (Suc c) (c mod cap) = Suc (c div cap)"
    "writes cap (c + cap) (c mod cap) = Suc (c div cap)"
    "writes cap (Suc (c + cap)) (c mod cap) = Suc (Suc (c div cap))"
    using assms writes_at [OF assms, of c] writes_at [OF assms, of "c + cap"] mod_less_divisor [OF assms, of c]
      div_add_self2 [of cap c]
    by (simp_all add: writes_publish)
  show "n \<le> c \<Longrightarrow> writes cap n (c mod cap) < Suc (c div cap)"
    using writes_mono [of n c cap "c mod cap"] w by simp
  show "c < n \<Longrightarrow> n \<le> c + cap \<Longrightarrow> writes cap n (c mod cap) = Suc (c div cap)"
    using writes_mono [of "Suc c" n cap "c mod cap"] writes_mono [of n "c + cap" cap "c mod cap"] w by simp
  show "c + cap < n \<Longrightarrow> Suc (c div cap) < writes cap n (c mod cap)"
    using writes_mono [of "Suc (c + cap)" n cap "c mod cap"] w by simp
qed

section \<open>The ring and its history\<close>

definition slot_holds :: "nat \<Rightarrow> 'a \<Rightarrow> 'a list \<Rightarrow> nat \<Rightarrow> 'a RingSlot \<Rightarrow> bool" where
  "slot_holds cap z H j slot \<longleftrightarrow>
     rs_version slot = of_nat (2 * writes cap (length H) j) \<and>
     rs_data slot = (if writes cap (length H) j = 0 then z else H ! (j + (writes cap (length H) j - 1) * cap))"

definition ring_rel :: "nat \<Rightarrow> 'a \<Rightarrow> 'a Queue \<Rightarrow> Producer \<Rightarrow> 'a list \<Rightarrow> bool" where
  "ring_rel k z q pd H \<longleftrightarrow>
     ring_consts k (q_mask q) (q_log2_cap q) \<and> p_mask pd = q_mask q \<and> p_log2_cap pd = q_log2_cap q \<and>
     length (q_slots q) = 2 ^ k \<and> unat (p_cursor pd) = length H \<and> q_published q = p_cursor pd \<and>
     (\<forall>j < 2 ^ k. slot_holds (2 ^ k) z H j (q_slots q ! j))"

definition consumer_ok :: "nat \<Rightarrow> 'a list \<Rightarrow> Consumer \<Rightarrow> bool" where
  "consumer_ok k H c \<longleftrightarrow> ring_consts k (c_mask c) (c_log2_cap c) \<and> unat (c_cursor c) \<le> length H"

lemma trailing_zeros_pow: "k < 32 \<Longrightarrow> trailing_zeros (2 ^ k) = k"
proof -
  assume k: "k < 32"
  have "trailing_zeros_from fuel i (2 ^ k) = k" if "i \<le> k" "k < i + fuel" for fuel i
    using that
  proof (induction fuel arbitrary: i)
    case (Suc fuel)
    then show ?case using k by (cases "i = k") (auto simp: bit_simps)
  qed simp
  with k show ?thesis by (simp add: trailing_zeros_def)
qed

lemma Queue_new_rel:
  assumes "Queue_new z cap = Inr (q, pd)"
  obtains k where "ring_rel k z q pd []" and "unat cap = 2 ^ k" and "q_capacity q = cap"
proof -
  from assms obtain k where k: "k < 32" "cap = 2 ^ k"
    by (auto simp: Queue_new_def rbind_eq_Inr assert_that_Inr is_power_of_two_def)
  have u: "unat cap = 2 ^ k" 
  proof -
    have "(2::nat) ^ k < 2 ^ 32" using k(1) by (rule power_strict_increasing) simp
    then have "unat (of_nat (2 ^ k) :: u32) = 2 ^ k" by (intro unat_of_nat_u32) simp
    then show ?thesis using k by simp
  qed
  with assms k show thesis
    by (intro that [of k]) (auto simp: Queue_new_def Let_def rbind_eq_Inr ring_rel_def ring_consts_def
        trailing_zeros_pow slot_holds_def RingSlot_new_def writes_def)
qed

text \<open>The bound under which no sequence number and no version wraps: the history stays below
  \<open>2^63\<close> publications.\<close>

abbreviation seq_bound :: nat where
  "seq_bound \<equiv> 9223372036854775808"

lemma eq_of_natI: "unat w = n \<Longrightarrow> w = of_nat n"
  by auto

lemma lap_times_two:
  assumes "ring_consts k msk l" and "unat seq < seq_bound"
  shows "times_u p 2 (lap_of seq l) = Inr (of_nat (2 * (unat seq div 2 ^ k)))"
proof -
  have "unat seq div 2 ^ k \<le> unat seq" by (rule div_le_dividend)
  with assms(2) have "unat (lap_of seq l) < seq_bound" by (simp only: lap_of_div [OF assms(1)])
  then have "times_u p 2 (lap_of seq l) = Inr (2 * lap_of seq l)" by (intro times_u_ok) simp
  moreover have "lap_of seq l = of_nat (unat seq div 2 ^ k)"
    using lap_of_div [OF assms(1), of seq] by (intro eq_of_natI) simp
  ultimately show ?thesis by simp
qed

lemma expected_version:
  assumes "ring_consts k msk l" and "unat seq + 1 < seq_bound"
  shows "rbind (plus_u p (lap_of seq l) 1) (\<lambda>lap. rbind (times_u p 2 lap) f)
         = f (of_nat (2 * Suc (unat seq div 2 ^ k)))"
proof -
  have le: "unat seq div 2 ^ k \<le> unat seq" by (rule div_le_dividend)
  have lap: "lap_of seq l = of_nat (unat seq div 2 ^ k)"
    using lap_of_div [OF assms(1), of seq] by (intro eq_of_natI) simp
  have u: "unat (lap_of seq l) = unat seq div 2 ^ k" using assms(1) by (rule lap_of_div)
  have lb: "unat (lap_of seq l) + 1 < 9223372036854775808" using u le assms(2) by linarith
  have s: "unat (lap_of seq l + 1) = Suc (unat seq div 2 ^ k)"
    using lb u unat_plus_no_overflow [of "lap_of seq l" 1] by simp
  have "plus_u p (lap_of seq l) 1 = Inr (lap_of seq l + 1)"
    by (intro plus_u_ok) (use lb in simp)
  moreover have "times_u p 2 (lap_of seq l + 1) = Inr (2 * (lap_of seq l + 1))"
    by (intro times_u_ok) (use s lb u in simp)
  ultimately show ?thesis using lap by (simp add: algebra_simps)
qed

text \<open>One publication extends the history by one value and always succeeds.\<close>

lemma publish_rel:
  assumes R: "ring_rel k z q pd H" and n: "length H + 1 < seq_bound"
  obtains q' pd' where "publish p q pd x = Inr (q', pd', of_nat (length H))"
    and "ring_rel k z q' pd' (H @ [x])" and "q_capacity q' = q_capacity q"
proof -
  let ?cap = "2 ^ k :: nat" and ?n = "length H"
  let ?i = "?n mod ?cap"
  from R have rc: "ring_consts k (p_mask pd) (p_log2_cap pd)" and cur: "unat (p_cursor pd) = ?n"
    and len: "length (q_slots q) = ?cap" and pub: "q_published q = p_cursor pd"
    by (simp_all add: ring_rel_def)
  have i: "?i < ?cap" by simp
  have ub: "2 * (?n div ?cap) + 2 < 18446744073709551616" using div_le_dividend [of ?n ?cap] n by linarith
  have ix: "slot_index (p_cursor pd) (p_mask pd) = ?i" using slot_index_mod [OF rc] cur by simp
  have idx: "index_slots (q_slots q) ?i = Inr (q_slots q ! ?i)"
    using len i by (simp add: index_slots_def slice_get_def)
  have v: "times_u p 2 (lap_of (p_cursor pd) (p_log2_cap pd)) = Inr (of_nat (2 * (?n div ?cap)))"
    using lap_times_two [OF rc] cur n by simp
  have uv: "unat (of_nat (2 * (?n div ?cap)) :: u64) = 2 * (?n div ?cap)"
    using ub by (intro unat_of_nat_u64) linarith
  have v1: "plus_u p (of_nat (2 * (?n div ?cap)) :: u64) 1 = Inr (of_nat (2 * (?n div ?cap)) + 1)"
    by (intro plus_u_ok) (use uv ub in simp)
  have v2: "plus_u p (of_nat (2 * (?n div ?cap)) :: u64) 2 = Inr (of_nat (2 * (?n div ?cap)) + 2)"
    by (intro plus_u_ok) (use uv ub in simp)
  have c1: "plus_u p (p_cursor pd) 1 = Inr (p_cursor pd + 1)"
    by (intro plus_u_ok) (use cur n in simp)
  let ?s = "(q_slots q ! ?i)\<lparr>rs_data := x, rs_version := of_nat (2 * (?n div ?cap)) + 2\<rparr>"
  let ?q = "q\<lparr>q_slots := (q_slots q)[?i := ?s], q_published := p_cursor pd + 1\<rparr>"
  let ?p = "pd\<lparr>p_cursor := p_cursor pd + 1\<rparr>"
  have run: "publish p q pd x = Inr (?q, ?p, of_nat ?n)"
    by (simp add: publish_def Let_def ix idx v v1 v2 c1 del: of_nat_mult)
       (simp add: eq_of_natI [OF cur, symmetric])
  have "slot_holds ?cap z (H @ [x]) j (q_slots ?q ! j)" if j: "j < ?cap" for j
  proof (cases "?i = j")
    case True
    have w: "writes ?cap (Suc ?n) j = Suc (?n div ?cap)"
      using writes_publish [OF j, of ?n] writes_at [of ?cap ?n] True by simp
    have "j + (?n div ?cap) * ?cap = ?n" using True mod_div_mult_eq [of ?n ?cap] by simp
    then show ?thesis using True j len w by (simp add: slot_holds_def algebra_simps)
  next
    case False
    have w: "writes ?cap (Suc ?n) j = writes ?cap ?n j" using writes_publish [OF j, of ?n] False by simp
    show ?thesis using written_before [OF j, of ?n] R False w j by (simp add: slot_holds_def ring_rel_def nth_append)
  qed
  moreover have "unat (p_cursor pd + 1) = Suc ?n" using cur n by (simp add: unat_plus_no_overflow)
  ultimately have "ring_rel k z ?q ?p (H @ [x])" using R by (simp add: ring_rel_def)
  from that [OF run this] show thesis by simp
qed

text \<open>What a consumer that is not halted sees: nothing new, the value at its cursor, or a lap.\<close>

lemma poll_rel:
  assumes R: "ring_rel k z q pd H" and C: "consumer_ok k H c" and n: "length H + 1 < seq_bound"
    and live: "c_halted c = None"
  shows "poll p q c =
     (if unat (c_cursor c) = length H then Inr (c, Empty)
      else if length H \<le> unat (c_cursor c) + 2 ^ k
        then Inr (c\<lparr>c_cursor := c_cursor c + 1\<rparr>, Ready (H ! unat (c_cursor c)))
      else apply_lap_policy p q c)"
proof -
  let ?cap = "2 ^ k :: nat" and ?n = "length H" and ?c = "unat (c_cursor c)"
  let ?i = "?c mod ?cap" and ?w = "writes (2 ^ k) (length H) (unat (c_cursor c) mod 2 ^ k)"
  from C have rc: "ring_consts k (c_mask c) (c_log2_cap c)" and le: "?c \<le> ?n" by (simp_all add: consumer_ok_def)
  have i: "?i < ?cap" by simp
  from R i have len: "length (q_slots q) = ?cap"
    and ver: "rs_version (q_slots q ! ?i) = of_nat (2 * ?w)"
    and dat: "rs_data (q_slots q ! ?i) = (if ?w = 0 then z else H ! (?i + (?w - 1) * ?cap))"
    by (simp_all add: ring_rel_def slot_holds_def)
  have idx: "index_slots (q_slots q) (slot_index (c_cursor c) (c_mask c)) = Inr (q_slots q ! ?i)"
    using slot_index_mod [OF rc] len i by (simp add: index_slots_def slice_get_def)
  have dle: "?c div ?cap \<le> ?c" by (rule div_le_dividend)
  have wle: "?w \<le> ?n" using i by (rule writes_le)
  have cb: "2 * (?c div ?cap) + 2 < 18446744073709551616" using dle le n by linarith
  have ue: "unat (of_nat (2 * Suc (?c div ?cap)) :: u64) = 2 * Suc (?c div ?cap)"
    by (intro unat_of_nat_u64) (use cb in simp)
  have uw: "unat (of_nat (2 * ?w) :: u64) = 2 * ?w" using wle n by (intro unat_of_nat_u64) linarith
  have ev: "(of_nat (2 * ?w) :: u64) AND 1 = 0" by (simp add: and_one_eq flip: even_iff_mod_2_eq_zero)
  have run: "poll p q c =
     (if Suc (?c div ?cap) < ?w then apply_lap_policy p q c
      else if ?w < Suc (?c div ?cap) then Inr (c, Empty)
      else rbind (plus_u p (c_cursor c) 1) (\<lambda>cursor.
             Inr (c\<lparr>c_cursor := cursor\<rparr>, Ready (rs_data (q_slots q ! ?i)))))"
    using live le n ev ver ue uw
    by (simp add: poll_def Let_def idx expected_version [OF rc] word_less_nat_alt del: of_nat_mult of_nat_Suc)
  have cur1: "plus_u p (c_cursor c) 1 = Inr (c_cursor c + 1)"
    by (intro plus_u_ok) (use le n in simp)
  have inv_idx: "?i + (Suc (?c div ?cap) - 1) * ?cap = ?c" using mod_div_mult_eq [of ?c ?cap] by simp
  consider "?n \<le> ?c" | "?c < ?n" "?n \<le> ?c + ?cap" | "?c + ?cap < ?n" by linarith
  then show ?thesis
  proof cases
    case 1
    then show ?thesis using le run writes_cursor(1) [of ?cap ?n ?c] by simp
  next
    case 2
    then show ?thesis using run cur1 dat inv_idx writes_cursor(2) [of ?cap ?c ?n] by simp
  next
    case 3
    then show ?thesis using le run writes_cursor(3) [of ?cap ?c ?n] by simp
  qed
qed

lemma apply_lap_policy_rel:
  assumes R: "ring_rel k z q pd H" and C: "consumer_ok k H c"
  shows "apply_lap_policy p q c =
     (let lost = of_nat (length H - unat (c_cursor c)); live = of_nat (length H) in
      case c_policy c of
        Halt \<Rightarrow> Inr (c\<lparr>c_halted := Some lost\<rparr>, Halted (c_cursor c) lost)
      | LpPanic \<Rightarrow> Inl (Panic ''ipc consumer lapped'')
      | _ \<Rightarrow> Inr (c\<lparr>c_cursor := live\<rparr>, Skipped lost live))"
proof -
  from R have pub: "q_published q = of_nat (length H)" by (intro eq_of_natI) (simp add: ring_rel_def)
  from R C have le: "c_cursor c \<le> q_published q"
    by (simp add: word_le_nat_alt consumer_ok_def ring_rel_def)
  then have m: "minus_u p (q_published q) (c_cursor c) = Inr (q_published q - c_cursor c)"
    by (intro minus_u_ok) simp
  have "of_nat (length H - unat (c_cursor c)) = q_published q - c_cursor c"
    using C by (simp add: consumer_ok_def of_nat_diff pub)
  then show ?thesis
    by (simp add: apply_lap_policy_def Queue_published_def m Let_def flip: pub split: LapPolicy.split)
qed

end
