(* ===== verification/Ipc_Props.thy ===== *)
theory Ipc_Props
  imports Ipc_Queue
begin

text \<open>
  What a user of \<open>crates/ipc\<close> relies on: the interface of a broadcast ring as the locale
  \<open>broadcast\<close>, interpreted on \<open>publish\<close> and \<open>poll\<close>; the reachable states of a queue with its
  producer and consumers; and the properties of delivery, lapping and slot layout.
\<close>

section \<open>The broadcast interface\<close>

text \<open>A producer that publishes a batch, and a consumer that polls a number of times.\<close>

fun publish_all :: "('s \<Rightarrow> 'a \<Rightarrow> 's res) \<Rightarrow> 's \<Rightarrow> 'a list \<Rightarrow> 's res" where
  "publish_all pub s [] = Inr s"
| "publish_all pub s (x # xs) = rbind (pub s x) (\<lambda>s'. publish_all pub s' xs)"

fun drain :: "('c \<Rightarrow> ('c \<times> 'r) res) \<Rightarrow> nat \<Rightarrow> 'c \<Rightarrow> ('c \<times> 'r list) res" where
  "drain pol 0 c = Inr (c, [])"
| "drain pol (Suc n) c =
     rbind (pol c) (\<lambda>(c', r). rbind (drain pol n c') (\<lambda>(c'', rs). Inr (c'', r # rs)))"

locale broadcast =
  fixes R :: "'s \<Rightarrow> 'a list \<Rightarrow> bool"
    and at :: "'c \<Rightarrow> nat \<Rightarrow> bool"
    and pub :: "'s \<Rightarrow> 'a \<Rightarrow> 's res"
    and pol :: "'s \<Rightarrow> 'c \<Rightarrow> ('c \<times> 'a PollResult) res"
    and cap :: nat and bound :: nat
  assumes pub_ok: "R s H \<Longrightarrow> length H + 1 < bound \<Longrightarrow> \<exists>s'. pub s x = Inr s' \<and> R s' (H @ [x])"
    and pol_ready: "R s H \<Longrightarrow> length H + 1 < bound \<Longrightarrow> at c n \<Longrightarrow> n < length H \<Longrightarrow> length H \<le> n + cap \<Longrightarrow>
          \<exists>c'. pol s c = Inr (c', Ready (H ! n)) \<and> at c' (Suc n)"
    and pol_empty: "R s H \<Longrightarrow> length H + 1 < bound \<Longrightarrow> at c (length H) \<Longrightarrow> pol s c = Inr (c, Empty)"
begin

lemma publish_all_ok:
  "R s H \<Longrightarrow> length H + length xs + 1 < bound \<Longrightarrow> \<exists>s'. publish_all pub s xs = Inr s' \<and> R s' (H @ xs)"
proof (induction xs arbitrary: s H)
  case (Cons x xs)
  then obtain s1 where s1: "pub s x = Inr s1" "R s1 (H @ [x])" using pub_ok [of s H x] by auto
  with Cons.IH [OF s1(2)] Cons.prems(2) show ?case by auto
qed simp

lemma drain_ok:
  assumes "R s H" and "length H + 1 < bound"
  shows "at c n \<Longrightarrow> n + m \<le> length H \<Longrightarrow> length H \<le> n + cap \<Longrightarrow>
    \<exists>c'. drain (pol s) m c = Inr (c', map Ready (take m (drop n H))) \<and> at c' (n + m)"
proof (induction m arbitrary: c n)
  case (Suc m)
  then obtain c1 where c1: "pol s c = Inr (c1, Ready (H ! n))" "at c1 (Suc n)"
    using pol_ready [OF assms, of c n] by auto
  obtain c2 where c2: "drain (pol s) m c1 = Inr (c2, map Ready (take m (drop (Suc n) H)))" "at c2 (Suc n + m)"
    using Suc.IH [OF c1(2)] Suc.prems by auto
  have "drop n H = H ! n # drop (Suc n) H" using Suc.prems by (simp add: Cons_nth_drop_Suc)
  with c1 c2 show ?case by simp
qed simp

lemma drain_append:
  "drain f m c = Inr (c', rs) \<Longrightarrow> f c' = Inr (c'', r) \<Longrightarrow> drain f (Suc m) c = Inr (c'', rs @ [r])"
  by (induction m arbitrary: c rs) (auto simp: rbind_eq_Inr split: prod.splits)

lemma batch_delivered:
  assumes "R s H" and "length H + length xs + 1 < bound" and "at c (length H)" and "length xs \<le> cap"
  shows "\<exists>s' c'. publish_all pub s xs = Inr s' \<and> R s' (H @ xs) \<and>
           drain (pol s') (Suc (length xs)) c = Inr (c', map Ready xs @ [Empty]) \<and>
           at c' (length H + length xs)"
proof -
  obtain s' where s': "publish_all pub s xs = Inr s'" "R s' (H @ xs)"
    using publish_all_ok [OF assms(1,2)] by blast
  obtain c' where c': "drain (pol s') (length xs) c = Inr (c', map Ready xs)" "at c' (length H + length xs)"
    using drain_ok [OF s'(2), of c "length H" "length xs"] assms by auto
  have "pol s' c' = Inr (c', Empty)" using pol_empty [OF s'(2), of c'] c'(2) assms(2) by simp
  with s' c' drain_append [OF c'(1)] show ?thesis by blast
qed

end

text \<open>The ring provides it: the producer side is the queue with its unique producer.\<close>

definition bus_rel :: "nat \<Rightarrow> 'a \<Rightarrow> 'a Queue \<times> Producer \<Rightarrow> 'a list \<Rightarrow> bool" where
  "bus_rel k z s H \<longleftrightarrow> ring_rel k z (fst s) (snd s) H"

definition consumer_at :: "nat \<Rightarrow> Consumer \<Rightarrow> nat \<Rightarrow> bool" where
  "consumer_at k c n \<longleftrightarrow> ring_consts k (c_mask c) (c_log2_cap c) \<and> unat (c_cursor c) = n \<and> c_halted c = None"

definition bus_publish :: "profile \<Rightarrow> 'a Queue \<times> Producer \<Rightarrow> 'a \<Rightarrow> ('a Queue \<times> Producer) res" where
  "bus_publish p s x = rbind (publish p (fst s) (snd s) x) (\<lambda>(q, pd, seq). Inr (q, pd))"

definition bus_poll :: "profile \<Rightarrow> 'a Queue \<times> Producer \<Rightarrow> Consumer \<Rightarrow> (Consumer \<times> 'a PollResult) res" where
  "bus_poll p s c = poll p (fst s) c"

interpretation bus: broadcast "bus_rel k z" "consumer_at k" "bus_publish p" "bus_poll p" "2 ^ k" seq_bound
  for k z p
proof unfold_locales
  fix s H x
  assume "bus_rel k z s H" and "length H + 1 < seq_bound"
  then show "\<exists>s'. bus_publish p s x = Inr s' \<and> bus_rel k z s' (H @ [x])"
    using publish_rel [of k z "fst s" "snd s" H p x] by (fastforce simp: bus_rel_def bus_publish_def)
next
  fix s H c n
  assume a: "bus_rel k z s H" "length H + 1 < seq_bound" "consumer_at k c n" "n < length H" "length H \<le> n + 2 ^ k"
  then have "poll p (fst s) c = Inr (c\<lparr>c_cursor := c_cursor c + 1\<rparr>, Ready (H ! n))"
    using poll_rel [of k z "fst s" "snd s" H c p] by (auto simp: bus_rel_def consumer_at_def consumer_ok_def)
  moreover have "unat (c_cursor c + 1) = Suc n" using a by (simp add: consumer_at_def unat_plus_no_overflow)
  ultimately show "\<exists>c'. bus_poll p s c = Inr (c', Ready (H ! n)) \<and> consumer_at k c' (Suc n)"
    using a by (simp add: bus_poll_def consumer_at_def)
next
  fix s H c
  assume "bus_rel k z s H" and "length H + 1 < seq_bound" and "consumer_at k c (length H)"
  then show "bus_poll p s c = Inr (c, Empty)"
    using poll_rel [of k z "fst s" "snd s" H c p]
    by (auto simp: bus_rel_def bus_poll_def consumer_at_def consumer_ok_def)
qed

section \<open>Reachable states\<close>

text \<open>A queue of capacity \<open>cap\<close>, its producer, the consumers in the order they subscribed, and
  the ghost history of all published values.\<close>

inductive ring_reach :: "profile \<Rightarrow> 'a \<Rightarrow> u32 \<Rightarrow> 'a Queue \<Rightarrow> Producer \<Rightarrow> Consumer list \<Rightarrow> 'a list \<Rightarrow> bool"
  for p z cap where
  ring_new: "Queue_new z cap = Inr (q, pd) \<Longrightarrow> ring_reach p z cap q pd [] []"
| ring_publish: "ring_reach p z cap q pd cs H \<Longrightarrow> publish p q pd x = Inr (q', pd', seq) \<Longrightarrow>
    ring_reach p z cap q' pd' cs (H @ [x])"
| ring_subscribe: "ring_reach p z cap q pd cs H \<Longrightarrow> ring_reach p z cap q pd (cs @ [subscribe q policy]) H"
| ring_poll: "ring_reach p z cap q pd cs H \<Longrightarrow> i < length cs \<Longrightarrow> poll p q (cs ! i) = Inr (c, r) \<Longrightarrow>
    ring_reach p z cap q pd (cs[i := c]) H"

lemma subscribe_ok: "ring_rel k z q pd H \<Longrightarrow> consumer_ok k H (subscribe q policy)"
  by (auto simp: consumer_ok_def subscribe_def ring_rel_def Queue_published_def)

lemma apply_lap_policy_ok:
  assumes "ring_rel k z q pd H" and "consumer_ok k H c" and "length H + 1 < seq_bound"
    and "apply_lap_policy p q c = Inr (c', r)"
  shows "consumer_ok k H c'"
proof -
  have "unat (of_nat (length H) :: u64) = length H" using assms(3) by (intro unat_of_nat_u64) simp
  with assms(2,4) show ?thesis
    by (auto simp: apply_lap_policy_rel [OF assms(1,2)] Let_def consumer_ok_def split: LapPolicy.splits)
qed

lemma poll_ok:
  assumes R: "ring_rel k z q pd H" and C: "consumer_ok k H c" and n: "length H + 1 < seq_bound"
    and run: "poll p q c = Inr (c', r)"
  shows "consumer_ok k H c'"
proof (cases "c_halted c")
  case None
  from C n have "unat (c_cursor c + 1) = Suc (unat (c_cursor c))" if "unat (c_cursor c) < length H"
    using that by (simp add: unat_plus_no_overflow)
  with run C apply_lap_policy_ok [OF R C n] show ?thesis
    by (auto simp: poll_rel [OF R C n None] consumer_ok_def split: if_splits)
next
  case (Some l)
  with run C show ?thesis by (simp add: poll_def)
qed

lemma ring_reach_inv:
  "ring_reach p z cap q pd cs H \<Longrightarrow> length H + 1 < seq_bound \<Longrightarrow>
     \<exists>k. unat cap = 2 ^ k \<and> ring_rel k z q pd H \<and> (\<forall>c \<in> set cs. consumer_ok k H c)"
proof (induction rule: ring_reach.induct)
  case (ring_new q pd)
  then show ?case by (auto elim: Queue_new_rel)
next
  case (ring_publish q pd cs H x q' pd' s)
  then obtain k where k: "unat cap = 2 ^ k" "ring_rel k z q pd H" "\<forall>c \<in> set cs. consumer_ok k H c" by auto
  with ring_publish publish_rel [OF k(2), of p x] show ?case by (fastforce simp: consumer_ok_def)
next
  case (ring_subscribe q pd cs H policy)
  then show ?case using subscribe_ok by fastforce
next
  case (ring_poll q pd cs H i c r)
  then obtain k where k: "unat cap = 2 ^ k" "ring_rel k z q pd H" "\<forall>c \<in> set cs. consumer_ok k H c" by auto
  then have "consumer_ok k H c" using poll_ok [OF k(2) _ _ ring_poll.hyps(3)] ring_poll by simp
  with k show ?case using set_update_subset_insert [of cs i c] by blast
qed
section \<open>Concrete runs\<close>

datatype 'a ring_call = CallPublish 'a | CallSubscribe LapPolicy | CallPoll nat

type_synonym 'a ring_state = "'a Queue \<times> Producer \<times> Consumer list \<times> 'a list"

fun ring_run :: "profile \<Rightarrow> 'a ring_call list \<Rightarrow> 'a ring_state \<Rightarrow> 'a ring_state option" where
  "ring_run p [] s = Some s"
| "ring_run p (CallPublish x # ks) (q, pd, cs, H) =
     (case publish p q pd x of Inr (q', pd', _) \<Rightarrow> ring_run p ks (q', pd', cs, H @ [x]) | Inl _ \<Rightarrow> None)"
| "ring_run p (CallSubscribe policy # ks) (q, pd, cs, H) = ring_run p ks (q, pd, cs @ [subscribe q policy], H)"
| "ring_run p (CallPoll i # ks) (q, pd, cs, H) =
     (case slice_get cs i of
        Some c \<Rightarrow> (case poll p q c of Inr (c', _) \<Rightarrow> ring_run p ks (q, pd, cs[i := c'], H) | Inl _ \<Rightarrow> None)
      | None \<Rightarrow> None)"

lemma ring_run_reach:
  "ring_reach p z cap q pd cs H \<Longrightarrow> ring_run p ks (q, pd, cs, H) = Some (q', pd', cs', H') \<Longrightarrow>
   ring_reach p z cap q' pd' cs' H'"
proof (induction ks arbitrary: q pd cs H)
  case (Cons call ks)
  show ?case
    by (cases call; insert Cons.prems)
       (auto simp: slice_get_Some split: option.splits sum.splits prod.splits
          intro: ring_publish ring_subscribe ring_poll Cons.IH [rotated])
qed simp

text \<open>Two consumers of a ring of two slots, and three publications, one of them before the second
  subscription.\<close>

definition sample_calls :: "LapPolicy \<Rightarrow> nat ring_call list" where
  "sample_calls policy = [CallSubscribe policy, CallPublish 10, CallSubscribe SkipToLatest, CallPublish 11, CallPublish 12]"

definition sample_ring :: "LapPolicy \<Rightarrow> nat ring_state" where
  "sample_ring policy =
     (\<lparr>q_slots = [\<lparr>rs_version = 4, rs_data = 12\<rparr>, \<lparr>rs_version = 2, rs_data = 11\<rparr>], q_capacity = 2,
       q_mask = 1, q_log2_cap = 1, q_published = 3\<rparr>,
      \<lparr>p_cursor = 3, p_mask = 1, p_log2_cap = 1\<rparr>,
      [\<lparr>c_cursor = 0, c_mask = 1, c_log2_cap = 1, c_policy = policy, c_halted = None\<rparr>,
       \<lparr>c_cursor = 1, c_mask = 1, c_log2_cap = 1, c_policy = SkipToLatest, c_halted = None\<rparr>],
      [10, 11, 12])"

definition sample_new :: "nat Queue \<times> Producer" where
  "sample_new =
     (\<lparr>q_slots = [\<lparr>rs_version = 0, rs_data = 0\<rparr>, \<lparr>rs_version = 0, rs_data = 0\<rparr>], q_capacity = 2,
       q_mask = 1, q_log2_cap = 1, q_published = 0\<rparr>, \<lparr>p_cursor = 0, p_mask = 1, p_log2_cap = 1\<rparr>)"

lemmas ring_ops = publish_def poll_def apply_lap_policy_def subscribe_def Queue_published_def Let_def
  index_slots_def slice_get_def slot_index_def lap_of_def plus_u_def minus_u_def times_u_def

lemma sample_new_ok: "Queue_new 0 2 = Inr sample_new"
  by code_simp

lemma sample_run:
  "ring_run Debug (sample_calls Halt) (fst sample_new, snd sample_new, [], []) = Some (sample_ring Halt)"
  "ring_run Debug (sample_calls SkipAndAlert) (fst sample_new, snd sample_new, [], []) = Some (sample_ring SkipAndAlert)"
  by (simp_all add: sample_calls_def sample_new_def sample_ring_def ring_ops)

lemma sample_reach:
  assumes "ring_run Debug (sample_calls policy) (fst sample_new, snd sample_new, [], []) = Some (sample_ring policy)"
  shows "ring_reach Debug 0 2 (fst (sample_ring policy)) (fst (snd (sample_ring policy)))
      (fst (snd (snd (sample_ring policy)))) (snd (snd (snd (sample_ring policy))))"
proof -
  have "ring_reach Debug 0 2 (fst sample_new) (snd sample_new) [] []"
    using sample_new_ok by (intro ring_new) simp
  with assms show ?thesis by (metis ring_run_reach prod.collapse)
qed

section \<open>Properties\<close>

text \<open>What a consumer at position \<open>n\<close> of the history gets from its next poll.\<close>

definition poll_spec :: "'a list \<Rightarrow> nat \<Rightarrow> Consumer \<Rightarrow> (Consumer \<times> 'a PollResult) res" where
  "poll_spec H cap c =
     (let n = unat (c_cursor c); lost = of_nat (length H - n); live = of_nat (length H) in
      if n = length H then Inr (c, Empty)
      else if length H \<le> n + cap then Inr (c\<lparr>c_cursor := c_cursor c + 1\<rparr>, Ready (H ! n))
      else (case c_policy c of
              Halt \<Rightarrow> Inr (c\<lparr>c_halted := Some lost\<rparr>, Halted (c_cursor c) lost)
            | LpPanic \<Rightarrow> Inl (Panic ''ipc consumer lapped'')
            | _ \<Rightarrow> Inr (c\<lparr>c_cursor := live\<rparr>, Skipped lost live)))"

lemma poll_eq_spec:
  assumes "ring_rel k z q pd H" and "consumer_ok k H c" and "length H + 1 < seq_bound" and "c_halted c = None"
  shows "poll p q c = poll_spec H (2 ^ k) c"
  unfolding poll_rel [OF assms] poll_spec_def apply_lap_policy_rel [OF assms(1,2)] Let_def by (rule refl)

text \<open>
  C11: in every state reachable by any sequence of publications, subscriptions and polls (fewer than
  \<open>2^63\<close> publications), the next poll of a consumer that is not halted is determined by the history
  and the cursor alone: \<open>Empty\<close> exactly when it has seen everything, the value at its cursor while
  it is at most one capacity behind, and otherwise its lap policy with the exact number of slots
  lost. A consumer never gets ahead of the producer, and never gets a stale or a zeroed value.
\<close>

theorem poll_sees_history:
  assumes "ring_reach p z cap q pd cs H" and "length H + 1 < 2 ^ 63" and "c \<in> set cs" and "c_halted c = None"
  shows "unat (c_cursor c) \<le> length H \<and> poll p q c = poll_spec H (unat cap) c"
proof -
  from assms(2) have n: "length H + 1 < seq_bound" by simp
  with ring_reach_inv [OF assms(1)] obtain k
    where k: "unat cap = 2 ^ k" "ring_rel k z q pd H" "\<forall>c \<in> set cs. consumer_ok k H c" by auto
  with assms(3) have c: "consumer_ok k H c" by blast
  with k n assms(4) show ?thesis by (simp add: poll_eq_spec consumer_ok_def)
qed

lemma sample_ring_reach:
  "ring_reach Debug 0 2 (fst (sample_ring Halt)) (fst (snd (sample_ring Halt)))
     (fst (snd (snd (sample_ring Halt)))) [10, 11, 12]"
  using sample_reach [OF sample_run(1)] by (simp add: sample_ring_def)

theorem poll_sees_history_witness:
  "poll Debug (fst (sample_ring Halt)) (fst (snd (snd (sample_ring Halt))) ! 1) =
     Inr ((fst (snd (snd (sample_ring Halt))) ! 1)\<lparr>c_cursor := 2\<rparr>, Ready 11)"
  using poll_sees_history [OF sample_ring_reach, of "fst (snd (snd (sample_ring Halt))) ! 1"]
  by (simp add: sample_ring_def poll_spec_def Let_def)

text \<open>
  Publishing never panics, returns the sequence number of the value, makes it visible in the
  published counter, and leaves a queue from which every consumer that is less than one capacity
  behind still reads exactly what it would have read before.
\<close>

theorem publish_appends:
  assumes "ring_reach p z cap q pd cs H" and "length H + 2 < 2 ^ 63"
  shows "\<exists>q' pd'. publish p q pd x = Inr (q', pd', of_nat (length H)) \<and>
           Queue_published q' = of_nat (length H + 1) \<and> ring_reach p z cap q' pd' cs (H @ [x]) \<and>
           (\<forall>c \<in> set cs. c_halted c = None \<and> unat (c_cursor c) < length H \<and>
              length H < unat (c_cursor c) + unat cap \<longrightarrow> poll p q' c = poll p q c)"
proof -
  from assms(2) have n: "length H + 1 < seq_bound" "length (H @ [x]) + 1 < seq_bound" by simp_all
  with ring_reach_inv [OF assms(1)] obtain k
    where k: "unat cap = 2 ^ k" "ring_rel k z q pd H" "\<forall>c \<in> set cs. consumer_ok k H c" by auto
  obtain q' pd' where run: "publish p q pd x = Inr (q', pd', of_nat (length H))"
    and R: "ring_rel k z q' pd' (H @ [x])" by (rule publish_rel [OF k(2) n(1)])
  have pub: "Queue_published q' = of_nat (length H + 1)"
    using R by (intro eq_of_natI) (simp add: Queue_published_def ring_rel_def)
  have "poll p q' c = poll p q c" if c: "c \<in> set cs" "c_halted c = None" "unat (c_cursor c) < length H"
    "length H < unat (c_cursor c) + unat cap" for c
  proof -
    have "consumer_ok k H c" "consumer_ok k (H @ [x]) c" using k(3) c(1) by (auto simp: consumer_ok_def)
    then have "poll p q c = poll_spec H (2 ^ k) c" "poll p q' c = poll_spec (H @ [x]) (2 ^ k) c"
      using poll_eq_spec [OF k(2) _ n(1) c(2)] poll_eq_spec [OF R _ n(2) c(2)] by blast+
    then show ?thesis using c k(1) by (simp add: poll_spec_def nth_append)
  qed
  then show ?thesis using run pub ring_publish [OF assms(1) run] by blast
qed

theorem publish_appends_witness:
  "\<exists>q' pd'. publish Debug (fst (sample_ring Halt)) (fst (snd (sample_ring Halt))) 13 = Inr (q', pd', 3)"
  using publish_appends [OF sample_ring_reach, of 13] by auto

text \<open>
  A consumer that has caught up receives a batch of at most \<open>capacity\<close> values completely, once
  each and in order, and then finds the queue empty.
\<close>

theorem batch_round_trip:
  assumes "ring_reach p z cap q pd cs H" and "c \<in> set cs" and "c_halted c = None"
    and "unat (c_cursor c) = length H" and "length xs \<le> unat cap" and "length H + length xs + 1 < 2 ^ 63"
  shows "\<exists>q' pd' c'. publish_all (bus_publish p) (q, pd) xs = Inr (q', pd') \<and>
           drain (poll p q') (Suc (length xs)) c = Inr (c', map Ready xs @ [Empty]) \<and>
           unat (c_cursor c') = length H + length xs"
proof -
  from assms(6) ring_reach_inv [OF assms(1)] obtain k
    where k: "unat cap = 2 ^ k" "ring_rel k z q pd H" "\<forall>c \<in> set cs. consumer_ok k H c" by auto
  have "bus_rel k z (q, pd) H" "consumer_at k c (length H)"
    using k assms(2-4) by (auto simp: bus_rel_def consumer_at_def consumer_ok_def)
  from bus.batch_delivered [OF this(1) _ this(2), of xs p] assms(5,6) k(1)
  obtain s' c' where "publish_all (bus_publish p) (q, pd) xs = Inr s'"
    "drain (bus_poll p s') (Suc (length xs)) c = Inr (c', map Ready xs @ [Empty])"
    "consumer_at k c' (length H + length xs)" by auto
  then show ?thesis by (cases s') (auto simp: bus_poll_def [abs_def] consumer_at_def)
qed

lemma fresh_subscriber_reach:
  "ring_reach Debug 0 2 (fst (sample_ring Halt)) (fst (snd (sample_ring Halt)))
     (fst (snd (snd (sample_ring Halt))) @ [subscribe (fst (sample_ring Halt)) SkipToLatest]) [10, 11, 12]"
  by (rule ring_subscribe [OF sample_ring_reach])

theorem batch_round_trip_witness:
  "\<exists>q' pd' c'. publish_all (bus_publish Debug) (fst (sample_ring Halt), fst (snd (sample_ring Halt))) [20, 21] = Inr (q', pd') \<and>
     drain (poll Debug q') (Suc (length [20, 21 :: nat])) (subscribe (fst (sample_ring Halt)) SkipToLatest) = Inr (c', [Ready 20, Ready 21, Empty])"
  using batch_round_trip [OF fresh_subscriber_reach, of "subscribe (fst (sample_ring Halt)) SkipToLatest" "[20, 21]"]
  by (simp add: sample_ring_def subscribe_def Queue_published_def del: drain.simps publish_all.simps) blast

text \<open>
  C27: a consumer that the producer has overtaken by more than one capacity is told so, with the exact
  number of values it lost, and by its policy: under \<open>Halt\<close> it is halted for good (every later poll,
  whatever is published, repeats the same answer and leaves it unchanged); under the skip policies
  it resumes at the live position and the next value published is the next one it reads.
\<close>

theorem lapped_consumer:
  assumes "ring_reach p z cap q pd cs H" and "length H + 2 < 2 ^ 63" and "c \<in> set cs" and "c_halted c = None"
    and "unat (c_cursor c) + unat cap < length H"
  shows "(c_policy c = Halt \<longrightarrow>
            (\<exists>c'. poll p q c = Inr (c', Halted (c_cursor c) (of_nat (length H - unat (c_cursor c)))) \<and>
               is_halted c' \<and>
               (\<forall>q2. poll p q2 c' = Inr (c', Halted (c_cursor c) (of_nat (length H - unat (c_cursor c))))))) \<and>
         (c_policy c = SkipToLatest \<or> c_policy c = SkipAndAlert \<longrightarrow>
            (\<exists>c'. poll p q c = Inr (c', Skipped (of_nat (length H - unat (c_cursor c))) (of_nat (length H))) \<and>
               poll p q c' = Inr (c', Empty) \<and>
               (\<forall>x q' pd' seq. publish p q pd x = Inr (q', pd', seq) \<longrightarrow>
                  (\<exists>c''. poll p q' c' = Inr (c'', Ready x))))) \<and>
         (c_policy c = LpPanic \<longrightarrow> poll p q c = Inl (Panic ''ipc consumer lapped''))"
proof -
  from assms(2) have n: "length H + 1 < seq_bound" by simp
  with ring_reach_inv [OF assms(1)] obtain k
    where k: "unat cap = 2 ^ k" "ring_rel k z q pd H" "\<forall>c \<in> set cs. consumer_ok k H c" by auto
  with assms(3) have C: "consumer_ok k H c" by blast
  have run: "poll p q c = poll_spec H (2 ^ k) c" by (rule poll_eq_spec [OF k(2) C n assms(4)])
  let ?live = "of_nat (length H) :: u64" and ?lost = "of_nat (length H - unat (c_cursor c)) :: u64"
  let ?c = "c\<lparr>c_cursor := ?live\<rparr>"
  have u: "unat ?live = length H" using n by (intro unat_of_nat_u64) simp
  have C2: "consumer_ok k H ?c" "c_halted ?c = None" using C assms(4) u by (simp_all add: consumer_ok_def)
  have empty: "poll p q ?c = Inr (?c, Empty)"
    using poll_eq_spec [OF k(2) C2(1) n C2(2)] u by (simp add: poll_spec_def)
  have ready: "\<exists>c''. poll p q' ?c = Inr (c'', Ready x)" if "publish p q pd x = Inr (q', pd', seq)" for x q' pd' seq
  proof -
    have R: "ring_rel k z q' pd' (H @ [x])" using publish_rel [OF k(2) n, of p x] that by fastforce
    moreover have "consumer_ok k (H @ [x]) ?c" using C2(1) by (simp add: consumer_ok_def)
    ultimately have "poll p q' ?c = poll_spec (H @ [x]) (2 ^ k) ?c"
      using poll_eq_spec [OF R] C2(2) assms(2) by simp
    then show ?thesis using u by (simp add: poll_spec_def Let_def)
  qed
  show ?thesis
    using run assms(5) k(1) empty ready by (auto simp: poll_spec_def Let_def poll_def is_halted_def)
qed

theorem lapped_consumer_witness:
  "\<exists>c'. poll Debug (fst (sample_ring Halt)) (fst (snd (snd (sample_ring Halt))) ! 0) = Inr (c', Halted 0 3) \<and>
        is_halted c'"
  using lapped_consumer [OF sample_ring_reach, of "fst (snd (snd (sample_ring Halt))) ! 0"]
  by (auto simp: sample_ring_def)

text \<open>
  The compile-time assertion of \<open>Queue::new\<close> (a slot fits one 64-byte cache line) admits the
  payloads of at most 56 bytes such as \<open>L2Update\<close>, \<open>TimingDelta\<close> and \<open>PodPosition\<close>, and rejects
  \<open>Order\<close>, \<open>OrderRequest\<close> and \<open>PodOrderEvent\<close>: a \<open>Queue<PodOrderEvent>\<close> does not compile.
\<close>

theorem queue_payloads:
  "(\<forall>size. slot_fits_cache_line size 8 = (size \<le> 56)) \<and>
   slot_fits_cache_line (repr_c_size L2Update_layout) (repr_c_align L2Update_layout) \<and>
   slot_fits_cache_line (repr_c_size TimingDelta_layout) (repr_c_align TimingDelta_layout) \<and>
   slot_fits_cache_line (repr_c_size PodPosition_layout) (repr_c_align PodPosition_layout) \<and>
   \<not> slot_fits_cache_line (repr_c_size Order_layout) (repr_c_align Order_layout) \<and>
   \<not> slot_fits_cache_line (repr_c_size OrderRequest_layout) (repr_c_align OrderRequest_layout) \<and>
   \<not> slot_fits_cache_line (repr_c_size PodOrderEvent_layout) (repr_c_align PodOrderEvent_layout)"
proof -
  have fits: "slot_fits_cache_line size 8 \<longleftrightarrow> size \<le> 56" for size
    by (auto simp: slot_fits_cache_line_def RingSlot_size_def round_up_def)
  have la: layout_assertions
    by (simp add: layout_assertions_def repr_c_size_def repr_c_align_def round_up_def lay_bytes_def
        Order_layout_def OrderRequest_layout_def L2Update_layout_def TimingDelta_layout_def
        PodOrderEvent_layout_def PodPosition_layout_def)
  show ?thesis using la by (simp add: layout_assertions_def fits)
qed

end
