(* ===== verification/Ipc_Seqlock.thy ===== *)
theory Ipc_Seqlock
  imports Ipc_Props
begin

text \<open>
  The same ring at the granularity of single loads and stores. A payload is a list of machine words
  that \<open>ptr.write\<close> and \<open>ptr.read\<close> move one by one; between any two accesses every other thread may
  run. The producer's and the consumers' program counters are data types with one constructor per
  point between two shared accesses of \<open>Producer::publish\<close> and \<open>Consumer::poll\<close>.

  Memory is sequentially consistent, so the fences of the source, which rule out reorderings of
  weaker machines, have no counterpart here. The additions wrap, as in a release build; under the
  bound of the theorems none of them does.
\<close>

section \<open>Threads\<close>

datatype 'w producer_pc =
    PIdle
  | PStoreOdd "'w list"
  | PWrite "'w list" nat
  | PStoreEven "'w list"
  | PStorePublished

datatype 'w consumer_pc = CIdle | CRead u64 "'w list" | CLapped | CPanicked

definition slot_upd :: "nat \<Rightarrow> ('a RingSlot \<Rightarrow> 'a RingSlot) \<Rightarrow> 'a Queue \<Rightarrow> 'a Queue" where
  "slot_upd i f q = q\<lparr>q_slots := (q_slots q)[i := f (q_slots q ! i)]\<rparr>"

abbreviation producer_slot :: "Producer \<Rightarrow> nat" where
  "producer_slot pd \<equiv> slot_index (p_cursor pd) (p_mask pd)"

text \<open>One shared access of \<open>publish\<close>: the odd version, the words of the value, the even version,
  the published counter.\<close>

fun producer_step ::
  "'w list Queue \<Rightarrow> Producer \<Rightarrow> 'w producer_pc \<Rightarrow> 'w list Queue \<times> Producer \<times> 'w producer_pc" where
  "producer_step q pd PIdle = (q, pd, PIdle)"
| "producer_step q pd (PStoreOdd x) =
     (slot_upd (producer_slot pd) (rs_version_update (\<lambda>_. 2 * lap_of (p_cursor pd) (p_log2_cap pd) + 1)) q,
      pd, PWrite x 0)"
| "producer_step q pd (PWrite x m) =
     (if m < length x
      then (slot_upd (producer_slot pd) (rs_data_update (\<lambda>ws. ws[m := x ! m])) q, pd, PWrite x (Suc m))
      else (q, pd, PStoreEven x))"
| "producer_step q pd (PStoreEven x) =
     (slot_upd (producer_slot pd) (rs_version_update (\<lambda>_. 2 * lap_of (p_cursor pd) (p_log2_cap pd) + 2)) q,
      pd, PStorePublished)"
| "producer_step q pd PStorePublished =
     (q\<lparr>q_published := p_cursor pd + 1\<rparr>, pd\<lparr>p_cursor := p_cursor pd + 1\<rparr>, PIdle)"

text \<open>One shared access of \<open>poll\<close> for a payload of \<open>W\<close> words: the first load of the version, one
  word of the data, the second load of the version, or the load of the published counter in
  \<open>apply_lap_policy\<close>. The third component is the result when the call returns.\<close>

fun consumer_step ::
  "nat \<Rightarrow> 'w list Queue \<Rightarrow> Consumer \<Rightarrow> 'w consumer_pc \<Rightarrow> Consumer \<times> 'w consumer_pc \<times> 'w list PollResult option" where
  "consumer_step W q c CIdle =
     (case c_halted c of
        Some lost \<Rightarrow> (c, CIdle, Some (Halted (c_cursor c) lost))
      | None \<Rightarrow>
          let v1 = rs_version (q_slots q ! slot_index (c_cursor c) (c_mask c));
              expected = 2 * (lap_of (c_cursor c) (c_log2_cap c) + 1)
          in if expected < v1 then (c, CLapped, None)
             else if v1 < expected \<or> v1 AND 1 \<noteq> 0 then (c, CIdle, Some Empty)
             else (c, CRead v1 [], None))"
| "consumer_step W q c (CRead v1 buf) =
     (let slot = q_slots q ! slot_index (c_cursor c) (c_mask c) in
      if length buf < W then (c, CRead v1 (buf @ [rs_data slot ! length buf]), None)
      else if rs_version slot \<noteq> v1 then (c, CIdle, Some Empty)
      else (c\<lparr>c_cursor := c_cursor c + 1\<rparr>, CIdle, Some (Ready buf)))"
| "consumer_step W q c CLapped =
     (let live = Queue_published q; lost = live - c_cursor c in
      case c_policy c of
        Halt \<Rightarrow> (c\<lparr>c_halted := Some lost\<rparr>, CIdle, Some (Halted (c_cursor c) lost))
      | LpPanic \<Rightarrow> (c, CPanicked, None)
      | _ \<Rightarrow> (c\<lparr>c_cursor := live\<rparr>, CIdle, Some (Skipped lost live)))"
| "consumer_step W q c CPanicked = (c, CPanicked, None)"

section \<open>Interleavings\<close>

text \<open>A consumer thread with the log of its returned results, each with the cursor of the poll.\<close>

record 'w consumer_thread =
  ct_consumer :: Consumer
  ct_pc :: "'w consumer_pc"
  ct_log :: "(u64 \<times> 'w list PollResult) list"

definition thread_step :: "nat \<Rightarrow> 'w list Queue \<Rightarrow> 'w consumer_thread \<Rightarrow> 'w consumer_thread" where
  "thread_step W q t =
     (case consumer_step W q (ct_consumer t) (ct_pc t) of
        (c, pc, r) \<Rightarrow> \<lparr>ct_consumer = c, ct_pc = pc,
          ct_log = ct_log t @ (case r of None \<Rightarrow> [] | Some res \<Rightarrow> [(c_cursor (ct_consumer t), res)])\<rparr>)"

text \<open>The ghost history grows when the even version is stored.\<close>

definition committed :: "'w producer_pc \<Rightarrow> 'w list list" where
  "committed pc = (case pc of PStoreEven x \<Rightarrow> [x] | _ \<Rightarrow> [])"

inductive seq_reach :: "'w \<Rightarrow> nat \<Rightarrow> u32 \<Rightarrow> 'w list Queue \<Rightarrow> Producer \<Rightarrow> 'w producer_pc \<Rightarrow>
    'w consumer_thread list \<Rightarrow> 'w list list \<Rightarrow> bool" for z W cap where
  seq_new: "Queue_new (replicate W z) cap = Inr (q, pd) \<Longrightarrow> seq_reach z W cap q pd PIdle [] []"
| seq_call: "seq_reach z W cap q pd PIdle ts H \<Longrightarrow> length x = W \<Longrightarrow> seq_reach z W cap q pd (PStoreOdd x) ts H"
| seq_producer: "seq_reach z W cap q pd pc ts H \<Longrightarrow> producer_step q pd pc = (q', pd', pc') \<Longrightarrow>
    seq_reach z W cap q' pd' pc' ts (H @ committed pc)"
| seq_subscribe: "seq_reach z W cap q pd pc ts H \<Longrightarrow>
    seq_reach z W cap q pd pc (ts @ [\<lparr>ct_consumer = subscribe q policy, ct_pc = CIdle, ct_log = []\<rparr>]) H"
| seq_consumer: "seq_reach z W cap q pd pc ts H \<Longrightarrow> i < length ts \<Longrightarrow>
    seq_reach z W cap q pd pc (ts[i := thread_step W q (ts ! i)]) H"

section \<open>The invariant\<close>

text \<open>The slot the producer is working on, if it is between its two version stores.\<close>

fun mid_write :: "'w producer_pc \<Rightarrow> ('w list \<times> nat) option" where
  "mid_write (PWrite x m) = Some (x, m)"
| "mid_write (PStoreEven x) = Some (x, length x)"
| "mid_write _ = None"

definition written_slot :: "nat \<Rightarrow> nat \<Rightarrow> 'w list \<Rightarrow> nat \<Rightarrow> 'w list RingSlot \<Rightarrow> bool" where
  "written_slot k n x m slot \<longleftrightarrow>
     rs_version slot = of_nat (2 * (n div 2 ^ k) + 1) \<and> m \<le> length x \<and>
     length (rs_data slot) = length x \<and> take m (rs_data slot) = take m x"

fun pc_words :: "nat \<Rightarrow> 'w producer_pc \<Rightarrow> bool" where
  "pc_words W (PStoreOdd x) = (length x = W)"
| "pc_words W (PWrite x m) = (length x = W)"
| "pc_words W (PStoreEven x) = (length x = W)"
| "pc_words W _ = True"

definition seq_inv :: "nat \<Rightarrow> 'w list \<Rightarrow> 'w list Queue \<Rightarrow> Producer \<Rightarrow> 'w producer_pc \<Rightarrow> 'w list list \<Rightarrow> bool" where
  "seq_inv k zs q pd pc H \<longleftrightarrow>
     ring_consts k (q_mask q) (q_log2_cap q) \<and> p_mask pd = q_mask q \<and> p_log2_cap pd = q_log2_cap q \<and>
     length (q_slots q) = 2 ^ k \<and> q_published q = p_cursor pd \<and>
     unat (p_cursor pd) + (if pc = PStorePublished then 1 else 0) = length H \<and>
     pc_words (length zs) pc \<and> (\<forall>x \<in> set H. length x = length zs) \<and>
     (\<forall>j < 2 ^ k. case mid_write pc of
        Some (x, m) \<Rightarrow> if j = length H mod 2 ^ k then written_slot k (length H) x m (q_slots q ! j)
                        else slot_holds (2 ^ k) zs H j (q_slots q ! j)
      | None \<Rightarrow> slot_holds (2 ^ k) zs H j (q_slots q ! j))"

text \<open>What a consumer thread has established about its slot.\<close>

definition result_ok :: "nat \<Rightarrow> 'w list list \<Rightarrow> u64 \<times> 'w list PollResult \<Rightarrow> bool" where
  "result_ok k H e \<longleftrightarrow>
     (case snd e of
        Ready d \<Rightarrow> unat (fst e) < length H \<and> d = H ! unat (fst e)
      | Skipped lost new \<Rightarrow> unat (fst e) + unat lost = unat new \<and> unat new \<le> length H \<and> 2 ^ k \<le> unat lost
      | _ \<Rightarrow> True)"

text \<open>The positions a thread has been given values for, in order.\<close>

definition delivered :: "(u64 \<times> 'w list PollResult) list \<Rightarrow> nat list" where
  "delivered log = map (\<lambda>e. unat (fst e)) (filter (\<lambda>e. is_Ready (snd e)) log)"

definition thread_inv :: "nat \<Rightarrow> nat \<Rightarrow> 'w list Queue \<Rightarrow> 'w list list \<Rightarrow> 'w consumer_thread \<Rightarrow> bool" where
  "thread_inv k W q H t \<longleftrightarrow>
     consumer_ok k H (ct_consumer t) \<and> (\<forall>e \<in> set (ct_log t). result_ok k H e) \<and>
     sorted_wrt (<) (delivered (ct_log t) @ [unat (c_cursor (ct_consumer t))]) \<and>
     (let n = unat (c_cursor (ct_consumer t)); v = rs_version (q_slots q ! (n mod 2 ^ k)) in
      case ct_pc t of
        CRead v1 buf \<Rightarrow> n < length H \<and> unat v1 = 2 * Suc (n div 2 ^ k) \<and> v1 \<le> v \<and>
          length buf \<le> W \<and> (v = v1 \<longrightarrow> buf = take (length buf) (H ! n))
      | CLapped \<Rightarrow> n + 2 ^ k \<le> unat (q_published q)
      | _ \<Rightarrow> True)"
lemma seq_invD:
  assumes "seq_inv k zs q pd pc H"
  shows "ring_consts k (p_mask pd) (p_log2_cap pd)" and "length (q_slots q) = 2 ^ k"
    and "q_published q = p_cursor pd" and "pc_words (length zs) pc"
    and "unat (p_cursor pd) + (if pc = PStorePublished then 1 else 0) = length H"
  using assms by (simp_all add: seq_inv_def)

lemma seq_inv_slot:
  assumes "seq_inv k zs q pd pc H" and "j < 2 ^ k" and "mid_write pc = None \<or> j \<noteq> length H mod 2 ^ k"
  shows "slot_holds (2 ^ k) zs H j (q_slots q ! j)"
  using assms by (auto simp: seq_inv_def split: option.splits)

lemma seq_inv_current:
  assumes "seq_inv k zs q pd pc H" and "mid_write pc = Some (x, m)"
  shows "written_slot k (length H) x m (q_slots q ! (length H mod 2 ^ k))"
  using assms by (auto simp: seq_inv_def)

lemma seq_invI:
  assumes "ring_consts k (q_mask q) (q_log2_cap q)" "p_mask pd = q_mask q" "p_log2_cap pd = q_log2_cap q"
    and "length (q_slots q) = 2 ^ k" "q_published q = p_cursor pd"
    and "unat (p_cursor pd) + (if pc = PStorePublished then 1 else 0) = length H"
    and "pc_words (length zs) pc" "\<forall>x \<in> set H. length x = length zs"
    and "\<And>x m. mid_write pc = Some (x, m) \<Longrightarrow> written_slot k (length H) x m (q_slots q ! (length H mod 2 ^ k))"
    and "\<And>j. j < 2 ^ k \<Longrightarrow> mid_write pc = None \<or> j \<noteq> length H mod 2 ^ k \<Longrightarrow>
           slot_holds (2 ^ k) zs H j (q_slots q ! j)"
  shows "seq_inv k zs q pd pc H"
  using assms by (auto simp: seq_inv_def split: option.split)

text \<open>The versions as numbers: odd exactly on the slot that is being written.\<close>

lemma version_nat:
  assumes I: "seq_inv k zs q pd pc H" and n: "length H + 1 < seq_bound" and j: "j < 2 ^ k"
  shows "unat (rs_version (q_slots q ! j)) =
     (if mid_write pc \<noteq> None \<and> j = length H mod 2 ^ k then 2 * (length H div 2 ^ k) + 1
      else 2 * writes (2 ^ k) (length H) j)"
proof (cases "mid_write pc \<noteq> None \<and> j = length H mod 2 ^ k")
  case True
  then have "rs_version (q_slots q ! j) = of_nat (2 * (length H div 2 ^ k) + 1)"
    using seq_inv_current [OF I] by (auto simp: written_slot_def)
  moreover have "2 * (length H div 2 ^ k) + 1 < 18446744073709551616"
    using div_le_dividend [of "length H" "2 ^ k"] n by linarith
  ultimately have "unat (rs_version (q_slots q ! j)) = 2 * (length H div 2 ^ k) + 1"
    using unat_of_nat_u64 by (simp only:)
  with True show ?thesis by simp
next
  case False
  then have "mid_write pc = None \<or> j \<noteq> length H mod 2 ^ k" by blast
  from seq_inv_slot [OF I j this] have "rs_version (q_slots q ! j) = of_nat (2 * writes (2 ^ k) (length H) j)"
    by (simp add: slot_holds_def)
  moreover have "2 * writes (2 ^ k) (length H) j < 18446744073709551616"
    using writes_le [OF j, of "length H"] n by linarith
  ultimately have "unat (rs_version (q_slots q ! j)) = 2 * writes (2 ^ k) (length H) j"
    using unat_of_nat_u64 by (simp del: of_nat_mult)
  with False show ?thesis by (simp only: if_False)
qed

text \<open>A slot whose version is the one a reader at position \<open>c\<close> expects holds the complete value
  \<open>c\<close> of the history.\<close>

lemma expected_slot:
  assumes I: "seq_inv k zs q pd pc H" and n: "length H + 1 < seq_bound"
    and v: "unat (rs_version (q_slots q ! (c mod 2 ^ k))) = 2 * Suc (c div 2 ^ k)"
  shows "c < length H" and "rs_data (q_slots q ! (c mod 2 ^ k)) = H ! c"
proof -
  let ?j = "c mod 2 ^ k" and ?n = "length H"
  have j: "?j < 2 ^ k" by simp
  have not_mid: "\<not> (mid_write pc \<noteq> None \<and> ?j = ?n mod 2 ^ k)"
  proof
    assume "mid_write pc \<noteq> None \<and> ?j = ?n mod 2 ^ k"
    then have "2 * (?n div 2 ^ k) + 1 = 2 * Suc (c div 2 ^ k)" using version_nat [OF I n j] v by simp
    then show False by (metis even_plus_one_iff dvd_triv_left)
  qed
  then have w: "writes (2 ^ k) ?n ?j = Suc (c div 2 ^ k)" using version_nat [OF I n j] v by auto
  then show "c < ?n" using writes_cursor(1) [of "2 ^ k" ?n c] by (cases "?n \<le> c") auto
  have "slot_holds (2 ^ k) zs H ?j (q_slots q ! ?j)" using seq_inv_slot [OF I j] not_mid by blast
  then show "rs_data (q_slots q ! ?j) = H ! c" using w mod_div_mult_eq [of c "2 ^ k"] by (simp add: slot_holds_def)
qed

lemma nth_slot_upd:
  "i < length (q_slots q) \<Longrightarrow> q_slots (slot_upd i f q) ! j = (if j = i then f (q_slots q ! i) else q_slots q ! j)"
  by (simp add: slot_upd_def)

lemma slot_upd_simps [simp]:
  "q_mask (slot_upd i f q) = q_mask q" "q_log2_cap (slot_upd i f q) = q_log2_cap q"
  "q_published (slot_upd i f q) = q_published q" "length (q_slots (slot_upd i f q)) = length (q_slots q)"
  by (simp_all add: slot_upd_def)

lemma lap_of_nat: "ring_consts k msk l \<Longrightarrow> lap_of seq l = of_nat (unat seq div 2 ^ k)"
  by (intro eq_of_natI) (rule lap_of_div)

text \<open>Committing the value being written extends the history for every slot.\<close>

lemma commit_slot:
  assumes j: "j < 2 ^ k"
    and other: "j \<noteq> length H mod 2 ^ k \<Longrightarrow> slot_holds (2 ^ k) zs H j slot"
    and this_slot: "j = length H mod 2 ^ k \<Longrightarrow>
      rs_version slot = of_nat (2 * (length H div 2 ^ k)) + 2 \<and> rs_data slot = x"
  shows "slot_holds (2 ^ k) zs (H @ [x]) j slot"
proof (cases "j = length H mod 2 ^ k")
  case True
  have w: "writes (2 ^ k) (Suc (length H)) j = Suc (length H div 2 ^ k)"
    using writes_publish [OF j, of "length H"] writes_at [of "2 ^ k" "length H"] True by simp
  have "j + (length H div 2 ^ k) * 2 ^ k = length H" using True mod_div_mult_eq [of "length H" "2 ^ k"] by simp
  then show ?thesis using w this_slot [OF True] by (simp add: slot_holds_def algebra_simps)
next
  case False
  have w: "writes (2 ^ k) (Suc (length H)) j = writes (2 ^ k) (length H) j"
    using writes_publish [OF j, of "length H"] False by simp
  have "j + (writes (2 ^ k) (length H) j - 1) * 2 ^ k < length H" if "writes (2 ^ k) (length H) j \<noteq> 0"
    using written_before [OF j that] .
  then show ?thesis using other [OF False] w by (simp add: slot_holds_def nth_append)
qed

subsection \<open>The producer\<close>

lemma producer_step_inv:
  assumes I: "seq_inv k zs q pd pc H" and n: "length H + 1 < seq_bound"
    and st: "producer_step q pd pc = (q', pd', pc')"
  shows "seq_inv k zs q' pd' pc' (H @ committed pc)"
proof (cases pc)
  case PIdle
  with I st show ?thesis by (simp add: committed_def)
next
  case (PStoreOdd x)
  note D = seq_invD [OF I]
  have cur: "unat (p_cursor pd) = length H" using D(5) PStoreOdd by simp
  have i: "producer_slot pd = length H mod 2 ^ k" using slot_index_mod [OF D(1)] cur by simp
  have hold: "slot_holds (2 ^ k) zs H j (q_slots q ! j)" if "j < 2 ^ k" for j
    using seq_inv_slot [OF I that] PStoreOdd by simp
  have len: "length (rs_data (q_slots q ! (length H mod 2 ^ k))) = length zs"
    using hold [of "length H mod 2 ^ k"] written_before [of "length H mod 2 ^ k" "2 ^ k" "length H"] I
    by (auto simp: slot_holds_def seq_inv_def split: if_splits)
  have q': "q' = slot_upd (length H mod 2 ^ k) (rs_version_update (\<lambda>_. of_nat (2 * (length H div 2 ^ k)) + 1)) q"
    "pd' = pd" "pc' = PWrite x 0" using st PStoreOdd i by (auto simp: lap_of_nat [OF D(1)] cur)
  show ?thesis using I PStoreOdd D(2,4) q' cur hold len
    by (intro seq_invI) (auto simp: committed_def nth_slot_upd written_slot_def seq_inv_def)
next
  case (PWrite x m)
  note D = seq_invD [OF I]
  have cur: "unat (p_cursor pd) = length H" using D(5) PWrite by simp
  have i: "producer_slot pd = length H mod 2 ^ k" using slot_index_mod [OF D(1)] cur by simp
  have ws: "written_slot k (length H) x m (q_slots q ! (length H mod 2 ^ k))"
    using seq_inv_current [OF I] PWrite by simp
  have hold: "slot_holds (2 ^ k) zs H j (q_slots q ! j)" if "j < 2 ^ k" "j \<noteq> length H mod 2 ^ k" for j
    using seq_inv_slot [OF I that(1)] that(2) by simp
  have next_word: "take (Suc m) (ws[m := x ! m]) = take (Suc m) x"
    if "m < length x" "length ws = length x" "take m ws = take m x" for ws
    using that by (simp add: take_Suc_conv_app_nth)
  show ?thesis using I st PWrite D(2,4) i hold ws next_word cur
    by (intro seq_invI) (auto simp: committed_def nth_slot_upd written_slot_def seq_inv_def split: if_splits)
next
  case (PStoreEven x)
  note D = seq_invD [OF I]
  have cur: "unat (p_cursor pd) = length H" using D(5) PStoreEven by simp
  have i: "producer_slot pd = length H mod 2 ^ k" using slot_index_mod [OF D(1)] cur by simp
  have ws: "written_slot k (length H) x (length x) (q_slots q ! (length H mod 2 ^ k))"
    using seq_inv_current [OF I] PStoreEven by simp
  have hold: "slot_holds (2 ^ k) zs H j (q_slots q ! j)" if "j < 2 ^ k" "j \<noteq> length H mod 2 ^ k" for j
    using seq_inv_slot [OF I that(1)] that(2) by simp
  have q': "q' = slot_upd (length H mod 2 ^ k) (rs_version_update (\<lambda>_. of_nat (2 * (length H div 2 ^ k)) + 2)) q"
    "pd' = pd" "pc' = PStorePublished" using st PStoreEven i by (auto simp: lap_of_nat [OF D(1)] cur)
  have "slot_holds (2 ^ k) zs (H @ [x]) j (q_slots q' ! j)" if "j < 2 ^ k" for j
    using that hold ws D(2) by (intro commit_slot) (auto simp: q' nth_slot_upd written_slot_def)
  then show ?thesis using I PStoreEven D(4) q' cur
    by (intro seq_invI) (auto simp: committed_def seq_inv_def)
next
  case PStorePublished
  note D = seq_invD [OF I]
  have "unat (p_cursor pd + 1) = length H" using D(5) PStorePublished n by (simp add: unat_plus_no_overflow)
  with I st PStorePublished show ?thesis
    by (intro seq_invI) (auto simp: committed_def seq_inv_def)
qed

text \<open>Versions and the published counter only grow.\<close>

lemma producer_step_mono:
  assumes I: "seq_inv k zs q pd pc H" and n: "length (H @ committed pc) + 1 < seq_bound"
    and st: "producer_step q pd pc = (q', pd', pc')"
  shows "j < 2 ^ k \<Longrightarrow> rs_version (q_slots q ! j) \<le> rs_version (q_slots q' ! j)"
    and "q_published q \<le> q_published q'"
proof -
  have n0: "length H + 1 < seq_bound" using n by simp
  note I' = producer_step_inv [OF I n0 st]
  show "rs_version (q_slots q ! j) \<le> rs_version (q_slots q' ! j)" if j: "j < 2 ^ k"
  proof -
    have w: "writes (2 ^ k) (length H) j = length H div 2 ^ k" if "j = length H mod 2 ^ k"
      using writes_at [of "2 ^ k" "length H"] that by simp
    show ?thesis
      using version_nat [OF I n0 j] version_nat [OF I' n j] st w writes_publish [OF j, of "length H"]
      by (cases pc) (auto simp: word_le_nat_alt committed_def split: if_splits)
  qed
  show "q_published q \<le> q_published q'"
    using seq_invD(3,5) [OF I] seq_invD(3,5) [OF I'] st
    by (cases pc) (auto simp: word_le_nat_alt committed_def split: if_splits)
qed

subsection \<open>The consumers\<close>

lemma result_ok_append: "result_ok k H e \<Longrightarrow> result_ok k (H @ ys) e"
  by (auto simp: result_ok_def nth_append split: PollResult.splits)

text \<open>A step of the producer does not invalidate what a consumer has established.\<close>

lemma thread_inv_producer:
  assumes I: "seq_inv k zs q pd pc H" and n: "length (H @ committed pc) + 1 < seq_bound"
    and st: "producer_step q pd pc = (q', pd', pc')" and T: "thread_inv k W q H t"
  shows "thread_inv k W q' (H @ committed pc) t"
proof -
  let ?n = "unat (c_cursor (ct_consumer t))"
  let ?v = "rs_version (q_slots q ! (?n mod 2 ^ k))" and ?v' = "rs_version (q_slots q' ! (?n mod 2 ^ k))"
  have v: "?v \<le> ?v'" using producer_step_mono(1) [OF I n st] by simp
  have p: "unat (q_published q) \<le> unat (q_published q')"
    using producer_step_mono(2) [OF I n st] by (simp add: word_le_nat_alt)
  have keep: "v1 \<le> ?v' \<and> (?v' = v1 \<longrightarrow> ?v = v1)" if "v1 \<le> ?v" for v1
    using v that by auto
  have ok: "consumer_ok k (H @ committed pc) (ct_consumer t)"
    "\<forall>e \<in> set (ct_log t). result_ok k (H @ committed pc) e"
    using T by (auto simp: thread_inv_def consumer_ok_def intro!: result_ok_append)
  show ?thesis
    using T ok keep p by (auto simp: thread_inv_def Let_def nth_append split: consumer_pc.splits)
qed

lemma expected_nat:
  assumes "ring_consts k msk l" and "unat seq + 1 < seq_bound"
  shows "unat (2 * (lap_of seq l + 1)) = 2 * Suc (unat seq div 2 ^ k)"
proof -
  have "2 * (lap_of seq l + 1) = of_nat (2 * Suc (unat seq div 2 ^ k))"
    by (simp add: lap_of_nat [OF assms(1)] algebra_simps)
  moreover have "unat seq div 2 ^ k < 9223372036854775807"
    using div_le_dividend [of "unat seq" "2 ^ k"] assms(2) by linarith
  then have "2 * Suc (unat seq div 2 ^ k) < 18446744073709551616" by simp
  ultimately show ?thesis using unat_of_nat_u64 by (simp only:)
qed

text \<open>A version beyond the expected one means a lap of at least one capacity.\<close>

lemma lapped_published:
  assumes I: "seq_inv k zs q pd pc H" and n: "length H + 1 < seq_bound"
    and v: "2 * Suc (c div 2 ^ k) < unat (rs_version (q_slots q ! (c mod 2 ^ k)))"
  shows "c + 2 ^ k \<le> unat (q_published q)"
proof -
  let ?n = "length H"
  have j: "c mod 2 ^ k < 2 ^ k" by simp
  note D = seq_invD(3,5) [OF I]
  show ?thesis
  proof (cases "mid_write pc \<noteq> None \<and> c mod 2 ^ k = ?n mod 2 ^ k")
    case True
    then have "2 * Suc (c div 2 ^ k) < 2 * (?n div 2 ^ k) + 1" using version_nat [OF I n j] v by simp
    then have "Suc (c div 2 ^ k) \<le> ?n div 2 ^ k" by simp
    then have "Suc (c div 2 ^ k) * 2 ^ k \<le> ?n div 2 ^ k * 2 ^ k" by (rule mult_le_mono1)
    then have "c + 2 ^ k \<le> ?n"
      using True mod_div_mult_eq [of c "2 ^ k"] mod_div_mult_eq [of ?n "2 ^ k"] by simp
    moreover have "pc \<noteq> PStorePublished" using True by auto
    ultimately show ?thesis using D by simp
  next
    case False
    then have "unat (rs_version (q_slots q ! (c mod 2 ^ k))) = 2 * writes (2 ^ k) ?n (c mod 2 ^ k)"
      using version_nat [OF I n j] by (simp only: if_False)
    then have "Suc (c div 2 ^ k) < writes (2 ^ k) ?n (c mod 2 ^ k)" using v by simp
    then have "c + 2 ^ k < ?n"
      using writes_cursor(1) [of "2 ^ k" ?n c] writes_cursor(2) [of "2 ^ k" c ?n]
      by (cases "c < ?n"; cases "?n \<le> c + 2 ^ k") auto
    then show ?thesis using D by (simp split: if_splits)
  qed
qed

lemma delivered_simps [simp]:
  "delivered [] = []"
  "delivered (log @ [(c, r)]) = delivered log @ (if is_Ready r then [unat c] else [])"
  by (simp_all add: delivered_def)

lemma sorted_snoc_mono: "sorted_wrt (<) (xs @ [m :: nat]) \<Longrightarrow> m \<le> n \<Longrightarrow> sorted_wrt (<) (xs @ [n])"
  by (fastforce simp: sorted_wrt_append)

lemma sorted_snoc_Suc: "sorted_wrt (<) (xs @ [m :: nat]) \<Longrightarrow> sorted_wrt (<) (xs @ [m, Suc m])"
  by (fastforce simp: sorted_wrt_append)

lemma thread_step_inv:
  assumes I: "seq_inv k zs q pd pc H" and n: "length H + 1 < seq_bound"
    and T: "thread_inv k (length zs) q H t"
  shows "thread_inv k (length zs) q H (thread_step (length zs) q t)"
proof -
  define c where "c = ct_consumer t"
  let ?c = "unat (c_cursor c)" and ?slot = "q_slots q ! (unat (c_cursor c) mod 2 ^ k)"
  have C: "consumer_ok k H c" and log: "\<forall>e \<in> set (ct_log t). result_ok k H e"
    "sorted_wrt (<) (delivered (ct_log t) @ [?c])"
    using T by (auto simp: thread_inv_def c_def)
  from C have rc: "ring_consts k (c_mask c) (c_log2_cap c)" and le: "?c \<le> length H" by (auto simp: consumer_ok_def)
  have i: "slot_index (c_cursor c) (c_mask c) = ?c mod 2 ^ k" by (rule slot_index_mod [OF rc])
  have ex: "unat (2 * (lap_of (c_cursor c) (c_log2_cap c) + 1)) = 2 * Suc (?c div 2 ^ k)"
    using expected_nat [OF rc] le n by simp
  show ?thesis
  proof (cases "ct_pc t")
    case CIdle
    let ?e = "2 * (lap_of (c_cursor c) (c_log2_cap c) + 1)"
    have lap: "?c + 2 ^ k \<le> unat (q_published q)" if "?e < rs_version ?slot"
      using lapped_published [OF I n, of ?c] that ex by (simp add: word_less_nat_alt)
    have rd: "?c < length H" if "\<not> ?e < rs_version ?slot" "\<not> rs_version ?slot < ?e"
      using expected_slot(1) [OF I n, of ?c] that ex by (simp add: not_less)
    show ?thesis
      using CIdle C log lap rd ex
      by (auto simp: thread_step_def thread_inv_def c_def [symmetric] i Let_def result_ok_def
          split: option.splits if_splits)
  next
    case (CRead v1 buf)
    then have b: "?c < length H" "unat v1 = 2 * Suc (?c div 2 ^ k)" "v1 \<le> rs_version ?slot"
      "length buf \<le> length zs" "rs_version ?slot = v1 \<Longrightarrow> buf = take (length buf) (H ! ?c)"
      using T by (auto simp: thread_inv_def c_def Let_def)
    have dat: "rs_data ?slot = H ! ?c" if "rs_version ?slot = v1"
      using expected_slot(2) [OF I n, of ?c] that b(2) by simp
    have len: "length (H ! ?c) = length zs" using I b(1) by (simp add: seq_inv_def)
    have s: "unat (c_cursor c + 1) = Suc ?c" using b(1) n by (simp add: unat_plus_no_overflow)
    have word: "buf @ [rs_data ?slot ! length buf] = take (Suc (length buf)) (H ! ?c)"
      if "length buf < length zs" "rs_version ?slot = v1"
      using that b(5) dat len by (simp add: take_Suc_conv_app_nth)
    show ?thesis
    proof (cases "length buf < length zs")
      case True
      then show ?thesis using CRead C log b word
        by (auto simp: thread_step_def thread_inv_def c_def [symmetric] i Let_def)
    next
      case False
      then have "buf = H ! ?c" if "rs_version ?slot = v1" using b(4,5) that len by simp
      then show ?thesis using CRead C log b(1) s False
        by (auto simp: thread_step_def thread_inv_def c_def [symmetric] i Let_def consumer_ok_def
            result_ok_def dest: sorted_snoc_Suc)
    qed
  next
    case CLapped
    then have lap: "?c + 2 ^ k \<le> unat (q_published q)" using T by (auto simp: thread_inv_def c_def Let_def)
    have pub: "unat (q_published q) \<le> length H" using seq_invD(3,5) [OF I] by (simp split: if_splits)
    have sub: "unat (q_published q - c_cursor c) = unat (q_published q) - ?c"
      using lap by (intro unat_minus_le) (simp add: word_le_nat_alt)
    show ?thesis using CLapped C log lap pub sub
      by (auto simp: thread_step_def thread_inv_def c_def [symmetric] Let_def Queue_published_def consumer_ok_def
          result_ok_def split: LapPolicy.splits intro: sorted_snoc_mono)
  next
    case CPanicked
    then show ?thesis using C log by (auto simp: thread_step_def thread_inv_def c_def [symmetric] Let_def)
  qed
qed

lemma seq_reach_inv:
  "seq_reach z W cap q pd pc ts H \<Longrightarrow> length H + 1 < seq_bound \<Longrightarrow>
     \<exists>k. unat cap = 2 ^ k \<and> seq_inv k (replicate W z) q pd pc H \<and> (\<forall>t \<in> set ts. thread_inv k W q H t)"
proof (induction rule: seq_reach.induct)
  case (seq_new q pd)
  then obtain k where "ring_rel k (replicate W z) q pd []" "unat cap = 2 ^ k" by (auto elim: Queue_new_rel)
  then show ?case by (auto simp: ring_rel_def seq_inv_def)
next
  case (seq_call q pd ts H x)
  then show ?case by (force simp: seq_inv_def)
next
  case (seq_producer q pd pc ts H q' pd' pc')
  then obtain k where k: "unat cap = 2 ^ k" "seq_inv k (replicate W z) q pd pc H" "\<forall>t \<in> set ts. thread_inv k W q H t"
    by auto
  have n: "length H + 1 < seq_bound" using seq_producer.prems by simp
  have "seq_inv k (replicate W z) q' pd' pc' (H @ committed pc)"
    by (rule producer_step_inv [OF k(2) n seq_producer.hyps(2)])
  moreover have "\<forall>t \<in> set ts. thread_inv k W q' (H @ committed pc) t"
    using thread_inv_producer [OF k(2) seq_producer.prems seq_producer.hyps(2)] k(3) by blast
  ultimately show ?case using k(1) by blast
next
  case (seq_subscribe q pd pc ts H policy)
  then obtain k where k: "unat cap = 2 ^ k" "seq_inv k (replicate W z) q pd pc H" "\<forall>t \<in> set ts. thread_inv k W q H t"
    by auto
  have "consumer_ok k H (subscribe q policy)"
    using k(2) by (auto simp: consumer_ok_def subscribe_def seq_inv_def Queue_published_def split: if_splits)
  with k show ?case by (fastforce simp: thread_inv_def)
next
  case (seq_consumer q pd pc ts H i)
  then obtain k where k: "unat cap = 2 ^ k" "seq_inv k (replicate W z) q pd pc H" "\<forall>t \<in> set ts. thread_inv k W q H t"
    by auto
  have "thread_inv k W q H (thread_step W q (ts ! i))"
    using thread_step_inv [OF k(2) seq_consumer.prems] k(3) seq_consumer.hyps(2) by simp
  with k show ?case using set_update_subset_insert [of ts i "thread_step W q (ts ! i)"] by blast
qed

section \<open>The steps are the calls\<close>

text \<open>Run alone, the steps of the producer have the effect of \<open>publish\<close>.\<close>

fun producer_run :: "nat \<Rightarrow> 'w list Queue \<times> Producer \<times> 'w producer_pc \<Rightarrow> 'w list Queue \<times> Producer \<times> 'w producer_pc" where
  "producer_run 0 s = s"
| "producer_run (Suc n) (q, pd, pc) = producer_run n (producer_step q pd pc)"

lemma producer_run_add: "producer_run (m + n) s = producer_run n (producer_run m s)"
proof (induction m arbitrary: s)
  case (Suc m)
  then show ?case by (cases s) simp
qed simp

lemma slot_upd_slot_upd: "i < length (q_slots q) \<Longrightarrow> slot_upd i f (slot_upd i g q) = slot_upd i (\<lambda>s. f (g s)) q"
  by (simp add: slot_upd_def)

lemma rs_data_id: "rs_data_update (\<lambda>ws. ws) s = s"
  by (cases s) simp

lemma rs_data_cong: "f (rs_data s) = g (rs_data s) \<Longrightarrow> rs_data_update f s = rs_data_update g s"
  by (cases s) simp

lemma producer_writes:
  fixes x :: "'w list"
  shows "m \<le> length x \<Longrightarrow> producer_slot pd < length (q_slots q) \<Longrightarrow>
   length (rs_data (q_slots q ! producer_slot pd)) = length x \<Longrightarrow>
   producer_run m (q, pd, PWrite x 0) =
     (slot_upd (producer_slot pd) (rs_data_update (\<lambda>ws. take m x @ drop m ws)) q, pd, PWrite x m)"
proof (induction m)
  case 0
  then show ?case by (simp add: slot_upd_def rs_data_id)
next
  case (Suc m)
  have u: "(take m x @ drop m ws)[m := x ! m] = take (Suc m) x @ drop (Suc m) ws" if "length ws = length x" for ws
    using Suc.prems(1) that by (intro nth_equalityI) (auto simp: nth_append nth_list_update)
  have v: "rs_data_update ((\<lambda>ws. ws[m := x ! m]) \<circ> (\<lambda>ws. take m x @ drop m ws)) s =
      rs_data_update (\<lambda>ws. take (Suc m) x @ drop (Suc m) ws) s" if "length (rs_data s) = length x" for s :: "'w list RingSlot"
    using u that by (intro rs_data_cong) simp
  from Suc v show ?case
    using producer_run_add [of m 1 "(q, pd, PWrite x 0)"] by (simp add: slot_upd_def)
qed

lemma publish_Release:
  assumes "producer_slot pd < length (q_slots q)"
  shows "publish Release q pd x =
    Inr ((slot_upd (producer_slot pd)
            (\<lambda>s. s\<lparr>rs_data := x, rs_version := 2 * lap_of (p_cursor pd) (p_log2_cap pd) + 2\<rparr>) q)
          \<lparr>q_published := p_cursor pd + 1\<rparr>, pd\<lparr>p_cursor := p_cursor pd + 1\<rparr>, p_cursor pd)"
  using assms by (simp add: publish_def Let_def index_slots_def slice_get_def times_u_def slot_upd_def)

section \<open>Properties\<close>

text \<open>
  No torn and no stale read. Whatever the interleaving of the single loads and stores of the
  producer and any number of consumers, every value a poll returns is, word for word, the value
  published at the position the poll was made for; a consumer gets the positions in strictly
  increasing order; and a skip reports exactly the distance it jumps, which is at least one
  capacity and never beyond what has been published.
\<close>

theorem no_torn_read:
  assumes "seq_reach z W cap q pd pc ts H" and "length H + 1 < 2 ^ 63" and "t \<in> set ts"
  shows "(\<forall>c d. (c, Ready d) \<in> set (ct_log t) \<longrightarrow> unat c < length H \<and> d = H ! unat c) \<and>
         sorted_wrt (<) (delivered (ct_log t)) \<and>
         (\<forall>c lost new. (c, Skipped lost new) \<in> set (ct_log t) \<longrightarrow>
            unat c + unat lost = unat new \<and> unat cap \<le> unat lost \<and> unat new \<le> length H)"
proof -
  from assms(2) seq_reach_inv [OF assms(1)] assms(3) obtain k
    where k: "unat cap = 2 ^ k" "thread_inv k W q H t" by auto
  then have "\<forall>e \<in> set (ct_log t). result_ok k H e" and "sorted_wrt (<) (delivered (ct_log t) @ [unat (c_cursor (ct_consumer t))])"
    by (simp_all add: thread_inv_def)
  then show ?thesis using k(1) by (auto simp: result_ok_def sorted_wrt_append)
qed

text \<open>A run in which the producer overwrites the slot while a consumer is between its two words: a
  ring of one slot with payloads of two words.\<close>

datatype seq_event = EvCall "nat list" | EvProducer | EvSubscribe LapPolicy | EvConsumer nat

type_synonym seq_state = "nat list Queue \<times> Producer \<times> nat producer_pc \<times> nat consumer_thread list \<times> nat list list"

fun seq_exec :: "nat \<Rightarrow> seq_event list \<Rightarrow> seq_state \<Rightarrow> seq_state option" where
  "seq_exec W [] s = Some s"
| "seq_exec W (EvCall x # es) (q, pd, pc, ts, H) =
     (if pc = PIdle \<and> length x = W then seq_exec W es (q, pd, PStoreOdd x, ts, H) else None)"
| "seq_exec W (EvProducer # es) (q, pd, pc, ts, H) =
     (case producer_step q pd pc of (q', pd', pc') \<Rightarrow> seq_exec W es (q', pd', pc', ts, H @ committed pc))"
| "seq_exec W (EvSubscribe policy # es) (q, pd, pc, ts, H) =
     seq_exec W es (q, pd, pc, ts @ [\<lparr>ct_consumer = subscribe q policy, ct_pc = CIdle, ct_log = []\<rparr>], H)"
| "seq_exec W (EvConsumer i # es) (q, pd, pc, ts, H) =
     (if i < length ts then seq_exec W es (q, pd, pc, ts[i := thread_step W q (ts ! i)], H) else None)"

lemma seq_exec_reach:
  "seq_reach z W cap q pd pc ts H \<Longrightarrow> seq_exec W es (q, pd, pc, ts, H) = Some (q', pd', pc', ts', H') \<Longrightarrow>
   seq_reach z W cap q' pd' pc' ts' H'"
proof (induction es arbitrary: q pd pc ts H)
  case (Cons e es)
  show ?case
  proof (cases e)
    case (EvCall x)
    with Cons.prems have "pc = PIdle" "length x = W" "seq_reach z W cap q pd PIdle ts H"
      "seq_exec W es (q, pd, PStoreOdd x, ts, H) = Some (q', pd', pc', ts', H')" by (auto split: if_splits)
    then show ?thesis using Cons.IH [OF seq_call] by blast
  qed (insert Cons.prems, auto split: if_splits prod.splits intro: seq_producer seq_subscribe seq_consumer Cons.IH [rotated])
qed simp

definition race_events :: "seq_event list" where
  "race_events =
     [EvSubscribe SkipToLatest, EvCall [1, 2], EvProducer, EvProducer, EvProducer, EvProducer, EvProducer, EvProducer,
      EvConsumer 0, EvConsumer 0, EvCall [3, 4], EvProducer, EvProducer, EvProducer, EvConsumer 0, EvConsumer 0,
      EvProducer, EvProducer, EvProducer, EvConsumer 0, EvConsumer 0,
      EvCall [5, 6], EvProducer, EvProducer, EvProducer, EvProducer, EvProducer, EvProducer,
      EvConsumer 0, EvConsumer 0, EvConsumer 0, EvConsumer 0]"

definition race_state :: seq_state where
  "race_state =
     (\<lparr>q_slots = [\<lparr>rs_version = 6, rs_data = [5, 6]\<rparr>], q_capacity = 1, q_mask = 0, q_log2_cap = 0, q_published = 3\<rparr>,
      \<lparr>p_cursor = 3, p_mask = 0, p_log2_cap = 0\<rparr>, PIdle,
      [\<lparr>ct_consumer = \<lparr>c_cursor = 3, c_mask = 0, c_log2_cap = 0, c_policy = SkipToLatest, c_halted = None\<rparr>,
        ct_pc = CIdle, ct_log = [(0, Empty), (0, Skipped 2 2), (2, Ready [5, 6])]\<rparr>],
      [[1, 2], [3, 4], [5, 6]])"

definition race_new :: "nat list Queue \<times> Producer" where
  "race_new = (\<lparr>q_slots = [\<lparr>rs_version = 0, rs_data = [0, 0]\<rparr>], q_capacity = 1, q_mask = 0, q_log2_cap = 0,
      q_published = 0\<rparr>, \<lparr>p_cursor = 0, p_mask = 0, p_log2_cap = 0\<rparr>)"

lemma race_new_ok: "Queue_new (replicate 2 0) 1 = Inr race_new"
  by code_simp

lemma race_run: "seq_exec 2 race_events (fst race_new, snd race_new, PIdle, [], []) = Some race_state"
  by (simp add: race_events_def race_new_def race_state_def slot_upd_def ring_ops committed_def
      thread_step_def)

lemma race_reach:
  "seq_reach 0 2 1 (fst race_state) (fst (snd race_state)) (fst (snd (snd race_state)))
     (fst (snd (snd (snd race_state)))) [[1, 2], [3, 4], [5, 6]]"
proof -
  have "seq_reach 0 2 1 (fst race_new) (snd race_new) PIdle [] []"
    using race_new_ok by (intro seq_new) simp
  from seq_exec_reach [OF this race_run [unfolded race_state_def]] show ?thesis by (simp add: race_state_def)
qed

theorem no_torn_read_witness:
  "\<exists>q pd ts t. seq_reach 0 2 1 q pd PIdle ts [[1, 2], [3, 4], [5, 6 :: nat]] \<and> t \<in> set ts \<and>
     (2, Ready [5, 6]) \<in> set (ct_log t) \<and> [5, 6 :: nat] = [[1, 2], [3, 4], [5, 6]] ! unat (2 :: u64) \<and>
     delivered (ct_log t) = [2]"
proof -
  let ?t = "hd (fst (snd (snd (snd race_state))))"
  have t: "?t \<in> set (fst (snd (snd (snd race_state))))" and r: "(2, Ready [5, 6]) \<in> set (ct_log ?t)"
    and d: "delivered (ct_log ?t) = [2]"
    by (simp_all add: race_state_def delivered_def)
  have "[5, 6 :: nat] = [[1, 2], [3, 4], [5, 6]] ! unat (2 :: u64)"
    using no_torn_read [OF race_reach _ t] r by force
  moreover have "fst (snd (snd race_state)) = PIdle" by (simp add: race_state_def)
  ultimately show ?thesis using race_reach t r d by metis
qed

text \<open>
  The interleaved model is the sequential one when nothing interferes. The accesses of one
  \<open>publish\<close> call, run without interruption, leave exactly the queue and the producer that the
  function of \<open>Ipc_Queue\<close> returns.
\<close>

theorem publish_is_its_steps:
  assumes "seq_reach z W cap q pd PIdle ts H" and "length x = W" and "length H + 1 < 2 ^ 63"
  shows "\<exists>q' pd'. publish Release q pd x = Inr (q', pd', p_cursor pd) \<and>
           producer_run (W + 4) (q, pd, PStoreOdd x) = (q', pd', PIdle)"
proof -
  from assms(3) seq_reach_inv [OF assms(1)] obtain k
    where I: "seq_inv k (replicate W z) q pd PIdle H" by auto
  note D = seq_invD [OF I]
  let ?i = "producer_slot pd"
  have i: "?i < 2 ^ k" using slot_index_mod [OF D(1)] by simp
  then have il: "?i < length (q_slots q)" using D(2) by simp
  have len: "length (rs_data (q_slots q ! ?i)) = length x"
    using seq_inv_slot [OF I i] written_before [OF i, of "length H"] I assms(2)
    by (auto simp: slot_holds_def seq_inv_def split: if_splits)
  let ?q1 = "slot_upd ?i (rs_version_update (\<lambda>_. 2 * lap_of (p_cursor pd) (p_log2_cap pd) + 1)) q"
  have w: "producer_run W (?q1, pd, PWrite x 0) =
      (slot_upd ?i (rs_data_update (\<lambda>ws. take W x @ drop W ws)) ?q1, pd, PWrite x W)"
    using producer_writes [of W x pd ?q1] assms(2) il len by (simp add: nth_slot_upd)
  have data: "rs_data_update (\<lambda>ws. x @ drop W ws) (q_slots q ! ?i) = rs_data_update (\<lambda>_. x) (q_slots q ! ?i)"
    using assms(2) len by (intro rs_data_cong) simp
  have "producer_run (Suc W + 3) (q, pd, PStoreOdd x) =
      producer_run 3 (slot_upd ?i (rs_data_update (\<lambda>ws. take W x @ drop W ws)) ?q1, pd, PWrite x W)"
    using producer_run_add [of "Suc W" 3 "(q, pd, PStoreOdd x)"] w by simp
  then show ?thesis
    using publish_Release [OF il, of x] assms(2) il
    by (simp add: eval_nat_numeral slot_upd_def data)
qed

theorem publish_is_its_steps_witness:
  "\<exists>q' pd'. publish Release (fst race_state) (fst (snd race_state)) [7, 8] = Inr (q', pd', 3) \<and>
     producer_run 6 (fst race_state, fst (snd race_state), PStoreOdd [7, 8]) = (q', pd', PIdle)"
proof -
  have s: "fst (snd (snd race_state)) = PIdle" "p_cursor (fst (snd race_state)) = 3" by (simp_all add: race_state_def)
  show ?thesis using publish_is_its_steps [OF race_reach [unfolded s(1)], of "[7, 8]"] s(2) by simp
qed

end
