(* ===== verification/Ipc_TSO.thy ===== *)
theory Ipc_TSO
  imports Ipc_Seqlock
begin

text \<open>
  The ring on a machine with store buffers. The processor of the target, x86-64, lets a thread run
  ahead of its own stores: they wait in a first-in first-out buffer and reach memory later, at any
  time, in the order they were issued, while loads are not reordered with each other. \<open>publish\<close>
  makes no shared load and \<open>poll\<close> no shared store, so only the producer's buffer matters. The
  fences and orderings of the source keep the compiler from reordering; on this machine a release
  store is a plain store.

  Every execution with a buffer is one of the sequentially consistent model in which the producer
  is as far as its stores have got: \<open>issues\<close> relates the two positions of the producer.
\<close>

section \<open>Stores and the buffer\<close>

datatype 'w store = StVersion nat u64 | StWord nat nat 'w | StPublished u64

fun apply_store :: "'w store \<Rightarrow> 'w list Queue \<Rightarrow> 'w list Queue" where
  "apply_store (StVersion i v) q = slot_upd i (rs_version_update (\<lambda>_. v)) q"
| "apply_store (StWord i m w) q = slot_upd i (rs_data_update (\<lambda>ws. ws[m := w])) q"
| "apply_store (StPublished n) q = q\<lparr>q_published := n\<rparr>"

text \<open>One step of \<open>publish\<close> as the processor issues it: the store, if there is one, and the next
  position in the program.\<close>

fun producer_issue :: "Producer \<Rightarrow> 'w producer_pc \<Rightarrow> 'w store option \<times> Producer \<times> 'w producer_pc" where
  "producer_issue pd PIdle = (None, pd, PIdle)"
| "producer_issue pd (PStoreOdd x) =
     (Some (StVersion (producer_slot pd) (2 * lap_of (p_cursor pd) (p_log2_cap pd) + 1)), pd, PWrite x 0)"
| "producer_issue pd (PWrite x m) =
     (if m < length x then (Some (StWord (producer_slot pd) m (x ! m)), pd, PWrite x (Suc m))
      else (None, pd, PStoreEven x))"
| "producer_issue pd (PStoreEven x) =
     (Some (StVersion (producer_slot pd) (2 * lap_of (p_cursor pd) (p_log2_cap pd) + 2)), pd, PStorePublished)"
| "producer_issue pd PStorePublished =
     (Some (StPublished (p_cursor pd + 1)), pd\<lparr>p_cursor := p_cursor pd + 1\<rparr>, PIdle)"

text \<open>Without a buffer, issuing and storing at once, this is the step of the consistent model.\<close>

lemma producer_step_issue:
  "producer_step q pd pc = (case producer_issue pd pc of (so, pd', pc') \<Rightarrow>
     ((case so of None \<Rightarrow> q | Some st \<Rightarrow> apply_store st q), pd', pc'))"
  by (cases pc) auto

text \<open>A buffered store, with the value it commits when it is an even version.\<close>

type_synonym 'w buffered = "'w store \<times> 'w list list"

definition buffer_of :: "'w store option \<Rightarrow> 'w producer_pc \<Rightarrow> 'w buffered list" where
  "buffer_of so pc = (case so of None \<Rightarrow> [] | Some st \<Rightarrow> [(st, committed pc)])"

text \<open>The states of the machine: memory, the producer with its buffer, the consumers, and the
  history of the values whose even version has reached memory.\<close>

inductive tso_reach :: "'w \<Rightarrow> nat \<Rightarrow> u32 \<Rightarrow> 'w list Queue \<Rightarrow> 'w buffered list \<Rightarrow> Producer \<Rightarrow> 'w producer_pc \<Rightarrow>
    'w consumer_thread list \<Rightarrow> 'w list list \<Rightarrow> bool" for z W cap where
  tso_new: "Queue_new (replicate W z) cap = Inr (q, pd) \<Longrightarrow> tso_reach z W cap q [] pd PIdle [] []"
| tso_call: "tso_reach z W cap q B pd PIdle ts H \<Longrightarrow> length x = W \<Longrightarrow> tso_reach z W cap q B pd (PStoreOdd x) ts H"
| tso_issue: "tso_reach z W cap q B pd pc ts H \<Longrightarrow> producer_issue pd pc = (so, pd', pc') \<Longrightarrow>
    tso_reach z W cap q (B @ buffer_of so pc) pd' pc' ts H"
| tso_flush: "tso_reach z W cap q ((st, xs) # B) pd pc ts H \<Longrightarrow>
    tso_reach z W cap (apply_store st q) B pd pc ts (H @ xs)"
| tso_subscribe: "tso_reach z W cap q B pd pc ts H \<Longrightarrow>
    tso_reach z W cap q B pd pc (ts @ [\<lparr>ct_consumer = subscribe q policy, ct_pc = CIdle, ct_log = []\<rparr>]) H"
| tso_consumer: "tso_reach z W cap q B pd pc ts H \<Longrightarrow> i < length ts \<Longrightarrow>
    tso_reach z W cap q B pd pc (ts[i := thread_step W q (ts ! i)]) H"

section \<open>Simulation by the consistent model\<close>

inductive issues :: "nat \<Rightarrow> Producer \<Rightarrow> 'w producer_pc \<Rightarrow> 'w buffered list \<Rightarrow> Producer \<Rightarrow> 'w producer_pc \<Rightarrow> bool"
  for W pd0 pc0 where
  issues_refl: "issues W pd0 pc0 [] pd0 pc0"
| issues_call: "issues W pd0 pc0 B pd PIdle \<Longrightarrow> length x = W \<Longrightarrow> issues W pd0 pc0 B pd (PStoreOdd x)"
| issues_step: "issues W pd0 pc0 B pd pc \<Longrightarrow> producer_issue pd pc = (so, pd', pc') \<Longrightarrow>
    issues W pd0 pc0 (B @ buffer_of so pc) pd' pc'"

text \<open>Positions between which nothing was stored are the same state for the other threads.\<close>

lemma issues_silent:
  assumes "issues W pd0 pc0 B pd pc" and "B = []" and "seq_reach z W cap q pd0 pc0 ts H"
  shows "seq_reach z W cap q pd pc ts H"
  using assms
proof (induction rule: issues.induct)
  case (issues_call B pd x)
  then show ?case by (blast intro: seq_call)
next
  case (issues_step B pd pc so pd' pc')
  then have so: "so = None" and B: "B = []" by (auto simp: buffer_of_def split: option.splits)
  from so issues_step.hyps(2) have "committed pc = []" by (cases pc) (auto simp: committed_def)
  with seq_producer [OF issues_step.IH [OF B issues_step.prems(2)]] issues_step.hyps(2) so show ?case
    by (simp add: producer_step_issue)
qed simp

text \<open>The oldest buffered store is the next store of the position that lags behind.\<close>

lemma issues_first:
  assumes "issues W pd0 pc0 B pd pc" and "B = (st, xs) # B'"
  shows "\<exists>pd1 pc1 pd2 pc2. issues W pd0 pc0 [] pd1 pc1 \<and> producer_issue pd1 pc1 = (Some st, pd2, pc2) \<and>
    xs = committed pc1 \<and> issues W pd2 pc2 B' pd pc"
  using assms
proof (induction arbitrary: B' rule: issues.induct)
  case (issues_call B pd x)
  then show ?case by (blast intro: issues.issues_call)
next
  case (issues_step B pd pc so pd' pc')
  show ?case
  proof (cases B)
    case Nil
    with issues_step.prems have "so = Some st" "xs = committed pc" "B' = []"
      by (auto simp: buffer_of_def split: option.splits)
    with issues_step.hyps Nil show ?thesis by (blast intro: issues_refl)
  next
    case (Cons b B1)
    with issues_step.prems have "B = (st, xs) # B1" "B' = B1 @ buffer_of so pc" by auto
    with issues_step.IH [OF this(1)] issues_step.hyps(2) show ?thesis by (blast intro: issues.issues_step)
  qed
qed simp

lemma tso_simulated:
  assumes "tso_reach z W cap q B pd pc ts H"
  shows "\<exists>pd0 pc0. seq_reach z W cap q pd0 pc0 ts H \<and> issues W pd0 pc0 B pd pc"
  using assms
proof (induction rule: tso_reach.induct)
  case (tso_new q pd)
  then show ?case by (blast intro: seq_new issues_refl)
next
  case (tso_call q B pd ts H x)
  then show ?case by (blast intro: issues_call)
next
  case (tso_issue q B pd pc ts H so pd' pc')
  then show ?case by (blast intro: issues_step)
next
  case (tso_flush q st xs B pd pc ts H)
  then obtain pd0 pc0 where s: "seq_reach z W cap q pd0 pc0 ts H" and i: "issues W pd0 pc0 ((st, xs) # B) pd pc" by blast
  from issues_first [OF i refl] obtain pd1 pc1 pd2 pc2 where j: "issues W pd0 pc0 [] pd1 pc1"
    "producer_issue pd1 pc1 = (Some st, pd2, pc2)" "xs = committed pc1" "issues W pd2 pc2 B pd pc" by blast
  from j(2) have "producer_step q pd1 pc1 = (apply_store st q, pd2, pc2)" by (simp add: producer_step_issue)
  from seq_producer [OF issues_silent [OF j(1) refl s] this] j(3,4) show ?case by blast
next
  case (tso_subscribe q B pd pc ts H policy)
  then show ?case by (blast intro: seq_subscribe)
next
  case (tso_consumer q B pd pc ts H i)
  then show ?case by (blast intro: seq_consumer)
qed

text \<open>With an empty buffer the machine is in a state of the consistent model.\<close>

lemma tso_drained:
  assumes "tso_reach z W cap q [] pd pc ts H"
  shows "seq_reach z W cap q pd pc ts H"
  using tso_simulated [OF assms] issues_silent [OF _ refl] by auto

section \<open>What a consumer's log accounts for\<close>

text \<open>Where a poll leaves the cursor, from its result; a log whose polls follow each other.\<close>

fun advance :: "u64 \<Rightarrow> 'a PollResult \<Rightarrow> u64" where
  "advance c (Ready d) = c + 1"
| "advance c (Skipped lost new) = new"
| "advance c _ = c"

fun chained :: "u64 \<Rightarrow> (u64 \<times> 'a PollResult) list \<Rightarrow> u64 \<Rightarrow> bool" where
  "chained c0 [] c = (c0 = c)"
| "chained c0 ((c1, r) # es) c = (c1 = c0 \<and> chained (advance c1 r) es c)"

lemma chained_snoc: "chained c0 log c \<Longrightarrow> chained c0 (log @ [(c, r)]) (advance c r)"
  by (induction c0 log c rule: chained.induct) auto

fun values_of :: "(u64 \<times> 'a PollResult) list \<Rightarrow> 'a list" where
  "values_of [] = []"
| "values_of ((c, Ready d) # es) = d # values_of es"
| "values_of (_ # es) = values_of es"

lemma thread_step_chained:
  assumes "chained c0 (ct_log t) (c_cursor (ct_consumer t))"
  shows "chained c0 (ct_log (thread_step W q t)) (c_cursor (ct_consumer (thread_step W q t)))"
proof -
  obtain c pc r where st: "consumer_step W q (ct_consumer t) (ct_pc t) = (c, pc, r)" by (metis prod_cases3)
  then have "case r of None \<Rightarrow> c_cursor c = c_cursor (ct_consumer t)
      | Some res \<Rightarrow> c_cursor c = advance (c_cursor (ct_consumer t)) res"
    by (cases "ct_pc t") (auto simp: Let_def split: if_splits option.splits LapPolicy.splits)
  with assms st chained_snoc show ?thesis by (auto simp: thread_step_def split: option.splits)
qed

lemma seq_reach_chained:
  assumes "seq_reach z W cap q pd pc ts H"
  shows "\<forall>t \<in> set ts. \<exists>c0. chained c0 (ct_log t) (c_cursor (ct_consumer t))"
  using assms
proof (induction rule: seq_reach.induct)
  case (seq_consumer q pd pc ts H i)
  have "\<exists>c0. chained c0 (ct_log t) (c_cursor (ct_consumer t))" if "t \<in> set (ts[i := thread_step W q (ts ! i)])" for t
  proof -
    from that set_update_subset_insert have "t \<in> set ts \<or> t = thread_step W q (ts ! i)" by fastforce
    with seq_consumer thread_step_chained nth_mem show ?thesis by metis
  qed
  then show ?case by blast
qed auto

fun gap_free :: "'a list \<Rightarrow> u64 \<times> 'a PollResult \<Rightarrow> bool" where
  "gap_free H (c, Ready d) = (unat c < length H \<and> d = H ! unat c)"
| "gap_free H (c, Skipped lost new) = False"
| "gap_free H _ = True"

lemma chained_values:
  assumes "chained c0 log c" and "list_all (gap_free H) log" and "length H < 2 ^ 63"
  shows "unat c0 + length (values_of log) = unat c \<and>
    values_of log = take (length (values_of log)) (drop (unat c0) H)"
  using assms
proof (induction c0 log c rule: chained.induct)
  case (1 c0 c)
  then show ?case by simp
next
  case (2 c0 c1 r es c)
  show ?case
  proof (cases r)
    case (Ready d)
    with 2(2,3) have r: "c1 = c0" "unat c0 < length H" "d = H ! unat c0" "chained (advance c1 r) es c" "list_all (gap_free H) es"
      by auto
    have u: "unat (advance c1 r) = Suc (unat c0)" using r(1,2) 2(4) Ready by (simp add: unat_plus_no_overflow)
    have v: "values_of ((c1, r) # es) = d # values_of es" by (simp add: Ready)
    have "drop (unat c0) H = d # drop (Suc (unat c0)) H" using r(2,3) by (simp add: Cons_nth_drop_Suc)
    with 2(1) [OF r(4,5) 2(4)] u v r(2) show ?thesis by simp
  qed (use 2 in auto)
qed

section \<open>A sample run\<close>

text \<open>A run in which a consumer polls while a whole publication is still in the buffer, and again
  while it is half in memory.\<close>

datatype tso_event = TCall "nat list" | TIssue | TFlush | TSubscribe LapPolicy | TConsumer nat

type_synonym tso_state =
  "nat list Queue \<times> nat buffered list \<times> Producer \<times> nat producer_pc \<times> nat consumer_thread list \<times> nat list list"

fun tso_exec :: "nat \<Rightarrow> tso_event list \<Rightarrow> tso_state \<Rightarrow> tso_state option" where
  "tso_exec W [] s = Some s"
| "tso_exec W (TCall x # es) (q, B, pd, pc, ts, H) =
     (if pc = PIdle \<and> length x = W then tso_exec W es (q, B, pd, PStoreOdd x, ts, H) else None)"
| "tso_exec W (TIssue # es) (q, B, pd, pc, ts, H) =
     (case producer_issue pd pc of (so, pd', pc') \<Rightarrow> tso_exec W es (q, B @ buffer_of so pc, pd', pc', ts, H))"
| "tso_exec W (TFlush # es) (q, B, pd, pc, ts, H) =
     (case B of [] \<Rightarrow> None | (st, xs) # B' \<Rightarrow> tso_exec W es (apply_store st q, B', pd, pc, ts, H @ xs))"
| "tso_exec W (TSubscribe policy # es) (q, B, pd, pc, ts, H) =
     tso_exec W es (q, B, pd, pc, ts @ [\<lparr>ct_consumer = subscribe q policy, ct_pc = CIdle, ct_log = []\<rparr>], H)"
| "tso_exec W (TConsumer i # es) (q, B, pd, pc, ts, H) =
     (if i < length ts then tso_exec W es (q, B, pd, pc, ts[i := thread_step W q (ts ! i)], H) else None)"

lemma tso_exec_reach:
  "tso_reach z W cap q B pd pc ts H \<Longrightarrow> tso_exec W es (q, B, pd, pc, ts, H) = Some (q', B', pd', pc', ts', H') \<Longrightarrow>
   tso_reach z W cap q' B' pd' pc' ts' H'"
proof (induction es arbitrary: q B pd pc ts H)
  case (Cons e es)
  show ?case
  proof (cases e)
    case (TCall x)
    with Cons.prems have "length x = W" "tso_reach z W cap q B pd PIdle ts H"
      "tso_exec W es (q, B, pd, PStoreOdd x, ts, H) = Some (q', B', pd', pc', ts', H')" by (auto split: if_splits)
    then show ?thesis using Cons.IH [OF tso_call] by blast
  qed (insert Cons.prems, auto split: if_splits prod.splits list.splits
      intro: tso_issue tso_flush tso_subscribe tso_consumer Cons.IH [rotated])
qed simp

definition delayed_events :: "tso_event list" where
  "delayed_events =
     [TSubscribe Halt, TCall [1, 2], TIssue, TIssue, TIssue, TIssue, TIssue, TIssue, TConsumer 0,
      TFlush, TFlush, TConsumer 0, TFlush, TFlush, TConsumer 0, TConsumer 0, TFlush, TConsumer 0, TConsumer 0]"

definition delayed_state :: tso_state where
  "delayed_state =
     (\<lparr>q_slots = [\<lparr>rs_version = 2, rs_data = [1, 2]\<rparr>], q_capacity = 1, q_mask = 0, q_log2_cap = 0, q_published = 1\<rparr>,
      [], \<lparr>p_cursor = 1, p_mask = 0, p_log2_cap = 0\<rparr>, PIdle,
      [\<lparr>ct_consumer = \<lparr>c_cursor = 1, c_mask = 0, c_log2_cap = 0, c_policy = Halt, c_halted = None\<rparr>,
        ct_pc = CIdle, ct_log = [(0, Empty), (0, Empty), (0, Ready [1, 2])]\<rparr>], [[1, 2]])"

lemma delayed_run: "tso_exec 2 delayed_events (fst race_new, [], snd race_new, PIdle, [], []) = Some delayed_state"
  by (simp add: delayed_events_def race_new_def delayed_state_def slot_upd_def ring_ops committed_def
      thread_step_def buffer_of_def)

lemma delayed_reach:
  assumes "delayed_state = (q, B, pd, pc, ts, H)"
  shows "tso_reach 0 2 1 q B pd pc ts H"
proof -
  have "tso_reach 0 2 1 (fst race_new) [] (snd race_new) PIdle [] []" using race_new_ok by (intro tso_new) simp
  from tso_exec_reach [OF this delayed_run [unfolded assms]] show ?thesis .
qed

section \<open>Properties\<close>

text \<open>
  C12: no torn and no stale read with store buffers either. On a machine where the producer's stores
  reach memory any time after they are issued, in order, and whatever the interleaving with the
  single loads of any number of consumers, every value a poll returns is, word for word, the value
  published at the position the poll was made for; a consumer gets the positions in strictly
  increasing order; a skip reports exactly the distance it jumps, at least one capacity and never
  beyond what has reached memory; and once the buffer is empty the ring is in a state of the
  sequentially consistent model.
\<close>

theorem no_torn_read_tso:
  assumes "tso_reach z W cap q B pd pc ts H" and "length H + 1 < 2 ^ 63" and "t \<in> set ts"
  shows "(\<forall>c d. (c, Ready d) \<in> set (ct_log t) \<longrightarrow> unat c < length H \<and> d = H ! unat c) \<and>
         sorted_wrt (<) (delivered (ct_log t)) \<and>
         (\<forall>c lost new. (c, Skipped lost new) \<in> set (ct_log t) \<longrightarrow>
            unat c + unat lost = unat new \<and> unat cap \<le> unat lost \<and> unat new \<le> length H) \<and>
         (B = [] \<longrightarrow> seq_reach z W cap q pd pc ts H)"
proof -
  from tso_simulated [OF assms(1)] obtain pd0 pc0 where s: "seq_reach z W cap q pd0 pc0 ts H" by blast
  have "B = [] \<longrightarrow> seq_reach z W cap q pd pc ts H" using tso_drained assms(1) by auto
  with no_torn_read [OF s assms(2,3)] show ?thesis by blast
qed

theorem no_torn_read_tso_witness:
  "\<exists>q pd ts t. tso_reach 0 2 1 q [] pd PIdle ts [[1, 2 :: nat]] \<and> t \<in> set ts \<and> (0, Ready [1, 2]) \<in> set (ct_log t) \<and>
     [1, 2] = [[1, 2]] ! unat (0 :: u64) \<and> seq_reach 0 2 1 q pd PIdle ts [[1, 2]]"
proof -
  obtain q pd ts where st: "delayed_state = (q, [], pd, PIdle, ts, [[1, 2]])" by (simp add: delayed_state_def)
  note r = delayed_reach [OF st]
  have t: "hd ts \<in> set ts" "(0, Ready [1, 2]) \<in> set (ct_log (hd ts))" using st by (auto simp: delayed_state_def)
  from no_torn_read_tso [OF r _ t(1)] r t show ?thesis by fastforce
qed

text \<open>
  C13: no silent loss. As long as a consumer's polls have reported no skip, the values it has received
  are exactly the publications from the position it subscribed at, each once, in order and without a
  gap, on the machine with store buffers and under every interleaving.
\<close>

theorem no_silent_loss:
  assumes "tso_reach z W cap q B pd pc ts H" and "length H + 1 < 2 ^ 63" and "t \<in> set ts"
    and "\<forall>c lost new. (c, Skipped lost new) \<notin> set (ct_log t)"
  shows "\<exists>start. values_of (ct_log t) = take (length (values_of (ct_log t))) (drop start H) \<and>
    start + length (values_of (ct_log t)) = unat (c_cursor (ct_consumer t)) \<and>
    (\<forall>e es. ct_log t = e # es \<longrightarrow> start = unat (fst e))"
proof -
  from tso_simulated [OF assms(1)] obtain pd0 pc0 where s: "seq_reach z W cap q pd0 pc0 ts H" by blast
  from seq_reach_chained [OF s] assms(3) obtain c0 where c0: "chained c0 (ct_log t) (c_cursor (ct_consumer t))" by blast
  from no_torn_read [OF s assms(2,3)] assms(4) have gf: "list_all (gap_free H) (ct_log t)"
    unfolding list_all_iff by (metis gap_free.elims(3))
  have "length H < 2 ^ 63" using assms(2) by simp
  from chained_values [OF c0 gf this] have v: "unat c0 + length (values_of (ct_log t)) = unat (c_cursor (ct_consumer t))"
    "values_of (ct_log t) = take (length (values_of (ct_log t))) (drop (unat c0) H)" by blast+
  have "fst e = c0" if "ct_log t = e # es" for e es using c0 that by (cases e) simp
  with v show ?thesis by (intro exI [of _ "unat c0"]) auto
qed

theorem no_silent_loss_witness:
  "\<exists>q pd ts t. tso_reach 0 2 1 q [] pd PIdle ts [[1, 2 :: nat]] \<and> t \<in> set ts \<and>
     values_of (ct_log t) = take 1 (drop 0 [[1, 2]])"
proof -
  obtain q pd ts where st: "delayed_state = (q, [], pd, PIdle, ts, [[1, 2]])" by (simp add: delayed_state_def)
  let ?t = "hd ts"
  have t: "?t \<in> set ts" "ct_log ?t = [(0, Empty), (0, Empty), (0, Ready [1, 2])]" using st by (auto simp: delayed_state_def)
  have n: "length (values_of (ct_log ?t)) = 1" by (simp add: t(2))
  from no_silent_loss [OF delayed_reach [OF st] _ t(1)] t(2) n
  have "values_of (ct_log ?t) = take 1 (drop 0 [[1, 2]])" by auto
  with delayed_reach [OF st] t(1) show ?thesis by blast
qed

end
