(* ===== verification/F64.thy ===== *)
theory F64
  imports Complex_Main Rust_Str
begin

text \<open>
  Rust's \<open>f64\<close> (IEEE 754 binary64, round to nearest, ties to even) as the benchmarking tools use it:
  conversion from and to \<open>u64\<close>, the four operations, comparison and fixed-point formatting. A finite
  value is the rational it denotes. The sign of zero is not kept: no divisor in the sources is a
  negative zero, and no zero is printed with its sign (\<open>{:+}\<close> is applied to a change, whose zero is
  the positive one).
\<close>

section \<open>Rounding\<close>

datatype f64 = NaN | Inf | NegInf | Fin rat

function bitlen :: "int \<Rightarrow> int" where
  "bitlen n = (if n \<le> 0 then 0 else 1 + bitlen (n div 2))"
  by auto
termination bitlen by (relation "measure nat") auto

declare bitlen.simps [simp del]

definition pow2 :: "int \<Rightarrow> rat" where
  "pow2 e = (if 0 \<le> e then 2 ^ nat e else 1 / 2 ^ nat (- e))"

text \<open>The exponent \<open>e\<close> with \<open>2^e \<le> x < 2^(e+1)\<close>, for a positive \<open>x\<close>.\<close>

definition ilog2 :: "rat \<Rightarrow> int" where
  "ilog2 x =
     (let (n, d) = quotient_of x; e = bitlen n - bitlen d
      in if pow2 e \<le> x then e else e - 1)"

definition round_half_even :: "rat \<Rightarrow> int" where
  "round_half_even x =
     (let f = floor x; d = x - of_int f in
      if d < 1 / 2 then f else if 1 / 2 < d then f + 1 else if even f then f else f + 1)"

text \<open>53 significant bits; the smallest unit is the subnormal one.\<close>

definition f64_round :: "rat \<Rightarrow> f64" where
  "f64_round x =
     (if x = 0 then Fin 0
      else let u = pow2 (max (ilog2 \<bar>x\<bar> - 52) (- 1074));
               r = of_int (round_half_even (x / u)) * u
           in if pow2 1024 \<le> r then Inf else if r \<le> - pow2 1024 then NegInf else Fin r)"

section \<open>Operations\<close>

definition f64_of_u64 :: "u64 \<Rightarrow> f64" where
  "f64_of_u64 n = f64_round (of_nat (unat n))"

text \<open>\<open>as u64\<close>: towards zero, saturating, and zero for a NaN.\<close>

fun f64_to_u64 :: "f64 \<Rightarrow> u64" where
  "f64_to_u64 NaN = 0"
| "f64_to_u64 NegInf = 0"
| "f64_to_u64 Inf = - 1"
| "f64_to_u64 (Fin r) = (if r \<le> 0 then 0 else if 2 ^ 64 \<le> floor r then - 1 else of_int (floor r))"

fun f64_neg :: "f64 \<Rightarrow> f64" where
  "f64_neg NaN = NaN"
| "f64_neg Inf = NegInf"
| "f64_neg NegInf = Inf"
| "f64_neg (Fin r) = Fin (- r)"

fun f64_sub :: "f64 \<Rightarrow> f64 \<Rightarrow> f64" where
  "f64_sub (Fin a) (Fin b) = f64_round (a - b)"
| "f64_sub NaN b = NaN"
| "f64_sub a NaN = NaN"
| "f64_sub Inf Inf = NaN"
| "f64_sub NegInf NegInf = NaN"
| "f64_sub (Fin a) b = f64_neg b"
| "f64_sub a b = a"

definition f64_signed_inf :: "bool \<Rightarrow> f64" where
  "f64_signed_inf neg = (if neg then NegInf else Inf)"

fun f64_negative :: "f64 \<Rightarrow> bool" where
  "f64_negative (Fin r) \<longleftrightarrow> r < 0"
| "f64_negative NegInf \<longleftrightarrow> True"
| "f64_negative b \<longleftrightarrow> False"

fun f64_mul :: "f64 \<Rightarrow> f64 \<Rightarrow> f64" where
  "f64_mul (Fin a) (Fin b) = f64_round (a * b)"
| "f64_mul NaN b = NaN"
| "f64_mul a NaN = NaN"
| "f64_mul a b =
     (if a = Fin 0 \<or> b = Fin 0 then NaN else f64_signed_inf (f64_negative a \<noteq> f64_negative b))"

fun f64_div :: "f64 \<Rightarrow> f64 \<Rightarrow> f64" where
  "f64_div (Fin a) (Fin b) =
     (if b = 0 then (if a = 0 then NaN else f64_signed_inf (a < 0)) else f64_round (a / b))"
| "f64_div NaN b = NaN"
| "f64_div a NaN = NaN"
| "f64_div (Fin a) b = Fin 0"
| "f64_div a (Fin b) = f64_signed_inf (f64_negative a \<noteq> (b < 0))"
| "f64_div a b = NaN"

fun f64_abs :: "f64 \<Rightarrow> f64" where
  "f64_abs NaN = NaN"
| "f64_abs (Fin r) = Fin \<bar>r\<bar>"
| "f64_abs v = Inf"

text \<open>A comparison with a NaN is false.\<close>

fun f64_less :: "f64 \<Rightarrow> f64 \<Rightarrow> bool" where
  "f64_less NaN b \<longleftrightarrow> False"
| "f64_less a NaN \<longleftrightarrow> False"
| "f64_less (Fin a) (Fin b) \<longleftrightarrow> a < b"
| "f64_less Inf b \<longleftrightarrow> False"
| "f64_less a NegInf \<longleftrightarrow> False"
| "f64_less a b \<longleftrightarrow> True"

definition f64_le :: "f64 \<Rightarrow> f64 \<Rightarrow> bool" where
  "f64_le a b \<longleftrightarrow> f64_less a b \<or> (a = b \<and> a \<noteq> NaN)"

section \<open>Formatting\<close>

definition pad_left :: "nat \<Rightarrow> string \<Rightarrow> string" where
  "pad_left w s = replicate (w - length s) CHR '' '' @ s"

text \<open>The exact decimal expansion rounded to \<open>k\<close> places, ties to even: \<open>{:.k}\<close>.\<close>

definition show_fixed :: "nat \<Rightarrow> rat \<Rightarrow> string" where
  "show_fixed k r =
     (let n = nat (round_half_even (r * 10 ^ k))
      in if k = 0 then show_nat n
         else show_nat (n div 10 ^ k) @ ''.'' @ pad0 k (show_nat (n mod 10 ^ k)))"

fun f64_fmt :: "nat \<Rightarrow> f64 \<Rightarrow> string" where
  "f64_fmt k NaN = ''NaN''"
| "f64_fmt k Inf = ''inf''"
| "f64_fmt k NegInf = ''-inf''"
| "f64_fmt k (Fin r) = (if r < 0 then ''-'' else []) @ show_fixed k \<bar>r\<bar>"

text \<open>\<open>{:+.k}\<close>.\<close>

definition f64_fmt_sign :: "nat \<Rightarrow> f64 \<Rightarrow> string" where
  "f64_fmt_sign k v = (if v = NaN \<or> f64_negative v then f64_fmt k v else ''+'' @ f64_fmt k v)"

section \<open>Exactness and signs\<close>

lemma pow2_powi: "pow2 e = 2 powi e"
  by (auto simp: pow2_def power_int_def field_simps)

lemma pow2_simps [simp]: "0 < pow2 e" "pow2 0 = 1"
  by (simp_all add: pow2_def)

lemma pow2_add: "pow2 (a + b) = pow2 a * pow2 b"
  by (simp add: pow2_powi power_int_add)

lemma pow2_nonneg [simp]: "0 \<le> pow2 e"
  using pow2_simps(1) [of e] by linarith

lemma pow2_mono: "a < b \<Longrightarrow> pow2 a < pow2 b"
  by (simp add: pow2_powi power_int_strict_increasing)

lemma pow2_less_iff [simp]: "pow2 a < pow2 b \<longleftrightarrow> a < b"
  by (metis pow2_mono linorder_neqE order_less_asym)

lemma pow2_le_iff [simp]: "pow2 a \<le> pow2 b \<longleftrightarrow> a \<le> b"
  by (meson pow2_less_iff linorder_not_less)

lemma bitlen_bounds:
  "0 < n \<Longrightarrow> 0 < bitlen n \<and> pow2 (bitlen n - 1) \<le> of_int n \<and> of_int n < pow2 (bitlen n)"
proof (induction n rule: bitlen.induct)
  case (1 n)
  show ?case
  proof (cases "n = 1")
    case True
    then show ?thesis by (simp add: bitlen.simps pow2_def)
  next
    case False
    with 1 have IH: "0 < bitlen (n div 2)" "pow2 (bitlen (n div 2) - 1) \<le> of_int (n div 2)"
        "of_int (n div 2) < pow2 (bitlen (n div 2))" by auto
    obtain k where k: "bitlen (n div 2) = int (Suc k)"
      using IH(1) by (metis Suc_pred int_nat_eq less_le zero_less_nat_eq of_nat_Suc nat_0_le)
    from IH k have "(of_int (2 ^ k) :: rat) \<le> of_int (n div 2)" "(of_int (n div 2) :: rat) < of_int (2 ^ Suc k)"
      by (auto simp: pow2_def nat_add_distrib)
    then have "2 ^ k \<le> n div 2" "n div 2 < 2 ^ Suc k" by (simp_all only: of_int_le_iff of_int_less_iff)
    then have "2 ^ Suc k \<le> n" "n < 2 ^ Suc (Suc k)" by auto
    then have "(of_int (2 ^ Suc k) :: rat) \<le> of_int n" "(of_int n :: rat) < of_int (2 ^ Suc (Suc k))"
      by (simp_all only: of_int_le_iff of_int_less_iff)
    moreover have "bitlen n = int (Suc (Suc k))" using 1(2) k by (simp add: bitlen.simps [of n])
    ultimately show ?thesis by (simp add: pow2_def nat_add_distrib)
  qed
qed

lemma ilog2_bounds:
  assumes "0 < x"
  shows "pow2 (ilog2 x) \<le> x" and "x < pow2 (ilog2 x + 1)"
proof -
  obtain n d where q: "quotient_of x = (n, d)" by (cases "quotient_of x")
  then have x: "x = of_int n / of_int d" and d: "0 < d"
    by (auto intro: quotient_of_div quotient_of_denom_pos)
  with assms have n: "0 < n" by (simp add: zero_less_divide_iff)
  let ?a = "bitlen n" and ?b = "bitlen d"
  have nb: "pow2 (?a - 1) \<le> of_int n" "of_int n < pow2 ?a"
    and db: "pow2 (?b - 1) \<le> of_int d" "of_int d < pow2 ?b"
    using bitlen_bounds [OF n] bitlen_bounds [OF d] by auto
  have "x * of_int d = of_int n" using x d by simp
  have "pow2 (?a - ?b - 1) * of_int d \<le> pow2 (?a - ?b - 1) * pow2 ?b"
    using db by (intro mult_left_mono) auto
  also have "\<dots> = pow2 (?a - 1)" by (simp flip: pow2_add)
  also have "\<dots> \<le> x * of_int d" using nb \<open>x * of_int d = of_int n\<close> by simp
  finally have lo: "pow2 (?a - ?b - 1) \<le> x" using d by simp
  have "x * of_int d < pow2 ?a" using nb \<open>x * of_int d = of_int n\<close> by simp
  also have "\<dots> = pow2 (?a - ?b + 1) * pow2 (?b - 1)" by (simp flip: pow2_add)
  also have "\<dots> \<le> pow2 (?a - ?b + 1) * of_int d" using db by (intro mult_left_mono) auto
  finally have hi: "x < pow2 (?a - ?b + 1)" using d by simp
  show "pow2 (ilog2 x) \<le> x" and "x < pow2 (ilog2 x + 1)"
    using lo hi by (auto simp: ilog2_def q Let_def)
qed

lemma round_half_even_of_int [simp]: "round_half_even (of_int i) = i"
  by (simp add: round_half_even_def)

lemma round_half_even_ge: "floor x \<le> round_half_even x"
  by (simp add: round_half_even_def Let_def)

lemma round_half_even_le: "of_int (round_half_even x) \<le> x + 1"
proof -
  have "round_half_even x = \<lfloor>x\<rfloor> \<or> round_half_even x = \<lfloor>x\<rfloor> + 1" by (simp add: round_half_even_def Let_def)
  then have "of_int (round_half_even x) \<le> (of_int \<lfloor>x\<rfloor> + 1 :: rat)" by auto
  then show ?thesis using of_int_floor_le [of x] by linarith
qed

lemma round_half_even_neg: "round_half_even (- x) = - round_half_even x"
proof (cases "x = of_int \<lfloor>x\<rfloor>")
  case True
  then show ?thesis by (metis round_half_even_of_int of_int_minus)
next
  case False
  then have "\<lfloor>- x\<rfloor> = - \<lfloor>x\<rfloor> - 1" by linarith
  then show ?thesis by (auto simp: round_half_even_def Let_def)
qed

lemma f64_round_neg: "f64_round (- x) = f64_neg (f64_round x)"
proof -
  have "\<And>r. pow2 1024 \<le> r \<Longrightarrow> \<not> pow2 1024 \<le> - r"
    using pow2_simps(1) [of 1024] by linarith
  moreover have "\<And>r. r \<le> - pow2 1024 \<longleftrightarrow> pow2 1024 \<le> - r" by linarith
  ultimately show ?thesis
    by (auto simp: f64_round_def Let_def round_half_even_neg)
qed

text \<open>In the normal range a positive value stays within its binade.\<close>

lemma f64_round_pos:
  assumes "pow2 (- 1022) \<le> x"
  shows "f64_round x = Inf \<or> (\<exists>r. f64_round x = Fin r \<and> x / 2 < r)"
proof -
  have x: "0 < x" using assms pow2_simps(1) [of "- 1022"] by linarith
  let ?e = "ilog2 x" let ?u = "pow2 (?e - 52)"
  have "pow2 (- 1022) < pow2 (?e + 1)" using ilog2_bounds [OF x] assms by linarith
  then have m: "max (?e - 52) (- 1074) = ?e - 52" by simp
  have "pow2 52 * ?u = pow2 ?e" by (simp flip: pow2_add)
  then have "pow2 52 \<le> x / ?u" using ilog2_bounds(1) [OF x] by (simp add: le_divide_eq)
  then have "2 ^ 52 \<le> \<lfloor>x / ?u\<rfloor>" by (simp add: pow2_def le_floor_iff)
  then have "2 ^ 52 \<le> round_half_even (x / ?u)" using round_half_even_ge [of "x / ?u"] by linarith
  then have "(of_int (2 ^ 52) :: rat) \<le> of_int (round_half_even (x / ?u))" by (simp only: of_int_le_iff)
  then have "pow2 52 * ?u \<le> of_int (round_half_even (x / ?u)) * ?u"
    by (intro mult_right_mono) (auto simp: pow2_def)
  moreover have "x / 2 < pow2 52 * ?u"
    using ilog2_bounds(2) [OF x] \<open>pow2 52 * ?u = pow2 ?e\<close> by (simp add: pow2_add pow2_def [of 1])
  ultimately have "x / 2 < of_int (round_half_even (x / ?u)) * ?u" by linarith
  moreover from this have "\<not> of_int (round_half_even (x / ?u)) * ?u \<le> - pow2 1024"
    using x pow2_simps(1) [of 1024] by linarith
  ultimately show ?thesis using x m by (auto simp: f64_round_def Let_def)
qed

lemma f64_round_of_int:
  assumes "\<bar>i\<bar> < 2 ^ 53"
  shows "f64_round (of_int i) = Fin (of_int i)"
proof (cases "i = 0")
  case False
  let ?x = "of_int \<bar>i\<bar> :: rat"
  have x: "1 \<le> ?x" "?x < pow2 53" using False assms
    by (simp_all add: pow2_def flip: of_int_abs)
  have "0 < ?x" using x by linarith
  have "pow2 (ilog2 ?x) < pow2 53"
    by (rule order_le_less_trans [OF ilog2_bounds(1) [OF \<open>0 < ?x\<close>] x(2)])
  then have "ilog2 ?x < 53" by (simp only: pow2_less_iff)
  moreover have "pow2 0 < pow2 (ilog2 ?x + 1)"
    using order_le_less_trans [OF x(1) ilog2_bounds(2) [OF \<open>0 < ?x\<close>]] by simp
  ultimately obtain k where k: "ilog2 ?x - 52 = - int k" "k \<le> 52"
    using that [of "nat (52 - ilog2 ?x)"] by (simp only: pow2_less_iff)
  then have "(of_int i :: rat) / pow2 (- int k) = of_int (i * 2 ^ k)" by (simp add: pow2_def)
  then have "of_int (round_half_even (of_int i / pow2 (- int k))) * pow2 (- int k) = (of_int i :: rat)"
    by (simp only: round_half_even_of_int) (simp add: pow2_def)
  moreover have "\<bar>of_int i :: rat\<bar> < pow2 1024"
    using x(2) pow2_less_iff [of 53 1024] by (simp del: pow2_less_iff)
  ultimately show ?thesis using False k by (auto simp: f64_round_def Let_def)
qed (simp add: f64_round_def)

lemma f64_of_u64_exact:
  assumes "unat n < 2 ^ 53"
  shows "f64_of_u64 n = Fin (of_nat (unat n))"
proof -
  have "\<bar>int (unat n)\<bar> < 2 ^ 53" using assms by (metis abs_of_nat of_nat_less_iff of_nat_numeral of_nat_power)
  from f64_round_of_int [OF this] show ?thesis by (simp only: f64_of_u64_def of_int_of_nat_eq)
qed

lemma round_half_even_error: "\<bar>of_int (round_half_even x) - x\<bar> \<le> 1 / 2"
proof -
  define d where "d = x - of_int \<lfloor>x\<rfloor>"
  have d: "0 \<le> d" "d < 1" "x = of_int \<lfloor>x\<rfloor> + d" unfolding d_def by linarith+
  consider "d < 1/2" "round_half_even x = \<lfloor>x\<rfloor>" | "1/2 < d" "round_half_even x = \<lfloor>x\<rfloor> + 1"
    | "d = 1/2" "round_half_even x = \<lfloor>x\<rfloor> \<or> round_half_even x = \<lfloor>x\<rfloor> + 1"
    unfolding round_half_even_def Let_def d_def by (cases "x - of_int \<lfloor>x\<rfloor> < 1/2"; cases "1/2 < x - of_int \<lfloor>x\<rfloor>") auto
  then show ?thesis
    using d by cases auto
qed

text \<open>In the normal range the relative error is at most half a unit in the last place.\<close>

lemma f64_round_error:
  assumes "pow2 (- 1022) \<le> x" and "x < pow2 1023"
  obtains r where "f64_round x = Fin r" and "\<bar>r - x\<bar> \<le> x * pow2 (- 53)" and "0 < r"
proof -
  have x: "0 < x" using assms(1) pow2_simps(1) [of "- 1022"] by linarith
  let ?e = "ilog2 x" let ?u = "pow2 (?e - 52)" let ?r = "of_int (round_half_even (x / ?u)) * ?u"
  have "pow2 (- 1022) < pow2 (?e + 1)" using ilog2_bounds [OF x] assms(1) by linarith
  then have m: "max (?e - 52) (- 1074) = ?e - 52" by simp
  have u: "0 < ?u" by simp
  then have "?u \<noteq> 0" by linarith
  then have "?r - x = (of_int (round_half_even (x / ?u)) - x / ?u) * ?u" by (simp add: left_diff_distrib)
  then have "\<bar>?r - x\<bar> = \<bar>of_int (round_half_even (x / ?u)) - x / ?u\<bar> * ?u" by (simp add: abs_mult)
  also have "\<dots> \<le> 1 / 2 * ?u" using round_half_even_error [of "x / ?u"] u by (intro mult_right_mono) auto
  also have "\<dots> = pow2 ?e * pow2 (- 53)"
    using pow2_add [of 1 "?e - 53"] pow2_add [of ?e "- 53"] by (simp add: pow2_def [of 1])
  also have "\<dots> \<le> x * pow2 (- 53)" using ilog2_bounds(1) [OF x] by (intro mult_right_mono) auto
  finally have err: "\<bar>?r - x\<bar> \<le> x * pow2 (- 53)" .
  have "pow2 (- 53) \<le> (1 / 2 :: rat)" by (simp add: pow2_def)
  with x have "x * pow2 (- 53) \<le> x * (1 / 2)" by (intro mult_left_mono) auto
  with err have r: "x / 2 \<le> ?r" "?r \<le> 3 / 2 * x" by linarith+
  have "pow2 1024 = 2 * pow2 1023" using pow2_add [of 1 1023] by (simp add: pow2_def [of 1])
  with r assms(2) x have "0 < ?r" "\<not> pow2 1024 \<le> ?r" "\<not> ?r \<le> - pow2 1024" using pow2_simps(1) [of 1023] by linarith+
  with err x m that show thesis by (auto simp: f64_round_def Let_def)
qed

end
