(* ===== verification/Bench_Runner.thy ===== *)
theory Bench_Runner
  imports F64
begin

text \<open>
  The measuring core of \<open>crates/benchkit\<close>: the random generator (\<open>lcg.rs\<close>), iteration counts
  (\<open>iters.rs\<close>), the per-run counters (\<open>stats.rs\<close>), the two measuring loops (\<open>runner.rs\<close>) and the
  allocation gate (\<open>alloc.rs\<close>), with the clock and histogram types of \<open>crates/telemetry\<close> they use.

  The outside is the record \<open>platform\<close>: the time-stamp counter, \<open>getrusage\<close>, dhat's statistics and
  the \<open>hdrhistogram\<close> crate, over an abstract state \<open>'w\<close> of the machine that every call may change.
  The closures a caller passes are functions of their own state and of the machine.
\<close>

unbundle bit_operations_syntax

section \<open>lcg.rs\<close>

type_synonym Lcg = u64

definition Lcg_new :: "u64 \<Rightarrow> Lcg" where
  "Lcg_new seed = seed"

definition next_u64 :: "Lcg \<Rightarrow> u64 \<times> Lcg" where
  "next_u64 g = (let g' = g * 6364136223846793005 + 1442695040888963407 in (g', g'))"

definition below :: "u64 \<Rightarrow> Lcg \<Rightarrow> u64 \<times> Lcg" where
  "below n g = (if n = 0 then (0, g) else let (x, g') = next_u64 g in (drop_bit 1 x mod n, g'))"

definition slice_swap :: "nat \<Rightarrow> nat \<Rightarrow> 'a list \<Rightarrow> 'a list res" where
  "slice_swap i j xs =
     (if i < length xs \<and> j < length xs then Inr (xs[i := xs ! j, j := xs ! i])
      else Inl (Panic ''index out of bounds''))"

text \<open>The loop \<open>for i in (1..n).rev()\<close>: \<open>i\<close> counts down to 1.\<close>

fun shuffle_from :: "nat \<Rightarrow> 'a list \<Rightarrow> Lcg \<Rightarrow> ('a list \<times> Lcg) res" where
  "shuffle_from 0 xs g = Inr (xs, g)"
| "shuffle_from (Suc i) xs g =
     (let (x, g') = next_u64 g; j = unat (drop_bit 33 x mod of_nat (Suc i + 1))
      in rbind (slice_swap (Suc i) j xs) (\<lambda>xs. shuffle_from i xs g'))"

definition shuffle :: "'a list \<Rightarrow> Lcg \<Rightarrow> ('a list \<times> Lcg) res" where
  "shuffle xs g = shuffle_from (length xs - 1) xs g"

section \<open>iters.rs\<close>

record Iters =
  warmup :: usize
  measure :: usize

definition Iters_STANDARD :: Iters where
  "Iters_STANDARD = \<lparr>warmup = 100000, measure = 1000000\<rparr>"

definition Iters_LIGHT :: Iters where
  "Iters_LIGHT = \<lparr>warmup = 50000, measure = 500000\<rparr>"

definition Iters_new :: "usize \<Rightarrow> usize \<Rightarrow> Iters" where
  "Iters_new w m = \<lparr>warmup = w, measure = m\<rparr>"

definition Iters_total :: "profile \<Rightarrow> Iters \<Rightarrow> usize res" where
  "Iters_total p it = plus_u p (warmup it) (measure it)"

section \<open>stats.rs\<close>

datatype ArrivalModel = BackToBack | OpenLoop u64

record RunStats =
  ctx_voluntary :: u64
  ctx_involuntary :: u64
  minor_faults :: u64
  major_faults :: u64
  migrations :: "u64 option"

definition RunStats_default :: RunStats where
  "RunStats_default =
     \<lparr>ctx_voluntary = 0, ctx_involuntary = 0, minor_faults = 0, major_faults = 0, migrations = None\<rparr>"

definition delta_from :: "RunStats \<Rightarrow> RunStats \<Rightarrow> RunStats" where
  "delta_from self earlier =
     \<lparr>ctx_voluntary = saturating_sub (ctx_voluntary self) (ctx_voluntary earlier),
      ctx_involuntary = saturating_sub (ctx_involuntary self) (ctx_involuntary earlier),
      minor_faults = saturating_sub (minor_faults self) (minor_faults earlier),
      major_faults = saturating_sub (major_faults self) (major_faults earlier),
      migrations = (case (migrations self, migrations earlier) of
          (Some a, Some b) \<Rightarrow> Some (saturating_sub a b)
        | _ \<Rightarrow> None)\<rparr>"

section \<open>The platform\<close>

text \<open>\<open>getrusage\<close> gives \<open>None\<close> when it fails. A percentile is given in hundredths of a percent.\<close>

record rusage =
  ru_nvcsw :: u64
  ru_nivcsw :: u64
  ru_minflt :: u64
  ru_majflt :: u64

record HeapStats =
  total_blocks :: u64
  total_bytes :: u64

record ('w, 'h) platform =
  pf_rdtscp :: "'w \<Rightarrow> (u64 \<times> u32) \<times> 'w"
  pf_getrusage :: "'w \<Rightarrow> rusage option \<times> 'w"
  pf_heap_stats :: "'w \<Rightarrow> HeapStats"
  hdr_new :: "'h option"
  hdr_record :: "u64 \<Rightarrow> 'h \<Rightarrow> 'h option"
  hdr_record_correct :: "u64 \<Rightarrow> u64 \<Rightarrow> 'h \<Rightarrow> 'h option"
  hdr_add :: "'h \<Rightarrow> 'h \<Rightarrow> 'h option"
  hdr_len :: "'h \<Rightarrow> u64"
  hdr_min :: "'h \<Rightarrow> u64"
  hdr_max :: "'h \<Rightarrow> u64"
  hdr_value_at_percentile :: "nat \<Rightarrow> 'h \<Rightarrow> u64"
  hdr_mean :: "'h \<Rightarrow> f64"
  hdr_iter_quantiles :: "u32 \<Rightarrow> 'h \<Rightarrow> (u64 \<times> u64 \<times> f64) list"

definition read_rusage_thread :: "profile \<Rightarrow> ('w, 'h) platform \<Rightarrow> 'w \<Rightarrow> (RunStats \<times> 'w) res" where
  "read_rusage_thread p pf w =
     (let (rc, w') = pf_getrusage pf w in
      rbind (debug_assert p (rc \<noteq> None) ''getrusage(RUSAGE_THREAD) failed'') (\<lambda>_.
        let u = unwrap_or rc \<lparr>ru_nvcsw = 0, ru_nivcsw = 0, ru_minflt = 0, ru_majflt = 0\<rparr>
        in Inr (\<lparr>ctx_voluntary = ru_nvcsw u, ctx_involuntary = ru_nivcsw u,
                 minor_faults = ru_minflt u, major_faults = ru_majflt u, migrations = None\<rparr>, w')))"

section \<open>clock.rs, rdtsc.rs\<close>

definition rdtscp :: "('w, 'h) platform \<Rightarrow> 'w \<Rightarrow> u64 \<times> 'w" where
  "rdtscp pf w = (let ((t, aux), w') = pf_rdtscp pf w in (t, w'))"

definition CoreId_from_aux :: "u32 \<Rightarrow> u8" where
  "CoreId_from_aux aux = ucast (aux AND 0xFF)"

definition rdtscp_with_aux :: "('w, 'h) platform \<Rightarrow> 'w \<Rightarrow> (u64 \<times> u8) \<times> 'w" where
  "rdtscp_with_aux pf w = (let ((t, aux), w') = pf_rdtscp pf w in ((t, CoreId_from_aux aux), w'))"

text \<open>The fence orders later loads; its value is the counter's.\<close>

definition rdtscp_then_lfence :: "('w, 'h) platform \<Rightarrow> 'w \<Rightarrow> u64 \<times> 'w" where
  "rdtscp_then_lfence pf w = rdtscp pf w"

definition ticks_since :: "u64 \<Rightarrow> u64 \<Rightarrow> u64" where
  "ticks_since self earlier = saturating_sub self earlier"

definition to_nanos :: "f64 \<Rightarrow> u64 \<Rightarrow> u64" where
  "to_nanos ticks_per_nanosecond t = f64_to_u64 (f64_div (f64_of_u64 t) ticks_per_nanosecond)"

section \<open>histogram.rs: recording\<close>

record 'h Histogram =
  inner :: 'h
  label :: string

definition Histogram_new :: "('w, 'h) platform \<Rightarrow> string \<Rightarrow> 'h Histogram res" where
  "Histogram_new pf l =
     rbind (expect ''failed to create histogram'' (hdr_new pf)) (\<lambda>i. Inr \<lparr>inner = i, label = l\<rparr>)"

definition Histogram_record :: "('w, 'h) platform \<Rightarrow> u64 \<Rightarrow> 'h Histogram \<Rightarrow> 'h Histogram res" where
  "Histogram_record pf v h =
     rbind (expect ''Nanos cannot exceed histogram bounds'' (hdr_record pf v (inner h)))
       (\<lambda>i. Inr (h\<lparr>inner := i\<rparr>))"

definition Histogram_record_correct :: "('w, 'h) platform \<Rightarrow> u64 \<Rightarrow> u64 \<Rightarrow> 'h Histogram \<Rightarrow> 'h Histogram res" where
  "Histogram_record_correct pf v interval h =
     rbind (expect ''Nanos cannot exceed histogram bounds'' (hdr_record_correct pf v interval (inner h)))
       (\<lambda>i. Inr (h\<lparr>inner := i\<rparr>))"

definition Histogram_merge :: "('w, 'h) platform \<Rightarrow> 'h Histogram \<Rightarrow> 'h Histogram \<Rightarrow> 'h Histogram res" where
  "Histogram_merge pf h other =
     rbind (expect ''failed to add histogram'' (hdr_add pf (inner h) (inner other))) (\<lambda>i. Inr (h\<lparr>inner := i\<rparr>))"

record 'h Sample =
  hist :: "'h Histogram"
  arrival_model :: ArrivalModel
  stats :: RunStats
  sample_overloaded :: bool

section \<open>runner.rs\<close>

fun fold_res :: "('i \<Rightarrow> 'a \<Rightarrow> 'a res) \<Rightarrow> 'i list \<Rightarrow> 'a \<Rightarrow> 'a res" where
  "fold_res f [] a = Inr a"
| "fold_res f (i # is) a = rbind (f i a) (fold_res f is)"

text \<open>The range \<open>0..n\<close>.\<close>

definition usize_upto :: "usize \<Rightarrow> usize list" where
  "usize_upto n = map of_nat [0..<unat n]"

text \<open>One iteration of \<open>Runner::bench\<close>; \<open>tpn\<close> is the runner's calibration.\<close>

definition bench_iter ::
    "profile \<Rightarrow> ('w, 'h) platform \<Rightarrow> f64 \<Rightarrow> Iters \<Rightarrow> ('s \<Rightarrow> usize \<Rightarrow> 'w \<Rightarrow> 'i \<times> 's \<times> 'w) \<Rightarrow>
     ('s \<Rightarrow> 'i \<Rightarrow> 'w \<Rightarrow> 's \<times> 'w) \<Rightarrow> usize \<Rightarrow>
     'h Histogram \<times> RunStats \<times> 's \<times> 'w \<Rightarrow> ('h Histogram \<times> RunStats \<times> 's \<times> 'w) res" where
  "bench_iter p pf tpn it prepare op i = (\<lambda>(h, rusage_before, s, w).
     let (input, s, w) = prepare s i w in
     rbind (if i = warmup it then read_rusage_thread p pf w else Inr (rusage_before, w)) (\<lambda>(rusage_before, w).
       let (t0, w) = rdtscp_then_lfence pf w;
           (s, w) = op s input w;
           (t1, w) = rdtscp pf w
       in rbind (if warmup it \<le> i then Histogram_record pf (to_nanos tpn (ticks_since t1 t0)) h else Inr h)
            (\<lambda>h. Inr (h, rusage_before, s, w))))"

definition bench ::
    "profile \<Rightarrow> ('w, 'h) platform \<Rightarrow> f64 \<Rightarrow> string \<Rightarrow> Iters \<Rightarrow> 's \<Rightarrow> ('s \<Rightarrow> usize \<Rightarrow> 'w \<Rightarrow> 'i \<times> 's \<times> 'w) \<Rightarrow>
     ('s \<Rightarrow> 'i \<Rightarrow> 'w \<Rightarrow> 's \<times> 'w) \<Rightarrow> 'w \<Rightarrow> ('h Sample \<times> 's \<times> 'w) res" where
  "bench p pf tpn l it s prepare op w =
     rbind (Histogram_new pf l) (\<lambda>h.
     rbind (Iters_total p it) (\<lambda>n.
     rbind (fold_res (bench_iter p pf tpn it prepare op) (usize_upto n) (h, RunStats_default, s, w))
       (\<lambda>(h, rusage_before, s, w).
     rbind (read_rusage_thread p pf w) (\<lambda>(after, w).
       Inr (\<lparr>hist = h, arrival_model = BackToBack, stats = delta_from after rusage_before,
             sample_overloaded = False\<rparr>, s, w)))))"

definition bench_static ::
    "profile \<Rightarrow> ('w, 'h) platform \<Rightarrow> f64 \<Rightarrow> string \<Rightarrow> Iters \<Rightarrow> 's \<Rightarrow> ('s \<Rightarrow> 'w \<Rightarrow> 's \<times> 'w) \<Rightarrow> 'w \<Rightarrow>
     ('h Sample \<times> 's \<times> 'w) res" where
  "bench_static p pf tpn l it s op w =
     bench p pf tpn l it s (\<lambda>s i w. ((), s, w)) (\<lambda>s _ w. op s w) w"

definition saturating_mul :: "u64 \<Rightarrow> u64 \<Rightarrow> u64" where
  "saturating_mul a b = (if 2 ^ 64 \<le> unat a * unat b then - 1 else a * b)"

text \<open>The spin loop: not returning is \<open>None\<close>.\<close>

partial_function (option) spin_until :: "('w, 'h) platform \<Rightarrow> u64 \<Rightarrow> 'w \<Rightarrow> 'w option" where
  "spin_until pf deadline w =
     (let (t, w') = rdtscp pf w in if t < deadline then spin_until pf deadline w' else Some w')"

text \<open>Waiting for the deadline of one operation, with the count of late operations.\<close>

definition await_deadline :: "profile \<Rightarrow> ('w, 'h) platform \<Rightarrow> u64 \<Rightarrow> u64 \<Rightarrow> 'w \<Rightarrow> (u64 \<times> 'w) res option" where
  "await_deadline p pf deadline late w =
     (let (now, w) = rdtscp pf w in
      if now < deadline then map_option (\<lambda>w. Inr (late, w)) (spin_until pf deadline w)
      else Some (rbind (plus_u p late 1) (\<lambda>late. Inr (late, w))))"

text \<open>Sequencing in the presence of both divergence and panics.\<close>

definition obind :: "'a res option \<Rightarrow> ('a \<Rightarrow> 'b res option) \<Rightarrow> 'b res option" where
  "obind m f = (case m of None \<Rightarrow> None | Some (Inl e) \<Rightarrow> Some (Inl e) | Some (Inr x) \<Rightarrow> f x)"

fun fold_ores :: "('i \<Rightarrow> 'a \<Rightarrow> 'a res option) \<Rightarrow> 'i list \<Rightarrow> 'a \<Rightarrow> 'a res option" where
  "fold_ores f [] a = Some (Inr a)"
| "fold_ores f (i # is) a = obind (f i a) (fold_ores f is)"

definition open_loop_iter ::
    "profile \<Rightarrow> ('w, 'h) platform \<Rightarrow> f64 \<Rightarrow> Iters \<Rightarrow> u64 \<Rightarrow> u64 \<Rightarrow> u64 \<Rightarrow> ('s \<Rightarrow> usize \<Rightarrow> 'w \<Rightarrow> 'i \<times> 's \<times> 'w) \<Rightarrow>
     ('s \<Rightarrow> 'i \<Rightarrow> 'w \<Rightarrow> 's \<times> 'w) \<Rightarrow> usize \<Rightarrow>
     'h Histogram \<times> u64 \<times> 's \<times> 'w \<Rightarrow> ('h Histogram \<times> u64 \<times> 's \<times> 'w) res option" where
  "open_loop_iter p pf tpn it interval_ns interval_ticks schedule_start prepare op k = (\<lambda>(h, late, s, w).
     obind (Some (plus_u p (warmup it) k)) (\<lambda>i.
     let (input, s, w) = prepare s i w in
     obind (Some (plus_u p schedule_start (saturating_mul k interval_ticks))) (\<lambda>deadline.
     obind (await_deadline p pf deadline late w) (\<lambda>(late, w).
       let (t0, w) = rdtscp_then_lfence pf w;
           (s, w) = op s input w;
           (t1, w) = rdtscp pf w
       in Some (rbind (Histogram_record_correct pf (to_nanos tpn (ticks_since t1 t0)) interval_ns h)
            (\<lambda>h. Inr (h, late, s, w)))))))"

definition warm_up :: "('s \<Rightarrow> usize \<Rightarrow> 'w \<Rightarrow> 'i \<times> 's \<times> 'w) \<Rightarrow> ('s \<Rightarrow> 'i \<Rightarrow> 'w \<Rightarrow> 's \<times> 'w) \<Rightarrow> usize \<Rightarrow> 's \<times> 'w \<Rightarrow> 's \<times> 'w" where
  "warm_up prepare op n sw =
     fold (\<lambda>i (s, w). let (input, s, w) = prepare s i w in op s input w) (usize_upto n) sw"

definition OVERLOAD_PCT :: u64 where
  "OVERLOAD_PCT = 5"

definition is_overloaded :: "profile \<Rightarrow> u64 \<Rightarrow> u64 \<Rightarrow> bool res" where
  "is_overloaded p late_ops n =
     rbind (times_u p late_ops 100) (\<lambda>a. rbind (times_u p n OVERLOAD_PCT) (\<lambda>b. Inr (b \<le> a)))"

definition bench_open_loop ::
    "profile \<Rightarrow> ('w, 'h) platform \<Rightarrow> f64 \<Rightarrow> string \<Rightarrow> Iters \<Rightarrow> u64 \<Rightarrow> 's \<Rightarrow> ('s \<Rightarrow> usize \<Rightarrow> 'w \<Rightarrow> 'i \<times> 's \<times> 'w) \<Rightarrow>
     ('s \<Rightarrow> 'i \<Rightarrow> 'w \<Rightarrow> 's \<times> 'w) \<Rightarrow> 'w \<Rightarrow> ('h Sample \<times> 's \<times> 'w) res option" where
  "bench_open_loop p pf tpn l it interval_ns s prepare op w =
     obind (Some (Histogram_new pf l)) (\<lambda>h.
     let interval_ticks = f64_to_u64 (f64_mul (f64_of_u64 interval_ns) tpn);
         (s, w) = warm_up prepare op (warmup it) (s, w) in
     obind (Some (read_rusage_thread p pf w)) (\<lambda>(rusage_before, w).
     let (schedule_start, w) = rdtscp_then_lfence pf w in
     obind (fold_ores (open_loop_iter p pf tpn it interval_ns interval_ticks schedule_start prepare op)
              (usize_upto (measure it)) (h, 0, s, w)) (\<lambda>(h, late_ops, s, w).
     obind (Some (read_rusage_thread p pf w)) (\<lambda>(after, w).
     obind (Some (is_overloaded p late_ops (measure it))) (\<lambda>ovl.
       Some (Inr (\<lparr>hist = h, arrival_model = OpenLoop interval_ns,
                   stats = delta_from after rusage_before, sample_overloaded = ovl\<rparr>, s, w)))))))"

section \<open>alloc.rs\<close>

record AllocDelta =
  blocks :: u64
  bytes :: u64

definition alloc_delta ::
    "profile \<Rightarrow> ('w, 'h) platform \<Rightarrow> ('s \<Rightarrow> 'w \<Rightarrow> 's \<times> 'w) \<Rightarrow> 's \<Rightarrow> 'w \<Rightarrow> (AllocDelta \<times> 's \<times> 'w) res" where
  "alloc_delta p pf body s w =
     (let before = pf_heap_stats pf w;
          (s, w) = body s w;
          after = pf_heap_stats pf w in
      rbind (minus_u p (total_blocks after) (total_blocks before)) (\<lambda>bl.
      rbind (minus_u p (total_bytes after) (total_bytes before)) (\<lambda>by.
        Inr (\<lparr>blocks = bl, bytes = by\<rparr>, s, w))))"

definition measure_alloc ::
    "profile \<Rightarrow> ('w, 'h) platform \<Rightarrow> 's \<Rightarrow> usize \<Rightarrow> usize \<Rightarrow> ('s \<Rightarrow> 'w \<Rightarrow> 's \<times> 'w) \<Rightarrow> 'w \<Rightarrow>
     (AllocDelta \<times> 's \<times> 'w) res" where
  "measure_alloc p pf s wu m step w =
     (let (s, w) = ((\<lambda>(s, w). step s w) ^^ unat wu) (s, w)
      in alloc_delta p pf (\<lambda>s w. ((\<lambda>(s, w). step s w) ^^ unat m) (s, w)) s w)"

definition assert_zero_alloc ::
    "profile \<Rightarrow> ('w, 'h) platform \<Rightarrow> string \<Rightarrow> 's \<Rightarrow> usize \<Rightarrow> usize \<Rightarrow> ('s \<Rightarrow> 'w \<Rightarrow> 's \<times> 'w) \<Rightarrow> 'w \<Rightarrow>
     (AllocDelta \<times> 's \<times> 'w) res" where
  "assert_zero_alloc p pf l s wu m step w =
     rbind (measure_alloc p pf s wu m step w) (\<lambda>(delta, s, w).
     rbind (assert_that (blocks delta = 0)
              (l @ '': hot path allocated '' @ show_word (blocks delta) @ '' blocks ('' @ show_word (bytes delta)
               @ '' bytes) over '' @ show_word m @ '' steps; expected zero'')) (\<lambda>_.
       Inr (delta, s, w)))"

end
