(* ===== verification/Bench_Runner_Props.thy ===== *)
theory Bench_Runner_Props
  imports Bench_Runner "HOL-Library.Multiset"
begin

text \<open>
  Properties of the measuring core: the shuffle permutes, the back-to-back loop times nothing but the
  operation and records exactly the measured iterations, a short open-loop run is always flagged as
  overloaded, and the allocation gate is exact.
\<close>

section \<open>The generator\<close>

lemma mset_slice_swap:
  assumes "i < length xs" and "j < length xs"
  shows "mset (xs[i := xs ! j, j := xs ! i]) = mset xs"
  using assms mset_swap [of j xs i] by simp

lemma unat_mod_index: "unat (x mod of_nat (Suc i)) \<le> i" if "Suc i < 2 ^ 64" for x :: u64
proof -
  have "unat (of_nat (Suc i) :: u64) = Suc i" using that by (intro unat_of_nat_small) simp
  then show ?thesis using mod_less_divisor [of "Suc i" "unat x"]
    by (simp add: unat_mod_distrib del: of_nat_Suc)
qed

lemma shuffle_from_perm:
  "i < length xs \<Longrightarrow> length xs < 2 ^ 64 \<Longrightarrow> \<exists>ys g'. shuffle_from i xs g = Inr (ys, g') \<and> mset ys = mset xs"
proof (induction i arbitrary: xs g)
  case (Suc i)
  obtain x g' where n: "next_u64 g = (x, g')" by (cases "next_u64 g")
  let ?j = "unat (drop_bit 33 x mod of_nat (Suc i + 1))"
  have "?j \<le> Suc i" using unat_mod_index [of "Suc i" "drop_bit 33 x"] Suc.prems by simp
  then have j: "?j < length xs" using Suc.prems by simp
  let ?ys = "xs[Suc i := xs ! ?j, ?j := xs ! Suc i]"
  have sw: "slice_swap (Suc i) ?j xs = Inr ?ys" using j Suc.prems by (simp add: slice_swap_def)
  have "mset ?ys = mset xs" using mset_slice_swap [of "Suc i" xs ?j] j Suc.prems by simp
  moreover obtain zs g'' where "shuffle_from i ?ys g' = Inr (zs, g'')" "mset zs = mset ?ys"
    using Suc.IH [of ?ys g'] Suc.prems by auto
  ultimately show ?case using n sw by (simp add: Let_def)
qed simp

text \<open>On every slice, \<open>shuffle\<close> returns (no swap is out of bounds) a permutation of it, and
  \<open>below n\<close> returns a value below a non-zero bound and 0 for the bound 0, whatever the state of the
  generator. A slice has fewer than \<open>2^64\<close> elements.\<close>

theorem shuffle_permutes:
  assumes "length xs < 2 ^ 64"
  shows "(\<exists>ys g'. shuffle xs g = Inr (ys, g') \<and> mset ys = mset xs)
    \<and> (n \<noteq> 0 \<longrightarrow> fst (below n g) < n) \<and> below 0 g = (0, g)"
proof (intro conjI impI)
  show "\<exists>ys g'. shuffle xs g = Inr (ys, g') \<and> mset ys = mset xs"
    using shuffle_from_perm [of "length xs - 1" xs g] assms by (cases xs) (auto simp: shuffle_def)
  show "below 0 g = (0, g)" by (simp add: below_def)
  assume "n \<noteq> 0"
  then show "fst (below n g) < n"
    by (simp add: below_def word_less_nat_alt unat_mod_distrib unat_gt_0 split: prod.split)
qed

theorem shuffle_permutes_witness:
  "(\<exists>ys g'. shuffle [10, 20, 30 :: nat] (Lcg_new 7) = Inr (ys, g') \<and> mset ys = mset [10, 20, 30])
    \<and> (50 \<noteq> (0 :: u64) \<longrightarrow> fst (below 50 (Lcg_new 7)) < 50) \<and> below 0 (Lcg_new 7) = (0, Lcg_new 7)"
  by (rule shuffle_permutes) simp

section \<open>Tracing\<close>

text \<open>A platform that also writes down which calls were made, in their order.\<close>

datatype bench_event = EvPrepare usize | EvRusage | EvStamp | EvOp

definition traced :: "('w, 'h) platform \<Rightarrow> ('w \<times> bench_event list, 'h) platform" where
  "traced pf =
     \<lparr>pf_rdtscp = (\<lambda>(w, l). let (r, w') = pf_rdtscp pf w in (r, (w', l @ [EvStamp]))),
      pf_getrusage = (\<lambda>(w, l). let (r, w') = pf_getrusage pf w in (r, (w', l @ [EvRusage]))),
      pf_heap_stats = (\<lambda>(w, l). pf_heap_stats pf w),
      hdr_new = hdr_new pf, hdr_record = hdr_record pf, hdr_record_correct = hdr_record_correct pf,
      hdr_add = hdr_add pf, hdr_len = hdr_len pf, hdr_min = hdr_min pf, hdr_max = hdr_max pf,
      hdr_value_at_percentile = hdr_value_at_percentile pf, hdr_mean = hdr_mean pf,
      hdr_iter_quantiles = hdr_iter_quantiles pf\<rparr>"

definition traced_prepare ::
    "('s \<Rightarrow> usize \<Rightarrow> 'w \<Rightarrow> 'i \<times> 's \<times> 'w) \<Rightarrow> 's \<Rightarrow> usize \<Rightarrow> 'w \<times> bench_event list \<Rightarrow>
     'i \<times> 's \<times> 'w \<times> bench_event list" where
  "traced_prepare prepare s i = (\<lambda>(w, l). let (x, s, w) = prepare s i w in (x, s, (w, l @ [EvPrepare i])))"

definition traced_op ::
    "('s \<Rightarrow> 'i \<Rightarrow> 'w \<Rightarrow> 's \<times> 'w) \<Rightarrow> 's \<Rightarrow> 'i \<Rightarrow> 'w \<times> bench_event list \<Rightarrow> 's \<times> 'w \<times> bench_event list" where
  "traced_op op s x = (\<lambda>(w, l). let (s, w) = op s x w in (s, (w, l @ [EvOp])))"

text \<open>What one iteration is meant to do: prepare, read the counters once before the first measured
  operation, and nothing but the operation between the two time stamps.\<close>

definition iter_events :: "Iters \<Rightarrow> usize \<Rightarrow> bench_event list" where
  "iter_events it i =
     [EvPrepare i] @ (if i = warmup it then [EvRusage] else []) @ [EvStamp, EvOp, EvStamp]"

definition map_res :: "('a \<Rightarrow> 'b) \<Rightarrow> 'a res \<Rightarrow> 'b res" where
  "map_res f m = rbind m (\<lambda>x. Inr (f x))"

lemma map_res_simps [simp]: "map_res f (Inr x) = Inr (f x)" "map_res f (Inl e) = Inl e"
  by (simp_all add: map_res_def)

lemma Histogram_traced [simp]:
  "Histogram_record (traced pf) = Histogram_record pf" "Histogram_new (traced pf) = Histogram_new pf"
  by (simp_all add: fun_eq_iff Histogram_record_def Histogram_new_def traced_def)

lemma rdtscp_traced [simp]: "rdtscp (traced pf) (w, l) = (let (t, w') = rdtscp pf w in (t, (w', l @ [EvStamp])))"
  by (simp add: rdtscp_def traced_def split: prod.split)

lemma read_rusage_traced [simp]:
  "read_rusage_thread p (traced pf) (w, l) =
     map_res (\<lambda>(st, w'). (st, (w', l @ [EvRusage]))) (read_rusage_thread p pf w)"
  by (cases "pf_getrusage pf w"; cases "debug_assert p (fst (pf_getrusage pf w) \<noteq> None) ''getrusage(RUSAGE_THREAD) failed''")
    (simp_all add: read_rusage_thread_def traced_def Let_def)

lemma bench_iter_traced:
  "bench_iter p (traced pf) tpn it (traced_prepare prepare) (traced_op op) i (h, b, s, (w, l)) =
     map_res (\<lambda>(h, b, s, w). (h, b, s, (w, l @ iter_events it i))) (bench_iter p pf tpn it prepare op i (h, b, s, w))"
  by (cases "i = warmup it"; cases "read_rusage_thread p pf (snd (snd (prepare s i w)))")
    (auto simp: bench_iter_def traced_prepare_def traced_op_def rdtscp_then_lfence_def iter_events_def
      map_res_def rbind_assoc rbind_def Let_def split: prod.split sum.split)

lemma fold_bench_iter_traced:
  "fold_res (bench_iter p (traced pf) tpn it (traced_prepare prepare) (traced_op op)) is (h, b, s, (w, l)) =
     map_res (\<lambda>(h, b, s, w). (h, b, s, (w, l @ concat (map (iter_events it) is))))
       (fold_res (bench_iter p pf tpn it prepare op) is (h, b, s, w))"
proof (induction "is" arbitrary: h b s w l)
  case (Cons i "is")
  show ?case
  proof (cases "bench_iter p pf tpn it prepare op i (h, b, s, w)")
    case (Inr r)
    then show ?thesis by (cases r) (simp add: bench_iter_traced Cons.IH)
  qed (simp add: bench_iter_traced)
qed simp

lemma bench_traced:
  assumes "Iters_total p it = Inr n"
  shows "bench p (traced pf) tpn l it s (traced_prepare prepare) (traced_op op) (w, []) =
    map_res (\<lambda>(sample, s, w). (sample, s, (w, concat (map (iter_events it) (usize_upto n)) @ [EvRusage])))
      (bench p pf tpn l it s prepare op w)"
proof (cases "Histogram_new pf l")
  case (Inr h)
  show ?thesis
  proof (cases "fold_res (bench_iter p pf tpn it prepare op) (usize_upto n) (h, RunStats_default, s, w)")
    case (Inr r)
    obtain h' b' s' w' where "r = (h', b', s', w')" by (cases r)
    with Inr \<open>Histogram_new pf l = Inr h\<close> assms show ?thesis
      by (cases "read_rusage_thread p pf w'") (auto simp: bench_def fold_bench_iter_traced)
  qed (simp add: bench_def assms \<open>Histogram_new pf l = Inr h\<close> fold_bench_iter_traced)
qed (simp add: bench_def)

section \<open>The back-to-back loop\<close>

text \<open>What the loops rely on: the histogram, built with the maximum \<open>u64::MAX\<close>, accepts every value,
  and \<open>getrusage\<close> succeeds where a debug build asserts it.\<close>

definition hdr_accepts :: "('w, 'h) platform \<Rightarrow> bool" where
  "hdr_accepts pf \<longleftrightarrow>
     hdr_new pf \<noteq> None \<and> (\<forall>v h. hdr_record pf v h \<noteq> None) \<and> (\<forall>v i h. hdr_record_correct pf v i h \<noteq> None)"

definition rusage_ok :: "profile \<Rightarrow> ('w, 'h) platform \<Rightarrow> bool" where
  "rusage_ok p pf \<longleftrightarrow> (p = Debug \<longrightarrow> (\<forall>w. fst (pf_getrusage pf w) \<noteq> None))"

lemma read_rusage_ok:
  "rusage_ok p pf \<Longrightarrow> \<exists>st w'. read_rusage_thread p pf w = Inr (st, w')"
  by (cases p) (auto simp: read_rusage_thread_def rusage_ok_def Let_def split: prod.split dest: spec [of _ w])

lemma fold_res_append:
  "fold_res f (xs @ ys) a = rbind (fold_res f xs a) (fold_res f ys)"
proof (induction xs arbitrary: a)
  case (Cons x xs)
  then have "fold_res f (xs @ ys) = (\<lambda>b. rbind (fold_res f xs b) (fold_res f ys))" by blast
  then show ?case by (simp add: rbind_assoc)
qed simp

lemma bench_iter_ok:
  assumes "hdr_accepts pf" and "rusage_ok p pf"
  shows "\<exists>h' b' s' w' vs. bench_iter p pf tpn it prepare op i (h, b, s, w) = Inr (h', b', s', w')
    \<and> length vs = (if warmup it \<le> i then 1 else 0) \<and> fold_res (Histogram_record pf) vs h = Inr h'"
proof -
  obtain x s1 w1 where pr: "prepare s i w = (x, s1, w1)" by (cases "prepare s i w")
  obtain b2 w2 where ru: "(if i = warmup it then read_rusage_thread p pf w1 else Inr (b, w1)) = Inr (b2, w2)"
    using read_rusage_ok [OF assms(2), of w1] by fastforce
  obtain t0 w3 where t0: "rdtscp pf w2 = (t0, w3)" by (cases "rdtscp pf w2")
  obtain s4 w4 where op: "op s1 x w3 = (s4, w4)" by (cases "op s1 x w3")
  obtain t1 w5 where t1: "rdtscp pf w4 = (t1, w5)" by (cases "rdtscp pf w4")
  let ?v = "to_nanos tpn (ticks_since t1 t0)"
  obtain j where "hdr_record pf ?v (inner h) = Some j" using assms(1) unfolding hdr_accepts_def by blast
  then have rec: "Histogram_record pf ?v h = Inr (h\<lparr>inner := j\<rparr>)" by (simp add: Histogram_record_def)
  have "bench_iter p pf tpn it prepare op i (h, b, s, w) =
      Inr (if warmup it \<le> i then h\<lparr>inner := j\<rparr> else h, b2, s4, w5)"
    by (simp add: bench_iter_def pr ru rdtscp_then_lfence_def t0 op t1 rec)
  then show ?thesis using rec
    by (intro exI [of _ "if warmup it \<le> i then [?v] else []"] exI conjI) auto
qed

lemma fold_bench_iter_ok:
  assumes "hdr_accepts pf" and "rusage_ok p pf"
  shows "\<exists>h' b' s' w' vs. fold_res (bench_iter p pf tpn it prepare op) is (h, b, s, w) = Inr (h', b', s', w')
    \<and> length vs = length (filter (\<lambda>i. warmup it \<le> i) is) \<and> fold_res (Histogram_record pf) vs h = Inr h'"
proof (induction "is" arbitrary: h b s w)
  case Nil
  show ?case by (auto intro!: exI [of _ "[]"])
next
  case (Cons i "is")
  obtain h1 b1 s1 w1 vs1 where 1: "bench_iter p pf tpn it prepare op i (h, b, s, w) = Inr (h1, b1, s1, w1)"
      "length vs1 = (if warmup it \<le> i then 1 else 0)" "fold_res (Histogram_record pf) vs1 h = Inr h1"
    using bench_iter_ok [OF assms, of tpn it prepare op i h b s w] by blast
  obtain h2 b2 s2 w2 vs2 where 2:
      "fold_res (bench_iter p pf tpn it prepare op) is (h1, b1, s1, w1) = Inr (h2, b2, s2, w2)"
      "length vs2 = length (filter (\<lambda>i. warmup it \<le> i) is)" "fold_res (Histogram_record pf) vs2 h1 = Inr h2"
    using Cons.IH by blast
  show ?case using 1 2 by (auto intro!: exI [of _ "vs1 @ vs2"] simp: fold_res_append)
qed

lemma measured_indices:
  assumes "unat a + m < 2 ^ 64"
  shows "length (filter (\<lambda>i :: usize. a \<le> i) (map of_nat [0..<unat a + m])) = m"
proof -
  have "filter (\<lambda>k. a \<le> (of_nat k :: usize)) [0..<unat a + m] = filter (\<lambda>k. unat a \<le> k) [0..<unat a + m]"
    using assms by (intro filter_cong) (auto simp: word_le_nat_alt unat_of_nat_small)
  also have "\<dots> = [unat a..<unat a + m]"
    using upt_add_eq_append [of 0 "unat a" m] by (auto simp: filter_id_conv)
  finally show ?thesis by (simp add: filter_map comp_def)
qed

text \<open>C20: \<open>Runner::bench\<close> returns, in either profile, and records exactly \<open>measure\<close> values: the
  warm-up is not recorded and the sample is tagged back-to-back. The same run on a platform that
  logs its calls shows that \<open>prepare\<close> and \<open>op\<close> run once per index of \<open>0..warmup+measure\<close>, in order,
  that nothing but \<open>op\<close> runs between the two time stamps of an iteration, and that the resource
  counters are read exactly twice, after the preparation of the first measured operation and at
  the end. The histogram accepts every value (it is built with the maximum \<open>u64::MAX\<close>) and, in a
  debug build, \<open>getrusage\<close> succeeds.\<close>

theorem bench_measures_only_op:
  assumes "hdr_new pf = Some h0" and "hdr_accepts pf" and "rusage_ok p pf"
    and "unat (warmup it) + unat (measure it) < 2 ^ 64" and "0 < unat (measure it)"
  shows "\<exists>sample s' w' vs. bench p pf tpn l it s prepare op w = Inr (sample, s', w')
    \<and> length vs = unat (measure it)
    \<and> fold_res (Histogram_record pf) vs \<lparr>inner = h0, label = l\<rparr> = Inr (hist sample)
    \<and> arrival_model sample = BackToBack \<and> \<not> sample_overloaded sample
    \<and> bench p (traced pf) tpn l it s (traced_prepare prepare) (traced_op op) (w, []) = Inr (sample, s', (w',
        concat (map (\<lambda>k. [EvPrepare (of_nat k), EvStamp, EvOp, EvStamp]) [0..<unat (warmup it)])
        @ [EvPrepare (warmup it), EvRusage, EvStamp, EvOp, EvStamp]
        @ concat (map (\<lambda>k. [EvPrepare (of_nat k), EvStamp, EvOp, EvStamp])
            [Suc (unat (warmup it))..<unat (warmup it) + unat (measure it)])
        @ [EvRusage]))"
proof -
  let ?n = "warmup it + measure it" let ?a = "unat (warmup it)" let ?m = "unat (measure it)"
  have tot: "Iters_total p it = Inr ?n" using assms(4) by (simp add: Iters_total_def plus_u_ok)
  have un: "unat ?n = ?a + ?m" using assms(4) by (simp add: arith_u)
  have new: "Histogram_new pf l = Inr \<lparr>inner = h0, label = l\<rparr>" using assms(1) by (simp add: Histogram_new_def)
  obtain h' b' s' w' vs where f:
      "fold_res (bench_iter p pf tpn it prepare op) (usize_upto ?n) (\<lparr>inner = h0, label = l\<rparr>, RunStats_default, s, w)
        = Inr (h', b', s', w')"
      "length vs = length (filter (\<lambda>i. warmup it \<le> i) (usize_upto ?n))"
      "fold_res (Histogram_record pf) vs \<lparr>inner = h0, label = l\<rparr> = Inr h'"
    using fold_bench_iter_ok [OF assms(2,3), of tpn it prepare op "usize_upto ?n" "\<lparr>inner = h0, label = l\<rparr>" RunStats_default s w] by blast
  obtain st w'' where ru: "read_rusage_thread p pf w' = Inr (st, w'')" using read_rusage_ok [OF assms(3), of w'] by blast
  have len: "length vs = ?m" using f(2) measured_indices [OF assms(4)] by (simp add: usize_upto_def un)
  have idx: "of_nat k = warmup it \<longleftrightarrow> k = ?a" if "k < ?a + ?m" for k
    using that assms(4) unat_of_nat_small [of k, where 'w = 64] by (auto simp: word_unat_eq_iff)
  have split: "[0..<?a + ?m] = [0..<?a] @ [?a] @ [Suc ?a..<?a + ?m]"
    using upt_add_eq_append [of 0 ?a ?m] assms(5) by (simp add: upt_rec)
  have ev: "map (iter_events it) (usize_upto ?n) =
      map (\<lambda>k. [EvPrepare (of_nat k), EvStamp, EvOp, EvStamp]) [0..<?a]
      @ [[EvPrepare (warmup it), EvRusage, EvStamp, EvOp, EvStamp]]
      @ map (\<lambda>k. [EvPrepare (of_nat k), EvStamp, EvOp, EvStamp]) [Suc ?a..<?a + ?m]"
    unfolding usize_upto_def un split using idx by (auto simp: iter_events_def)
  show ?thesis
    unfolding bench_traced [OF tot]
    by (intro exI [of _ vs] exI conjI, simp_all add: bench_def tot new f(1) f(3) ru len ev)
qed

text \<open>A platform on which the hypotheses hold: a counter that advances with every read, and a
  histogram that keeps its values in a list.\<close>

definition list_platform :: "(nat, u64 list) platform" where
  "list_platform =
     \<lparr>pf_rdtscp = (\<lambda>w. ((of_nat (min w 18446744073709551615), 0), Suc w)),
      pf_getrusage = (\<lambda>w. (Some \<lparr>ru_nvcsw = 0, ru_nivcsw = 0, ru_minflt = 0, ru_majflt = 0\<rparr>, w)),
      pf_heap_stats = (\<lambda>w. \<lparr>total_blocks = 0, total_bytes = 0\<rparr>),
      hdr_new = Some [], hdr_record = (\<lambda>v h. Some (h @ [v])), hdr_record_correct = (\<lambda>v i h. Some (h @ [v])),
      hdr_add = (\<lambda>a b. Some (a @ b)), hdr_len = (\<lambda>h. of_nat (length h)),
      hdr_min = (\<lambda>h. fold min h (- 1)), hdr_max = (\<lambda>h. fold max h 0),
      hdr_value_at_percentile = (\<lambda>q h. fold max h 0), hdr_mean = (\<lambda>h. Fin 0),
      hdr_iter_quantiles = (\<lambda>t h. [])\<rparr>"

lemma list_platform_ok [simp]:
  "hdr_new list_platform = Some []" "hdr_accepts list_platform" "rusage_ok p list_platform"
  "rdtscp list_platform w = (of_nat (min w 18446744073709551615), Suc w)"
  by (simp_all add: list_platform_def hdr_accepts_def rusage_ok_def rdtscp_def)

theorem bench_measures_only_op_witness:
  "\<exists>sample s' w' vs. bench Debug list_platform (Fin 1) ''noop'' (Iters_new 1 2) (0 :: nat)
        (\<lambda>s i w. (i, s, w)) (\<lambda>s i w. (Suc s, w + 5)) 0 = Inr (sample, s', w')
    \<and> length vs = 2
    \<and> fold_res (Histogram_record list_platform) vs \<lparr>inner = [], label = ''noop''\<rparr> = Inr (hist sample)
    \<and> arrival_model sample = BackToBack \<and> \<not> sample_overloaded sample
    \<and> bench Debug (traced list_platform) (Fin 1) ''noop'' (Iters_new 1 2) (0 :: nat)
        (traced_prepare (\<lambda>s i w. (i, s, w))) (traced_op (\<lambda>s i w. (Suc s, w + 5))) (0, []) = Inr (sample, s', (w',
        [EvPrepare 0, EvStamp, EvOp, EvStamp, EvPrepare 1, EvRusage, EvStamp, EvOp, EvStamp,
         EvPrepare 2, EvStamp, EvOp, EvStamp, EvRusage]))"
  using bench_measures_only_op [of list_platform "[]" Debug "Iters_new 1 2" "Fin 1" "''noop''" "0 :: nat"
      "\<lambda>s i w. (i, s, w)" "\<lambda>s i w. (Suc s, w + 5)" 0]
  by (simp add: Iters_new_def upt_rec)

section \<open>The open loop\<close>

text \<open>A counter that is read again and again passes every deadline.\<close>

definition clock_advances :: "('w, 'h) platform \<Rightarrow> bool" where
  "clock_advances pf \<longleftrightarrow> (\<forall>d w. \<exists>n. d \<le> fst (rdtscp pf (((\<lambda>w. snd (rdtscp pf w)) ^^ n) w)))"

lemma spin_until_returns:
  assumes "clock_advances pf"
  shows "\<exists>w'. spin_until pf d w = Some w'"
proof -
  obtain n where "d \<le> fst (rdtscp pf (((\<lambda>w. snd (rdtscp pf w)) ^^ n) w))"
    using assms unfolding clock_advances_def by blast
  then show ?thesis
  proof (induction n arbitrary: w)
    case 0
    then show ?case by (subst spin_until.simps) (auto split: prod.split)
  next
    case (Suc n)
    have "\<exists>w'. spin_until pf d (snd (rdtscp pf w)) = Some w'"
      using Suc.prems by (intro Suc.IH) (simp only: funpow_Suc_right comp_apply)
    then show ?case by (subst spin_until.simps) (auto split: prod.split)
  qed
qed

lemma obind_simps [simp]:
  "obind None f = None" "obind (Some (Inl e)) f = Some (Inl e)" "obind (Some (Inr x)) f = f x"
  by (simp_all add: obind_def)

text \<open>In a release build an iteration returns, records one value and adds at most one late operation;
  it adds exactly one when the counter already passed the deadline.\<close>

lemma open_loop_iter_ok:
  assumes "hdr_accepts pf" and "clock_advances pf"
  shows "\<exists>h' d s' w' v. open_loop_iter Release pf tpn it iv it' start prepare op k (h, late, s, w)
      = Some (Inr (h', late + d, s', w')) \<and> (d = 0 \<or> d = 1)
    \<and> (start + saturating_mul k it' \<le> fst (rdtscp pf (snd (snd (prepare s (warmup it + k) w)))) \<longrightarrow> d = 1)
    \<and> Histogram_record_correct pf v iv h = Inr h'"
proof -
  obtain x s1 w1 where pr: "prepare s (warmup it + k) w = (x, s1, w1)" by (cases "prepare s (warmup it + k) w")
  let ?dl = "start + saturating_mul k it'"
  obtain now w2 where now: "rdtscp pf w1 = (now, w2)" by (cases "rdtscp pf w1")
  obtain d w3 where aw: "await_deadline Release pf ?dl late w1 = Some (Inr (late + d, w3))"
      and d: "d = 0 \<or> d = 1" "?dl \<le> now \<longrightarrow> d = 1"
  proof (cases "now < ?dl")
    case True
    with spin_until_returns [OF assms(2), of ?dl w2] that [of 0] show thesis
      by (auto simp: await_deadline_def now)
  next
    case False
    with that [of 1 w2] show thesis by (simp add: await_deadline_def now)
  qed
  obtain t0 w4 where t0: "rdtscp pf w3 = (t0, w4)" by (cases "rdtscp pf w3")
  obtain s5 w5 where op: "op s1 x w4 = (s5, w5)" by (cases "op s1 x w4")
  obtain t1 w6 where t1: "rdtscp pf w5 = (t1, w6)" by (cases "rdtscp pf w5")
  let ?v = "to_nanos tpn (ticks_since t1 t0)"
  obtain j where "hdr_record_correct pf ?v iv (inner h) = Some j" using assms(1) unfolding hdr_accepts_def by blast
  then have rec: "Histogram_record_correct pf ?v iv h = Inr (h\<lparr>inner := j\<rparr>)"
    by (simp add: Histogram_record_correct_def)
  have "open_loop_iter Release pf tpn it iv it' start prepare op k (h, late, s, w)
      = Some (Inr (h\<lparr>inner := j\<rparr>, late + d, s5, w6))"
    by (simp add: open_loop_iter_def pr aw rdtscp_then_lfence_def t0 op t1 rec)
  then show ?thesis using d rec pr now by (intro exI conjI) auto
qed

lemma fold_open_loop_ok:
  assumes "hdr_accepts pf" and "clock_advances pf"
    and "unat late + length ks < 2 ^ 64"
  shows "\<exists>h' late' s' w' vs. fold_ores (open_loop_iter Release pf tpn it iv it' start prepare op) ks (h, late, s, w)
      = Some (Inr (h', late', s', w')) \<and> unat late \<le> unat late' \<and> unat late' \<le> unat late + length ks
    \<and> length vs = length ks \<and> fold_res (\<lambda>v. Histogram_record_correct pf v iv) vs h = Inr h'"
  using assms(3)
proof (induction ks arbitrary: h late s w)
  case Nil
  show ?case by (auto intro!: exI [of _ "[]"])
next
  case (Cons k ks)
  obtain h1 d s1 w1 v where 1:
      "open_loop_iter Release pf tpn it iv it' start prepare op k (h, late, s, w) = Some (Inr (h1, late + d, s1, w1))"
      "d = 0 \<or> d = 1" "Histogram_record_correct pf v iv h = Inr h1"
    using open_loop_iter_ok [OF assms(1,2), of tpn it iv it' start prepare op k h late s w] by blast
  have d: "unat late \<le> unat (late + d)" "unat (late + d) \<le> unat late + 1"
    using 1(2) Cons.prems by (auto simp: arith_u)
  then have "unat (late + d) + length ks < 2 ^ 64" using Cons.prems by simp
  from Cons.IH [OF this, of h1 s1 w1] obtain h2 late2 s2 w2 vs where 2:
      "fold_ores (open_loop_iter Release pf tpn it iv it' start prepare op) ks (h1, late + d, s1, w1)
        = Some (Inr (h2, late2, s2, w2))"
      "unat (late + d) \<le> unat late2" "unat late2 \<le> unat (late + d) + length ks"
      "length vs = length ks" "fold_res (\<lambda>v. Histogram_record_correct pf v iv) vs h1 = Inr h2" by blast
  have "fold_ores (open_loop_iter Release pf tpn it iv it' start prepare op) (k # ks) (h, late, s, w)
      = Some (Inr (h2, late2, s2, w2))" using 1 2 by simp
  moreover have "fold_res (\<lambda>v. Histogram_record_correct pf v iv) (v # vs) h = Inr h2" using 1 2 by simp
  moreover have "unat late \<le> unat late2 \<and> unat late2 \<le> unat late + length (k # ks) \<and> length (v # vs) = length (k # ks)"
    using 2 d by simp
  ultimately show ?case by blast
qed

text \<open>Neither a read of the counter nor \<open>prepare\<close> turns it back.\<close>

definition clock_monotone :: "('w, 'h) platform \<Rightarrow> ('s \<Rightarrow> usize \<Rightarrow> 'w \<Rightarrow> 'i \<times> 's \<times> 'w) \<Rightarrow> bool" where
  "clock_monotone pf prepare \<longleftrightarrow>
     (\<forall>w. fst (rdtscp pf w) \<le> fst (rdtscp pf (snd (rdtscp pf w))))
     \<and> (\<forall>s i w. fst (rdtscp pf w) \<le> fst (rdtscp pf (snd (snd (prepare s i w)))))"

lemma open_loop_measure_ok:
  assumes "hdr_accepts pf" and "clock_advances pf" and w: "w = snd (rdtscp pf w0)"
  shows "\<exists>h' late s' w' vs. fold_ores (open_loop_iter Release pf tpn it iv it' (fst (rdtscp pf w0)) prepare op)
        (usize_upto n) (h, 0, s, w) = Some (Inr (h', late, s', w'))
    \<and> unat late \<le> unat n \<and> length vs = unat n \<and> fold_res (\<lambda>v. Histogram_record_correct pf v iv) vs h = Inr h'
    \<and> (clock_monotone pf prepare \<longrightarrow> n \<noteq> 0 \<longrightarrow> 0 < unat late)"
proof (cases "n = 0")
  case True
  then show ?thesis by (auto intro!: exI [of _ "[]"] simp: usize_upto_def)
next
  case False
  let ?start = "fst (rdtscp pf w0)"
  let ?ks = "map of_nat [1..<unat n] :: usize list"
  have ks: "usize_upto n = 0 # ?ks" using False by (simp add: usize_upto_def upt_rec unat_gt_0)
  obtain h1 d s1 w1 v where 1:
      "open_loop_iter Release pf tpn it iv it' ?start prepare op 0 (h, 0, s, w) = Some (Inr (h1, 0 + d, s1, w1))"
      "d = 0 \<or> d = 1" "Histogram_record_correct pf v iv h = Inr h1"
      "?start + saturating_mul 0 it' \<le> fst (rdtscp pf (snd (snd (prepare s (warmup it + 0) w)))) \<longrightarrow> d = 1"
    using open_loop_iter_ok [OF assms(1,2), of tpn it iv it' ?start prepare op 0 h 0 s w] by blast
  have late1: "clock_monotone pf prepare \<longrightarrow> d = 1"
    using 1(4) unfolding clock_monotone_def w by (simp add: saturating_mul_def) (meson order_trans)
  have dle: "unat d \<le> 1" using 1(2) by auto
  have "unat d + length ?ks < 2 ^ 64" using dle unat_u64_bound [of n] False by (simp add: unat_gt_0)
  from fold_open_loop_ok [OF assms(1,2) this, of tpn it iv it' ?start prepare op h1 s1 w1]
  obtain h2 late2 s2 w2 vs where 2:
      "fold_ores (open_loop_iter Release pf tpn it iv it' ?start prepare op) ?ks (h1, d, s1, w1)
        = Some (Inr (h2, late2, s2, w2))"
      "unat d \<le> unat late2" "unat late2 \<le> unat d + length ?ks"
      "length vs = length ?ks" "fold_res (\<lambda>v. Histogram_record_correct pf v iv) vs h1 = Inr h2" by blast
  have "fold_ores (open_loop_iter Release pf tpn it iv it' ?start prepare op) (usize_upto n) (h, 0, s, w)
      = Some (Inr (h2, late2, s2, w2))" using 1(1) 2(1) by (simp add: ks)
  moreover have "unat late2 \<le> unat n \<and> length (v # vs) = unat n"
    using dle 2(3,4) False unat_gt_0 [of n] by simp
  moreover have "fold_res (\<lambda>v. Histogram_record_correct pf v iv) (v # vs) h = Inr h2" using 1(3) 2(5) by simp
  moreover have "clock_monotone pf prepare \<longrightarrow> n \<noteq> 0 \<longrightarrow> 0 < unat late2" using late1 2(2) by auto
  ultimately show ?thesis by blast
qed

lemma bench_open_loop_ok:
  assumes "hdr_new pf = Some h0" and "hdr_accepts pf" and "clock_advances pf"
  shows "\<exists>sample s' w' late vs. bench_open_loop Release pf tpn l it iv s prepare op w = Some (Inr (sample, s', w'))
    \<and> length vs = unat (measure it)
    \<and> fold_res (\<lambda>v. Histogram_record_correct pf v iv) vs \<lparr>inner = h0, label = l\<rparr> = Inr (hist sample)
    \<and> arrival_model sample = OpenLoop iv \<and> unat late \<le> unat (measure it)
    \<and> (clock_monotone pf prepare \<longrightarrow> measure it \<noteq> 0 \<longrightarrow> 0 < unat late)
    \<and> (sample_overloaded sample \<longleftrightarrow> measure it * 5 \<le> late * 100)"
proof -
  have ru: "\<exists>st w'. read_rusage_thread Release pf w = Inr (st, w')" for w
    by (rule read_rusage_ok) (simp add: rusage_ok_def)
  obtain s1 w1 where wu: "warm_up prepare op (warmup it) (s, w) = (s1, w1)" by (cases "warm_up prepare op (warmup it) (s, w)")
  obtain b w2 where r1: "read_rusage_thread Release pf w1 = Inr (b, w2)" using ru by blast
  obtain t w3 where t: "rdtscp pf w2 = (t, w3)" by (cases "rdtscp pf w2")
  let ?ticks = "f64_to_u64 (f64_mul (f64_of_u64 iv) tpn)"
  have "w3 = snd (rdtscp pf w2)" using t by simp
  from open_loop_measure_ok [OF assms(2,3) this, of tpn it iv ?ticks prepare op "measure it"
      "\<lparr>inner = h0, label = l\<rparr>" s1]
  obtain h late s4 w4 vs where f:
      "fold_ores (open_loop_iter Release pf tpn it iv ?ticks t prepare op) (usize_upto (measure it))
        (\<lparr>inner = h0, label = l\<rparr>, 0, s1, w3) = Some (Inr (h, late, s4, w4))"
      "unat late \<le> unat (measure it)" "length vs = unat (measure it)"
      "fold_res (\<lambda>v. Histogram_record_correct pf v iv) vs \<lparr>inner = h0, label = l\<rparr> = Inr h"
      "clock_monotone pf prepare \<longrightarrow> measure it \<noteq> 0 \<longrightarrow> 0 < unat late"
    unfolding t fst_conv by blast
  obtain a w5 where r2: "read_rusage_thread Release pf w4 = Inr (a, w5)" using ru by blast
  let ?sample = "\<lparr>hist = h, arrival_model = OpenLoop iv, stats = delta_from a b,
      sample_overloaded = (measure it * 5 \<le> late * 100)\<rparr>"
  have "bench_open_loop Release pf tpn l it iv s prepare op w = Some (Inr (?sample, s4, w5))"
    using assms(1) f(1)
    by (simp add: bench_open_loop_def Histogram_new_def wu r1 rdtscp_then_lfence_def t r2 is_overloaded_def
        times_u_def OVERLOAD_PCT_def)
  then show ?thesis using f by (intro exI conjI) auto
qed

lemma overload_rule:
  fixes late n :: u64
  assumes "unat late \<le> unat n" and "unat n * 100 < 2 ^ 64"
  shows "n * 5 \<le> late * 100 \<longleftrightarrow> 5 * unat n \<le> 100 * unat late"
proof -
  have "unat (n * 5) = unat n * 5" "unat (late * 100) = unat late * 100"
    using assms by (simp_all add: unat_word_ariths)
  then show ?thesis by (simp add: word_le_nat_alt mult.commute)
qed

text \<open>C35: the first operation of an open-loop run is scheduled at the very instant the schedule
  starts, so on a counter that does not run backwards it is always counted as late: a run of at most
  20 measured operations is flagged as overloaded whatever the interval and however fast the
  operation.\<close>

theorem short_open_loop_always_overloaded:
  assumes "hdr_new pf = Some h0" and "hdr_accepts pf" and "clock_advances pf" and "clock_monotone pf prepare"
    and "unat (measure it) \<le> 20"
  shows "\<exists>sample s' w'. bench_open_loop Release pf tpn l it iv s prepare op w = Some (Inr (sample, s', w'))
    \<and> sample_overloaded sample"
proof -
  obtain sample s' w' late where b: "bench_open_loop Release pf tpn l it iv s prepare op w = Some (Inr (sample, s', w'))"
      "unat late \<le> unat (measure it)" "measure it \<noteq> 0 \<longrightarrow> 0 < unat late"
      "sample_overloaded sample \<longleftrightarrow> measure it * 5 \<le> late * 100"
    using bench_open_loop_ok [OF assms(1-3), of tpn l it iv s prepare op w] assms(4) by blast
  have "5 * unat (measure it) \<le> 100 * unat late" using b(3) assms(5) by (cases "measure it = 0") auto
  then show ?thesis using b overload_rule [OF b(2)] assms(5) by auto
qed

lemma list_platform_clock [simp]: "clock_advances list_platform" "clock_monotone list_platform (\<lambda>s i w. (i, s, w))"
proof -
  have pow: "((\<lambda>w. snd (rdtscp list_platform w)) ^^ n) w = w + n" for n w by (induction n) auto
  have "d \<le> fst (rdtscp list_platform (w + unat d))" for d :: u64 and w
    using unat_u64_bound [of d] by (simp add: word_le_nat_alt unat_of_nat_u64)
  then show "clock_advances list_platform" unfolding clock_advances_def pow by blast
  show "clock_monotone list_platform (\<lambda>s i w. (i, s, w))"
    unfolding clock_monotone_def list_platform_ok fst_conv snd_conv word_le_nat_alt
    by (subst (1 2) unat_of_nat_u64; simp)+ (simp add: min_def)
qed

theorem short_open_loop_always_overloaded_witness:
  "\<exists>sample s' w'. bench_open_loop Release list_platform (Fin 1) ''ol'' (Iters_new 0 20) 1000000 (0 :: nat)
        (\<lambda>s i w. (i, s, w)) (\<lambda>s i w. (Suc s, w + 2)) 0 = Some (Inr (sample, s', w'))
    \<and> sample_overloaded sample"
  by (rule short_open_loop_always_overloaded) (simp_all add: Iters_new_def)

section \<open>The allocation gate\<close>

text \<open>\<open>assert_zero_alloc\<close> (release build) passes exactly when the allocator's block counter is the
  same before and after the measured steps, whatever the warm-up allocated; it then reports zero
  blocks and leaves the state of \<open>warmup + measure\<close> steps. Otherwise it panics.\<close>

theorem zero_alloc_gate_exact:
  "case ((\<lambda>(s, w). step s w) ^^ unat wu) (s, w) of (s1, w1) \<Rightarrow>
   case ((\<lambda>(s, w). step s w) ^^ (unat m + unat wu)) (s, w) of (s2, w2) \<Rightarrow>
     if total_blocks (pf_heap_stats pf w2) = total_blocks (pf_heap_stats pf w1)
     then \<exists>n. assert_zero_alloc Release pf l s wu m step w = Inr (\<lparr>blocks = 0, bytes = n\<rparr>, s2, w2)
     else \<exists>msg. assert_zero_alloc Release pf l s wu m step w = Inl (Panic msg)"
  by (simp add: funpow_add assert_zero_alloc_def measure_alloc_def alloc_delta_def Let_def assert_that_def
      split: prod.split)

end
