(* ===== verification/Bench_Workload.thy ===== *)
theory Bench_Workload
  imports Bench_Runner_Props Arena
begin

text \<open>
  Benchmark scenarios as programs. A scenario of \<open>benches/\<close> is a pair of closures over a state:
  \<open>prepare\<close>, which is not timed, makes the input of an iteration, and \<open>op\<close> is the timed call. Either
  may panic. \<open>drive\<close> is what the runner does with them: one \<open>prepare\<close> and one \<open>op\<close> per iteration,
  collecting what the timed calls returned; \<open>bench_drives\<close> shows that this is what \<open>Runner::bench\<close>
  does. The locale \<open>scenario\<close> is the contract that makes a benchmark sound: an invariant that every
  iteration keeps, with no panic, and a timed call that always takes the path the scenario is named
  after. The scenarios of \<open>arena_bench.rs\<close> are the first instances.
\<close>

section \<open>Closures that may panic\<close>

definition iteration :: "('s \<Rightarrow> usize \<Rightarrow> ('i \<times> 's) res) \<Rightarrow> ('s \<Rightarrow> 'i \<Rightarrow> ('r \<times> 's) res) \<Rightarrow> usize \<Rightarrow>
    's \<times> 'r list \<Rightarrow> ('s \<times> 'r list) res" where
  "iteration prepare op i = (\<lambda>(s, rs).
     rbind (prepare s i) (\<lambda>(x, s). rbind (op s x) (\<lambda>(r, s). Inr (s, rs @ [r]))))"

definition drive :: "('s \<Rightarrow> usize \<Rightarrow> ('i \<times> 's) res) \<Rightarrow> ('s \<Rightarrow> 'i \<Rightarrow> ('r \<times> 's) res) \<Rightarrow> usize \<Rightarrow> 's \<Rightarrow>
    ('s \<times> 'r list) res" where
  "drive prepare op n s = fold_res (iteration prepare op) (usize_upto n) (s, [])"

text \<open>The closures as the runner's model takes them: a panic stays in the state.\<close>

definition lift_prepare :: "('s \<Rightarrow> usize \<Rightarrow> ('i \<times> 's) res) \<Rightarrow> ('s \<times> 'r list) res \<Rightarrow> usize \<Rightarrow> 'w \<Rightarrow>
    'i option \<times> ('s \<times> 'r list) res \<times> 'w" where
  "lift_prepare prepare st i w =
     (case rbind st (\<lambda>(s, rs). rbind (prepare s i) (\<lambda>(x, s). Inr (x, s, rs))) of
        Inl f \<Rightarrow> (None, Inl f, w) | Inr (x, s, rs) \<Rightarrow> (Some x, Inr (s, rs), w))"

definition lift_op :: "('s \<Rightarrow> 'i \<Rightarrow> ('r \<times> 's) res) \<Rightarrow> ('s \<times> 'r list) res \<Rightarrow> 'i option \<Rightarrow> 'w \<Rightarrow>
    ('s \<times> 'r list) res \<times> 'w" where
  "lift_op op st input w =
     (case input of None \<Rightarrow> (st, w)
      | Some x \<Rightarrow> (rbind st (\<lambda>(s, rs). rbind (op s x) (\<lambda>(r, s). Inr (s, rs @ [r]))), w))"

text \<open>The preparation of a scenario that needs none, as \<open>bench_static\<close> has it.\<close>

definition no_prepare :: "'s \<Rightarrow> usize \<Rightarrow> (unit \<times> 's) res" where
  "no_prepare st i = Inr ((), st)"

definition run_scenario_of :: "profile \<Rightarrow> ('w, 'h) platform \<Rightarrow> f64 \<Rightarrow> string \<Rightarrow> Iters \<Rightarrow>
    ('s \<Rightarrow> usize \<Rightarrow> ('i \<times> 's) res) \<Rightarrow> ('s \<Rightarrow> 'i \<Rightarrow> ('r \<times> 's) res) \<Rightarrow> 's \<Rightarrow> 'w \<Rightarrow>
    ('h Sample \<times> ('s \<times> 'r list) res \<times> 'w) res" where
  "run_scenario_of p pf tpn l it prepare op s w =
     bench p pf tpn l it (Inr (s, [])) (lift_prepare prepare) (lift_op op) w"

lemma lifted_iteration:
  assumes "lift_prepare prepare st i w = (x, st1, w1)" and "lift_op op st1 x w2 = (st2, w3)"
  shows "st2 = rbind st (iteration prepare op i)"
  using assms
  by (cases st) (auto simp: lift_prepare_def lift_op_def iteration_def rbind_def split: sum.splits prod.splits option.splits)

lemma bench_iter_drives:
  assumes "bench_iter p pf tpn it (lift_prepare prepare) (lift_op op) i (h, b, st, w) = Inr (h', b', st', w')"
  shows "st' = rbind st (iteration prepare op i)"
proof -
  obtain x st1 w1 where pr: "lift_prepare prepare st i w = (x, st1, w1)" by (cases "lift_prepare prepare st i w")
  let ?rest = "\<lambda>b w. let (t0, w) = rdtscp_then_lfence pf w; (s, w) = lift_op op st1 x w; (t1, w) = rdtscp pf w
    in rbind (if warmup it \<le> i then Histogram_record pf (to_nanos tpn (ticks_since t1 t0)) h else Inr h) (\<lambda>h. Inr (h, b, s, w))"
  from assms pr obtain b1 w2 where r: "?rest b1 w2 = Inr (h', b', st', w')" by (auto simp: bench_iter_def rbind_eq_Inr)
  obtain t0 w3 where t0: "rdtscp_then_lfence pf w2 = (t0, w3)" by (cases "rdtscp_then_lfence pf w2")
  obtain st2 w4 where op: "lift_op op st1 x w3 = (st2, w4)" by (cases "lift_op op st1 x w3")
  from r have "st' = st2" unfolding t0 op Let_def prod.case by (cases "rdtscp pf w4") (auto simp: rbind_eq_Inr)
  with lifted_iteration [OF pr op] show ?thesis by simp
qed

lemma fold_drives:
  "fold_res (bench_iter p pf tpn it (lift_prepare prepare) (lift_op op)) is (h, b, st, w) = Inr (h', b', st', w') \<Longrightarrow>
   st' = rbind st (fold_res (iteration prepare op) is)"
proof (induction "is" arbitrary: h b st w)
  case (Cons i "is")
  from Cons.prems obtain h1 b1 st1 w1 where
    1: "bench_iter p pf tpn it (lift_prepare prepare) (lift_op op) i (h, b, st, w) = Inr (h1, b1, st1, w1)"
    and 2: "fold_res (bench_iter p pf tpn it (lift_prepare prepare) (lift_op op)) is (h1, b1, st1, w1) = Inr (h', b', st', w')"
    by (auto simp: rbind_eq_Inr)
  from Cons.IH [OF 2] bench_iter_drives [OF 1] show ?case by (cases st) simp_all
qed (cases st', auto)

lemma bench_returns:
  assumes "hdr_new pf = Some h0" and "hdr_accepts pf" and "rusage_ok p pf"
    and "unat (warmup it) + unat (measure it) < 2 ^ 64"
  shows "\<exists>sample s' w'. bench p pf tpn l it s prepare op w = Inr (sample, s', w')"
proof -
  have "Iters_total p it = Inr (warmup it + measure it)" using assms(4) by (simp add: Iters_total_def plus_u_ok)
  moreover obtain h' b' s' w' where "fold_res (bench_iter p pf tpn it prepare op) (usize_upto (warmup it + measure it))
      (\<lparr>inner = h0, label = l\<rparr>, RunStats_default, s, w) = Inr (h', b', s', w')"
    using fold_bench_iter_ok [OF assms(2,3), of tpn it prepare op "usize_upto (warmup it + measure it)"
        "\<lparr>inner = h0, label = l\<rparr>" RunStats_default s w] by blast
  moreover obtain st w'' where "read_rusage_thread p pf w' = Inr (st, w'')" using read_rusage_ok [OF assms(3), of w'] by blast
  ultimately show ?thesis using assms(1) by (simp add: bench_def Histogram_new_def)
qed

text \<open>What the runner leaves in the state is \<open>drive\<close> over all iterations, the warm-up included.\<close>

lemma bench_drives:
  assumes "run_scenario_of p pf tpn l it prepare op s w = Inr (sample, st, w')"
    and "unat (warmup it) + unat (measure it) < 2 ^ 64"
  shows "st = drive prepare op (warmup it + measure it) s"
proof -
  have "Iters_total p it = Inr (warmup it + measure it)" using assms(2) by (simp add: Iters_total_def plus_u_ok)
  with assms(1) show ?thesis
    by (auto simp: run_scenario_of_def bench_def drive_def rbind_eq_Inr dest!: fold_drives)
qed

section \<open>Sound scenarios\<close>

locale scenario =
  fixes prepare :: "'s \<Rightarrow> usize \<Rightarrow> ('i \<times> 's) res"
    and op :: "'s \<Rightarrow> 'i \<Rightarrow> ('r \<times> 's) res"
    and inv :: "nat \<Rightarrow> 's \<Rightarrow> bool"
    and good :: "nat \<Rightarrow> 'r \<Rightarrow> bool"
    and bound :: nat
  assumes bound: "bound < 2 ^ 64"
    and step: "inv k s \<Longrightarrow> k < bound \<Longrightarrow>
      \<exists>x s1 r s2. prepare s (of_nat k) = Inr (x, s1) \<and> op s1 x = Inr (r, s2) \<and> good k r \<and> inv (Suc k) s2"
begin

lemma drive_upto:
  "inv 0 s \<Longrightarrow> n \<le> bound \<Longrightarrow> \<exists>s' rs. fold_res (iteration prepare op) (map of_nat [0..<n]) (s, []) = Inr (s', rs) \<and>
     inv n s' \<and> length rs = n \<and> (\<forall>k < n. good k (rs ! k))"
proof (induction n)
  case (Suc n)
  then obtain s' rs where r: "fold_res (iteration prepare op) (map of_nat [0..<n]) (s, []) = Inr (s', rs)"
    "inv n s'" "length rs = n" "\<forall>k < n. good k (rs ! k)" by auto
  from step [OF r(2)] Suc.prems(2) obtain x s1 y s2 where "prepare s' (of_nat n) = Inr (x, s1)" "op s1 x = Inr (y, s2)"
    "good n y" "inv (Suc n) s2" by auto
  then have it: "iteration prepare op (of_nat n) (s', rs) = Inr (s2, rs @ [y])" "good n y" "inv (Suc n) s2"
    by (simp_all add: iteration_def)
  with r show ?case by (intro exI [of _ s2] exI [of _ "rs @ [y]"]) (auto simp: fold_res_append nth_append less_Suc_eq)
qed simp

lemma drive_ok:
  assumes "inv 0 s" and "unat n \<le> bound"
  obtains s' rs where "drive prepare op n s = Inr (s', rs)" and "inv (unat n) s'" and "length rs = unat n"
    and "\<And>k. k < unat n \<Longrightarrow> good k (rs ! k)"
  using drive_upto [OF assms] by (auto simp: drive_def usize_upto_def)

text \<open>On a platform that can record, the runner returns a sample, no closure panicked, and every
  timed call took the intended path.\<close>

lemma bench_ok:
  assumes "hdr_new pf = Some h0" and "hdr_accepts pf" and "rusage_ok p pf"
    and "unat (warmup it) + unat (measure it) \<le> bound" and "inv 0 s"
  shows "\<exists>sample s' rs w'. run_scenario_of p pf tpn l it prepare op s w = Inr (sample, Inr (s', rs), w') \<and>
    length rs = unat (warmup it) + unat (measure it) \<and> (\<forall>k < length rs. good k (rs ! k)) \<and>
    inv (unat (warmup it) + unat (measure it)) s'"
proof -
  have b: "unat (warmup it) + unat (measure it) < 2 ^ 64" using assms(4) bound by simp
  have u: "unat (warmup it + measure it) = unat (warmup it) + unat (measure it)" using b by (simp add: arith_u)
  from bench_returns [OF assms(1-3) b, of tpn l "Inr (s, [])" "lift_prepare prepare" "lift_op op" w] obtain sample st w' where
    r: "run_scenario_of p pf tpn l it prepare op s w = Inr (sample, st, w')" unfolding run_scenario_of_def by blast
  from drive_ok [OF assms(5), of "warmup it + measure it"] assms(4) u obtain s' rs where
    "drive prepare op (warmup it + measure it) s = Inr (s', rs)" "length rs = unat (warmup it) + unat (measure it)"
    "\<And>k. k < length rs \<Longrightarrow> good k (rs ! k)" "inv (unat (warmup it) + unat (measure it)) s'" by metis
  with r bench_drives [OF r b] show ?thesis by auto
qed

end

text \<open>Loops that set a scenario up: each round advances a counter.\<close>

lemma fold_res_count_in:
  assumes "\<And>k i st. i \<in> set ys \<Longrightarrow> P k st \<Longrightarrow> k + d \<le> bound \<Longrightarrow> \<exists>st'. f i st = Inr st' \<and> P (k + d) st'"
  shows "set xs \<subseteq> set ys \<Longrightarrow> P k st \<Longrightarrow> k + d * length xs \<le> bound \<Longrightarrow>
    \<exists>st'. fold_res f xs st = Inr st' \<and> P (k + d * length xs) st'"
proof (induction xs arbitrary: k st)
  case (Cons x xs)
  from assms [OF _ Cons.prems(2), of x] Cons.prems(1,3) obtain st1 where "f x st = Inr st1" "P (k + d) st1" by auto
  with Cons.IH [of "k + d" st1] Cons.prems(1,3) show ?case by (simp add: algebra_simps)
qed simp

lemma fold_res_count:
  assumes "\<And>k i st. P k st \<Longrightarrow> k + d \<le> bound \<Longrightarrow> \<exists>st'. f i st = Inr st' \<and> P (k + d) st'"
    and "P k st" and "k + d * length xs \<le> bound"
  shows "\<exists>st'. fold_res f xs st = Inr st' \<and> P (k + d * length xs) st'"
  using fold_res_count_in [of xs P d bound f xs k st] assms by blast

section \<open>arena\_bench.rs\<close>

record ArenaSt =
  as_arena :: "u64 Arena"
  as_last :: "ArenaIdx option"

definition alloc_prepare :: "profile \<Rightarrow> ArenaSt \<Rightarrow> usize \<Rightarrow> (unit \<times> ArenaSt) res" where
  "alloc_prepare p st i =
     (case as_last st of
        None \<Rightarrow> Inr ((), st)
      | Some idx \<Rightarrow> rbind (Arena_remove p (as_arena st) idx) (\<lambda>(a, _). Inr ((), \<lparr>as_arena = a, as_last = None\<rparr>)))"

definition alloc_op :: "profile \<Rightarrow> ArenaSt \<Rightarrow> unit \<Rightarrow> (ArenaIdx \<times> ArenaSt) res" where
  "alloc_op p st x =
     rbind (Arena_alloc p (as_arena st) 44) (\<lambda>(a, r).
     rbind (expect ''arena full'' r) (\<lambda>idx. Inr (idx, \<lparr>as_arena = a, as_last = Some idx\<rparr>)))"

definition remove_prepare :: "profile \<Rightarrow> ArenaSt \<Rightarrow> usize \<Rightarrow> (unit \<times> ArenaSt) res" where
  "remove_prepare p st i =
     rbind (Arena_alloc p (as_arena st) 44) (\<lambda>(a, r).
     rbind (expect ''arena full'' r) (\<lambda>idx. Inr ((), \<lparr>as_arena = a, as_last = Some idx\<rparr>)))"

definition remove_op :: "profile \<Rightarrow> ArenaSt \<Rightarrow> unit \<Rightarrow> (u64 option \<times> ArenaSt) res" where
  "remove_op p st x =
     rbind (expect ''prepare allocated a slot'' (as_last st)) (\<lambda>idx.
     rbind (Arena_remove p (as_arena st) idx) (\<lambda>(a, r). Inr (r, \<lparr>as_arena = a, as_last = None\<rparr>)))"

definition arena_alloc_bench where
  "arena_alloc_bench p pf tpn w =
     rbind (Arena_new 1024) (\<lambda>a.
       run_scenario_of p pf tpn ''alloc'' Iters_STANDARD (alloc_prepare p) (alloc_op p) \<lparr>as_arena = a, as_last = None\<rparr> w)"

definition arena_remove_bench where
  "arena_remove_bench p pf tpn w =
     rbind (Arena_new 1024) (\<lambda>a.
       run_scenario_of p pf tpn ''remove'' Iters_STANDARD (remove_prepare p) (remove_op p) \<lparr>as_arena = a, as_last = None\<rparr> w)"

text \<open>The arena holds the slot of the last iteration and nothing else.\<close>

definition arena_holds :: "ArenaSt \<Rightarrow> bool" where
  "arena_holds st \<longleftrightarrow> arena_wf (as_arena st) \<and> arena_capacity (as_arena st) = 1024 \<and>
     arena_map (as_arena st) = (case as_last st of None \<Rightarrow> (\<lambda>_. None) | Some i \<Rightarrow> [i \<mapsto> 44])"

lemma arena_holds_alloc:
  assumes "arena_holds st" and "as_last st = None"
  obtains a i where "Arena_alloc p (as_arena st) 44 = Inr (a, Some i)" and "i \<noteq> SENTINEL"
    and "arena_holds \<lparr>as_arena = a, as_last = Some i\<rparr>"
proof -
  from assms have "arena_wf (as_arena st)" "card (dom (arena_map (as_arena st))) < arena_capacity (as_arena st)"
    by (simp_all add: arena_holds_def)
  from ar.alloc_room [OF this, of p 44] assms that show thesis by (auto simp: arena_holds_def)
qed

lemma arena_holds_remove:
  assumes "arena_holds st" and "as_last st = Some i"
  obtains a where "Arena_remove p (as_arena st) i = Inr (a, Some 44)" and "arena_holds \<lparr>as_arena = a, as_last = None\<rparr>"
proof -
  from assms have "arena_wf (as_arena st)" "arena_map (as_arena st) i = Some 44" by (simp_all add: arena_holds_def)
  from ar.remove_present [OF this, of p] assms that show thesis by (auto simp: arena_holds_def)
qed

interpretation alloc_scn: scenario "alloc_prepare p" "alloc_op p" "\<lambda>_. arena_holds" "\<lambda>_ i. i \<noteq> SENTINEL" "2 ^ 63"
  for p
proof unfold_locales
  fix k s assume s: "arena_holds s"
  obtain s1 where s1: "alloc_prepare p s (of_nat k) = Inr ((), s1)" "arena_holds s1" "as_last s1 = None"
  proof (cases "as_last s")
    case None
    with s that [of s] show thesis by (simp add: alloc_prepare_def)
  next
    case (Some i)
    obtain a where "Arena_remove p (as_arena s) i = Inr (a, Some 44)" "arena_holds \<lparr>as_arena = a, as_last = None\<rparr>"
      by (rule arena_holds_remove [OF s Some])
    with Some that [of "\<lparr>as_arena = a, as_last = None\<rparr>"] show thesis by (simp add: alloc_prepare_def)
  qed
  from arena_holds_alloc [OF s1(2,3), of p] s1(1)
  show "\<exists>x s1 r s2. alloc_prepare p s (of_nat k) = Inr (x, s1) \<and> alloc_op p s1 x = Inr (r, s2) \<and> r \<noteq> SENTINEL \<and> arena_holds s2"
    by (fastforce simp: alloc_op_def)
qed simp

interpretation remove_scn: scenario "remove_prepare p" "remove_op p"
  "\<lambda>_ st. arena_holds st \<and> as_last st = None" "\<lambda>_ r. r = Some 44" "2 ^ 63" for p
proof unfold_locales
  fix k s assume s: "arena_holds s \<and> as_last s = None"
  from s arena_holds_alloc [of s p] obtain a i where a: "Arena_alloc p (as_arena s) 44 = Inr (a, Some i)"
    "arena_holds \<lparr>as_arena = a, as_last = Some i\<rparr>" by metis
  from arena_holds_remove [OF a(2), of i p] a(1)
  show "\<exists>x s1 r s2. remove_prepare p s (of_nat k) = Inr (x, s1) \<and> remove_op p s1 x = Inr (r, s2) \<and> r = Some 44 \<and>
      (arena_holds s2 \<and> as_last s2 = None)"
    by (fastforce simp: remove_prepare_def remove_op_def)
qed simp

lemma arena_start:
  obtains a where "Arena_new 1024 = Inr a" and "arena_holds \<lparr>as_arena = a, as_last = None\<rparr>"
proof -
  have "(0 :: u32) < 1024" "(1024 :: u32) < u32_MAX" by simp_all
  then obtain a :: "u64 Arena" where "Arena_new 1024 = Inr a" "arena_wf a" "arena_map a = (\<lambda>_. None)" "arena_capacity a = unat (1024 :: u32)"
    by (rule Arena_new_ok)
  with that show thesis by (simp add: arena_holds_def)
qed

text \<open>Both scenarios of the arena's benchmark run to the end in either profile: the timed \<open>alloc\<close>
  always finds a free slot and the timed \<open>remove\<close> always frees the value of its iteration, and the
  arena never drifts towards full or empty.\<close>

theorem arena_bench_sound:
  assumes "hdr_new pf = Some h0" and "hdr_accepts pf" and "rusage_ok p pf"
  shows "\<exists>sample st rs w'. arena_alloc_bench p pf tpn w = Inr (sample, Inr (st, rs), w') \<and>
      length rs = 1100000 \<and> (\<forall>i \<in> set rs. i \<noteq> SENTINEL) \<and> arena_holds st"
    and "\<exists>sample st rs w'. arena_remove_bench p pf tpn w = Inr (sample, Inr (st, rs), w') \<and>
      length rs = 1100000 \<and> (\<forall>r \<in> set rs. r = Some 44) \<and> arena_holds st"
proof -
  obtain a where a: "Arena_new 1024 = Inr a" "arena_holds \<lparr>as_arena = a, as_last = None\<rparr>" by (rule arena_start)
  have it: "unat (warmup Iters_STANDARD) + unat (measure Iters_STANDARD) = 1100000" by (simp add: Iters_STANDARD_def)
  then have le: "unat (warmup Iters_STANDARD) + unat (measure Iters_STANDARD) \<le> 2 ^ 63" by simp
  from alloc_scn.bench_ok [where tpn = tpn and l = "''alloc''" and w = w, OF assms le a(2)] obtain sample st rs w' where
    r: "arena_alloc_bench p pf tpn w = Inr (sample, Inr (st, rs), w')" "length rs = 1100000" "\<forall>k < length rs. rs ! k \<noteq> SENTINEL"
      "arena_holds st" unfolding arena_alloc_bench_def a(1) rbind_Inr it by blast
  from r(3) have "\<forall>i \<in> set rs. i \<noteq> SENTINEL" by (metis in_set_conv_nth)
  with r show "\<exists>sample st rs w'. arena_alloc_bench p pf tpn w = Inr (sample, Inr (st, rs), w') \<and>
      length rs = 1100000 \<and> (\<forall>i \<in> set rs. i \<noteq> SENTINEL) \<and> arena_holds st" by blast
  have "arena_holds \<lparr>as_arena = a, as_last = None\<rparr> \<and> as_last \<lparr>as_arena = a, as_last = None\<rparr> = None" using a(2) by simp
  from remove_scn.bench_ok [where tpn = tpn and l = "''remove''" and w = w, OF assms le this] obtain sample st rs w' where
    r: "arena_remove_bench p pf tpn w = Inr (sample, Inr (st, rs), w')" "length rs = 1100000" "\<forall>k < length rs. rs ! k = Some 44"
      "arena_holds st" unfolding arena_remove_bench_def a(1) rbind_Inr it by blast
  from r(3) have "\<forall>x \<in> set rs. x = Some 44" by (metis in_set_conv_nth)
  with r show "\<exists>sample st rs w'. arena_remove_bench p pf tpn w = Inr (sample, Inr (st, rs), w') \<and>
      length rs = 1100000 \<and> (\<forall>r \<in> set rs. r = Some 44) \<and> arena_holds st" by blast
qed

end
