(* ===== verification/Telemetry.thy ===== *)
theory Telemetry
  imports Bench_Runner
begin

text \<open>
  The rest of \<open>crates/telemetry\<close>: the identity types of \<open>ids.rs\<close>, the calibration of the time-stamp
  counter against the wall clock with its process-wide cell (\<open>calibration.rs\<close>), the clock types'
  remaining operations (\<open>clock.rs\<close>), and the runner's constructor that calibrates (\<open>runner.rs\<close>).

  The wall clock and \<open>sleep\<close> are the record \<open>wall\<close> over the state of the machine: an \<open>Instant\<close> is
  its number of nanoseconds, \<open>SystemTime\<close> is opaque. \<open>Instant::duration_since\<close> is zero when the
  argument is the later one.
\<close>

section \<open>ids.rs\<close>

datatype PublisherId = PublisherId (publisher_id: u32)

definition PublisherId_UNKNOWN :: PublisherId where
  "PublisherId_UNKNOWN = PublisherId 0"

definition PublisherId_BENCHMARK :: PublisherId where
  "PublisherId_BENCHMARK = PublisherId 999"

datatype MsgType = MsgUnknown | MsgBenchmark

fun MsgType_u8 :: "MsgType \<Rightarrow> u8" where
  "MsgType_u8 MsgUnknown = 0"
| "MsgType_u8 MsgBenchmark = 1"

datatype CounterId = CtrUnknown | TelemetryDroppedCum

fun CounterId_u16 :: "CounterId \<Rightarrow> 16 word" where
  "CounterId_u16 CtrUnknown = 0"
| "CounterId_u16 TelemetryDroppedCum = 5"

datatype EventType = EvtUnknown | CorePinningViolation

fun EventType_u16 :: "EventType \<Rightarrow> 16 word" where
  "EventType_u16 EvtUnknown = 0"
| "EventType_u16 CorePinningViolation = 3"

section \<open>clock.rs\<close>

definition as_f64_micros :: "u64 \<Rightarrow> f64" where
  "as_f64_micros n = f64_div (f64_of_u64 n) (Fin 1000)"

definition CoreId_UNKNOWN :: u8 where
  "CoreId_UNKNOWN = 0xFF"

section \<open>calibration.rs\<close>

record ('w, 't) wall =
  wl_instant :: "'w \<Rightarrow> nat \<times> 'w"
  wl_sleep :: "nat \<Rightarrow> 'w \<Rightarrow> 'w"
  wl_system_time :: "'w \<Rightarrow> 't \<times> 'w"

record 't TscCalibration =
  ticks_per_nanosecond :: f64
  measurement_duration :: nat
  calibrated_at :: 't

definition tick_rate :: "u64 \<Rightarrow> nat \<Rightarrow> f64" where
  "tick_rate ticks nanos = f64_div (f64_of_u64 ticks) (f64_round (of_nat nanos))"

definition calibrate :: "('w, 'h) platform \<Rightarrow> ('w, 't) wall \<Rightarrow> 'w \<Rightarrow> 't TscCalibration \<times> 'w" where
  "calibrate pf wl w =
     (let (tsc_start, w) = rdtscp_then_lfence pf w;
          (wall_start, w) = wl_instant wl w;
          w = wl_sleep wl 100000000 w;
          (tsc_end, w) = rdtscp_then_lfence pf w;
          (wall_end, w) = wl_instant wl w;
          rate = tick_rate (ticks_since tsc_end tsc_start) (wall_end - wall_start);
          (now, w) = wl_system_time wl w
      in (\<lparr>ticks_per_nanosecond = rate, measurement_duration = wall_end - wall_start, calibrated_at = now\<rparr>, w))"

text \<open>The static \<open>OnceLock\<close>, as the state of the cell.\<close>

definition telemetry_init :: "'t TscCalibration option \<Rightarrow> 't TscCalibration \<Rightarrow> 't TscCalibration option res" where
  "telemetry_init cell c =
     (case cell of None \<Rightarrow> Inr (Some c) | Some _ \<Rightarrow> Inl (Panic ''telemetry::init called twice''))"

definition calibration :: "'t TscCalibration option \<Rightarrow> 't TscCalibration res" where
  "calibration cell = expect ''telemetry::init must be called before reading calibration'' cell"

section \<open>runner.rs: construction\<close>

record 't Runner =
  cal :: "'t TscCalibration"

definition Runner_new :: "('w, 'h) platform \<Rightarrow> ('w, 't) wall \<Rightarrow> 'w \<Rightarrow> 't Runner \<times> 'w" where
  "Runner_new pf wl w = (let (c, w') = calibrate pf wl w in (\<lparr>cal = c\<rparr>, w'))"

definition Runner_calibration :: "'t Runner \<Rightarrow> 't TscCalibration" where
  "Runner_calibration r = cal r"

section \<open>The calibration cell\<close>

text \<open>Set exactly once: the first value stays, a second \<open>init\<close> panics, reading before \<open>init\<close> panics.\<close>

lemma calibration_cell:
  "calibration None = Inl (Panic ''telemetry::init must be called before reading calibration'')"
  "telemetry_init None c = Inr cell \<Longrightarrow> calibration cell = Inr c \<and>
     telemetry_init cell c' = Inl (Panic ''telemetry::init called twice'')"
  by (auto simp: calibration_def telemetry_init_def)

section \<open>How exact the calibrated clock is\<close>

text \<open>Dividing by a rounded quotient gives the dividend's partner back, up to less than one.\<close>

lemma quotient_inverts:
  assumes T: "1 \<le> T" "T < 2 ^ 53" and N: "1 \<le> N" "N < 2 ^ 51"
  obtains c v where "f64_round (T / N) = Fin c" and "c \<noteq> 0" and "f64_round (T / c) = Fin v" and "\<bar>v - N\<bar> < 1"
proof -
  define x where "x = T / N"
  define d where "d = pow2 (- 53)"
  have d: "0 < d" "d \<le> 1 / 2" "4 * d * N < 1" using N by (simp_all add: d_def pow2_def)
  have small: "pow2 (- 1022) \<le> d" "pow2 54 \<le> pow2 1023" by (simp_all add: d_def)
  have Nx: "N * x = T" and x: "0 < x" using N T by (simp_all add: x_def)
  have "d * N \<le> T" using d T by simp
  then have "d \<le> x" using N by (simp add: x_def le_divide_eq)
  moreover have "x \<le> T" using N T mult_right_mono [of 1 N x] Nx x by simp
  moreover have "T < pow2 54" using T(2) by (simp add: pow2_def)
  ultimately have "pow2 (- 1022) \<le> x" "x < pow2 1023" using small by linarith+
  then obtain c where c: "f64_round x = Fin c" "\<bar>c - x\<bar> \<le> x * d" "0 < c" unfolding d_def by (rule f64_round_error)
  have "x * d \<le> x / 2" using mult_left_mono [OF d(2), of x] x by simp
  then have cx: "x \<le> 2 * c" "c \<le> 2 * x" using c(2) x by linarith+
  define y where "y = T / c"
  have cy: "c * y = T" using c(3) by (simp add: y_def)
  have "N * x \<le> N * (2 * c)" "N * c \<le> N * (2 * x)" using cx N by (auto intro!: mult_left_mono)
  then have y: "y \<le> 2 * N" "N \<le> 2 * y" using c(3) Nx by (simp_all add: y_def divide_le_eq le_divide_eq mult_ac)
  have "pow2 (- 1022) \<le> y" using y(2) N(1) small d by linarith
  moreover have "2 * N < pow2 54" using N by (simp add: pow2_def)
  ultimately obtain v where v: "f64_round y = Fin v" "\<bar>v - y\<bar> \<le> y * d"
    using y(1) small unfolding d_def by (metis f64_round_error order_le_less_trans order_less_le_trans)
  have "\<bar>N - y\<bar> * c = N * \<bar>c - x\<bar>"
  proof -
    have "\<bar>N - y\<bar> * c = \<bar>(N - y) * c\<bar>" using c(3) by (simp add: abs_mult)
    also have "(N - y) * c = N * (c - x)" using Nx cy by (simp add: algebra_simps)
    finally show ?thesis using N by (simp add: abs_mult)
  qed
  also have "\<dots> \<le> N * (x * d)" using c(2) N by (intro mult_left_mono) auto
  also have "\<dots> \<le> N * (2 * c * d)" using cx d N by (intro mult_left_mono mult_right_mono) auto
  finally have "\<bar>N - y\<bar> * c \<le> (2 * d * N) * c" by (simp add: mult_ac)
  then have "\<bar>N - y\<bar> \<le> 2 * d * N" using c(3) by simp
  moreover have "y * d \<le> 2 * N * d" using y d by (intro mult_right_mono) auto
  ultimately have "\<bar>v - N\<bar> < 1" using v(2) d(3) by (simp add: mult_ac)
  with that c(1,3) v(1) show thesis by (simp add: x_def y_def)
qed

lemma tick_rate_inverts:
  assumes "0 < unat t" and "unat t < 2 ^ 53" and "0 < n" and "n < 2 ^ 51"
  shows "unat (to_nanos (tick_rate t n) t) = n \<or> unat (to_nanos (tick_rate t n) t) = n - 1"
proof -
  let ?T = "of_nat (unat t) :: rat" and ?N = "of_nat n :: rat"
  have r: "1 \<le> ?T" "?T < 2 ^ 53" "1 \<le> ?N" "?N < 2 ^ 51"
    using assms by (metis of_nat_1 of_nat_le_iff One_nat_def Suc_leI of_nat_less_iff of_nat_numeral of_nat_power)+
  then obtain c v where v: "f64_round (?T / ?N) = Fin c" "c \<noteq> 0" "f64_round (?T / c) = Fin v" "\<bar>v - ?N\<bar> < 1"
    by (rule quotient_inverts)
  have "f64_round ?N = Fin ?N" using f64_round_of_int [of "int n"] assms(4) by simp
  with v f64_of_u64_exact [OF assms(2)] r have to: "to_nanos (tick_rate t n) t = f64_to_u64 (Fin v)"
    by (simp add: to_nanos_def tick_rate_def)
  have fl: "\<lfloor>v\<rfloor> = int n \<or> \<lfloor>v\<rfloor> = int n - 1" using v(4) by linarith
  show ?thesis
  proof (cases "v \<le> 0")
    case True
    with v(4) r have "n = 1" by simp
    with True to show ?thesis by simp
  next
    case False
    have "int n < 2 ^ 51" using assms(4) by simp
    moreover have "0 \<le> \<lfloor>v\<rfloor>" "\<lfloor>v\<rfloor> \<le> int n" using fl assms(3) by linarith+
    ultimately have b: "0 \<le> \<lfloor>v\<rfloor>" "\<lfloor>v\<rfloor> < 2 ^ 51" by (blast intro: order_le_less_trans)+
    then have "unat (of_int \<lfloor>v\<rfloor> :: u64) = nat \<lfloor>v\<rfloor>" by (simp add: unat_eq_nat_uint uint_word_of_int take_bit_int_eq_self)
    with False b fl to show ?thesis by auto
  qed
qed

text \<open>
  Where the wall clock did not advance during the calibration the rate is infinite or not a number,
  and every time measured with it is reported as zero.
\<close>

lemma stopped_wall_clock:
  assumes "unat u < 2 ^ 53"
  shows "to_nanos (tick_rate t 0) u = 0"
proof -
  have "f64_round 0 = Fin 0" by (simp add: f64_round_def)
  then show ?thesis using f64_of_u64_exact [OF assms]
    by (cases "f64_of_u64 t") (auto simp: to_nanos_def tick_rate_def f64_signed_inf_def)
qed

section \<open>Properties\<close>

text \<open>
  C29: a calibrated clock measures its own calibration. When the time-stamp counter advanced by fewer
  than 2^53 ticks and the wall clock by between one and 2^51 nanoseconds during \<open>calibrate\<close>, then
  converting the counter's advance with the resulting rate gives the wall clock's advance, or one
  nanosecond less: the two roundings of \<open>f64\<close> never cost more.
\<close>

theorem calibration_inverts:
  assumes "rdtscp_then_lfence pf w = (t0, w1)" and "wl_instant wl w1 = (i0, w2)"
    and "rdtscp_then_lfence pf (wl_sleep wl 100000000 w2) = (t1, w3)" and "wl_instant wl w3 = (i1, w4)"
    and "t0 < t1" and "unat (t1 - t0) < 2 ^ 53" and "i0 < i1" and "i1 - i0 < 2 ^ 51"
  shows "\<exists>c w'. calibrate pf wl w = (c, w') \<and> measurement_duration c = i1 - i0 \<and>
    unat (to_nanos (ticks_per_nanosecond c) (ticks_since t1 t0)) \<in> {i1 - i0, i1 - i0 - 1}"
proof -
  obtain now w' where now: "wl_system_time wl w4 = (now, w')" by (cases "wl_system_time wl w4")
  have "ticks_since t1 t0 = t1 - t0" using less_imp_le [OF assms(5)] by (simp add: ticks_since_def saturating_sub_def)
  moreover have "0 < unat (t1 - t0)" using assms(5) by (simp add: unat_minus_le less_imp_le word_less_nat_alt)
  ultimately show ?thesis
    using tick_rate_inverts [of "t1 - t0" "i1 - i0"] assms now by (simp add: calibrate_def Let_def)
qed

text \<open>A machine whose counter runs at three ticks per nanosecond; its state is the time.\<close>

definition sample_clock :: "(nat, unit) platform" where
  "sample_clock = \<lparr>pf_rdtscp = (\<lambda>w. ((of_nat (3 * w), 0), w + 7)), pf_getrusage = (\<lambda>w. (None, w)),
     pf_heap_stats = (\<lambda>_. \<lparr>total_blocks = 0, total_bytes = 0\<rparr>), hdr_new = None, hdr_record = (\<lambda>_ _. None),
     hdr_record_correct = (\<lambda>_ _ _. None), hdr_add = (\<lambda>_ _. None), hdr_len = (\<lambda>_. 0), hdr_min = (\<lambda>_. 0),
     hdr_max = (\<lambda>_. 0), hdr_value_at_percentile = (\<lambda>_ _. 0), hdr_mean = (\<lambda>_. Fin 0), hdr_iter_quantiles = (\<lambda>_ _. [])\<rparr>"

definition sample_wall :: "(nat, unit) wall" where
  "sample_wall = \<lparr>wl_instant = (\<lambda>w. (w, w + 20)), wl_sleep = (+), wl_system_time = (\<lambda>w. ((), w))\<rparr>"

theorem calibration_inverts_witness:
  "\<exists>c w'. calibrate sample_clock sample_wall 1000 = (c, w') \<and> measurement_duration c = 100000027 \<and>
     unat (to_nanos (ticks_per_nanosecond c) 300000081) \<in> {100000027, 100000026}"
  using calibration_inverts [of sample_clock 1000 3000 1007 sample_wall 1007 1027 300003081 100001034 100001034 100001054]
  by (simp add: sample_clock_def sample_wall_def rdtscp_then_lfence_def rdtscp_def ticks_since_def saturating_sub_def)

end
