(* ===== verification/Ipc_Hop.thy ===== *)
theory Ipc_Hop
  imports Bench_Workload Ipc_Props Telemetry
begin

text \<open>
  The benchmarks of the ring. \<open>self_latency.rs\<close> times single calls on one thread: the scenarios are
  instances of \<open>scenario\<close>. \<open>cross_core.rs\<close> has a sending and a reading thread that share the ring and
  a flag: one step of a thread is one call on a shared object, the counter readings are arbitrary
  inputs of the steps, and every interleaving of the two threads is a path of \<open>hop_reach\<close>.
\<close>

section \<open>self\_latency.rs\<close>

definition CAP :: u32 where "CAP = 1024"

record RingSt =
  rg_queue :: "u64 Queue"
  rg_prod :: Producer
  rg_cons :: Consumer

definition publish_op :: "profile \<Rightarrow> RingSt \<Rightarrow> unit \<Rightarrow> (u64 \<times> RingSt) res" where
  "publish_op p st x =
     rbind (publish p (rg_queue st) (rg_prod st) 0xABCD) (\<lambda>(q, pd, seq).
       Inr (seq, st\<lparr>rg_queue := q, rg_prod := pd\<rparr>))"

definition poll_op :: "profile \<Rightarrow> RingSt \<Rightarrow> unit \<Rightarrow> (u64 PollResult \<times> RingSt) res" where
  "poll_op p st x = rbind (poll p (rg_queue st) (rg_cons st)) (\<lambda>(c, r). Inr (r, st\<lparr>rg_cons := c\<rparr>))"

definition poll_hit_prepare :: "profile \<Rightarrow> RingSt \<Rightarrow> usize \<Rightarrow> (unit \<times> RingSt) res" where
  "poll_hit_prepare p st i = rbind (publish_op p st ()) (\<lambda>(_, st). Inr ((), st))"

definition ring_start :: "RingSt res" where
  "ring_start = rbind (Queue_new 0 CAP) (\<lambda>(q, pd).
     Inr \<lparr>rg_queue = q, rg_prod = pd, rg_cons = subscribe q SkipToLatest\<rparr>)"

definition publish_bench where
  "publish_bench p pf tpn w = rbind ring_start (\<lambda>st.
     run_scenario_of p pf tpn ''publish'' Iters_STANDARD no_prepare (publish_op p) st w)"

definition poll_hit where
  "poll_hit p pf tpn w = rbind ring_start (\<lambda>st.
     run_scenario_of p pf tpn ''poll (hit)'' Iters_STANDARD (poll_hit_prepare p) (poll_op p) st w)"

definition poll_miss where
  "poll_miss p pf tpn w = rbind ring_start (\<lambda>st.
     run_scenario_of p pf tpn ''poll (miss)'' Iters_STANDARD no_prepare (poll_op p) st w)"

text \<open>The ring after \<open>n\<close> publications with the consumer at position \<open>m\<close>.\<close>

definition ring_at :: "nat \<Rightarrow> nat \<Rightarrow> RingSt \<Rightarrow> bool" where
  "ring_at n m st \<longleftrightarrow> (\<exists>k H. bus_rel k 0 (rg_queue st, rg_prod st) H \<and> length H = n \<and> consumer_at k (rg_cons st) m \<and>
     (n = Suc m \<longrightarrow> H ! m = 0xABCD))"

lemma ring_at_publish:
  assumes "ring_at n m st" and "n < 2 ^ 62"
  obtains st' where "publish_op p st () = Inr (of_nat n, st')" and "m \<le> n \<Longrightarrow> ring_at (Suc n) m st'"
proof -
  from assms(1) obtain k H where r: "ring_rel k 0 (rg_queue st) (rg_prod st) H" "length H = n" "consumer_at k (rg_cons st) m"
    by (auto simp: ring_at_def bus_rel_def)
  have "length H + 1 < seq_bound" using r(2) assms(2) by simp
  then obtain q pd where q: "publish p (rg_queue st) (rg_prod st) 0xABCD = Inr (q, pd, of_nat (length H))"
    "ring_rel k 0 q pd (H @ [0xABCD])" by (rule publish_rel [OF r(1)])
  have "ring_at (Suc n) m (st\<lparr>rg_queue := q, rg_prod := pd\<rparr>)" if "m \<le> n"
    using q(2) r(2,3) unfolding ring_at_def
    by (intro exI [of _ k] exI [of _ "H @ [0xABCD]"]) (auto simp: bus_rel_def nth_append)
  with that q(1) r(2) show thesis by (simp add: publish_op_def)
qed

lemma ring_at_poll:
  assumes "ring_at (Suc n) n st" and "n < 2 ^ 62"
  obtains st' where "poll_op p st () = Inr (Ready 0xABCD, st')" and "ring_at (Suc n) (Suc n) st'"
proof -
  from assms(1) obtain k H where r: "bus_rel k 0 (rg_queue st, rg_prod st) H" "length H = Suc n" "consumer_at k (rg_cons st) n"
    "H ! n = 0xABCD" by (auto simp: ring_at_def)
  from bus.pol_ready [where p = p, OF r(1) _ r(3)] r(2,4) assms(2) obtain c where
    "poll p (rg_queue st) (rg_cons st) = Inr (c, Ready 0xABCD)" "consumer_at k c (Suc n)" by (auto simp: bus_poll_def)
  with that r show thesis by (auto simp: poll_op_def ring_at_def)
qed

lemma ring_at_miss:
  assumes "ring_at n n st" and "n < 2 ^ 62"
  shows "poll_op p st () = Inr (Empty, st)"
proof -
  from assms(1) obtain k H where r: "bus_rel k 0 (rg_queue st, rg_prod st) H" "length H = n" "consumer_at k (rg_cons st) n"
    by (auto simp: ring_at_def)
  with bus.pol_empty [where p = p, OF r(1)] assms(2) show ?thesis by (simp add: bus_poll_def poll_op_def)
qed

lemma ring_start_ok:
  obtains st where "ring_start = Inr st" and "ring_at 0 0 st"
proof -
  have "is_power_of_two 1024" by code_simp
  then obtain q pd where q: "Queue_new (0 :: u64) CAP = Inr (q, pd)" by (auto simp: Queue_new_def Let_def CAP_def)
  from Queue_new_rel [OF q] obtain k where "ring_rel k 0 q pd []" by blast
  then have "ring_at 0 0 \<lparr>rg_queue = q, rg_prod = pd, rg_cons = subscribe q SkipToLatest\<rparr>"
    by (auto simp: ring_at_def bus_rel_def consumer_at_def ring_rel_def subscribe_def Queue_published_def)
  with q that show thesis by (simp add: ring_start_def)
qed

interpretation publish_scn: scenario no_prepare "publish_op p" "\<lambda>n. ring_at n 0" "\<lambda>n seq. seq = of_nat n" "2 ^ 62" for p
proof unfold_locales
  fix k s assume "ring_at k 0 s" and "k < 2 ^ 62"
  from ring_at_publish [OF this, of p] obtain s' where "publish_op p s () = Inr (of_nat k, s')" "ring_at (Suc k) 0 s'" by blast
  then show "\<exists>x s1 r s2. no_prepare s (of_nat k) = Inr (x, s1) \<and> publish_op p s1 x = Inr (r, s2) \<and> r = of_nat k \<and>
      ring_at (Suc k) 0 s2" by (simp add: no_prepare_def)
qed simp

interpretation hit_scn: scenario "poll_hit_prepare p" "poll_op p" "\<lambda>n. ring_at n n" "\<lambda>_ r. r = Ready 0xABCD" "2 ^ 62" for p
proof unfold_locales
  fix k s assume s: "ring_at k k s" and k: "k < 2 ^ 62"
  from ring_at_publish [OF s k, of p] obtain s1 where s1: "publish_op p s () = Inr (of_nat k, s1)" "ring_at (Suc k) k s1" by blast
  from ring_at_poll [OF s1(2) k, of p] obtain s2 where "poll_op p s1 () = Inr (Ready 0xABCD, s2)" "ring_at (Suc k) (Suc k) s2" .
  with s1(1) show "\<exists>x s1 r s2. poll_hit_prepare p s (of_nat k) = Inr (x, s1) \<and> poll_op p s1 x = Inr (r, s2) \<and>
      r = Ready 0xABCD \<and> ring_at (Suc k) (Suc k) s2" by (simp add: poll_hit_prepare_def)
qed simp

interpretation miss_scn: scenario no_prepare "poll_op p" "\<lambda>_. ring_at 0 0" "\<lambda>_ r. r = Empty" "2 ^ 62" for p
  using ring_at_miss [of 0 _ p] by unfold_locales (auto simp: no_prepare_def)

text \<open>Each scenario of the ring's benchmark measures what its name says, in every iteration.\<close>

theorem self_latency_sound:
  assumes "hdr_new pf = Some h0" and "hdr_accepts pf" and "rusage_ok p pf"
  shows "\<exists>sample st rs w'. publish_bench p pf tpn w = Inr (sample, Inr (st, rs), w') \<and> rs = map of_nat [0..<1100000]"
    and "\<exists>sample st rs w'. poll_hit p pf tpn w = Inr (sample, Inr (st, rs), w') \<and> rs = replicate 1100000 (Ready 0xABCD)"
    and "\<exists>sample st rs w'. poll_miss p pf tpn w = Inr (sample, Inr (st, rs), w') \<and> rs = replicate 1100000 Empty"
proof -
  obtain st where st: "ring_start = Inr st" "ring_at 0 0 st" by (rule ring_start_ok)
  have it: "unat (warmup Iters_STANDARD) + unat (measure Iters_STANDARD) = 1100000" by (simp add: Iters_STANDARD_def)
  then have le: "unat (warmup Iters_STANDARD) + unat (measure Iters_STANDARD) \<le> 2 ^ 62" by simp
  from publish_scn.bench_ok [where tpn = tpn and l = "''publish''" and w = w, OF assms le st(2)] obtain sample s' rs w' where
    r: "publish_bench p pf tpn w = Inr (sample, Inr (s', rs), w')" "length rs = 1100000" "\<forall>k < length rs. rs ! k = of_nat k"
    unfolding publish_bench_def st(1) rbind_Inr it by blast
  have "rs = map of_nat [0..<1100000]" by (rule nth_equalityI) (use r in simp_all)
  with r(1) show "\<exists>sample st rs w'. publish_bench p pf tpn w = Inr (sample, Inr (st, rs), w') \<and> rs = map of_nat [0..<1100000]" by blast
  from hit_scn.bench_ok [where tpn = tpn and l = "''poll (hit)''" and w = w, OF assms le st(2)] obtain sample s' rs w' where
    r: "poll_hit p pf tpn w = Inr (sample, Inr (s', rs), w')" "length rs = 1100000" "\<forall>k < length rs. rs ! k = Ready 0xABCD"
    unfolding poll_hit_def st(1) rbind_Inr it by blast
  have "rs = replicate 1100000 (Ready 0xABCD)" by (rule nth_equalityI) (use r in simp_all)
  with r(1) show "\<exists>sample st rs w'. poll_hit p pf tpn w = Inr (sample, Inr (st, rs), w') \<and> rs = replicate 1100000 (Ready 0xABCD)" by blast
  from miss_scn.bench_ok [where tpn = tpn and l = "''poll (miss)''" and w = w, OF assms le st(2)] obtain sample s' rs w' where
    r: "poll_miss p pf tpn w = Inr (sample, Inr (s', rs), w')" "length rs = 1100000" "\<forall>k < length rs. rs ! k = Empty"
    unfolding poll_miss_def st(1) rbind_Inr it by blast
  have "rs = replicate 1100000 Empty" by (rule nth_equalityI) (use r in simp_all)
  with r(1) show "\<exists>sample st rs w'. poll_miss p pf tpn w = Inr (sample, Inr (st, rs), w') \<and> rs = replicate 1100000 Empty" by blast
qed

section \<open>cross\_core.rs\<close>

type_synonym Msg = "u64 list"

definition SAMPLES :: u64 where "SAMPLES = 1000000"
definition SEND_INTERVAL_NS :: u64 where "SEND_INTERVAL_NS = 1000"

datatype sender_pc = Sending | Flagging | SenderDone
datatype reader_pc = Reading | FoundEmpty | ReaderDone

record 'h hop =
  hp_queue :: "Msg Queue"
  hp_prod :: Producer
  hp_cons :: Consumer
  hp_done :: bool
  hp_hist :: "'h Histogram"
  hp_sender :: sender_pc
  hp_next :: u64
  hp_sent :: u64
  hp_reader :: reader_pc
  hp_recorded :: u64

definition hop_start :: "('w, 'h) platform \<Rightarrow> u64 \<Rightarrow> 'h hop res" where
  "hop_start pf t0 =
     rbind (Queue_new (replicate 6 0) CAP) (\<lambda>(q, prod).
     rbind (Histogram_new pf ''cross_core_hop_ns'') (\<lambda>hist.
       Inr \<lparr>hp_queue = q, hp_prod = prod, hp_cons = subscribe q SkipToLatest, hp_done = False, hp_hist = hist,
            hp_sender = Sending, hp_next = t0, hp_sent = 0, hp_reader = Reading, hp_recorded = 0\<rparr>))"

text \<open>A step of the sender; \<open>now\<close> is the reading that the spin loop tests, \<open>stamp\<close> the one that is
  sent. \<open>None\<close> means that the thread spins or has ended.\<close>

definition sender_step :: "profile \<Rightarrow> f64 \<Rightarrow> u64 \<Rightarrow> u64 \<Rightarrow> 'h hop \<Rightarrow> 'h hop res option" where
  "sender_step p tpn now stamp st =
     (case hp_sender st of
        Sending \<Rightarrow>
          if \<not> hp_sent st < SAMPLES then Some (Inr (st\<lparr>hp_sender := Flagging\<rparr>))
          else let next = hp_next st + f64_to_u64 (f64_mul (f64_of_u64 SEND_INTERVAL_NS) tpn) in
            if now < next then None
            else Some (rbind (publish p (hp_queue st) (hp_prod st) ((replicate 6 0)[0 := stamp])) (\<lambda>(q, prod, _).
              Inr (st\<lparr>hp_queue := q, hp_prod := prod, hp_next := next, hp_sent := hp_sent st + 1\<rparr>)))
      | Flagging \<Rightarrow> Some (Inr (st\<lparr>hp_done := True, hp_sender := SenderDone\<rparr>))
      | SenderDone \<Rightarrow> None)"

definition reader_step :: "profile \<Rightarrow> ('w, 'h) platform \<Rightarrow> f64 \<Rightarrow> u64 \<Rightarrow> 'h hop \<Rightarrow> 'h hop res option" where
  "reader_step p pf tpn now st =
     (case hp_reader st of
        Reading \<Rightarrow>
          if hp_recorded st < SAMPLES then
            Some (rbind (poll p (hp_queue st) (hp_cons st)) (\<lambda>(cons, r).
              case r of
                Ready msg \<Rightarrow>
                  let lat = to_nanos tpn (ticks_since now (msg ! 0)) in
                  rbind (Histogram_record_correct pf lat SEND_INTERVAL_NS (hp_hist st)) (\<lambda>hist.
                  rbind (plus_u p (hp_recorded st) 1) (\<lambda>recorded.
                    Inr (st\<lparr>hp_cons := cons, hp_hist := hist, hp_recorded := recorded\<rparr>)))
              | Empty \<Rightarrow> Inr (st\<lparr>hp_cons := cons, hp_reader := FoundEmpty\<rparr>)
              | Skipped lost new_cursor \<Rightarrow> Inr (st\<lparr>hp_cons := cons\<rparr>)
              | Halted cursor lost \<Rightarrow> Inl (Panic ''internal error: entered unreachable code: SkipToLatest never halts'')))
          else Some (Inr (st\<lparr>hp_reader := ReaderDone\<rparr>))
      | FoundEmpty \<Rightarrow> Some (Inr (st\<lparr>hp_reader := (if hp_done st then ReaderDone else Reading)\<rparr>))
      | ReaderDone \<Rightarrow> None)"

inductive hop_reach :: "profile \<Rightarrow> ('w, 'h) platform \<Rightarrow> f64 \<Rightarrow> 'h hop \<Rightarrow> bool" for p pf tpn where
  hop_begin: "hop_start pf t0 = Inr st \<Longrightarrow> hop_reach p pf tpn st"
| hop_send: "hop_reach p pf tpn st \<Longrightarrow> sender_step p tpn now stamp st = Some (Inr st') \<Longrightarrow> hop_reach p pf tpn st'"
| hop_read: "hop_reach p pf tpn st \<Longrightarrow> reader_step p pf tpn now st = Some (Inr st') \<Longrightarrow> hop_reach p pf tpn st'"

subsection \<open>What every interleaving keeps\<close>

lemma record_correct_ok:
  assumes "hdr_accepts pf"
  obtains h' where "Histogram_record_correct pf v i h = Inr h'"
proof -
  from assms obtain y where "hdr_record_correct pf v i (inner h) = Some y" unfolding hdr_accepts_def by blast
  with that show thesis by (simp add: Histogram_record_correct_def)
qed

definition hop_inv :: "'h hop \<Rightarrow> Msg list \<Rightarrow> bool" where
  "hop_inv st H \<longleftrightarrow>
     (\<exists>k. unat CAP = 2 ^ k \<and> ring_rel k (replicate 6 0) (hp_queue st) (hp_prod st) H \<and> consumer_ok k H (hp_cons st)) \<and>
     c_halted (hp_cons st) = None \<and> c_policy (hp_cons st) = SkipToLatest \<and>
     unat (hp_sent st) = length H \<and> length H \<le> 1000000 \<and> unat (hp_recorded st) \<le> unat (c_cursor (hp_cons st)) \<and>
     (hp_sender st \<noteq> Sending \<longrightarrow> length H = 1000000) \<and> (hp_done st \<longleftrightarrow> hp_sender st = SenderDone)"

lemma hop_invD:
  assumes "hop_inv st H"
  shows "unat (c_cursor (hp_cons st)) \<le> length H" "unat (hp_recorded st) \<le> length H" "length H + 1 < seq_bound"
    "poll p (hp_queue st) (hp_cons st) = poll_spec H 1024 (hp_cons st)"
proof -
  from assms obtain k where k: "unat CAP = 2 ^ k" "ring_rel k (replicate 6 0) (hp_queue st) (hp_prod st) H"
    "consumer_ok k H (hp_cons st)" and h: "c_halted (hp_cons st) = None" "length H \<le> 1000000"
    "unat (hp_recorded st) \<le> unat (c_cursor (hp_cons st))" by (auto simp: hop_inv_def)
  show n: "length H + 1 < seq_bound" using h(2) by simp
  show c: "unat (c_cursor (hp_cons st)) \<le> length H" using k(3) by (simp add: consumer_ok_def)
  then show "unat (hp_recorded st) \<le> length H" using h(3) by simp
  show "poll p (hp_queue st) (hp_cons st) = poll_spec H 1024 (hp_cons st)"
    using poll_eq_spec [OF k(2,3) n h(1), of p] k(1) by (simp add: CAP_def)
qed

lemma hop_start_inv:
  assumes "hop_start pf t0 = Inr st"
  shows "hop_inv st []"
proof -
  from assms obtain q pd h where q: "Queue_new (replicate 6 0) CAP = Inr (q, pd)"
    and st: "st = \<lparr>hp_queue = q, hp_prod = pd, hp_cons = subscribe q SkipToLatest, hp_done = False, hp_hist = h,
      hp_sender = Sending, hp_next = t0, hp_sent = 0, hp_reader = Reading, hp_recorded = 0\<rparr>"
    by (auto simp: hop_start_def rbind_eq_Inr)
  from Queue_new_rel [OF q] obtain k where k: "ring_rel k (replicate 6 0) q pd []" "unat CAP = 2 ^ k" by blast
  with subscribe_ok [OF k(1), of SkipToLatest] show ?thesis unfolding st hop_inv_def by (auto simp: subscribe_def)
qed

lemma sender_sends:
  assumes "hop_inv st H" and "hp_sender st = Sending" and "length H < 1000000"
  obtains q pd where "publish p (hp_queue st) (hp_prod st) ((replicate 6 0)[0 := stamp]) = Inr (q, pd, of_nat (length H))"
    and "hp_sent st < SAMPLES"
    and "\<And>t. hop_inv (st\<lparr>hp_queue := q, hp_prod := pd, hp_next := t, hp_sent := hp_sent st + 1\<rparr>) (H @ [(replicate 6 0)[0 := stamp]])"
proof -
  let ?msg = "(replicate 6 0)[0 := stamp]"
  from assms(1) obtain k where k: "unat CAP = 2 ^ k" "ring_rel k (replicate 6 0) (hp_queue st) (hp_prod st) H"
    "consumer_ok k H (hp_cons st)" and s: "unat (hp_sent st) = length H" by (auto simp: hop_inv_def)
  obtain q pd where q: "publish p (hp_queue st) (hp_prod st) ?msg = Inr (q, pd, of_nat (length H))"
    "ring_rel k (replicate 6 0) q pd (H @ [?msg])" by (rule publish_rel [OF k(2) hop_invD(3) [OF assms(1)]])
  have sent: "hp_sent st < SAMPLES" using assms(3) s by (simp add: SAMPLES_def word_less_nat_alt)
  have u: "unat (hp_sent st + 1) = Suc (length H)" using assms(3) s by (simp add: unat_plus_no_overflow)
  have "hop_inv (st\<lparr>hp_queue := q, hp_prod := pd, hp_next := t, hp_sent := hp_sent st + 1\<rparr>) (H @ [?msg])" for t
    using assms k(1,3) q(2) u unfolding hop_inv_def by (auto simp: consumer_ok_def intro!: exI [of _ k])
  with that q(1) sent show thesis by blast
qed

lemma sender_keeps:
  assumes "hop_inv st H" and "sender_step p tpn now stamp st = Some r"
  obtains st' H' where "r = Inr st'" and "hop_inv st' H'"
proof (cases "hp_sender st = Sending \<and> length H < 1000000")
  case True
  with sender_sends [OF assms(1), of p stamp] obtain q pd where
    q: "publish p (hp_queue st) (hp_prod st) ((replicate 6 0)[0 := stamp]) = Inr (q, pd, of_nat (length H))"
    "hp_sent st < SAMPLES"
    "\<And>t. hop_inv (st\<lparr>hp_queue := q, hp_prod := pd, hp_next := t, hp_sent := hp_sent st + 1\<rparr>) (H @ [(replicate 6 0)[0 := stamp]])"
    by blast
  then obtain t where "r = Inr (st\<lparr>hp_queue := q, hp_prod := pd, hp_next := t, hp_sent := hp_sent st + 1\<rparr>)"
    using assms(2) True by (auto simp: sender_step_def Let_def split: if_splits)
  with that q(3) show thesis by blast
next
  case False
  with assms have len: "length H = 1000000" by (auto simp: hop_inv_def)
  moreover have "unat (hp_sent st) = length H" using assms(1) by (simp add: hop_inv_def)
  ultimately have "\<not> hp_sent st < SAMPLES" by (simp add: SAMPLES_def word_less_nat_alt)
  with assms len that [of _ H] show thesis
    by (cases "hp_sender st") (auto simp: sender_step_def hop_inv_def)
qed

lemma reader_keeps:
  assumes "hop_inv st H" and "hdr_accepts pf" and "reader_step p pf tpn now st = Some r"
  obtains st' where "r = Inr st'" and "hop_inv st' H"
proof (cases "hp_reader st = Reading \<and> hp_recorded st < SAMPLES")
  case True
  note d = hop_invD [OF assms(1)]
  from assms(1) obtain k where k: "unat CAP = 2 ^ k" "ring_rel k (replicate 6 0) (hp_queue st) (hp_prod st) H"
    "consumer_ok k H (hp_cons st)" and h: "c_halted (hp_cons st) = None" "c_policy (hp_cons st) = SkipToLatest"
    "unat (hp_recorded st) \<le> unat (c_cursor (hp_cons st))" by (auto simp: hop_inv_def)
  have ok: "consumer_ok k H c'" if "poll_spec H 1024 (hp_cons st) = Inr (c', x)" for c' x
    using poll_ok [OF k(2,3) d(3)] that d(4) by metis
  have rec: "unat (hp_recorded st) + 1 < 2 ^ 64" using d(2,3) by simp
  obtain hist where hist: "Histogram_record_correct pf (to_nanos tpn (ticks_since now (H ! unat (c_cursor (hp_cons st)) ! 0)))
      SEND_INTERVAL_NS (hp_hist st) = Inr hist"
    by (rule record_correct_ok [OF assms(2)])
  have live: "unat (of_nat (length H) :: u64) = length H" using d(3) by (intro unat_of_nat_u64) simp
  consider "unat (c_cursor (hp_cons st)) = length H"
    | "unat (c_cursor (hp_cons st)) < length H" "length H \<le> unat (c_cursor (hp_cons st)) + 1024"
    | "unat (c_cursor (hp_cons st)) + 1024 < length H" using d(1) by linarith
  then show thesis
  proof cases
    case 1
    with assms True d(4) that show thesis by (auto simp: reader_step_def poll_spec_def Let_def hop_inv_def)
  next
    case 2
    let ?c = "(hp_cons st)\<lparr>c_cursor := c_cursor (hp_cons st) + 1\<rparr>"
    have u: "unat (c_cursor (hp_cons st) + 1) = Suc (unat (c_cursor (hp_cons st)))" "unat (hp_recorded st + 1) = Suc (unat (hp_recorded st))"
      using 2 d by (simp_all add: unat_plus_no_overflow)
    have sp: "poll_spec H 1024 (hp_cons st) = Inr (?c, Ready (H ! unat (c_cursor (hp_cons st))))"
      using 2 by (simp add: poll_spec_def)
    with assms(3) True d(4) hist rec have "r = Inr (st\<lparr>hp_cons := ?c, hp_hist := hist, hp_recorded := hp_recorded st + 1\<rparr>)"
      by (simp add: reader_step_def Let_def plus_u_ok)
    moreover have "hop_inv (st\<lparr>hp_cons := ?c, hp_hist := hist, hp_recorded := hp_recorded st + 1\<rparr>) H"
      using assms(1) k ok [OF sp] u unfolding hop_inv_def by auto
    ultimately show thesis by (rule that)
  next
    case 3
    let ?c = "(hp_cons st)\<lparr>c_cursor := of_nat (length H)\<rparr>"
    have sp: "poll_spec H 1024 (hp_cons st) = Inr (?c, Skipped (of_nat (length H - unat (c_cursor (hp_cons st)))) (of_nat (length H)))"
      using 3 h(2) by (simp add: poll_spec_def Let_def)
    with assms(3) True d(4) have "r = Inr (st\<lparr>hp_cons := ?c\<rparr>)" by (simp add: reader_step_def)
    moreover have "hop_inv (st\<lparr>hp_cons := ?c\<rparr>) H"
      using assms(1) k ok [OF sp] live d(2) unfolding hop_inv_def by auto
    ultimately show thesis by (rule that)
  qed
next
  case False
  with assms that show thesis by (cases "hp_reader st") (auto simp: reader_step_def hop_inv_def)
qed

lemma hop_reach_inv:
  assumes "hop_reach p pf tpn st" and "hdr_accepts pf"
  obtains H where "hop_inv st H"
  using assms
proof (induction arbitrary: thesis rule: hop_reach.induct)
  case (hop_begin t0 st)
  then show ?case using hop_start_inv by blast
next
  case (hop_send st now stamp st')
  then show ?case using sender_keeps by (metis Inr_inject)
next
  case (hop_read st now st')
  then show ?case using reader_keeps by (metis Inr_inject)
qed

text \<open>
  Under every interleaving of the two threads and all counter readings, no step of the cross-core
  benchmark panics; in particular its \<open>unreachable!\<close> is unreachable. The reader never records more
  samples than were sent, and the flag is up only after all of them were.
\<close>

theorem cross_core_safe:
  assumes "hop_reach p pf tpn st" and "hdr_accepts pf"
  shows "sender_step p tpn now stamp st \<noteq> Some (Inl f)" and "reader_step p pf tpn now st \<noteq> Some (Inl f)"
    and "hp_recorded st \<le> hp_sent st" and "hp_sent st \<le> SAMPLES" and "hp_done st \<Longrightarrow> hp_sent st = SAMPLES"
proof -
  obtain H where H: "hop_inv st H" using hop_reach_inv [OF assms] .
  then have s: "unat (hp_sent st) = length H" "length H \<le> 1000000" "hp_done st \<Longrightarrow> length H = 1000000"
    by (auto simp: hop_inv_def)
  show "sender_step p tpn now stamp st \<noteq> Some (Inl f)" using sender_keeps [OF H] by (metis Inl_Inr_False)
  show "reader_step p pf tpn now st \<noteq> Some (Inl f)" using reader_keeps [OF H assms(2)] by (metis Inl_Inr_False)
  show "hp_recorded st \<le> hp_sent st" using hop_invD(2) [OF H] s(1) by (simp add: word_le_nat_alt)
  show "hp_sent st \<le> SAMPLES" using s by (simp add: SAMPLES_def word_le_nat_alt)
  show "hp_done st \<Longrightarrow> hp_sent st = SAMPLES" using s by (simp add: SAMPLES_def word_unat_eq_iff)
qed

subsection \<open>The reader may stop early\<close>

definition hop_lockstep :: "nat \<Rightarrow> 'h hop \<Rightarrow> bool" where
  "hop_lockstep n st \<longleftrightarrow> (\<exists>H. hop_inv st H \<and> length H = n) \<and> unat (c_cursor (hp_cons st)) = n \<and> unat (hp_recorded st) = n \<and>
     hp_sender st = Sending \<and> hp_reader st = Reading"

lemma lockstep_advances:
  assumes "hop_lockstep n st" and "n < 1000000" and "hdr_accepts pf"
  obtains mid st' where "sender_step p tpn (- 1) 0 st = Some (Inr mid)" and "reader_step p pf tpn 0 mid = Some (Inr st')"
    and "hop_lockstep (Suc n) st'"
proof -
  from assms(1) obtain H where H: "hop_inv st H" "length H = n" "unat (c_cursor (hp_cons st)) = n" "unat (hp_recorded st) = n"
    "hp_sender st = Sending" "hp_reader st = Reading" by (auto simp: hop_lockstep_def)
  have "length H < 1000000" using H(2) assms(2) by simp
  with sender_sends [OF H(1,5), of p 0] obtain q pd where
    q: "publish p (hp_queue st) (hp_prod st) ((replicate 6 0)[0 := 0]) = Inr (q, pd, of_nat (length H))"
    "hp_sent st < SAMPLES"
    "\<And>t. hop_inv (st\<lparr>hp_queue := q, hp_prod := pd, hp_next := t, hp_sent := hp_sent st + 1\<rparr>) (H @ [(replicate 6 0)[0 := 0]])"
    by blast
  let ?t = "hp_next st + f64_to_u64 (f64_mul (f64_of_u64 SEND_INTERVAL_NS) tpn)"
  let ?mid = "st\<lparr>hp_queue := q, hp_prod := pd, hp_next := ?t, hp_sent := hp_sent st + 1\<rparr>"
  have s: "sender_step p tpn (- 1) 0 st = Some (Inr ?mid)"
    using q(1,2) H(5) by (simp add: sender_step_def Let_def word_not_simps(1))
  note d = hop_invD [OF q(3) [of ?t]]
  have "hp_recorded st < SAMPLES" using H(4) assms(2) by (simp add: SAMPLES_def word_less_nat_alt)
  moreover obtain hist where "Histogram_record_correct pf (to_nanos tpn (ticks_since 0 ((H @ [(replicate 6 0)[0 := 0]]) ! n ! 0)))
      SEND_INTERVAL_NS (hp_hist st) = Inr hist"
    by (rule record_correct_ok [OF assms(3)])
  moreover have "plus_u p (hp_recorded st) 1 = Inr (hp_recorded st + 1)" using H(4) assms(2) by (intro plus_u_ok) simp
  ultimately have r: "reader_step p pf tpn 0 ?mid = Some (Inr (?mid\<lparr>hp_cons := (hp_cons st)\<lparr>c_cursor := c_cursor (hp_cons st) + 1\<rparr>,
      hp_hist := hist, hp_recorded := hp_recorded st + 1\<rparr>))"
    using d(4) [of p] H(2,3,6) by (simp add: reader_step_def poll_spec_def Let_def)
  from reader_keeps [OF q(3) assms(3) r] have "hop_inv (?mid\<lparr>hp_cons := (hp_cons st)\<lparr>c_cursor := c_cursor (hp_cons st) + 1\<rparr>,
      hp_hist := hist, hp_recorded := hp_recorded st + 1\<rparr>) (H @ [(replicate 6 0)[0 := 0]])" by (metis Inr_inject)
  moreover have "unat (c_cursor (hp_cons st) + 1) = Suc n" "unat (hp_recorded st + 1) = Suc n"
    using H(3,4) assms(2) by (simp_all add: unat_plus_no_overflow)
  ultimately have "hop_lockstep (Suc n) (?mid\<lparr>hp_cons := (hp_cons st)\<lparr>c_cursor := c_cursor (hp_cons st) + 1\<rparr>,
      hp_hist := hist, hp_recorded := hp_recorded st + 1\<rparr>)"
    using H(2,5,6) unfolding hop_lockstep_def by (auto intro!: exI [of _ "H @ [(replicate 6 0)[0 := 0]]"])
  with that s r show thesis by blast
qed

lemma lockstep_reach:
  assumes "hdr_accepts pf"
  shows "n \<le> 1000000 \<Longrightarrow> \<exists>st. hop_reach p pf tpn st \<and> hop_lockstep n st"
proof (induction n)
  case 0
  have "is_power_of_two 1024" by code_simp
  with assms obtain st where st: "hop_start pf 0 = Inr st"
    by (auto simp: hop_start_def Queue_new_def CAP_def Let_def Histogram_new_def hdr_accepts_def)
  then have "hop_lockstep 0 st"
    using hop_start_inv [OF st] hop_invD(1) [OF hop_start_inv [OF st]] by (auto simp: hop_lockstep_def hop_start_def rbind_eq_Inr)
  with hop_begin [OF st] show ?case by blast
next
  case (Suc n)
  then obtain st where st: "hop_reach p pf tpn st" "hop_lockstep n st" by auto
  from lockstep_advances [OF st(2) _ assms, of p tpn] Suc.prems obtain mid st' where
    m: "sender_step p tpn (- 1) 0 st = Some (Inr mid)" "reader_step p pf tpn 0 mid = Some (Inr st')" "hop_lockstep (Suc n) st'" by auto
  from hop_read [OF hop_send [OF st(1) m(1)] m(2)] m(3) show ?case by blast
qed

text \<open>
  The reader can stop before it has drained the ring, although it was never lapped: when it finds
  the ring empty just before the last message is sent, and reads the flag just after it was raised,
  the last sample is not recorded.
\<close>

theorem cross_core_may_miss_last:
  assumes "hdr_accepts pf"
  shows "\<exists>st. hop_reach p pf tpn st \<and> hp_sender st = SenderDone \<and> hp_reader st = ReaderDone \<and> hp_sent st = SAMPLES \<and>
    hp_recorded st = SAMPLES - 1 \<and> c_cursor (hp_cons st) = SAMPLES - 1"
proof -
  from lockstep_reach [OF assms, of 999999 p tpn] obtain s0 H where s0: "hop_reach p pf tpn s0" "hop_inv s0 H" "length H = 999999"
    "unat (c_cursor (hp_cons s0)) = 999999" "unat (hp_recorded s0) = 999999" "hp_sender s0 = Sending" "hp_reader s0 = Reading"
    by (auto simp: hop_lockstep_def)
  have "hp_recorded s0 < SAMPLES" using s0(5) by (simp add: SAMPLES_def word_less_nat_alt)
  with hop_invD(4) [OF s0(2), of p] s0 have "reader_step p pf tpn 0 s0 = Some (Inr (s0\<lparr>hp_reader := FoundEmpty\<rparr>))"
    by (simp add: reader_step_def poll_spec_def Let_def)
  note r1 = hop_read [OF s0(1) this]
  let ?s1 = "s0\<lparr>hp_reader := FoundEmpty\<rparr>"
  have i1: "hop_inv ?s1 H" using s0(2) by (simp add: hop_inv_def)
  have "hp_sender ?s1 = Sending" "length H < 1000000" using s0(3,6) by simp_all
  from sender_sends [OF i1 this, of p 0] obtain q pd where
    "publish p (hp_queue ?s1) (hp_prod ?s1) ((replicate 6 0)[0 := 0]) = Inr (q, pd, of_nat (length H))" "hp_sent ?s1 < SAMPLES" .
  then have q: "publish p (hp_queue s0) (hp_prod s0) ((replicate 6 0)[0 := 0]) = Inr (q, pd, of_nat (length H))"
    "hp_sent s0 < SAMPLES" by simp_all
  let ?t = "hp_next s0 + f64_to_u64 (f64_mul (f64_of_u64 SEND_INTERVAL_NS) tpn)"
  let ?s2 = "?s1\<lparr>hp_queue := q, hp_prod := pd, hp_next := ?t, hp_sent := hp_sent s0 + 1\<rparr>"
  have "sender_step p tpn (- 1) 0 ?s1 = Some (Inr ?s2)"
    using q s0(6) by (simp add: sender_step_def Let_def word_not_simps(1))
  note r2 = hop_send [OF r1 this]
  have "unat (hp_sent s0) = 999999" using s0(2,3) by (simp add: hop_inv_def)
  then have sent: "hp_sent s0 + 1 = SAMPLES" by (simp add: SAMPLES_def word_unat_eq_iff unat_plus_no_overflow)
  have "sender_step p tpn 0 0 ?s2 = Some (Inr (?s2\<lparr>hp_sender := Flagging\<rparr>))" using sent s0(6) by (simp add: sender_step_def)
  note r3 = hop_send [OF r2 this]
  let ?s4 = "?s2\<lparr>hp_sender := Flagging\<rparr>\<lparr>hp_done := True, hp_sender := SenderDone\<rparr>"
  have "sender_step p tpn 0 0 (?s2\<lparr>hp_sender := Flagging\<rparr>) = Some (Inr ?s4)" by (simp add: sender_step_def)
  note r4 = hop_send [OF r3 this]
  have "reader_step p pf tpn 0 ?s4 = Some (Inr (?s4\<lparr>hp_reader := ReaderDone\<rparr>))" by (simp add: reader_step_def)
  note r5 = hop_read [OF r4 this]
  have "hp_recorded s0 = SAMPLES - 1" "c_cursor (hp_cons s0) = SAMPLES - 1" using s0(4,5) by (simp_all add: SAMPLES_def word_unat_eq_iff)
  with r5 sent show ?thesis by (intro exI [of _ "?s4\<lparr>hp_reader := ReaderDone\<rparr>"] conjI) simp_all
qed

end
