(* ===== verification/Alloc_Workload.thy ===== *)
theory Alloc_Workload
  imports Feed Ipc_Props
begin

text \<open>
  The workloads of the two allocation proofs, \<open>matcher/examples/alloc_proof.rs\<close> and
  \<open>ipc/examples/alloc_proof.rs\<close>. The proofs count the heap blocks of a steady state; what they say
  about the hot path rests on the workload being the one their comments describe. The theorems
  here say that it is: scenario A of the matcher keeps one level at its full depth, each step
  cancelling the oldest order and adding one behind the others; scenario B empties the book in every
  step; the producer and the consumer of the ring stay in lockstep.
\<close>

section \<open>The matcher's scenarios\<close>

definition INSTR :: u32 where "INSTR = 1"
definition PRICE :: u64 where "PRICE = 1000"
definition DEPTH :: u64 where "DEPTH = 256"

definition new_req :: "Side \<Rightarrow> u64 \<Rightarrow> u64 \<Rightarrow> u64 \<Rightarrow> OrderRequest" where
  "new_req side price qty seed =
     \<lparr>rq_price = price, rq_quantity = qty, rq_origin_ts = 0, rq_instrument_id = INSTR, rq_side = side,
      rq_order_type = Limit, rq_tif = GTC, rq_request_type = RqNew, rq_intent_hash = hash_from_seed seed\<rparr>"

definition cancel_req :: "u64 \<Rightarrow> OrderRequest" where
  "cancel_req seed = (new_req Bid 0 0 seed)\<lparr>rq_request_type := RqCancel\<rparr>"

definition workload_engine :: "Engine res" where
  "workload_engine =
     rbind (add_instrument Engine_new INSTR 65536) (\<lambda>(e, r).
       case r of Inr _ \<Rightarrow> Inr e | Inl _ \<Rightarrow> Inl (Panic ''add_instrument''))"

record St =
  st_engine :: Engine
  st_buf :: "OrderEvent list"
  st_seed :: u64

text \<open>\<open>st.buf.clear()\<close> and a call of \<open>process\<close>.\<close>

definition st_process :: "profile \<Rightarrow> OrderRequest \<Rightarrow> St \<Rightarrow> St res" where
  "st_process p r st =
     rbind (Engine_process Vec_emit p (st_engine st) r []) (\<lambda>(e, buf). Inr (st\<lparr>st_engine := e, st_buf := buf\<rparr>))"

definition st_next_seed :: "profile \<Rightarrow> St \<Rightarrow> St res" where
  "st_next_seed p st = rbind (plus_u p (st_seed st) 1) (\<lambda>n. Inr (st\<lparr>st_seed := n\<rparr>))"

definition fill_a :: "profile \<Rightarrow> St \<Rightarrow> St res" where
  "fill_a p st = rbind (st_process p (new_req Bid PRICE 100 (st_seed st)) st) (st_next_seed p)"

definition step_a :: "profile \<Rightarrow> St \<Rightarrow> St res" where
  "step_a p st =
     rbind (minus_u p (st_seed st) DEPTH) (\<lambda>cancel_seed.
     rbind (st_process p (cancel_req cancel_seed) st) (\<lambda>st.
     rbind (st_process p (new_req Bid PRICE 100 (st_seed st)) st) (st_next_seed p)))"

definition step_b :: "profile \<Rightarrow> St \<Rightarrow> St res" where
  "step_b p st =
     rbind (st_process p (new_req Ask PRICE 1 (st_seed st)) st) (\<lambda>st.
     rbind (st_next_seed p st) (\<lambda>st.
     rbind (st_process p ((new_req Bid PRICE 1 (st_seed st))\<lparr>rq_tif := IOC\<rparr>) st) (st_next_seed p)))"

fun repeat_step :: "nat \<Rightarrow> ('s \<Rightarrow> 's res) \<Rightarrow> 's \<Rightarrow> 's res" where
  "repeat_step 0 f s = Inr s"
| "repeat_step (Suc n) f s = rbind (f s) (repeat_step n f)"

definition scenario_a :: "profile \<Rightarrow> nat \<Rightarrow> St res" where
  "scenario_a p n =
     rbind workload_engine (\<lambda>e.
     rbind (repeat_step (unat DEPTH) (fill_a p) \<lparr>st_engine = e, st_buf = [], st_seed = 0\<rparr>) (repeat_step n (step_a p)))"

definition scenario_b :: "profile \<Rightarrow> nat \<Rightarrow> St res" where
  "scenario_b p n =
     rbind workload_engine (\<lambda>e. repeat_step n (step_b p) \<lparr>st_engine = e, st_buf = [], st_seed = 0\<rparr>)"

section \<open>One call on the abstract exchange\<close>

lemma req_simps [simp]:
  "rq_request_type (new_req s pr q h) = RqNew" "rq_request_type (cancel_req h) = RqCancel"
  "rq_instrument_id (new_req s pr q h) = 1" "rq_instrument_id (cancel_req h) = 1"
  "rq_side (new_req s pr q h) = s" "rq_price (new_req s pr q h) = pr" "rq_quantity (new_req s pr q h) = q"
  "rq_tif (new_req s pr q h) = GTC" "rq_tif (cancel_req h) = GTC" "rq_quantity (cancel_req h) = 0"
  "rq_intent_hash (new_req s pr q h) = hash_from_seed h" "rq_intent_hash (cancel_req h) = hash_from_seed h"
  "rq_origin_ts (new_req s pr q h) = 0" "rq_origin_ts (cancel_req h) = 0"
  by (simp_all add: new_req_def cancel_req_def INSTR_def)

text \<open>A call that the build can carry does to the engine what the abstract exchange does.\<close>

lemma process_by_exchange:
  assumes "engine_inv p e" and "exchange_allows p (exchange_of e, []) (Process req)"
    and "exchange_step (exchange_of e, []) (Process req) = (X, evs)"
  shows "\<exists>e'. Engine_process Vec_emit p e req [] = Inr (e', evs) \<and> engine_inv p e' \<and> exchange_of e' = X"
  using engine_step_simulates [OF assms(1,2)] assms(3) by auto

text \<open>The exchange with the given bids and asks in its one market.\<close>

definition one_market :: "Order list \<Rightarrow> Order list \<Rightarrow> u64 \<Rightarrow> exchange" where
  "one_market bids asks n =
     \<lparr>ex_market = [1 \<mapsto> \<lparr>mk_capacity = 65536, mk_queue = (\<lambda>s. case s of Bid \<Rightarrow> bids | Ask \<Rightarrow> asks)\<rparr>], ex_next_id = n\<rparr>"

lemma side_fun_upd:
  "(\<lambda>s. case s of Bid \<Rightarrow> a | Ask \<Rightarrow> b)(Bid := x) = (\<lambda>s. case s of Bid \<Rightarrow> x | Ask \<Rightarrow> b)"
  "(\<lambda>s. case s of Bid \<Rightarrow> a | Ask \<Rightarrow> b)(Ask := x) = (\<lambda>s. case s of Bid \<Rightarrow> a | Ask \<Rightarrow> x)"
  by (auto simp: fun_eq_iff split: Side.split)

lemma filter_side:
  "(\<lambda>s. filter P (case s of Bid \<Rightarrow> a | Ask \<Rightarrow> b)) = (\<lambda>s. case s of Bid \<Rightarrow> filter P a | Ask \<Rightarrow> filter P b)"
  by (auto simp: fun_eq_iff split: Side.split)

text \<open>The order a bid of the workload becomes; order ids run with the seeds.\<close>

definition bid_order :: "nat \<Rightarrow> Order" where
  "bid_order k = resting_order (new_req Bid PRICE 100 (of_nat k)) (of_nat k) 100"

lemma bid_order_simps [simp]:
  "o_intent_hash (bid_order k) = hash_from_seed (of_nat k)" "o_price (bid_order k) = 1000"
  "o_quantity (bid_order k) = 100" "o_order_id (bid_order k) = OrderId (of_nat k)"
  by (simp_all add: bid_order_def resting_order_def PRICE_def new_req_def)

lemma volume_bids: "volume (map bid_order ks) = 100 * length ks"
  by (induction ks) simp_all

lemma seed_neq: "a < 18446744073709551616 \<Longrightarrow> b < 18446744073709551616 \<Longrightarrow> (of_nat a :: u64) = of_nat b \<longleftrightarrow> a = b"
  using unat_of_nat_u64 by metis

lemma older_seed:
  assumes "k < b" and "b < 2 ^ 63"
  shows "(of_nat k :: u64) \<noteq> of_nat b"
proof -
  have "k < 18446744073709551616" "b < 18446744073709551616" using assms by simp_all
  with seed_neq [of k b] assms(1) show ?thesis by simp
qed

lemma PRICE_nonzero [simp]: "PRICE \<noteq> 0"
  by (simp add: PRICE_def)

text \<open>A bid that rests behind the bids of its price.\<close>

lemma exchange_bid:
  assumes "a \<le> b" and "b - a < 65536" and "b < 2 ^ 63"
  shows "exchange_step (one_market (map bid_order [a..<b]) [] (of_nat b), []) (Process (new_req Bid PRICE 100 (of_nat b))) =
    (one_market (map bid_order [a..<Suc b]) [] (of_nat (Suc b)), [EvNew (bid_order b)])"
proof -
  have h: "hash_from_seed (of_nat b) \<notin> o_intent_hash ` set (map bid_order [a..<b])"
    using older_seed [OF _ assms(3)] by fastforce
  have q: "enqueue Bid (bid_order b) (map bid_order [a..<b]) = map bid_order [a..<Suc b]"
    using assms(1) by (subst enqueue_same_price) auto
  show ?thesis
    using h q assms(2)
    by (simp add: one_market_def exchange_new_order_def market_trade_def market_rest_def market_orders_def Let_def
        side_fun_upd bid_order_def [symmetric] del: upt_Suc)
qed

text \<open>Cancelling the oldest bid.\<close>

lemma exchange_cancel_oldest:
  assumes "a < b" and "b < 2 ^ 63"
  shows "exchange_step (one_market (map bid_order [a..<b]) [] n, []) (Process (cancel_req (of_nat a))) =
    (one_market (map bid_order [Suc a..<b]) [] n, [EvCancel (of_nat a) 0 (hash_from_seed (of_nat a))])"
proof -
  let ?h = "hash_from_seed (of_nat a)"
  have split: "[a..<b] = a # [Suc a..<b]" using assms(1) by (simp add: upt_conv_Cons)
  have "(of_nat k :: u64) \<noteq> of_nat a" if "k \<in> set [Suc a..<b]" for k
  proof -
    have "a < k" "k < 2 ^ 63" using that assms(2) by (simp_all add: less_trans)
    from older_seed [OF this] show ?thesis by simp
  qed
  then have "filter (\<lambda>y. o_intent_hash y \<noteq> ?h) (map bid_order [Suc a..<b]) = map bid_order [Suc a..<b]"
    by (simp add: filter_id_conv)
  then have "filter (\<lambda>y. o_intent_hash y \<noteq> ?h) (map bid_order [a..<b]) = map bid_order [Suc a..<b]"
    by (simp add: split)
  then show ?thesis
    by (simp add: one_market_def exchange_cancel_def market_cancel_def market_orders_def split filter_side)
qed

section \<open>The scenarios on the engine\<close>

definition market_is :: "profile \<Rightarrow> Order list \<Rightarrow> Order list \<Rightarrow> nat \<Rightarrow> St \<Rightarrow> bool" where
  "market_is p bids asks n st \<longleftrightarrow> engine_inv p (st_engine st) \<and>
     exchange_of (st_engine st) = one_market bids asks (of_nat n) \<and> st_seed st = of_nat n"

lemma market_is_book:
  assumes "market_is p bids asks n st"
  obtains b where "Engine_book (st_engine st) 1 = Some b" and "resting b Bid = bids" and "resting b Ask = asks"
proof -
  have "map_option market_of (map_of (en_books (st_engine st)) 1) = ex_market (one_market bids asks (of_nat n)) 1"
    using assms exchange_of_simps(2) [of "st_engine st" 1] by (simp add: market_is_def)
  then obtain b where b: "map_of (en_books (st_engine st)) 1 = Some b"
    "market_of b = \<lparr>mk_capacity = 65536, mk_queue = (\<lambda>s. case s of Bid \<Rightarrow> bids | Ask \<Rightarrow> asks)\<rparr>"
    by (auto simp: one_market_def)
  have "resting b Bid = bids" "resting b Ask = asks" using arg_cong [OF b(2), of mk_queue] by simp_all
  with b(1) that show thesis by (simp add: Engine_book_def)
qed

lemma st_process_ok:
  assumes "market_is p bids asks n st" and "n + 1 < 2 ^ 63" and "rq_instrument_id req = 1" and "rq_tif req \<noteq> FOK"
    and "rq_request_type req \<noteq> RqAmend" and "volume bids + volume asks + unat (rq_quantity req) < 2 ^ 64"
    and "exchange_step (one_market bids asks (of_nat n), []) (Process req) = (one_market bids' asks' (of_nat m), evs)"
  shows "\<exists>e'. st_process p req st = Inr (st\<lparr>st_engine := e', st_buf := evs\<rparr>) \<and>
    engine_inv p e' \<and> exchange_of e' = one_market bids' asks' (of_nat m)"
proof -
  have u: "unat (of_nat n :: u64) = n" using assms(2) by (intro unat_of_nat_u64) simp
  have "exchange_allows p (exchange_of (st_engine st), []) (Process req)"
    using assms(1-6) u by (simp add: market_is_def one_market_def market_orders_def)
  moreover have "engine_inv p (st_engine st)" "exchange_of (st_engine st) = one_market bids asks (of_nat n)"
    using assms(1) by (simp_all add: market_is_def)
  ultimately obtain e' where "Engine_process Vec_emit p (st_engine st) req [] = Inr (e', evs)" "engine_inv p e'"
    "exchange_of e' = one_market bids' asks' (of_nat m)"
    using process_by_exchange [of p "st_engine st" req] assms(7) by (metis (no_types))
  then show ?thesis by (auto simp: st_process_def)
qed

lemma next_seed:
  assumes "st_seed st = of_nat n" and "n + 1 < 2 ^ 63"
  shows "st_next_seed p st = Inr (st\<lparr>st_seed := of_nat (Suc n)\<rparr>)"
proof -
  have "unat (of_nat n :: u64) = n" using assms(2) by (intro unat_of_nat_u64) simp
  then have "plus_u p (of_nat n :: u64) 1 = Inr (of_nat n + 1)" using assms(2) by (intro plus_u_ok) simp
  with assms(1) show ?thesis by (simp add: st_next_seed_def add.commute)
qed

lemma add_bid:
  assumes "market_is p (map bid_order [a..<b]) [] b st" and "a \<le> b" and "b - a < 65536" and "b + 1 < 2 ^ 63"
  obtains st' where "rbind (st_process p (new_req Bid PRICE 100 (st_seed st)) st) (st_next_seed p) = Inr st'"
    and "market_is p (map bid_order [a..<Suc b]) [] (Suc b) st'" and "st_buf st' = [EvNew (bid_order b)]"
proof -
  have seed: "st_seed st = of_nat b" using assms(1) by (simp add: market_is_def)
  have "b < 2 ^ 63" using assms(4) by simp
  note ex = exchange_bid [OF assms(2,3) this]
  have "volume (map bid_order [a..<b]) + volume [] + unat (rq_quantity (new_req Bid PRICE 100 (of_nat b))) < 2 ^ 64"
    using assms(3) by (simp add: volume_bids)
  from st_process_ok [OF assms(1,4) _ _ _ this ex] obtain e' where
    e': "st_process p (new_req Bid PRICE 100 (of_nat b)) st = Inr (st\<lparr>st_engine := e', st_buf := [EvNew (bid_order b)]\<rparr>)"
    "engine_inv p e'" "exchange_of e' = one_market (map bid_order [a..<Suc b]) [] (of_nat (Suc b))" by auto
  with that next_seed [OF _ assms(4), of "st\<lparr>st_engine := e', st_buf := [EvNew (bid_order b)]\<rparr>" p] seed show thesis
    by (simp add: market_is_def del: upt_Suc)
qed

lemma cancel_oldest:
  assumes "market_is p (map bid_order [a..<b]) [] b st" and "a < b" and "b - a < 65536" and "b + 1 < 2 ^ 63"
  obtains st' where "st_process p (cancel_req (of_nat a)) st = Inr st'"
    and "market_is p (map bid_order [Suc a..<b]) [] b st'"
    and "st_buf st' = [EvCancel (of_nat a) 0 (hash_from_seed (of_nat a))]"
proof -
  have "b < 2 ^ 63" using assms(4) by simp
  note ex = exchange_cancel_oldest [OF assms(2) this, of "of_nat b"]
  have "volume (map bid_order [a..<b]) + volume [] + unat (rq_quantity (cancel_req (of_nat a))) < 2 ^ 64"
    using assms(3) by (simp add: volume_bids)
  from st_process_ok [OF assms(1,4) _ _ _ this ex] assms(1) that show thesis by (auto simp: market_is_def)
qed

lemma workload_start:
  obtains e where "workload_engine = Inr e" and "market_is p [] [] 0 \<lparr>st_engine = e, st_buf = [], st_seed = 0\<rparr>"
proof -
  have "(65536 :: u32) \<noteq> u32_MAX" by simp
  from add_refines [where p = p, OF engine_inv_new this, of 1] obtain e r where
    e: "add_instrument Engine_new 1 65536 = Inr (e, r)" "engine_inv p e" "exchange_of e = exchange_add exchange_new 1 65536"
    by (auto simp: exchange_of_new)
  have x: "exchange_add exchange_new 1 65536 = one_market [] [] 0"
    by (auto simp: exchange_add_def exchange_new_def MAX_CAPACITY_def one_market_def fun_eq_iff split: Side.split)
  have "e \<noteq> Engine_new"
  proof
    assume "e = Engine_new"
    with e(3) x have "exchange_new = one_market [] [] 0" by (simp add: exchange_of_new)
    then show False by (auto simp: exchange_new_def one_market_def fun_eq_iff dest: spec [of _ 1])
  qed
  then have "r = Inr ()" using e(1) by (auto simp: add_instrument_def rbind_eq_Inr split: if_splits)
  with e x that show thesis by (simp add: workload_engine_def INSTR_def market_is_def)
qed

lemma fill_level:
  "market_is p (map bid_order [0..<b]) [] b st \<Longrightarrow> b + n < 65536 \<Longrightarrow>
   \<exists>st'. repeat_step n (fill_a p) st = Inr st' \<and> market_is p (map bid_order [0..<b + n]) [] (b + n) st'"
proof (induction n arbitrary: b st)
  case (Suc n)
  from add_bid [OF Suc.prems(1)] Suc.prems(2) obtain st1 where st1: "fill_a p st = Inr st1"
    "market_is p (map bid_order [0..<Suc b]) [] (Suc b) st1" by (auto simp: fill_a_def simp del: upt_Suc)
  from Suc.IH [OF st1(2)] Suc.prems(2) st1(1) show ?case by (simp del: upt_Suc)
qed simp

text \<open>One step of scenario A on a level of full depth.\<close>

lemma step_a_ok:
  assumes "market_is p (map bid_order [n..<n + 256]) [] (n + 256) st" and "n + 257 < 2 ^ 63"
  obtains mid st' where "st_process p (cancel_req (of_nat n)) st = Inr mid"
    and "st_buf mid = [EvCancel (of_nat n) 0 (hash_from_seed (of_nat n))]"
    and "market_is p (map bid_order [Suc n..<n + 256]) [] (n + 256) mid"
    and "step_a p st = Inr st'" and "st_buf st' = [EvNew (bid_order (n + 256))]"
    and "market_is p (map bid_order [Suc n..<Suc n + 256]) [] (Suc n + 256) st'"
proof -
  from cancel_oldest [OF assms(1)] assms(2) obtain mid where mid: "st_process p (cancel_req (of_nat n)) st = Inr mid"
    "market_is p (map bid_order [Suc n..<n + 256]) [] (n + 256) mid"
    "st_buf mid = [EvCancel (of_nat n) 0 (hash_from_seed (of_nat n))]" by (auto simp del: upt_Suc)
  from add_bid [OF mid(2)] assms(2) obtain st' where
    st': "rbind (st_process p (new_req Bid PRICE 100 (st_seed mid)) mid) (st_next_seed p) = Inr st'"
    "market_is p (map bid_order [Suc n..<Suc (n + 256)]) [] (Suc (n + 256)) st'" "st_buf st' = [EvNew (bid_order (n + 256))]"
    by (auto simp del: upt_Suc)
  have u: "unat (of_nat (n + 256) :: u64) = n + 256" using assms(2) by (intro unat_of_nat_u64) simp
  have "minus_u p (of_nat (n + 256) :: u64) 256 = Inr (of_nat (n + 256) - 256)"
    using u by (intro minus_u_ok) (simp add: word_le_nat_alt del: of_nat_add)
  moreover have "st_seed st = of_nat (n + 256)" using assms(1) by (simp add: market_is_def)
  ultimately have "minus_u p (st_seed st) DEPTH = Inr (of_nat n)" by (simp add: DEPTH_def)
  with mid(1) st'(1) have "step_a p st = Inr st'" by (simp add: step_a_def)
  with that mid st' show thesis by (simp del: upt_Suc)
qed

lemma steps_a:
  "market_is p (map bid_order [k..<k + 256]) [] (k + 256) st \<Longrightarrow> k + n + 256 < 2 ^ 63 \<Longrightarrow>
   \<exists>st'. repeat_step n (step_a p) st = Inr st' \<and>
     market_is p (map bid_order [k + n..<k + n + 256]) [] (k + n + 256) st'"
proof (induction n arbitrary: k st)
  case (Suc n)
  from step_a_ok [OF Suc.prems(1)] Suc.prems(2) obtain st1 where st1: "step_a p st = Inr st1"
    "market_is p (map bid_order [Suc k..<Suc k + 256]) [] (Suc k + 256) st1" by (auto simp del: upt_Suc)
  from Suc.IH [OF st1(2)] Suc.prems(2) st1(1) show ?case by (simp del: upt_Suc)
qed simp

text \<open>One step of scenario B on an empty book.\<close>

definition ask_order :: "nat \<Rightarrow> Order" where
  "ask_order k = resting_order (new_req Ask PRICE 1 (of_nat k)) (of_nat k) 1"

abbreviation ioc_bid :: "nat \<Rightarrow> OrderRequest" where
  "ioc_bid k \<equiv> (new_req Bid PRICE 1 (of_nat k))\<lparr>rq_tif := IOC\<rparr>"

lemma exchange_ask:
  "exchange_step (one_market [] [] (of_nat k), []) (Process (new_req Ask PRICE 1 (of_nat k))) =
     (one_market [] [ask_order k] (of_nat (Suc k)), [EvNew (ask_order k)])"
  by (simp add: one_market_def exchange_new_order_def market_trade_def market_rest_def market_orders_def Let_def
      side_fun_upd enqueue_def ask_order_def [symmetric])

lemma exchange_take:
  "exchange_step (one_market [] [ask_order k] (of_nat (Suc k)), []) (Process (ioc_bid (Suc k))) =
     (one_market [] [] (of_nat (Suc (Suc k))),
      [EvFill (of_nat (Suc k)) 1 PRICE 0 (hash_from_seed (of_nat (Suc k))),
       EvFill (of_nat k) 1 PRICE 0 (hash_from_seed (of_nat k))])"
  by (simp add: one_market_def exchange_new_order_def market_trade_def Let_def side_fun_upd ask_order_def
      resting_order_def taker_event_def maker_event_def)

lemma step_b_ok:
  assumes "market_is p [] [] k st" and "k + 2 < 2 ^ 63"
  obtains st' where "step_b p st = Inr st'" and "market_is p [] [] (Suc (Suc k)) st'"
    and "st_buf st' = [EvFill (of_nat (Suc k)) 1 PRICE 0 (hash_from_seed (of_nat (Suc k))),
       EvFill (of_nat k) 1 PRICE 0 (hash_from_seed (of_nat k))]"
proof -
  have seed: "st_seed st = of_nat k" using assms(1) by (simp add: market_is_def)
  have k: "k + 1 < 2 ^ 63" "Suc k + 1 < 2 ^ 63" using assms(2) by simp_all
  from st_process_ok [OF assms(1) k(1) _ _ _ _ exchange_ask] obtain e1 where
    e1: "st_process p (new_req Ask PRICE 1 (of_nat k)) st = Inr (st\<lparr>st_engine := e1, st_buf := [EvNew (ask_order k)]\<rparr>)"
    "engine_inv p e1" "exchange_of e1 = one_market [] [ask_order k] (of_nat (Suc k))" by auto
  let ?st1 = "st\<lparr>st_engine := e1, st_buf := [EvNew (ask_order k)], st_seed := of_nat (Suc k)\<rparr>"
  have m1: "market_is p [] [ask_order k] (Suc k) ?st1" using e1 by (simp add: market_is_def)
  from st_process_ok [OF m1 k(2) _ _ _ _ exchange_take] obtain e2 where
    e2: "st_process p (ioc_bid (Suc k)) ?st1 = Inr (?st1\<lparr>st_engine := e2, st_buf :=
      [EvFill (of_nat (Suc k)) 1 PRICE 0 (hash_from_seed (of_nat (Suc k))),
       EvFill (of_nat k) 1 PRICE 0 (hash_from_seed (of_nat k))]\<rparr>)"
    "engine_inv p e2" "exchange_of e2 = one_market [] [] (of_nat (Suc (Suc k)))" by (auto simp: ask_order_def)
  let ?mid = "?st1\<lparr>st_engine := e2, st_buf := [EvFill (of_nat (Suc k)) 1 PRICE 0 (hash_from_seed (of_nat (Suc k))),
       EvFill (of_nat k) 1 PRICE 0 (hash_from_seed (of_nat k))]\<rparr>"
  let ?st2 = "?mid\<lparr>st_seed := of_nat (Suc (Suc k))\<rparr>"
  have n2: "st_next_seed p ?mid = Inr ?st2" by (rule next_seed [OF _ k(2)]) simp
  have n1: "st_next_seed p (st\<lparr>st_engine := e1, st_buf := [EvNew (ask_order k)]\<rparr>) = Inr ?st1"
    using seed by (intro next_seed [OF _ k(1)]) simp
  have "step_b p st = Inr ?st2"
    unfolding step_b_def seed e1(1) rbind_Inr n1 using e2(1) n2 by simp
  moreover have "market_is p [] [] (Suc (Suc k)) ?st2" using e2 by (simp add: market_is_def)
  ultimately show thesis using that by simp
qed

lemma steps_b:
  "market_is p [] [] k st \<Longrightarrow> k + 2 * n < 2 ^ 63 \<Longrightarrow>
   \<exists>st'. repeat_step n (step_b p) st = Inr st' \<and> market_is p [] [] (k + 2 * n) st'"
proof (induction n arbitrary: k st)
  case (Suc n)
  from step_b_ok [OF Suc.prems(1)] Suc.prems(2) obtain st1 where st1: "step_b p st = Inr st1"
    "market_is p [] [] (Suc (Suc k)) st1" by auto
  from Suc.IH [OF st1(2)] Suc.prems(2) st1(1) show ?case by simp
qed simp

section \<open>The ring's scenario\<close>

record IpcSt =
  is_queue :: "u64 Queue"
  is_prod :: Producer
  is_cons :: Consumer
  is_n :: u64

definition ipc_step :: "profile \<Rightarrow> IpcSt \<Rightarrow> IpcSt res" where
  "ipc_step p st =
     rbind (publish p (is_queue st) (is_prod st) (is_n st)) (\<lambda>(q, prod, _).
     rbind (poll p q (is_cons st)) (\<lambda>(cons, _).
       Inr \<lparr>is_queue = q, is_prod = prod, is_cons = cons, is_n = is_n st + 1\<rparr>))"

definition ipc_scenario :: "profile \<Rightarrow> nat \<Rightarrow> IpcSt res" where
  "ipc_scenario p n =
     rbind (Queue_new 0 1024) (\<lambda>(q, prod).
       repeat_step n (ipc_step p)
         \<lparr>is_queue = q, is_prod = prod, is_cons = subscribe q SkipToLatest, is_n = 0\<rparr>)"

text \<open>The consumer has seen everything.\<close>

definition lockstep :: "nat \<Rightarrow> nat \<Rightarrow> IpcSt \<Rightarrow> bool" where
  "lockstep k n st \<longleftrightarrow> (\<exists>H. length H = n \<and> bus_rel k 0 (is_queue st, is_prod st) H \<and>
     consumer_at k (is_cons st) n) \<and> is_n st = of_nat n"

lemma ipc_step_ok:
  assumes "lockstep k n st" and "n + 2 < 2 ^ 63"
  obtains q prod seq cons where "publish p (is_queue st) (is_prod st) (of_nat n) = Inr (q, prod, seq)"
    and "poll p q (is_cons st) = Inr (cons, Ready (of_nat n))"
    and "ipc_step p st = Inr \<lparr>is_queue = q, is_prod = prod, is_cons = cons, is_n = of_nat (Suc n)\<rparr>"
    and "lockstep k (Suc n) \<lparr>is_queue = q, is_prod = prod, is_cons = cons, is_n = of_nat (Suc n)\<rparr>"
proof -
  from assms(1) obtain H where H: "length H = n" "bus_rel k 0 (is_queue st, is_prod st) H" "consumer_at k (is_cons st) n"
    and n: "is_n st = of_nat n" by (auto simp: lockstep_def)
  from bus.pub_ok [where p = p and x = "of_nat n", OF H(2)] H(1) assms(2) obtain q prod where
    pub: "bus_publish p (is_queue st, is_prod st) (of_nat n) = Inr (q, prod)" "bus_rel k 0 (q, prod) (H @ [of_nat n])" by auto
  then obtain seq where seq: "publish p (is_queue st) (is_prod st) (of_nat n) = Inr (q, prod, seq)"
    by (auto simp: bus_publish_def rbind_eq_Inr)
  from bus.pol_ready [where p = p, OF pub(2) _ H(3)] H(1) assms(2) obtain cons where
    c: "poll p q (is_cons st) = Inr (cons, Ready (of_nat n))" "consumer_at k cons (Suc n)"
    by (auto simp: bus_poll_def)
  have "lockstep k (Suc n) \<lparr>is_queue = q, is_prod = prod, is_cons = cons, is_n = of_nat (Suc n)\<rparr>"
    using pub(2) c(2) H(1) unfolding lockstep_def by (auto intro!: exI [of _ "H @ [of_nat n]"])
  with that seq c(1) n show thesis by (simp add: ipc_step_def add.commute)
qed

lemma ipc_start:
  obtains q prod k where "Queue_new (0 :: u64) 1024 = Inr (q, prod)"
    and "lockstep k 0 \<lparr>is_queue = q, is_prod = prod, is_cons = subscribe q SkipToLatest, is_n = 0\<rparr>"
proof -
  have "is_power_of_two 1024" by code_simp
  then obtain q prod where q: "Queue_new (0 :: u64) 1024 = Inr (q, prod)" by (auto simp: Queue_new_def Let_def)
  from Queue_new_rel [OF q] obtain k where "ring_rel k 0 q prod []" by blast
  then have "lockstep k 0 \<lparr>is_queue = q, is_prod = prod, is_cons = subscribe q SkipToLatest, is_n = 0\<rparr>"
    by (simp add: lockstep_def bus_rel_def consumer_at_def ring_rel_def subscribe_def Queue_published_def)
  with q that show thesis by blast
qed

lemma ipc_steps:
  "lockstep k m st \<Longrightarrow> m + n + 1 < 2 ^ 63 \<Longrightarrow> \<exists>st'. repeat_step n (ipc_step p) st = Inr st' \<and> lockstep k (m + n) st'"
proof (induction n arbitrary: m st)
  case (Suc n)
  from ipc_step_ok [OF Suc.prems(1), of p] Suc.prems(2) obtain st1 where st1: "ipc_step p st = Inr st1" "lockstep k (Suc m) st1"
    by auto
  from Suc.IH [OF st1(2)] Suc.prems(2) st1(1) show ?case by simp
qed simp

section \<open>Properties\<close>

text \<open>
  Scenario A measures what it says. In both profiles every step of the workload succeeds; after
  any number of steps the one bid level holds exactly its 256 youngest orders, the cancellation of
  the next step hits the oldest of them and leaves 255, and the new order joins at the end: the
  level is never emptied and never created inside the measured region. After any number of steps
  scenario B has an empty book, so that each of its steps creates and destroys a level.
\<close>

theorem alloc_scenarios_steady:
  assumes "n + 257 < 2 ^ 62"
  shows "(\<exists>st mid st' b b'. scenario_a p n = Inr st \<and> Engine_book (st_engine st) 1 = Some b \<and>
      resting b Bid = map bid_order [n..<n + 256] \<and> resting b Ask = [] \<and>
      st_process p (cancel_req (of_nat n)) st = Inr mid \<and>
      st_buf mid = [EvCancel (of_nat n) 0 (hash_from_seed (of_nat n))] \<and>
      Engine_book (st_engine mid) 1 = Some b' \<and> resting b' Bid = map bid_order [Suc n..<n + 256] \<and>
      step_a p st = Inr st' \<and> st_buf st' = [EvNew (bid_order (n + 256))]) \<and>
    (\<exists>st b. scenario_b p n = Inr st \<and> Engine_book (st_engine st) 1 = Some b \<and> resting b Bid = [] \<and> resting b Ask = [])"
proof
  obtain e where e: "workload_engine = Inr e" "market_is p [] [] 0 \<lparr>st_engine = e, st_buf = [], st_seed = 0\<rparr>"
    by (rule workload_start)
  from fill_level [of p 0 _ 256] e(2) obtain st0 where
    st0: "repeat_step 256 (fill_a p) \<lparr>st_engine = e, st_buf = [], st_seed = 0\<rparr> = Inr st0"
    "market_is p (map bid_order [0..<0 + 256]) [] (0 + 256) st0" by (auto simp del: repeat_step.simps)
  from steps_a [OF st0(2), of n] assms obtain st where st: "repeat_step n (step_a p) st0 = Inr st"
    "market_is p (map bid_order [n..<n + 256]) [] (n + 256) st" by auto
  have a: "scenario_a p n = Inr st" 
    using st0(1) st(1) unfolding scenario_a_def e(1) rbind_Inr by (simp add: DEPTH_def del: repeat_step.simps)
  obtain b where b: "Engine_book (st_engine st) 1 = Some b" "resting b Bid = map bid_order [n..<n + 256]" "resting b Ask = []"
    using market_is_book [OF st(2)] .
  from assms have "n + 257 < 2 ^ 63" by simp
  from step_a_ok [OF st(2) this] obtain mid st' where m: "st_process p (cancel_req (of_nat n)) st = Inr mid"
    "st_buf mid = [EvCancel (of_nat n) 0 (hash_from_seed (of_nat n))]"
    "market_is p (map bid_order [Suc n..<n + 256]) [] (n + 256) mid"
    "step_a p st = Inr st'" "st_buf st' = [EvNew (bid_order (n + 256))]" .
  obtain b' where "Engine_book (st_engine mid) 1 = Some b'" "resting b' Bid = map bid_order [Suc n..<n + 256]"
    using market_is_book [OF m(3)] .
  with a b m show "\<exists>st mid st' b b'. scenario_a p n = Inr st \<and> Engine_book (st_engine st) 1 = Some b \<and>
      resting b Bid = map bid_order [n..<n + 256] \<and> resting b Ask = [] \<and>
      st_process p (cancel_req (of_nat n)) st = Inr mid \<and>
      st_buf mid = [EvCancel (of_nat n) 0 (hash_from_seed (of_nat n))] \<and>
      Engine_book (st_engine mid) 1 = Some b' \<and> resting b' Bid = map bid_order [Suc n..<n + 256] \<and>
      step_a p st = Inr st' \<and> st_buf st' = [EvNew (bid_order (n + 256))]" by blast
  from steps_b [OF e(2), of n] assms obtain stb where sb: "scenario_b p n = Inr stb" "market_is p [] [] (2 * n) stb"
    unfolding scenario_b_def e(1) rbind_Inr by auto
  obtain bb where "Engine_book (st_engine stb) 1 = Some bb" "resting bb Bid = []" "resting bb Ask = []"
    using market_is_book [OF sb(2)] .
  with sb(1) show "\<exists>st b. scenario_b p n = Inr st \<and> Engine_book (st_engine st) 1 = Some b \<and> resting b Bid = [] \<and> resting b Ask = []"
    by blast
qed

theorem alloc_scenarios_steady_witness:
  "\<exists>st. scenario_a Debug 501000 = Inr st \<and>
     (\<exists>b. Engine_book (st_engine st) 1 = Some b \<and> length (resting b Bid) = 256)"
  using alloc_scenarios_steady [of 501000 Debug] by fastforce

text \<open>
  The allocation proof of the ring: in every step the consumer receives exactly the value that was
  just published, so the two stay in lockstep and the consumer is never lapped.
\<close>

theorem ipc_scenario_lockstep:
  assumes "n + 2 < 2 ^ 63"
  shows "\<exists>st q prod seq cons. ipc_scenario p n = Inr st \<and>
    publish p (is_queue st) (is_prod st) (is_n st) = Inr (q, prod, seq) \<and>
    poll p q (is_cons st) = Inr (cons, Ready (of_nat n))"
proof -
  obtain q prod k where q: "Queue_new (0 :: u64) 1024 = Inr (q, prod)"
    "lockstep k 0 \<lparr>is_queue = q, is_prod = prod, is_cons = subscribe q SkipToLatest, is_n = 0\<rparr>" by (rule ipc_start)
  from ipc_steps [OF q(2), of n p] assms obtain st where st: "ipc_scenario p n = Inr st" "lockstep k n st"
    by (auto simp: ipc_scenario_def q(1))
  then have "is_n st = of_nat n" by (simp add: lockstep_def)
  with ipc_step_ok [OF st(2) assms, of p] st(1) show ?thesis by metis
qed

theorem ipc_scenario_lockstep_witness:
  "\<exists>st. ipc_scenario Debug 501000 = Inr st"
  using ipc_scenario_lockstep [of 501000 Debug] by auto

end
