(* ===== verification/Book_Bench.thy ===== *)
theory Book_Bench
  imports Bench_Workload Book_Props Wire
begin

text \<open>
  The scenarios of \<open>orderbook/benches/orderbook_bench.rs\<close>. The invariant \<open>book_holds\<close> says which intent
  hashes rest in the book, in any order; every scenario keeps it, so that no \<open>unwrap\<close> or \<open>expect\<close>
  panics, the arena never fills up, and each timed call takes the path it is meant to measure.
\<close>

section \<open>The scenarios\<close>

definition LEVEL_DEPTH :: nat where "LEVEL_DEPTH = 50"

definition bench_order :: "u64 \<Rightarrow> u64 \<Rightarrow> Side \<Rightarrow> u64 \<Rightarrow> Order" where
  "bench_order price qty side hash_seed =
     \<lparr>o_order_id = OrderId hash_seed, o_price = price, o_quantity = qty, o_origin_ts = 0, o_instrument_id = 1,
      o_side = side, o_order_type = Limit, o_tif = GTC, o_padding = 0, o_intent_hash = hash_from_seed hash_seed\<rparr>"

text \<open>\<open>u32::next_power_of_two\<close>.\<close>

definition next_power_of_two :: "profile \<Rightarrow> u32 \<Rightarrow> u32 res" where
  "next_power_of_two p x =
     (case find (\<lambda>k. unat x \<le> 2 ^ k) [0..<32] of
        Some k \<Rightarrow> Inr (2 ^ k)
      | None \<Rightarrow> (case p of Debug \<Rightarrow> Inl (Panic ''attempt to add with overflow'') | Release \<Rightarrow> Inr 0))"

definition book_for :: "profile \<Rightarrow> usize \<Rightarrow> OrderBook res" where
  "book_for p n = rbind (next_power_of_two p (ucast n)) (OrderBook_new 1)"

text \<open>\<open>insert(..)\<close> followed by \<open>unwrap()\<close> or \<open>expect(msg)\<close>.\<close>

definition insert_expect :: "profile \<Rightarrow> string \<Rightarrow> OrderBook \<Rightarrow> Order \<Rightarrow> (ArenaIdx \<times> OrderBook) res" where
  "insert_expect p msg b x =
     rbind (OrderBook_insert p b x) (\<lambda>(b, r). case r of Inr i \<Rightarrow> Inr (i, b) | Inl _ \<Rightarrow> Inl (Panic msg))"

definition new_level_prepare :: "profile \<Rightarrow> OrderBook \<Rightarrow> usize \<Rightarrow> (Order \<times> OrderBook) res" where
  "new_level_prepare p b i = rbind (plus_u p i 1) (\<lambda>price. Inr (bench_order price 100 Bid i, b))"

definition insert_new_level where
  "insert_new_level p pf tpn w =
     rbind (Iters_total p Iters_STANDARD) (\<lambda>total. rbind (book_for p total) (\<lambda>b.
       run_scenario_of p pf tpn ''insert_new_level'' Iters_STANDARD (new_level_prepare p) (insert_expect p ''arena capacity'') b w))"

definition existing_level_prepare :: "OrderBook \<Rightarrow> usize \<Rightarrow> (Order \<times> OrderBook) res" where
  "existing_level_prepare b i = Inr (bench_order 100 100 Bid i, b)"

definition insert_existing_level where
  "insert_existing_level p pf tpn w =
     rbind (Iters_total p Iters_STANDARD) (\<lambda>total. rbind (book_for p total) (\<lambda>b.
       run_scenario_of p pf tpn ''insert_existing_level'' Iters_STANDARD existing_level_prepare (insert_expect p ''arena capacity'') b w))"

record PopSt =
  ps_book :: OrderBook
  ps_seed :: u64

text \<open>One bid at the price of the seed; the filling loop and the preparation of \<open>pop_top\<close> are the
  same three statements.\<close>

definition pop_replenish :: "profile \<Rightarrow> PopSt \<Rightarrow> PopSt res" where
  "pop_replenish p st =
     rbind (insert_expect p ''unwrap'' (ps_book st) (bench_order (1 + ps_seed st mod 100) 100 Bid (ps_seed st))) (\<lambda>(_, b).
     rbind (plus_u p (ps_seed st) 1) (\<lambda>seed. Inr (st\<lparr>ps_book := b, ps_seed := seed\<rparr>)))"

definition pop_prepare :: "profile \<Rightarrow> PopSt \<Rightarrow> usize \<Rightarrow> (unit \<times> PopSt) res" where
  "pop_prepare p st i = rbind (pop_replenish p st) (\<lambda>st. Inr ((), st))"

definition pop_op :: "profile \<Rightarrow> PopSt \<Rightarrow> unit \<Rightarrow> (Order option \<times> PopSt) res" where
  "pop_op p st x = rbind (pop_top p (ps_book st) Bid) (\<lambda>(b, r). Inr (r, st\<lparr>ps_book := b\<rparr>))"

definition pop_top_bench where
  "pop_top_bench p pf tpn w =
     rbind (OrderBook_new 1 65536) (\<lambda>b.
     rbind (fold_res (\<lambda>_. pop_replenish p) [0..<LEVEL_DEPTH * 100] \<lparr>ps_book = b, ps_seed = 0\<rparr>) (\<lambda>st.
       run_scenario_of p pf tpn ''pop_top'' Iters_STANDARD (pop_prepare p) (pop_op p) st w))"

definition deep_insert :: "profile \<Rightarrow> nat \<Rightarrow> OrderBook \<times> IntentHash list \<times> u64 \<Rightarrow> (OrderBook \<times> IntentHash list \<times> u64) res" where
  "deep_insert p level_idx = (\<lambda>(b, hashes, seed).
     let x = bench_order (of_nat (level_idx + 1)) 100 Bid seed in
     rbind (insert_expect p ''unwrap'' b x) (\<lambda>(_, b).
     rbind (plus_u p seed 1) (\<lambda>seed. Inr (b, hashes @ [o_intent_hash x], seed))))"

definition build_deep_book :: "profile \<Rightarrow> usize \<Rightarrow> (OrderBook \<times> IntentHash list) res" where
  "build_deep_book p n =
     rbind (book_for p n) (\<lambda>b.
     rbind (fold_res (\<lambda>level_idx. fold_res (\<lambda>_. deep_insert p level_idx) [0..<LEVEL_DEPTH]) [0..<unat n div LEVEL_DEPTH] (b, [], 0))
       (\<lambda>(b, hashes, _). Inr (b, hashes)))"

definition cancel_prepare :: "IntentHash list \<Rightarrow> OrderBook \<Rightarrow> usize \<Rightarrow> (IntentHash \<times> OrderBook) res" where
  "cancel_prepare hashes b i =
     rbind (expect ''index out of bounds'' (slice_get hashes (unat i))) (\<lambda>h. Inr (h, b))"

definition cancel_op :: "profile \<Rightarrow> OrderBook \<Rightarrow> IntentHash \<Rightarrow> (Order option \<times> OrderBook) res" where
  "cancel_op p b h = rbind (OrderBook_cancel p b h) (\<lambda>(b, r). Inr (r, b))"

definition cancel_oldest_bench where
  "cancel_oldest_bench p pf tpn w =
     rbind (Iters_total p Iters_STANDARD) (\<lambda>total. rbind (plus_u p total (of_nat LEVEL_DEPTH)) (\<lambda>n.
     rbind (build_deep_book p n) (\<lambda>(b, hashes).
       run_scenario_of p pf tpn ''cancel_oldest'' Iters_STANDARD (cancel_prepare hashes) (cancel_op p) b w)))"

definition cancel_random_bench where
  "cancel_random_bench p pf tpn w =
     rbind (Iters_total p Iters_STANDARD) (\<lambda>total. rbind (plus_u p total (of_nat LEVEL_DEPTH)) (\<lambda>n.
     rbind (build_deep_book p n) (\<lambda>(b, hashes).
     rbind (shuffle hashes (Lcg_new 0xCAFEF00D)) (\<lambda>(hashes, _).
       run_scenario_of p pf tpn ''cancel_random'' Iters_STANDARD (cancel_prepare hashes) (cancel_op p) b w))))"

record BookSt =
  bs_book :: OrderBook
  bs_active :: "IntentHash list"
  bs_seed :: u64
  bs_rng :: Lcg

datatype Act = ActInsert Order | ActCancel IntentHash

text \<open>\<open>Vec::swap_remove\<close>.\<close>

definition swap_remove :: "'a list \<Rightarrow> nat \<Rightarrow> ('a \<times> 'a list) res" where
  "swap_remove xs i =
     (if i < length xs then Inr (xs ! i, butlast (xs[i := last xs])) else Inl (Panic ''swap_remove index out of bounds''))"

definition realistic_fill :: "profile \<Rightarrow> BookSt \<Rightarrow> BookSt res" where
  "realistic_fill p st =
     (let x = bench_order (100 + bs_seed st mod 100) 100 Bid (bs_seed st) in
      rbind (insert_expect p ''unwrap'' (bs_book st) x) (\<lambda>(_, b).
      rbind (plus_u p (bs_seed st) 1) (\<lambda>seed.
        Inr (st\<lparr>bs_book := b, bs_active := bs_active st @ [o_intent_hash x], bs_seed := seed\<rparr>))))"

definition realistic_prepare :: "profile \<Rightarrow> BookSt \<Rightarrow> usize \<Rightarrow> (Act \<times> BookSt) res" where
  "realistic_prepare p st i =
     (let (r1, g) = next_u64 (bs_rng st); do_insert = (r1 mod 100 < 60 \<and> length (bs_active st) < 50000) in
      if do_insert \<or> bs_active st = [] then
        let (r2, g) = next_u64 g; x = bench_order (100 + r2 mod 100) 100 Bid (bs_seed st) in
        rbind (plus_u p (bs_seed st) 1) (\<lambda>seed.
          Inr (ActInsert x, st\<lparr>bs_active := bs_active st @ [o_intent_hash x], bs_seed := seed, bs_rng := g\<rparr>))
      else
        let (r2, g) = next_u64 g; idx = unat r2 mod length (bs_active st) in
        rbind (swap_remove (bs_active st) idx) (\<lambda>(h, active).
          Inr (ActCancel h, st\<lparr>bs_active := active, bs_rng := g\<rparr>)))"

text \<open>The timed call; the result says which call it was and, for a cancellation, what it returned.\<close>

definition realistic_op :: "profile \<Rightarrow> BookSt \<Rightarrow> Act \<Rightarrow> (Order option option \<times> BookSt) res" where
  "realistic_op p st act =
     (case act of
        ActInsert x \<Rightarrow> rbind (insert_expect p ''unwrap'' (bs_book st) x) (\<lambda>(_, b). Inr (None, st\<lparr>bs_book := b\<rparr>))
      | ActCancel h \<Rightarrow> rbind (OrderBook_cancel p (bs_book st) h) (\<lambda>(b, r). Inr (Some r, st\<lparr>bs_book := b\<rparr>)))"

definition book_realistic_workload where
  "book_realistic_workload p pf tpn w =
     rbind (OrderBook_new 1 65536) (\<lambda>b.
     rbind (fold_res (\<lambda>_. realistic_fill p) [0..<30000] \<lparr>bs_book = b, bs_active = [], bs_seed = 0, bs_rng = Lcg_new 0x9E3779B9\<rparr>) (\<lambda>st.
       run_scenario_of p pf tpn ''realistic_workload'' Iters_STANDARD (realistic_prepare p) (realistic_op p) st w))"

section \<open>Which hashes rest\<close>

definition book_holds :: "profile \<Rightarrow> nat \<Rightarrow> IntentHash list \<Rightarrow> OrderBook \<Rightarrow> bool" where
  "book_holds p cap hs b \<longleftrightarrow> book_inv p b \<and> book_capacity b = cap \<and> resting b Ask = [] \<and>
     (\<forall>x \<in> set (resting b Bid). o_quantity x = 100) \<and> mset (map o_intent_hash (resting b Bid)) = mset hs"

lemma bench_order_simps [simp]:
  "o_side (bench_order pr q s h) = s" "o_quantity (bench_order pr q s h) = q" "o_price (bench_order pr q s h) = pr"
  "o_intent_hash (bench_order pr q s h) = hash_from_seed h"
  by (simp_all add: bench_order_def)

lemma volume_hundreds: "\<forall>x \<in> set q. o_quantity x = 100 \<Longrightarrow> volume q = 100 * length q"
  by (induction q) simp_all

lemma mset_enqueue: "mset (enqueue s x q) = add_mset x (mset q)"
  unfolding enqueue_def by simp (metis mset_append takeWhile_dropWhile_id)

lemma insert_holds:
  assumes "book_holds p cap hs b" and "length hs < cap" and "cap < 2 ^ 32" and "o_intent_hash x \<notin> set hs"
    and "o_side x = Bid" and "o_quantity x = 100"
  obtains i b' where "insert_expect p msg b x = Inr (i, b')" and "book_holds p cap (hs @ [o_intent_hash x]) b'"
    and "resting b' Bid = enqueue Bid x (resting b Bid)"
proof -
  from assms(1) have b: "book_inv p b" "book_capacity b = cap" "resting b Ask = []" "\<forall>x \<in> set (resting b Bid). o_quantity x = 100"
    and hs: "mset (map o_intent_hash (resting b Bid)) = mset hs" by (auto simp: book_holds_def)
  have len: "length (resting b Bid) = length hs" using mset_eq_length [OF hs] by simp
  have "set (map o_intent_hash (resting b Bid)) = set hs" using hs by (metis mset_eq_setD)
  with b(3) assms(4) have h: "o_intent_hash x \<notin> o_intent_hash ` set (resting b Bid @ resting b Ask)" by auto
  have room: "has_room b" using b(2,3) len assms(2) by (simp add: has_room_def)
  have "level_volume b Bid (o_price x) \<le> 100 * length hs"
    using volume_hundreds [of "filter (\<lambda>y. o_price y = o_price x) (resting b Bid)"] b(4) len
    by (simp add: level_volume_def) (metis length_filter_le)
  then have "fits p b x" using assms(2,3,5,6) by (simp add: fits_def)
  from pb.ins_ok [OF b(1) h room this] obtain b' i where r: "OrderBook_insert p b x = Inr (b', Inr i)" "book_inv p b'"
    "book_ident b' = book_ident b" "resting b' = (resting b)(Bid := enqueue Bid x (resting b Bid))" using assms(5) by auto
  have "book_holds p cap (hs @ [o_intent_hash x]) b'"
    using r b assms(6) hs by (auto simp: book_holds_def book_ident_def mset_enqueue set_enqueue)
  with that r show thesis by (simp add: insert_expect_def)
qed

lemma remove_resting:
  assumes "book_inv p b" and "x \<in> set (resting b Bid)"
  shows "mset (map o_intent_hash (filter (\<lambda>y. o_intent_hash y \<noteq> o_intent_hash x) (resting b Bid))) =
    mset (map o_intent_hash (resting b Bid)) - {#o_intent_hash x#}"
proof -
  let ?q = "map o_intent_hash (resting b Bid)"
  have d: "distinct ?q" using pb.q_hashes [OF assms(1)] by simp
  have "map o_intent_hash (filter (\<lambda>y. o_intent_hash y \<noteq> o_intent_hash x) (resting b Bid)) = filter (\<lambda>h. h \<noteq> o_intent_hash x) ?q"
    by (simp add: filter_map comp_def)
  also have "\<dots> = remove1 (o_intent_hash x) ?q" using d by (simp add: distinct_remove1_removeAll removeAll_filter_not_eq eq_commute)
  finally show ?thesis by simp
qed

lemma cancel_holds:
  assumes "book_holds p cap hs b" and "h \<in> set hs"
  obtains x b' where "OrderBook_cancel p b h = Inr (b', Some x)" and "o_intent_hash x = h"
    and "\<And>hs'. mset hs' = mset hs - {#h#} \<Longrightarrow> book_holds p cap hs' b'"
proof -
  from assms(1) have b: "book_inv p b" "book_capacity b = cap" "resting b Ask = []" "\<forall>x \<in> set (resting b Bid). o_quantity x = 100"
    and hs: "mset (map o_intent_hash (resting b Bid)) = mset hs" by (auto simp: book_holds_def)
  have "set (map o_intent_hash (resting b Bid)) = set hs" using hs by (metis mset_eq_setD)
  with assms(2) obtain x where x: "x \<in> set (resting b Bid)" "o_intent_hash x = h" by (metis (no_types) image_iff list.set_map)
  from pb.cancel_ok [OF b(1) x(1)] obtain b' where r: "OrderBook_cancel p b h = Inr (b', Some x)" "book_inv p b'"
    "book_ident b' = book_ident b" "resting b' = (\<lambda>s. filter (\<lambda>y. o_intent_hash y \<noteq> h) (resting b s))" using x(2) by auto
  have "book_holds p cap hs' b'" if "mset hs' = mset hs - {#h#}" for hs'
    using that r b remove_resting [OF b(1) x(1)] x(2) hs by (auto simp: book_holds_def book_ident_def)
  with that r(1) x(2) show thesis by blast
qed

lemma pop_holds:
  assumes "book_holds p cap hs b" and "hs \<noteq> []"
  obtains x b' where "pop_top p b Bid = Inr (b', Some x)" and "o_intent_hash x \<in> set hs"
    and "book_holds p cap (remove1 (o_intent_hash x) hs) b'" and "resting b Bid = x # resting b' Bid"
proof -
  from assms(1) have b: "book_inv p b" "book_capacity b = cap" "resting b Ask = []" "\<forall>x \<in> set (resting b Bid). o_quantity x = 100"
    and hs: "mset (map o_intent_hash (resting b Bid)) = mset hs" by (auto simp: book_holds_def)
  from assms(2) hs obtain x xs where q: "resting b Bid = x # xs" by (cases "resting b Bid") auto
  from pb.pop_head [OF b(1) q] obtain b' where r: "pop_top p b Bid = Inr (b', Some x)" "book_inv p b'"
    "resting b' = (resting b)(Bid := xs)" "book_ident b' = book_ident b" by auto
  have "o_intent_hash x \<in># mset hs" using hs q by (metis list.set_intros(1) list.simps(9) set_mset_mset)
  moreover have "mset (remove1 (o_intent_hash x) hs) = mset (map o_intent_hash xs)"
    using hs q by (simp flip: hs)
  ultimately have "book_holds p cap (remove1 (o_intent_hash x) hs) b'" "o_intent_hash x \<in> set hs"
    using r b q by (auto simp: book_holds_def book_ident_def)
  with that r q show thesis by simp
qed

lemma new_book_holds:
  assumes "0 < cap" and "cap < u32_MAX"
  obtains b where "OrderBook_new 1 cap = Inr b" and "book_holds p (unat cap) [] b"
proof -
  obtain a :: "OrderNode Arena" where a: "Arena_new cap = Inr a" using Arena_new_ok [OF assms] by blast
  then obtain b where b: "OrderBook_new 1 cap = Inr b" by (simp add: OrderBook_new_def)
  have "book_capacity b = unat cap" using b a Arena_new_wf(2) [OF a] by (auto simp: OrderBook_new_def book_capacity_def)
  with that b OrderBook_new_rel(1) [OF b, of p] new_book_empty [OF b] show thesis by (auto simp: book_holds_def book_inv_def)
qed

lemma next_power_2097152:
  assumes "unat (n :: usize) \<in> {1100000, 1100050}"
  shows "next_power_of_two p (ucast n) = Inr 2097152"
proof -
  have "unat (ucast n :: u32) = unat n" using assms by (auto simp: unsigned_ucast_eq take_bit_eq_mod)
  moreover have "find (\<lambda>k. m \<le> 2 ^ k) [0..<32] = Some 21" if "m \<in> {1100000, 1100050 :: nat}" for m
    using that by (auto simp: upt_rec)
  ultimately show ?thesis using assms by (simp add: next_power_of_two_def)
qed

lemma book_for_holds:
  assumes "unat n \<in> {1100000, 1100050}"
  obtains b where "book_for p n = Inr b" and "book_holds p 2097152 [] b"
proof -
  have "(0 :: u32) < 2097152" "(2097152 :: u32) < u32_MAX" by simp_all
  then obtain b where "OrderBook_new 1 2097152 = Inr b" "book_holds p (unat (2097152 :: u32)) [] b"
    by (rule new_book_holds)
  with that next_power_2097152 [OF assms, of p] show thesis by (simp add: book_for_def)
qed

section \<open>The contracts\<close>

abbreviation seeds :: "nat \<Rightarrow> IntentHash list" where
  "seeds n \<equiv> map (\<lambda>k. hash_from_seed (of_nat k)) [0..<n]"

lemma fresh_seed:
  assumes "n < 2 ^ 64"
  shows "hash_from_seed (of_nat n) \<notin> set (seeds n)"
proof
  assume "hash_from_seed (of_nat n) \<in> set (seeds n)"
  then obtain k where "k < n" "(of_nat k :: u64) = of_nat n" by auto
  moreover have "unat (of_nat k :: u64) = k" "unat (of_nat n :: u64) = n"
    using \<open>k < n\<close> assms by (simp_all add: unat_of_nat_u64)
  ultimately show False by simp
qed

lemma insert_next:
  assumes "book_holds p 2097152 (seeds k) b" and "k < 2097152"
  obtains i b' where "insert_expect p msg b (bench_order pr 100 Bid (of_nat k)) = Inr (i, b')"
    and "book_holds p 2097152 (seeds (Suc k)) b'"
    and "resting b' Bid = enqueue Bid (bench_order pr 100 Bid (of_nat k)) (resting b Bid)"
proof -
  let ?x = "bench_order pr 100 Bid (of_nat k)"
  have "o_intent_hash ?x \<notin> set (seeds k)" using fresh_seed [of k] assms(2) by simp
  moreover have "length (seeds k) < 2097152" "(2097152 :: nat) < 2 ^ 32" "o_side ?x = Bid" "o_quantity ?x = 100" using assms(2) by simp_all
  ultimately obtain i b' where "insert_expect p msg b ?x = Inr (i, b')" "book_holds p 2097152 (seeds k @ [o_intent_hash ?x]) b'"
    "resting b' Bid = enqueue Bid ?x (resting b Bid)" by (metis insert_holds [OF assms(1)])
  with that show thesis by simp
qed

text \<open>Ascending prices: each insertion opens a level in front of all others.\<close>

definition ascending :: "profile \<Rightarrow> nat \<Rightarrow> OrderBook \<Rightarrow> bool" where
  "ascending p k b \<longleftrightarrow> book_holds p 2097152 (seeds k) b \<and> map o_price (resting b Bid) = map of_nat (rev [1..<Suc k])"

interpretation new_level_scn: scenario "new_level_prepare p" "insert_expect p ''arena capacity''" "ascending p"
  "\<lambda>_ _. True" 2097152 for p
proof unfold_locales
  fix k b assume b: "ascending p k b" and k: "k < (2097152 :: nat)"
  have u: "unat (of_nat m :: u64) = m" if "m \<le> k + 1" for m using that k by (intro unat_of_nat_u64) simp
  have "plus_u p (of_nat k :: u64) 1 = Inr (of_nat k + 1)" using u [of k] k by (intro plus_u_ok) simp
  then have "plus_u p (of_nat k :: u64) 1 = Inr (of_nat (Suc k))" by (simp add: add.commute)
  then have pr: "new_level_prepare p b (of_nat k) = Inr (bench_order (of_nat (Suc k)) 100 Bid (of_nat k), b)"
    by (simp add: new_level_prepare_def)
  from b have h: "book_holds p 2097152 (seeds k) b" and prices: "map o_price (resting b Bid) = map of_nat (rev [1..<Suc k])"
    by (simp_all add: ascending_def)
  obtain i b' where ins: "insert_expect p ''arena capacity'' b (bench_order (of_nat (Suc k)) 100 Bid (of_nat k)) = Inr (i, b')"
    "book_holds p 2097152 (seeds (Suc k)) b'"
    "resting b' Bid = enqueue Bid (bench_order (of_nat (Suc k)) 100 Bid (of_nat k)) (resting b Bid)"
    by (rule insert_next [OF h k])
  have "o_price y < of_nat (Suc k)" if "y \<in> set (resting b Bid)" for y
  proof -
    have "o_price y \<in> set (map of_nat (rev [1..<Suc k]))" using that prices by (metis image_eqI list.set_map)
    then obtain m where "m \<in> set (rev [1..<Suc k])" "o_price y = of_nat m" by (metis image_iff list.set_map)
    then have "m < Suc k" "o_price y = of_nat m" by auto
    then show ?thesis using u [of m] u [of "Suc k"] by (simp add: word_less_nat_alt del: of_nat_Suc)
  qed
  then have "\<not> order_rank Bid y \<le> order_rank Bid (bench_order (of_nat (Suc k)) 100 Bid (of_nat k))" if "y \<in> set (resting b Bid)" for y
    using that by (simp add: order_rank_def rank_def word_less_def linorder_not_le del: of_nat_Suc)
  then have "enqueue Bid (bench_order (of_nat (Suc k)) 100 Bid (of_nat k)) (resting b Bid) =
      bench_order (of_nat (Suc k)) 100 Bid (of_nat k) # resting b Bid"
    by (cases "resting b Bid") (auto simp: enqueue_def)
  with ins prices have "ascending p (Suc k) b'" by (simp add: ascending_def)
  with pr ins(1) show "\<exists>x s1 r s2. new_level_prepare p b (of_nat k) = Inr (x, s1) \<and>
      insert_expect p ''arena capacity'' s1 x = Inr (r, s2) \<and> True \<and> ascending p (Suc k) s2" by auto
qed simp

text \<open>One price: each insertion joins the single level at its end.\<close>

definition one_level :: "profile \<Rightarrow> nat \<Rightarrow> OrderBook \<Rightarrow> bool" where
  "one_level p k b \<longleftrightarrow> book_holds p 2097152 (seeds k) b \<and> resting b Bid = map (\<lambda>j. bench_order 100 100 Bid (of_nat j)) [0..<k]"

interpretation existing_level_scn: scenario existing_level_prepare "insert_expect p ''arena capacity''" "one_level p"
  "\<lambda>_ _. True" 2097152 for p
proof unfold_locales
  fix k b assume b: "one_level p k b" and k: "k < (2097152 :: nat)"
  let ?x = "bench_order 100 100 Bid (of_nat k)"
  from b have h: "book_holds p 2097152 (seeds k) b" and q: "resting b Bid = map (\<lambda>j. bench_order 100 100 Bid (of_nat j)) [0..<k]"
    by (simp_all add: one_level_def)
  obtain i b' where ins: "insert_expect p ''arena capacity'' b ?x = Inr (i, b')" "book_holds p 2097152 (seeds (Suc k)) b'"
    "resting b' Bid = enqueue Bid ?x (resting b Bid)" by (rule insert_next [OF h k])
  have "resting b' Bid = resting b Bid @ [?x]" unfolding ins(3) by (rule enqueue_same_price) (auto simp: q)
  with ins q have "one_level p (Suc k) b'" by (simp add: one_level_def)
  with ins(1) show "\<exists>x s1 r s2. existing_level_prepare b (of_nat k) = Inr (x, s1) \<and>
      insert_expect p ''arena capacity'' s1 x = Inr (r, s2) \<and> True \<and> one_level p (Suc k) s2" by (simp add: existing_level_prepare_def)
qed simp

text \<open>A book of fixed depth whose hashes come from the seeds used so far.\<close>

definition pop_state :: "profile \<Rightarrow> nat \<Rightarrow> nat \<Rightarrow> PopSt \<Rightarrow> bool" where
  "pop_state p m n st \<longleftrightarrow> ps_seed st = of_nat n \<and>
     (\<exists>hs. book_holds p 65536 hs (ps_book st) \<and> length hs = m \<and> set hs \<subseteq> set (seeds n))"

lemma seed_step:
  assumes "n < 2 ^ 62"
  shows "plus_u p (of_nat n :: u64) 1 = Inr (of_nat (Suc n))"
proof -
  have "unat (of_nat n :: u64) = n" using assms by (intro unat_of_nat_u64) simp
  then have "plus_u p (of_nat n :: u64) 1 = Inr (of_nat n + 1)" using assms by (intro plus_u_ok) simp
  then show ?thesis by (simp add: add.commute)
qed

lemma pop_replenish_ok:
  assumes "pop_state p m n st" and "m < 65536" and "n < 2 ^ 62"
  obtains st' where "pop_replenish p st = Inr st'" and "pop_state p (Suc m) (Suc n) st'"
proof -
  let ?x = "bench_order (1 + of_nat n mod 100) 100 Bid (of_nat n)"
  from assms(1) obtain hs where s: "ps_seed st = of_nat n" and hs: "book_holds p 65536 hs (ps_book st)" "length hs = m"
    "set hs \<subseteq> set (seeds n)" by (auto simp: pop_state_def)
  have "o_intent_hash ?x \<notin> set hs" using fresh_seed [of n] hs(3) assms(3) by auto
  moreover have "length hs < 65536" "(65536 :: nat) < 2 ^ 32" "o_side ?x = Bid" "o_quantity ?x = 100" using hs(2) assms(2) by simp_all
  ultimately obtain i b' where
    b': "insert_expect p ''unwrap'' (ps_book st) ?x = Inr (i, b')" "book_holds p 65536 (hs @ [o_intent_hash ?x]) b'"
    by (metis insert_holds [OF hs(1)])
  have "pop_state p (Suc m) (Suc n) (st\<lparr>ps_book := b', ps_seed := of_nat (Suc n)\<rparr>)"
    using b'(2) hs unfolding pop_state_def by (intro conjI exI [of _ "hs @ [o_intent_hash ?x]"]) auto
  with that b'(1) s seed_step [OF assms(3), of p] show thesis by (simp add: pop_replenish_def)
qed

lemma pop_fill:
  assumes "pop_state p 0 0 st"
  obtains st' where "fold_res (\<lambda>_. pop_replenish p) [0..<5000] st = Inr st'" and "pop_state p 5000 5000 st'"
proof -
  have "\<exists>st'. pop_replenish p st = Inr st' \<and> pop_state p (k + 1) (k + 1) st'" if "pop_state p k k st" "k + 1 \<le> 65536" for k st
    using pop_replenish_ok [OF that(1)] that(2) by auto
  from fold_res_count [of "\<lambda>k. pop_state p k k" 1 65536 "\<lambda>_. pop_replenish p", OF this assms, of "[0..<5000]"] that
  show thesis by auto
qed

interpretation pop_scn: scenario "pop_prepare p" "pop_op p" "\<lambda>k. pop_state p 5000 (5000 + k)" "\<lambda>_ r. r \<noteq> None" "2 ^ 61" for p
proof unfold_locales
  fix k st assume st: "pop_state p 5000 (5000 + k) st" and k: "k < 2 ^ 61"
  obtain s1 where s1: "pop_replenish p st = Inr s1" "pop_state p 5001 (Suc (5000 + k)) s1"
    using pop_replenish_ok [OF st] k by auto
  then obtain hs where hs: "book_holds p 65536 hs (ps_book s1)" "length hs = 5001" "set hs \<subseteq> set (seeds (Suc (5000 + k)))"
    and seed: "ps_seed s1 = of_nat (Suc (5000 + k))" by (auto simp: pop_state_def)
  have "hs \<noteq> []" using hs(2) by auto
  from pop_holds [OF hs(1) this] obtain x b' where b': "pop_top p (ps_book s1) Bid = Inr (b', Some x)" "o_intent_hash x \<in> set hs"
    "book_holds p 65536 (remove1 (o_intent_hash x) hs) b'" .
  have "length (remove1 (o_intent_hash x) hs) = 5000" using b'(2) hs(2) by (simp add: length_remove1)
  moreover have "set (remove1 (o_intent_hash x) hs) \<subseteq> set (seeds (Suc (5000 + k)))" using hs(3) set_remove1_subset by fast
  ultimately have "pop_state p 5000 (5000 + Suc k) (s1\<lparr>ps_book := b'\<rparr>)"
    using b'(3) seed unfolding pop_state_def by auto
  with s1(1) b'(1) show "\<exists>x s1 r s2. pop_prepare p st (of_nat k) = Inr (x, s1) \<and> pop_op p s1 x = Inr (r, s2) \<and> r \<noteq> None \<and>
      pop_state p 5000 (5000 + Suc k) s2" by (simp add: pop_prepare_def pop_op_def)
qed simp

text \<open>Cancelling in the order of a list of the resting hashes, whatever the order.\<close>

interpretation cancel_scn: scenario "cancel_prepare hs" "cancel_op p" "\<lambda>k. book_holds p cap (drop k hs)"
  "\<lambda>k r. \<exists>x. r = Some x \<and> o_intent_hash x = hs ! k" "min (length hs) (2 ^ 63)" for p cap hs
proof unfold_locales
  fix k b assume b: "book_holds p cap (drop k hs) b" and k: "k < min (length hs) (2 ^ 63)"
  have u: "unat (of_nat k :: u64) = k" using k by (intro unat_of_nat_u64) simp
  have d: "drop k hs = hs ! k # drop (Suc k) hs" using k by (simp add: Cons_nth_drop_Suc)
  then have h: "hs ! k \<in> set (drop k hs)" by simp
  obtain x b' where "OrderBook_cancel p b (hs ! k) = Inr (b', Some x)" "o_intent_hash x = hs ! k" "book_holds p cap (drop (Suc k) hs) b'"
    using cancel_holds [OF b h] d by (metis add_mset_remove_trivial mset.simps(2))
  with u k show "\<exists>x s1 r s2. cancel_prepare hs b (of_nat k) = Inr (x, s1) \<and> cancel_op p s1 x = Inr (r, s2) \<and>
      (\<exists>x. r = Some x \<and> o_intent_hash x = hs ! k) \<and> book_holds p cap (drop (Suc k) hs) s2"
    by (simp add: cancel_prepare_def cancel_op_def slice_get_def)
qed simp

lemma build_deep_book_ok:
  obtains b where "build_deep_book p 1100050 = Inr (b, seeds 1100050)" and "book_holds p 2097152 (seeds 1100050) b"
proof -
  let ?P = "\<lambda>k (b, hs, seed). book_holds p 2097152 (seeds k) b \<and> hs = seeds k \<and> seed = (of_nat k :: u64)"
  have one: "\<exists>st'. deep_insert p l st = Inr st' \<and> ?P (k + 1) st'" if P: "?P k st" and k: "k + 1 \<le> 2097152" for k l st
  proof -
    from P obtain b where b: "st = (b, seeds k, of_nat k)" "book_holds p 2097152 (seeds k) b" by (cases st) auto
    have lt: "k < 2097152" using k by simp
    obtain i b' where "insert_expect p ''unwrap'' b (bench_order (of_nat (l + 1)) 100 Bid (of_nat k)) = Inr (i, b')"
      "book_holds p 2097152 (seeds (Suc k)) b'" by (rule insert_next [OF b(2) lt])
    with b(1) k seed_step [of k p] show ?thesis by (simp add: deep_insert_def)
  qed
  have fifty: "\<exists>st'. fold_res (\<lambda>_. deep_insert p l) [0..<LEVEL_DEPTH] st = Inr st' \<and> ?P (k + 50) st'"
    if P: "?P k st" and k: "k + 50 \<le> 2097152" for k l st
    using fold_res_count [of ?P 1 2097152 "\<lambda>_. deep_insert p l", OF one P, of "[0..<LEVEL_DEPTH]"] k
    by (simp add: LEVEL_DEPTH_def)
  have "unat (1100050 :: u64) \<in> {1100000, 1100050}" by simp
  then obtain b0 where b0: "book_for p 1100050 = Inr b0" "book_holds p 2097152 [] b0" by (rule book_for_holds)
  then have "?P 0 (b0, [], 0)" by simp
  from fold_res_count [of ?P 50 2097152 "\<lambda>l. fold_res (\<lambda>_. deep_insert p l) [0..<LEVEL_DEPTH]", OF fifty this, of "[0..<22001]"]
  obtain b where "fold_res (\<lambda>l. fold_res (\<lambda>_. deep_insert p l) [0..<LEVEL_DEPTH]) [0..<22001] (b0, [], 0) =
      Inr (b, seeds 1100050, 1100050)" "book_holds p 2097152 (seeds 1100050) b" by auto
  with b0 that show thesis by (simp add: build_deep_book_def LEVEL_DEPTH_def)
qed

text \<open>The mixed workload: the vector of active hashes is what rests.\<close>

lemma swap_remove_ok:
  assumes "i < length xs"
  obtains ys where "swap_remove xs i = Inr (xs ! i, ys)" and "mset ys = mset xs - {#xs ! i#}"
proof -
  obtain zs z where xs: "xs = zs @ [z]" using assms by (cases xs rule: rev_cases) auto
  have "mset (butlast (xs[i := last xs])) = mset xs - {#xs ! i#}"
  proof (cases "i = length zs")
    case False
    then have i: "i < length zs" using assms xs by simp
    then have "mset (butlast (xs[i := last xs])) = add_mset z (mset zs - {#zs ! i#})"
      by (simp add: xs list_update_append mset_update)
    also have "\<dots> = mset xs - {#xs ! i#}" using i by (simp add: xs nth_append)
    finally show ?thesis .
  qed (simp add: xs)
  with that assms show thesis by (simp add: swap_remove_def)
qed

definition mixed_state :: "profile \<Rightarrow> nat \<Rightarrow> BookSt \<Rightarrow> bool" where
  "mixed_state p n st \<longleftrightarrow> book_holds p 65536 (bs_active st) (bs_book st) \<and> length (bs_active st) \<le> 50000 \<and>
     (\<exists>m \<le> n. bs_seed st = of_nat m \<and> set (bs_active st) \<subseteq> set (seeds m))"

lemma mixed_insert:
  assumes "mixed_state p n st" and "n < 2 ^ 62" and "length (bs_active st) < 50000"
  obtains i b' seed' where "insert_expect p ''unwrap'' (bs_book st) (bench_order pr 100 Bid (bs_seed st)) = Inr (i, b')"
    and "plus_u p (bs_seed st) 1 = Inr seed'"
    and "\<And>st'. bs_book st' = b' \<Longrightarrow> bs_active st' = bs_active st @ [hash_from_seed (bs_seed st)] \<Longrightarrow> bs_seed st' = seed' \<Longrightarrow>
      mixed_state p (Suc n) st'"
proof -
  let ?x = "bench_order pr 100 Bid (bs_seed st)"
  from assms(1) obtain m where m: "m \<le> n" "bs_seed st = of_nat m" "set (bs_active st) \<subseteq> set (seeds m)"
    and b: "book_holds p 65536 (bs_active st) (bs_book st)" by (auto simp: mixed_state_def)
  have lt: "m < 2 ^ 62" "m < 2 ^ 64" using m(1) assms(2) by simp_all
  have "o_intent_hash ?x \<notin> set (bs_active st)" using fresh_seed [OF lt(2)] m(2,3) by auto
  moreover have "length (bs_active st) < 65536" "(65536 :: nat) < 2 ^ 32" "o_side ?x = Bid" "o_quantity ?x = 100" using assms(3) by simp_all
  ultimately obtain i b' where
    b': "insert_expect p ''unwrap'' (bs_book st) ?x = Inr (i, b')" "book_holds p 65536 (bs_active st @ [o_intent_hash ?x]) b'"
    by (metis insert_holds [OF b])
  have "mixed_state p (Suc n) st'" if "bs_book st' = b'" "bs_active st' = bs_active st @ [hash_from_seed (bs_seed st)]"
    "bs_seed st' = of_nat (Suc m)" for st'
    using that b'(2) m assms(3) unfolding mixed_state_def by (auto intro!: exI [of _ "Suc m"])
  with that b'(1) m(2) seed_step [OF lt(1), of p] show thesis by (metis (no_types))
qed

lemma mixed_cancel:
  assumes "mixed_state p n st" and "i < length (bs_active st)"
  obtains active x b' where "swap_remove (bs_active st) i = Inr (bs_active st ! i, active)"
    and "OrderBook_cancel p (bs_book st) (bs_active st ! i) = Inr (b', Some x)"
    and "\<And>st'. bs_book st' = b' \<Longrightarrow> bs_active st' = active \<Longrightarrow> bs_seed st' = bs_seed st \<Longrightarrow> mixed_state p (Suc n) st'"
proof -
  from assms(1) obtain m where m: "m \<le> n" "bs_seed st = of_nat m" "set (bs_active st) \<subseteq> set (seeds m)"
    and b: "book_holds p 65536 (bs_active st) (bs_book st)" "length (bs_active st) \<le> 50000" by (auto simp: mixed_state_def)
  obtain active where a: "swap_remove (bs_active st) i = Inr (bs_active st ! i, active)"
    "mset active = mset (bs_active st) - {#bs_active st ! i#}" using swap_remove_ok [OF assms(2)] .
  obtain x b' where c: "OrderBook_cancel p (bs_book st) (bs_active st ! i) = Inr (b', Some x)" "book_holds p 65536 active b'"
    using cancel_holds [OF b(1) nth_mem [OF assms(2)]] a(2) by metis
  have "mset active \<subseteq># mset (bs_active st)" using a(2) by simp
  then have "set active \<subseteq> set (bs_active st)" "length active \<le> length (bs_active st)"
    by (metis set_mset_mono set_mset_mset, metis size_mset size_mset_mono)
  then have "mixed_state p (Suc n) st'" if "bs_book st' = b'" "bs_active st' = active" "bs_seed st' = bs_seed st" for st'
    using that c(2) b(2) m unfolding mixed_state_def by (auto intro!: exI [of _ m])
  with that a(1) c(1) show thesis by blast
qed

interpretation mixed_scn: scenario "realistic_prepare p" "realistic_op p" "\<lambda>k. mixed_state p (30000 + k)"
  "\<lambda>_ r. r \<noteq> Some None" "2 ^ 61" for p
proof unfold_locales
  fix k st assume st: "mixed_state p (30000 + k) st" and k: "k < 2 ^ 61"
  obtain r1 g1 where g1: "next_u64 (bs_rng st) = (r1, g1)" by (cases "next_u64 (bs_rng st)")
  obtain r2 g2 where g2: "next_u64 g1 = (r2, g2)" by (cases "next_u64 g1")
  show "\<exists>x s1 r s2. realistic_prepare p st (of_nat k) = Inr (x, s1) \<and> realistic_op p s1 x = Inr (r, s2) \<and>
      r \<noteq> Some None \<and> mixed_state p (30000 + Suc k) s2"
  proof (cases "r1 mod 100 < 60 \<and> length (bs_active st) < 50000 \<or> bs_active st = []")
    case True
    then have "length (bs_active st) < 50000" by auto
    have n: "30000 + k < 2 ^ 62" using k by simp
    let ?x = "bench_order (100 + r2 mod 100) 100 Bid (bs_seed st)"
    obtain i b' seed' where ins: "insert_expect p ''unwrap'' (bs_book st) ?x = Inr (i, b')" "plus_u p (bs_seed st) 1 = Inr seed'"
      and keep: "\<And>st'. bs_book st' = b' \<Longrightarrow> bs_active st' = bs_active st @ [hash_from_seed (bs_seed st)] \<Longrightarrow> bs_seed st' = seed' \<Longrightarrow>
        mixed_state p (Suc (30000 + k)) st'"
      by (rule mixed_insert [OF st n \<open>length (bs_active st) < 50000\<close>, where pr = "100 + r2 mod 100"]) blast
    let ?s1 = "st\<lparr>bs_active := bs_active st @ [o_intent_hash ?x], bs_seed := seed', bs_rng := g2\<rparr>"
    have "realistic_prepare p st (of_nat k) = Inr (ActInsert ?x, ?s1)"
      using True g1 g2 ins(2) by (auto simp: realistic_prepare_def Let_def)
    moreover have "realistic_op p ?s1 (ActInsert ?x) = Inr (None, ?s1\<lparr>bs_book := b'\<rparr>)" using ins(1) by (simp add: realistic_op_def)
    moreover have "mixed_state p (30000 + Suc k) (?s1\<lparr>bs_book := b'\<rparr>)" using keep by simp
    ultimately show ?thesis by blast
  next
    case False
    let ?i = "unat r2 mod length (bs_active st)"
    have "?i < length (bs_active st)" using False by simp
    from mixed_cancel [OF st this] obtain active x b' where c: "swap_remove (bs_active st) ?i = Inr (bs_active st ! ?i, active)"
      "OrderBook_cancel p (bs_book st) (bs_active st ! ?i) = Inr (b', Some x)"
      and keep: "\<And>st'. bs_book st' = b' \<Longrightarrow> bs_active st' = active \<Longrightarrow> bs_seed st' = bs_seed st \<Longrightarrow>
        mixed_state p (Suc (30000 + k)) st'" by metis
    let ?s1 = "st\<lparr>bs_active := active, bs_rng := g2\<rparr>"
    have "realistic_prepare p st (of_nat k) = Inr (ActCancel (bs_active st ! ?i), ?s1)"
      using False g1 g2 c(1) by (auto simp: realistic_prepare_def Let_def)
    moreover have "realistic_op p ?s1 (ActCancel (bs_active st ! ?i)) = Inr (Some (Some x), ?s1\<lparr>bs_book := b'\<rparr>)"
      using c(2) by (simp add: realistic_op_def)
    moreover have "mixed_state p (30000 + Suc k) (?s1\<lparr>bs_book := b'\<rparr>)" using keep by simp
    ultimately show ?thesis by blast
  qed
qed simp

section \<open>The benchmark is sound\<close>

lemma mixed_fill:
  assumes "mixed_state p 0 st" and "bs_active st = []"
  obtains st' where "fold_res (\<lambda>_. realistic_fill p) [0..<30000] st = Inr st'" and "mixed_state p 30000 st'"
proof -
  let ?P = "\<lambda>k st. mixed_state p k st \<and> length (bs_active st) = k"
  have "\<exists>st'. realistic_fill p st = Inr st' \<and> ?P (k + 1) st'" if P: "?P k st" and k: "k + 1 \<le> 50000" for k st
  proof -
    have lt: "k < 2 ^ 62" "length (bs_active st) < 50000" using P k by simp_all
    obtain i b' seed' where ins: "insert_expect p ''unwrap'' (bs_book st) (bench_order (100 + bs_seed st mod 100) 100 Bid (bs_seed st)) = Inr (i, b')"
      "plus_u p (bs_seed st) 1 = Inr seed'"
      and keep: "\<And>st'. bs_book st' = b' \<Longrightarrow> bs_active st' = bs_active st @ [hash_from_seed (bs_seed st)] \<Longrightarrow> bs_seed st' = seed' \<Longrightarrow>
        mixed_state p (Suc k) st'"
      by (rule mixed_insert [OF conjunct1 [OF P] lt, where pr = "100 + bs_seed st mod 100"]) blast
    with P show ?thesis by (simp add: realistic_fill_def)
  qed
  from fold_res_count [of ?P 1 50000 "\<lambda>_. realistic_fill p", OF this, of 0 st "[0..<30000]"] assms that show thesis by auto
qed

lemma standard_iters:
  "unat (warmup Iters_STANDARD) + unat (measure Iters_STANDARD) = 1100000" "Iters_total p Iters_STANDARD = Inr 1100000"
  by (simp_all add: Iters_STANDARD_def Iters_total_def plus_u_ok)

text \<open>
  Every scenario of the book's benchmark runs to its end on both profiles without a panic: the arena
  is never full, the generator never collides with a resting hash, and the timed call takes the
  path its label names in every one of the 1.1 million iterations. Insertions at ascending prices open a new level each;
  insertions at one price keep one level; a pop always returns an order and the depth stays at 5000; a
  cancellation, in insertion order or in shuffled order, always finds the order it asks for; and in
  the mixed workload no cancellation misses.
\<close>

theorem book_inserts_sound:
  assumes "hdr_new pf = Some h0" and "hdr_accepts pf" and "rusage_ok p pf"
  shows "\<exists>sample b rs w'. insert_new_level p pf tpn w = Inr (sample, Inr (b, rs), w') \<and>
      map o_price (resting b Bid) = map of_nat (rev [1..<1100001])"
    and "\<exists>sample b rs w'. insert_existing_level p pf tpn w = Inr (sample, Inr (b, rs), w') \<and>
      resting b Bid = map (\<lambda>j. bench_order 100 100 Bid (of_nat j)) [0..<1100000]"
proof -
  have "unat (1100000 :: u64) \<in> {1100000, 1100050}" by simp
  then obtain b where b: "book_for p 1100000 = Inr b" "book_holds p 2097152 [] b" by (rule book_for_holds)
  have Ask: "resting b Bid = []" using b(2) by (simp add: book_holds_def)
  have le: "unat (warmup Iters_STANDARD) + unat (measure Iters_STANDARD) \<le> 2097152" by (simp add: standard_iters)
  have "ascending p 0 b" using b(2) Ask by (simp add: ascending_def)
  from new_level_scn.bench_ok [where tpn = tpn and l = "''insert_new_level''" and w = w, OF assms le this]
  show "\<exists>sample b rs w'. insert_new_level p pf tpn w = Inr (sample, Inr (b, rs), w') \<and>
      map o_price (resting b Bid) = map of_nat (rev [1..<1100001])"
    unfolding insert_new_level_def standard_iters rbind_Inr b(1) ascending_def by fastforce
  have "one_level p 0 b" using b(2) Ask by (simp add: one_level_def)
  from existing_level_scn.bench_ok [where tpn = tpn and l = "''insert_existing_level''" and w = w, OF assms le this]
  show "\<exists>sample b rs w'. insert_existing_level p pf tpn w = Inr (sample, Inr (b, rs), w') \<and>
      resting b Bid = map (\<lambda>j. bench_order 100 100 Bid (of_nat j)) [0..<1100000]"
    unfolding insert_existing_level_def standard_iters rbind_Inr b(1) one_level_def by blast
qed

theorem book_pops_sound:
  assumes "hdr_new pf = Some h0" and "hdr_accepts pf" and "rusage_ok p pf"
  shows "\<exists>sample st rs w'. pop_top_bench p pf tpn w = Inr (sample, Inr (st, rs), w') \<and> length rs = 1100000 \<and>
    None \<notin> set rs \<and> length (resting (ps_book st) Bid) = 5000"
proof -
  have "(0 :: u32) < 65536" "(65536 :: u32) < u32_MAX" by simp_all
  then obtain b where b: "OrderBook_new 1 65536 = Inr b" "book_holds p (unat (65536 :: u32)) [] b" by (rule new_book_holds)
  then have "pop_state p 0 0 \<lparr>ps_book = b, ps_seed = 0\<rparr>" by (simp add: pop_state_def)
  then obtain st where st: "fold_res (\<lambda>_. pop_replenish p) [0..<5000] \<lparr>ps_book = b, ps_seed = 0\<rparr> = Inr st" "pop_state p 5000 5000 st"
    by (rule pop_fill)
  have le: "unat (warmup Iters_STANDARD) + unat (measure Iters_STANDARD) \<le> 2 ^ 61" by (simp add: standard_iters)
  have "pop_state p 5000 (5000 + 0) st" using st(2) by simp
  from pop_scn.bench_ok [where tpn = tpn and l = "''pop_top''" and w = w, OF assms le this] obtain sample st' rs w' where
    r: "run_scenario_of p pf tpn ''pop_top'' Iters_STANDARD (pop_prepare p) (pop_op p) st w = Inr (sample, Inr (st', rs), w')"
    "length rs = 1100000" "\<forall>k < length rs. rs ! k \<noteq> None" "pop_state p 5000 (5000 + 1100000) st'"
    unfolding standard_iters by blast
  from r(4) obtain hs where "book_holds p 65536 hs (ps_book st')" "length hs = 5000" by (auto simp: pop_state_def)
  then have "length (resting (ps_book st') Bid) = 5000" unfolding book_holds_def by (metis length_map mset_eq_length)
  moreover have "None \<notin> set rs" using r(3) by (metis in_set_conv_nth)
  ultimately show ?thesis
    using r(1,2) st(1) unfolding pop_top_bench_def b(1) rbind_Inr by (auto simp: LEVEL_DEPTH_def)
qed

lemma cancel_bench_ok:
  assumes "hdr_new pf = Some h0" and "hdr_accepts pf" and "rusage_ok p pf"
    and "book_holds p 2097152 hs b" and "length hs = 1100050"
  shows "\<exists>sample b' rs w'. run_scenario_of p pf tpn l Iters_STANDARD (cancel_prepare hs) (cancel_op p) b w =
      Inr (sample, Inr (b', rs), w') \<and> map (map_option o_intent_hash) rs = map Some (take 1100000 hs)"
proof -
  have le: "unat (warmup Iters_STANDARD) + unat (measure Iters_STANDARD) \<le> min (length hs) (2 ^ 63)"
    using assms(5) by (simp add: standard_iters)
  have "book_holds p 2097152 (drop 0 hs) b" using assms(4) by simp
  from cancel_scn.bench_ok [where tpn = tpn and l = l and w = w, OF assms(1-3) le this] obtain sample b' rs w' where
    r: "run_scenario_of p pf tpn l Iters_STANDARD (cancel_prepare hs) (cancel_op p) b w = Inr (sample, Inr (b', rs), w')"
    "length rs = 1100000" "\<forall>k < length rs. \<exists>x. rs ! k = Some x \<and> o_intent_hash x = hs ! k"
    unfolding standard_iters by blast
  have "map (map_option o_intent_hash) rs = map Some (take 1100000 hs)"
    by (rule nth_equalityI) (use r(2,3) assms(5) in auto)
  with r(1) show ?thesis by blast
qed

theorem book_cancels_sound:
  assumes "hdr_new pf = Some h0" and "hdr_accepts pf" and "rusage_ok p pf"
  shows "\<exists>sample b rs w'. cancel_oldest_bench p pf tpn w = Inr (sample, Inr (b, rs), w') \<and>
      map (map_option o_intent_hash) rs = map Some (seeds 1100000)"
    and "\<exists>sample b rs w'. cancel_random_bench p pf tpn w = Inr (sample, Inr (b, rs), w') \<and>
      length rs = 1100000 \<and> None \<notin> set rs"
proof -
  have n: "plus_u p 1100000 (of_nat LEVEL_DEPTH) = Inr (1100050 :: u64)"
    by (simp add: LEVEL_DEPTH_def plus_u_ok)
  obtain b where b: "build_deep_book p 1100050 = Inr (b, seeds 1100050)" "book_holds p 2097152 (seeds 1100050) b"
    by (rule build_deep_book_ok)
  have "take 1100000 (seeds 1100050) = seeds 1100000" by (simp add: take_map)
  with cancel_bench_ok [where tpn = tpn and l = "''cancel_oldest''" and w = w, OF assms b(2)]
  show "\<exists>sample b rs w'. cancel_oldest_bench p pf tpn w = Inr (sample, Inr (b, rs), w') \<and>
      map (map_option o_intent_hash) rs = map Some (seeds 1100000)"
    unfolding cancel_oldest_bench_def standard_iters rbind_Inr n b(1) prod.case by simp
  obtain hs g where hs: "shuffle (seeds 1100050) (Lcg_new 0xCAFEF00D) = Inr (hs, g)" "mset hs = mset (seeds 1100050)"
    using shuffle_from_perm [of "1100049" "seeds 1100050" "Lcg_new 0xCAFEF00D"] by (auto simp: shuffle_def)
  have len: "length hs = 1100050" using mset_eq_length [OF hs(2)] by simp
  have "book_holds p 2097152 hs b" using b(2) hs(2) by (simp add: book_holds_def)
  from cancel_bench_ok [where tpn = tpn and l = "''cancel_random''" and w = w, OF assms this len] obtain sample b' rs w' where
    r: "run_scenario_of p pf tpn ''cancel_random'' Iters_STANDARD (cancel_prepare hs) (cancel_op p) b w = Inr (sample, Inr (b', rs), w')"
    "map (map_option o_intent_hash) rs = map Some (take 1100000 hs)" by blast
  have "length rs = 1100000" using arg_cong [OF r(2), of length] len unfolding length_map length_take by simp
  moreover have "None \<notin> set rs"
  proof
    assume "None \<in> set rs"
    then have "None \<in> map_option o_intent_hash ` set rs" by (rule rev_image_eqI) simp
    moreover have "map_option o_intent_hash ` set rs = Some ` set (take 1100000 hs)" using arg_cong [OF r(2), of set] by simp
    ultimately show False by auto
  qed
  ultimately show "\<exists>sample b rs w'. cancel_random_bench p pf tpn w = Inr (sample, Inr (b, rs), w') \<and>
      length rs = 1100000 \<and> None \<notin> set rs"
    using r(1) unfolding cancel_random_bench_def standard_iters rbind_Inr n b(1) prod.case hs(1) by blast
qed

theorem book_mixed_sound:
  assumes "hdr_new pf = Some h0" and "hdr_accepts pf" and "rusage_ok p pf"
  shows "\<exists>sample st rs w'. book_realistic_workload p pf tpn w = Inr (sample, Inr (st, rs), w') \<and> length rs = 1100000 \<and>
    Some None \<notin> set rs \<and> length (resting (bs_book st) Bid) \<le> 50000"
proof -
  have "(0 :: u32) < 65536" "(65536 :: u32) < u32_MAX" by simp_all
  then obtain b where b: "OrderBook_new 1 65536 = Inr b" "book_holds p (unat (65536 :: u32)) [] b" by (rule new_book_holds)
  let ?s0 = "\<lparr>bs_book = b, bs_active = [], bs_seed = 0, bs_rng = Lcg_new 0x9E3779B9\<rparr>"
  have "mixed_state p 0 ?s0" "bs_active ?s0 = []" using b by (simp_all add: mixed_state_def)
  then obtain st where st: "fold_res (\<lambda>_. realistic_fill p) [0..<30000] ?s0 = Inr st" "mixed_state p 30000 st" by (rule mixed_fill)
  have le: "unat (warmup Iters_STANDARD) + unat (measure Iters_STANDARD) \<le> 2 ^ 61" by (simp add: standard_iters)
  have "mixed_state p (30000 + 0) st" using st(2) by simp
  from mixed_scn.bench_ok [where tpn = tpn and l = "''realistic_workload''" and w = w, OF assms le this] obtain sample st' rs w' where
    r: "run_scenario_of p pf tpn ''realistic_workload'' Iters_STANDARD (realistic_prepare p) (realistic_op p) st w = Inr (sample, Inr (st', rs), w')"
    "length rs = 1100000" "\<forall>k < length rs. rs ! k \<noteq> Some None" "mixed_state p (30000 + 1100000) st'"
    unfolding standard_iters by blast
  from r(4) have "book_holds p 65536 (bs_active st') (bs_book st')" "length (bs_active st') \<le> 50000" by (auto simp: mixed_state_def)
  then have "length (resting (bs_book st') Bid) \<le> 50000" unfolding book_holds_def by (metis length_map mset_eq_length)
  moreover have "Some None \<notin> set rs" using r(3) by (metis in_set_conv_nth)
  ultimately show ?thesis using r(1,2) st(1) unfolding book_realistic_workload_def b(1) rbind_Inr by auto
qed

end
