(* ===== verification/Matcher_Bench.thy ===== *)
theory Matcher_Bench
  imports Alloc_Workload Book_Bench
begin

text \<open>
  The scenarios of \<open>matcher/benches/matcher_bench.rs\<close> and the fixtures of \<open>matcher_iai.rs\<close>: what each
  prepares, what it times and the set-up before. A timed call returns the events it emitted.
\<close>

section \<open>Fixtures\<close>

definition matcher_req :: "Side \<Rightarrow> u64 \<Rightarrow> u64 \<Rightarrow> TimeInForce \<Rightarrow> RequestType \<Rightarrow> u64 \<Rightarrow> OrderRequest" where
  "matcher_req side price qty tif rtype seed =
     \<lparr>rq_price = price, rq_quantity = qty, rq_origin_ts = 0, rq_instrument_id = INSTR, rq_side = side,
      rq_order_type = Limit, rq_tif = tif, rq_request_type = rtype, rq_intent_hash = hash_from_seed seed\<rparr>"

definition cancel_hash_req :: "IntentHash \<Rightarrow> OrderRequest" where
  "cancel_hash_req h = (matcher_req Bid 0 0 GTC RqCancel 0)\<lparr>rq_intent_hash := h\<rparr>"

definition new_engine :: "u32 \<Rightarrow> Engine res" where
  "new_engine capacity =
     rbind (add_instrument Engine_new INSTR capacity) (\<lambda>(e, r).
       case r of Inr _ \<Rightarrow> Inr e | Inl _ \<Rightarrow> Inl (Panic ''add_instrument''))"

record BenchBook =
  bb_engine :: Engine
  bb_buf :: "OrderEvent list"

definition Book_new :: "u32 \<Rightarrow> BenchBook res" where
  "Book_new capacity = rbind (new_engine capacity) (\<lambda>e. Inr \<lparr>bb_engine = e, bb_buf = []\<rparr>)"

definition Book_process :: "profile \<Rightarrow> BenchBook \<Rightarrow> OrderRequest \<Rightarrow> BenchBook res" where
  "Book_process p b r =
     rbind (Engine_process Vec_emit p (bb_engine b) r []) (\<lambda>(e, buf). Inr \<lparr>bb_engine = e, bb_buf = buf\<rparr>)"

text \<open>The timed closure: the same two statements, with the events as its result.\<close>

definition process_op :: "profile \<Rightarrow> BenchBook \<Rightarrow> OrderRequest \<Rightarrow> (OrderEvent list \<times> BenchBook) res" where
  "process_op p b r = rbind (Book_process p b r) (\<lambda>b. Inr (bb_buf b, b))"

text \<open>The capacity of the scenarios that only add: \<open>(n as u32).next_power_of_two()\<close>.\<close>

definition Book_for :: "profile \<Rightarrow> usize \<Rightarrow> BenchBook res" where
  "Book_for p n = rbind (next_power_of_two p (ucast n)) Book_new"

section \<open>Scenarios that rest, cancel and miss\<close>

definition rest_new_prepare :: "profile \<Rightarrow> BenchBook \<Rightarrow> usize \<Rightarrow> (OrderRequest \<times> BenchBook) res" where
  "rest_new_prepare p b i = rbind (plus_u p i 1) (\<lambda>price. Inr (matcher_req Bid price 100 GTC RqNew i, b))"

definition rest_new_level where
  "rest_new_level p pf tpn w =
     rbind (Iters_total p Iters_STANDARD) (\<lambda>total. rbind (Book_for p total) (\<lambda>b.
       run_scenario_of p pf tpn ''rest_new_level'' Iters_STANDARD (rest_new_prepare p) (process_op p) b w))"

definition rest_existing_prepare :: "BenchBook \<Rightarrow> usize \<Rightarrow> (OrderRequest \<times> BenchBook) res" where
  "rest_existing_prepare b i = Inr (matcher_req Bid 1000000 100 GTC RqNew i, b)"

definition rest_existing_level where
  "rest_existing_level p pf tpn w =
     rbind (Iters_total p Iters_STANDARD) (\<lambda>total. rbind (Book_for p total) (\<lambda>b.
       run_scenario_of p pf tpn ''rest_existing_level'' Iters_STANDARD rest_existing_prepare (process_op p) b w))"

definition hit_insert :: "profile \<Rightarrow> nat \<Rightarrow> BenchBook \<times> IntentHash list \<times> u64 \<Rightarrow> (BenchBook \<times> IntentHash list \<times> u64) res" where
  "hit_insert p level_idx = (\<lambda>(b, hashes, seed).
     let r = matcher_req Bid (of_nat (level_idx + 1)) 100 GTC RqNew seed in
     rbind (Book_process p b r) (\<lambda>b.
     rbind (plus_u p seed 1) (\<lambda>seed. Inr (b, hashes @ [rq_intent_hash r], seed))))"

definition hit_prepare :: "IntentHash list \<Rightarrow> BenchBook \<Rightarrow> usize \<Rightarrow> (OrderRequest \<times> BenchBook) res" where
  "hit_prepare hashes b i =
     rbind (expect ''index out of bounds'' (slice_get hashes (unat i))) (\<lambda>h. Inr (cancel_hash_req h, b))"

definition cancel_hit where
  "cancel_hit p pf tpn w =
     rbind (Iters_total p Iters_STANDARD) (\<lambda>total.
     let num_levels = unat total div LEVEL_DEPTH + 1; n = num_levels * LEVEL_DEPTH in
     rbind (Book_for p (of_nat n)) (\<lambda>b.
     rbind (fold_res (\<lambda>level_idx. fold_res (\<lambda>_. hit_insert p level_idx) [0..<LEVEL_DEPTH]) [0..<num_levels] (b, [], 0)) (\<lambda>(b, hashes, _).
     rbind (shuffle hashes (Lcg_new 0xCAFEF00D)) (\<lambda>(hashes, _).
       run_scenario_of p pf tpn ''cancel_hit'' Iters_STANDARD (hit_prepare hashes) (process_op p) b w))))"

text \<open>The closure of \<open>cancel_miss\<close> owns its counter.\<close>

definition miss_op :: "profile \<Rightarrow> BenchBook \<times> u64 \<Rightarrow> unit \<Rightarrow> (OrderEvent list \<times> BenchBook \<times> u64) res" where
  "miss_op p = (\<lambda>(b, miss_seed) x.
     let c = cancel_hash_req (hash_from_seed miss_seed) in
     rbind (plus_u p miss_seed 1) (\<lambda>miss_seed.
     rbind (Book_process p b c) (\<lambda>b. Inr (bb_buf b, b, miss_seed))))"

definition cancel_miss where
  "cancel_miss p pf tpn w =
     rbind (Book_new 65536) (\<lambda>b.
     rbind (fold_res (\<lambda>k b. Book_process p b (matcher_req Bid (100 + of_nat k mod 100) 100 GTC RqNew (of_nat k))) [0..<30000] b) (\<lambda>b.
       run_scenario_of p pf tpn ''cancel_miss'' Iters_STANDARD no_prepare (miss_op p) (b, 1000000000) w))"

section \<open>Scenarios that cross\<close>

record SeedSt =
  ss_book :: BenchBook
  ss_seed :: u64

text \<open>A request with the next seed, and an order that rests with it.\<close>

definition fresh_req :: "profile \<Rightarrow> Side \<Rightarrow> u64 \<Rightarrow> u64 \<Rightarrow> TimeInForce \<Rightarrow> SeedSt \<Rightarrow> (OrderRequest \<times> SeedSt) res" where
  "fresh_req p side price qty tif st =
     rbind (plus_u p (ss_seed st) 1) (\<lambda>seed.
       Inr (matcher_req side price qty tif RqNew (ss_seed st), st\<lparr>ss_seed := seed\<rparr>))"

definition add_order :: "profile \<Rightarrow> Side \<Rightarrow> u64 \<Rightarrow> u64 \<Rightarrow> SeedSt \<Rightarrow> SeedSt res" where
  "add_order p side price qty st =
     rbind (fresh_req p side price qty GTC st) (\<lambda>(r, st).
     rbind (Book_process p (ss_book st) r) (\<lambda>b. Inr (st\<lparr>ss_book := b\<rparr>)))"

definition seed_op :: "profile \<Rightarrow> SeedSt \<Rightarrow> OrderRequest \<Rightarrow> (OrderEvent list \<times> SeedSt) res" where
  "seed_op p st r = rbind (Book_process p (ss_book st) r) (\<lambda>b. Inr (bb_buf b, st\<lparr>ss_book := b\<rparr>))"

definition cross_prepare :: "profile \<Rightarrow> u64 \<Rightarrow> TimeInForce \<Rightarrow> SeedSt \<Rightarrow> usize \<Rightarrow> (OrderRequest \<times> SeedSt) res" where
  "cross_prepare p n tif st i =
     rbind (fold_res (\<lambda>lvl st. rbind (plus_u p 100 lvl) (\<lambda>price. add_order p Ask price 1 st)) (usize_upto n) st) (\<lambda>st.
     rbind (plus_u p 100 n) (\<lambda>price. fresh_req p Bid price n tif st))"

definition cross where
  "cross p pf tpn l n tif w =
     rbind (Book_new 65536) (\<lambda>b.
       run_scenario_of p pf tpn l Iters_LIGHT (cross_prepare p n tif) (seed_op p) \<lparr>ss_book = b, ss_seed = 0\<rparr> w)"

definition touch_prepare :: "profile \<Rightarrow> u64 \<Rightarrow> SeedSt \<Rightarrow> usize \<Rightarrow> (OrderRequest \<times> SeedSt) res" where
  "touch_prepare p m st i =
     rbind (fold_res (\<lambda>_. add_order p Ask 100 1) (usize_upto m) st) (\<lambda>st. fresh_req p Bid 100 m IOC st)"

definition cross_touch_depth where
  "cross_touch_depth p pf tpn l m bg w =
     rbind (Book_new 262144) (\<lambda>b.
     rbind (fold_res (\<lambda>lvl st. rbind (plus_u p 101 lvl) (\<lambda>price. add_order p Ask price 1 st)) (usize_upto bg) \<lparr>ss_book = b, ss_seed = 0\<rparr>) (\<lambda>st.
       run_scenario_of p pf tpn l Iters_LIGHT (touch_prepare p m) (seed_op p) st w))"

text \<open>A static book of 16 asks, and a taker that never changes it.\<close>

definition static_asks :: "profile \<Rightarrow> u64 \<Rightarrow> BenchBook res" where
  "static_asks p price =
     rbind (Book_new 4096) (\<lambda>b.
       fold_res (\<lambda>lvl b. rbind (plus_u p price lvl) (\<lambda>pr. Book_process p b (matcher_req Ask pr 1 GTC RqNew lvl))) (usize_upto 16) b)"

definition static_op :: "profile \<Rightarrow> OrderRequest \<Rightarrow> BenchBook \<Rightarrow> unit \<Rightarrow> (OrderEvent list \<times> BenchBook) res" where
  "static_op p taker b x = process_op p b taker"

definition fok_fail_fast where
  "fok_fail_fast p pf tpn w =
     rbind (static_asks p 1000) (\<lambda>b.
       run_scenario_of p pf tpn ''fok_fail_fast'' Iters_STANDARD no_prepare (static_op p (matcher_req Bid 100 10 FOK RqNew 1000)) b w)"

definition fok_fail_deep where
  "fok_fail_deep p pf tpn w =
     rbind (static_asks p 100) (\<lambda>b.
       run_scenario_of p pf tpn ''fok_fail_deep'' Iters_STANDARD no_prepare (static_op p (matcher_req Bid (100 + 16) (16 + 1) FOK RqNew 1000)) b w)"

definition ioc_no_liquidity where
  "ioc_no_liquidity p pf tpn w =
     rbind (Book_new 64) (\<lambda>b.
       run_scenario_of p pf tpn ''ioc_no_liquidity'' Iters_STANDARD no_prepare (static_op p (matcher_req Bid 100 10 IOC RqNew 1)) b w)"

record PartialSt =
  pt_book :: BenchBook
  pt_seed :: u64
  pt_last_taker :: "u64 option"

definition partial_prepare :: "profile \<Rightarrow> PartialSt \<Rightarrow> usize \<Rightarrow> (OrderRequest \<times> PartialSt) res" where
  "partial_prepare p st i =
     rbind (case pt_last_taker st of
              None \<Rightarrow> Inr (pt_book st)
            | Some prev \<Rightarrow> Book_process p (pt_book st) (cancel_hash_req (hash_from_seed prev))) (\<lambda>b.
     rbind (plus_u p (pt_seed st) 1) (\<lambda>taker_seed.
     rbind (Book_process p b (matcher_req Ask 100 1 GTC RqNew (pt_seed st))) (\<lambda>b.
     rbind (plus_u p taker_seed 1) (\<lambda>seed.
       Inr (matcher_req Bid 100 2 GTC RqNew taker_seed,
            \<lparr>pt_book = b, pt_seed = seed, pt_last_taker = Some taker_seed\<rparr>)))))"

definition partial_op :: "profile \<Rightarrow> PartialSt \<Rightarrow> OrderRequest \<Rightarrow> (OrderEvent list \<times> PartialSt) res" where
  "partial_op p st r = rbind (Book_process p (pt_book st) r) (\<lambda>b. Inr (bb_buf b, st\<lparr>pt_book := b\<rparr>))"

definition partial_then_rest where
  "partial_then_rest p pf tpn w =
     rbind (Book_new 65536) (\<lambda>b.
       run_scenario_of p pf tpn ''partial_then_rest'' Iters_LIGHT (partial_prepare p) (partial_op p)
         \<lparr>pt_book = b, pt_seed = 0, pt_last_taker = None\<rparr> w)"

section \<open>The mixed scenario\<close>

record MixedSt =
  mx_book :: BenchBook
  mx_active :: "IntentHash list"
  mx_seed :: u64
  mx_rng :: Lcg

text \<open>The side and price of a passive order around the mid price of 1000; the offset is below 50, so that
  neither expression wraps.\<close>

definition passive_quote :: "u64 \<Rightarrow> Side \<times> u64" where
  "passive_quote rv = (if rv AND 1 = 0 then (Bid, 1000 - 1 - drop_bit 1 rv mod 50) else (Ask, 1000 + 1 + drop_bit 1 rv mod 50))"

definition passive_fill :: "profile \<Rightarrow> MixedSt \<Rightarrow> MixedSt res" where
  "passive_fill p st =
     (let (rv, g) = next_u64 (mx_rng st); (side, price) = passive_quote rv;
          r = matcher_req side price 1 GTC RqNew (mx_seed st) in
      rbind (Book_process p (mx_book st) r) (\<lambda>b.
      rbind (plus_u p (mx_seed st) 1) (\<lambda>seed.
        Inr \<lparr>mx_book = b, mx_active = mx_active st @ [rq_intent_hash r], mx_seed = seed, mx_rng = g\<rparr>)))"

definition mixed_prepare :: "profile \<Rightarrow> MixedSt \<Rightarrow> usize \<Rightarrow> (OrderRequest \<times> MixedSt) res" where
  "mixed_prepare p st i =
     (let (r1, g) = next_u64 (mx_rng st); pick = r1 mod 100; (rv, g) = next_u64 g in
      if pick < 60 \<and> length (mx_active st) < 80000 then
        let (side, price) = passive_quote rv; r = matcher_req side price 1 GTC RqNew (mx_seed st) in
        rbind (plus_u p (mx_seed st) 1) (\<lambda>seed.
          Inr (r, st\<lparr>mx_active := mx_active st @ [rq_intent_hash r], mx_seed := seed, mx_rng := g\<rparr>))
      else if pick < 90 \<and> mx_active st \<noteq> [] then
        rbind (swap_remove (mx_active st) (unat rv mod length (mx_active st))) (\<lambda>(h, active).
          Inr (cancel_hash_req h, st\<lparr>mx_active := active, mx_rng := g\<rparr>))
      else
        let (side, price) = (if rv AND 1 = 0 then (Bid, 1000 + 1000) else (Ask, 1));
            r = matcher_req side price 3 IOC RqNew (mx_seed st) in
        rbind (plus_u p (mx_seed st) 1) (\<lambda>seed. Inr (r, st\<lparr>mx_seed := seed, mx_rng := g\<rparr>)))"

definition mixed_op :: "profile \<Rightarrow> MixedSt \<Rightarrow> OrderRequest \<Rightarrow> (OrderEvent list \<times> MixedSt) res" where
  "mixed_op p st r = rbind (Book_process p (mx_book st) r) (\<lambda>b. Inr (bb_buf b, st\<lparr>mx_book := b\<rparr>))"

definition realistic_workload where
  "realistic_workload p pf tpn w =
     rbind (Book_new 131072) (\<lambda>b.
     rbind (fold_res (\<lambda>_. passive_fill p) [0..<30000] \<lparr>mx_book = b, mx_active = [], mx_seed = 0, mx_rng = Lcg_new 0x9E3779B9\<rparr>) (\<lambda>st.
       run_scenario_of p pf tpn ''realistic_workload'' Iters_STANDARD (mixed_prepare p) (mixed_op p) st w))"

section \<open>The raw book\<close>

definition raw_mk :: "profile \<Rightarrow> u64 \<Rightarrow> Order res" where
  "raw_mk p seed =
     rbind (plus_u p seed 1) (\<lambda>price.
       Inr \<lparr>o_order_id = OrderId seed, o_price = price, o_quantity = 100, o_origin_ts = 0, o_instrument_id = INSTR,
            o_side = Bid, o_order_type = Limit, o_tif = GTC, o_padding = 0, o_intent_hash = hash_from_seed seed\<rparr>)"

definition raw_prepare :: "profile \<Rightarrow> OrderBook \<Rightarrow> usize \<Rightarrow> (Order \<times> OrderBook) res" where
  "raw_prepare p b i = rbind (raw_mk p i) (\<lambda>x. Inr (x, b))"

definition raw_book_insert where
  "raw_book_insert p pf tpn w =
     rbind (Iters_total p Iters_STANDARD) (\<lambda>total. rbind (next_power_of_two p (ucast total)) (\<lambda>cap.
     rbind (OrderBook_new INSTR cap) (\<lambda>b.
       run_scenario_of p pf tpn ''raw_book_insert'' Iters_STANDARD (raw_prepare p) (insert_expect p ''arena capacity'') b w)))"

section \<open>matcher\_iai.rs\<close>

type_synonym Fixture = "Engine \<times> OrderRequest \<times> OrderEvent list"

definition iai_req :: "Side \<Rightarrow> u64 \<Rightarrow> u64 \<Rightarrow> TimeInForce \<Rightarrow> u64 \<Rightarrow> OrderRequest" where
  "iai_req side price qty tif seed =
     \<lparr>rq_price = price, rq_quantity = qty, rq_origin_ts = 0, rq_instrument_id = INSTR, rq_side = side,
      rq_order_type = Limit, rq_tif = tif, rq_request_type = RqNew, rq_intent_hash = hash_from_seed seed\<rparr>"

definition iai_engine :: "Engine res" where
  "iai_engine =
     rbind (add_instrument Engine_new INSTR 1024) (\<lambda>(e, r). case r of Inr _ \<Rightarrow> Inr e | Inl _ \<Rightarrow> Inl (Panic ''unwrap''))"

definition setup_rest :: "Fixture res" where
  "setup_rest = rbind iai_engine (\<lambda>e. Inr (e, iai_req Bid 100 10 GTC 1, []))"

text \<open>One round of the loop of \<open>setup_cross\<close>, over its locals: the engine with the buffer, and the seed.\<close>

definition iai_add :: "profile \<Rightarrow> u64 \<Rightarrow> SeedSt \<Rightarrow> SeedSt res" where
  "iai_add p lvl st =
     rbind (plus_u p 100 lvl) (\<lambda>price.
     rbind (Book_process p (ss_book st) (iai_req Ask price 1 GTC (ss_seed st))) (\<lambda>b.
     rbind (plus_u p (ss_seed st) 1) (\<lambda>seed. Inr \<lparr>ss_book = b, ss_seed = seed\<rparr>)))"

definition setup_cross :: "profile \<Rightarrow> u64 \<Rightarrow> Fixture res" where
  "setup_cross p asks =
     rbind iai_engine (\<lambda>e.
     rbind (fold_res (iai_add p) (usize_upto asks) \<lparr>ss_book = \<lparr>bb_engine = e, bb_buf = []\<rparr>, ss_seed = 0\<rparr>) (\<lambda>st.
     rbind (plus_u p 100 asks) (\<lambda>price. Inr (bb_engine (ss_book st), iai_req Bid price asks IOC (ss_seed st), []))))"

definition setup_fok_fail :: "profile \<Rightarrow> Fixture res" where
  "setup_fok_fail p = rbind (setup_cross p 16) (\<lambda>(e, _, buf). Inr (e, iai_req Bid 200 17 FOK 9999, buf))"

definition run_one :: "profile \<Rightarrow> Fixture \<Rightarrow> Fixture res" where
  "run_one p = (\<lambda>(e, taker, buf). rbind (Engine_process Vec_emit p e taker []) (\<lambda>(e, buf). Inr (e, taker, buf)))"

end
