(* ===== verification/Matcher_Bench_Props.thy ===== *)
theory Matcher_Bench_Props
  imports Matcher_Bench
begin

text \<open>
  The scenarios of \<open>Matcher_Bench\<close> are sound: the contract of each is an interpretation of the locale
  \<open>scenario\<close>, whose invariant gives the two queues of the one instrument on the abstract exchange, and
  the theorems at the end run each scenario from its fresh engine through the runner.
\<close>

section \<open>One call on the exchange\<close>

definition mkt :: "nat \<Rightarrow> Order list \<Rightarrow> Order list \<Rightarrow> u64 \<Rightarrow> exchange" where
  "mkt cap bids asks n =
     \<lparr>ex_market = [1 \<mapsto> \<lparr>mk_capacity = cap, mk_queue = (\<lambda>s. case s of Bid \<Rightarrow> bids | Ask \<Rightarrow> asks)\<rparr>], ex_next_id = n\<rparr>"

definition at_market :: "profile \<Rightarrow> nat \<Rightarrow> Order list \<Rightarrow> Order list \<Rightarrow> nat \<Rightarrow> BenchBook \<Rightarrow> bool" where
  "at_market p cap bids asks n b \<longleftrightarrow> engine_inv p (bb_engine b) \<and> exchange_of (bb_engine b) = mkt cap bids asks (of_nat n)"

lemma matcher_req_simps [simp]:
  "rq_request_type (matcher_req s pr q f t h) = t" "rq_instrument_id (matcher_req s pr q f t h) = 1"
  "rq_side (matcher_req s pr q f t h) = s" "rq_price (matcher_req s pr q f t h) = pr"
  "rq_quantity (matcher_req s pr q f t h) = q" "rq_tif (matcher_req s pr q f t h) = f"
  "rq_intent_hash (matcher_req s pr q f t h) = hash_from_seed h" "rq_origin_ts (matcher_req s pr q f t h) = 0"
  by (simp_all add: matcher_req_def INSTR_def)

lemma cancel_hash_req_simps [simp]:
  "rq_request_type (cancel_hash_req h) = RqCancel" "rq_instrument_id (cancel_hash_req h) = 1"
  "rq_intent_hash (cancel_hash_req h) = h" "rq_origin_ts (cancel_hash_req h) = 0" "rq_tif (cancel_hash_req h) = GTC"
  "rq_quantity (cancel_hash_req h) = 0"
  by (simp_all add: cancel_hash_req_def)

lemma Book_process_ok:
  assumes "at_market p cap bids asks n b" and "n + 1 < 2 ^ 63" and "rq_instrument_id r = 1"
    and "rq_request_type r \<noteq> RqAmend" and "volume bids + volume asks + unat (rq_quantity r) < 2 ^ 64"
    and "exchange_step (mkt cap bids asks (of_nat n), []) (Process r) = (mkt cap bids' asks' (of_nat m), evs)"
  obtains b' where "Book_process p b r = Inr b'" and "bb_buf b' = evs" and "at_market p cap bids' asks' m b'"
proof -
  have u: "unat (of_nat n :: u64) = n" using assms(2) by (intro unat_of_nat_u64) simp
  have "offered \<lparr>mk_capacity = cap, mk_queue = (\<lambda>s. case s of Bid \<Rightarrow> bids | Ask \<Rightarrow> asks)\<rparr> r \<le> volume bids + volume asks"
    unfolding offered_def by (cases "rq_side r") (auto intro: order_trans [OF volume_filter_le])
  then have "exchange_allows p (exchange_of (bb_engine b), []) (Process r)"
    using assms(1-5) u by (simp add: at_market_def mkt_def market_orders_def)
  moreover have "engine_inv p (bb_engine b)" "exchange_of (bb_engine b) = mkt cap bids asks (of_nat n)"
    using assms(1) by (simp_all add: at_market_def)
  ultimately obtain e' where "Engine_process Vec_emit p (bb_engine b) r [] = Inr (e', evs)" "engine_inv p e'"
    "exchange_of e' = mkt cap bids' asks' (of_nat m)"
    using process_by_exchange [of p "bb_engine b" r] assms(6) by (metis (no_types))
  with that show thesis by (simp add: Book_process_def at_market_def)
qed

lemma process_new_ok:
  assumes "at_market p cap bids asks n b" and "n + 1 < 2 ^ 63" and "volume bids + volume asks + unat q < 2 ^ 64"
    and "exchange_step (mkt cap bids asks (of_nat n), []) (Process (matcher_req s pr q f RqNew h)) = (mkt cap bids' asks' (of_nat m), evs)"
  obtains b' where "Book_process p b (matcher_req s pr q f RqNew h) = Inr b'" and "bb_buf b' = evs" and "at_market p cap bids' asks' m b'"
  by (rule Book_process_ok [OF assms(1,2) _ _ _ assms(4)]) (use assms(3) in simp_all)

lemma process_cancel_ok:
  assumes "at_market p cap bids asks n b" and "n + 1 < 2 ^ 63" and "volume bids + volume asks < 2 ^ 64"
    and "exchange_step (mkt cap bids asks (of_nat n), []) (Process (cancel_hash_req h)) = (mkt cap bids' asks' (of_nat m), evs)"
  obtains b' where "Book_process p b (cancel_hash_req h) = Inr b'" and "bb_buf b' = evs" and "at_market p cap bids' asks' m b'"
  by (rule Book_process_ok [OF assms(1,2) _ _ _ assms(4)]) (use assms(3) in simp_all)

lemma Book_new_ok:
  assumes "0 < cap" and "cap < MAX_CAPACITY"
  obtains b where "Book_new cap = Inr b" and "at_market p (unat cap) [] [] 0 b"
proof -
  have cap: "cap \<noteq> u32_MAX" "cap \<noteq> 0" using assms by (auto simp: MAX_CAPACITY_def)
  from add_refines [where p = p, OF engine_inv_new cap(1), of 1] obtain e r where
    e: "add_instrument Engine_new 1 cap = Inr (e, r)" "engine_inv p e" "exchange_of e = exchange_add exchange_new 1 cap"
    by (auto simp: exchange_of_new)
  have x: "exchange_add exchange_new 1 cap = mkt (unat cap) [] [] 0"
    using cap assms(2) by (auto simp: exchange_add_def exchange_new_def mkt_def fun_eq_iff split: Side.split)
  have "r = Inr ()"
  proof (rule ccontr)
    assume "r \<noteq> Inr ()"
    then have "e = Engine_new" using e(1) by (auto simp: add_instrument_def rbind_eq_Inr split: if_splits)
    with e(3) x have "exchange_new = mkt (unat cap) [] [] 0" by (simp add: exchange_of_new)
    then show False by (auto simp: exchange_new_def mkt_def fun_eq_iff dest: spec [of _ 1])
  qed
  with e x that show thesis by (simp add: Book_new_def new_engine_def INSTR_def at_market_def)
qed

subsection \<open>Resting and cancelling\<close>

lemma sweep_none: "\<forall>x \<in> set q. \<not> cr (o_price x) \<Longrightarrow> sweep cr r q = ([], r, q)"
  by (cases q) auto

lemma exchange_rest:
  assumes "q \<noteq> 0" and "pr \<noteq> 0" and "length bids + length asks < cap"
    and "hash_from_seed h \<notin> o_intent_hash ` set (bids @ asks)"
    and "\<forall>x \<in> set (case s of Bid \<Rightarrow> asks | Ask \<Rightarrow> bids). \<not> crossing s pr (o_price x)"
    and "x = resting_order (matcher_req s pr q GTC RqNew h) n q"
  shows "exchange_step (mkt cap bids asks n, []) (Process (matcher_req s pr q GTC RqNew h)) =
    (case s of Bid \<Rightarrow> mkt cap (enqueue Bid x bids) asks (n + 1) | Ask \<Rightarrow> mkt cap bids (enqueue Ask x asks) (n + 1), [EvNew x])"
  using assms
  by (cases s) (auto simp: mkt_def exchange_new_order_def market_trade_def market_rest_def market_orders_def Let_def
      sweep_none side_fun_upd)

definition bids_hold :: "IntentHash list \<Rightarrow> Order list \<Rightarrow> bool" where
  "bids_hold hs bids \<longleftrightarrow> mset (map o_intent_hash bids) = mset hs \<and> (\<forall>x \<in> set bids. o_quantity x = 100)"

lemma bids_holdD:
  assumes "bids_hold hs bids"
  shows "o_intent_hash ` set bids = set hs" "length bids = length hs" "volume bids = 100 * length hs"
proof -
  from assms have m: "mset (map o_intent_hash bids) = mset hs" and q: "\<forall>x \<in> set bids. o_quantity x = 100" by (simp_all add: bids_hold_def)
  show "o_intent_hash ` set bids = set hs" using m by (metis list.set_map mset_eq_setD)
  show l: "length bids = length hs" using mset_eq_length [OF m] by simp
  show "volume bids = 100 * length hs" using volume_hundreds [OF q] l by simp
qed

lemma rest_bid:
  assumes "at_market p cap bids [] n b" and "bids_hold hs bids" and "hash_from_seed h \<notin> set hs" and "length hs < cap"
    and "cap < 2 ^ 32" and "n + 1 < 2 ^ 63" and "pr \<noteq> 0"
  obtains b' x bids' where "Book_process p b (matcher_req Bid pr 100 GTC RqNew h) = Inr b'" and "bb_buf b' = [EvNew x]"
    and "at_market p cap bids' [] (Suc n) b'" and "bids_hold (hs @ [hash_from_seed h]) bids'"
proof -
  note d = bids_holdD [OF assms(2)]
  let ?r = "matcher_req Bid pr 100 GTC RqNew h"
  let ?x = "resting_order ?r (of_nat n) 100"
  have nz: "(100 :: u64) \<noteq> 0" by (simp add: word_unat_eq_iff)
  have "exchange_step (mkt cap bids [] (of_nat n), []) (Process ?r) = (mkt cap (enqueue Bid ?x bids) [] (of_nat (Suc n)), [EvNew ?x])"
    using exchange_rest [OF nz assms(7), of bids "[]" cap h Bid ?x "of_nat n"] assms(3,4) d by (simp add: add.commute del: exchange_step.simps)
  moreover have "volume bids + volume [] + unat (100 :: u64) < 2 ^ 64" using assms(4,5) d(3) by simp
  ultimately obtain b' where "Book_process p b ?r = Inr b'" "bb_buf b' = [EvNew ?x]" "at_market p cap (enqueue Bid ?x bids) [] (Suc n) b'"
    by (metis process_new_ok [OF assms(1,6)])
  moreover have "bids_hold (hs @ [hash_from_seed h]) (enqueue Bid ?x bids)"
    using assms(2) by (auto simp: bids_hold_def mset_enqueue set_enqueue resting_order_def)
  ultimately show thesis by (rule that)
qed

lemma exchange_cancel_hit:
  assumes "x \<in> set bids" and "distinct (map o_intent_hash bids)"
  shows "exchange_step (mkt cap bids [] n, []) (Process (cancel_hash_req (o_intent_hash x))) =
    (mkt cap (filter (\<lambda>y. o_intent_hash y \<noteq> o_intent_hash x) bids) [] n, [EvCancel (oid x) 0 (o_intent_hash x)])"
proof -
  have "find (\<lambda>y. o_intent_hash y = o_intent_hash x) bids = Some x"
    by (rule find_unique [OF assms(2,1) refl])
  then show ?thesis by (simp add: mkt_def exchange_cancel_def market_cancel_def market_orders_def filter_side)
qed

lemma exchange_cancel_miss:
  assumes "h \<notin> o_intent_hash ` set (bids @ asks)"
  shows "exchange_step (mkt cap bids asks n, []) (Process (cancel_hash_req h)) = (mkt cap bids asks n, [EvReject 0 UnknownOrder 0 0 h])"
proof -
  have "find (\<lambda>y. o_intent_hash y = h) (bids @ asks) = None" using assms by (auto simp: find_None_iff)
  then show ?thesis by (simp add: mkt_def exchange_cancel_def market_cancel_def market_orders_def refusal_def)
qed

lemma cancel_bid:
  assumes "at_market p cap bids [] n b" and "bids_hold hs bids" and "distinct hs" and "h \<in> set hs" and "length hs \<le> cap"
    and "cap < 2 ^ 32" and "n + 1 < 2 ^ 63"
  obtains b' i bids' where "Book_process p b (cancel_hash_req h) = Inr b'" and "bb_buf b' = [EvCancel i 0 h]"
    and "at_market p cap bids' [] n b'" and "bids_hold (remove1 h hs) bids'"
proof -
  note d = bids_holdD [OF assms(2)]
  from d(1) assms(4) obtain x where x: "x \<in> set bids" "o_intent_hash x = h" by (metis imageE)
  have dist: "distinct (map o_intent_hash bids)" using assms(2,3) by (metis bids_hold_def mset_eq_imp_distinct_iff)
  let ?q = "filter (\<lambda>y. o_intent_hash y \<noteq> h) bids"
  have "volume bids + volume [] < 2 ^ 64" using assms(5,6) d(3) by simp
  moreover have "exchange_step (mkt cap bids [] (of_nat n), []) (Process (cancel_hash_req h)) = (mkt cap ?q [] (of_nat n), [EvCancel (oid x) 0 h])"
    using exchange_cancel_hit [OF x(1) dist, of cap "of_nat n"] unfolding x(2) .
  ultimately obtain b' where "Book_process p b (cancel_hash_req h) = Inr b'" "bb_buf b' = [EvCancel (oid x) 0 h]" "at_market p cap ?q [] n b'"
    by (metis process_cancel_ok [OF assms(1,7)])
  moreover have "bids_hold (remove1 h hs) ?q"
  proof -
    have "map o_intent_hash ?q = filter (\<lambda>y. y \<noteq> h) (map o_intent_hash bids)" by (simp add: filter_map comp_def)
    also have "\<dots> = remove1 h (map o_intent_hash bids)" using dist by (simp add: distinct_remove1_removeAll removeAll_filter_not_eq eq_commute)
    finally have "mset (map o_intent_hash ?q) = mset (map o_intent_hash bids) - {#h#}" by simp
    then show ?thesis using assms(2) by (simp add: bids_hold_def)
  qed
  ultimately show thesis by (rule that)
qed

subsection \<open>Crossing\<close>

fun is_fill :: "OrderEvent \<Rightarrow> bool" where
  "is_fill (EvFill i q pr ts h) = True"
| "is_fill (EvPartialFill i q pr r ts h) = True"
| "is_fill _ = False"

lemma fill_events_fills: "list_all is_fill (fill_events r i n fs)" "length (fill_events r i n fs) = 2 * length fs"
  by (induction r i n fs rule: fill_events.induct) (auto simp: taker_event_def maker_event_def)

text \<open>Orders of one unit each: a sweep takes as many as the request has units.\<close>

abbreviation units :: "Order list \<Rightarrow> bool" where
  "units q \<equiv> \<forall>x \<in> set q. o_quantity x = 1"

lemma length_enqueue: "length (enqueue s x q) = Suc (length q)"
  using arg_cong [OF mset_enqueue [of s x q], of size] by simp

lemma volume_units: "units q \<Longrightarrow> volume q = length q"
  by (induction q) simp_all

lemma sweep_units:
  assumes "units xs" and "\<forall>x \<in> set xs. cr (o_price x)" and "length xs < 2 ^ 63"
  shows "sweep cr (of_nat (length xs)) (xs @ ys) = (map (\<lambda>x. (x, 1)) xs, 0, ys)"
  using assms
proof (induction xs)
  case Nil
  then show ?case by (cases ys) auto
next
  case (Cons x xs)
  have u: "unat (of_nat (Suc (length xs)) :: u64) = Suc (length xs)" using Cons.prems(3) by (intro unat_of_nat_u64) simp
  then have "(of_nat (Suc (length xs)) :: u64) \<noteq> 0" by (metis unat_0 nat.simps(3))
  moreover have "(1 :: u64) \<le> of_nat (Suc (length xs))" using u by (simp add: word_le_nat_alt del: of_nat_Suc)
  moreover have "(of_nat (Suc (length xs)) :: u64) - 1 = of_nat (length xs)" by simp
  ultimately show ?case using Cons by (simp del: of_nat_Suc)
qed

lemma exchange_take_units:
  assumes "units (xs @ ys)" and "\<forall>x \<in> set xs. o_price x \<le> pr" and "\<forall>y \<in> set ys. pr < o_price y"
    and "0 < length xs" and "length xs < 2 ^ 32" and "pr \<noteq> 0" and "f = IOC \<or> f = FOK"
    and r_def: "r = matcher_req Bid pr (of_nat (length xs)) f RqNew h"
  shows "exchange_step (mkt cap bids (xs @ ys) n, []) (Process r) =
    (mkt cap bids ys (n + 1), fill_events r n (of_nat (length xs)) (map (\<lambda>x. (x, 1)) xs))"
proof -
  let ?k = "length xs"
  have u: "unat (of_nat ?k :: u64) = ?k" using assms(5) by (intro unat_of_nat_u64) simp
  then have nz: "(of_nat ?k :: u64) \<noteq> 0" using assms(4) by (metis unat_0 less_numeral_extra(3))
  have cr: "\<forall>x \<in> set xs. crossing Bid pr (o_price x)" "\<forall>y \<in> set ys. \<not> crossing Bid pr (o_price y)"
    using assms(2,3) by (auto simp: not_le)
  have "filter (\<lambda>x. crossing Bid pr (o_price x)) (xs @ ys) = xs" using cr by (simp add: filter_id_conv filter_empty_conv)
  then have off: "\<not> offered \<lparr>mk_capacity = cap, mk_queue = (\<lambda>s. case s of Bid \<Rightarrow> bids | Ask \<Rightarrow> xs @ ys)\<rparr> r < unat (rq_quantity r)"
    using volume_units [of xs] assms(1) u by (simp add: offered_def r_def)
  have "sweep (crossing Bid pr) (of_nat ?k) (xs @ ys) = (map (\<lambda>x. (x, 1)) xs, 0, ys)"
    using sweep_units [of xs "crossing Bid pr" ys] assms(1,5) cr by simp
  with off nz assms(6,7) show ?thesis
    by (auto simp: r_def mkt_def exchange_new_order_def market_trade_def Let_def side_fun_upd)
qed

lemma exchange_fok_short:
  assumes "offered \<lparr>mk_capacity = cap, mk_queue = (\<lambda>s. case s of Bid \<Rightarrow> bids | Ask \<Rightarrow> asks)\<rparr> (matcher_req Bid pr q FOK RqNew h) < unat q"
    and "pr \<noteq> 0"
  shows "exchange_step (mkt cap bids asks n, []) (Process (matcher_req Bid pr q FOK RqNew h)) =
    (mkt cap bids asks (n + 1), [EvReject 0 InsufficientLiquidity q 0 (hash_from_seed h)])"
proof -
  have "q \<noteq> 0" using assms(1) by auto
  with assms show ?thesis
    by (auto simp: mkt_def exchange_new_order_def market_trade_def Let_def refusal_def)
qed

lemma exchange_ioc_empty:
  assumes "q \<noteq> 0" and "pr \<noteq> 0"
  shows "exchange_step (mkt cap bids [] n, []) (Process (matcher_req Bid pr q IOC RqNew h)) =
    (mkt cap bids [] (n + 1), [EvReject 0 InsufficientLiquidity q 0 (hash_from_seed h)])"
  using assms by (auto simp: mkt_def exchange_new_order_def market_trade_def Let_def refusal_def side_fun_upd)

section \<open>The contracts\<close>

subsection \<open>Resting, cancelling, missing\<close>

definition holds_bids :: "profile \<Rightarrow> nat \<Rightarrow> nat \<Rightarrow> IntentHash list \<Rightarrow> BenchBook \<Rightarrow> bool" where
  "holds_bids p cap n hs b \<longleftrightarrow> (\<exists>bids. at_market p cap bids [] n b \<and> bids_hold hs bids)"

lemma holds_add:
  assumes "holds_bids p cap k (seeds k) b" and "k < cap" and "cap < 2 ^ 32" and "pr \<noteq> 0"
  obtains b' x where "Book_process p b (matcher_req Bid pr 100 GTC RqNew (of_nat k)) = Inr b'" and "bb_buf b' = [EvNew x]"
    and "holds_bids p cap (Suc k) (seeds (Suc k)) b'"
proof -
  from assms(1) obtain bids where b: "at_market p cap bids [] k b" "bids_hold (seeds k) bids" by (auto simp: holds_bids_def)
  have "hash_from_seed (of_nat k) \<notin> set (seeds k)" "length (seeds k) < cap" "k + 1 < 2 ^ 63"
    using fresh_seed [of k] assms(2,3) by simp_all
  from rest_bid [OF b this(1,2) assms(3) this(3) assms(4)] obtain b' x bids' where
    "Book_process p b (matcher_req Bid pr 100 GTC RqNew (of_nat k)) = Inr b'" "bb_buf b' = [EvNew x]"
    "at_market p cap bids' [] (Suc k) b'" "bids_hold (seeds k @ [hash_from_seed (of_nat k)]) bids'" .
  with that show thesis by (auto simp: holds_bids_def)
qed

interpretation rest_new_scn: scenario "rest_new_prepare p" "process_op p" "\<lambda>k. holds_bids p 2097152 k (seeds k)"
  "\<lambda>_ evs. \<exists>x. evs = [EvNew x]" 2097152 for p
proof unfold_locales
  fix k b assume b: "holds_bids p 2097152 k (seeds k) b" and k: "k < (2097152 :: nat)"
  have u: "unat (of_nat k :: u64) = k" using k by (intro unat_of_nat_u64) simp
  have "plus_u p (of_nat k :: u64) 1 = Inr (of_nat k + 1)" using u k by (intro plus_u_ok) simp
  moreover have "(of_nat k :: u64) + 1 \<noteq> 0" using u k by (auto simp: word_unat_eq_iff unat_plus_no_overflow)
  moreover from holds_add [OF b k _ this] obtain b' x where
    "Book_process p b (matcher_req Bid (of_nat k + 1) 100 GTC RqNew (of_nat k)) = Inr b'" "bb_buf b' = [EvNew x]"
    "holds_bids p 2097152 (Suc k) (seeds (Suc k)) b'" by auto
  ultimately show "\<exists>x s1 r s2. rest_new_prepare p b (of_nat k) = Inr (x, s1) \<and> process_op p s1 x = Inr (r, s2) \<and>
      (\<exists>x. r = [EvNew x]) \<and> holds_bids p 2097152 (Suc k) (seeds (Suc k)) s2"
    by (simp add: rest_new_prepare_def process_op_def)
qed simp

interpretation rest_existing_scn: scenario rest_existing_prepare "process_op p" "\<lambda>k. holds_bids p 2097152 k (seeds k)"
  "\<lambda>_ evs. \<exists>x. evs = [EvNew x]" 2097152 for p
proof unfold_locales
  fix k b assume b: "holds_bids p 2097152 k (seeds k) b" and k: "k < (2097152 :: nat)"
  have "(1000000 :: u64) \<noteq> 0" by (simp add: word_unat_eq_iff)
  from holds_add [OF b k _ this] obtain b' x where
    "Book_process p b (matcher_req Bid 1000000 100 GTC RqNew (of_nat k)) = Inr b'" "bb_buf b' = [EvNew x]"
    "holds_bids p 2097152 (Suc k) (seeds (Suc k)) b'" by auto
  then show "\<exists>x s1 r s2. rest_existing_prepare b (of_nat k) = Inr (x, s1) \<and> process_op p s1 x = Inr (r, s2) \<and>
      (\<exists>x. r = [EvNew x]) \<and> holds_bids p 2097152 (Suc k) (seeds (Suc k)) s2"
    by (simp add: rest_existing_prepare_def process_op_def)
qed simp

interpretation matcher_hit_scn: scenario "hit_prepare hs" "process_op p"
  "\<lambda>k b. holds_bids p 2097152 (length hs) (drop k hs) b \<and> distinct hs \<and> length hs \<le> 2097152"
  "\<lambda>k evs. \<exists>i. evs = [EvCancel i 0 (hs ! k)]" "min (length hs) 2097152" for p hs
proof unfold_locales
  fix k b assume b: "holds_bids p 2097152 (length hs) (drop k hs) b \<and> distinct hs \<and> length hs \<le> 2097152" and k: "k < min (length hs) 2097152"
  then obtain bids where m: "at_market p 2097152 bids [] (length hs) b" "bids_hold (drop k hs) bids" by (auto simp: holds_bids_def)
  have u: "unat (of_nat k :: u64) = k" using k by (intro unat_of_nat_u64) simp
  have d: "drop k hs = hs ! k # drop (Suc k) hs" using k by (simp add: Cons_nth_drop_Suc)
  have h: "distinct (drop k hs)" "length (drop k hs) \<le> 2097152" "(2097152 :: nat) < 2 ^ 32" "length hs + 1 < 2 ^ 63"
    using b by (auto simp: distinct_drop)
  have "hs ! k \<in> set (drop k hs)" unfolding d by simp
  from cancel_bid [OF m h(1) this h(2-4)] obtain b' i bids' where "Book_process p b (cancel_hash_req (hs ! k)) = Inr b'"
    "bb_buf b' = [EvCancel i 0 (hs ! k)]" "at_market p 2097152 bids' [] (length hs) b'" "bids_hold (remove1 (hs ! k) (drop k hs)) bids'" .
  moreover have "remove1 (hs ! k) (drop k hs) = drop (Suc k) hs" using d by simp
  ultimately show "\<exists>x s1 r s2. hit_prepare hs b (of_nat k) = Inr (x, s1) \<and> process_op p s1 x = Inr (r, s2) \<and>
      (\<exists>i. r = [EvCancel i 0 (hs ! k)]) \<and> (holds_bids p 2097152 (length hs) (drop (Suc k) hs) s2 \<and> distinct hs \<and> length hs \<le> 2097152)"
    using u k b by (auto simp: hit_prepare_def process_op_def slice_get_def holds_bids_def)
qed simp

interpretation matcher_miss_scn: scenario no_prepare "miss_op p"
  "\<lambda>k (b, s). holds_bids p 65536 30000 (seeds 30000) b \<and> s = of_nat (1000000000 + k)"
  "\<lambda>k evs. evs = [EvReject 0 UnknownOrder 0 0 (hash_from_seed (of_nat (1000000000 + k)))]" "2 ^ 32" for p
proof unfold_locales
  fix k and st :: "BenchBook \<times> u64"
  assume st: "case st of (b, s) \<Rightarrow> holds_bids p 65536 30000 (seeds 30000) b \<and> s = of_nat (1000000000 + k)" and k: "k < 2 ^ 32"
  obtain b where b: "st = (b, of_nat (1000000000 + k))" "holds_bids p 65536 30000 (seeds 30000) b" using st by (cases st) auto
  then obtain bids where m: "at_market p 65536 bids [] 30000 b" "bids_hold (seeds 30000) bids" by (auto simp: holds_bids_def)
  let ?s = "of_nat (1000000000 + k) :: u64"
  have "hash_from_seed ?s \<notin> set (seeds 30000)"
  proof
    assume "hash_from_seed ?s \<in> set (seeds 30000)"
    then obtain j where j: "j < 30000" "(of_nat j :: u64) = ?s" by (auto simp del: of_nat_add)
    have "unat (of_nat j :: u64) = j" "unat ?s = 1000000000 + k" using j(1) k by (intro unat_of_nat_u64, simp)+
    with j show False by simp
  qed
  then have h: "hash_from_seed ?s \<notin> o_intent_hash ` set (bids @ [])" using bids_holdD(1) [OF m(2)] by simp
  have "(30000 :: nat) + 1 < 2 ^ 63" "volume bids + volume [] < 2 ^ 64" using bids_holdD(3) [OF m(2)] by simp_all
  from process_cancel_ok [OF m(1) this exchange_cancel_miss [OF h]] obtain b' where
    b': "Book_process p b (cancel_hash_req (hash_from_seed ?s)) = Inr b'" "bb_buf b' = [EvReject 0 UnknownOrder 0 0 (hash_from_seed ?s)]"
    "at_market p 65536 bids [] 30000 b'" .
  have "plus_u p ?s 1 = Inr (of_nat (Suc (1000000000 + k)))" using k by (intro seed_step) simp
  with b b' m(2) show "\<exists>x s1 r s2. no_prepare st (of_nat k) = Inr (x, s1) \<and> miss_op p s1 x = Inr (r, s2) \<and>
      r = [EvReject 0 UnknownOrder 0 0 (hash_from_seed (of_nat (1000000000 + k)))] \<and>
      (case s2 of (b, s) \<Rightarrow> holds_bids p 65536 30000 (seeds 30000) b \<and> s = of_nat (1000000000 + Suc k))"
    by (auto simp: no_prepare_def miss_op_def holds_bids_def Let_def simp del: of_nat_add)
qed simp

subsection \<open>Crossing\<close>

text \<open>One seed and one order id per request, asks of one unit each and no bids.\<close>

definition seed_state :: "profile \<Rightarrow> nat \<Rightarrow> Order list \<Rightarrow> nat \<Rightarrow> SeedSt \<Rightarrow> bool" where
  "seed_state p cap asks n st \<longleftrightarrow> at_market p cap [] asks n (ss_book st) \<and> ss_seed st = of_nat n \<and>
     o_intent_hash ` set asks \<subseteq> set (seeds n) \<and> units asks"

lemma fresh_req_ok:
  assumes "ss_seed st = of_nat n" and "n < 2 ^ 62"
  shows "fresh_req p side pr q f st = Inr (matcher_req side pr q f RqNew (of_nat n), st\<lparr>ss_seed := of_nat (Suc n)\<rparr>)"
  using seed_step [OF assms(2), of p] assms(1) by (simp add: fresh_req_def)

lemma add_ask:
  assumes "seed_state p cap asks n st" and "length asks < cap" and "cap < 2 ^ 32" and "n < 2 ^ 62" and "pr \<noteq> 0"
  obtains st' x where "add_order p Ask pr 1 st = Inr st'" and "o_price x = pr" and "seed_state p cap (enqueue Ask x asks) (Suc n) st'"
proof -
  let ?r = "matcher_req Ask pr 1 GTC RqNew (of_nat n)"
  let ?x = "resting_order ?r (of_nat n) 1"
  from assms(1) have m: "at_market p cap [] asks n (ss_book st)" "ss_seed st = of_nat n" "o_intent_hash ` set asks \<subseteq> set (seeds n)" "units asks"
    by (simp_all add: seed_state_def)
  have "hash_from_seed (of_nat n) \<notin> o_intent_hash ` set ([] @ asks)" using fresh_seed [of n] assms(4) m(3) by auto
  with exchange_rest [of 1 pr "[]" asks cap "of_nat n" Ask ?x "of_nat n"] assms(2,5)
  have ex: "exchange_step (mkt cap [] asks (of_nat n), []) (Process ?r) = (mkt cap [] (enqueue Ask ?x asks) (of_nat (Suc n)), [EvNew ?x])"
    by (simp add: add.commute del: exchange_step.simps)
  have "n + 1 < 2 ^ 63" "volume [] + volume asks + unat (1 :: u64) < 2 ^ 64"
    using volume_units [OF m(4)] assms(2-4) by simp_all
  from process_new_ok [OF m(1) this ex] obtain b' where b': "Book_process p (ss_book st) ?r = Inr b'"
    "at_market p cap [] (enqueue Ask ?x asks) (Suc n) b'" .
  let ?st' = "st\<lparr>ss_seed := of_nat (Suc n), ss_book := b'\<rparr>"
  have "seed_state p cap (enqueue Ask ?x asks) (Suc n) ?st'"
    using b'(2) m(3,4) by (auto simp: seed_state_def set_enqueue resting_order_def)
  moreover have "add_order p Ask pr 1 st = Inr ?st'"
    using b'(1) fresh_req_ok [OF m(2) assms(4)] by (simp add: add_order_def)
  moreover have "o_price ?x = pr" by (simp add: resting_order_def)
  ultimately show thesis using that by blast
qed

lemma take_asks:
  assumes "seed_state p cap (xs @ ys) n st" and "\<forall>x \<in> set xs. o_price x \<le> pr" and "\<forall>y \<in> set ys. pr < o_price y"
    and "0 < length xs" and "length xs + length ys < 2 ^ 32" and "pr \<noteq> 0" and "f = IOC \<or> f = FOK" and "n < 2 ^ 62"
  obtains st1 st2 evs where "fresh_req p Bid pr (of_nat (length xs)) f st = Inr (matcher_req Bid pr (of_nat (length xs)) f RqNew (of_nat n), st1)"
    and "seed_op p st1 (matcher_req Bid pr (of_nat (length xs)) f RqNew (of_nat n)) = Inr (evs, st2)"
    and "list_all is_fill evs" and "length evs = 2 * length xs" and "seed_state p cap ys (Suc n) st2"
proof -
  let ?r = "matcher_req Bid pr (of_nat (length xs)) f RqNew (of_nat n)"
  from assms(1) have m: "at_market p cap [] (xs @ ys) n (ss_book st)" "ss_seed st = of_nat n"
    "o_intent_hash ` set (xs @ ys) \<subseteq> set (seeds n)" "units (xs @ ys)" by (simp_all add: seed_state_def)
  have len: "length xs < 2 ^ 32" using assms(5) by simp
  let ?evs = "fill_events ?r (of_nat n) (of_nat (length xs)) (map (\<lambda>x. (x, 1)) xs)"
  have ex: "exchange_step (mkt cap [] (xs @ ys) (of_nat n), []) (Process ?r) = (mkt cap [] ys (of_nat (Suc n)), ?evs)"
    using exchange_take_units [OF m(4) assms(2,3,4) len assms(6,7) refl, of cap "[]" "of_nat n" "of_nat n"]
    by (simp add: add.commute del: exchange_step.simps)
  have "unat (of_nat (length xs) :: u64) = length xs" using len by (intro unat_of_nat_u64) simp
  then have "n + 1 < 2 ^ 63" "volume [] + volume (xs @ ys) + unat (of_nat (length xs) :: u64) < 2 ^ 64"
    using volume_units [OF m(4)] assms(5,8) by simp_all
  from process_new_ok [OF m(1) this ex] obtain b' where b': "Book_process p (ss_book st) ?r = Inr b'" "bb_buf b' = ?evs"
    "at_market p cap [] ys (Suc n) b'" .
  have "seed_state p cap ys (Suc n) (st\<lparr>ss_seed := of_nat (Suc n), ss_book := b'\<rparr>)"
    using b'(3) m(3,4) by (auto simp: seed_state_def)
  with that b' fresh_req_ok [OF m(2) assms(8)] fill_events_fills show thesis by (simp add: seed_op_def)
qed

lemma small_plus:
  fixes x y :: u64
  assumes "unat x < 2 ^ 32" and "unat y < 2 ^ 32"
  shows "plus_u p x y = Inr (x + y)" "unat (x + y) = unat x + unat y"
proof -
  have "unat x + unat y < 2 ^ 64" using assms by simp
  then show "plus_u p x y = Inr (x + y)" "unat (x + y) = unat x + unat y" by (simp_all add: plus_u_ok unat_plus_no_overflow)
qed

text \<open>Asks at \<open>base + lvl\<close> for every level of a range.\<close>

lemma add_ask_levels:
  assumes "seed_state p cap [] n st" and "unat N \<le> cap" and "cap < 2 ^ 32" and "n + unat N < 2 ^ 62"
    and "0 < unat base" and "unat base < 2 ^ 31" and "unat N < 2 ^ 31"
  obtains st' asks where "fold_res (\<lambda>lvl st. rbind (plus_u p base lvl) (\<lambda>price. add_order p Ask price 1 st)) (usize_upto N) st = Inr st'"
    and "seed_state p cap asks (n + unat N) st'" and "length asks = unat N"
    and "\<forall>x \<in> set asks. base \<le> o_price x \<and> o_price x < base + N"
proof -
  let ?add = "\<lambda>lvl st. rbind (plus_u p base lvl) (\<lambda>price. add_order p Ask price 1 st)"
  let ?P = "\<lambda>k st. \<exists>asks. seed_state p cap asks (n + k) st \<and> length asks = k \<and> (\<forall>x \<in> set asks. base \<le> o_price x \<and> o_price x < base + N)"
  have bN: "unat (base + N) = unat base + unat N" using small_plus [of base N] assms(6,7) by simp
  have step: "\<exists>st'. ?add lvl st = Inr st' \<and> ?P (k + 1) st'"
    if lvl: "lvl \<in> set (usize_upto N)" and P: "?P k st" and k: "k + 1 \<le> unat N" for k lvl st
  proof -
    obtain j where j: "j < unat N" "lvl = of_nat j" using lvl by (auto simp: usize_upto_def)
    have "unat (of_nat j :: u64) = j" using j(1) assms(7) by (intro unat_of_nat_u64) simp
    then have l: "unat lvl < unat N" using j by simp
    from P obtain as where as: "seed_state p cap as (n + k) st" "length as = k" "\<forall>x \<in> set as. base \<le> o_price x \<and> o_price x < base + N"
      by blast
    have pr: "plus_u p base lvl = Inr (base + lvl)" "unat (base + lvl) = unat base + unat lvl"
      using small_plus [of base lvl] assms(6,7) l by simp_all
    then have "base + lvl \<noteq> 0" using assms(5) by (metis add_is_0 less_numeral_extra(3) unat_0)
    moreover have "length as < cap" "n + k < 2 ^ 62" using as(2) assms(2,4) k by simp_all
    ultimately obtain st' x where st': "add_order p Ask (base + lvl) 1 st = Inr st'" "o_price x = base + lvl"
      "seed_state p cap (enqueue Ask x as) (Suc (n + k)) st'" using add_ask [OF as(1) _ assms(3)] by metis
    have "base \<le> base + lvl \<and> base + lvl < base + N" using pr(2) bN l by (simp add: word_le_nat_alt word_less_nat_alt)
    then have "?P (k + 1) st'"
      using st'(2,3) as(2,3) by (intro exI [of _ "enqueue Ask x as"]) (auto simp: set_enqueue length_enqueue)
    with st'(1) pr(1) show ?thesis by simp
  qed
  have "?P 0 st" using assms(1) by simp
  with fold_res_count_in [where ys = "usize_upto N" and f = ?add and P = ?P and d = 1 and bound = "unat N" and k = 0 and st = st and xs = "usize_upto N", OF step]
  obtain st' where "fold_res ?add (usize_upto N) st = Inr st'" "?P (unat N) st'" by (auto simp: usize_upto_def)
  with that show thesis by blast
qed

interpretation cross_scn: scenario "cross_prepare p N f" "seed_op p"
  "\<lambda>k st. 0 < unat N \<and> unat N \<le> 64 \<and> (f = IOC \<or> f = FOK) \<and> seed_state p 65536 [] (k * Suc (unat N)) st"
  "\<lambda>_ evs. list_all is_fill evs \<and> length evs = 2 * unat N" "2 ^ 40" for p N f
proof unfold_locales
  fix k st
  assume inv: "0 < unat N \<and> unat N \<le> 64 \<and> (f = IOC \<or> f = FOK) \<and> seed_state p 65536 [] (k * Suc (unat N)) st" and k: "k < (2 ^ 40 :: nat)"
  let ?n = "k * Suc (unat N)"
  have N: "0 < unat N" "unat N \<le> 64" "f = IOC \<or> f = FOK" and st: "seed_state p 65536 [] ?n st" using inv by auto
  have "?n \<le> 2 ^ 40 * 65" using N(2) k by (intro mult_le_mono) simp_all
  then have n: "?n + unat N < 2 ^ 62" using N(2) by simp
  have sm: "unat N \<le> 65536" "(65536 :: nat) < 2 ^ 32" "0 < unat (100 :: u64)" "unat (100 :: u64) < 2 ^ 31" "unat N < 2 ^ 31"
    using N(2) by simp_all
  obtain st1 asks where
    s1: "fold_res (\<lambda>lvl st. rbind (plus_u p 100 lvl) (\<lambda>price. add_order p Ask price 1 st)) (usize_upto N) st = Inr st1"
    "seed_state p 65536 asks (?n + unat N) st1" "length asks = unat N" "\<forall>x \<in> set asks. 100 \<le> o_price x \<and> o_price x < 100 + N"
    using add_ask_levels [OF st sm(1,2) n sm(3-5)] .
  have pr: "plus_u p 100 N = Inr (100 + N)" "unat (100 + N) = unat (100 :: u64) + unat N" using small_plus [of 100 N] N(2) by simp_all
  have t: "seed_state p 65536 (asks @ []) (?n + unat N) st1" "\<forall>x \<in> set asks. o_price x \<le> 100 + N" "\<forall>y \<in> set []. 100 + N < o_price y"
    "0 < length asks" "length asks + length [] < 2 ^ 32" "100 + N \<noteq> 0"
    using s1(2-4) N pr(2) by (auto simp: word_unat_eq_iff less_imp_le)
  have len: "of_nat (length asks) = N" using s1(3) by simp
  obtain st2 st3 evs where "fresh_req p Bid (100 + N) N f st1 = Inr (matcher_req Bid (100 + N) N f RqNew (of_nat (?n + unat N)), st2)"
    "seed_op p st2 (matcher_req Bid (100 + N) N f RqNew (of_nat (?n + unat N))) = Inr (evs, st3)"
    "list_all is_fill evs" "length evs = 2 * length asks" "seed_state p 65536 [] (Suc (?n + unat N)) st3"
    using take_asks [OF t N(3) n] unfolding len .
  moreover have "Suc (?n + unat N) = Suc k * Suc (unat N)" by simp
  ultimately show "\<exists>x s1 r s2. cross_prepare p N f st (of_nat k) = Inr (x, s1) \<and> seed_op p s1 x = Inr (r, s2) \<and>
      (list_all is_fill r \<and> length r = 2 * unat N) \<and>
      (0 < unat N \<and> unat N \<le> 64 \<and> (f = IOC \<or> f = FOK) \<and> seed_state p 65536 [] (Suc k * Suc (unat N)) s2)"
    using s1(1,3) pr(1) N unfolding cross_prepare_def s1(1) rbind_Inr pr(1) by metis
qed simp

text \<open>Orders stacked at the touch go between the older ones there and the levels behind.\<close>

lemma enqueue_touch:
  assumes "\<forall>y \<in> set xs. o_price y = o_price x" and "\<forall>y \<in> set ys. o_price x < o_price y"
  shows "enqueue Ask x (xs @ ys) = (xs @ [x]) @ ys"
proof -
  have "takeWhile (\<lambda>y. order_rank Ask y \<le> order_rank Ask x) ys = []" "dropWhile (\<lambda>y. order_rank Ask y \<le> order_rank Ask x) ys = ys"
    using assms(2) by (cases ys; simp add: order_rank_def rank_def word_less_def not_le)+
  moreover have "\<forall>y \<in> set xs. order_rank Ask y \<le> order_rank Ask x" using assms(1) by (simp add: order_rank_def)
  ultimately show ?thesis by (simp add: enqueue_def takeWhile_append dropWhile_append)
qed

lemma stack_touch:
  assumes "seed_state p 262144 ys n st" and "\<forall>y \<in> set ys. 100 < o_price y" and "length ys + unat m \<le> 262144" and "n + unat m < 2 ^ 62"
  obtains st' xs where "fold_res (\<lambda>_. add_order p Ask 100 1) (usize_upto m) st = Inr st'"
    and "seed_state p 262144 (xs @ ys) (n + unat m) st'" and "length xs = unat m" and "\<forall>x \<in> set xs. o_price x = 100"
proof -
  let ?P = "\<lambda>k st. \<exists>xs. seed_state p 262144 (xs @ ys) (n + k) st \<and> length xs = k \<and> (\<forall>x \<in> set xs. o_price x = 100)"
  have nz: "(100 :: u64) \<noteq> 0" by (simp add: word_unat_eq_iff)
  have "\<exists>st'. add_order p Ask 100 1 st = Inr st' \<and> ?P (k + 1) st'" if P: "?P k st" and k: "k + 1 \<le> unat m" for k st
  proof -
    from P obtain xs where xs: "seed_state p 262144 (xs @ ys) (n + k) st" "length xs = k" "\<forall>x \<in> set xs. o_price x = 100" by blast
    have "length (xs @ ys) < 262144" "(262144 :: nat) < 2 ^ 32" "n + k < 2 ^ 62" using xs(2) assms(3,4) k by simp_all
    from add_ask [OF xs(1) this nz] obtain st' x where st': "add_order p Ask 100 1 st = Inr st'" "o_price x = 100"
      "seed_state p 262144 (enqueue Ask x (xs @ ys)) (Suc (n + k)) st'" .
    have "enqueue Ask x (xs @ ys) = (xs @ [x]) @ ys" using xs(3) st'(2) assms(2) by (intro enqueue_touch) simp_all
    with st' xs(2,3) have "?P (k + 1) st'" by (intro exI [of _ "xs @ [x]"]) auto
    with st'(1) show ?thesis by blast
  qed
  moreover have "?P 0 st" using assms(1) by simp
  ultimately have "\<exists>st'. fold_res (\<lambda>_. add_order p Ask 100 1) (usize_upto m) st = Inr st' \<and> ?P (0 + 1 * length (usize_upto m)) st'"
    by (intro fold_res_count [where bound = "unat m"]) (simp_all add: usize_upto_def)
  with that show thesis by (auto simp: usize_upto_def)
qed

interpretation touch_scn: scenario "touch_prepare p m" "seed_op p"
  "\<lambda>k st. 0 < unat m \<and> unat m \<le> 64 \<and> (\<exists>ys. seed_state p 262144 ys (length ys + k * Suc (unat m)) st \<and> length ys \<le> 4096 \<and> (\<forall>y \<in> set ys. 100 < o_price y))"
  "\<lambda>_ evs. list_all is_fill evs \<and> length evs = 2 * unat m" "2 ^ 40" for p m
proof unfold_locales
  fix k st
  assume inv: "0 < unat m \<and> unat m \<le> 64 \<and> (\<exists>ys. seed_state p 262144 ys (length ys + k * Suc (unat m)) st \<and> length ys \<le> 4096 \<and> (\<forall>y \<in> set ys. 100 < o_price y))"
    and k: "k < (2 ^ 40 :: nat)"
  then obtain ys where m: "0 < unat m" "unat m \<le> 64" and st: "seed_state p 262144 ys (length ys + k * Suc (unat m)) st"
    and ys: "length ys \<le> 4096" "\<forall>y \<in> set ys. 100 < o_price y" by blast
  let ?n = "length ys + k * Suc (unat m)"
  have "k * Suc (unat m) \<le> 2 ^ 40 * 65" using m(2) k by (intro mult_le_mono) simp_all
  then have n: "?n + unat m < 2 ^ 62" "length ys + unat m \<le> 262144" using m(2) ys(1) by simp_all
  obtain st1 xs where s1: "fold_res (\<lambda>_. add_order p Ask 100 1) (usize_upto m) st = Inr st1"
    "seed_state p 262144 (xs @ ys) (?n + unat m) st1" "length xs = unat m" "\<forall>x \<in> set xs. o_price x = 100"
    using stack_touch [OF st ys(2) n(2,1)] .
  have t: "\<forall>x \<in> set xs. o_price x \<le> 100" "0 < length xs" "length xs + length ys < 2 ^ 32" "(100 :: u64) \<noteq> 0" "IOC = IOC \<or> IOC = FOK"
    using s1(3,4) m ys(1) by (simp, simp_all add: word_unat_eq_iff)
  have len: "of_nat (length xs) = m" using s1(3) by simp
  obtain st2 st3 evs where "fresh_req p Bid 100 m IOC st1 = Inr (matcher_req Bid 100 m IOC RqNew (of_nat (?n + unat m)), st2)"
    "seed_op p st2 (matcher_req Bid 100 m IOC RqNew (of_nat (?n + unat m))) = Inr (evs, st3)"
    "list_all is_fill evs" "length evs = 2 * length xs" "seed_state p 262144 ys (Suc (?n + unat m)) st3"
    using take_asks [OF s1(2) t(1) ys(2) t(2-5) n(1)] unfolding len .
  moreover have "Suc (?n + unat m) = length ys + Suc k * Suc (unat m)" by simp
  ultimately show "\<exists>x s1 r s2. touch_prepare p m st (of_nat k) = Inr (x, s1) \<and> seed_op p s1 x = Inr (r, s2) \<and>
      (list_all is_fill r \<and> length r = 2 * unat m) \<and>
      (0 < unat m \<and> unat m \<le> 64 \<and> (\<exists>ys. seed_state p 262144 ys (length ys + Suc k * Suc (unat m)) s2 \<and> length ys \<le> 4096 \<and> (\<forall>y \<in> set ys. 100 < o_price y)))"
    using s1(3) m ys unfolding touch_prepare_def s1(1) rbind_Inr by metis
qed simp

subsection \<open>Takers that change nothing\<close>

text \<open>A request that is answered by the same events in every state of the id counter.\<close>

definition dead_end :: "nat \<Rightarrow> Order list \<Rightarrow> OrderRequest \<Rightarrow> OrderEvent list \<Rightarrow> bool" where
  "dead_end cap asks r evs \<longleftrightarrow> rq_instrument_id r = 1 \<and> rq_request_type r \<noteq> RqAmend \<and> volume asks + unat (rq_quantity r) < 2 ^ 64 \<and>
     (\<forall>n. exchange_step (mkt cap [] asks n, []) (Process r) = (mkt cap [] asks (n + 1), evs))"

interpretation static_scn: scenario no_prepare "static_op p r"
  "\<lambda>k b. \<exists>cap asks. at_market p cap [] asks (length asks + k) b \<and> length asks \<le> 4096 \<and> dead_end cap asks r evs"
  "\<lambda>_ x. x = evs" "2 ^ 40" for p r evs
proof unfold_locales
  fix k b assume "\<exists>cap asks. at_market p cap [] asks (length asks + k) b \<and> length asks \<le> 4096 \<and> dead_end cap asks r evs" and k: "k < (2 ^ 40 :: nat)"
  then obtain cap asks where m: "at_market p cap [] asks (length asks + k) b" "length asks \<le> 4096" "dead_end cap asks r evs" by blast
  have n: "length asks + k + 1 < 2 ^ 63" "volume [] + volume asks + unat (rq_quantity r) < 2 ^ 64" "rq_instrument_id r = 1" "rq_request_type r \<noteq> RqAmend"
    using m(2,3) k by (simp_all add: dead_end_def)
  have ex: "exchange_step (mkt cap [] asks (of_nat (length asks + k)), []) (Process r) = (mkt cap [] asks (of_nat (length asks + Suc k)), evs)"
    using m(3) by (simp add: dead_end_def add.commute del: exchange_step.simps)
  from Book_process_ok [OF m(1) n(1,3,4,2) ex] obtain b' where "Book_process p b r = Inr b'" "bb_buf b' = evs"
    "at_market p cap [] asks (length asks + Suc k) b'" .
  with m(2,3) show "\<exists>x s1 y s2. no_prepare b (of_nat k) = Inr (x, s1) \<and> static_op p r s1 x = Inr (y, s2) \<and> y = evs \<and>
      (\<exists>cap asks. at_market p cap [] asks (length asks + Suc k) s2 \<and> length asks \<le> 4096 \<and> dead_end cap asks r evs)"
    by (auto simp: no_prepare_def static_op_def process_op_def)
qed simp

lemma static_asks_ok:
  assumes "0 < unat base" and "unat base < 2 ^ 31"
  obtains b asks where "static_asks p base = Inr b" and "at_market p 4096 [] asks 16 b" and "length asks = 16" and "units asks"
    and "\<forall>x \<in> set asks. base \<le> o_price x"
proof -
  let ?add = "\<lambda>lvl b. rbind (plus_u p base lvl) (\<lambda>pr. Book_process p b (matcher_req Ask pr 1 GTC RqNew lvl))"
  let ?P = "\<lambda>k b. \<exists>asks. at_market p 4096 [] asks k b \<and> length asks = k \<and> units asks \<and> (\<forall>x \<in> set asks. base \<le> o_price x) \<and>
    o_intent_hash ` set asks = set (seeds k)"
  have step: "\<exists>b'. ?add (of_nat k) b = Inr b' \<and> ?P (Suc k) b'" if P: "?P k b" and k: "k < 16" for k b
  proof -
    from P obtain asks where m: "at_market p 4096 [] asks k b" "length asks = k" "units asks" "\<forall>x \<in> set asks. base \<le> o_price x"
      "o_intent_hash ` set asks = set (seeds k)" by blast
    have u: "unat (of_nat k :: u64) = k" using k by (intro unat_of_nat_u64) simp
    have pr: "plus_u p base (of_nat k) = Inr (base + of_nat k)" "unat (base + of_nat k) = unat base + k"
      using small_plus [of base "of_nat k"] assms(2) u k by simp_all
    then have nz: "base + of_nat k \<noteq> 0" using assms(1) by (metis add_is_0 less_numeral_extra(3) unat_0)
    let ?r = "matcher_req Ask (base + of_nat k) 1 GTC RqNew (of_nat k)"
    let ?x = "resting_order ?r (of_nat k) 1"
    have "hash_from_seed (of_nat k) \<notin> o_intent_hash ` set ([] @ asks)" using fresh_seed [of k] m(5) k by simp
    with exchange_rest [of 1 "base + of_nat k" "[]" asks 4096 "of_nat k" Ask ?x "of_nat k"] nz m(2) k
    have ex: "exchange_step (mkt 4096 [] asks (of_nat k), []) (Process ?r) = (mkt 4096 [] (enqueue Ask ?x asks) (of_nat (Suc k)), [EvNew ?x])"
      by (simp add: add.commute del: exchange_step.simps)
    have "k + 1 < 2 ^ 63" "volume [] + volume asks + unat (1 :: u64) < 2 ^ 64" using volume_units [OF m(3)] m(2) k by simp_all
    from process_new_ok [OF m(1) this ex] obtain b' where b': "Book_process p b ?r = Inr b'" "at_market p 4096 [] (enqueue Ask ?x asks) (Suc k) b'" .
    have "base \<le> base + of_nat k" using pr(2) by (simp add: word_le_nat_alt)
    then have "?P (Suc k) b'"
      using b'(2) m(2-5) by (intro exI [of _ "enqueue Ask ?x asks"]) (auto simp: set_enqueue length_enqueue resting_order_def)
    with b'(1) pr(1) show ?thesis by simp
  qed
  have "(0 :: u32) < 4096" "(4096 :: u32) < MAX_CAPACITY" by (simp_all add: MAX_CAPACITY_def)
  then obtain b0 where b0: "Book_new 4096 = Inr b0" "at_market p (unat (4096 :: u32)) [] [] 0 b0" by (rule Book_new_ok)
  have "\<exists>b'. fold_res ?add (map of_nat [0..<k]) b0 = Inr b' \<and> ?P k b'" if "k \<le> 16" for k
    using that
  proof (induction k)
    case 0
    show ?case using b0(2) by simp
  next
    case (Suc k)
    then obtain b1 where "fold_res ?add (map of_nat [0..<k]) b0 = Inr b1" "?P k b1" by auto
    with step [of k b1] Suc.prems show ?case by (auto simp: fold_res_append)
  qed
  from this [of 16] obtain b' where "fold_res ?add (map of_nat [0..<16]) b0 = Inr b'" "?P 16 b'" by auto
  moreover have "usize_upto (16 :: u64) = map of_nat [0..<16]" by (simp add: usize_upto_def)
  ultimately show thesis using that b0(1) unfolding static_asks_def by auto
qed

subsection \<open>A taker that fills and rests\<close>

definition partial_state :: "profile \<Rightarrow> nat \<Rightarrow> PartialSt \<Rightarrow> bool" where
  "partial_state p k st \<longleftrightarrow> pt_seed st = of_nat (2 * k) \<and> (\<exists>bids. at_market p 65536 bids [] (2 * k) (pt_book st) \<and>
     (case pt_last_taker st of None \<Rightarrow> bids = [] | Some s \<Rightarrow> \<exists>y. bids = [y] \<and> o_intent_hash y = hash_from_seed s \<and> o_quantity y = 1))"

lemma partial_clean:
  assumes "partial_state p k st" and "2 * k + 1 < 2 ^ 63"
  obtains b where "(case pt_last_taker st of None \<Rightarrow> Inr (pt_book st)
      | Some prev \<Rightarrow> Book_process p (pt_book st) (cancel_hash_req (hash_from_seed prev))) = Inr b"
    and "at_market p 65536 [] [] (2 * k) b"
proof (cases "pt_last_taker st")
  case None
  with assms(1) that show thesis by (auto simp: partial_state_def)
next
  case (Some prev)
  with assms(1) obtain y where m: "at_market p 65536 [y] [] (2 * k) (pt_book st)" "o_intent_hash y = hash_from_seed prev" "o_quantity y = 1"
    by (auto simp: partial_state_def)
  have ex: "exchange_step (mkt 65536 [y] [] (of_nat (2 * k)), []) (Process (cancel_hash_req (hash_from_seed prev))) =
      (mkt 65536 [] [] (of_nat (2 * k)), [EvCancel (oid y) 0 (hash_from_seed prev)])"
    using exchange_cancel_hit [of y "[y]" 65536 "of_nat (2 * k)"] m(2) by (simp del: exchange_step.simps)
  have "volume [y] + volume [] < 2 ^ 64" using m(3) by simp
  from process_cancel_ok [OF m(1) assms(2) this ex] obtain b where
    "Book_process p (pt_book st) (cancel_hash_req (hash_from_seed prev)) = Inr b" "at_market p 65536 [] [] (2 * k) b" .
  with that Some show thesis by simp
qed

lemma exchange_fill_and_rest:
  assumes "h \<noteq> h'" and "a = resting_order (matcher_req Ask 100 1 GTC RqNew h) n 1" and "t = matcher_req Bid 100 2 GTC RqNew h'"
  shows "exchange_step (mkt 65536 [] [a] (n + 1), []) (Process t) =
    (mkt 65536 [resting_order t (n + 1) 1] [] (n + 2),
     [EvPartialFill (n + 1) 1 100 1 0 (hash_from_seed h'), EvFill n 1 100 0 (hash_from_seed h), EvNew (resting_order t (n + 1) 1)])"
  using assms(1)
  by (simp add: assms(2,3) mkt_def exchange_new_order_def market_trade_def market_rest_def market_orders_def Let_def side_fun_upd
      resting_order_def taker_event_def maker_event_def enqueue_def)

interpretation partial_scn: scenario "partial_prepare p" "partial_op p" "partial_state p"
  "\<lambda>_ evs. \<exists>i j h h' x. evs = [EvPartialFill i 1 100 1 0 h, EvFill j 1 100 0 h', EvNew x] \<and> o_quantity x = 1" "2 ^ 40" for p
proof unfold_locales
  fix k st assume st: "partial_state p k st" and k: "k < (2 ^ 40 :: nat)"
  have n: "2 * k + 1 < 2 ^ 63" "2 * k < 2 ^ 62" "Suc (2 * k) < 2 ^ 62" "Suc (2 * k) + 1 < 2 ^ 63" using k by simp_all
  obtain b where b: "(case pt_last_taker st of None \<Rightarrow> Inr (pt_book st)
      | Some prev \<Rightarrow> Book_process p (pt_book st) (cancel_hash_req (hash_from_seed prev))) = Inr b"
    "at_market p 65536 [] [] (2 * k) b" by (rule partial_clean [OF st n(1)])
  let ?n = "of_nat (2 * k) :: u64" and ?m = "of_nat (Suc (2 * k)) :: u64"
  let ?a = "matcher_req Ask 100 1 GTC RqNew ?n" and ?t = "matcher_req Bid 100 2 GTC RqNew ?m"
  let ?x = "resting_order ?a ?n 1" and ?y = "resting_order ?t ?m 1"
  have seed: "pt_seed st = ?n" using st by (simp add: partial_state_def)
  have "(100 :: u64) \<noteq> 0" by (simp add: word_unat_eq_iff)
  then have ex1: "exchange_step (mkt 65536 [] [] ?n, []) (Process ?a) = (mkt 65536 [] [?x] ?m, [EvNew ?x])"
    using exchange_rest [of 1 100 "[]" "[]" 65536 ?n Ask ?x ?n] by (simp add: enqueue_def add.commute del: exchange_step.simps)
  have "volume [] + volume [] + unat (1 :: u64) < 2 ^ 64" by simp
  from process_new_ok [OF b(2) n(1) this ex1] obtain b1 where b1: "Book_process p b ?a = Inr b1" "at_market p 65536 [] [?x] (Suc (2 * k)) b1" .
  have ne: "?n \<noteq> ?m" by simp
  have ex2: "exchange_step (mkt 65536 [] [?x] ?m, []) (Process ?t) = (mkt 65536 [?y] [] (of_nat (2 * Suc k)),
      [EvPartialFill ?m 1 100 1 0 (hash_from_seed ?m), EvFill ?n 1 100 0 (hash_from_seed ?n), EvNew ?y])"
    using exchange_fill_and_rest [OF ne refl refl, of ?n] by (simp add: add.commute del: exchange_step.simps)
  have "volume [] + volume [?x] + unat (2 :: u64) < 2 ^ 64" by (simp add: resting_order_def)
  from process_new_ok [OF b1(2) n(4) this ex2] obtain b2 where b2: "Book_process p b1 ?t = Inr b2"
    "bb_buf b2 = [EvPartialFill ?m 1 100 1 0 (hash_from_seed ?m), EvFill ?n 1 100 0 (hash_from_seed ?n), EvNew ?y]"
    "at_market p 65536 [?y] [] (2 * Suc k) b2" .
  let ?s1 = "\<lparr>pt_book = b1, pt_seed = of_nat (2 * Suc k), pt_last_taker = Some ?m\<rparr>"
  have "plus_u p ?n 1 = Inr ?m" "plus_u p ?m 1 = Inr (of_nat (Suc (Suc (2 * k))))" using n by (simp_all only: seed_step)
  then have "partial_prepare p st (of_nat k) = Inr (?t, ?s1)"
    using b(1) b1(1) seed by (simp add: partial_prepare_def del: of_nat_Suc of_nat_mult)
  moreover have "partial_op p ?s1 ?t = Inr (bb_buf b2, ?s1\<lparr>pt_book := b2\<rparr>)" using b2(1) by (simp add: partial_op_def)
  moreover have "partial_state p (Suc k) (?s1\<lparr>pt_book := b2\<rparr>)"
    using b2(3) by (auto simp: partial_state_def resting_order_def)
  moreover have "o_quantity ?y = 1" by (simp add: resting_order_def)
  ultimately show "\<exists>x s1 r s2. partial_prepare p st (of_nat k) = Inr (x, s1) \<and> partial_op p s1 x = Inr (r, s2) \<and>
      (\<exists>i j h h' x. r = [EvPartialFill i 1 100 1 0 h, EvFill j 1 100 0 h', EvNew x] \<and> o_quantity x = 1) \<and> partial_state p (Suc k) s2"
    unfolding b2(2) by blast
qed simp

subsection \<open>The mixed stream\<close>

lemma sweep_short:
  assumes "units xs" and "\<forall>x \<in> set xs. cr (o_price x)" and "length xs < k" and "k < 2 ^ 63"
  shows "sweep cr (of_nat k) xs = (map (\<lambda>x. (x, 1)) xs, of_nat (k - length xs), [])"
  using assms
proof (induction xs arbitrary: k)
  case (Cons x xs)
  then obtain m where m: "k = Suc m" by (cases k) auto
  have u: "unat (of_nat (Suc m) :: u64) = Suc m" using Cons.prems(4) m by (intro unat_of_nat_u64) simp
  then have "(of_nat (Suc m) :: u64) \<noteq> 0" by (metis unat_0 nat.simps(3))
  moreover have "(1 :: u64) \<le> of_nat (Suc m)" using u by (simp add: word_le_nat_alt del: of_nat_Suc)
  moreover have "(of_nat (Suc m) :: u64) - 1 = of_nat m" by simp
  moreover have "sweep cr (of_nat m) xs = (map (\<lambda>x. (x, 1)) xs, of_nat (m - length xs), [])" using Cons m by auto
  ultimately show ?case using Cons.prems(1,2) unfolding m by (simp del: of_nat_Suc)
qed simp

fun rest_refused :: "OrderEvent \<Rightarrow> bool" where
  "rest_refused (EvReject i reason q ts h) \<longleftrightarrow> reason = SystemAtCapacity \<or> reason = RrDuplicateIntent"
| "rest_refused _ \<longleftrightarrow> False"

lemma fills_not_refused: "list_all is_fill evs \<Longrightarrow> list_all (\<lambda>ev. \<not> rest_refused ev) evs"
  by (rule list.pred_mono_strong, assumption) (metis is_fill.simps(3-) rest_refused.elims(2))

text \<open>An aggressive request of three units takes the first three orders of the opposing queue, or all of them.\<close>

lemma exchange_ioc_three:
  assumes "units (case s of Bid \<Rightarrow> asks | Ask \<Rightarrow> bids)" and "\<forall>x \<in> set (case s of Bid \<Rightarrow> asks | Ask \<Rightarrow> bids). crossing s pr (o_price x)" and "pr \<noteq> 0"
  obtains evs where "exchange_step (mkt cap bids asks n, []) (Process (matcher_req s pr 3 IOC RqNew h)) =
    (case s of Bid \<Rightarrow> mkt cap bids (drop 3 asks) (n + 1) | Ask \<Rightarrow> mkt cap (drop 3 bids) asks (n + 1), evs)"
    and "list_all (\<lambda>ev. \<not> rest_refused ev) evs"
proof -
  let ?q = "case s of Bid \<Rightarrow> asks | Ask \<Rightarrow> bids" and ?r = "matcher_req s pr 3 IOC RqNew h"
  define fs where "fs = map (\<lambda>x. (x, 1 :: u64)) (take 3 ?q)"
  define left :: u64 where "left = of_nat (3 - length ?q)"
  have sw: "sweep (crossing s pr) 3 ?q = (fs, left, drop 3 ?q)"
  proof (cases "length ?q < 3")
    case True
    with sweep_short [OF assms(1,2), of 3] show ?thesis by (simp add: fs_def left_def)
  next
    case False
    have "units (take 3 ?q)" "\<forall>x \<in> set (take 3 ?q). crossing s pr (o_price x)" using assms(1,2) by (meson in_set_takeD)+
    moreover have "length (take 3 ?q) = 3" using False by simp
    ultimately show ?thesis using sweep_units [of "take 3 ?q" "crossing s pr" "drop 3 ?q"] False by (simp add: fs_def left_def)
  qed
  have nz: "(3 :: u64) \<noteq> 0" by (simp add: word_unat_eq_iff)
  let ?evs = "fill_events ?r n 3 fs @ (if left = 0 then [] else [refusal InsufficientLiquidity left ?r])"
  have "exchange_step (mkt cap bids asks n, []) (Process ?r) =
    (case s of Bid \<Rightarrow> mkt cap bids (drop 3 asks) (n + 1) | Ask \<Rightarrow> mkt cap (drop 3 bids) asks (n + 1), ?evs)"
    using sw nz assms(3) by (cases s) (auto simp: mkt_def exchange_new_order_def market_trade_def Let_def side_fun_upd)
  moreover have "list_all (\<lambda>ev. \<not> rest_refused ev) ?evs"
    using fills_not_refused [OF fill_events_fills(1)] by (simp add: refusal_def)
  ultimately show thesis by (rule that)
qed

lemma exchange_cancel_any:
  obtains ev where "exchange_step (mkt cap bids asks n, []) (Process (cancel_hash_req h)) =
      (mkt cap (filter (\<lambda>y. o_intent_hash y \<noteq> h) bids) (filter (\<lambda>y. o_intent_hash y \<noteq> h) asks) n, [ev])"
    and "\<not> rest_refused ev"
proof (cases "find (\<lambda>y. o_intent_hash y = h) (bids @ asks)")
  case None
  then have "h \<notin> o_intent_hash ` set (bids @ asks)" by (auto simp: find_None_iff)
  then have "filter (\<lambda>y. o_intent_hash y \<noteq> h) bids = bids" "filter (\<lambda>y. o_intent_hash y \<noteq> h) asks = asks"
    by (auto simp: filter_id_conv)
  with exchange_cancel_miss [OF \<open>h \<notin> _\<close>, of cap n] that show thesis by simp
next
  case (Some x)
  then have "exchange_step (mkt cap bids asks n, []) (Process (cancel_hash_req h)) =
      (mkt cap (filter (\<lambda>y. o_intent_hash y \<noteq> h) bids) (filter (\<lambda>y. o_intent_hash y \<noteq> h) asks) n, [EvCancel (oid x) 0 h])"
    by (simp add: mkt_def exchange_cancel_def market_cancel_def market_orders_def filter_side)
  with that show thesis by simp
qed

text \<open>Bids below and asks above the mid price, one unit each; what rests is active.\<close>

definition straddles :: "IntentHash list \<Rightarrow> Order list \<Rightarrow> Order list \<Rightarrow> bool" where
  "straddles active bids asks \<longleftrightarrow> mset (map o_intent_hash (bids @ asks)) \<subseteq># mset active \<and> units (bids @ asks) \<and>
     (\<forall>x \<in> set bids. 1 \<le> o_price x \<and> o_price x < 1000) \<and> (\<forall>x \<in> set asks. 1000 < o_price x \<and> o_price x \<le> 2000)"

definition stream_state :: "profile \<Rightarrow> nat \<Rightarrow> MixedSt \<Rightarrow> bool" where
  "stream_state p n st \<longleftrightarrow> length (mx_active st) \<le> 80000 \<and> (\<exists>m \<le> n. mx_seed st = of_nat m \<and> set (mx_active st) \<subseteq> set (seeds m) \<and>
     (\<exists>bids asks. at_market p 131072 bids asks m (mx_book st) \<and> straddles (mx_active st) bids asks))"

lemma straddles_volume:
  assumes "straddles active bids asks"
  shows "volume bids + volume asks \<le> length active" "length bids + length asks \<le> length active"
    "o_intent_hash ` set (bids @ asks) \<subseteq> set active"
proof -
  from assms have sub: "mset (map o_intent_hash (bids @ asks)) \<subseteq># mset active" and u: "units bids" "units asks"
    by (auto simp: straddles_def)
  show l: "length bids + length asks \<le> length active" using size_mset_mono [OF sub] by simp
  then show "volume bids + volume asks \<le> length active" using volume_units [OF u(1)] volume_units [OF u(2)] by simp
  show "o_intent_hash ` set (bids @ asks) \<subseteq> set active" using set_mset_mono [OF sub] by (simp add: image_Un)
qed

lemma straddles_remove:
  assumes "straddles active bids asks" and "mset active' = mset active - {#h#}"
  shows "straddles active' (filter (\<lambda>y. o_intent_hash y \<noteq> h) bids) (filter (\<lambda>y. o_intent_hash y \<noteq> h) asks)"
proof -
  let ?M = "mset (map o_intent_hash (bids @ asks))"
  have "?M \<subseteq># mset active" using assms(1) by (simp add: straddles_def)
  then have "filter_mset (\<lambda>x. x \<noteq> h) ?M \<subseteq># filter_mset (\<lambda>x. x \<noteq> h) (mset active)" by (rule multiset_filter_mono)
  also have "\<dots> \<subseteq># mset active'" unfolding assms(2) by (auto simp: subseteq_mset_def)
  finally have "filter_mset (\<lambda>x. x \<noteq> h) ?M \<subseteq># mset active'" .
  moreover have "mset (map o_intent_hash (filter (\<lambda>y. o_intent_hash y \<noteq> h) bids @ filter (\<lambda>y. o_intent_hash y \<noteq> h) asks)) =
      filter_mset (\<lambda>x. x \<noteq> h) ?M" by (simp add: filter_mset_image_mset mset_filter flip: mset_filter)
  ultimately show ?thesis using assms(1) by (auto simp: straddles_def)
qed

lemma straddles_drop:
  assumes "straddles active bids asks"
  shows "straddles active (drop k bids) asks" "straddles active bids (drop k asks)"
proof -
  have sub: "mset (map o_intent_hash (drop k q)) \<subseteq># mset (map o_intent_hash q)" for q :: "Order list"
    by (metis append_take_drop_id map_append mset_append mset_subset_eq_add_right)
  have all: "mset (map o_intent_hash bids) + mset (map o_intent_hash asks) \<subseteq># mset active" using assms by (simp add: straddles_def)
  have "mset (map o_intent_hash (drop k bids)) + mset (map o_intent_hash asks) \<subseteq># mset active"
    by (rule subset_mset.order_trans [OF subset_mset.add_right_mono [OF sub] all])
  moreover have "mset (map o_intent_hash bids) + mset (map o_intent_hash (drop k asks)) \<subseteq># mset active"
    by (rule subset_mset.order_trans [OF subset_mset.add_left_mono [OF sub] all])
  ultimately show "straddles active (drop k bids) asks" "straddles active bids (drop k asks)"
    using assms by (auto simp: straddles_def dest: in_set_dropD)
qed

lemma quote_range: "case passive_quote rv of (Bid, pr) \<Rightarrow> 1 \<le> pr \<and> pr < 1000 | (Ask, pr) \<Rightarrow> 1000 < pr \<and> pr \<le> 2000"
proof -
  define k where "k = unat (drop_bit 1 rv mod 50)"
  have k: "k < 50" by (simp add: k_def unat_mod_distrib)
  moreover have "drop_bit 1 rv mod 50 = of_nat k" by (simp add: k_def)
  ultimately have "1000 - 1 - drop_bit 1 rv mod 50 = (of_nat (999 - k) :: u64)" "1000 + 1 + drop_bit 1 rv mod 50 = (of_nat (1001 + k) :: u64)"
    by (simp_all add: of_nat_diff)
  moreover have "unat (of_nat (999 - k) :: u64) = 999 - k" "unat (of_nat (1001 + k) :: u64) = 1001 + k" using k by (intro unat_of_nat_u64, simp)+
  ultimately show ?thesis using k by (auto simp: passive_quote_def word_le_nat_alt word_less_nat_alt)
qed

lemma stream_rest:
  assumes "stream_state p n st" and "n < 2 ^ 62" and "length (mx_active st) < 80000" and "passive_quote rv = (side, pr)"
  obtains b' x where "Book_process p (mx_book st) (matcher_req side pr 1 GTC RqNew (mx_seed st)) = Inr b'" and "bb_buf b' = [EvNew x]"
    and "\<And>st'. mx_book st' = b' \<Longrightarrow> mx_active st' = mx_active st @ [hash_from_seed (mx_seed st)] \<Longrightarrow>
      Inr (mx_seed st') = plus_u p (mx_seed st) 1 \<Longrightarrow> stream_state p (Suc n) st'"
    and "\<exists>seed. plus_u p (mx_seed st) 1 = Inr seed"
proof -
  from assms(1) obtain m bids asks where m: "m \<le> n" "mx_seed st = of_nat m" "set (mx_active st) \<subseteq> set (seeds m)"
    "at_market p 131072 bids asks m (mx_book st)" "straddles (mx_active st) bids asks" by (auto simp: stream_state_def)
  note v = straddles_volume [OF m(5)]
  have lt: "m < 2 ^ 62" "m + 1 < 2 ^ 63" "m < 2 ^ 64" using m(1) assms(2) by simp_all
  let ?r = "matcher_req side pr 1 GTC RqNew (of_nat m)"
  let ?x = "resting_order ?r (of_nat m) 1"
  let ?bids = "case side of Bid \<Rightarrow> enqueue Bid ?x bids | Ask \<Rightarrow> bids" and ?asks = "case side of Bid \<Rightarrow> asks | Ask \<Rightarrow> enqueue Ask ?x asks"
  have h: "hash_from_seed (of_nat m) \<notin> o_intent_hash ` set (bids @ asks)" using fresh_seed [OF lt(3)] v(3) m(3) by blast
  have pr: "case side of Bid \<Rightarrow> 1 \<le> pr \<and> pr < 1000 | Ask \<Rightarrow> 1000 < pr \<and> pr \<le> 2000" using quote_range [of rv] assms(4) by (simp split: Side.splits)
  have nz: "pr \<noteq> 0" using pr by (auto split: Side.splits)
  have nc: "\<forall>x \<in> set (case side of Bid \<Rightarrow> asks | Ask \<Rightarrow> bids). \<not> crossing side pr (o_price x)"
    using pr m(5) by (cases side) (fastforce simp: straddles_def)+
  have "length bids + length asks < 131072" using v(2) assms(3) by simp
  from exchange_rest [OF one_neq_zero nz this h nc refl, of "of_nat m"]
  have ex: "exchange_step (mkt 131072 bids asks (of_nat m), []) (Process ?r) = (mkt 131072 ?bids ?asks (of_nat (Suc m)), [EvNew ?x])"
    by (cases side) (simp_all add: add.commute del: exchange_step.simps)
  have "volume bids + volume asks + unat (1 :: u64) < 2 ^ 64" using v(1) assms(3) by simp
  from process_new_ok [OF m(4) lt(2) this ex] obtain b' where b': "Book_process p (mx_book st) ?r = Inr b'" "bb_buf b' = [EvNew ?x]"
    "at_market p 131072 ?bids ?asks (Suc m) b'" .
  have "straddles (mx_active st @ [hash_from_seed (of_nat m)]) ?bids ?asks"
    using m(5) pr by (cases side) (auto simp: straddles_def mset_enqueue set_enqueue resting_order_def)
  with b'(3) m(1,3) assms(3) have "stream_state p (Suc n) st'" if "mx_book st' = b'" "mx_active st' = mx_active st @ [hash_from_seed (of_nat m)]"
      "mx_seed st' = of_nat (Suc m)" for st'
    using that unfolding stream_state_def by (intro conjI exI [of _ "Suc m"]) auto
  with that b'(1,2) m(2) seed_step [OF lt(1), of p] show thesis by auto
qed

lemma stream_cancel:
  assumes "stream_state p n st" and "n < 2 ^ 62" and "i < length (mx_active st)"
  obtains active b' where "swap_remove (mx_active st) i = Inr (mx_active st ! i, active)"
    and "Book_process p (mx_book st) (cancel_hash_req (mx_active st ! i)) = Inr b'" and "list_all (\<lambda>ev. \<not> rest_refused ev) (bb_buf b')"
    and "\<And>st'. mx_book st' = b' \<Longrightarrow> mx_active st' = active \<Longrightarrow> mx_seed st' = mx_seed st \<Longrightarrow> stream_state p (Suc n) st'"
proof -
  from assms(1) obtain m bids asks where m: "m \<le> n" "mx_seed st = of_nat m" "set (mx_active st) \<subseteq> set (seeds m)"
    "at_market p 131072 bids asks m (mx_book st)" "straddles (mx_active st) bids asks" and len: "length (mx_active st) \<le> 80000"
    by (auto simp: stream_state_def)
  let ?h = "mx_active st ! i"
  let ?q = "filter (\<lambda>y. o_intent_hash y \<noteq> ?h)"
  obtain active where a: "swap_remove (mx_active st) i = Inr (?h, active)" "mset active = mset (mx_active st) - {#?h#}"
    using swap_remove_ok [OF assms(3)] .
  have sub: "set active \<subseteq> set (mx_active st)" "length active \<le> length (mx_active st)"
    using a(2) by (metis diff_subset_eq_self set_mset_mono set_mset_mset, metis diff_subset_eq_self size_mset size_mset_mono)
  obtain ev where ex: "exchange_step (mkt 131072 bids asks (of_nat m), []) (Process (cancel_hash_req ?h)) =
      (mkt 131072 (?q bids) (?q asks) (of_nat m), [ev])" "\<not> rest_refused ev" by (rule exchange_cancel_any)
  have v: "volume bids + volume asks < 2 ^ 64" "m + 1 < 2 ^ 63" using straddles_volume(1) [OF m(5)] len m(1) assms(2) by simp_all
  from process_cancel_ok [OF m(4) v(2,1) ex(1)] obtain b' where b': "Book_process p (mx_book st) (cancel_hash_req ?h) = Inr b'"
    "bb_buf b' = [ev]" "at_market p 131072 (?q bids) (?q asks) m b'" .
  have "straddles active (?q bids) (?q asks)" by (rule straddles_remove [OF m(5) a(2)])
  with b'(3) m(1,2,3) len sub have "stream_state p (Suc n) st'" if "mx_book st' = b'" "mx_active st' = active" "mx_seed st' = mx_seed st" for st'
    using that unfolding stream_state_def by (intro conjI exI [of _ m]) auto
  with that a(1) b'(1,2) ex(2) show thesis by simp
qed

lemma stream_ioc:
  assumes "stream_state p n st" and "n < 2 ^ 62" and "(side, pr) \<in> {(Bid, 1000 + 1000), (Ask, 1)}"
  obtains b' where "Book_process p (mx_book st) (matcher_req side pr 3 IOC RqNew (mx_seed st)) = Inr b'"
    and "list_all (\<lambda>ev. \<not> rest_refused ev) (bb_buf b')"
    and "\<And>st'. mx_book st' = b' \<Longrightarrow> mx_active st' = mx_active st \<Longrightarrow>
      Inr (mx_seed st') = plus_u p (mx_seed st) 1 \<Longrightarrow> stream_state p (Suc n) st'"
    and "\<exists>seed. plus_u p (mx_seed st) 1 = Inr seed"
proof -
  from assms(1) obtain m bids asks where m: "m \<le> n" "mx_seed st = of_nat m" "set (mx_active st) \<subseteq> set (seeds m)"
    "at_market p 131072 bids asks m (mx_book st)" "straddles (mx_active st) bids asks" and len: "length (mx_active st) \<le> 80000"
    by (auto simp: stream_state_def)
  have lt: "m < 2 ^ 62" "m + 1 < 2 ^ 63" using m(1) assms(2) by simp_all
  let ?q = "case side of Bid \<Rightarrow> asks | Ask \<Rightarrow> bids"
  let ?bids = "case side of Bid \<Rightarrow> bids | Ask \<Rightarrow> drop 3 bids" and ?asks = "case side of Bid \<Rightarrow> drop 3 asks | Ask \<Rightarrow> asks"
  have c: "units ?q" "\<forall>x \<in> set ?q. crossing side pr (o_price x)" using assms(3) m(5) by (auto simp: straddles_def)
  have nz: "pr \<noteq> 0" using assms(3) by (auto simp: word_unat_eq_iff)
  obtain evs where "exchange_step (mkt 131072 bids asks (of_nat m), []) (Process (matcher_req side pr 3 IOC RqNew (of_nat m))) =
    (case side of Bid \<Rightarrow> mkt 131072 bids (drop 3 asks) (of_nat m + 1) | Ask \<Rightarrow> mkt 131072 (drop 3 bids) asks (of_nat m + 1), evs)"
    and evs: "list_all (\<lambda>ev. \<not> rest_refused ev) evs" by (rule exchange_ioc_three [OF c nz])
  then have ex: "exchange_step (mkt 131072 bids asks (of_nat m), []) (Process (matcher_req side pr 3 IOC RqNew (of_nat m))) =
    (mkt 131072 ?bids ?asks (of_nat (Suc m)), evs)" by (cases side) (simp_all add: add.commute del: exchange_step.simps)
  have "volume bids + volume asks + unat (3 :: u64) < 2 ^ 64" using straddles_volume(1) [OF m(5)] len by simp
  from process_new_ok [OF m(4) lt(2) this ex] obtain b' where b': "Book_process p (mx_book st) (matcher_req side pr 3 IOC RqNew (of_nat m)) = Inr b'"
    "bb_buf b' = evs" "at_market p 131072 ?bids ?asks (Suc m) b'" .
  have "straddles (mx_active st) ?bids ?asks" using straddles_drop [OF m(5)] by (cases side) simp_all
  with b'(3) m(1,3) len have "stream_state p (Suc n) st'" if "mx_book st' = b'" "mx_active st' = mx_active st"
      "mx_seed st' = of_nat (Suc m)" for st'
    using that unfolding stream_state_def by (intro conjI exI [of _ "Suc m"]) auto
  with that b'(1,2) evs m(2) seed_step [OF lt(1), of p] show thesis by auto
qed

interpretation stream_scn: scenario "mixed_prepare p" "mixed_op p" "\<lambda>k. stream_state p (30000 + k)"
  "\<lambda>_ evs. list_all (\<lambda>ev. \<not> rest_refused ev) evs" "2 ^ 61" for p
proof unfold_locales
  fix k st assume st: "stream_state p (30000 + k) st" and k: "k < 2 ^ 61"
  obtain r1 g1 where g1: "next_u64 (mx_rng st) = (r1, g1)" by (cases "next_u64 (mx_rng st)")
  obtain rv g2 where g2: "next_u64 g1 = (rv, g2)" by (cases "next_u64 g1")
  have n: "30000 + k < 2 ^ 62" using k by simp
  consider (rest) "r1 mod 100 < 60 \<and> length (mx_active st) < 80000"
    | (cancel) "\<not> (r1 mod 100 < 60 \<and> length (mx_active st) < 80000)" "r1 mod 100 < 90 \<and> mx_active st \<noteq> []"
    | (ioc) "\<not> (r1 mod 100 < 60 \<and> length (mx_active st) < 80000)" "\<not> (r1 mod 100 < 90 \<and> mx_active st \<noteq> [])" by blast
  then show "\<exists>x s1 r s2. mixed_prepare p st (of_nat k) = Inr (x, s1) \<and> mixed_op p s1 x = Inr (r, s2) \<and>
      list_all (\<lambda>ev. \<not> rest_refused ev) r \<and> stream_state p (30000 + Suc k) s2"
  proof cases
    case rest
    obtain side pr where q: "passive_quote rv = (side, pr)" by (cases "passive_quote rv")
    let ?r = "matcher_req side pr 1 GTC RqNew (mx_seed st)"
    obtain b' x seed where b': "Book_process p (mx_book st) ?r = Inr b'" "bb_buf b' = [EvNew x]" "plus_u p (mx_seed st) 1 = Inr seed"
      and keep: "\<And>st'. mx_book st' = b' \<Longrightarrow> mx_active st' = mx_active st @ [hash_from_seed (mx_seed st)] \<Longrightarrow>
        Inr (mx_seed st') = plus_u p (mx_seed st) 1 \<Longrightarrow> stream_state p (Suc (30000 + k)) st'"
      using stream_rest [OF st n conjunct2 [OF rest] q] by metis
    let ?s1 = "st\<lparr>mx_active := mx_active st @ [rq_intent_hash ?r], mx_seed := seed, mx_rng := g2\<rparr>"
    have "mixed_prepare p st (of_nat k) = Inr (?r, ?s1)" using rest q b'(3) by (simp add: mixed_prepare_def g1 g2 Let_def)
    moreover have "mixed_op p ?s1 ?r = Inr ([EvNew x], ?s1\<lparr>mx_book := b'\<rparr>)" using b'(1,2) by (simp add: mixed_op_def)
    moreover have "stream_state p (30000 + Suc k) (?s1\<lparr>mx_book := b'\<rparr>)" using keep b'(3) by simp
    moreover have "list_all (\<lambda>ev. \<not> rest_refused ev) [EvNew x]" by simp
    ultimately show ?thesis by blast
  next
    case cancel
    let ?i = "unat rv mod length (mx_active st)"
    have "?i < length (mx_active st)" using cancel(2) by simp
    from stream_cancel [OF st n this] obtain active b' where
      c: "swap_remove (mx_active st) ?i = Inr (mx_active st ! ?i, active)" "Book_process p (mx_book st) (cancel_hash_req (mx_active st ! ?i)) = Inr b'"
        "list_all (\<lambda>ev. \<not> rest_refused ev) (bb_buf b')"
      and keep: "\<And>st'. mx_book st' = b' \<Longrightarrow> mx_active st' = active \<Longrightarrow> mx_seed st' = mx_seed st \<Longrightarrow> stream_state p (Suc (30000 + k)) st'"
      by metis
    let ?s1 = "st\<lparr>mx_active := active, mx_rng := g2\<rparr>"
    have "mixed_prepare p st (of_nat k) = Inr (cancel_hash_req (mx_active st ! ?i), ?s1)"
      using cancel c(1) by (auto simp: mixed_prepare_def g1 g2 Let_def)
    moreover have "mixed_op p ?s1 (cancel_hash_req (mx_active st ! ?i)) = Inr (bb_buf b', ?s1\<lparr>mx_book := b'\<rparr>)" using c(2) by (simp add: mixed_op_def)
    moreover have "stream_state p (30000 + Suc k) (?s1\<lparr>mx_book := b'\<rparr>)" using keep by simp
    ultimately show ?thesis using c(3) by blast
  next
    case ioc
    obtain side pr where q: "(if rv AND 1 = 0 then (Bid, 1000 + 1000) else (Ask, 1)) = (side, pr :: u64)" by (metis surj_pair)
    then have m: "(side, pr) \<in> {(Bid, 1000 + 1000), (Ask, 1)}" by (auto split: if_splits)
    let ?r = "matcher_req side pr 3 IOC RqNew (mx_seed st)"
    obtain b' seed where b': "Book_process p (mx_book st) ?r = Inr b'" "list_all (\<lambda>ev. \<not> rest_refused ev) (bb_buf b')" "plus_u p (mx_seed st) 1 = Inr seed"
      and keep: "\<And>st'. mx_book st' = b' \<Longrightarrow> mx_active st' = mx_active st \<Longrightarrow>
        Inr (mx_seed st') = plus_u p (mx_seed st) 1 \<Longrightarrow> stream_state p (Suc (30000 + k)) st'"
      using stream_ioc [OF st n m] by metis
    let ?s1 = "st\<lparr>mx_seed := seed, mx_rng := g2\<rparr>"
    have "mixed_prepare p st (of_nat k) = Inr (?r, ?s1)"
      unfolding mixed_prepare_def g1 g2 Let_def prod.case q using ioc b'(3) by auto
    moreover have "mixed_op p ?s1 ?r = Inr (bb_buf b', ?s1\<lparr>mx_book := b'\<rparr>)" using b'(1) by (simp add: mixed_op_def)
    moreover have "stream_state p (30000 + Suc k) (?s1\<lparr>mx_book := b'\<rparr>)" using keep b'(3) by simp
    ultimately show ?thesis using b'(2) by blast
  qed
qed simp

lemma stream_fill:
  assumes "stream_state p 0 st" and "mx_active st = []"
  obtains st' where "fold_res (\<lambda>_. passive_fill p) [0..<30000] st = Inr st'" and "stream_state p 30000 st'"
proof -
  let ?P = "\<lambda>k st. stream_state p k st \<and> length (mx_active st) = k"
  have "\<exists>st'. passive_fill p st = Inr st' \<and> ?P (k + 1) st'" if P: "?P k st" and k: "k + 1 \<le> 80000" for k st
  proof -
    have lt: "k < 2 ^ 62" "length (mx_active st) < 80000" using P k by simp_all
    obtain rv g where g: "next_u64 (mx_rng st) = (rv, g)" by (cases "next_u64 (mx_rng st)")
    obtain side pr where q: "passive_quote rv = (side, pr)" by (cases "passive_quote rv")
    obtain b' x seed where b': "Book_process p (mx_book st) (matcher_req side pr 1 GTC RqNew (mx_seed st)) = Inr b'" "plus_u p (mx_seed st) 1 = Inr seed"
      and keep: "\<And>st'. mx_book st' = b' \<Longrightarrow> mx_active st' = mx_active st @ [hash_from_seed (mx_seed st)] \<Longrightarrow>
        Inr (mx_seed st') = plus_u p (mx_seed st) 1 \<Longrightarrow> stream_state p (Suc k) st'"
      using stream_rest [OF conjunct1 [OF P] lt q] by metis
    let ?s = "\<lparr>mx_book = b', mx_active = mx_active st @ [hash_from_seed (mx_seed st)], mx_seed = seed, mx_rng = g\<rparr>"
    have "passive_fill p st = Inr ?s" using b' q by (simp add: passive_fill_def g)
    moreover have "?P (k + 1) ?s" using keep [of ?s] b'(2) P by simp
    ultimately show ?thesis by blast
  qed
  from fold_res_count [of ?P 1 80000 "\<lambda>_. passive_fill p", OF this, of 0 st "[0..<30000]"] assms that show thesis by auto
qed

section \<open>The benchmark is sound\<close>

lemma light_iters: "unat (warmup Iters_LIGHT) + unat (measure Iters_LIGHT) = 550000"
  by (simp add: Iters_LIGHT_def)

lemma Book_for_ok:
  assumes "unat n \<in> {1100000, 1100050}"
  obtains b where "Book_for p n = Inr b" and "holds_bids p 2097152 0 [] b"
proof -
  have "0 < (2097152 :: u32)" "2097152 < MAX_CAPACITY" by (simp_all add: MAX_CAPACITY_def)
  then obtain b where b: "Book_new 2097152 = Inr b" "at_market p (unat (2097152 :: u32)) [] [] 0 b" by (rule Book_new_ok)
  then have "holds_bids p 2097152 0 [] b" by (auto simp: holds_bids_def bids_hold_def)
  with that b(1) next_power_2097152 [OF assms, of p] show thesis by (simp add: Book_for_def)
qed

text \<open>
  Every scenario of the matcher's benchmark runs to its end on both profiles without a panic, and the
  timed call takes the path its label names in every iteration. First the scenarios that rest: the
  engine answers every request with one \<open>New\<close>, whether the price is new or not, and so does the raw
  book they are compared with.
\<close>

theorem matcher_rests_sound:
  assumes "hdr_new pf = Some h0" and "hdr_accepts pf" and "rusage_ok p pf"
  shows "\<exists>sample b rs w'. rest_new_level p pf tpn w = Inr (sample, Inr (b, rs), w') \<and> length rs = 1100000 \<and> (\<forall>evs \<in> set rs. \<exists>x. evs = [EvNew x])"
    and "\<exists>sample b rs w'. rest_existing_level p pf tpn w = Inr (sample, Inr (b, rs), w') \<and> length rs = 1100000 \<and> (\<forall>evs \<in> set rs. \<exists>x. evs = [EvNew x])"
    and "\<exists>sample b rs w'. raw_book_insert p pf tpn w = Inr (sample, Inr (b, rs), w') \<and>
      map o_price (resting b Bid) = map of_nat (rev [1..<1100001])"
proof -
  have n: "unat (1100000 :: u64) \<in> {1100000, 1100050}" by simp
  obtain b where b: "Book_for p 1100000 = Inr b" "holds_bids p 2097152 0 [] b" by (rule Book_for_ok [OF n])
  have le: "unat (warmup Iters_STANDARD) + unat (measure Iters_STANDARD) \<le> 2097152" by (simp add: standard_iters)
  have inv: "holds_bids p 2097152 0 (seeds 0) b" using b(2) by simp
  from rest_new_scn.bench_ok [where tpn = tpn and l = "''rest_new_level''" and w = w, OF assms le inv]
  show "\<exists>sample b rs w'. rest_new_level p pf tpn w = Inr (sample, Inr (b, rs), w') \<and> length rs = 1100000 \<and> (\<forall>evs \<in> set rs. \<exists>x. evs = [EvNew x])"
    unfolding rest_new_level_def standard_iters rbind_Inr b(1) all_set_conv_all_nth by blast
  from rest_existing_scn.bench_ok [where tpn = tpn and l = "''rest_existing_level''" and w = w, OF assms le inv]
  show "\<exists>sample b rs w'. rest_existing_level p pf tpn w = Inr (sample, Inr (b, rs), w') \<and> length rs = 1100000 \<and> (\<forall>evs \<in> set rs. \<exists>x. evs = [EvNew x])"
    unfolding rest_existing_level_def standard_iters rbind_Inr b(1) all_set_conv_all_nth by blast
  have "(0 :: u32) < 2097152" "(2097152 :: u32) < u32_MAX" by simp_all
  then obtain b where b: "OrderBook_new 1 2097152 = Inr b" "book_holds p (unat (2097152 :: u32)) [] b" by (rule new_book_holds)
  then have asc: "ascending p 0 b" by (auto simp: ascending_def book_holds_def)
  have raw: "raw_prepare p = new_level_prepare p"
  proof (intro ext)
    show "raw_prepare p b i = new_level_prepare p b i" for b i
      by (cases "plus_u p i 1") (simp_all add: raw_prepare_def new_level_prepare_def raw_mk_def bench_order_def INSTR_def)
  qed
  have "next_power_of_two p (ucast (1100000 :: u64)) = Inr 2097152" by (rule next_power_2097152 [OF n])
  with new_level_scn.bench_ok [where tpn = tpn and l = "''raw_book_insert''" and w = w, OF assms le asc]
  show "\<exists>sample b rs w'. raw_book_insert p pf tpn w = Inr (sample, Inr (b, rs), w') \<and>
      map o_price (resting b Bid) = map of_nat (rev [1..<1100001])"
    unfolding raw_book_insert_def standard_iters raw ascending_def by (fastforce simp: INSTR_def b(1))
qed

text \<open>Cancellations: the ones of \<open>cancel_hit\<close> all find the order they ask for, in the shuffled order of
  the hashes; the ones of \<open>cancel_miss\<close> are all refused as unknown.\<close>

lemma hit_book_ok:
  obtains b b0 where "Book_for p 1100050 = Inr b0"
    and "fold_res (\<lambda>level_idx. fold_res (\<lambda>_. hit_insert p level_idx) [0..<LEVEL_DEPTH]) [0..<22001] (b0, [], 0) = Inr (b, seeds 1100050, 1100050)"
    and "holds_bids p 2097152 1100050 (seeds 1100050) b"
proof -
  let ?P = "\<lambda>k (b, hs, seed). holds_bids p 2097152 k (seeds k) b \<and> hs = seeds k \<and> seed = (of_nat k :: u64)"
  have one: "\<exists>st'. hit_insert p l st = Inr st' \<and> ?P (k + 1) st'"
    if l: "l \<in> set [0..<22001]" and P: "?P k st" and k: "k + 1 \<le> 2097152" for k l st
  proof -
    from P obtain b where b: "st = (b, seeds k, of_nat k)" "holds_bids p 2097152 k (seeds k) b" by (cases st) auto
    have "unat (of_nat (l + 1) :: u64) = l + 1" using l by (intro unat_of_nat_u64) simp
    then have nz: "(of_nat (l + 1) :: u64) \<noteq> 0" by (metis unat_0 add_is_0 one_neq_zero)
    have lt: "k < 2097152" "(2097152 :: nat) < 2 ^ 32" using k by simp_all
    obtain b' x where "Book_process p b (matcher_req Bid (of_nat (l + 1)) 100 GTC RqNew (of_nat k)) = Inr b'"
      "holds_bids p 2097152 (Suc k) (seeds (Suc k)) b'" by (rule holds_add [OF b(2) lt nz])
    with b(1) k seed_step [of k p] show ?thesis by (simp add: hit_insert_def)
  qed
  have fifty: "\<exists>st'. fold_res (\<lambda>_. hit_insert p l) [0..<LEVEL_DEPTH] st = Inr st' \<and> ?P (k + 50) st'"
    if l: "l \<in> set [0..<22001]" and P: "?P k st" and k: "k + 50 \<le> 2097152" for k l st
    using fold_res_count [of ?P 1 2097152 "\<lambda>_. hit_insert p l", OF one [OF l] P, of "[0..<LEVEL_DEPTH]"] k
    by (simp add: LEVEL_DEPTH_def)
  have "unat (1100050 :: u64) \<in> {1100000, 1100050}" by simp
  then obtain b0 where b0: "Book_for p 1100050 = Inr b0" "holds_bids p 2097152 0 [] b0" by (rule Book_for_ok)
  then have "?P 0 (b0, [], 0)" by simp
  from fold_res_count_in [of "[0..<22001]" ?P 50 2097152 "\<lambda>l. fold_res (\<lambda>_. hit_insert p l) [0..<LEVEL_DEPTH]", OF fifty subset_refl this]
  obtain b where "fold_res (\<lambda>l. fold_res (\<lambda>_. hit_insert p l) [0..<LEVEL_DEPTH]) [0..<22001] (b0, [], 0) =
      Inr (b, seeds 1100050, 1100050)" "holds_bids p 2097152 1100050 (seeds 1100050) b" by auto
  with b0(1) that show thesis by blast
qed

lemma distinct_seeds: "n \<le> 2 ^ 64 \<Longrightarrow> distinct (seeds n)"
  by (induction n) (simp_all add: fresh_seed del: set_map)

lemma miss_fill:
  assumes "holds_bids p 65536 0 (seeds 0) b"
  obtains b' where "fold_res (\<lambda>k b. Book_process p b (matcher_req Bid (100 + of_nat k mod 100) 100 GTC RqNew (of_nat k))) [0..<30000] b = Inr b'"
    and "holds_bids p 65536 30000 (seeds 30000) b'"
proof -
  let ?add = "\<lambda>k b. Book_process p b (matcher_req Bid (100 + of_nat k mod 100) 100 GTC RqNew (of_nat k))"
  have "n \<le> 30000 \<Longrightarrow> \<exists>b'. fold_res ?add [0..<n] b = Inr b' \<and> holds_bids p 65536 n (seeds n) b'" for n
  proof (induction n)
    case (Suc n)
    then obtain b1 where b1: "fold_res ?add [0..<n] b = Inr b1" "holds_bids p 65536 n (seeds n) b1" by auto
    have "unat (of_nat n mod 100 :: u64) < 100" by (simp add: unat_mod_distrib)
    then have "unat (100 + of_nat n mod 100 :: u64) = 100 + unat (of_nat n mod 100 :: u64)" using small_plus(2) [of 100 "of_nat n mod 100"] by simp
    then have nz: "100 + of_nat n mod 100 \<noteq> (0 :: u64)" by (metis add_is_0 unat_0 zero_neq_numeral)
    have lt: "n < 65536" "(65536 :: nat) < 2 ^ 32" using Suc.prems by simp_all
    obtain b2 x where "?add n b1 = Inr b2" "holds_bids p 65536 (Suc n) (seeds (Suc n)) b2" by (rule holds_add [OF b1(2) lt nz])
    with b1(1) show ?case by (simp add: fold_res_append)
  qed (use assms in simp)
  from this [of 30000] that show thesis by auto
qed

theorem matcher_cancels_sound:
  assumes "hdr_new pf = Some h0" and "hdr_accepts pf" and "rusage_ok p pf"
  shows "\<exists>sample b rs w'. cancel_hit p pf tpn w = Inr (sample, Inr (b, rs), w') \<and> length rs = 1100000 \<and>
      (\<forall>evs \<in> set rs. \<exists>i h. evs = [EvCancel i 0 h])"
    and "\<exists>sample st rs w'. cancel_miss p pf tpn w = Inr (sample, Inr (st, rs), w') \<and> length rs = 1100000 \<and>
      (\<forall>evs \<in> set rs. \<exists>h. evs = [EvReject 0 UnknownOrder 0 0 h])"
proof -
  obtain b0 b where b: "Book_for p 1100050 = Inr b0"
    "fold_res (\<lambda>level_idx. fold_res (\<lambda>_. hit_insert p level_idx) [0..<LEVEL_DEPTH]) [0..<22001] (b0, [], 0) = Inr (b, seeds 1100050, 1100050)"
    "holds_bids p 2097152 1100050 (seeds 1100050) b" by (rule hit_book_ok)
  obtain hs g where hs: "shuffle (seeds 1100050) (Lcg_new 0xCAFEF00D) = Inr (hs, g)" "mset hs = mset (seeds 1100050)"
    using shuffle_from_perm [of "1100049" "seeds 1100050" "Lcg_new 0xCAFEF00D"] by (auto simp: shuffle_def)
  have len: "length hs = 1100050" using mset_eq_length [OF hs(2)] by simp
  have "distinct hs" using hs(2) distinct_seeds [of 1100050] by (simp add: mset_eq_imp_distinct_iff [OF hs(2)] del: distinct_map)
  then have inv: "holds_bids p 2097152 (length hs) (drop 0 hs) b \<and> distinct hs \<and> length hs \<le> 2097152"
    using b(3) hs(2) len by (simp add: holds_bids_def bids_hold_def)
  have le: "unat (warmup Iters_STANDARD) + unat (measure Iters_STANDARD) \<le> min (length hs) 2097152" using len by (simp add: standard_iters)
  have k: "unat (1100000 :: u64) div LEVEL_DEPTH + 1 = 22001" "of_nat (22001 * LEVEL_DEPTH) = (1100050 :: u64)" by (simp_all add: LEVEL_DEPTH_def)
  from matcher_hit_scn.bench_ok [where tpn = tpn and l = "''cancel_hit''" and w = w, OF assms le inv]
  show "\<exists>sample b rs w'. cancel_hit p pf tpn w = Inr (sample, Inr (b, rs), w') \<and> length rs = 1100000 \<and>
      (\<forall>evs \<in> set rs. \<exists>i h. evs = [EvCancel i 0 h])"
    unfolding cancel_hit_def standard_iters rbind_Inr Let_def k b(1,2) prod.case hs(1) all_set_conv_all_nth by blast
  have "0 < (65536 :: u32)" "65536 < MAX_CAPACITY" by (simp_all add: MAX_CAPACITY_def)
  then obtain b0 where b0: "Book_new 65536 = Inr b0" "at_market p (unat (65536 :: u32)) [] [] 0 b0" by (rule Book_new_ok)
  then have h0: "holds_bids p 65536 0 (seeds 0) b0" by (auto simp: holds_bids_def bids_hold_def)
  let ?add = "\<lambda>k b. Book_process p b (matcher_req Bid (100 + of_nat k mod 100) 100 GTC RqNew (of_nat k))"
  obtain b where b: "fold_res ?add [0..<30000] b0 = Inr b" "holds_bids p 65536 30000 (seeds 30000) b"
    using miss_fill [OF h0] .
  have le: "unat (warmup Iters_STANDARD) + unat (measure Iters_STANDARD) \<le> 2 ^ 32" by (simp add: standard_iters)
  have "case (b, 1000000000 :: u64) of (b, s) \<Rightarrow> holds_bids p 65536 30000 (seeds 30000) b \<and> s = of_nat (1000000000 + 0)" using b(2) by simp
  from matcher_miss_scn.bench_ok [where tpn = tpn and l = "''cancel_miss''" and w = w, OF assms le this]
  show "\<exists>sample st rs w'. cancel_miss p pf tpn w = Inr (sample, Inr (st, rs), w') \<and> length rs = 1100000 \<and>
      (\<forall>evs \<in> set rs. \<exists>h. evs = [EvReject 0 UnknownOrder 0 0 h])"
    unfolding cancel_miss_def standard_iters rbind_Inr b0(1) b(1) all_set_conv_all_nth by blast
qed

text \<open>Takers that cross: a taker of \<open>n\<close> units against \<open>n\<close> levels of one order, and one against \<open>m\<close>
  orders at the touch in front of a background of untouched levels, are filled completely, with the
  two events of each fill and none besides; the book is back where it was before the iteration.\<close>

lemma new_seed_state:
  assumes "0 < cap" and "cap < MAX_CAPACITY"
  obtains b where "Book_new cap = Inr b" and "seed_state p (unat cap) [] 0 \<lparr>ss_book = b, ss_seed = 0\<rparr>"
proof -
  obtain b where "Book_new cap = Inr b" "at_market p (unat cap) [] [] 0 b" by (rule Book_new_ok [OF assms])
  with that show thesis by (simp add: seed_state_def)
qed

theorem matcher_crosses_sound:
  assumes "hdr_new pf = Some h0" and "hdr_accepts pf" and "rusage_ok p pf" and "0 < unat n" and "unat n \<le> 64"
  shows "f = IOC \<or> f = FOK \<Longrightarrow> \<exists>sample st rs w'. cross p pf tpn l n f w = Inr (sample, Inr (st, rs), w') \<and> length rs = 550000 \<and>
      (\<forall>evs \<in> set rs. list_all is_fill evs \<and> length evs = 2 * unat n)"
    and "unat bg \<le> 4096 \<Longrightarrow> \<exists>sample st rs w'. cross_touch_depth p pf tpn l n bg w = Inr (sample, Inr (st, rs), w') \<and> length rs = 550000 \<and>
      (\<forall>evs \<in> set rs. list_all is_fill evs \<and> length evs = 2 * unat n)"
proof -
  have le: "unat (warmup Iters_LIGHT) + unat (measure Iters_LIGHT) \<le> 2 ^ 40" by (simp add: light_iters)
  {
    assume f: "f = IOC \<or> f = FOK"
    have "0 < (65536 :: u32)" "65536 < MAX_CAPACITY" by (simp_all add: MAX_CAPACITY_def)
    then obtain b where b: "Book_new 65536 = Inr b" "seed_state p (unat (65536 :: u32)) [] 0 \<lparr>ss_book = b, ss_seed = 0\<rparr>" by (rule new_seed_state)
    have "0 < unat n \<and> unat n \<le> 64 \<and> (f = IOC \<or> f = FOK) \<and> seed_state p 65536 [] (0 * Suc (unat n)) \<lparr>ss_book = b, ss_seed = 0\<rparr>"
      using b(2) assms(4,5) f by simp
    from cross_scn.bench_ok [where tpn = tpn and l = l and w = w, OF assms(1-3) le this]
    show "\<exists>sample st rs w'. cross p pf tpn l n f w = Inr (sample, Inr (st, rs), w') \<and> length rs = 550000 \<and>
        (\<forall>evs \<in> set rs. list_all is_fill evs \<and> length evs = 2 * unat n)"
      unfolding cross_def light_iters rbind_Inr b(1) all_set_conv_all_nth by blast
  }
  assume bg: "unat bg \<le> 4096"
  have "0 < (262144 :: u32)" "262144 < MAX_CAPACITY" by (simp_all add: MAX_CAPACITY_def)
  then obtain b where b: "Book_new 262144 = Inr b" "seed_state p (unat (262144 :: u32)) [] 0 \<lparr>ss_book = b, ss_seed = 0\<rparr>" by (rule new_seed_state)
  then have s0: "seed_state p 262144 [] 0 \<lparr>ss_book = b, ss_seed = 0\<rparr>" by simp
  have sm: "unat bg \<le> 262144" "(262144 :: nat) < 2 ^ 32" "0 + unat bg < 2 ^ 62" "0 < unat (101 :: u64)" "unat (101 :: u64) < 2 ^ 31" "unat bg < 2 ^ 31"
    using bg by simp_all
  obtain st asks where st: "fold_res (\<lambda>lvl st. rbind (plus_u p 101 lvl) (\<lambda>price. add_order p Ask price 1 st)) (usize_upto bg) \<lparr>ss_book = b, ss_seed = 0\<rparr> = Inr st"
    "seed_state p 262144 asks (0 + unat bg) st" "length asks = unat bg" "\<forall>x \<in> set asks. 101 \<le> o_price x \<and> o_price x < 101 + bg"
    by (rule add_ask_levels [OF s0 sm])
  have "\<forall>y \<in> set asks. 100 < o_price y" using st(4) by (auto simp: word_le_nat_alt word_less_nat_alt)
  with st(2,3) bg have "\<exists>ys. seed_state p 262144 ys (length ys + 0 * Suc (unat n)) st \<and> length ys \<le> 4096 \<and> (\<forall>y \<in> set ys. 100 < o_price y)"
    by (intro exI [of _ asks]) simp
  then have "0 < unat n \<and> unat n \<le> 64 \<and> (\<exists>ys. seed_state p 262144 ys (length ys + 0 * Suc (unat n)) st \<and> length ys \<le> 4096 \<and> (\<forall>y \<in> set ys. 100 < o_price y))"
    using assms(4,5) by blast
  from touch_scn.bench_ok [where tpn = tpn and l = l and w = w, OF assms(1-3) le this]
  show "\<exists>sample st rs w'. cross_touch_depth p pf tpn l n bg w = Inr (sample, Inr (st, rs), w') \<and> length rs = 550000 \<and>
      (\<forall>evs \<in> set rs. list_all is_fill evs \<and> length evs = 2 * unat n)"
    unfolding cross_touch_depth_def light_iters rbind_Inr b(1) st(1) all_set_conv_all_nth by blast
qed

text \<open>Takers that must be refused: the two fill-or-kill scenarios find too little at their price, the
  immediate-or-cancel one an empty side; each answers with the same single refusal every time.\<close>

lemma static_bench_ok:
  assumes "hdr_new pf = Some h0" and "hdr_accepts pf" and "rusage_ok p pf"
    and "at_market p cap [] asks (length asks) b" and "length asks \<le> 4096" and "dead_end cap asks r evs"
  shows "\<exists>sample b' rs w'. run_scenario_of p pf tpn l Iters_STANDARD no_prepare (static_op p r) b w = Inr (sample, Inr (b', rs), w') \<and>
    rs = replicate 1100000 evs"
proof -
  have le: "unat (warmup Iters_STANDARD) + unat (measure Iters_STANDARD) \<le> 2 ^ 40" by (simp add: standard_iters)
  have "\<exists>cap asks. at_market p cap [] asks (length asks + 0) b \<and> length asks \<le> 4096 \<and> dead_end cap asks r evs" using assms(4-6) by auto
  from static_scn.bench_ok [where tpn = tpn and l = l and w = w, OF assms(1-3) le this] obtain sample b' rs w' where
    r: "run_scenario_of p pf tpn l Iters_STANDARD no_prepare (static_op p r) b w = Inr (sample, Inr (b', rs), w')"
    "length rs = 1100000" "\<forall>k < length rs. rs ! k = evs" unfolding standard_iters by blast
  have "rs = replicate 1100000 evs" using r(2,3) by (metis length_replicate nth_equalityI nth_replicate)
  with r(1) show ?thesis by blast
qed

lemma dead_end_fok:
  assumes "units asks" and "length asks \<le> 4096" and "pr \<noteq> 0"
    and "length (filter (\<lambda>x. o_price x \<le> pr) asks) < unat q" and "unat q < 2 ^ 32"
  shows "dead_end cap asks (matcher_req Bid pr q FOK RqNew h) [EvReject 0 InsufficientLiquidity q 0 (hash_from_seed h)]"
proof -
  have "volume (filter (\<lambda>x. o_price x \<le> pr) asks) = length (filter (\<lambda>x. o_price x \<le> pr) asks)" using assms(1) by (intro volume_units) simp
  then have "offered \<lparr>mk_capacity = cap, mk_queue = (\<lambda>s. case s of Bid \<Rightarrow> [] | Ask \<Rightarrow> asks)\<rparr> (matcher_req Bid pr q FOK RqNew h) < unat q"
    using assms(4) by (simp add: offered_def)
  from exchange_fok_short [OF this assms(3)] volume_units [OF assms(1)] assms(2,5) show ?thesis
    by (simp add: dead_end_def del: exchange_step.simps)
qed

theorem matcher_refusals_sound:
  assumes "hdr_new pf = Some h0" and "hdr_accepts pf" and "rusage_ok p pf"
  shows "\<exists>sample b rs w'. fok_fail_fast p pf tpn w = Inr (sample, Inr (b, rs), w') \<and>
      rs = replicate 1100000 [EvReject 0 InsufficientLiquidity 10 0 (hash_from_seed 1000)]"
    and "\<exists>sample b rs w'. fok_fail_deep p pf tpn w = Inr (sample, Inr (b, rs), w') \<and>
      rs = replicate 1100000 [EvReject 0 InsufficientLiquidity 17 0 (hash_from_seed 1000)]"
    and "\<exists>sample b rs w'. ioc_no_liquidity p pf tpn w = Inr (sample, Inr (b, rs), w') \<and>
      rs = replicate 1100000 [EvReject 0 InsufficientLiquidity 10 0 (hash_from_seed 1)]"
proof -
  have b1: "0 < unat (1000 :: u64)" "unat (1000 :: u64) < 2 ^ 31" by simp_all
  obtain b asks where b: "static_asks p 1000 = Inr b" "at_market p 4096 [] asks 16 b" "length asks = 16" "units asks"
    "\<forall>x \<in> set asks. 1000 \<le> o_price x" by (rule static_asks_ok [OF b1])
  have nz: "(100 :: u64) \<noteq> 0" "(116 :: u64) \<noteq> 0" "(10 :: u64) \<noteq> 0" by (simp_all add: word_unat_eq_iff)
  have at: "at_market p 4096 [] asks (length asks) b" and le: "length asks \<le> 4096" using b(2,3) by simp_all
  have "filter (\<lambda>x. o_price x \<le> 100) asks = []" using b(5) by (auto simp: filter_empty_conv word_le_nat_alt)
  then have "dead_end 4096 asks (matcher_req Bid 100 10 FOK RqNew 1000) [EvReject 0 InsufficientLiquidity 10 0 (hash_from_seed 1000)]"
    using b(3,4) nz(1) by (intro dead_end_fok) simp_all
  from static_bench_ok [where tpn = tpn and l = "''fok_fail_fast''" and w = w, OF assms at le this]
  show "\<exists>sample b rs w'. fok_fail_fast p pf tpn w = Inr (sample, Inr (b, rs), w') \<and>
      rs = replicate 1100000 [EvReject 0 InsufficientLiquidity 10 0 (hash_from_seed 1000)]"
    unfolding fok_fail_fast_def b(1) rbind_Inr .
  have b1: "0 < unat (100 :: u64)" "unat (100 :: u64) < 2 ^ 31" by simp_all
  obtain b asks where b: "static_asks p 100 = Inr b" "at_market p 4096 [] asks 16 b" "length asks = 16" "units asks"
    by (rule static_asks_ok [OF b1])
  have at: "at_market p 4096 [] asks (length asks) b" and le: "length asks \<le> 4096" using b(2,3) by simp_all
  have "length (filter (\<lambda>x. o_price x \<le> 116) asks) \<le> 16" using b(3) by (metis length_filter_le)
  then have "dead_end 4096 asks (matcher_req Bid 116 17 FOK RqNew 1000) [EvReject 0 InsufficientLiquidity 17 0 (hash_from_seed 1000)]"
    using b(3,4) nz(2) by (intro dead_end_fok) simp_all
  moreover have "(100 :: u64) + 16 = 116" "(16 :: u64) + 1 = 17" by simp_all
  ultimately show "\<exists>sample b rs w'. fok_fail_deep p pf tpn w = Inr (sample, Inr (b, rs), w') \<and>
      rs = replicate 1100000 [EvReject 0 InsufficientLiquidity 17 0 (hash_from_seed 1000)]"
    using static_bench_ok [where tpn = tpn and l = "''fok_fail_deep''" and w = w, OF assms at le]
    unfolding fok_fail_deep_def b(1) rbind_Inr by metis
  have "0 < (64 :: u32)" "64 < MAX_CAPACITY" by (simp_all add: MAX_CAPACITY_def)
  then obtain b where b: "Book_new 64 = Inr b" "at_market p (unat (64 :: u32)) [] [] 0 b" by (rule Book_new_ok)
  then have at: "at_market p 64 [] [] (length []) b" and le: "length [] \<le> 4096" by simp_all
  have "dead_end 64 [] (matcher_req Bid 100 10 IOC RqNew 1) [EvReject 0 InsufficientLiquidity 10 0 (hash_from_seed 1)]"
    using exchange_ioc_empty [OF nz(3,1), of 64 "[]" _ 1] by (simp add: dead_end_def del: exchange_step.simps)
  from static_bench_ok [where tpn = tpn and l = "''ioc_no_liquidity''" and w = w, OF assms at le this]
  show "\<exists>sample b rs w'. ioc_no_liquidity p pf tpn w = Inr (sample, Inr (b, rs), w') \<and>
      rs = replicate 1100000 [EvReject 0 InsufficientLiquidity 10 0 (hash_from_seed 1)]"
    unfolding ioc_no_liquidity_def b(1) rbind_Inr .
qed

text \<open>The combined scenarios: the taker of \<open>partial_then_rest\<close> fills one unit and rests the other every
  time, and in the mixed stream no order is refused because the book is full or its hash is taken.\<close>

theorem matcher_streams_sound:
  assumes "hdr_new pf = Some h0" and "hdr_accepts pf" and "rusage_ok p pf"
  shows "\<exists>sample st rs w'. partial_then_rest p pf tpn w = Inr (sample, Inr (st, rs), w') \<and> length rs = 550000 \<and>
      (\<forall>evs \<in> set rs. \<exists>i j h h' x. evs = [EvPartialFill i 1 100 1 0 h, EvFill j 1 100 0 h', EvNew x] \<and> o_quantity x = 1)"
    and "\<exists>sample st rs w'. realistic_workload p pf tpn w = Inr (sample, Inr (st, rs), w') \<and> length rs = 1100000 \<and>
      (\<forall>evs \<in> set rs. list_all (\<lambda>ev. \<not> rest_refused ev) evs) \<and> length (mx_active st) \<le> 80000"
proof -
  have "0 < (65536 :: u32)" "65536 < MAX_CAPACITY" by (simp_all add: MAX_CAPACITY_def)
  then obtain b where b: "Book_new 65536 = Inr b" "at_market p (unat (65536 :: u32)) [] [] 0 b" by (rule Book_new_ok)
  then have inv: "partial_state p 0 \<lparr>pt_book = b, pt_seed = 0, pt_last_taker = None\<rparr>" by (simp add: partial_state_def)
  have le: "unat (warmup Iters_LIGHT) + unat (measure Iters_LIGHT) \<le> 2 ^ 40" by (simp add: light_iters)
  from partial_scn.bench_ok [where tpn = tpn and l = "''partial_then_rest''" and w = w, OF assms le inv]
  show "\<exists>sample st rs w'. partial_then_rest p pf tpn w = Inr (sample, Inr (st, rs), w') \<and> length rs = 550000 \<and>
      (\<forall>evs \<in> set rs. \<exists>i j h h' x. evs = [EvPartialFill i 1 100 1 0 h, EvFill j 1 100 0 h', EvNew x] \<and> o_quantity x = 1)"
    unfolding partial_then_rest_def light_iters rbind_Inr b(1) all_set_conv_all_nth by blast
  have "0 < (131072 :: u32)" "131072 < MAX_CAPACITY" by (simp_all add: MAX_CAPACITY_def)
  then obtain b where b: "Book_new 131072 = Inr b" "at_market p (unat (131072 :: u32)) [] [] 0 b" by (rule Book_new_ok)
  let ?s0 = "\<lparr>mx_book = b, mx_active = [], mx_seed = 0, mx_rng = Lcg_new 0x9E3779B9\<rparr>"
  have "stream_state p 0 ?s0" "mx_active ?s0 = []" using b(2) by (auto simp: stream_state_def straddles_def)
  then obtain st where st: "fold_res (\<lambda>_. passive_fill p) [0..<30000] ?s0 = Inr st" "stream_state p 30000 st" by (rule stream_fill)
  have le: "unat (warmup Iters_STANDARD) + unat (measure Iters_STANDARD) \<le> 2 ^ 61" by (simp add: standard_iters)
  have "stream_state p (30000 + 0) st" using st(2) by simp
  from stream_scn.bench_ok [where tpn = tpn and l = "''realistic_workload''" and w = w, OF assms le this] obtain sample st' rs w' where
    r: "run_scenario_of p pf tpn ''realistic_workload'' Iters_STANDARD (mixed_prepare p) (mixed_op p) st w = Inr (sample, Inr (st', rs), w')"
    "length rs = 1100000" "\<forall>k < length rs. list_all (\<lambda>ev. \<not> rest_refused ev) (rs ! k)" "stream_state p (30000 + 1100000) st'"
    unfolding standard_iters by blast
  from r(4) have "length (mx_active st') \<le> 80000" by (simp add: stream_state_def)
  with r(1-3) show "\<exists>sample st rs w'. realistic_workload p pf tpn w = Inr (sample, Inr (st, rs), w') \<and> length rs = 1100000 \<and>
      (\<forall>evs \<in> set rs. list_all (\<lambda>ev. \<not> rest_refused ev) evs) \<and> length (mx_active st) \<le> 80000"
    unfolding realistic_workload_def rbind_Inr b(1) st(1) all_set_conv_all_nth by blast
qed

section \<open>The instruction-count fixtures\<close>

lemma iai_start:
  obtains e where "iai_engine = Inr e" and "at_market p 1024 [] [] 0 \<lparr>bb_engine = e, bb_buf = []\<rparr>"
proof -
  have "0 < (1024 :: u32)" "1024 < MAX_CAPACITY" by (simp_all add: MAX_CAPACITY_def)
  then obtain b where b: "Book_new 1024 = Inr b" "at_market p (unat (1024 :: u32)) [] [] 0 b" by (rule Book_new_ok)
  from b(1) obtain e where e: "new_engine 1024 = Inr e" "b = \<lparr>bb_engine = e, bb_buf = []\<rparr>" by (auto simp: Book_new_def rbind_eq_Inr)
  from e(1) obtain e' r where a: "add_instrument Engine_new INSTR 1024 = Inr (e', r)" by (auto simp: new_engine_def rbind_eq_Inr)
  with e(1) have "iai_engine = Inr e" by (cases r) (simp_all add: iai_engine_def new_engine_def)
  with that b(2) e(2) show thesis by simp
qed

lemma iai_req_matcher: "iai_req side price qty tif seed = matcher_req side price qty tif RqNew seed"
  by (simp add: iai_req_def matcher_req_def)

lemma iai_fold:
  assumes "fold_res (\<lambda>lvl st. rbind (plus_u p 100 lvl) (\<lambda>price. add_order p Ask price 1 st)) xs st = Inr st'"
  shows "fold_res (iai_add p) xs st = Inr st'"
  using assms
proof (induction xs arbitrary: st)
  case (Cons x xs)
  from Cons.prems obtain st1 where st1: "rbind (plus_u p 100 x) (\<lambda>price. add_order p Ask price 1 st) = Inr st1"
    "fold_res (\<lambda>lvl st. rbind (plus_u p 100 lvl) (\<lambda>price. add_order p Ask price 1 st)) xs st1 = Inr st'" by (auto simp: rbind_eq_Inr)
  from st1(1) have "iai_add p x st = Inr st1"
    by (auto simp: iai_add_def add_order_def fresh_req_def rbind_eq_Inr iai_req_matcher)
  with Cons.IH [OF st1(2)] show ?case by simp
qed simp

lemma setup_cross_ok:
  assumes "unat n \<le> 1024"
  obtains st asks where "setup_cross p n = Inr (bb_engine (ss_book st), matcher_req Bid (100 + n) n IOC RqNew (ss_seed st), [])"
    and "seed_state p 1024 asks (unat n) st" and "length asks = unat n" and "\<forall>x \<in> set asks. o_price x < 100 + n"
proof -
  obtain e where e: "iai_engine = Inr e" "at_market p 1024 [] [] 0 \<lparr>bb_engine = e, bb_buf = []\<rparr>" by (rule iai_start)
  let ?s0 = "\<lparr>ss_book = \<lparr>bb_engine = e, bb_buf = []\<rparr>, ss_seed = 0\<rparr>"
  have s0: "seed_state p 1024 [] 0 ?s0" using e(2) by (simp add: seed_state_def)
  have sm: "(1024 :: nat) < 2 ^ 32" "0 + unat n < 2 ^ 62" "0 < unat (100 :: u64)" "unat (100 :: u64) < 2 ^ 31" "unat n < 2 ^ 31"
    using assms by simp_all
  obtain st asks where st: "fold_res (\<lambda>lvl st. rbind (plus_u p 100 lvl) (\<lambda>price. add_order p Ask price 1 st)) (usize_upto n) ?s0 = Inr st"
    "seed_state p 1024 asks (0 + unat n) st" "length asks = unat n" "\<forall>x \<in> set asks. 100 \<le> o_price x \<and> o_price x < 100 + n"
    by (rule add_ask_levels [OF s0 assms sm])
  have "plus_u p 100 n = Inr (100 + n)" using small_plus(1) [of 100 n] assms by simp
  then have "setup_cross p n = Inr (bb_engine (ss_book st), matcher_req Bid (100 + n) n IOC RqNew (ss_seed st), [])"
    unfolding setup_cross_def e(1) using iai_fold [OF st(1)] by (simp add: iai_req_matcher)
  with st(2-4) that show thesis by simp
qed

lemma run_one_process:
  assumes "Book_process p b r = Inr b'"
  shows "run_one p (bb_engine b, r, buf) = Inr (bb_engine b', r, bb_buf b')"
  using assms by (auto simp: Book_process_def run_one_def rbind_eq_Inr)

text \<open>The three measured calls: the resting order is accepted, the sweep of \<open>n\<close> levels emits the two
  events of each fill and leaves the book empty, and the fill-or-kill order is refused with the book
  as it was.\<close>

theorem iai_fixtures_sound:
  shows "\<exists>fx e r x. setup_rest = Inr fx \<and> run_one p fx = Inr (e, r, [EvNew x])"
    and "0 < unat n \<Longrightarrow> unat n \<le> 1024 \<Longrightarrow> \<exists>fx e r evs. setup_cross p n = Inr fx \<and> run_one p fx = Inr (e, r, evs) \<and>
      list_all is_fill evs \<and> length evs = 2 * unat n \<and> exchange_of e = mkt 1024 [] [] (of_nat (Suc (unat n)))"
    and "\<exists>e0 e r asks. setup_fok_fail p = Inr (e0, r, []) \<and> run_one p (e0, r, []) = Inr (e, r, [EvReject 0 InsufficientLiquidity 17 0 (hash_from_seed 9999)]) \<and>
      length asks = 16 \<and> exchange_of e0 = mkt 1024 [] asks 16 \<and> exchange_of e = mkt 1024 [] asks 17"
proof -
  obtain e where e: "iai_engine = Inr e" "at_market p 1024 [] [] 0 \<lparr>bb_engine = e, bb_buf = []\<rparr>" by (rule iai_start)
  let ?b = "\<lparr>bb_engine = e, bb_buf = []\<rparr>" and ?r = "matcher_req Bid 100 10 GTC RqNew 1"
  have nz: "(10 :: u64) \<noteq> 0" "(100 :: u64) \<noteq> 0" "(200 :: u64) \<noteq> 0" by (simp_all add: word_unat_eq_iff)
  let ?x = "resting_order ?r (of_nat 0) 10"
  have ex: "exchange_step (mkt 1024 [] [] (of_nat 0), []) (Process ?r) = (mkt 1024 (enqueue Bid ?x []) [] (of_nat 1), [EvNew ?x])"
    using exchange_rest [OF nz(1,2), of "[]" "[]" 1024 1 Bid ?x "of_nat 0"] by (simp del: exchange_step.simps)
  have "(0 :: nat) + 1 < 2 ^ 63" "volume [] + volume [] + unat (10 :: u64) < 2 ^ 64" by simp_all
  from process_new_ok [OF e(2) this ex] obtain b' where "Book_process p ?b ?r = Inr b'" "bb_buf b' = [EvNew ?x]" .
  with run_one_process [of p ?b ?r b' "[]"] show "\<exists>fx e r x. setup_rest = Inr fx \<and> run_one p fx = Inr (e, r, [EvNew x])"
    unfolding setup_rest_def e(1) by (simp add: iai_req_matcher)
  {
    assume n: "0 < unat n" "unat n \<le> 1024"
    obtain st asks where st: "setup_cross p n = Inr (bb_engine (ss_book st), matcher_req Bid (100 + n) n IOC RqNew (ss_seed st), [])"
      "seed_state p 1024 asks (unat n) st" "length asks = unat n" "\<forall>x \<in> set asks. o_price x < 100 + n" by (rule setup_cross_ok [OF n(2)])
    have seed: "ss_seed st = of_nat (unat n)" using st(2) by (simp add: seed_state_def)
    have "unat (100 + n) = unat (100 :: u64) + unat n" using small_plus(2) [of 100 n] n(2) by simp
    then have t: "seed_state p 1024 (asks @ []) (unat n) st" "\<forall>x \<in> set asks. o_price x \<le> 100 + n" "\<forall>y \<in> set []. 100 + n < o_price y"
      "0 < length asks" "length asks + length [] < 2 ^ 32" "100 + n \<noteq> 0" "IOC = IOC \<or> IOC = FOK" "unat n < 2 ^ 62"
      using st(2-4) n by (auto simp: word_unat_eq_iff less_imp_le)
    have len: "of_nat (length asks) = n" using st(3) by simp
    obtain st1 st2 evs where r: "fresh_req p Bid (100 + n) n IOC st = Inr (matcher_req Bid (100 + n) n IOC RqNew (of_nat (unat n)), st1)"
      "seed_op p st1 (matcher_req Bid (100 + n) n IOC RqNew (of_nat (unat n))) = Inr (evs, st2)"
      "list_all is_fill evs" "length evs = 2 * length asks" "seed_state p 1024 [] (Suc (unat n)) st2"
      using take_asks [OF t] unfolding len .
    have "ss_book st1 = ss_book st" using r(1) by (auto simp: fresh_req_def rbind_eq_Inr)
    with r(2) have "Book_process p (ss_book st) (matcher_req Bid (100 + n) n IOC RqNew (ss_seed st)) = Inr (ss_book st2)" "evs = bb_buf (ss_book st2)"
      unfolding seed by (auto simp: seed_op_def rbind_eq_Inr)
    moreover have "exchange_of (bb_engine (ss_book st2)) = mkt 1024 [] [] (of_nat (Suc (unat n)))"
      using r(5) by (simp add: seed_state_def at_market_def)
    ultimately show "\<exists>fx e r evs. setup_cross p n = Inr fx \<and> run_one p fx = Inr (e, r, evs) \<and>
        list_all is_fill evs \<and> length evs = 2 * unat n \<and> exchange_of e = mkt 1024 [] [] (of_nat (Suc (unat n)))"
      using st(1,3) r(3,4) run_one_process by metis
  }
  have le: "unat (16 :: u64) \<le> 1024" by simp
  obtain st asks where st: "setup_cross p 16 = Inr (bb_engine (ss_book st), matcher_req Bid (100 + 16) 16 IOC RqNew (ss_seed st), [])"
    "seed_state p 1024 asks (unat (16 :: u64)) st" "length asks = unat (16 :: u64)" by (rule setup_cross_ok [OF le])
  let ?t = "matcher_req Bid 200 17 FOK RqNew 9999" and ?evs = "[EvReject 0 InsufficientLiquidity 17 0 (hash_from_seed 9999)]"
  have at: "at_market p 1024 [] asks 16 (ss_book st)" and u: "units asks" "length asks = 16" using st(2,3) by (simp_all add: seed_state_def)
  have "length (filter (\<lambda>x. o_price x \<le> 200) asks) \<le> 16" using u(2) by (metis length_filter_le)
  then have "dead_end 1024 asks ?t ?evs" using u nz(3) by (intro dead_end_fok) simp_all
  then have ex: "exchange_step (mkt 1024 [] asks (of_nat 16), []) (Process ?t) = (mkt 1024 [] asks (of_nat 17), ?evs)"
    by (simp add: dead_end_def del: exchange_step.simps)
  have "(16 :: nat) + 1 < 2 ^ 63" "volume [] + volume asks + unat (17 :: u64) < 2 ^ 64" using volume_units [OF u(1)] u(2) by simp_all
  from process_new_ok [OF at this ex] obtain b' where b': "Book_process p (ss_book st) ?t = Inr b'" "bb_buf b' = ?evs" "at_market p 1024 [] asks 17 b'" .
  have f: "setup_fok_fail p = Inr (bb_engine (ss_book st), ?t, [])" using st(1) by (simp add: setup_fok_fail_def iai_req_matcher)
  have r: "run_one p (bb_engine (ss_book st), ?t, []) = Inr (bb_engine b', ?t, ?evs)" using run_one_process [OF b'(1)] b'(2) by simp
  have x: "exchange_of (bb_engine (ss_book st)) = mkt 1024 [] asks 16" "exchange_of (bb_engine b') = mkt 1024 [] asks 17"
    using at b'(3) by (simp_all add: at_market_def)
  from f r u(2) x show "\<exists>e0 e r asks. setup_fok_fail p = Inr (e0, r, []) \<and> run_one p (e0, r, []) = Inr (e, r, ?evs) \<and>
      length asks = 16 \<and> exchange_of e0 = mkt 1024 [] asks 16 \<and> exchange_of e = mkt 1024 [] asks 17" by blast
qed

end
