(* ===== verification/Bench_Env.thy ===== *)
theory Bench_Env
  imports Rust_Str
begin

text \<open>
  \<open>crates/benchkit/src/env.rs\<close>: detection of the run environment and its warnings.

  What the code reads from the outside is the record \<open>host\<close>: the readable files of the machine, the
  output of the two \<open>git\<close> commands, the clock, and what the build script (\<open>build.rs\<close>, at the end) baked in. The \<open>f64\<close> rate
  of the time-stamp counter is an opaque value with its formatter as a parameter.
\<close>

section \<open>The outside world\<close>

text \<open>The outcome of a command that was started: its success and its standard output.\<close>

record host =
  h_file :: "string \<Rightarrow> string option"
  h_git_rev_parse :: "(bool \<times> string) option"
  h_git_status :: "(bool \<times> string) option"
  h_unix_secs :: u64
  h_rustc :: string
  h_rustflags :: string
  h_debug_assertions :: bool

definition em_dash :: string where "em_dash = [CHR 0xE2, CHR 0x80, CHR 0x94]"
definition mid_dot :: string where "mid_dot = [CHR 0xC2, CHR 0xB7]"
definition check_mark :: string where "check_mark = [CHR 0xE2, CHR 0x9C, CHR 0x93]"
definition warn_sign :: string where "warn_sign = [CHR 0xE2, CHR 0x9A, CHR 0xA0]"

datatype Turbo = TurboOn | TurboOff | TurboUnknown

record CorePrep =
  cp_core :: u32
  cp_governor :: string
  cp_clock_min_khz :: "u64 option"
  cp_clock_max_khz :: "u64 option"
  cp_smt_siblings_online :: "u32 list"

section \<open>Detection helpers\<close>

definition read_trim :: "host \<Rightarrow> string \<Rightarrow> string option" where
  "read_trim h path = map_option trim (h_file h path)"

definition field_after_colon :: "string \<Rightarrow> string \<Rightarrow> string option" where
  "field_after_colon key s =
     Option.bind (List.find (starts_with key) (lines s)) (\<lambda>l.
       map_option trim (slice_get (split_on CHR '':'' l) 1))"

definition cpu_model :: "host \<Rightarrow> string" where
  "cpu_model h = unwrap_or (Option.bind (read_trim h ''/proc/cpuinfo'') (field_after_colon ''model name'')) ''unknown''"

definition read_turbo :: "host \<Rightarrow> Turbo" where
  "read_turbo h =
     (let t = read_trim h ''/sys/devices/system/cpu/intel_pstate/no_turbo'' in
      if t = Some ''1'' then TurboOff else if t = Some ''0'' then TurboOn else TurboUnknown)"

definition cpu_path :: "u32 \<Rightarrow> string \<Rightarrow> string" where
  "cpu_path core rest = ''/sys/devices/system/cpu/cpu'' @ show_word core @ rest"

definition read_khz :: "host \<Rightarrow> u32 \<Rightarrow> string \<Rightarrow> u64 option" where
  "read_khz h core file = Option.bind (read_trim h (cpu_path core (''/cpufreq/'' @ file))) parse_u64"

definition u32_range :: "u32 \<Rightarrow> u32 \<Rightarrow> u32 list" where
  "u32_range a b = map of_nat [unat a..<Suc (unat b)]"

definition cpu_part :: "string \<Rightarrow> u32 list" where
  "cpu_part part =
     (case split_once CHR ''-'' part of
        Some (a, b) \<Rightarrow> (case (parse_u32 a, parse_u32 b) of (Some a, Some b) \<Rightarrow> u32_range a b | _ \<Rightarrow> [])
      | None \<Rightarrow> (case parse_u32 part of Some v \<Rightarrow> [v] | None \<Rightarrow> []))"

definition parse_cpu_list :: "string \<Rightarrow> u32 list" where
  "parse_cpu_list s = concat (map cpu_part (filter (\<lambda>p. p \<noteq> []) (map trim (split_on CHR '','' s))))"

definition online_siblings :: "host \<Rightarrow> u32 \<Rightarrow> u32 list" where
  "online_siblings h core =
     (case read_trim h (cpu_path core ''/topology/thread_siblings_list'') of
        None \<Rightarrow> []
      | Some l \<Rightarrow>
          filter (\<lambda>sib. unwrap_or (map_option (\<lambda>v. v = ''1'') (read_trim h (cpu_path sib ''/online''))) True)
            (filter (\<lambda>sib. sib \<noteq> core) (parse_cpu_list l)))"

definition git_short_sha :: "host \<Rightarrow> string option" where
  "git_short_sha h =
     Option.bind (h_git_rev_parse h) (\<lambda>(success, out).
       if \<not> success then None else let sha = trim out in if sha \<noteq> [] then Some sha else None)"

definition git_dirty :: "host \<Rightarrow> bool" where
  "git_dirty h = unwrap_or (map_option (\<lambda>(success, out). success \<and> out \<noteq> []) (h_git_status h)) False"

definition read_affinity :: "host \<Rightarrow> string" where
  "read_affinity h = unwrap_or (Option.bind (read_trim h ''/proc/self/status'') (field_after_colon ''Cpus_allowed_list:'')) ''?''"

definition is_single_core :: "string \<Rightarrow> bool" where
  "is_single_core affinity \<longleftrightarrow>
     affinity \<noteq> [] \<and> affinity \<noteq> ''?'' \<and> CHR ''-'' \<notin> set affinity \<and> CHR '','' \<notin> set affinity"

section \<open>Calendar\<close>

text \<open>Rust's integer division truncates towards zero. The values stay far below \<open>2^63\<close>.\<close>

definition rust_div :: "int \<Rightarrow> int \<Rightarrow> int" where
  "rust_div a b = sgn a * sgn b * (\<bar>a\<bar> div \<bar>b\<bar>)"

definition civil_from_days :: "int \<Rightarrow> int \<times> u32 \<times> u32" where
  "civil_from_days days =
     (let z = days + 719468;
          era = rust_div (if 0 \<le> z then z else z - 146096) 146097;
          doe = z - era * 146097;
          yoe = rust_div (doe - rust_div doe 1460 + rust_div doe 36524 - rust_div doe 146096) 365;
          y = yoe + era * 400;
          doy = doe - (365 * yoe + rust_div yoe 4 - rust_div yoe 100);
          mp = rust_div (5 * doy + 2) 153;
          d = of_int (doy - rust_div (153 * mp + 2) 5 + 1);
          m = of_int (if mp < 10 then mp + 3 else mp - 9)
      in (if m \<le> (2 :: u32) then y + 1 else y, m, d))"

definition utc_stamp :: "u64 \<Rightarrow> string" where
  "utc_stamp secs =
     (let hh = unat secs mod 86400 div 3600; mi = unat secs mod 3600 div 60; s = unat secs mod 60 in
      case civil_from_days (int (unat secs div 86400)) of
        (y, m, d) \<Rightarrow>
          show_int_pad 4 y @ ''-'' @ pad0 2 (show_word m) @ ''-'' @ pad0 2 (show_word d) @ ''_'' @
          pad0 2 (show_nat hh) @ ''-'' @ pad0 2 (show_nat mi) @ ''-'' @ pad0 2 (show_nat s))"

section \<open>Warnings\<close>

definition governor_warning :: "string \<Rightarrow> string" where
  "governor_warning gov = ''governor `'' @ gov @ ''` (not `performance`): clock may scale during the run''"

definition clock_warning :: "u32 \<Rightarrow> u64 \<Rightarrow> u64 \<Rightarrow> string" where
  "clock_warning core mn mx =
     ''clock not pinned on cpu'' @ show_word core @ '' (scaling min='' @ show_word mn @ '' max='' @ show_word mx @
     '' kHz): the rate can move mid-run '' @ em_dash @ '' pin it: sudo cpupower -c '' @ show_word core @
     '' frequency-set -d <khz> -u <khz>''"

definition smt_warning :: "u32 \<Rightarrow> u32 list \<Rightarrow> string" where
  "smt_warning core sibs =
     ''SMT sibling '' @ join '', '' (map (\<lambda>c. ''cpu'' @ show_word c) sibs) @ '' of bench cpu'' @ show_word core @
     '' is online: an OS thread there shares the physical core's pipelines and caches and pollutes tails '' @
     em_dash @ '' offline it: echo 0 | sudo tee /sys/devices/system/cpu/cpu<N>/online''"

definition or_if_empty :: "string option \<Rightarrow> string \<Rightarrow> string" where
  "or_if_empty m d = unwrap_or (filter_opt (\<lambda>s. s \<noteq> []) m) d"

definition CorePrep_detect :: "host \<Rightarrow> u32 \<Rightarrow> CorePrep" where
  "CorePrep_detect h core =
     \<lparr>cp_core = core,
      cp_governor = or_if_empty (read_trim h (cpu_path core ''/cpufreq/scaling_governor'')) ''unknown'',
      cp_clock_min_khz = read_khz h core ''scaling_min_freq'',
      cp_clock_max_khz = read_khz h core ''scaling_max_freq'',
      cp_smt_siblings_online = online_siblings h core\<rparr>"

text \<open>The three pushes that \<open>CorePrep::warnings\<close> and \<open>RunEnv::warnings\<close> both make.\<close>

definition governor_push :: "string \<Rightarrow> string list" where
  "governor_push gov = (if gov \<noteq> ''performance'' \<and> gov \<noteq> ''unknown'' then [governor_warning gov] else [])"

definition clock_push :: "u32 \<Rightarrow> u64 option \<Rightarrow> u64 option \<Rightarrow> string list" where
  "clock_push core mn mx =
     (case (mn, mx) of (Some a, Some b) \<Rightarrow> if a \<noteq> b then [clock_warning core a b] else [] | _ \<Rightarrow> [])"

definition smt_push :: "u32 \<Rightarrow> u32 list \<Rightarrow> string list" where
  "smt_push core sibs = (if sibs \<noteq> [] then [smt_warning core sibs] else [])"

definition CorePrep_warnings :: "CorePrep \<Rightarrow> string list" where
  "CorePrep_warnings p =
     governor_push (cp_governor p) @ clock_push (cp_core p) (cp_clock_min_khz p) (cp_clock_max_khz p) @
     smt_push (cp_core p) (cp_smt_siblings_online p)"

section \<open>The run environment\<close>

definition compose_run_id :: "string option \<Rightarrow> bool \<Rightarrow> string \<Rightarrow> string" where
  "compose_run_id commit dirty fallback =
     (case commit of Some sha \<Rightarrow> if dirty then sha @ ''-dirty'' else sha | None \<Rightarrow> fallback)"

definition run_id :: "host \<Rightarrow> string" where
  "run_id h = compose_run_id (git_short_sha h) (git_dirty h) (utc_stamp (h_unix_secs h))"

record 'f RunEnv =
  re_cpu_model :: string
  re_governor :: string
  re_turbo :: Turbo
  re_isolated :: string
  re_affinity :: string
  re_pinned :: bool
  re_tsc_ghz :: 'f
  re_unix_secs :: u64
  re_stamp :: string
  re_commit :: "string option"
  re_dirty :: bool
  re_rustc :: string
  re_rustflags :: string
  re_profile :: string
  re_bench_core :: "u32 option"
  re_clock_min_khz :: "u64 option"
  re_clock_max_khz :: "u64 option"
  re_smt_siblings_online :: "u32 list"

definition RunEnv_detect :: "host \<Rightarrow> 'f \<Rightarrow> 'f RunEnv" where
  "RunEnv_detect h ticks_per_nanosecond =
     (let affinity = read_affinity h;
          pinned = is_single_core affinity;
          bench_core = (if pinned then parse_u32 affinity else None);
          prep = map_option (CorePrep_detect h) bench_core;
          (mn, mx, sibs) = (case prep of
             Some p \<Rightarrow> (cp_clock_min_khz p, cp_clock_max_khz p, cp_smt_siblings_online p)
           | None \<Rightarrow> (None, None, []))
      in \<lparr>re_cpu_model = cpu_model h,
          re_governor = (case prep of
             Some p \<Rightarrow> cp_governor p
           | None \<Rightarrow> or_if_empty (read_trim h ''/sys/devices/system/cpu/cpu0/cpufreq/scaling_governor'') ''unknown''),
          re_turbo = read_turbo h,
          re_isolated = or_if_empty (read_trim h ''/sys/devices/system/cpu/isolated'') ''none'',
          re_affinity = affinity,
          re_pinned = pinned,
          re_tsc_ghz = ticks_per_nanosecond,
          re_unix_secs = h_unix_secs h,
          re_stamp = utc_stamp (h_unix_secs h),
          re_commit = git_short_sha h,
          re_dirty = git_dirty h,
          re_rustc = h_rustc h,
          re_rustflags = h_rustflags h,
          re_profile = (if h_debug_assertions h then ''debug'' else ''release''),
          re_bench_core = bench_core,
          re_clock_min_khz = mn,
          re_clock_max_khz = mx,
          re_smt_siblings_online = sibs\<rparr>)"

definition RunEnv_run_id :: "'f RunEnv \<Rightarrow> string" where
  "RunEnv_run_id e = compose_run_id (re_commit e) (re_dirty e) (re_stamp e)"

definition RunEnv_warnings :: "'f RunEnv \<Rightarrow> string list" where
  "RunEnv_warnings e =
     (if \<not> re_pinned e
      then [''process not pinned to one core (affinity `'' @ re_affinity e @
            ''`): tails include OS migration jitter '' @ em_dash @ '' re-run under `taskset -c <core>`'']
      else []) @
     governor_push (re_governor e) @
     (let core = unwrap_or (re_bench_core e) 0 in
      clock_push core (re_clock_min_khz e) (re_clock_max_khz e) @
      smt_push core (re_smt_siblings_online e))"

definition writeln :: "string \<Rightarrow> string" where
  "writeln s = s @ [newline]"

definition RunEnv_header :: "('f \<Rightarrow> string) \<Rightarrow> 'f RunEnv \<Rightarrow> string \<Rightarrow> string \<Rightarrow> string" where
  "RunEnv_header fmt2 e title scope =
     writeln (''# '' @ title @ '' '' @ em_dash @ '' '' @ re_stamp e @ '' UTC (unix '' @ show_word (re_unix_secs e) @ '')'' @ [newline]) @
     writeln (''**Hardware:** '' @ re_cpu_model e) @
     writeln (''- code: '' @ (case re_commit e of
         Some sha \<Rightarrow> if re_dirty e then ''`'' @ sha @ ''` + uncommitted changes (dirty)'' else ''`'' @ sha @ ''`''
       | None \<Rightarrow> ''unknown (not a git checkout)'')) @
     (let flags = (if re_rustflags e = [] then ''(none)'' else ''`'' @ re_rustflags e @ ''`'') in
      writeln (''- build: '' @ re_rustc e @ '' '' @ mid_dot @ '' profile `'' @ re_profile e @ ''` '' @ mid_dot @ '' rustflags '' @ flags)) @
     (let turbo = (case re_turbo e of TurboOn \<Rightarrow> ''on'' | TurboOff \<Rightarrow> ''off'' | TurboUnknown \<Rightarrow> ''?'') in
      writeln (''- governor `'' @ re_governor e @ ''` '' @ mid_dot @ '' turbo `'' @ turbo @ ''` '' @ mid_dot @
        '' isolated cores `'' @ re_isolated e @ ''` '' @ mid_dot @ '' affinity `'' @ re_affinity e @ ''` '' @
        (if re_pinned e then ''(pinned '' @ check_mark @ '')'' else ''(NOT pinned '' @ warn_sign @ '')''))) @
     (case (re_bench_core e, re_clock_min_khz e, re_clock_max_khz e) of
        (Some core, Some mn, Some mx) \<Rightarrow>
          writeln (''- clock: cpu'' @ show_word core @ '' scaling min='' @ show_word mn @ '' max='' @ show_word mx @ '' kHz '' @
            (if mn = mx then ''(pinned '' @ check_mark @ '')'' else ''(NOT pinned '' @ warn_sign @ '')''))
      | _ \<Rightarrow> []) @
     writeln (''- TSC rate ~'' @ fmt2 (re_tsc_ghz e) @ '' GHz'') @
     writeln (''- scope: '' @ scope) @
     writeln (''- latencies in **ns**; `M/s` is derived `1/mean` (single-core upper bound, not sustained). Read p50 first.'') @
     concat (map (\<lambda>w. writeln (''- '' @ warn_sign @ '' '' @ w)) (RunEnv_warnings e))"

section \<open>build.rs\<close>

text \<open>What the build script sees: the two variables cargo sets and the outcome of \<open>rustc --version\<close>
  for a given compiler. The two last lines set what \<open>env!\<close> bakes into the library.\<close>

record build_host =
  bh_rustc :: "string option"
  bh_rustc_version :: "string \<Rightarrow> (bool \<times> string) option"
  bh_encoded_rustflags :: "string option"

definition build_rustc_version :: "build_host \<Rightarrow> string" where
  "build_rustc_version bh =
     unwrap_or (map_option (\<lambda>(_, out). trim out)
       (filter_opt fst (bh_rustc_version bh (unwrap_or (bh_rustc bh) ''rustc'')))) ''unknown''"

definition build_rustflags :: "build_host \<Rightarrow> string" where
  "build_rustflags bh =
     unwrap_or (map_option (\<lambda>f. join '' '' (split_on (CHR 0x1F) f)) (bh_encoded_rustflags bh)) []"

definition build_script :: "build_host \<Rightarrow> string list" where
  "build_script bh =
     [''cargo:rerun-if-env-changed=RUSTC'',
      ''cargo:rerun-if-env-changed=CARGO_ENCODED_RUSTFLAGS'',
      ''cargo:rustc-env=BENCHKIT_RUSTC_VERSION='' @ build_rustc_version bh,
      ''cargo:rustc-env=BENCHKIT_RUSTFLAGS='' @ build_rustflags bh]"

lemma build_rustflags_chars:
  "build_rustflags bh = (case bh_encoded_rustflags bh of None \<Rightarrow> []
     | Some f \<Rightarrow> map (\<lambda>x. if x = CHR 0x1F then CHR '' '' else x) f)"
  by (simp add: build_rustflags_def unwrap_or_def join_split_on split: option.splits)

end
