(* ===== verification/Bench_Env_Props.thy ===== *)
theory Bench_Env_Props
  imports Bench_Env
begin

text \<open>
  Properties of the run-environment detection: the time stamp's calendar arithmetic against the
  Gregorian calendar, the parser of kernel cpu lists against a printer, and the meaning of an empty
  list of warnings.
\<close>

section \<open>The Gregorian calendar\<close>

definition leap :: "int \<Rightarrow> bool" where
  "leap y \<longleftrightarrow> (y mod 4 = 0 \<and> y mod 100 \<noteq> 0) \<or> y mod 400 = 0"

definition days_in_month :: "int \<Rightarrow> int \<Rightarrow> int" where
  "days_in_month y m = (if m = 2 then if leap y then 29 else 28 else if m \<in> {4, 6, 9, 11} then 30 else 31)"

fun next_day :: "int \<times> int \<times> int \<Rightarrow> int \<times> int \<times> int" where
  "next_day (y, m, d) =
     (if d < days_in_month y m then (y, m, d + 1) else if m < 12 then (y, m + 1, 1) else (y + 1, 1, 1))"

section \<open>Years of an era\<close>

text \<open>Years start in March; \<open>year_start\<close> is the day of the era on which year \<open>y\<close> of it starts.\<close>

definition year_start :: "int \<Rightarrow> int" where
  "year_start y = 365 * y + y div 4 - y div 100"

definition year_len :: "int \<Rightarrow> int" where
  "year_len y = (if leap (y + 1) then 366 else 365)"

definition yoe_of :: "int \<Rightarrow> int" where
  "yoe_of doe = (doe - doe div 1460 + doe div 36524 - doe div 146096) div 365"

lemma yoe_bounds:
  "list_all (\<lambda>y. yoe_of (year_start y) = y \<and> yoe_of (year_start y + year_len y - 1) = y) [0..399]"
  by code_simp

lemma year_start_Suc:
  "list_all (\<lambda>y. year_start (y + 1) = year_start y + year_len y) [0..398]"
  by code_simp

lemma yoe_step:
  assumes "0 \<le> d" and "d < 146096"
  shows "yoe_of d \<le> yoe_of (d + 1)"
proof -
  let ?g = "\<lambda>d :: int. d - d div 1460 + d div 36524 - d div 146096"
  have "?g d \<le> ?g (d + 1)"
  proof (cases "d + 1 = 146096")
    case True
    then have "d = 146095" by simp
    then show ?thesis by simp
  next
    case False
    have "(d + 1) div 1460 \<le> d div 1460 + 1" "d div 36524 \<le> (d + 1) div 36524" by linarith+
    moreover have "d div 146096 = 0" "(d + 1) div 146096 = 0" using assms False by simp_all
    ultimately show ?thesis by linarith
  qed
  then show ?thesis unfolding yoe_of_def by (rule zdiv_mono1) simp
qed

lemma yoe_mono: "0 \<le> a \<Longrightarrow> b \<le> 146096 \<Longrightarrow> a \<le> b \<Longrightarrow> yoe_of a \<le> yoe_of b"
proof (induction "nat (b - a)" arbitrary: b)
  case (Suc n)
  then have "yoe_of a \<le> yoe_of (b - 1)" by simp
  also have "\<dots> \<le> yoe_of b" using yoe_step [of "b - 1"] Suc by simp
  finally show ?case .
qed simp

section \<open>Months of a year\<close>

definition month_of :: "int \<Rightarrow> int" where
  "month_of doy = (let mp = (5 * doy + 2) div 153 in if mp < 10 then mp + 3 else mp - 9)"

definition day_of :: "int \<Rightarrow> int" where
  "day_of doy = (let mp = (5 * doy + 2) div 153 in doy - (153 * mp + 2) div 5 + 1)"

definition date_of :: "int \<Rightarrow> int \<Rightarrow> int \<times> int \<times> int" where
  "date_of y doy = (if month_of doy \<le> 2 then y + 1 else y, month_of doy, day_of doy)"

definition month_step_ok :: "int \<Rightarrow> bool" where
  "month_step_ok doy \<longleftrightarrow>
     (let m = month_of doy; d = day_of doy; m' = month_of (doy + 1); d' = day_of (doy + 1);
          len = (if m = 2 then 28 else if m \<in> {4, 6, 9, 11} then 30 else 31)
      in (if d < len then m' = m \<and> d' = d + 1 else m \<noteq> 2 \<and> d' = 1 \<and> m' = (if m < 12 then m + 1 else 1)))"

lemma month_steps: "list_all month_step_ok [0..363]"
  by code_simp

lemma month_range: "list_all (\<lambda>doy. 1 \<le> month_of doy \<and> month_of doy \<le> 12 \<and> 1 \<le> day_of doy \<and> day_of doy \<le> 31) [0..365]"
  by code_simp

lemma list_all_upto: "list_all P [a..b] \<Longrightarrow> a \<le> i \<Longrightarrow> i \<le> b \<Longrightarrow> P i"
  by (simp add: list_all_iff)

lemma next_day_within:
  assumes "0 \<le> doy" and "doy + 1 < year_len y"
  shows "next_day (date_of y doy) = date_of y (doy + 1)"
proof (cases "doy = 364")
  case True
  then have "leap (y + 1)" using assms(2) by (simp add: year_len_def split: if_splits)
  moreover have "month_of 364 = 2" "day_of 364 = 28" "month_of 365 = 2" "day_of 365 = 29" by code_simp+
  ultimately show ?thesis using True by (simp add: date_of_def days_in_month_def)
next
  case False
  then have "doy \<le> 363" using assms(2) by (auto simp: year_len_def split: if_splits)
  then have "month_step_ok doy" using list_all_upto [OF month_steps assms(1)] by simp
  moreover have "day_of doy < 28" if "month_of doy = 2"
    using \<open>month_step_ok doy\<close> that by (simp add: month_step_ok_def Let_def split: if_splits)
  ultimately show ?thesis
    by (auto simp: date_of_def days_in_month_def month_step_ok_def Let_def split: if_splits)
qed

lemma next_day_year_end:
  assumes "doy + 1 = year_len y"
  shows "next_day (date_of y doy) = date_of (y + 1) 0"
proof -
  have "month_of 364 = 2" "day_of 364 = 28" "month_of 365 = 2" "day_of 365 = 29" "month_of 0 = 3" "day_of 0 = 1"
    by code_simp+
  then show ?thesis using assms by (auto simp: date_of_def days_in_month_def year_len_def split: if_splits)
qed

lemma leap_era: "leap (y + e * 400) = leap y"
  by (simp add: leap_def mod_add_eq [symmetric] mod_mult_left_eq)

lemma rust_div_nonneg [simp]: "0 \<le> a \<Longrightarrow> 0 < b \<Longrightarrow> rust_div a b = a div b"
  by (cases "a = 0") (simp_all add: rust_div_def)

text \<open>The code's arithmetic on a day given by era, year of the era and day of the year.\<close>

lemma civil_decompose:
  assumes "0 \<le> e" and y: "0 \<le> y" "y \<le> 399" and doy: "0 \<le> doy" "doy < year_len y"
  shows "civil_from_days (e * 146097 + year_start y + doy - 719468) =
    (case date_of (y + e * 400) doy of (yy, m, d) \<Rightarrow> (yy, of_int m, of_int d))"
proof -
  let ?doe = "year_start y + doy"
  have b: "yoe_of (year_start y) = y" "yoe_of (year_start y + year_len y - 1) = y"
    using list_all_upto [OF yoe_bounds y] by simp_all
  have ys: "0 \<le> year_start y" using y by (simp add: year_start_def)
  have "year_start y + year_len y \<le> 146097"
  proof (cases "y = 399")
    case True
    then show ?thesis by (simp add: year_start_def year_len_def split: if_splits)
  next
    case False
    then have "y + 1 \<le> 399" using y by simp
    then show ?thesis using list_all_upto [OF year_start_Suc, of y] y by (simp add: year_start_def)
  qed
  then have doe: "0 \<le> ?doe" "?doe \<le> 146096" using ys doy by linarith+
  have yoe: "yoe_of ?doe = y"
    using yoe_mono [of "year_start y" ?doe] yoe_mono [of ?doe "year_start y + year_len y - 1"] b ys doe doy
      \<open>year_start y + year_len y \<le> 146097\<close> by linarith
  define doe where "doe = ?doe"
  have z: "0 \<le> e * 146097 + doe" "(e * 146097 + doe) div 146097 = e" using assms(1) doe by (simp_all add: doe_def)
  have z': "e * 146097 + year_start y + doy - 719468 + 719468 = e * 146097 + doe" by (simp add: doe_def)
  have pos: "0 \<le> doe - doe div 1460 + doe div 36524 - doe div 146096" using doe unfolding doe_def by linarith
  have yoe': "rust_div (doe - rust_div doe 1460 + rust_div doe 36524 - rust_div doe 146096) 365 = y"
    using pos yoe doe by (simp add: yoe_of_def doe_def)
  have doy': "doe - (365 * y + rust_div y 4 - rust_div y 100) = doy" using y by (simp add: year_start_def doe_def)
  define mp where "mp = (5 * doy + 2) div 153"
  have mp: "rust_div (5 * doy + 2) 153 = mp" "rust_div (153 * mp + 2) 5 = (153 * mp + 2) div 5"
    using doy by (simp_all add: mp_def)
  have r: "doy \<le> 365" using doy by (simp add: year_len_def split: if_splits)
  have rng: "1 \<le> month_of doy" "month_of doy \<le> 12" using list_all_upto [OF month_range doy(1) r] by simp_all
  have cmp: "(of_int (month_of doy) :: u32) \<le> 2 \<longleftrightarrow> month_of doy \<le> 2"
    using rng by (simp add: word_le_def uint_word_of_int_eq take_bit_int_eq_self)
  have era: "rust_div (e * 146097 + doe) 146097 = e" "e * 146097 + doe - e * 146097 = doe" using z by simp_all
  have m: "month_of doy = (if mp < 10 then mp + 3 else mp - 9)" "day_of doy = doy - (153 * mp + 2) div 5 + 1"
    by (simp_all add: month_of_def day_of_def mp_def Let_def)
  have "civil_from_days (e * 146097 + year_start y + doy - 719468) =
      (if (of_int (month_of doy) :: u32) \<le> 2 then y + e * 400 + 1 else y + e * 400,
       of_int (month_of doy), of_int (day_of doy))"
    unfolding civil_from_days_def z' Let_def m if_P [OF z(1)] era yoe' doy' mp by (rule refl)
  then show ?thesis using cmp by (simp only: date_of_def prod.case)
qed

lemma calendar_position:
  "\<exists>e y doy. 0 \<le> e \<and> 0 \<le> y \<and> y \<le> 399 \<and> 0 \<le> doy \<and> doy < year_len y \<and>
     int n + 719468 = e * 146097 + year_start y + doy \<and>
     (next_day ^^ n) (1970, 1, 1) = date_of (y + e * 400) doy"
proof (induction n)
  case 0
  have "719468 = 4 * 146097 + year_start 369 + 306" "306 < year_len 369" "date_of (369 + 4 * 400) 306 = (1970, 1, 1)"
    by code_simp+
  then show ?case by (intro exI [of _ 4] exI [of _ 369] exI [of _ 306]) simp
next
  case (Suc n)
  then obtain e y doy where IH: "0 \<le> e" "0 \<le> y" "y \<le> 399" "0 \<le> doy" "doy < year_len y"
    "int n + 719468 = e * 146097 + year_start y + doy" "(next_day ^^ n) (1970, 1, 1) = date_of (y + e * 400) doy"
    by blast
  have len: "year_len (y + e * 400) = year_len y" using leap_era [of "y + 1" e] by (simp add: year_len_def ac_simps)
  have nd: "(next_day ^^ Suc n) (1970, 1, 1) = next_day (date_of (y + e * 400) doy)" using IH(7) by simp
  consider "doy + 1 < year_len y" | "doy + 1 = year_len y" "y < 399" | "doy + 1 = year_len y" "y = 399"
    using IH(3,5) by linarith
  then show ?case
  proof cases
    case 1
    then have "next_day (date_of (y + e * 400) doy) = date_of (y + e * 400) (doy + 1)"
      using IH(4) len by (intro next_day_within) simp_all
    with 1 IH nd show ?thesis by (intro exI [of _ e] exI [of _ y] exI [of _ "doy + 1"]) simp
  next
    case 2
    then have "next_day (date_of (y + e * 400) doy) = date_of (y + 1 + e * 400) 0"
      using next_day_year_end [of doy "y + e * 400"] len by (simp add: algebra_simps)
    moreover have "year_start (y + 1) = year_start y + year_len y"
      using list_all_upto [OF year_start_Suc IH(2)] 2(2) by simp
    moreover have "0 < year_len (y + 1)" by (simp add: year_len_def)
    ultimately show ?thesis using 2 IH nd by (intro exI [of _ e] exI [of _ "y + 1"] exI [of _ 0]) simp
  next
    case 3
    then have "next_day (date_of (y + e * 400) doy) = date_of (0 + (e + 1) * 400) 0"
      using next_day_year_end [of doy "y + e * 400"] len by (simp add: algebra_simps)
    moreover have "year_start 399 + year_len 399 = 146097" "0 < year_len 0" "year_start 0 = 0" by code_simp+
    ultimately show ?thesis using 3 IH nd by (intro exI [of _ "e + 1"] exI [of _ 0] exI [of _ 0]) simp
  qed
qed

text \<open>
  C30: the closed formula of \<open>civil_from_days\<close> agrees with the Gregorian calendar on every day from
  1970-01-01 on: its value for day \<open>n\<close> is what counting \<open>n\<close> days forward gives, with months of the
  right length and the leap years of the 4/100/400 rule.
\<close>

theorem civil_from_days_calendar:
  "civil_from_days (int n) = (case (next_day ^^ n) (1970, 1, 1) of (y, m, d) \<Rightarrow> (y, of_int m, of_int d))"
proof -
  from calendar_position [of n] obtain e y doy where p: "0 \<le> e" "0 \<le> y" "y \<le> 399" "0 \<le> doy" "doy < year_len y"
    "int n + 719468 = e * 146097 + year_start y + doy" "(next_day ^^ n) (1970, 1, 1) = date_of (y + e * 400) doy"
    by blast
  then have "int n = e * 146097 + year_start y + doy - 719468" by simp
  then show ?thesis using civil_decompose [OF p(1-5)] p(7) by simp
qed

section \<open>Kernel cpu lists\<close>

datatype cpu_item = Core u32 | Cores u32 u32

fun show_item :: "cpu_item \<Rightarrow> string" where
  "show_item (Core c) = show_word c"
| "show_item (Cores a b) = show_word a @ ''-'' @ show_word b"

fun expand_item :: "cpu_item \<Rightarrow> u32 list" where
  "expand_item (Core c) = [c]"
| "expand_item (Cores a b) = u32_range a b"

lemma parse_show_u32: "parse_u32 (show_word c) = Some (c :: u32)"
  using unat_u32_bound [of c] by (simp add: parse_u32_def parse_show_nat)

lemma show_nat_free: "\<not> is_digit c \<Longrightarrow> c \<notin> set (show_nat n)"
  using show_nat_digits [of n] by (auto simp: list_all_iff)

lemma not_digits: "\<not> is_digit CHR ''-''" "\<not> is_digit CHR '',''"
  by (simp_all add: is_digit_def)

lemma cpu_part_show: "cpu_part (show_item it) = expand_item it"
proof (cases it)
  case (Core c)
  then show ?thesis
    using show_nat_free [OF not_digits(1), of "unat c"] by (simp add: cpu_part_def split_once_def parse_show_u32)
next
  case (Cores a b)
  have "split_once CHR ''-'' (show_word a @ CHR ''-'' # show_word b) = Some (show_word a, show_word b)"
    using show_nat_free [OF not_digits(1), of "unat a"] by (rule split_once_append)
  then show ?thesis using Cores by (simp add: cpu_part_def parse_show_u32)
qed

lemma show_item_trim: "trim (show_item it) = show_item it \<and> show_item it \<noteq> [] \<and> CHR '','' \<notin> set (show_item it)"
proof -
  have d: "show_nat n \<noteq> []" "\<not> is_ws (hd (show_nat n))" "\<not> is_ws (last (show_nat n))" "CHR '','' \<notin> set (show_nat n)" for n
    using show_nat_digits [of n] show_nat_free [OF not_digits(2), of n] digit_not(4)
    by (cases "show_nat n"; auto simp: list_all_iff)+
  then show ?thesis by (cases it) (auto simp: trim_id)
qed

text \<open>
  Parsing a kernel cpu list inverts printing it. For any list of single cores and ranges,
  printed as the kernel prints them, \<open>parse_cpu_list\<close> returns exactly the cores named, in order;
  an empty list included.
\<close>

theorem cpu_list_round_trip:
  "parse_cpu_list (join '','' (map show_item its)) = concat (map expand_item its)"
proof (cases "its = []")
  case True
  then show ?thesis by (simp add: parse_cpu_list_def trim_def)
next
  case False
  then have "split_on CHR '','' (join '','' (map show_item its)) = map show_item its"
    using show_item_trim by (intro split_on_join) auto
  moreover have "filter (\<lambda>p. p \<noteq> []) (map trim (map show_item its)) = map show_item its"
    using show_item_trim by (induction its) auto
  ultimately show ?thesis by (simp add: parse_cpu_list_def cpu_part_show o_def)
qed

section \<open>Warnings\<close>

lemma push_empty:
  "governor_push g = [] \<longleftrightarrow> g = ''performance'' \<or> g = ''unknown''"
  "clock_push c mn mx = [] \<longleftrightarrow> mn = None \<or> mx = None \<or> mn = mx"
  "smt_push c sibs = [] \<longleftrightarrow> sibs = []"
  unfolding governor_push_def clock_push_def smt_push_def by (simp_all split: option.split)

lemma detect_bench_core:
  assumes "re_bench_core (RunEnv_detect h f) = Some core"
  shows "re_pinned (RunEnv_detect h f) \<and>
    RunEnv_warnings (RunEnv_detect h f) = CorePrep_warnings (CorePrep_detect h core)"
proof -
  from assms have s: "is_single_core (read_affinity h)" "parse_u32 (read_affinity h) = Some core"
    by (simp_all add: RunEnv_detect_def Let_def split: if_splits option.splits)
  then show ?thesis
    unfolding RunEnv_warnings_def CorePrep_warnings_def RunEnv_detect_def
    by (simp add: Let_def unwrap_or_def CorePrep_detect_def)
qed

text \<open>
  What a clean run is. The warnings of a detected environment are empty exactly when the process
  is pinned to a core and that core's governor, clock limits and siblings are in order; and for a
  pinned process they are precisely the warnings an orchestrator gets for that core beforehand.
\<close>

theorem clean_run_conditions:
  "(RunEnv_warnings e = [] \<longleftrightarrow>
      re_pinned e \<and> re_governor e \<in> {''performance'', ''unknown''} \<and> re_smt_siblings_online e = [] \<and>
      (re_clock_min_khz e = None \<or> re_clock_max_khz e = None \<or> re_clock_min_khz e = re_clock_max_khz e)) \<and>
   (case re_bench_core (RunEnv_detect h f) of
      None \<Rightarrow> True
    | Some core \<Rightarrow> re_pinned (RunEnv_detect h f) \<and>
        RunEnv_warnings (RunEnv_detect h f) = CorePrep_warnings (CorePrep_detect h core))"
proof (intro conjI)
  show "RunEnv_warnings e = [] \<longleftrightarrow>
      re_pinned e \<and> re_governor e \<in> {''performance'', ''unknown''} \<and> re_smt_siblings_online e = [] \<and>
      (re_clock_min_khz e = None \<or> re_clock_max_khz e = None \<or> re_clock_min_khz e = re_clock_max_khz e)"
    unfolding RunEnv_warnings_def by (auto simp: push_empty Let_def)
qed (simp add: detect_bench_core split: option.split)

end
