(* ===== verification/Open_Loop_Log.thy ===== *)
theory Open_Loop_Log
  imports Bench_Runner_Props
begin

text \<open>
  The open loop of \<open>runner.rs\<close> observed from outside: a platform that writes down every reading of
  the time-stamp counter, every \<open>getrusage\<close> and every call of the two closures. The log decides
  which operations missed their deadline, so the overload flag can be compared with what happened.
\<close>

section \<open>A logging platform\<close>

datatype paced_event = PePrepare usize | PeRead u64 | PeRusage | PeOp

definition paced :: "('w, 'h) platform \<Rightarrow> ('w \<times> paced_event list, 'h) platform" where
  "paced pf =
     \<lparr>pf_rdtscp = (\<lambda>(w, l). let ((t, aux), w') = pf_rdtscp pf w in ((t, aux), (w', l @ [PeRead t]))),
      pf_getrusage = (\<lambda>(w, l). let (r, w') = pf_getrusage pf w in (r, (w', l @ [PeRusage]))),
      pf_heap_stats = (\<lambda>(w, l). pf_heap_stats pf w),
      hdr_new = hdr_new pf, hdr_record = hdr_record pf, hdr_record_correct = hdr_record_correct pf,
      hdr_add = hdr_add pf, hdr_len = hdr_len pf, hdr_min = hdr_min pf, hdr_max = hdr_max pf,
      hdr_value_at_percentile = hdr_value_at_percentile pf, hdr_mean = hdr_mean pf,
      hdr_iter_quantiles = hdr_iter_quantiles pf\<rparr>"

definition paced_prepare ::
    "('s \<Rightarrow> usize \<Rightarrow> 'w \<Rightarrow> 'i \<times> 's \<times> 'w) \<Rightarrow> 's \<Rightarrow> usize \<Rightarrow> 'w \<times> paced_event list \<Rightarrow>
     'i \<times> 's \<times> 'w \<times> paced_event list" where
  "paced_prepare prepare s i = (\<lambda>(w, l). let (x, s, w) = prepare s i w in (x, s, (w, l @ [PePrepare i])))"

definition paced_op ::
    "('s \<Rightarrow> 'i \<Rightarrow> 'w \<Rightarrow> 's \<times> 'w) \<Rightarrow> 's \<Rightarrow> 'i \<Rightarrow> 'w \<times> paced_event list \<Rightarrow> 's \<times> 'w \<times> paced_event list" where
  "paced_op op s x = (\<lambda>(w, l). let (s, w) = op s x w in (s, (w, l @ [PeOp])))"

text \<open>What is read for one operation: the counter when its turn comes, while spinning, and before and
  after the operation.\<close>

record op_log =
  ol_now :: u64
  ol_spins :: "u64 list"
  ol_t0 :: u64
  ol_t1 :: u64

definition op_events :: "usize \<Rightarrow> op_log \<Rightarrow> paced_event list" where
  "op_events i r = [PePrepare i, PeRead (ol_now r)] @ map PeRead (ol_spins r) @ [PeRead (ol_t0 r), PeOp, PeRead (ol_t1 r)]"

text \<open>The operation waited for its deadline: not at all when it was late, and otherwise just until the
  counter passed it.\<close>

definition waits_for :: "u64 \<Rightarrow> op_log \<Rightarrow> bool" where
  "waits_for deadline r \<longleftrightarrow>
     (if deadline \<le> ol_now r then ol_spins r = []
      else ol_spins r \<noteq> [] \<and> (\<forall>t \<in> set (butlast (ol_spins r)). t < deadline) \<and> deadline \<le> last (ol_spins r))"

definition op_nanos :: "f64 \<Rightarrow> op_log \<Rightarrow> u64" where
  "op_nanos tpn r = to_nanos tpn (ticks_since (ol_t1 r) (ol_t0 r))"

text \<open>When the operation with index \<open>k\<close> is due.\<close>

definition op_deadline :: "u64 \<Rightarrow> u64 \<Rightarrow> usize \<Rightarrow> u64" where
  "op_deadline start interval_ticks k = start + saturating_mul k interval_ticks"

text \<open>The number of operations whose turn came at or after the deadline that \<open>dl\<close> gives them.\<close>

definition late_count :: "(usize \<Rightarrow> u64) \<Rightarrow> usize list \<Rightarrow> op_log list \<Rightarrow> nat" where
  "late_count dl ks rs = length (filter (\<lambda>(k, r). dl k \<le> ol_now r) (zip ks rs))"

lemma late_count_simps [simp]:
  "late_count dl [] rs = 0"
  "late_count dl (k # ks) (r # rs) = (if dl k \<le> ol_now r then 1 else 0) + late_count dl ks rs"
  by (simp_all add: late_count_def)

lemma late_count_le: "late_count dl ks rs \<le> length ks"
  unfolding late_count_def by (rule order_trans [OF length_filter_le]) simp

lemma Histogram_paced [simp]:
  "Histogram_record_correct (paced pf) = Histogram_record_correct pf" "Histogram_new (paced pf) = Histogram_new pf"
  by (simp_all add: fun_eq_iff Histogram_record_correct_def Histogram_new_def paced_def)

lemma rdtscp_paced [simp]: "rdtscp (paced pf) (w, l) = (let (t, w') = rdtscp pf w in (t, (w', l @ [PeRead t])))"
  by (simp add: rdtscp_def paced_def split: prod.split)

lemma read_rusage_paced [simp]:
  "read_rusage_thread p (paced pf) (w, l) =
     map_res (\<lambda>(st, w'). (st, (w', l @ [PeRusage]))) (read_rusage_thread p pf w)"
  by (cases "pf_getrusage pf w"; cases "debug_assert p (fst (pf_getrusage pf w) \<noteq> None) ''getrusage(RUSAGE_THREAD) failed''")
    (simp_all add: read_rusage_thread_def paced_def Let_def)

section \<open>The loop and its log\<close>

text \<open>A spin that ends reads the counter until it passes the deadline, and not once more.\<close>

lemma spin_until_log:
  assumes "clock_advances pf"
  obtains w' ts where "spin_until pf d w = Some w'" and "spin_until (paced pf) d (w, l) = Some (w', l @ map PeRead ts)"
    and "ts \<noteq> []" and "\<forall>t \<in> set (butlast ts). t < d" and "d \<le> last ts"
proof -
  obtain n where "d \<le> fst (rdtscp pf (((\<lambda>w. snd (rdtscp pf w)) ^^ n) w))"
    using assms unfolding clock_advances_def by blast
  then have "\<exists>w' ts. spin_until pf d w = Some w' \<and> spin_until (paced pf) d (w, l) = Some (w', l @ map PeRead ts) \<and>
      ts \<noteq> [] \<and> (\<forall>t \<in> set (butlast ts). t < d) \<and> d \<le> last ts"
  proof (induction n arbitrary: w l)
    case 0
    obtain t w1 where t: "rdtscp pf w = (t, w1)" by (cases "rdtscp pf w")
    with 0 show ?case
      by (intro exI [of _ w1] exI [of _ "[t]"], subst (1 2) spin_until.simps) (auto simp: not_less dest: leD)
  next
    case (Suc n)
    obtain t w1 where t: "rdtscp pf w = (t, w1)" by (cases "rdtscp pf w")
    show ?case
    proof (cases "t < d")
      case False
      with t show ?thesis
        by (intro exI [of _ w1] exI [of _ "[t]"], subst (1 2) spin_until.simps) (auto simp: not_less dest: leD)
    next
      case True
      have "d \<le> fst (rdtscp pf (((\<lambda>w. snd (rdtscp pf w)) ^^ n) w1))"
        using Suc.prems t by (simp only: funpow_Suc_right comp_apply) simp
      from Suc.IH [OF this, of "l @ [PeRead t]"] obtain w' ts where r: "spin_until pf d w1 = Some w'"
        "spin_until (paced pf) d (w1, l @ [PeRead t]) = Some (w', (l @ [PeRead t]) @ map PeRead ts)"
        "ts \<noteq> []" "\<forall>t \<in> set (butlast ts). t < d" "d \<le> last ts" by blast
      with t True show ?thesis
        by (intro exI [of _ w'] exI [of _ "t # ts"], subst (1 2) spin_until.simps) simp
    qed
  qed
  with that show thesis by blast
qed

text \<open>Waiting for a deadline, run twice: with and without the log.\<close>

lemma await_deadline_log:
  assumes "clock_advances pf"
  obtains w' now ts where
      "await_deadline Release pf d late w = Some (Inr (late + (if d \<le> now then 1 else 0), w'))"
    and "await_deadline Release (paced pf) d late (w, l) =
      Some (Inr (late + (if d \<le> now then 1 else 0), (w', l @ PeRead now # map PeRead ts)))"
    and "\<And>t0 t1. waits_for d \<lparr>ol_now = now, ol_spins = ts, ol_t0 = t0, ol_t1 = t1\<rparr>"
proof -
  obtain now w1 where now: "rdtscp pf w = (now, w1)" by (cases "rdtscp pf w")
  show thesis
  proof (cases "now < d")
    case True
    from spin_until_log [OF assms, of d w1 "l @ [PeRead now]"] obtain w' ts where "spin_until pf d w1 = Some w'"
      "spin_until (paced pf) d (w1, l @ [PeRead now]) = Some (w', (l @ [PeRead now]) @ map PeRead ts)"
      "ts \<noteq> []" "\<forall>t \<in> set (butlast ts). t < d" "d \<le> last ts" .
    with True now show thesis by (intro that [of now w' ts]) (simp_all add: await_deadline_def waits_for_def)
  next
    case False
    with now show thesis by (intro that [of now w1 "[]"]) (simp_all add: await_deadline_def waits_for_def not_less)
  qed
qed

lemma open_loop_iter_log:
  assumes "hdr_accepts pf" and "clock_advances pf"
  shows "\<exists>h' s' w' r. let late' = late + (if op_deadline start it' k \<le> ol_now r then 1 else 0) in
      open_loop_iter Release pf tpn it iv it' start prepare op k (h, late, s, w) = Some (Inr (h', late', s', w')) \<and>
      open_loop_iter Release (paced pf) tpn it iv it' start (paced_prepare prepare) (paced_op op) k (h, late, s, (w, l)) =
        Some (Inr (h', late', s', (w', l @ op_events (warmup it + k) r))) \<and>
      waits_for (op_deadline start it' k) r \<and> Histogram_record_correct pf (op_nanos tpn r) iv h = Inr h'"
proof -
  obtain x s1 w1 where pr: "prepare s (warmup it + k) w = (x, s1, w1)" by (cases "prepare s (warmup it + k) w")
  obtain w3 now ts where
    aw: "await_deadline Release pf (op_deadline start it' k) late w1 = Some (Inr (late + (if op_deadline start it' k \<le> now then 1 else 0), w3))"
      "await_deadline Release (paced pf) (op_deadline start it' k) late (w1, l @ [PePrepare (warmup it + k)]) =
        Some (Inr (late + (if op_deadline start it' k \<le> now then 1 else 0), (w3, (l @ [PePrepare (warmup it + k)]) @ PeRead now # map PeRead ts)))"
    and waits: "\<And>t0 t1. waits_for (op_deadline start it' k) \<lparr>ol_now = now, ol_spins = ts, ol_t0 = t0, ol_t1 = t1\<rparr>"
    by (rule await_deadline_log [OF assms(2)]) blast
  obtain t0 w4 where t0: "rdtscp pf w3 = (t0, w4)" by (cases "rdtscp pf w3")
  obtain s5 w5 where op: "op s1 x w4 = (s5, w5)" by (cases "op s1 x w4")
  obtain t1 w6 where t1: "rdtscp pf w5 = (t1, w6)" by (cases "rdtscp pf w5")
  let ?r = "\<lparr>ol_now = now, ol_spins = ts, ol_t0 = t0, ol_t1 = t1\<rparr>"
  obtain j where "hdr_record_correct pf (op_nanos tpn ?r) iv (inner h) = Some j"
    using assms(1) unfolding hdr_accepts_def by blast
  then have rec: "Histogram_record_correct pf (op_nanos tpn ?r) iv h = Inr (h\<lparr>inner := j\<rparr>)"
    by (simp add: Histogram_record_correct_def)
  show ?thesis
    using waits rec
    by (intro exI [of _ "h\<lparr>inner := j\<rparr>"] exI [of _ s5] exI [of _ w6] exI [of _ ?r])
      (simp add: open_loop_iter_def paced_prepare_def paced_op_def pr op_deadline_def [symmetric] aw rdtscp_then_lfence_def
        t0 op t1 op_nanos_def op_events_def split del: if_split)
qed

lemma fold_open_loop_log:
  assumes "hdr_accepts pf" and "clock_advances pf"
  shows "\<exists>h' s' w' rs. let late' = late + of_nat (late_count (op_deadline start it') ks rs) in
      fold_ores (open_loop_iter Release pf tpn it iv it' start prepare op) ks (h, late, s, w)
        = Some (Inr (h', late', s', w')) \<and>
      fold_ores (open_loop_iter Release (paced pf) tpn it iv it' start (paced_prepare prepare) (paced_op op)) ks
          (h, late, s, (w, l)) =
        Some (Inr (h', late', s', (w', l @ concat (map2 (\<lambda>k. op_events (warmup it + k)) ks rs)))) \<and>
      list_all2 (\<lambda>k. waits_for (op_deadline start it' k)) ks rs \<and>
      fold_res (\<lambda>v. Histogram_record_correct pf v iv) (map (op_nanos tpn) rs) h = Inr h'"
proof (induction ks arbitrary: h late s w l)
  case Nil
  show ?case by (intro exI [of _ h] exI [of _ s] exI [of _ w] exI [of _ "[]"]) simp
next
  case (Cons k ks)
  obtain h1 s1 w1 r where 1: "let late' = late + (if op_deadline start it' k \<le> ol_now r then 1 else 0) in
      open_loop_iter Release pf tpn it iv it' start prepare op k (h, late, s, w) = Some (Inr (h1, late', s1, w1)) \<and>
      open_loop_iter Release (paced pf) tpn it iv it' start (paced_prepare prepare) (paced_op op) k (h, late, s, (w, l)) =
        Some (Inr (h1, late', s1, (w1, l @ op_events (warmup it + k) r))) \<and>
      waits_for (op_deadline start it' k) r \<and> Histogram_record_correct pf (op_nanos tpn r) iv h = Inr h1"
    using open_loop_iter_log [OF assms(1,2), of late start it' k tpn it iv prepare op h s w l] by blast
  let ?late = "late + (if op_deadline start it' k \<le> ol_now r then 1 else 0)"
  obtain h2 s2 w2 rs where 2: "let late' = ?late + of_nat (late_count (op_deadline start it') ks rs) in
      fold_ores (open_loop_iter Release pf tpn it iv it' start prepare op) ks (h1, ?late, s1, w1)
        = Some (Inr (h2, late', s2, w2)) \<and>
      fold_ores (open_loop_iter Release (paced pf) tpn it iv it' start (paced_prepare prepare) (paced_op op)) ks
          (h1, ?late, s1, (w1, l @ op_events (warmup it + k) r)) =
        Some (Inr (h2, late', s2, (w2, (l @ op_events (warmup it + k) r) @ concat (map2 (\<lambda>k. op_events (warmup it + k)) ks rs)))) \<and>
      list_all2 (\<lambda>k. waits_for (op_deadline start it' k)) ks rs \<and>
      fold_res (\<lambda>v. Histogram_record_correct pf v iv) (map (op_nanos tpn) rs) h1 = Inr h2"
    using Cons.IH [of ?late h1 s1 w1 "l @ op_events (warmup it + k) r"] by blast
  show ?case
    using 1 2 by (intro exI [of _ h2] exI [of _ s2] exI [of _ w2] exI [of _ "r # rs"]) (simp add: Let_def add.assoc)
qed

lemma warm_up_log:
  "warm_up (paced_prepare prepare) (paced_op op) n (s, (w, l)) =
     (case warm_up prepare op n (s, w) of (s', w') \<Rightarrow>
       (s', (w', l @ concat (map (\<lambda>i. [PePrepare i, PeOp]) (usize_upto n)))))"
proof -
  have "fold (\<lambda>i (s, w). let (input, s, w) = paced_prepare prepare s i w in paced_op op s input w) is (s, (w, l)) =
     (case fold (\<lambda>i (s, w). let (input, s, w) = prepare s i w in op s input w) is (s, w) of (s', w') \<Rightarrow>
       (s', (w', l @ concat (map (\<lambda>i. [PePrepare i, PeOp]) is))))" for "is"
    by (induction "is" arbitrary: s w l) (auto simp: paced_prepare_def paced_op_def split: prod.split)
  then show ?thesis by (simp add: warm_up_def)
qed

section \<open>The property\<close>

text \<open>C28: In a release build, on a counter that passes every deadline, \<open>Runner::bench_open_loop\<close>
  returns, and its log shows what it did: the warm-up calls, one counter reading that starts the
  schedule, and then for each of the \<open>measure\<close> operations the preparation, a reading that decides
  whether it is late, the readings of the spin (none when it is late, otherwise up to the first at or
  after the deadline \<open>start + k * interval\<close>), and the operation between its two time stamps. The
  histogram holds the differences of those stamps, recorded in order with the correction for the
  requested interval, the sample carries the open-loop model, and (while a hundred times
  \<open>measure\<close> fits in 64 bits) it is flagged as overloaded exactly when at least 5 percent of the
  operations were late. The log does not change the run.\<close>

theorem open_loop_returns:
  assumes "hdr_new pf = Some h0" and "hdr_accepts pf" and "clock_advances pf"
    and "unat (measure it) * 100 < 2 ^ 64"
  shows "\<exists>sample s' w' start rs.
    (let ks = usize_upto (measure it);
         dl = op_deadline start (f64_to_u64 (f64_mul (f64_of_u64 iv) tpn));
         evs = concat (map (\<lambda>i. [PePrepare i, PeOp]) (usize_upto (warmup it))) @ [PeRusage, PeRead start] @
           concat (map2 (\<lambda>k. op_events (warmup it + k)) ks rs) @ [PeRusage]
     in bench_open_loop Release pf tpn l it iv s prepare op w = Some (Inr (sample, s', w'))
      \<and> bench_open_loop Release (paced pf) tpn l it iv s (paced_prepare prepare) (paced_op op) (w, [])
          = Some (Inr (sample, s', (w', evs)))
      \<and> list_all2 (\<lambda>k. waits_for (dl k)) ks rs
      \<and> fold_res (\<lambda>v. Histogram_record_correct pf v iv) (map (op_nanos tpn) rs) \<lparr>inner = h0, label = l\<rparr>
          = Inr (hist sample)
      \<and> arrival_model sample = OpenLoop iv
      \<and> (sample_overloaded sample \<longleftrightarrow> 5 * unat (measure it) \<le> 100 * late_count dl ks rs))"
proof -
  have ru: "\<exists>st w'. read_rusage_thread Release pf w = Inr (st, w')" for w
    by (rule read_rusage_ok) (simp add: rusage_ok_def)
  obtain s1 w1 where wu: "warm_up prepare op (warmup it) (s, w) = (s1, w1)" by (cases "warm_up prepare op (warmup it) (s, w)")
  obtain b w2 where r1: "read_rusage_thread Release pf w1 = Inr (b, w2)" using ru by blast
  obtain start w3 where t: "rdtscp pf w2 = (start, w3)" by (cases "rdtscp pf w2")
  let ?ticks = "f64_to_u64 (f64_mul (f64_of_u64 iv) tpn)" and ?ks = "usize_upto (measure it)"
  let ?pre = "concat (map (\<lambda>i. [PePrepare i, PeOp]) (usize_upto (warmup it))) @ [PeRusage, PeRead start]"
  from fold_open_loop_log [OF assms(2,3), of 0 start ?ticks ?ks tpn it iv prepare op "\<lparr>inner = h0, label = l\<rparr>" s1 w3 ?pre]
  obtain h s4 w4 rs where f: "let late = 0 + of_nat (late_count (op_deadline start ?ticks) ?ks rs) in
      fold_ores (open_loop_iter Release pf tpn it iv ?ticks start prepare op) ?ks (\<lparr>inner = h0, label = l\<rparr>, 0, s1, w3)
        = Some (Inr (h, late, s4, w4)) \<and>
      fold_ores (open_loop_iter Release (paced pf) tpn it iv ?ticks start (paced_prepare prepare) (paced_op op)) ?ks
          (\<lparr>inner = h0, label = l\<rparr>, 0, s1, (w3, ?pre)) =
        Some (Inr (h, late, s4, (w4, ?pre @ concat (map2 (\<lambda>k. op_events (warmup it + k)) ?ks rs)))) \<and>
      list_all2 (\<lambda>k. waits_for (op_deadline start ?ticks k)) ?ks rs \<and>
      fold_res (\<lambda>v. Histogram_record_correct pf v iv) (map (op_nanos tpn) rs) \<lparr>inner = h0, label = l\<rparr> = Inr h" by blast
  note f = f [unfolded Let_def add_0_left]
  note f1 = f [THEN conjunct1] and f2 = f [THEN conjunct2, THEN conjunct1] and f3 = f [THEN conjunct2, THEN conjunct2]
  obtain a w5 where r2: "read_rusage_thread Release pf w4 = Inr (a, w5)" using ru by blast
  let ?n = "late_count (op_deadline start ?ticks) ?ks rs"
  have n: "?n \<le> unat (measure it)" using late_count_le [of _ ?ks rs] by (simp add: usize_upto_def)
  then have late: "unat (of_nat ?n :: u64) = ?n"
    using unat_u64_bound [of "measure it"] by (intro unat_of_nat_small) simp
  have ovl: "measure it * 5 \<le> of_nat ?n * 100 \<longleftrightarrow> 5 * unat (measure it) \<le> 100 * ?n"
    using overload_rule [OF _ assms(4), of "of_nat ?n"] n late by simp
  let ?sample = "\<lparr>hist = h, arrival_model = OpenLoop iv, stats = delta_from a b,
      sample_overloaded = (measure it * 5 \<le> of_nat ?n * 100)\<rparr>"
  note loop = bench_open_loop_def Histogram_new_def wu r1 rdtscp_then_lfence_def t r2 is_overloaded_def
    times_u_def OVERLOAD_PCT_def warm_up_log
  have "bench_open_loop Release pf tpn l it iv s prepare op w = Some (Inr (?sample, s4, w5))"
    using assms(1) by (simp add: loop f1)
  moreover have "bench_open_loop Release (paced pf) tpn l it iv s (paced_prepare prepare) (paced_op op) (w, []) =
      Some (Inr (?sample, s4, (w5, (?pre @ concat (map2 (\<lambda>k. op_events (warmup it + k)) ?ks rs)) @ [PeRusage])))"
    using assms(1) f2 by (simp add: loop)
  ultimately show ?thesis
    using f3 ovl by (intro exI [of _ ?sample] exI [of _ s4] exI [of _ w5] exI [of _ start] exI [of _ rs]) (simp add: Let_def)
qed

theorem open_loop_returns_witness:
  "\<exists>sample s' w' start rs. bench_open_loop Release (paced list_platform) (Fin 1) ''ol'' (Iters_new 1 2) 10 (0 :: nat)
        (paced_prepare (\<lambda>s i w. (i, s, w))) (paced_op (\<lambda>s i w. (Suc s, w + 2))) (0, []) =
      Some (Inr (sample, s', (w', [PePrepare 0, PeOp, PeRusage, PeRead start] @
        concat (map2 (\<lambda>k. op_events (1 + k)) [0, 1] rs) @ [PeRusage]))) \<and>
     length rs = 2 \<and> (sample_overloaded sample \<longleftrightarrow> 10 \<le> 100 * late_count (op_deadline start 10) [0, 1] rs)"
proof -
  have "f64_of_u64 10 = Fin 10" by (subst f64_of_u64_exact) simp_all
  then have ticks: "f64_to_u64 (f64_mul (f64_of_u64 10) (Fin 1)) = 10" using f64_round_of_int [of 10] by simp
  have ks: "usize_upto 2 = [0, 1]" "usize_upto 1 = [0]" by (simp_all add: usize_upto_def upt_rec)
  have it: "measure (Iters_new 1 2) = 2" "warmup (Iters_new 1 2) = 1" by (simp_all add: Iters_new_def)
  have small: "unat (measure (Iters_new 1 2)) * 100 < 2 ^ 64" by (simp add: it)
  have five: "5 * unat (2 :: u64) = 10" by simp
  obtain sample s' w' start rs where
      "bench_open_loop Release (paced list_platform) (Fin 1) ''ol'' (Iters_new 1 2) 10 (0 :: nat)
          (paced_prepare (\<lambda>s i w. (i, s, w))) (paced_op (\<lambda>s i w. (Suc s, w + 2))) (0, []) =
        Some (Inr (sample, s', (w', concat (map (\<lambda>i. [PePrepare i, PeOp]) [0]) @ [PeRusage, PeRead start] @
          concat (map2 (\<lambda>k. op_events (1 + k)) [0, 1] rs) @ [PeRusage])))"
      and rs: "list_all2 (\<lambda>k. waits_for (op_deadline start 10 k)) [0, 1] rs"
      and "sample_overloaded sample \<longleftrightarrow> 10 \<le> 100 * late_count (op_deadline start 10) [0, 1] rs"
    using open_loop_returns [where iv = 10 and tpn = "Fin 1" and l = "''ol''" and s = "0 :: nat" and w = 0 and
        prepare = "\<lambda>s i w. (i, s, w)" and op = "\<lambda>s i w. (Suc s, w + 2)",
        OF list_platform_ok(1,2) list_platform_clock(1) small, unfolded ticks Let_def it ks five] by blast
  moreover have "length rs = 2" using list_all2_lengthD [OF rs] by simp
  ultimately show ?thesis by fastforce
qed

end
