(* ===== verification/Bench_Report.thy ===== *)
theory Bench_Report
  imports Bench_Env Bench_Runner "HOL-Library.Char_ord" "HOL-Library.List_Lexorder"
begin

text \<open>
  \<open>crates/benchkit/src/report.rs\<close> and \<open>suite.rs\<close>, with the rendering half of telemetry's
  \<open>histogram.rs\<close>: the report and its exports, the comparison of two runs, the declarative suite.

  The file system is an abstract state with one function that performs an operation and says whether
  it succeeded. A label is ASCII text (\<open>sanitize\<close> asks for alphanumeric characters). A \<open>HashMap\<close>'s
  iteration order is that of the association list; the sort of \<open>from_strings\<close> is stable, so only the
  order of rows with equal labels depends on it.
\<close>

section \<open>histogram.rs: rendering\<close>

abbreviation Histogram_len :: "('w, 'h) platform \<Rightarrow> 'h Histogram \<Rightarrow> u64" where
  "Histogram_len pf h \<equiv> hdr_len pf (inner h)"

definition Histogram_p50 :: "('w, 'h) platform \<Rightarrow> 'h Histogram \<Rightarrow> u64" where
  "Histogram_p50 pf h = hdr_value_at_percentile pf 5000 (inner h)"

definition Histogram_p99 :: "('w, 'h) platform \<Rightarrow> 'h Histogram \<Rightarrow> u64" where
  "Histogram_p99 pf h = hdr_value_at_percentile pf 9900 (inner h)"

definition Histogram_p99_99 :: "('w, 'h) platform \<Rightarrow> 'h Histogram \<Rightarrow> u64" where
  "Histogram_p99_99 pf h = hdr_value_at_percentile pf 9999 (inner h)"

definition throughput_per_sec :: "('w, 'h) platform \<Rightarrow> 'h Histogram \<Rightarrow> f64" where
  "throughput_per_sec pf h =
     (let mean_ns = hdr_mean pf (inner h) in
      if Histogram_len pf h = 0 \<or> f64_le mean_ns (Fin 0) then Fin 0 else f64_div (Fin 1000000000) mean_ns)"

fun render_quantiles :: "u64 \<Rightarrow> (u64 \<times> u64 \<times> f64) list \<Rightarrow> string" where
  "render_quantiles running [] = []"
| "render_quantiles running ((v, count, q) # qs) =
     (let running = running + count;
          inv = (if f64_less q (Fin 1) then f64_div (Fin 1) (f64_sub (Fin 1) q) else Inf)
      in pad_left 12 (show_word v) @ '' '' @ f64_fmt 12 q @ '' '' @ pad_left 10 (show_word running) @ '' '' @
         pad_left 14 (f64_fmt 2 inv) @ [newline] @ render_quantiles running qs)"

definition render_hdr_percentiles :: "('w, 'h) platform \<Rightarrow> u32 \<Rightarrow> 'h Histogram \<Rightarrow> string" where
  "render_hdr_percentiles pf ticks h =
     ''# '' @ label h @ [newline] @
     ''       Value     Percentile TotalCount 1/(1-Percentile)'' @ [newline, newline] @
     render_quantiles 0 (hdr_iter_quantiles pf ticks (inner h)) @
     ''#[Mean    = '' @ pad_left 12 (f64_fmt 2 (hdr_mean pf (inner h))) @ '', Total count  = '' @
     pad_left 12 (show_word (Histogram_len pf h)) @ '']'' @ [newline] @
     ''#[Max     = '' @ pad_left 12 (show_word (hdr_max pf (inner h))) @ '']'' @ [newline]"

definition csv_header :: string where
  "csv_header = ''label,count,min_ns,p50_ns,p99_ns,p99_99_ns,max_ns,msgs_per_sec''"

definition render_csv :: "('w, 'h) platform \<Rightarrow> 'h Histogram \<Rightarrow> string" where
  "render_csv pf h =
     label h @ '','' @ show_word (Histogram_len pf h) @ '','' @ show_word (hdr_min pf (inner h)) @ '','' @
     show_word (Histogram_p50 pf h) @ '','' @ show_word (Histogram_p99 pf h) @ '','' @
     show_word (Histogram_p99_99 pf h) @ '','' @ show_word (hdr_max pf (inner h)) @ '','' @
     f64_fmt 0 (throughput_per_sec pf h)"

definition render_markdown :: "('w, 'h) platform \<Rightarrow> 'h Histogram \<Rightarrow> string" where
  "render_markdown pf h =
     ''| '' @ label h @ '' | '' @ show_word (Histogram_len pf h) @ '' | '' @ show_word (hdr_min pf (inner h)) @ '' | '' @
     show_word (Histogram_p50 pf h) @ '' | '' @ show_word (Histogram_p99 pf h) @ '' | '' @
     show_word (Histogram_p99_99 pf h) @ '' | '' @ show_word (hdr_max pf (inner h)) @ '' | '' @
     f64_fmt 0 (throughput_per_sec pf h) @ '' |''"

section \<open>report.rs: the report\<close>

datatype Delta = Sub | SubPerN u64

record 'h Section =
  section_title :: string
  section_samples :: "'h Sample list"

record DeltaRow =
  delta_name :: string
  delta_value :: int
  delta_note :: string

record 'h Report =
  report_env :: "f64 RunEnv"
  report_title :: string
  report_scope :: string
  report_sections :: "'h Section list"
  report_deltas :: "DeltaRow list"

definition Report_new :: "f64 RunEnv \<Rightarrow> string \<Rightarrow> string \<Rightarrow> 'h Report" where
  "Report_new env title scope =
     \<lparr>report_env = env, report_title = title, report_scope = scope, report_sections = [], report_deltas = []\<rparr>"

definition Report_section :: "string \<Rightarrow> 'h Sample list \<Rightarrow> 'h Report \<Rightarrow> 'h Report" where
  "Report_section title samples r =
     r\<lparr>report_sections := report_sections r @ [\<lparr>section_title = title, section_samples = samples\<rparr>]\<rparr>"

text \<open>Subtraction and division on \<open>i64\<close>: a debug build checks the subtraction, both profiles the
  quotient of the smallest value by \<open>-1\<close>.\<close>

definition minus_i64 :: "profile \<Rightarrow> int \<Rightarrow> int \<Rightarrow> int res" where
  "minus_i64 p a b =
     (if - (2 ^ 63) \<le> a - b \<and> a - b < 2 ^ 63 then Inr (a - b)
      else if p = Debug then Inl (Panic ''attempt to subtract with overflow'')
      else Inr (sint (of_int (a - b) :: 64 word)))"

definition div_i64 :: "int \<Rightarrow> int \<Rightarrow> int res" where
  "div_i64 a b =
     (if b = 0 then Inl (Panic ''attempt to divide by zero'')
      else if a = - (2 ^ 63) \<and> b = - 1 then Inl (Panic ''attempt to divide with overflow'')
      else Inr (rust_div a b))"

definition Report_delta ::
    "profile \<Rightarrow> ('w, 'h) platform \<Rightarrow> string \<Rightarrow> 'h Sample \<Rightarrow> 'h Sample \<Rightarrow> Delta \<Rightarrow> string \<Rightarrow> 'h Report \<Rightarrow> 'h Report res" where
  "Report_delta p pf name lhs rhs op note r =
     rbind (debug_assert p (arrival_model lhs = arrival_model rhs)
              ''delta across different arrival models is meaningless'') (\<lambda>_.
     let l = sint (Histogram_p50 pf (hist lhs)); r50 = sint (Histogram_p50 pf (hist rhs)) in
     rbind (case op of
         Sub \<Rightarrow> minus_i64 p l r50
       | SubPerN n \<Rightarrow> if n = 0 then Inr 0 else rbind (minus_i64 p l r50) (\<lambda>d. div_i64 d (sint n)))
       (\<lambda>v. Inr (r\<lparr>report_deltas := report_deltas r @ [\<lparr>delta_name = name, delta_value = v, delta_note = note\<rparr>]\<rparr>)))"

definition regime_tag :: "ArrivalModel \<Rightarrow> string" where
  "regime_tag m = (case m of BackToBack \<Rightarrow> ''back_to_back'' | OpenLoop _ \<Rightarrow> ''open_loop'')"

definition measured_under :: "'h Section \<Rightarrow> string" where
  "measured_under sec =
     (let ss = section_samples sec;
          base = (case ss of
              [] \<Rightarrow> ''no samples''
            | s # _ \<Rightarrow> (case arrival_model s of
                BackToBack \<Rightarrow> ''measured under: back-to-back (service time)''
              | OpenLoop iv \<Rightarrow> ''measured under: open-loop @ '' @ show_word iv @
                  ''ns interval (CO-corrected latency under load)''))
      in base @
         (if \<exists>s \<in> set ss. arrival_model s \<noteq> arrival_model (hd ss)
          then '' '' @ warn_sign @ '' MIXED arrival models in one section'' else []) @
         (if \<exists>s \<in> set ss. sample_overloaded s
          then '' '' @ warn_sign @ '' OVERLOADED (target rate unachievable)'' else []))"

definition humanize :: "u64 \<Rightarrow> string" where
  "humanize n =
     (if 1000000 \<le> n then f64_fmt 1 (f64_div (f64_of_u64 n) (Fin 1000000)) @ ''M''
      else if 1000 \<le> n then f64_fmt 0 (f64_div (f64_of_u64 n) (Fin 1000)) @ ''K''
      else show_word n)"

definition times_sign :: string where "times_sign = [CHR 0xC3, CHR 0x97]"

definition table_row :: "('w, 'h) platform \<Rightarrow> 'h Sample \<Rightarrow> string" where
  "table_row pf s =
     (let h = hist s; p50 = Histogram_p50 pf h;
          tail = (if 0 < p50 then f64_div (f64_of_u64 (Histogram_p99_99 pf h)) (f64_of_u64 p50) else Fin 0)
      in ''| '' @ label h @ '' | '' @ humanize (Histogram_len pf h) @ '' | '' @ show_word (hdr_min pf (inner h)) @
         '' | '' @ show_word p50 @ '' | '' @ show_word (Histogram_p99 pf h) @ '' | '' @
         show_word (Histogram_p99_99 pf h) @ '' | '' @ f64_fmt 0 tail @ times_sign @ '' | '' @
         f64_fmt 2 (f64_div (throughput_per_sec pf h) (Fin 1000000)) @ ''M | '' @
         show_word (ctx_involuntary (stats s)) @ '' | '' @ show_word (major_faults (stats s)) @ '' |'')"

definition Report_to_markdown :: "('w, 'h) platform \<Rightarrow> 'h Report \<Rightarrow> string" where
  "Report_to_markdown pf r =
     RunEnv_header (f64_fmt 2) (report_env r) (report_title r) (report_scope r) @
     (if report_sections r = [] then []
      else writeln (''- `inv-cs`/`maj-flt`: involuntary context switches / major page faults during that scenario's measure phase. Nonzero marks a tail spike as OS noise.'')) @
     concat (map (\<lambda>sec.
       writeln ([newline] @ ''**'' @ section_title sec @ ''**  _'' @ measured_under sec @ ''_'' @ [newline]) @
       writeln ''| scenario | n | min | p50 | p99 | p99.99 | tail | M/s | inv-cs | maj-flt |'' @
       writeln ''|---|--:|--:|--:|--:|--:|--:|--:|--:|--:|'' @
       concat (map (\<lambda>s. writeln (table_row pf s)) (section_samples sec))) (report_sections r)) @
     (if report_deltas r = [] then []
      else writeln ([newline] @ ''**Headline deltas (p50, ns)**'' @ [newline]) @
        writeln ''| metric | ns | derivation |'' @
        writeln ''|---|--:|---|'' @
        concat (map (\<lambda>d. writeln (''| '' @ delta_name d @ '' | '' @ show_int (delta_value d) @ '' | '' @ delta_note d @ '' |''))
          (report_deltas r)))"

definition csv_row :: "('w, 'h) platform \<Rightarrow> 'h Sample \<Rightarrow> string" where
  "csv_row pf s =
     regime_tag (arrival_model s) @ '','' @ render_csv pf (hist s) @ '','' @
     show_word (ctx_voluntary (stats s)) @ '','' @ show_word (ctx_involuntary (stats s)) @ '','' @
     show_word (minor_faults (stats s)) @ '','' @ show_word (major_faults (stats s))"

definition Report_to_csv :: "('w, 'h) platform \<Rightarrow> 'h Report \<Rightarrow> string" where
  "Report_to_csv pf r =
     writeln (''regime,'' @ csv_header @ '',ctx_voluntary,ctx_involuntary,minor_faults,major_faults'') @
     concat (map (\<lambda>sec. concat (map (\<lambda>s. writeln (csv_row pf s)) (section_samples sec))) (report_sections r))"

section \<open>report.rs: artifacts\<close>

definition is_alphanumeric :: "char \<Rightarrow> bool" where
  "is_alphanumeric c \<longleftrightarrow>
     is_digit c \<or> (65 \<le> (of_char c :: nat) \<and> (of_char c :: nat) \<le> 90)
     \<or> (97 \<le> (of_char c :: nat) \<and> (of_char c :: nat) \<le> 122)"

definition sanitize :: "string \<Rightarrow> string" where
  "sanitize l = map (\<lambda>c. if is_alphanumeric c then c else CHR ''_'') l"

definition gp_escape :: "string \<Rightarrow> string" where
  "gp_escape s =
     replace_char CHR 0x27 [] (replace_char CHR 0x22 [CHR 0x5C, CHR 0x22] (replace_char CHR 0x5C [CHR 0x5C, CHR 0x5C] s))"

definition quoted :: "string \<Rightarrow> string" where
  "quoted s = [CHR 0x27] @ s @ [CHR 0x27]"

definition plot_line :: "string \<Rightarrow> nat \<Rightarrow> nat \<times> string \<Rightarrow> string" where
  "plot_line hdr_dirname n il =
     (case il of (i, l) \<Rightarrow>
        ''  '' @ quoted (hdr_dirname @ ''/'' @ l @ ''.hdr'') @ '' using 4:1 with lines lw 2 title '' @ quoted (gp_escape l) @
        (if i + 1 < n then '', '' @ [CHR 0x5C] else []) @ [newline])"

definition gnuplot_script :: "string \<Rightarrow> string \<Rightarrow> string \<Rightarrow> string list \<Rightarrow> string" where
  "gnuplot_script title hdr_dirname svg_name labels =
     writeln (''# benchkit latency curve '' @ em_dash @ '' render with: gnuplot <this file> (run from this dir)'') @
     writeln (''set terminal svg size 1100,680 font '' @ quoted ''sans,11'' @ '' background '' @ quoted ''#ffffff'') @
     writeln (''set output '' @ quoted svg_name) @
     writeln (''set title '' @ [CHR 0x22] @ gp_escape title @ '' '' @ em_dash @ '' latency by percentile'' @ [CHR 0x22]) @
     writeln (''set xlabel '' @ quoted ''Percentile'') @
     writeln (''set ylabel '' @ quoted ''Latency (ns)'') @
     writeln ''set logscale x'' @
     writeln ''set grid'' @
     writeln ''set key outside right top'' @
     writeln (''set xtics ('' @ quoted ''p50'' @ '' 2, '' @ quoted ''p90'' @ '' 10, '' @ quoted ''p99'' @ '' 100, '' @
       quoted ''p99.9'' @ '' 1000, '' @ quoted ''p99.99'' @ '' 10000, '' @ quoted ''p99.999'' @ '' 100000)'') @
     writeln (''set datafile commentschars '' @ quoted ''#'') @
     writeln (''plot '' @ [CHR 0x5C]) @
     concat (map (plot_line hdr_dirname (length labels)) (enumerate 0 labels)) @
     (if labels = [] then writeln ''  NaN notitle'' else [])"

text \<open>The current directory is the list of its path components.\<close>

definition abs_path :: "string list \<Rightarrow> string" where
  "abs_path comps = ''/'' @ join ''/'' comps"

fun workspace_root_from :: "host \<Rightarrow> string list \<Rightarrow> string list option" where
  "workspace_root_from h rev_dir =
     (if case h_file h (abs_path (rev rev_dir @ [''Cargo.toml''])) of Some c \<Rightarrow> str_contains ''[workspace]'' c | None \<Rightarrow> False
      then Some (rev rev_dir)
      else case rev_dir of [] \<Rightarrow> None | _ # up \<Rightarrow> workspace_root_from h up)"

definition workspace_root :: "host \<Rightarrow> string list option \<Rightarrow> string list option" where
  "workspace_root h cwd = Option.bind cwd (\<lambda>d. workspace_root_from h (rev d))"

definition out_dir :: "host \<Rightarrow> string option \<Rightarrow> string list option \<Rightarrow> string" where
  "out_dir h bench_out_dir cwd =
     (case bench_out_dir of
        Some d \<Rightarrow> d
      | None \<Rightarrow>
          (let scratch = ''target/bench-runs/'' @ run_id h in
           case workspace_root h cwd of
             Some r \<Rightarrow> (if r = [] then ''/'' else abs_path r @ ''/'') @ scratch
           | None \<Rightarrow> scratch))"

datatype fs_op = CreateDirAll string | WriteFile string string | RemoveDirAll string

record RunPaths =
  markdown :: string
  csv :: string
  hdr_dir :: string
  gnuplot :: string
  svg :: string

text \<open>The operations before and after the removal, whose failure is ignored, each with its \<open>?\<close>.\<close>

fun fs_all :: "(fs_op \<Rightarrow> 'fs \<Rightarrow> bool \<times> 'fs) \<Rightarrow> fs_op list \<Rightarrow> 'fs \<Rightarrow> bool \<times> 'fs" where
  "fs_all exec [] fs = (True, fs)"
| "fs_all exec (o1 # os) fs = (let (ok, fs) = exec o1 fs in if ok then fs_all exec os fs else (False, fs))"

definition run_paths :: "string \<Rightarrow> string \<Rightarrow> RunPaths" where
  "run_paths dir name =
     \<lparr>markdown = dir @ ''/'' @ name @ ''.md'', csv = dir @ ''/'' @ name @ ''.csv'',
      hdr_dir = dir @ ''/'' @ name @ ''_hdr'', gnuplot = dir @ ''/'' @ name @ ''.gnuplot'',
      svg = dir @ ''/'' @ name @ ''.svg''\<rparr>"

abbreviation report_samples :: "'h Report \<Rightarrow> 'h Sample list" where
  "report_samples r \<equiv> concat (map section_samples (report_sections r))"

definition write_run ::
    "('w, 'h) platform \<Rightarrow> (fs_op \<Rightarrow> 'fs \<Rightarrow> bool \<times> 'fs) \<Rightarrow> string \<Rightarrow> string \<Rightarrow> 'h Report \<Rightarrow> 'fs \<Rightarrow> RunPaths option \<times> 'fs" where
  "write_run pf exec dir name r fs =
     (let ps = run_paths dir name;
          labels = map (\<lambda>s. sanitize (label (hist s))) (report_samples r);
          (ok, fs) = fs_all exec
            [CreateDirAll dir, WriteFile (markdown ps) (Report_to_markdown pf r), WriteFile (csv ps) (Report_to_csv pf r)] fs
      in if \<not> ok then (None, fs)
         else let (_, fs) = exec (RemoveDirAll (hdr_dir ps)) fs;
                  (ok, fs) = fs_all exec
                    (CreateDirAll (hdr_dir ps) #
                     map (\<lambda>s. WriteFile (hdr_dir ps @ ''/'' @ sanitize (label (hist s)) @ ''.hdr'')
                        (render_hdr_percentiles pf 5 (hist s))) (report_samples r) @
                     [WriteFile (gnuplot ps) (gnuplot_script (report_title r) (name @ ''_hdr'') (name @ ''.svg'') labels)]) fs
              in (if ok then Some ps else None, fs))"

section \<open>report.rs: comparison\<close>

datatype Verdict = Improved | Regressed | WithinNoise | Incomparable

record Row =
  row_p50 :: u64
  row_p99 :: u64
  row_p99_99 :: u64

record CompRow =
  comp_label :: string
  comp_regime :: string
  comp_base :: "Row option"
  comp_cur :: "Row option"
  comp_verdict :: Verdict
  comp_driver :: "string option"

record Comparison =
  comparison_rows :: "CompRow list"
  comparison_noise_pct :: f64

text \<open>\<open>(c as f64 - b as f64) / b as f64 * 100.0\<close>.\<close>

definition change_pct :: "u64 \<Rightarrow> u64 \<Rightarrow> f64" where
  "change_pct b c = f64_mul (f64_div (f64_sub (f64_of_u64 c) (f64_of_u64 b)) (f64_of_u64 b)) (Fin 100)"

definition is_none_or :: "'a option \<Rightarrow> ('a \<Rightarrow> bool) \<Rightarrow> bool" where
  "is_none_or m P = (case m of None \<Rightarrow> True | Some x \<Rightarrow> P x)"

definition classify_step ::
    "f64 \<Rightarrow> string \<times> u64 \<times> u64 \<Rightarrow> (string \<times> f64) option \<times> (string \<times> f64) option \<Rightarrow>
     (string \<times> f64) option \<times> (string \<times> f64) option" where
  "classify_step noise_pct = (\<lambda>(name, b, c) (worst_regression, best_improvement).
     let change = change_pct b c in
     if f64_le (f64_abs change) noise_pct then (worst_regression, best_improvement)
     else if f64_less (Fin 0) change
     then (if is_none_or worst_regression (\<lambda>(_, w). f64_less w change) then Some (name, change) else worst_regression,
           best_improvement)
     else (worst_regression,
           if is_none_or best_improvement (\<lambda>(_, w). f64_less change w) then Some (name, change) else best_improvement))"

definition metric_pairs :: "Row \<Rightarrow> Row \<Rightarrow> (string \<times> u64 \<times> u64) list" where
  "metric_pairs base cur =
     [(''p50'', row_p50 base, row_p50 cur), (''p99'', row_p99 base, row_p99 cur),
      (''p99.99'', row_p99_99 base, row_p99_99 cur)]"

definition classify_pair :: "Row \<Rightarrow> Row \<Rightarrow> f64 \<Rightarrow> Verdict \<times> string option" where
  "classify_pair base cur noise_pct =
     (let pairs = metric_pairs base cur in
      if \<exists>(_, b, _) \<in> set pairs. b = 0 then (Incomparable, None)
      else case fold (classify_step noise_pct) pairs (None, None) of
          (Some (m, _), _) \<Rightarrow> (Regressed, Some m)
        | (None, Some (m, _)) \<Rightarrow> (Improved, Some m)
        | (None, None) \<Rightarrow> (WithinNoise, None))"

definition arrow :: string where "arrow = [CHR 0xE2, CHR 0x86, CHR 0x92]"

fun delta_cell :: "u64 option \<Rightarrow> u64 option \<Rightarrow> string" where
  "delta_cell (Some b) (Some c) =
     (if 0 < b then show_word b @ arrow @ show_word c @ '' ('' @ f64_fmt_sign 1 (change_pct b c) @ ''%)''
      else show_word b @ arrow @ show_word c)"
| "delta_cell (Some b) None = show_word b @ arrow @ em_dash"
| "delta_cell None (Some c) = em_dash @ arrow @ show_word c"
| "delta_cell None None = em_dash"

definition parse_csv_line :: "string \<Rightarrow> ((string \<times> string) \<times> Row) option" where
  "parse_csv_line line =
     (if trim line = [] then None
      else let f = split_on CHR '','' line in
        if length f < 9 then None
        else case (parse_u64 (f ! 4), parse_u64 (f ! 5), parse_u64 (f ! 6)) of
            (Some p50, Some p99, Some p99_99) \<Rightarrow>
              Some ((f ! 1, f ! 0), \<lparr>row_p50 = p50, row_p99 = p99, row_p99_99 = p99_99\<rparr>)
          | _ \<Rightarrow> None)"

definition parse_csv :: "string \<Rightarrow> (string \<times> string, Row) hash_map" where
  "parse_csv body =
     fold (\<lambda>line m. case parse_csv_line line of Some (k, r) \<Rightarrow> hm_insert k r m | None \<Rightarrow> m) (drop 1 (lines body)) []"

definition base_row :: "(string \<times> string, Row) hash_map \<Rightarrow> f64 \<Rightarrow> (string \<times> string) \<times> Row \<Rightarrow> CompRow" where
  "base_row cur noise_pct = (\<lambda>((l, regime), b).
     case hm_get cur (l, regime) of
       Some c \<Rightarrow> (let (v, d) = classify_pair b c noise_pct in
         \<lparr>comp_label = l, comp_regime = regime, comp_base = Some b, comp_cur = Some c, comp_verdict = v, comp_driver = d\<rparr>)
     | None \<Rightarrow>
         \<lparr>comp_label = l, comp_regime = regime, comp_base = Some b, comp_cur = None,
          comp_verdict = Incomparable, comp_driver = None\<rparr>)"

definition new_row :: "(string \<times> string) \<times> Row \<Rightarrow> CompRow" where
  "new_row = (\<lambda>((l, regime), c).
     \<lparr>comp_label = l, comp_regime = regime, comp_base = None, comp_cur = Some c,
      comp_verdict = Incomparable, comp_driver = None\<rparr>)"

definition from_strings :: "string \<Rightarrow> string \<Rightarrow> f64 \<Rightarrow> Comparison" where
  "from_strings baseline_csv current_csv noise_pct =
     (let base = parse_csv baseline_csv; cur = parse_csv current_csv;
          rows = map (base_row cur noise_pct) base @
            map new_row (filter (\<lambda>(k, c). \<not> hm_contains_key base k) cur)
      in \<lparr>comparison_rows = sort_key comp_label rows, comparison_noise_pct = noise_pct\<rparr>)"

definition Comparison_load :: "host \<Rightarrow> string \<Rightarrow> string \<Rightarrow> f64 \<Rightarrow> Comparison option" where
  "Comparison_load h baseline_csv current_csv noise_pct =
     Option.bind (h_file h baseline_csv) (\<lambda>base. map_option (\<lambda>cur. from_strings base cur noise_pct) (h_file h current_csv))"

definition any_regressed :: "Comparison \<Rightarrow> bool" where
  "any_regressed c \<longleftrightarrow> (\<exists>r \<in> set (comparison_rows c). comp_verdict r = Regressed)"

definition verdict_cell :: "CompRow \<Rightarrow> string" where
  "verdict_cell r =
     (case (comp_verdict r, comp_driver r) of
        (Improved, Some m) \<Rightarrow> check_mark @ '' improved ('' @ m @ '')''
      | (Improved, None) \<Rightarrow> check_mark @ '' improved''
      | (Regressed, Some m) \<Rightarrow> [CHR 0xE2, CHR 0x9C, CHR 0x97] @ '' REGRESSED ('' @ m @ '')''
      | (Regressed, None) \<Rightarrow> [CHR 0xE2, CHR 0x9C, CHR 0x97] @ '' REGRESSED''
      | (WithinNoise, _) \<Rightarrow> mid_dot @ '' within noise''
      | (Incomparable, _) \<Rightarrow> ''? incomparable'')"

definition Comparison_to_markdown :: "Comparison \<Rightarrow> string" where
  "Comparison_to_markdown c =
     writeln (''# Benchmark comparison (noise band '' @ [CHR 0xC2, CHR 0xB1] @ f64_fmt 1 (comparison_noise_pct c) @ ''%)'' @ [newline]) @
     writeln (''Each cell is `base'' @ arrow @ ''current ('' @ [CHR 0xCE, CHR 0x94] @ ''%)` in ns. The verdict is the worst metric of the three.'' @ [newline]) @
     writeln ''| scenario | regime | p50 | p99 | p99.99 | verdict |'' @
     writeln ''|---|---|--:|--:|--:|---|'' @
     concat (map (\<lambda>r. writeln (''| '' @ comp_label r @ '' | '' @ comp_regime r @ '' | '' @
        delta_cell (map_option row_p50 (comp_base r)) (map_option row_p50 (comp_cur r)) @ '' | '' @
        delta_cell (map_option row_p99 (comp_base r)) (map_option row_p99 (comp_cur r)) @ '' | '' @
        delta_cell (map_option row_p99_99 (comp_base r)) (map_option row_p99_99 (comp_cur r)) @ '' | '' @
        verdict_cell r @ '' |'')) (comparison_rows c))"

section \<open>suite.rs\<close>

record MeasurementIntent =
  intent_latency :: bool
  intent_latency_under_load :: bool
  intent_allocations :: bool
  intent_cache_and_instructions :: bool

definition MeasurementIntent_LATENCY :: MeasurementIntent where
  "MeasurementIntent_LATENCY =
     \<lparr>intent_latency = True, intent_latency_under_load = False, intent_allocations = False,
      intent_cache_and_instructions = False\<rparr>"

definition with_load :: "MeasurementIntent \<Rightarrow> MeasurementIntent" where
  "with_load i = i\<lparr>intent_latency_under_load := True\<rparr>"

definition with_allocations :: "MeasurementIntent \<Rightarrow> MeasurementIntent" where
  "with_allocations i = i\<lparr>intent_allocations := True\<rparr>"

definition with_cache :: "MeasurementIntent \<Rightarrow> MeasurementIntent" where
  "with_cache i = i\<lparr>intent_cache_and_instructions := True\<rparr>"

record 'h BenchmarkSuite =
  suite_name :: string
  suite_intent :: MeasurementIntent
  suite_iters :: Iters
  suite_interval_ns :: u64
  suite_runner :: f64
  suite_env :: "f64 RunEnv"
  suite_samples :: "'h Sample list"
  suite_load_samples :: "'h Sample list"

text \<open>The runner's calibration is the measured number of ticks per nanosecond.\<close>

definition BenchmarkSuite_new :: "host \<Rightarrow> f64 \<Rightarrow> string \<Rightarrow> 'h BenchmarkSuite" where
  "BenchmarkSuite_new h tpn name =
     \<lparr>suite_name = name, suite_intent = MeasurementIntent_LATENCY, suite_iters = Iters_STANDARD,
      suite_interval_ns = 1000, suite_runner = tpn, suite_env = RunEnv_detect h tpn,
      suite_samples = [], suite_load_samples = []\<rparr>"

definition set_intent :: "MeasurementIntent \<Rightarrow> 'h BenchmarkSuite \<Rightarrow> 'h BenchmarkSuite" where
  "set_intent i su = su\<lparr>suite_intent := i\<rparr>"

definition set_iters :: "Iters \<Rightarrow> 'h BenchmarkSuite \<Rightarrow> 'h BenchmarkSuite" where
  "set_iters i su = su\<lparr>suite_iters := i\<rparr>"

definition at_rate :: "u64 \<Rightarrow> 'h BenchmarkSuite \<Rightarrow> 'h BenchmarkSuite" where
  "at_rate ops_per_sec su = (if 0 < ops_per_sec then su\<lparr>suite_interval_ns := 1000000000 div ops_per_sec\<rparr> else su)"

definition run_scenario_with ::
    "profile \<Rightarrow> ('w, 'h) platform \<Rightarrow> string \<Rightarrow> 's \<Rightarrow> ('s \<Rightarrow> usize \<Rightarrow> 'w \<Rightarrow> 'i \<times> 's \<times> 'w) \<Rightarrow> ('s \<Rightarrow> 'i \<Rightarrow> 'w \<Rightarrow> 's \<times> 'w) \<Rightarrow>
     'h BenchmarkSuite \<Rightarrow> 'w \<Rightarrow> ('h BenchmarkSuite \<times> 's \<times> 'w) res option" where
  "run_scenario_with p pf l s prepare op su w =
     obind (if intent_latency (suite_intent su)
            then obind (Some (bench p pf (suite_runner su) l (suite_iters su) s prepare op w)) (\<lambda>(sample, s, w).
              Some (Inr (su\<lparr>suite_samples := suite_samples su @ [sample]\<rparr>, s, w)))
            else Some (Inr (su, s, w))) (\<lambda>(su, s, w).
      if intent_latency_under_load (suite_intent su)
      then obind (bench_open_loop p pf (suite_runner su) (l @ ''@load'') (suite_iters su) (suite_interval_ns su) s prepare op w)
        (\<lambda>(sample, s, w). Some (Inr (su\<lparr>suite_load_samples := suite_load_samples su @ [sample]\<rparr>, s, w)))
      else Some (Inr (su, s, w)))"

text \<open>A static scenario: the closure's captured state is threaded through.\<close>

definition run_scenario ::
    "profile \<Rightarrow> ('w, 'h) platform \<Rightarrow> string \<Rightarrow> 's \<Rightarrow> ('s \<Rightarrow> 'w \<Rightarrow> 's \<times> 'w) \<Rightarrow> 'h BenchmarkSuite \<Rightarrow> 'w \<Rightarrow>
     ('h BenchmarkSuite \<times> 's \<times> 'w) res option" where
  "run_scenario p pf l s op su w =
     obind (if intent_latency (suite_intent su)
            then obind (Some (bench_static p pf (suite_runner su) l (suite_iters su) s op w)) (\<lambda>(sample, s, w).
              Some (Inr (su\<lparr>suite_samples := suite_samples su @ [sample]\<rparr>, s, w)))
            else Some (Inr (su, s, w))) (\<lambda>(su, s, w).
      if intent_latency_under_load (suite_intent su)
      then obind (bench_open_loop p pf (suite_runner su) (l @ ''@load'') (suite_iters su) (suite_interval_ns su) s
          (\<lambda>s i w. ((), s, w)) (\<lambda>s _ w. op s w) w)
        (\<lambda>(sample, s, w). Some (Inr (su\<lparr>suite_load_samples := suite_load_samples su @ [sample]\<rparr>, s, w)))
      else Some (Inr (su, s, w)))"

text \<open>The report of a finished suite and the lines printed to standard error before it is written.\<close>

definition suite_report :: "'h BenchmarkSuite \<Rightarrow> 'h Report" where
  "suite_report su =
     (let scope = ''engine-internal `op()` latency; '' @ show_nat (length (suite_samples su)) @
            '' scenario(s). rdtscp-fenced, warmup '' @ show_word (warmup (suite_iters su)) @ '' / measure '' @
            show_word (measure (suite_iters su)) @ ''.'';
          r = Report_new (suite_env su) (suite_name su) scope;
          r = (if suite_samples su = [] then r else Report_section ''Latency (back-to-back)'' (suite_samples su) r)
      in if suite_load_samples su = [] then r
         else Report_section ''Latency under load (open-loop, CO-corrected)'' (suite_load_samples su) r)"

definition suite_stderr :: "'h BenchmarkSuite \<Rightarrow> string list" where
  "suite_stderr su =
     map (\<lambda>w. warn_sign @ '' '' @ w) (RunEnv_warnings (suite_env su)) @
     (if intent_allocations (suite_intent su)
      then [''note: allocation regime requested '' @ em_dash @ '' run the dhat alloc-proof binary separately (feature `alloc`); it is a distinct pass from latency.'']
      else []) @
     (if intent_cache_and_instructions (suite_intent su)
      then [''note: cache/instruction regime requested '' @ em_dash @ '' run `cargo bench --features iai --bench <crate>_iai`; callgrind cannot share this process.'']
      else [])"

definition finish_and_report ::
    "('w, 'h) platform \<Rightarrow> (fs_op \<Rightarrow> 'fs \<Rightarrow> bool \<times> 'fs) \<Rightarrow> string \<Rightarrow> 'h BenchmarkSuite \<Rightarrow> 'fs \<Rightarrow>
     string list \<times> RunPaths option \<times> 'fs" where
  "finish_and_report pf exec dir su fs =
     (let (paths, fs) = write_run pf exec dir (suite_name su) (suite_report su) fs in
      (suite_stderr su @ (case paths of
          None \<Rightarrow> []
        | Some ps \<Rightarrow> [''benchmark run written:'', ''  '' @ markdown ps, ''  '' @ csv ps, ''  '' @ hdr_dir ps @ ''/*.hdr'']),
       paths, fs))"

end
