(* ===== verification/Bench_Report_Props.thy ===== *)
theory Bench_Report_Props
  imports Bench_Report Bench_Runner_Props
begin

text \<open>
  Properties of the reporting layer: the verdict of a comparison follows the worst metric, the CSV a
  report writes is read back by the comparison, a run compared with itself never regresses, and the
  suite keeps the two measuring regimes apart.
\<close>

section \<open>Verdicts\<close>

text \<open>A metric moved beyond the noise band, up or not.\<close>

definition regresses :: "f64 \<Rightarrow> string \<times> u64 \<times> u64 \<Rightarrow> bool" where
  "regresses noise = (\<lambda>(_, b, c). \<not> f64_le (f64_abs (change_pct b c)) noise \<and> f64_less (Fin 0) (change_pct b c))"

definition improves :: "f64 \<Rightarrow> string \<times> u64 \<times> u64 \<Rightarrow> bool" where
  "improves noise = (\<lambda>(_, b, c). \<not> f64_le (f64_abs (change_pct b c)) noise \<and> \<not> f64_less (Fin 0) (change_pct b c))"

lemma f64_less_trans: "f64_less a b \<Longrightarrow> f64_less b c \<Longrightarrow> f64_less a c"
  by (cases a; cases b; cases c) auto

text \<open>What the loop has found after a list of metrics.\<close>

definition scan_worst :: "f64 \<Rightarrow> (string \<times> u64 \<times> u64) list \<Rightarrow> (string \<times> f64) option \<Rightarrow> bool" where
  "scan_worst noise ps worst \<longleftrightarrow>
     (case worst of
        None \<Rightarrow> \<forall>q \<in> set ps. \<not> regresses noise q
      | Some (m, w) \<Rightarrow>
          (\<exists>b c. (m, b, c) \<in> set ps \<and> regresses noise (m, b, c) \<and> w = change_pct b c)
          \<and> (\<forall>(n, b, c) \<in> set ps. regresses noise (n, b, c) \<longrightarrow> \<not> f64_less w (change_pct b c)))"

definition scan_ok :: "f64 \<Rightarrow> (string \<times> u64 \<times> u64) list \<Rightarrow> (string \<times> f64) option \<times> (string \<times> f64) option \<Rightarrow> bool" where
  "scan_ok noise ps = (\<lambda>(worst, best).
     scan_worst noise ps worst \<and> (best = None \<longleftrightarrow> (\<forall>q \<in> set ps. \<not> improves noise q)))"

lemma f64_less_irrefl: "\<not> f64_less a a"
  by (cases a) auto

lemma classify_step_cases:
  "regresses noise (n, b, c) \<Longrightarrow> classify_step noise (n, b, c) (worst, best) =
     (if is_none_or worst (\<lambda>(_, w). f64_less w (change_pct b c)) then Some (n, change_pct b c) else worst, best)"
  "\<not> regresses noise (n, b, c) \<Longrightarrow> fst (classify_step noise (n, b, c) (worst, best)) = worst"
  "\<not> regresses noise (n, b, c) \<Longrightarrow>
     snd (classify_step noise (n, b, c) (worst, best)) = None \<longleftrightarrow> best = None \<and> \<not> improves noise (n, b, c)"
  by (auto simp: classify_step_def regresses_def improves_def is_none_or_def Let_def split: option.splits)

lemma scan_worst_skip: "\<not> regresses noise q \<Longrightarrow> scan_worst noise (ps @ [q]) worst = scan_worst noise ps worst"
  by (cases q) (auto simp: scan_worst_def split: option.splits)

lemma scan_worst_step:
  assumes ps: "scan_worst noise ps worst" and reg: "regresses noise (n, b, c)"
  shows "scan_worst noise (ps @ [(n, b, c)])
    (if is_none_or worst (\<lambda>(_, w). f64_less w (change_pct b c)) then Some (n, change_pct b c) else worst)"
proof (cases worst)
  case None
  with ps reg show ?thesis by (auto simp: scan_worst_def is_none_or_def f64_less_irrefl)
next
  case (Some mw)
  obtain m w where mw: "worst = Some (m, w)" using Some by (cases mw) auto
  have old: "\<exists>b c. (m, b, c) \<in> set ps \<and> regresses noise (m, b, c) \<and> w = change_pct b c"
    and max: "\<And>n b c. (n, b, c) \<in> set ps \<Longrightarrow> regresses noise (n, b, c) \<Longrightarrow> \<not> f64_less w (change_pct b c)"
    using ps mw by (auto simp: scan_worst_def)
  show ?thesis
  proof (cases "f64_less w (change_pct b c)")
    case True
    then have "\<not> f64_less (change_pct b c) (change_pct b' c')"
      if "(n', b', c') \<in> set ps" "regresses noise (n', b', c')" for n' b' c'
      using max [OF that] f64_less_trans by blast
    with True mw reg show ?thesis by (auto simp: scan_worst_def is_none_or_def f64_less_irrefl)
  next
    case False
    with mw old max show ?thesis by (fastforce simp: scan_worst_def is_none_or_def)
  qed
qed

lemma scan_ok_step:
  assumes "scan_ok noise ps (worst, best)"
  shows "scan_ok noise (ps @ [q]) (classify_step noise q (worst, best))"
proof -
  obtain n b c where q: "q = (n, b, c)" by (cases q)
  have ps: "scan_worst noise ps worst" "best = None \<longleftrightarrow> (\<forall>q \<in> set ps. \<not> improves noise q)"
    using assms by (simp_all add: scan_ok_def)
  show ?thesis
  proof (cases "regresses noise q")
    case True
    then have "\<not> improves noise q" by (simp add: q regresses_def improves_def)
    with True ps scan_worst_step [OF ps(1) True [unfolded q]] show ?thesis
      by (simp add: q classify_step_cases(1) scan_ok_def)
  next
    case False
    obtain worst' best' where st: "classify_step noise q (worst, best) = (worst', best')"
      by (cases "classify_step noise q (worst, best)")
    have "worst' = worst" "best' = None \<longleftrightarrow> best = None \<and> \<not> improves noise q"
      using classify_step_cases(2,3) [OF False [unfolded q], of worst best] st by (auto simp: q)
    with ps scan_worst_skip [OF False, of ps worst] show ?thesis by (auto simp: st scan_ok_def)
  qed
qed

lemma scan_ok_fold:
  "scan_ok noise ps st \<Longrightarrow> scan_ok noise (ps @ qs) (fold (classify_step noise) qs st)"
proof (induction qs arbitrary: ps st)
  case (Cons q qs)
  then have "scan_ok noise ((ps @ [q]) @ qs) (fold (classify_step noise) qs (classify_step noise q st))"
    by (intro Cons.IH) (cases st, simp add: scan_ok_step)
  then show ?case by simp
qed simp

lemma classify_scan:
  "scan_ok noise (metric_pairs base cur) (fold (classify_step noise) (metric_pairs base cur) (None, None))"
  using scan_ok_fold [of noise "[]" "(None, None)"] by (simp add: scan_ok_def scan_worst_def)

text \<open>The conditions in which the verdict is stated.\<close>

definition zero_baseline :: "Row \<Rightarrow> Row \<Rightarrow> bool" where
  "zero_baseline base cur \<longleftrightarrow> (\<exists>(_, b, _) \<in> set (metric_pairs base cur). b = 0)"

definition any_regresses :: "f64 \<Rightarrow> Row \<Rightarrow> Row \<Rightarrow> bool" where
  "any_regresses noise base cur \<longleftrightarrow> (\<exists>q \<in> set (metric_pairs base cur). regresses noise q)"

definition any_improves :: "f64 \<Rightarrow> Row \<Rightarrow> Row \<Rightarrow> bool" where
  "any_improves noise base cur \<longleftrightarrow> (\<exists>q \<in> set (metric_pairs base cur). improves noise q)"

definition worst_regression :: "f64 \<Rightarrow> Row \<Rightarrow> Row \<Rightarrow> string \<Rightarrow> bool" where
  "worst_regression noise base cur m \<longleftrightarrow>
     (\<exists>b c. (m, b, c) \<in> set (metric_pairs base cur) \<and> regresses noise (m, b, c)
       \<and> (\<forall>(n, b', c') \<in> set (metric_pairs base cur).
            regresses noise (n, b', c') \<longrightarrow> \<not> f64_less (change_pct b c) (change_pct b' c')))"

text \<open>The verdict in terms of the computed percentages.\<close>

lemma classify_pair_spec:
  "if zero_baseline base cur then classify_pair base cur noise = (Incomparable, None)
   else (case classify_pair base cur noise of (verdict, driver) \<Rightarrow>
     (verdict = Regressed \<longleftrightarrow> any_regresses noise base cur)
     \<and> (verdict = Improved \<longleftrightarrow> \<not> any_regresses noise base cur \<and> any_improves noise base cur)
     \<and> verdict \<noteq> Incomparable
     \<and> any_regresses noise base cur = (\<exists>m. driver = Some m \<and> worst_regression noise base cur m))"
proof (cases "zero_baseline base cur")
  case True
  then show ?thesis by (simp add: classify_pair_def Let_def zero_baseline_def)
next
  case False
  obtain worst best where f: "fold (classify_step noise) (metric_pairs base cur) (None, None) = (worst, best)"
    by (cases "fold (classify_step noise) (metric_pairs base cur) (None, None)")
  have ok: "scan_ok noise (metric_pairs base cur) (worst, best)" using classify_scan [of noise base cur] f by simp
  have cl: "classify_pair base cur noise = (case worst of Some (m, _) \<Rightarrow> (Regressed, Some m)
      | None \<Rightarrow> (case best of Some (m, _) \<Rightarrow> (Improved, Some m) | None \<Rightarrow> (WithinNoise, None)))"
    unfolding classify_pair_def Let_def if_not_P [OF False [unfolded zero_baseline_def]] f by (simp split: option.splits)
  have w: "worst = None \<longleftrightarrow> \<not> any_regresses noise base cur" and b: "best = None \<longleftrightarrow> \<not> any_improves noise base cur"
    using ok unfolding scan_ok_def scan_worst_def any_regresses_def any_improves_def
    by (auto split: option.splits)
  show ?thesis
  proof (cases worst)
    case None
    then have "\<not> worst_regression noise base cur m" for m
      using w unfolding worst_regression_def any_regresses_def by blast
    then show ?thesis using None False cl w b by (cases best) auto
  next
    case (Some mw)
    obtain m ch where mw: "worst = Some (m, ch)" using Some by (cases mw) auto
    then have "worst_regression noise base cur m" using ok unfolding scan_ok_def scan_worst_def worst_regression_def by auto
    moreover have "classify_pair base cur noise = (Regressed, Some m)" using cl mw by simp
    ultimately show ?thesis using False w mw by simp
  qed
qed

section \<open>Exactness of the percentages\<close>

lemma pow2_nonzero: "pow2 e \<noteq> 0"
  by (simp add: pow2_def)

lemma f64_round_pos_less:
  assumes "pow2 (- 1022) \<le> x"
  shows "f64_less (Fin 0) (f64_round x)"
proof -
  have "0 < x / 2" using assms pow2_simps(1) [of "- 1022"] by linarith
  with f64_round_pos [OF assms] show ?thesis by auto
qed

lemma f64_round_0 [simp]: "f64_round 0 = Fin 0"
  by (simp add: f64_round_def)

lemma ratio_normal:
  assumes "0 < b" and "b < 2 ^ 53" and "i < (j :: nat)"
  shows "pow2 (- 1000) \<le> (of_nat j - of_nat i) / (of_nat b :: rat)"
proof -
  have "(of_nat b :: rat) < of_nat (2 ^ 53)" "(of_nat (i + 1) :: rat) \<le> of_nat j"
    using assms unfolding of_nat_less_iff of_nat_le_iff by simp_all
  then have "1 / 2 ^ 53 \<le> (of_nat j - of_nat i) / (of_nat b :: rat)"
    using assms(1) by (intro frac_le) (simp_all add: algebra_simps)
  moreover have "pow2 (- 1000) \<le> pow2 (- 53)" by simp
  moreover have "pow2 (- 53) = 1 / 2 ^ 53" by (simp add: pow2_def)
  ultimately show ?thesis by linarith
qed

lemma scaled_pos:
  assumes "pow2 (- 1000) \<le> x"
  shows "f64_less (Fin 0) (f64_mul (f64_round x) (Fin 100))"
proof -
  have "pow2 (- 1022) \<le> pow2 (- 1000)" by simp
  then have x: "pow2 (- 1022) \<le> x" using assms by linarith
  have two: "pow2 (- 1000) = 2 * pow2 (- 1001)" using pow2_add [of "- 1001" 1] by (simp add: pow2_def [of 1])
  have "pow2 (- 1022) \<le> pow2 (- 1001)" by simp
  show ?thesis
  proof (cases "f64_round x")
    case (Fin r)
    then have "x / 2 < r" using f64_round_pos [OF x] by simp
    then have "pow2 (- 1022) \<le> r * 100" using assms two \<open>pow2 (- 1022) \<le> pow2 (- 1001)\<close> pow2_simps(1) [of "- 1001"] by linarith
    then show ?thesis using Fin f64_round_pos_less by simp
  qed (use f64_round_pos [OF x] in \<open>simp_all add: f64_signed_inf_def\<close>)
qed

lemma f64_mul_neg: "f64_mul (f64_neg a) (Fin 100) = f64_neg (f64_mul a (Fin 100))"
  by (cases a) (simp_all add: f64_round_neg [symmetric] f64_signed_inf_def)

lemma change_pct_exact:
  assumes "0 < unat b" and "unat b < 2 ^ 53" and "unat c < 2 ^ 53"
  shows "change_pct b c = f64_mul (f64_round ((of_nat (unat c) - of_nat (unat b)) / of_nat (unat b))) (Fin 100)"
proof -
  let ?b = "of_nat (unat b) :: rat" and ?c = "of_nat (unat c) :: rat"
  have "\<bar>int (unat c) - int (unat b)\<bar> < 2 ^ 53"
    using iffD2 [OF of_nat_less_iff assms(2), where 'a1 = int] iffD2 [OF of_nat_less_iff assms(3), where 'a1 = int]
    unfolding of_nat_power of_nat_numeral by linarith
  from f64_round_of_int [OF this] have sub: "f64_round (?c - ?b) = Fin (?c - ?b)"
    by (simp only: of_int_diff of_int_of_nat_eq)
  have b0: "?b \<noteq> 0" using assms(1) by (metis of_nat_0_less_iff less_irrefl)
  show ?thesis
    unfolding change_pct_def f64_of_u64_exact [OF assms(2)] f64_of_u64_exact [OF assms(3)] f64_sub.simps sub f64_div.simps
    using b0 by (simp only: if_False)
qed

lemma change_pct_cases:
  assumes "0 < unat b" and "unat b < 2 ^ 53" and "unat c < 2 ^ 53"
  shows "unat b < unat c \<Longrightarrow> f64_less (Fin 0) (change_pct b c)"
    and "unat c < unat b \<Longrightarrow> f64_less (change_pct b c) (Fin 0)"
    and "unat c = unat b \<Longrightarrow> change_pct b c = Fin 0"
proof -
  let ?b = "of_nat (unat b) :: rat" and ?c = "of_nat (unat c) :: rat"
  note ch = change_pct_exact [OF assms]
  show "f64_less (Fin 0) (change_pct b c)" if "unat b < unat c"
    unfolding ch by (rule scaled_pos [OF ratio_normal [OF assms(1,2) that]])
  show "change_pct b c = Fin 0" if "unat c = unat b" unfolding ch that by simp
  show "f64_less (change_pct b c) (Fin 0)" if less: "unat c < unat b"
  proof -
    have neg: "(?c - ?b) / ?b = - ((?b - ?c) / ?b)" by (simp add: diff_divide_distrib)
    note pos = ratio_normal [OF assms(1,2) less]
    have "f64_less (f64_neg v) (Fin 0)" if "f64_less (Fin 0) v" for v using that by (cases v) auto
    with scaled_pos [OF pos] show ?thesis unfolding ch neg f64_round_neg f64_mul_neg by blast
  qed
qed

definition metrics_exact :: "Row \<Rightarrow> bool" where
  "metrics_exact r \<longleftrightarrow> row_p50 r < 2 ^ 53 \<and> row_p99 r < 2 ^ 53 \<and> row_p99_99 r < 2 ^ 53"

lemma zero_noise_metric:
  assumes "b \<noteq> 0" and "b < 2 ^ 53" and "c < 2 ^ 53"
  shows "regresses (Fin 0) (m, b, c) \<longleftrightarrow> b < c" and "improves (Fin 0) (m, b, c) \<longleftrightarrow> c < b"
proof -
  have u: "0 < unat b" "unat b < 2 ^ 53" "unat c < 2 ^ 53"
    using assms by (simp_all add: unat_gt_0 word_less_nat_alt)
  have pos: "\<not> f64_le (f64_abs v) (Fin 0)" if "f64_less (Fin 0) v" for v using that by (cases v) (auto simp: f64_le_def)
  have neg: "\<not> f64_le (f64_abs v) (Fin 0) \<and> \<not> f64_less (Fin 0) v" if "f64_less v (Fin 0)" for v
    using that by (cases v) (auto simp: f64_le_def)
  have zero: "f64_le (f64_abs (Fin 0)) (Fin 0)" by (simp add: f64_le_def)
  consider "unat b < unat c" | "unat c < unat b" | "unat c = unat b" by linarith
  then have "(regresses (Fin 0) (m, b, c) \<longleftrightarrow> b < c) \<and> (improves (Fin 0) (m, b, c) \<longleftrightarrow> c < b)"
  proof cases
    case 1
    with change_pct_cases(1) [OF u] pos show ?thesis
      by (simp add: regresses_def improves_def word_less_nat_alt)
  next
    case 2
    with change_pct_cases(2) [OF u] neg show ?thesis
      by (simp add: regresses_def improves_def word_less_nat_alt)
  next
    case 3
    with change_pct_cases(3) [OF u] zero show ?thesis
      by (simp add: regresses_def improves_def word_less_nat_alt del: unat_inject)
  qed
  then show "regresses (Fin 0) (m, b, c) \<longleftrightarrow> b < c" and "improves (Fin 0) (m, b, c) \<longleftrightarrow> c < b" by simp_all
qed

lemma classify_pair_verdict:
  "\<not> zero_baseline base cur \<Longrightarrow> fst (classify_pair base cur noise) =
     (if any_regresses noise base cur then Regressed else if any_improves noise base cur then Improved else WithinNoise)"
  using classify_scan [of noise base cur]
  by (cases "fold (classify_step noise) (metric_pairs base cur) (None, None)")
    (auto simp: classify_pair_def Let_def scan_ok_def scan_worst_def any_regresses_def any_improves_def zero_baseline_def
      split: option.splits prod.splits)

text \<open>The rounding of the \<open>f64\<close> percentages never changes a verdict on real latencies: for metrics
  below \<open>2^53\<close> ns (more than a hundred days) and non-zero baselines, a comparison with a zero noise
  band says \<open>Regressed\<close> exactly when a metric grew, \<open>Improved\<close> exactly when none grew and one shrank,
  and \<open>WithinNoise\<close> exactly when all three are equal.\<close>

theorem zero_noise_verdict_exact:
  assumes "metrics_exact base" and "metrics_exact cur" and "\<not> zero_baseline base cur"
  shows "fst (classify_pair base cur (Fin 0)) =
    (if row_p50 base < row_p50 cur \<or> row_p99 base < row_p99 cur \<or> row_p99_99 base < row_p99_99 cur then Regressed
     else if base = cur then WithinNoise else Improved)"
proof -
  have nz: "row_p50 base \<noteq> 0" "row_p99 base \<noteq> 0" "row_p99_99 base \<noteq> 0"
    using assms(3) by (auto simp: zero_baseline_def metric_pairs_def)
  note z = zero_noise_metric [OF nz(1)] zero_noise_metric [OF nz(2)] zero_noise_metric [OF nz(3)]
  have "any_regresses (Fin 0) base cur \<longleftrightarrow>
      row_p50 base < row_p50 cur \<or> row_p99 base < row_p99 cur \<or> row_p99_99 base < row_p99_99 cur"
    "any_improves (Fin 0) base cur \<longleftrightarrow>
      row_p50 cur < row_p50 base \<or> row_p99 cur < row_p99 base \<or> row_p99_99 cur < row_p99_99 base"
    using assms(1,2) by (simp_all add: any_regresses_def any_improves_def metric_pairs_def metrics_exact_def z)
  moreover have "base = cur \<longleftrightarrow> row_p50 base = row_p50 cur \<and> row_p99 base = row_p99 cur \<and> row_p99_99 base = row_p99_99 cur"
    by (cases base; cases cur) auto
  ultimately show ?thesis unfolding classify_pair_verdict [OF assms(3)] by auto
qed

theorem zero_noise_verdict_exact_witness:
  "fst (classify_pair \<lparr>row_p50 = 100, row_p99 = 900, row_p99_99 = 5000\<rparr>
      \<lparr>row_p50 = 40, row_p99 = 900, row_p99_99 = 5001\<rparr> (Fin 0)) = Regressed"
  using zero_noise_verdict_exact [of "\<lparr>row_p50 = 100, row_p99 = 900, row_p99_99 = 5000\<rparr>"
      "\<lparr>row_p50 = 40, row_p99 = 900, row_p99_99 = 5001\<rparr>"]
  by (simp add: metrics_exact_def zero_baseline_def metric_pairs_def)

section \<open>The worst metric decides\<close>

text \<open>The fields a comparison looks at, by the name the report gives them, and the exact growth of
  one in percent.\<close>

definition metric_names :: "string set" where
  "metric_names = {''p50'', ''p99'', ''p99.99''}"

definition metric_of :: "string \<Rightarrow> Row \<Rightarrow> u64" where
  "metric_of m r = (if m = ''p50'' then row_p50 r else if m = ''p99'' then row_p99 r else row_p99_99 r)"

definition growth :: "u64 \<Rightarrow> u64 \<Rightarrow> rat" where
  "growth b c = 100 * ((of_nat (unat c) - of_nat (unat b)) / of_nat (unat b))"

lemma set_metric_pairs:
  "set (metric_pairs base cur) = (\<lambda>m. (m, metric_of m base, metric_of m cur)) ` metric_names"
  by (simp add: metric_pairs_def metric_names_def metric_of_def)

lemma scaled_error:
  assumes "pow2 (- 1000) \<le> x" and "x < pow2 100"
  shows "\<exists>r. f64_mul (f64_round x) (Fin 100) = Fin r \<and> \<bar>r - 100 * x\<bar> \<le> 100 * x * pow2 (- 51)"
proof -
  let ?u = "pow2 (- 53)"
  have u: "0 < ?u" "?u \<le> 1 / 2" "pow2 (- 51) = 4 * ?u"
    using pow2_add [of 2 "- 53"] by (simp_all add: pow2_def)
  have ord: "pow2 (- 1022) \<le> pow2 (- 1001)" "pow2 (- 1000) = 2 * pow2 (- 1001)" "pow2 100 < pow2 1023" "128 * pow2 101 < pow2 1023"
    "pow2 101 = 2 * pow2 100"
    using pow2_add [of "- 1001" 1] pow2_add [of 7 101] pow2_add [of 100 1] pow2_mono [of 108 1023] by (simp_all add: pow2_def [of 1] pow2_def [of 7])
  have x: "0 < x" using assms(1) pow2_simps(1) [of "- 1000"] by linarith
  obtain r1 where r1: "f64_round x = Fin r1" "\<bar>r1 - x\<bar> \<le> x * ?u" "0 < r1"
    using assms ord pow2_simps(1) [of "- 1001"] by (elim f64_round_error [rotated 2]) linarith+
  have xu: "x * ?u \<le> x * (1 / 2)" using x u by (intro mult_left_mono) auto
  then have half: "x / 2 \<le> r1" "r1 \<le> 3 / 2 * x" using r1(2) by linarith+
  obtain r where r: "f64_round (r1 * 100) = Fin r" "\<bar>r - r1 * 100\<bar> \<le> r1 * 100 * ?u"
  proof (rule f64_round_error [of "r1 * 100"])
    show "pow2 (- 1022) \<le> r1 * 100" using half assms(1) ord pow2_simps(1) [of "- 1001"] by linarith
    show "r1 * 100 < pow2 1023" using half assms(2) ord by linarith
  qed
  have "r1 * ?u \<le> 3 / 2 * x * ?u" using half u by (intro mult_right_mono) auto
  moreover have "r1 * 100 * ?u = 100 * (r1 * ?u)" "3 / 2 * x * ?u = 3 / 2 * (x * ?u)" "100 * x * (4 * ?u) = 400 * (x * ?u)" by simp_all
  moreover have "0 \<le> x * ?u" using x u(1) by simp
  ultimately have "\<bar>r - 100 * x\<bar> \<le> 100 * x * (4 * ?u)" using r(2) r1(2) by linarith
  then show ?thesis using r1(1) r(1) u(3) by simp
qed

lemma ratio_bounded:
  assumes "0 < b" and "i < (j :: nat)" and "j < 2 ^ 53"
  shows "(of_nat j - of_nat i) / (of_nat b :: rat) < pow2 100"
proof -
  have "(of_nat j - of_nat i) / (of_nat b :: rat) \<le> (of_nat j - of_nat i) / 1"
    using assms(1,2) by (intro divide_left_mono) simp_all
  also have "\<dots> \<le> of_nat j" by simp
  also have "(of_nat j :: rat) < of_nat (2 ^ 53)" using assms(3) unfolding of_nat_less_iff .
  also have "(of_nat (2 ^ 53) :: rat) < pow2 100" by (simp add: pow2_def)
  finally show ?thesis .
qed

lemma scaled_error_abs:
  assumes "pow2 (- 1000) \<le> \<bar>x\<bar>" and "\<bar>x\<bar> < pow2 100"
  shows "\<exists>r. f64_mul (f64_round x) (Fin 100) = Fin r \<and> \<bar>r - 100 * x\<bar> \<le> \<bar>100 * x\<bar> * pow2 (- 51)"
proof (cases "0 \<le> x")
  case True
  with scaled_error [of x] assms show ?thesis by simp
next
  case False
  with scaled_error [of "- x"] assms obtain r where r: "f64_mul (f64_round (- x)) (Fin 100) = Fin r"
    "\<bar>r - 100 * - x\<bar> \<le> 100 * - x * pow2 (- 51)" by auto
  have "f64_mul (f64_round x) (Fin 100) = Fin (- r)"
    using r(1) f64_mul_neg [of "f64_round x"] by (simp add: f64_round_neg) (metis f64_neg.simps(4) minus_minus f64_round_neg f64_mul_neg)
  with r(2) False show ?thesis by (intro exI [of _ "- r"]) (auto simp: abs_if split: if_splits)
qed

text \<open>The percentage the code computes is the exact growth up to a relative error of \<open>2^-51\<close>.\<close>

lemma change_pct_growth:
  assumes "0 < unat b" and "unat b < 2 ^ 53" and "unat c < 2 ^ 53"
  shows "\<exists>r. change_pct b c = Fin r \<and> \<bar>r - growth b c\<bar> \<le> \<bar>growth b c\<bar> * pow2 (- 51)"
proof -
  define x where "x = (of_nat (unat c) - of_nat (unat b)) / (of_nat (unat b) :: rat)"
  have neg: "x = - ((of_nat (unat b) - of_nat (unat c)) / of_nat (unat b))" by (simp add: x_def diff_divide_distrib)
  consider "unat b < unat c" | "unat c < unat b" | "unat c = unat b" by linarith
  then have "x = 0 \<or> pow2 (- 1000) \<le> \<bar>x\<bar> \<and> \<bar>x\<bar> < pow2 100"
  proof cases
    case 1
    with ratio_normal [OF assms(1,2) 1] ratio_bounded [OF assms(1) 1 assms(3)] pow2_simps(1) [of "- 1000"]
    show ?thesis unfolding x_def by linarith
  next
    case 2
    with ratio_normal [OF assms(1,2) 2] ratio_bounded [OF assms(1) 2 assms(2)] pow2_simps(1) [of "- 1000"]
    show ?thesis unfolding neg by linarith
  qed (simp add: x_def)
  then show ?thesis
    unfolding change_pct_exact [OF assms] growth_def x_def [symmetric]
    using scaled_error_abs [of x] by (cases "x = 0") auto
qed

text \<open>So a metric regresses or improves exactly when that approximation leaves the noise band.\<close>

lemma metric_bands:
  assumes "b \<noteq> 0" and "b < 2 ^ 53" and "c < 2 ^ 53" and "0 \<le> n"
  obtains r where "change_pct b c = Fin r" and "\<bar>r - growth b c\<bar> \<le> \<bar>growth b c\<bar> * pow2 (- 51)"
    and "\<And>m. regresses (Fin n) (m, b, c) \<longleftrightarrow> n < r" and "\<And>m. improves (Fin n) (m, b, c) \<longleftrightarrow> n < - r"
proof -
  have "0 < unat b" "unat b < 2 ^ 53" "unat c < 2 ^ 53" using assms by (simp_all add: unat_gt_0 word_less_nat_alt)
  from change_pct_growth [OF this] obtain r where r: "change_pct b c = Fin r"
    "\<bar>r - growth b c\<bar> \<le> \<bar>growth b c\<bar> * pow2 (- 51)" by blast
  show thesis
    by (rule that [OF r]) (use r(1) assms(4) in \<open>auto simp: regresses_def improves_def f64_le_def\<close>)
qed

lemma band_arith:
  fixes r g n :: rat
  assumes "\<bar>r - g\<bar> \<le> \<bar>g\<bar> * pow2 (- 51)" and "0 \<le> n"
  shows "n * (1 + 1 / 2 ^ 49) < g \<Longrightarrow> n < r" and "n < r \<Longrightarrow> n * (1 - 1 / 2 ^ 49) < g \<and> 0 < g"
    and "n * (1 + 1 / 2 ^ 49) < - g \<Longrightarrow> n < - r" and "n < - r \<Longrightarrow> n * (1 - 1 / 2 ^ 49) < - g \<and> g < 0"
    and "n < r \<Longrightarrow> \<bar>r' - g'\<bar> \<le> \<bar>g'\<bar> * pow2 (- 51) \<Longrightarrow> r' \<le> r \<Longrightarrow> g' \<le> g * (1 + 1 / 2 ^ 49)"
proof -
  have d: "\<bar>r - g\<bar> \<le> \<bar>g\<bar> * pow2 (- 51) \<longleftrightarrow> (if 0 \<le> g
      then 2251799813685247 * g \<le> 2251799813685248 * r \<and> 2251799813685248 * r \<le> 2251799813685249 * g
      else 2251799813685249 * g \<le> 2251799813685248 * r \<and> 2251799813685248 * r \<le> 2251799813685247 * g)" for r g :: rat
    unfolding abs_le_iff by (auto simp: pow2_def field_simps)
  note err = assms(1) [unfolded d]
  show "n * (1 + 1 / 2 ^ 49) < g \<Longrightarrow> n < r" and "n < r \<Longrightarrow> n * (1 - 1 / 2 ^ 49) < g \<and> 0 < g"
    and "n * (1 + 1 / 2 ^ 49) < - g \<Longrightarrow> n < - r" and "n < - r \<Longrightarrow> n * (1 - 1 / 2 ^ 49) < - g \<and> g < 0"
    using err assms(2) by (auto simp: field_simps split: if_splits)
  assume "n < r" "\<bar>r' - g'\<bar> \<le> \<bar>g'\<bar> * pow2 (- 51)" "r' \<le> r"
  then show "g' \<le> g * (1 + 1 / 2 ^ 49)"
    using err assms(2) unfolding d by (auto simp: field_simps split: if_splits)
qed

lemma zero_baseline_iff: "zero_baseline base cur \<longleftrightarrow> (\<exists>m \<in> metric_names. metric_of m base = 0)"
  by (simp add: zero_baseline_def set_metric_pairs)

lemma worst_regression_names:
  "worst_regression noise base cur m \<longleftrightarrow> m \<in> metric_names \<and> regresses noise (m, metric_of m base, metric_of m cur) \<and>
     (\<forall>m' \<in> metric_names. regresses noise (m', metric_of m' base, metric_of m' cur) \<longrightarrow>
        \<not> f64_less (change_pct (metric_of m base) (metric_of m cur)) (change_pct (metric_of m' base) (metric_of m' cur)))"
  unfolding worst_regression_def set_metric_pairs by (rule iffI) (fastforce, blast)

text \<open>The computed percentages of the three metrics, with what they decide.\<close>

lemma metric_changes:
  assumes "metrics_exact base" and "metrics_exact cur" and "\<not> zero_baseline base cur" and "0 \<le> n"
  obtains R where "\<forall>m \<in> metric_names.
      \<bar>R m - growth (metric_of m base) (metric_of m cur)\<bar> \<le> \<bar>growth (metric_of m base) (metric_of m cur)\<bar> * pow2 (- 51)"
    and "any_regresses (Fin n) base cur \<longleftrightarrow> (\<exists>m \<in> metric_names. n < R m)"
    and "any_improves (Fin n) base cur \<longleftrightarrow> (\<exists>m \<in> metric_names. n < - R m)"
    and "\<forall>m. worst_regression (Fin n) base cur m \<longleftrightarrow> m \<in> metric_names \<and> n < R m \<and> (\<forall>m' \<in> metric_names. R m' \<le> R m)"
proof -
  let ?P = "\<lambda>m r. change_pct (metric_of m base) (metric_of m cur) = Fin r \<and>
      \<bar>r - growth (metric_of m base) (metric_of m cur)\<bar> \<le> \<bar>growth (metric_of m base) (metric_of m cur)\<bar> * pow2 (- 51) \<and>
      (regresses (Fin n) (m, metric_of m base, metric_of m cur) \<longleftrightarrow> n < r) \<and>
      (improves (Fin n) (m, metric_of m base, metric_of m cur) \<longleftrightarrow> n < - r)"
  have "\<exists>r. ?P m r" if m: "m \<in> metric_names" for m
  proof -
    have "metric_of m base \<noteq> 0" "metric_of m base < 2 ^ 53" "metric_of m cur < 2 ^ 53"
      using assms m by (auto simp: zero_baseline_iff metric_of_def metrics_exact_def)
    from metric_bands [OF this assms(4)] show ?thesis by metis
  qed
  then have "\<forall>m \<in> metric_names. \<exists>r. ?P m r" by blast
  then have "\<exists>R. \<forall>m \<in> metric_names. ?P m (R m)" by (rule bchoice)
  then obtain R where R: "\<forall>m \<in> metric_names. ?P m (R m)" ..
  show thesis
  proof (rule that [of R])
    show "\<forall>m. worst_regression (Fin n) base cur m \<longleftrightarrow> m \<in> metric_names \<and> n < R m \<and> (\<forall>m' \<in> metric_names. R m' \<le> R m)"
      unfolding worst_regression_names using R by (auto simp: not_less)
  qed (use R in \<open>auto simp: any_regresses_def any_improves_def set_metric_pairs\<close>)
qed

text \<open>C21: A regression is never masked. For metrics below \<open>2^53\<close> ns (more than a hundred days) and
  a noise band of \<open>n\<close> percent, a row with a zero baseline in p50, p99 or p99.99 is \<open>Incomparable\<close>.
  Otherwise, with the exact growth of each metric in percent and a tolerance \<open>2^-49\<close> for the
  rounding of the code's \<open>f64\<close> arithmetic: the row is \<open>Regressed\<close> whenever one of the three grew
  beyond the band, whatever the other two did; a row that is \<open>Regressed\<close> names as its driver a metric
  that did grow beyond the band and that no other outgrew; \<open>Improved\<close> means that none grew beyond
  the band and one fell beyond it; \<open>WithinNoise\<close> means that all three stayed inside it.\<close>

theorem regression_never_masked:
  assumes "metrics_exact base" and "metrics_exact cur" and "0 \<le> n"
  defines "g \<equiv> \<lambda>m. growth (metric_of m base) (metric_of m cur)" and "\<epsilon> \<equiv> 1 / 2 ^ 49 :: rat"
  shows "if row_p50 base = 0 \<or> row_p99 base = 0 \<or> row_p99_99 base = 0
    then classify_pair base cur (Fin n) = (Incomparable, None)
    else case classify_pair base cur (Fin n) of (verdict, driver) \<Rightarrow>
      ((\<exists>m \<in> metric_names. n * (1 + \<epsilon>) < g m) \<longrightarrow> verdict = Regressed) \<and>
      (verdict = Regressed \<longrightarrow> (\<exists>m \<in> metric_names. driver = Some m \<and> 0 < g m \<and> n * (1 - \<epsilon>) < g m \<and>
         (\<forall>m' \<in> metric_names. g m' \<le> g m * (1 + \<epsilon>)))) \<and>
      (verdict = Improved \<longrightarrow> (\<forall>m \<in> metric_names. g m \<le> n * (1 + \<epsilon>)) \<and>
         (\<exists>m \<in> metric_names. g m < 0 \<and> n * (1 - \<epsilon>) < - g m)) \<and>
      (verdict = WithinNoise \<longrightarrow> (\<forall>m \<in> metric_names. \<bar>g m\<bar> \<le> n * (1 + \<epsilon>))) \<and>
      verdict \<noteq> Incomparable"
proof -
  have zero: "row_p50 base = 0 \<or> row_p99 base = 0 \<or> row_p99_99 base = 0 \<longleftrightarrow> zero_baseline base cur"
    by (auto simp: zero_baseline_iff metric_names_def metric_of_def)
  note spec = classify_pair_spec [of base cur "Fin n"]
  show ?thesis
  proof (cases "zero_baseline base cur")
    case True
    with spec show ?thesis unfolding zero by simp
  next
    case False
    obtain R where
      err: "\<forall>m \<in> metric_names. \<bar>R m - g m\<bar> \<le> \<bar>g m\<bar> * pow2 (- 51)"
      and R: "any_regresses (Fin n) base cur \<longleftrightarrow> (\<exists>m \<in> metric_names. n < R m)"
        "any_improves (Fin n) base cur \<longleftrightarrow> (\<exists>m \<in> metric_names. n < - R m)"
        "\<forall>m. worst_regression (Fin n) base cur m \<longleftrightarrow> m \<in> metric_names \<and> n < R m \<and> (\<forall>m' \<in> metric_names. R m' \<le> R m)"
      unfolding g_def by (rule metric_changes [OF assms(1,2) False assms(3)])
    obtain verdict driver where cl: "classify_pair base cur (Fin n) = (verdict, driver)" by fastforce
    note arith = band_arith [OF err [rule_format] assms(3), folded \<epsilon>_def]
    note V = spec [unfolded if_not_P [OF False] cl prod.case R(1,2) R(3) [rule_format]]
    have "verdict = Regressed" if "m \<in> metric_names" "n * (1 + \<epsilon>) < g m" for m
      using V arith(1) [OF that] that(1) by blast
    moreover have "\<exists>m \<in> metric_names. driver = Some m \<and> 0 < g m \<and> n * (1 - \<epsilon>) < g m \<and>
         (\<forall>m' \<in> metric_names. g m' \<le> g m * (1 + \<epsilon>))" if "verdict = Regressed"
    proof -
      from V that obtain m where m: "driver = Some m" "m \<in> metric_names" "n < R m" "\<forall>m' \<in> metric_names. R m' \<le> R m" by blast
      with arith(2) [OF m(2,3)] arith(5) [OF m(2,3)] err show ?thesis by blast
    qed
    moreover have "(\<forall>m \<in> metric_names. g m \<le> n * (1 + \<epsilon>)) \<and> (\<exists>m \<in> metric_names. g m < 0 \<and> n * (1 - \<epsilon>) < - g m)"
      if "verdict = Improved" using V that arith(1,4) by (metis not_le)
    moreover have "\<forall>m \<in> metric_names. \<bar>g m\<bar> \<le> n * (1 + \<epsilon>)" if "verdict = WithinNoise"
    proof -
      from V that have "\<not> n < R m" "\<not> n < - R m" if "m \<in> metric_names" for m using that by auto
      with arith(1,3) have "\<not> n * (1 + \<epsilon>) < g m" "\<not> n * (1 + \<epsilon>) < - g m" if "m \<in> metric_names" for m using that by blast+
      then show ?thesis by (auto simp: abs_le_iff not_less)
    qed
    moreover have "verdict \<noteq> Incomparable" using V by blast
    ultimately show ?thesis unfolding zero if_not_P [OF False] cl prod.case by blast
  qed
qed

theorem regression_never_masked_witness:
  "\<exists>m. classify_pair \<lparr>row_p50 = 100, row_p99 = 900, row_p99_99 = 5000\<rparr>
      \<lparr>row_p50 = 40, row_p99 = 960, row_p99_99 = 6000\<rparr> (Fin 5) = (Regressed, Some m) \<and> m = ''p99.99''"
proof -
  let ?b = "\<lparr>row_p50 = 100, row_p99 = 900, row_p99_99 = 5000\<rparr>"
    and ?c = "\<lparr>row_p50 = 40, row_p99 = 960, row_p99_99 = 6000\<rparr>"
  have g: "growth (metric_of ''p50'' ?b) (metric_of ''p50'' ?c) = - 60"
    "growth (metric_of ''p99'' ?b) (metric_of ''p99'' ?c) = 20 / 3"
    "growth (metric_of ''p99.99'' ?b) (metric_of ''p99.99'' ?c) = 20"
    by (simp_all add: growth_def metric_of_def)
  obtain v d where cl: "classify_pair ?b ?c (Fin 5) = (v, d)" by fastforce
  have "metrics_exact ?b" "metrics_exact ?c" by (simp_all add: metrics_exact_def)
  from regression_never_masked [OF this, of 5] show ?thesis
    unfolding cl by (auto simp: metric_names_def g)
qed

section \<open>A run against itself\<close>

lemma f64_of_u64_finite:
  assumes "n \<noteq> 0"
  shows "\<exists>x. 0 < x \<and> f64_of_u64 n = Fin x"
proof -
  let ?x = "of_nat (unat n) :: rat"
  have n: "1 \<le> unat n" "unat n < 2 ^ 64" using assms unat_gt_0 [of n] unat_u64_bound [of n] by auto
  have x1: "1 \<le> ?x" using n(1) by (metis of_nat_1 of_nat_le_iff)
  have x2: "?x < pow2 64" using n(2) of_nat_less_iff [of "unat n" "2 ^ 64", where 'a = rat] by (simp add: pow2_def)
  have "pow2 (- 1022) \<le> pow2 0" by (simp only: pow2_le_iff)
  then have norm: "pow2 (- 1022) \<le> ?x" using x1 by simp
  let ?e = "ilog2 ?x" let ?u = "pow2 (?e - 52)"
  have lo: "pow2 ?e \<le> ?x" and hi: "?x < pow2 (?e + 1)" using ilog2_bounds [of ?x] x1 by auto
  have "pow2 0 < pow2 (?e + 1)" using x1 hi by simp
  then have e: "0 \<le> ?e" by (simp only: pow2_less_iff)
  have u: "?u \<le> ?x" using lo pow2_le_iff [of "?e - 52" ?e] by linarith
  have "of_int (round_half_even (?x / ?u)) \<le> ?x / ?u + 1"
    by (rule round_half_even_le)
  then have "of_int (round_half_even (?x / ?u)) * ?u \<le> (?x / ?u + 1) * ?u" by (intro mult_right_mono) auto
  also have "\<dots> = ?x + ?u" by (simp add: distrib_right pow2_nonzero)
  also have "\<dots> < pow2 65" using u x2 pow2_add [of 64 1] by (simp add: pow2_def [of 1])
  also have "\<dots> \<le> pow2 1024" by (simp only: pow2_le_iff)
  finally have "\<not> pow2 1024 \<le> of_int (round_half_even (?x / ?u)) * ?u" by simp
  moreover have "max (?e - 52) (- 1074) = ?e - 52" using e by simp
  ultimately have "f64_round ?x \<noteq> Inf" using x1 by (auto simp: f64_round_def Let_def)
  with f64_round_pos [OF norm] obtain r where "f64_round ?x = Fin r" "?x / 2 < r" by auto
  then show ?thesis using x1 by (auto simp: f64_of_u64_def intro!: exI [of _ r])
qed

lemma change_pct_self: "b \<noteq> 0 \<Longrightarrow> change_pct b b = Fin 0"
  using f64_of_u64_finite [of b] by (auto simp: change_pct_def)

lemma classify_pair_self:
  assumes "0 \<le> noise"
  shows "fst (classify_pair r r (Fin noise)) \<in> {WithinNoise, Incomparable}"
proof (cases "zero_baseline r r")
  case True
  then show ?thesis by (simp add: classify_pair_def Let_def zero_baseline_def)
next
  case False
  then have "q \<in> set (metric_pairs r r) \<Longrightarrow> \<not> regresses (Fin noise) q \<and> \<not> improves (Fin noise) q" for q
    using assms by (auto simp: zero_baseline_def metric_pairs_def regresses_def improves_def change_pct_self f64_le_def)
  then show ?thesis using classify_pair_verdict [OF False, of "Fin noise"] by (auto simp: any_regresses_def any_improves_def)
qed

lemma parse_csv_wf: "hm_wf (parse_csv body)"
proof -
  have "hm_wf m \<Longrightarrow> hm_wf (fold (\<lambda>line m. case parse_csv_line line of Some (k, r) \<Rightarrow> hm_insert k r m | None \<Rightarrow> m) ls m)" for ls m
    by (induction ls arbitrary: m) (auto split: option.split prod.split)
  then show ?thesis by (simp add: parse_csv_def)
qed

text \<open>A run compared with itself is never a regression nor an improvement, for every non-negative
  noise band and every text taken as its CSV: each row is within noise, or incomparable for its zero
  baseline.\<close>

theorem self_comparison_neutral:
  assumes "0 \<le> noise"
  shows "\<not> any_regressed (from_strings body body (Fin noise))
    \<and> (comp_verdict ` set (comparison_rows (from_strings body body (Fin noise)))) \<subseteq> {WithinNoise, Incomparable}"
proof -
  let ?m = "parse_csv body"
  have get: "hm_get ?m k = Some v" if "(k, v) \<in> set ?m" for k v
    using that parse_csv_wf [of body] by (simp add: hm_wf_def)
  have none: "filter (\<lambda>(k, c). \<not> hm_contains_key ?m k) ?m = []" using get by (fastforce simp: filter_empty_conv)
  have "comp_verdict (base_row ?m (Fin noise) kv) \<in> {WithinNoise, Incomparable}" if "kv \<in> set ?m" for kv
  proof -
    obtain l g v where kv: "kv = ((l, g), v)" by (cases kv) auto
    then have "hm_get ?m (l, g) = Some v" using that get by blast
    then show ?thesis using classify_pair_self [OF assms, of v]
      by (cases "classify_pair v v (Fin noise)") (simp add: kv base_row_def)
  qed
  then have "comp_verdict ` set (comparison_rows (from_strings body body (Fin noise))) \<subseteq> {WithinNoise, Incomparable}"
    unfolding from_strings_def Let_def none by auto
  then show ?thesis unfolding any_regressed_def by fastforce
qed

theorem self_comparison_neutral_witness:
  "\<not> any_regressed (from_strings ''h'' ''h'' (Fin 5))
    \<and> (comp_verdict ` set (comparison_rows (from_strings ''h'' ''h'' (Fin 5)))) \<subseteq> {WithinNoise, Incomparable}"
  by (rule self_comparison_neutral) simp

section \<open>The CSV round trip\<close>

lemma split_lines: "\<forall>r \<in> set rs. newline \<notin> set r \<Longrightarrow> split_on newline (concat (map writeln rs)) = rs @ [[]]"
  by (induction rs) (auto simp: writeln_def split_on_append)

lemma lines_writeln:
  assumes "\<forall>r \<in> set rs. newline \<notin> set r \<and> strip_cr r = r"
  shows "lines (concat (map writeln rs)) = rs"
  using assms by (simp add: lines_def split_lines map_idI)

lemma show_nat_chars: "c \<in> set (show_nat n) \<Longrightarrow> is_digit c"
  using show_nat_digits [of n] by (auto simp: list_all_iff)

lemma show_nat_plain [simp]: "CHR '','' \<notin> set (show_nat n)" "newline \<notin> set (show_nat n)" "show_nat n \<noteq> []"
  using show_nat_chars [of "CHR '',''" n] show_nat_chars [of newline n] show_nat_digits [of n]
  by (auto simp: is_digit_def newline_def)

lemma pad0_plain: "CHR '','' \<notin> set (pad0 k (show_nat n)) \<and> newline \<notin> set (pad0 k (show_nat n))"
  by (simp add: pad0_def newline_def [symmetric]) (simp add: newline_def)

lemma f64_fmt_plain: "CHR '','' \<notin> set (f64_fmt k v)" "newline \<notin> set (f64_fmt k v)"
  using pad0_plain by (cases v; simp add: show_fixed_def Let_def; simp add: newline_def)+

text \<open>The thirteen fields of a row.\<close>

definition csv_fields :: "('w, 'h) platform \<Rightarrow> 'h Sample \<Rightarrow> string list" where
  "csv_fields pf s =
     [regime_tag (arrival_model s), label (hist s), show_word (Histogram_len pf (hist s)),
      show_word (hdr_min pf (inner (hist s))), show_word (Histogram_p50 pf (hist s)),
      show_word (Histogram_p99 pf (hist s)), show_word (Histogram_p99_99 pf (hist s)),
      show_word (hdr_max pf (inner (hist s))), f64_fmt 0 (throughput_per_sec pf (hist s)),
      show_word (ctx_voluntary (stats s)), show_word (ctx_involuntary (stats s)),
      show_word (minor_faults (stats s)), show_word (major_faults (stats s))]"

lemma csv_row_join: "csv_row pf s = join '','' (csv_fields pf s)"
  by (simp add: csv_row_def csv_fields_def render_csv_def)

definition plain_label :: "'h Sample \<Rightarrow> bool" where
  "plain_label s \<longleftrightarrow> CHR '','' \<notin> set (label (hist s)) \<and> newline \<notin> set (label (hist s))"

lemma regime_tag_plain: "CHR '','' \<notin> set (regime_tag m)" "newline \<notin> set (regime_tag m)"
  by (cases m; simp add: regime_tag_def newline_def)+

lemma csv_fields_plain:
  "plain_label s \<Longrightarrow> \<forall>f \<in> set (csv_fields pf s). CHR '','' \<notin> set f"
  by (simp add: csv_fields_def plain_label_def regime_tag_plain f64_fmt_plain)

lemma newline_join: "newline \<notin> set (join '','' fs) \<longleftrightarrow> (\<forall>f \<in> set fs. newline \<notin> set f)"
  by (induction "'',''" fs rule: join.induct) (auto simp: newline_def)

lemma csv_row_line:
  assumes "plain_label s"
  shows "newline \<notin> set (csv_row pf s)" and "strip_cr (csv_row pf s) = csv_row pf s"
proof -
  show "newline \<notin> set (csv_row pf s)"
    using assms unfolding csv_row_join newline_join
    by (simp add: csv_fields_def plain_label_def regime_tag_plain f64_fmt_plain)
  have "last (csv_row pf s) = last (show_word (major_faults (stats s)))" by (simp add: csv_row_def)
  moreover have "is_digit (last (show_word (major_faults (stats s))))" by (rule show_nat_chars [OF last_in_set]) simp
  ultimately have "last (csv_row pf s) \<noteq> CHR 0x0D" by (auto simp: is_digit_def)
  then show "strip_cr (csv_row pf s) = csv_row pf s" by (simp add: strip_cr_def)
qed

lemma trim_nonempty: "c \<in> set s \<Longrightarrow> \<not> is_ws c \<Longrightarrow> trim s \<noteq> []"
  by (auto simp: trim_def dropWhile_eq_Nil_conv dest: set_dropWhileD)
    (metis dropWhile_eq_Nil_conv hd_dropWhile list.set_sel(1))

lemma parse_u64_show: "parse_u64 (show_word w) = Some w" for w :: u64
  using parse_show_nat [of "unat w" 18446744073709551616] unat_u64_bound [of w] by (simp add: parse_u64_def)

definition sample_row :: "('w, 'h) platform \<Rightarrow> 'h Sample \<Rightarrow> Row" where
  "sample_row pf s =
     \<lparr>row_p50 = Histogram_p50 pf (hist s), row_p99 = Histogram_p99 pf (hist s), row_p99_99 = Histogram_p99_99 pf (hist s)\<rparr>"

definition sample_key :: "'h Sample \<Rightarrow> string \<times> string" where
  "sample_key s = (label (hist s), regime_tag (arrival_model s))"

lemma parse_csv_row:
  assumes "plain_label s"
  shows "parse_csv_line (csv_row pf s) = Some (sample_key s, sample_row pf s)"
proof -
  have "trim (csv_row pf s) \<noteq> []"
    by (rule trim_nonempty [of "CHR '',''"]) (simp_all add: csv_row_def is_ws_def)
  moreover have "split_on CHR '','' (csv_row pf s) = csv_fields pf s"
    unfolding csv_row_join by (rule split_on_join) (use csv_fields_plain [OF assms] in \<open>simp_all add: csv_fields_def\<close>)
  ultimately show ?thesis
    by (simp add: parse_csv_line_def csv_fields_def parse_u64_show sample_key_def sample_row_def)
qed

lemma fold_parse_rows:
  "\<forall>s \<in> set ss. plain_label s \<Longrightarrow>
   map_of (fold (\<lambda>line m. case parse_csv_line line of Some (k, r) \<Rightarrow> hm_insert k r m | None \<Rightarrow> m) (map (csv_row pf) ss) m)
     = map_of m ++ map_of (rev (map (\<lambda>s. (sample_key s, sample_row pf s)) ss))"
  by (induction ss arbitrary: m) (simp_all add: parse_csv_row map_add_assoc)

definition csv_first_line :: string where
  "csv_first_line = ''regime,'' @ csv_header @ '',ctx_voluntary,ctx_involuntary,minor_faults,major_faults''"

lemma csv_header_line: "newline \<notin> set csv_first_line" "strip_cr csv_first_line = csv_first_line"
  by (simp_all add: csv_first_line_def csv_header_def newline_def strip_cr_def)

lemma Report_to_csv_lines:
  "Report_to_csv pf r = concat (map writeln (csv_first_line # map (csv_row pf) (report_samples r)))"
proof -
  have flat: "concat (map (\<lambda>sec. concat (map (\<lambda>s. writeln (csv_row pf s)) (section_samples sec))) secs) =
      concat (map writeln (map (csv_row pf) (concat (map section_samples secs))))" for secs
    by (induction secs) (simp_all add: comp_def)
  show ?thesis unfolding Report_to_csv_def flat csv_first_line_def [symmetric] by simp
qed

lemma csv_lines:
  assumes "\<forall>s \<in> set (report_samples r). plain_label s"
  shows "drop 1 (lines (Report_to_csv pf r)) = map (csv_row pf) (report_samples r)"
proof -
  have "lines (Report_to_csv pf r) = csv_first_line # map (csv_row pf) (report_samples r)"
    unfolding Report_to_csv_lines
  proof (rule lines_writeln, rule ballI)
    fix x assume "x \<in> set (csv_first_line # map (csv_row pf) (report_samples r))"
    then consider "x = csv_first_line" | s where "s \<in> set (report_samples r)" "x = csv_row pf s" by auto
    then show "newline \<notin> set x \<and> strip_cr x = x"
      by cases (use assms csv_row_line [of _ pf] csv_header_line in blast)+
  qed
  then show ?thesis by simp
qed

text \<open>C26: What \<open>Report::to_csv\<close> writes, \<open>parse_csv\<close> reads back: for a report whose labels have no comma
  and no line break, the parsed map has exactly one entry per (label, regime) pair of a sample, with
  the p50, p99 and p99.99 of its last sample; nothing else is read.\<close>

theorem csv_round_trip:
  assumes "\<forall>s \<in> set (report_samples r). plain_label s"
  shows "map_of (parse_csv (Report_to_csv pf r)) =
    map_of (rev (map (\<lambda>s. (sample_key s, sample_row pf s)) (report_samples r)))"
  unfolding parse_csv_def csv_lines [OF assms] fold_parse_rows [OF assms] by simp

text \<open>A report with one scenario, used as an instance.\<close>

definition one_sample :: "string \<Rightarrow> u64 list Sample" where
  "one_sample l =
     \<lparr>hist = \<lparr>inner = [7, 9], label = l\<rparr>, arrival_model = BackToBack, stats = RunStats_default, sample_overloaded = False\<rparr>"

definition one_report :: "string \<Rightarrow> f64 RunEnv \<Rightarrow> u64 list Report" where
  "one_report l e = Report_section ''Latency'' [one_sample l] (Report_new e ''t'' ''s'')"

lemma one_report_samples: "report_samples (one_report l e) = [one_sample l]"
  by (simp add: one_report_def Report_section_def Report_new_def)

theorem csv_round_trip_witness:
  "\<forall>e. map_of (parse_csv (Report_to_csv list_platform (one_report ''match'' e))) =
    [(''match'', ''back_to_back'') \<mapsto> \<lparr>row_p50 = 9, row_p99 = 9, row_p99_99 = 9\<rparr>]"
proof
  fix e
  show "map_of (parse_csv (Report_to_csv list_platform (one_report ''match'' e))) =
      [(''match'', ''back_to_back'') \<mapsto> \<lparr>row_p50 = 9, row_p99 = 9, row_p99_99 = 9\<rparr>]"
    using csv_round_trip [of "one_report ''match'' e" list_platform]
    by (simp add: one_report_samples one_sample_def plain_label_def newline_def sample_key_def sample_row_def
        regime_tag_def Histogram_p50_def Histogram_p99_def Histogram_p99_99_def list_platform_def)
qed

text \<open>Without that condition the columns shift: a label with one comma is read as the scenario named
  by its first half, whose p50 is the minimum of the run, whose p99 is the median and whose p99.99 is
  the p99.\<close>

theorem csv_comma_shifts_columns:
  assumes "label (hist s) = a @ '','' @ b" and "CHR '','' \<notin> set a" and "CHR '','' \<notin> set b"
  shows "parse_csv_line (csv_row pf s) =
    Some ((a, regime_tag (arrival_model s)),
      \<lparr>row_p50 = hdr_min pf (inner (hist s)), row_p99 = Histogram_p50 pf (hist s), row_p99_99 = Histogram_p99 pf (hist s)\<rparr>)"
proof -
  let ?fs = "take 1 (csv_fields pf s) @ [a, b] @ drop 2 (csv_fields pf s)"
  have "csv_row pf s = join '','' ?fs" using assms(1) by (simp add: csv_row_def csv_fields_def render_csv_def)
  moreover have "\<forall>f \<in> set ?fs. CHR '','' \<notin> set f"
    using assms(2,3) by (simp add: csv_fields_def regime_tag_plain f64_fmt_plain)
  ultimately have "split_on CHR '','' (csv_row pf s) = ?fs" using split_on_join [of ?fs "CHR '',''"] by simp
  moreover have "trim (csv_row pf s) \<noteq> []"
    by (rule trim_nonempty [of "CHR '',''"]) (simp_all add: csv_row_def is_ws_def)
  ultimately show ?thesis by (simp add: parse_csv_line_def csv_fields_def parse_u64_show)
qed

theorem csv_comma_shifts_columns_witness:
  "parse_csv_line (csv_row list_platform (one_sample ''a,b'')) =
     Some ((''a'', ''back_to_back''), \<lparr>row_p50 = 7, row_p99 = 9, row_p99_99 = 9\<rparr>)"
  using csv_comma_shifts_columns [of "one_sample ''a,b''" "''a''" "''b''" list_platform]
  by (simp add: one_sample_def regime_tag_def Histogram_p50_def Histogram_p99_def list_platform_def)

section \<open>The suite\<close>

lemma bench_arrival:
  "bench p pf tpn l it s prepare op w = Inr (sample, s', w') \<Longrightarrow> arrival_model sample = BackToBack \<and> \<not> sample_overloaded sample"
  by (auto simp: bench_def rbind_eq_Inr)

lemma obind_eq: "obind m f = Some (Inr y) \<longleftrightarrow> (\<exists>x. m = Some (Inr x) \<and> f x = Some (Inr y))"
  by (auto simp: obind_def split: option.splits sum.splits)

lemma open_loop_arrival:
  "bench_open_loop p pf tpn l it iv s prepare op w = Some (Inr (sample, s', w')) \<Longrightarrow> arrival_model sample = OpenLoop iv"
  by (auto simp: bench_open_loop_def obind_eq Let_def case_prod_unfold)

text \<open>How a caller uses a suite. The closures of a scenario are arbitrary; the types of their state and
  input are parameters.\<close>

inductive suite_reach ::
    "'s itself \<Rightarrow> 'i itself \<Rightarrow> profile \<Rightarrow> ('w, 'h) platform \<Rightarrow> 'h BenchmarkSuite \<Rightarrow> bool"
  for S :: "'s itself" and I :: "'i itself" and p :: profile and pf :: "('w, 'h) platform" where
  new: "suite_reach S I p pf (BenchmarkSuite_new h tpn name)"
| intent: "suite_reach S I p pf su \<Longrightarrow> suite_reach S I p pf (set_intent i su)"
| iters: "suite_reach S I p pf su \<Longrightarrow> suite_reach S I p pf (set_iters it su)"
| rate: "suite_reach S I p pf su \<Longrightarrow> suite_reach S I p pf (at_rate n su)"
| scenario: "suite_reach S I p pf su \<Longrightarrow>
    run_scenario p pf l (s :: 's) op su w = Some (Inr (su', s', w')) \<Longrightarrow> suite_reach S I p pf su'"
| scenario_with: "suite_reach S I p pf su \<Longrightarrow>
    run_scenario_with p pf l (s :: 's) (prepare :: 's \<Rightarrow> usize \<Rightarrow> 'w \<Rightarrow> 'i \<times> 's \<times> 'w) op su w = Some (Inr (su', s', w')) \<Longrightarrow>
    suite_reach S I p pf su'"

definition suite_inv :: "'h BenchmarkSuite \<Rightarrow> bool" where
  "suite_inv su \<longleftrightarrow>
     list_all (\<lambda>s. arrival_model s = BackToBack \<and> \<not> sample_overloaded s) (suite_samples su)
     \<and> list_all (\<lambda>s. arrival_model s \<noteq> BackToBack) (suite_load_samples su)"

lemma suite_inv_push:
  "suite_inv su \<Longrightarrow> arrival_model x = BackToBack \<Longrightarrow> \<not> sample_overloaded x \<Longrightarrow>
     suite_inv (su\<lparr>suite_samples := suite_samples su @ [x]\<rparr>)"
  "suite_inv su \<Longrightarrow> arrival_model x = OpenLoop iv \<Longrightarrow>
     suite_inv (su\<lparr>suite_load_samples := suite_load_samples su @ [x]\<rparr>)"
  by (simp_all add: suite_inv_def)

text \<open>Both kinds of scenario are a latency pass followed by a load pass.\<close>

lemma run_scenario_inv:
  assumes "run_scenario_with p pf l s prepare op su w = Some (Inr (su', s', w'))" and "suite_inv su"
  shows "suite_inv su'"
proof -
  obtain su1 s1 w1 where 1: "(if intent_latency (suite_intent su)
        then obind (Some (bench p pf (suite_runner su) l (suite_iters su) s prepare op w)) (\<lambda>(sample, s, w).
          Some (Inr (su\<lparr>suite_samples := suite_samples su @ [sample]\<rparr>, s, w)))
        else Some (Inr (su, s, w))) = Some (Inr (su1, s1, w1))"
    and 2: "(if intent_latency_under_load (suite_intent su1)
      then obind (bench_open_loop p pf (suite_runner su1) (l @ ''@load'') (suite_iters su1) (suite_interval_ns su1) s1 prepare op w1)
        (\<lambda>(sample, s, w). Some (Inr (su1\<lparr>suite_load_samples := suite_load_samples su1 @ [sample]\<rparr>, s, w)))
      else Some (Inr (su1, s1, w1))) = Some (Inr (su', s', w'))"
    using assms(1) unfolding run_scenario_with_def obind_eq [of "if _ then _ else _"] by auto
  have "suite_inv su1" using 1 assms(2)
    by (auto simp: obind_eq intro!: suite_inv_push(1) dest!: bench_arrival split: if_splits)
  then show ?thesis using 2 by (auto simp: obind_eq intro!: suite_inv_push(2) dest!: open_loop_arrival split: if_splits)
qed

lemma run_scenario_is_with:
  "run_scenario p pf l s op su w = run_scenario_with p pf l s (\<lambda>s i w. ((), s, w)) (\<lambda>s _ w. op s w) su w"
  by (simp add: run_scenario_def run_scenario_with_def bench_static_def)

lemma suite_reach_inv: "suite_reach S I p pf su \<Longrightarrow> suite_inv su"
proof (induction rule: suite_reach.induct)
  case (new h tpn name)
  show ?case by (simp add: suite_inv_def BenchmarkSuite_new_def)
next
  case (scenario su l s op w su' s' w')
  then show ?case unfolding run_scenario_is_with by (blast intro: run_scenario_inv)
next
  case (scenario_with su l s prepare op w su' s' w')
  then show ?case by (blast intro: run_scenario_inv)
qed (simp_all add: suite_inv_def set_intent_def set_iters_def at_rate_def)

lemma stamp_back_to_back:
  "list_all (\<lambda>s. arrival_model s = BackToBack \<and> \<not> sample_overloaded s) ss \<Longrightarrow> ss \<noteq> [] \<Longrightarrow>
   measured_under \<lparr>section_title = t, section_samples = ss\<rparr> = ''measured under: back-to-back (service time)''"
  by (cases ss) (auto simp: measured_under_def Let_def list_all_iff)

text \<open>However a suite is configured and whatever scenarios run, its two result lists never mix
  regimes: the latency samples are all back-to-back and never overloaded, so their report section is
  stamped as service time without a warning, and the load samples are all open-loop.\<close>

theorem suite_regimes_separate:
  assumes "suite_reach S I p pf su"
  shows "list_all (\<lambda>s. regime_tag (arrival_model s) = ''back_to_back'') (suite_samples su)
    \<and> list_all (\<lambda>s. regime_tag (arrival_model s) = ''open_loop'') (suite_load_samples su)
    \<and> list_all (\<lambda>sec. section_title sec = ''Latency (back-to-back)'' \<and>
          measured_under sec = ''measured under: back-to-back (service time)''
        \<or> section_title sec = ''Latency under load (open-loop, CO-corrected)'' \<and> section_samples sec = suite_load_samples su)
      (report_sections (suite_report su))"
proof -
  have inv: "suite_inv su" by (rule suite_reach_inv [OF assms])
  then have "list_all (\<lambda>s. regime_tag (arrival_model s) = ''back_to_back'') (suite_samples su)"
    by (auto simp: suite_inv_def list_all_iff regime_tag_def)
  moreover have "list_all (\<lambda>s. regime_tag (arrival_model s) = ''open_loop'') (suite_load_samples su)"
    using inv by (auto simp: suite_inv_def list_all_iff regime_tag_def split: ArrivalModel.splits)
  moreover have "suite_samples su \<noteq> [] \<Longrightarrow> measured_under \<lparr>section_title = t, section_samples = suite_samples su\<rparr>
      = ''measured under: back-to-back (service time)''" for t
    using inv by (intro stamp_back_to_back) (auto simp: suite_inv_def)
  ultimately show ?thesis
    by (auto simp: suite_report_def Let_def Report_section_def Report_new_def)
qed

theorem suite_regimes_separate_witness:
  "\<exists>su. suite_reach TYPE(nat) TYPE(nat) Release list_platform su
    \<and> list_all (\<lambda>s. regime_tag (arrival_model s) = ''back_to_back'') (suite_samples su)
    \<and> list_all (\<lambda>s. regime_tag (arrival_model s) = ''open_loop'') (suite_load_samples su)
    \<and> list_all (\<lambda>sec. section_title sec = ''Latency (back-to-back)'' \<and>
          measured_under sec = ''measured under: back-to-back (service time)''
        \<or> section_title sec = ''Latency under load (open-loop, CO-corrected)'' \<and> section_samples sec = suite_load_samples su)
      (report_sections (suite_report su))"
proof -
  have "suite_reach TYPE(nat) TYPE(nat) Release list_platform
      (at_rate 1000000 (set_intent (with_load MeasurementIntent_LATENCY) (BenchmarkSuite_new
        \<lparr>h_file = (\<lambda>_. None), h_git_rev_parse = None, h_git_status = None, h_unix_secs = 0, h_rustc = ''rustc'',
          h_rustflags = [], h_debug_assertions = False\<rparr> (Fin 3) ''suite'')))"
    by (intro suite_reach.rate suite_reach.intent suite_reach.new)
  with suite_regimes_separate [OF this] show ?thesis by blast
qed

section \<open>File names of the distributions\<close>

text \<open>Labels that differ only in punctuation name the same file, and the later one stays.\<close>

lemma sanitize_collides:
  "sanitize ''match-1'' = sanitize ''match 1'' \<and> sanitize ''match-1'' = ''match_1''"
  by (simp add: sanitize_def is_alphanumeric_def is_digit_def)

end
