(* ===== verification/Xtask.thy ===== *)
theory Xtask
  imports Bench_Report
begin

text \<open>
  \<open>xtask/src/main.rs\<close>: the runner that maps a measuring intent to cargo, perf and gnuplot
  invocations.

  A run of the tool is a log of actions: processes started and changes to the file system. What an
  action and every observation of the outside gives may depend on all actions before it; the record
  \<open>shell\<close> holds these answers. A function of the source is a state transformer of the log that ends
  with an error message or a value. Progress lines on standard error are not kept.
\<close>

section \<open>The outside world\<close>

record command =
  cmd_program :: string
  cmd_args :: "string list"
  cmd_env :: "(string \<times> string) list"
  cmd_dir :: "string option"

datatype action = Run command | Fs fs_op

text \<open>A command cannot be started (with the reason), or ends with an exit code (none when a signal
  ended it), its standard output and its standard error.\<close>

datatype outcome = SpawnError string | Exited "int option" string string

record shell =
  sh_outcome :: "action list \<Rightarrow> command \<Rightarrow> outcome"
  sh_fs :: "action list \<Rightarrow> fs_op \<Rightarrow> string option"
  sh_file :: "action list \<Rightarrow> string \<Rightarrow> string option"
  sh_dir :: "action list \<Rightarrow> string \<Rightarrow> string list option"
  sh_exists :: "action list \<Rightarrow> string \<Rightarrow> bool"
  sh_pipe_error :: "action list \<Rightarrow> string option"
  sh_read_error :: "action list \<Rightarrow> string option"
  sh_env :: "string \<Rightarrow> string option"
  sh_cwd :: "string list option"
  sh_temp_dir :: string
  sh_pid :: u32
  sh_host :: host

type_synonym 'a act = "action list \<Rightarrow> (string + 'a) \<times> action list"

definition ok :: "'a \<Rightarrow> 'a act" where
  "ok x = (\<lambda>l. (Inr x, l))"

definition err :: "string \<Rightarrow> 'a act" where
  "err e = (\<lambda>l. (Inl e, l))"

definition abind :: "'a act \<Rightarrow> ('a \<Rightarrow> 'b act) \<Rightarrow> 'b act" where
  "abind m f = (\<lambda>l. case m l of (Inl e, l') \<Rightarrow> (Inl e, l') | (Inr x, l') \<Rightarrow> f x l')"

definition guard_that :: "bool \<Rightarrow> string \<Rightarrow> unit act" where
  "guard_that c e = (if c then ok () else err e)"

definition observe :: "(action list \<Rightarrow> 'a) \<Rightarrow> 'a act" where
  "observe f = (\<lambda>l. (Inr (f l), l))"

definition map_err :: "(string \<Rightarrow> string) \<Rightarrow> 'a act \<Rightarrow> 'a act" where
  "map_err g m = (\<lambda>l. case m l of (Inl e, l') \<Rightarrow> (Inl (g e), l') | r \<Rightarrow> r)"

fun for_each :: "('i \<Rightarrow> unit act) \<Rightarrow> 'i list \<Rightarrow> unit act" where
  "for_each f [] = ok ()"
| "for_each f (x # xs) = abind (f x) (\<lambda>_. for_each f xs)"

definition run_command :: "shell \<Rightarrow> command \<Rightarrow> outcome act" where
  "run_command sh c = (\<lambda>l. (Inr (sh_outcome sh l c), l @ [Run c]))"

definition fs_change :: "shell \<Rightarrow> fs_op \<Rightarrow> string option act" where
  "fs_change sh a = (\<lambda>l. (Inr (sh_fs sh l a), l @ [Fs a]))"

definition cmd :: "string \<Rightarrow> string list \<Rightarrow> command" where
  "cmd p args = \<lparr>cmd_program = p, cmd_args = args, cmd_env = [], cmd_dir = None\<rparr>"

text \<open>\<open>{:?}\<close> of an \<open>Option<i32>\<close>.\<close>

definition show_code :: "int option \<Rightarrow> string" where
  "show_code c = (case c of None \<Rightarrow> ''None'' | Some n \<Rightarrow> ''Some('' @ show_int n @ '')'')"

section \<open>The registered crates\<close>

definition BENCH_CRATES :: "(string \<times> string) list" where
  "BENCH_CRATES =
     [(''arena'', ''arena_bench''), (''orderbook'', ''orderbook_bench''), (''matcher'', ''matcher_bench''),
      (''ipc'', ''self_latency'')]"

definition latency_bench :: "string \<Rightarrow> string option" where
  "latency_bench krate = map_option snd (List.find (\<lambda>(k, _). k = krate) BENCH_CRATES)"

definition bench_crate_list :: string where
  "bench_crate_list = join '', '' (map fst BENCH_CRATES)"

definition IAI_CRATES :: "string list" where
  "IAI_CRATES = [''matcher'']"

definition ALLOC_CRATES :: "string list" where
  "ALLOC_CRATES = [''matcher'', ''ipc'']"

definition lat_core :: "shell \<Rightarrow> string" where
  "lat_core sh = unwrap_or (sh_env sh ''LAT_CORE'') ''2''"

definition perf_core :: "shell \<Rightarrow> string" where
  "perf_core sh = unwrap_or (sh_env sh ''PERF_CORE'') ''3''"

section \<open>Argument parsing\<close>

record Opts =
  opt_krate :: "string option"
  opt_all_crates :: bool
  opt_intents :: "string list"
  opt_flamegraph :: bool

definition measuring_intents :: "string list" where
  "measuring_intents = [''latency'', ''cache'', ''alloc'', ''perfstat'', ''plots'']"

text \<open>One element of a comma-separated \<open>--intent\<close> list. The set of intents is a list without
  duplicates.\<close>

definition parse_intent :: "string \<Rightarrow> Opts \<Rightarrow> string + Opts" where
  "parse_intent part o1 =
     (let p = trim part in
      if p \<in> set measuring_intents then Inr (o1\<lparr>opt_intents := List.insert p (opt_intents o1)\<rparr>)
      else if p = ''flamegraph'' then Inr (o1\<lparr>opt_flamegraph := True\<rparr>)
      else if p = [] then Inr o1
      else Inl (''unknown intent `'' @ p @ ''` (latency|cache|alloc|perfstat|plots|flamegraph)''))"

fun parse_intents :: "string list \<Rightarrow> Opts \<Rightarrow> string + Opts" where
  "parse_intents [] o1 = Inr o1"
| "parse_intents (part # parts) o1 =
     (case parse_intent part o1 of Inl e \<Rightarrow> Inl e | Inr o2 \<Rightarrow> parse_intents parts o2)"

fun parse_args :: "string list \<Rightarrow> Opts \<Rightarrow> string + Opts" where
  "parse_args [] o1 = Inr o1"
| "parse_args (a # rest) o1 =
     (if a = ''--crate'' then
        (case rest of
           [] \<Rightarrow> Inl ''--crate needs a value''
         | c # rest' \<Rightarrow>
             if latency_bench c = None then Inl (''unknown crate `'' @ c @ ''`; known: '' @ bench_crate_list)
             else parse_args rest' (o1\<lparr>opt_krate := Some c\<rparr>))
      else if a = ''--all-crates'' then parse_args rest (o1\<lparr>opt_all_crates := True\<rparr>)
      else if a = ''--intent'' then
        (case rest of
           [] \<Rightarrow> Inl ''--intent needs a value''
         | v # rest' \<Rightarrow>
             (case parse_intents (split_on CHR '','' v) o1 of Inl e \<Rightarrow> Inl e | Inr o2 \<Rightarrow> parse_args rest' o2))
      else if a = ''--flamegraph'' then parse_args rest (o1\<lparr>opt_flamegraph := True\<rparr>)
      else Inl (''unknown argument `'' @ a @ ''` (try --help)''))"

definition parse :: "string list \<Rightarrow> string + Opts" where
  "parse args =
     (case parse_args args \<lparr>opt_krate = None, opt_all_crates = False, opt_intents = [], opt_flamegraph = False\<rparr> of
        Inl e \<Rightarrow> Inl e
      | Inr o1 \<Rightarrow>
          Inr (if opt_intents o1 = [] \<and> \<not> opt_flamegraph o1 then o1\<lparr>opt_intents := [''latency'']\<rparr> else o1))"

section \<open>Processes\<close>

definition tool_present :: "shell \<Rightarrow> string \<Rightarrow> bool act" where
  "tool_present sh tool =
     abind (run_command sh (cmd ''sh'' [''-c'', ''command -v '' @ tool])) (\<lambda>r.
       ok (case r of Exited c _ _ \<Rightarrow> c = Some 0 | SpawnError _ \<Rightarrow> False))"

definition status_run :: "shell \<Rightarrow> command \<Rightarrow> unit act" where
  "status_run sh c =
     abind (run_command sh c) (\<lambda>r. case r of
        SpawnError e \<Rightarrow> err (''spawn: '' @ e)
      | Exited code _ _ \<Rightarrow> guard_that (code = Some 0) (''exit '' @ show_code code))"

definition tee_run :: "shell \<Rightarrow> command \<Rightarrow> string \<Rightarrow> unit act" where
  "tee_run sh c txt =
     abind (observe (sh_pipe_error sh)) (\<lambda>pe. case pe of
        Some e \<Rightarrow> err (''pipe: '' @ e)
      | None \<Rightarrow>
          abind (run_command sh c) (\<lambda>r. case r of
             SpawnError e \<Rightarrow> err (''spawn: '' @ e)
           | Exited code out _ \<Rightarrow>
               abind (observe (sh_read_error sh)) (\<lambda>re. case re of
                  Some e \<Rightarrow> err e
                | None \<Rightarrow>
                    abind (fs_change sh (WriteFile txt out)) (\<lambda>w. case w of
                       Some e \<Rightarrow> err (''write '' @ txt @ '': '' @ e)
                     | None \<Rightarrow> guard_that (code = Some 0) (''exit '' @ show_code code)))))"

text \<open>The last quoted executable in cargo's JSON messages.\<close>

definition exe_marker :: string where
  "exe_marker = [CHR 0x22] @ ''executable'' @ [CHR 0x22] @ '':'' @ [CHR 0x22]"

definition exe_of_line :: "string \<Rightarrow> string option" where
  "exe_of_line line =
     (case find_sub exe_marker line of
        None \<Rightarrow> None
      | Some i \<Rightarrow> (let rest = drop (i + length exe_marker) line in
          map_option (\<lambda>j. take j rest) (find_sub [CHR 0x22] rest)))"

definition last_exe :: "string \<Rightarrow> string option" where
  "last_exe out = fold (\<lambda>line exe. case exe_of_line line of Some e \<Rightarrow> Some e | None \<Rightarrow> exe) (lines out) None"

definition cargo_executable :: "shell \<Rightarrow> string list \<Rightarrow> string act" where
  "cargo_executable sh args =
     abind (run_command sh (cmd ''cargo'' (args @ [''--message-format=json'']))) (\<lambda>r. case r of
        SpawnError e \<Rightarrow> err (''failed to spawn cargo: '' @ e)
      | Exited code out _ \<Rightarrow>
          abind (guard_that (code = Some 0) (''`cargo '' @ join '' '' args @ ''` failed'')) (\<lambda>_.
            case last_exe out of
              None \<Rightarrow> err (''no executable in cargo'' @ [CHR 0x27] @ ''s JSON output for `cargo '' @ join '' '' args @ ''`'')
            | Some exe \<Rightarrow> ok exe))"

definition build_bench_binary :: "shell \<Rightarrow> string \<Rightarrow> string \<Rightarrow> string act" where
  "build_bench_binary sh krate target = cargo_executable sh [''bench'', ''-p'', krate, ''--bench'', target, ''--no-run'']"

definition bench_command :: "string \<Rightarrow> string \<Rightarrow> string list \<Rightarrow> command" where
  "bench_command krate target extra = cmd ''cargo'' ([''bench'', ''-p'', krate, ''--bench'', target] @ extra)"

definition cargo_bench :: "shell \<Rightarrow> string \<Rightarrow> string \<Rightarrow> string list \<Rightarrow> unit act" where
  "cargo_bench sh krate target extra =
     abind (run_command sh (bench_command krate target extra)) (\<lambda>r. case r of
        SpawnError e \<Rightarrow> err (''failed to spawn cargo: '' @ e)
      | Exited code _ _ \<Rightarrow>
          guard_that (code = Some 0) (''['' @ krate @ ''] `'' @ target @ ''` failed (exit '' @ show_code code @ '')''))"

section \<open>Regimes\<close>

definition need_bench :: "string \<Rightarrow> string act" where
  "need_bench krate =
     (case latency_bench krate of
        None \<Rightarrow> err (''['' @ krate @ ''] no latency bench registered in BENCH_CRATES'')
      | Some b \<Rightarrow> ok b)"

definition run_latency :: "shell \<Rightarrow> string \<Rightarrow> unit act" where
  "run_latency sh krate = abind (need_bench krate) (\<lambda>b. cargo_bench sh krate b [])"

definition run_cache :: "shell \<Rightarrow> string \<Rightarrow> unit act" where
  "run_cache sh krate =
     (if krate \<notin> set IAI_CRATES then ok () else cargo_bench sh krate (krate @ ''_iai'') [''--features'', ''iai''])"

definition alloc_command :: "string \<Rightarrow> command" where
  "alloc_command krate = cmd ''cargo'' [''run'', ''--release'', ''--example'', ''alloc_proof'', ''-p'', krate]"

definition run_alloc :: "shell \<Rightarrow> string \<Rightarrow> unit act" where
  "run_alloc sh krate =
     (if krate \<notin> set ALLOC_CRATES then ok ()
      else abind (run_command sh (alloc_command krate)) (\<lambda>r. case r of
          SpawnError e \<Rightarrow> err (''failed to spawn cargo: '' @ e)
        | Exited code _ _ \<Rightarrow>
            guard_that (code = Some 0) (''['' @ krate @ ''] alloc_proof failed (exit '' @ show_code code @ '')'')))"

text \<open>\<open>i64::from_str\<close>.\<close>

definition parse_i64 :: "string \<Rightarrow> int option" where
  "parse_i64 s =
     (case s of
        [] \<Rightarrow> None
      | c # cs \<Rightarrow>
          if c = CHR ''-''
          then if cs = [] \<or> \<not> list_all is_digit cs \<or> 2 ^ 63 < read_digits cs then None else Some (- int (read_digits cs))
          else map_option int (parse_uint (2 ^ 63) s))"

definition check_paranoid :: "shell \<Rightarrow> unit act" where
  "check_paranoid sh =
     abind (observe (\<lambda>l. sh_file sh l ''/proc/sys/kernel/perf_event_paranoid'')) (\<lambda>f.
       let paranoid = unwrap_or (Option.bind f (\<lambda>s. parse_i64 (trim s))) 0 in
       guard_that (paranoid \<le> 2)
         (''kernel.perf_event_paranoid='' @ show_int paranoid @ '' (>2) blocks unprivileged perf counters.'' @ [newline] @
          ''fix now:  sudo sysctl kernel.perf_event_paranoid=1'' @ [newline] @
          ''persist:  echo '' @ quoted ''kernel.perf_event_paranoid = 1'' @ '' | sudo tee /etc/sysctl.d/99-perf.conf''))"

definition perf_command :: "string \<Rightarrow> string \<Rightarrow> string \<Rightarrow> command" where
  "perf_command scratch core bin =
     \<lparr>cmd_program = ''perf'',
      cmd_args = [''stat'', ''-e'', ''task-clock,cycles,instructions,branches,branch-misses'', ''-e'',
        ''cache-references,cache-misses'', ''-d'', ''-d'', ''--'', ''taskset'', ''-c'', core, bin],
      cmd_env = [(''BENCH_OUT_DIR'', scratch)], cmd_dir = None\<rparr>"

text \<open>The measured process; its scratch directory is removed whatever it returns.\<close>

definition perf_pass :: "shell \<Rightarrow> string \<Rightarrow> string option \<Rightarrow> command \<Rightarrow> string \<Rightarrow> unit act" where
  "perf_pass sh krate tee c scratch = (\<lambda>l.
     let (result, l1) = (case tee of Some txt \<Rightarrow> tee_run sh c txt | None \<Rightarrow> status_run sh c) l;
         (_, l2) = fs_change sh (RemoveDirAll scratch) l1
     in (case result of Inl e \<Rightarrow> Inl (''['' @ krate @ ''] perf stat failed: '' @ e) | Inr _ \<Rightarrow> Inr (), l2))"

definition run_perfstat :: "shell \<Rightarrow> string \<Rightarrow> string option \<Rightarrow> unit act" where
  "run_perfstat sh krate tee =
     abind (need_bench krate) (\<lambda>bench.
     abind (check_paranoid sh) (\<lambda>_.
     abind (build_bench_binary sh krate bench) (\<lambda>bin.
     let scratch = sh_temp_dir sh @ ''/benchkit_perfstat_'' @ show_word (sh_pid sh) in
     abind (fs_change sh (CreateDirAll scratch)) (\<lambda>e. case e of
        Some e \<Rightarrow> err (''create scratch dir: '' @ e)
      | None \<Rightarrow> perf_pass sh krate tee (perf_command scratch (perf_core sh) bin) scratch))))"

definition bench_out_dir :: "shell \<Rightarrow> string" where
  "bench_out_dir sh = out_dir (sh_host sh) (sh_env sh ''BENCH_OUT_DIR'') (sh_cwd sh)"

definition is_plot_script :: "string \<Rightarrow> string \<Rightarrow> bool" where
  "is_plot_script krate n \<longleftrightarrow>
     ends_with ''.gnuplot'' n \<and> (n = krate @ ''.gnuplot'' \<or> starts_with (krate @ ''_'') n)"

definition run_plots :: "shell \<Rightarrow> string \<Rightarrow> unit act" where
  "run_plots sh krate =
     (let dir = bench_out_dir sh in
      abind (observe (\<lambda>l. sh_dir sh l dir)) (\<lambda>names.
        case List.find (is_plot_script krate) (unwrap_or names []) of
          None \<Rightarrow> err (''no gnuplot script for `'' @ krate @ ''` in '' @ dir @ '' '' @ em_dash @
            '' run a latency pass at this commit first (`cargo bench-all --crate '' @ krate @ ''`).'')
        | Some script_name \<Rightarrow>
            abind (run_command sh ((cmd ''gnuplot'' [script_name])\<lparr>cmd_dir := Some dir\<rparr>)) (\<lambda>r. case r of
               SpawnError e \<Rightarrow> err (''failed to spawn gnuplot: '' @ e)
             | Exited code _ _ \<Rightarrow>
                 guard_that (code = Some 0) (''['' @ krate @ ''] gnuplot failed (exit '' @ show_code code @ '')''))))"

definition run_flamegraph :: "shell \<Rightarrow> string \<Rightarrow> unit act" where
  "run_flamegraph sh krate =
     abind (need_bench krate) (\<lambda>bench.
     abind (run_command sh (bench_command krate bench [''--no-run''])) (\<lambda>r. case r of
        SpawnError e \<Rightarrow> err (''failed to spawn cargo: '' @ e)
      | Exited code _ _ \<Rightarrow>
          abind (guard_that (code = Some 0) (''['' @ krate @ ''] bench build for flamegraph failed'')) (\<lambda>_.
          abind (tool_present sh ''flamegraph.pl'') (\<lambda>t1.
          abind (if t1 then tool_present sh ''stackcollapse-perf.pl'' else ok False) (\<lambda>t2.
            guard_that t2 (''flamegraph scripts not found on PATH (need stackcollapse-perf.pl and flamegraph.pl). Install Brendan Gregg'' @
              [CHR 0x27] @ ''s FlameGraph and add it to PATH.''))))))"

section \<open>Numbers on the command line\<close>

definition to_lower :: "char \<Rightarrow> char" where
  "to_lower c = (if 65 \<le> (of_char c :: nat) \<and> (of_char c :: nat) \<le> 90 then char_of ((of_char c :: nat) + 32) else c)"

text \<open>\<open>f64::from_str\<close>: an optional sign, then a special value or digits with an optional fraction and
  an optional exponent.\<close>

definition strip_sign :: "string \<Rightarrow> bool \<times> string" where
  "strip_sign s =
     (case s of
        [] \<Rightarrow> (False, [])
      | c # cs \<Rightarrow> if c = CHR ''-'' then (True, cs) else if c = CHR ''+'' then (False, cs) else (False, s))"

definition parse_exponent :: "string \<Rightarrow> int option" where
  "parse_exponent r =
     (case r of
        [] \<Rightarrow> Some 0
      | c # cs \<Rightarrow>
          (let (neg, ds) = strip_sign cs in
           if to_lower c \<noteq> CHR ''e'' \<or> ds = [] \<or> \<not> list_all is_digit ds then None
           else Some (if neg then - int (read_digits ds) else int (read_digits ds))))"

definition scale10 :: "int \<Rightarrow> rat" where
  "scale10 e = (if 0 \<le> e then 10 ^ nat e else 1 / 10 ^ nat (- e))"

definition parse_f64 :: "string \<Rightarrow> f64 option" where
  "parse_f64 s =
     (let (neg, t) = strip_sign s; special = map to_lower t in
      if special = ''inf'' \<or> special = ''infinity'' then Some (f64_signed_inf neg)
      else if special = ''nan'' then Some NaN
      else let ip = takeWhile is_digit t; r1 = dropWhile is_digit t;
               (fp, r2) = (if r1 \<noteq> [] \<and> hd r1 = CHR ''.'' then (takeWhile is_digit (tl r1), dropWhile is_digit (tl r1))
                           else ([], r1)) in
        if ip = [] \<and> fp = [] then None
        else map_option (\<lambda>e.
            let v = f64_round (of_nat (read_digits (ip @ fp)) * scale10 (e - int (length fp)))
            in if neg then f64_neg v else v) (parse_exponent r2))"

section \<open>Capture mode\<close>

fun capture_args :: "string list \<Rightarrow> string option \<Rightarrow> string + string option" where
  "capture_args [] out = Inr out"
| "capture_args (a # rest) out =
     (if a = ''--out'' then
        (case rest of [] \<Rightarrow> Inl ''--out needs a value'' | d # rest' \<Rightarrow> capture_args rest' (Some d))
      else Inl (''unknown capture argument `'' @ a @ ''` (only --out <dir>)''))"

fun workspace_path_from :: "(string \<Rightarrow> string option) \<Rightarrow> string list \<Rightarrow> string \<Rightarrow> string" where
  "workspace_path_from file rev_dir rel =
     (if case file (abs_path (rev rev_dir @ [''Cargo.toml''])) of Some c \<Rightarrow> str_contains ''[workspace]'' c | None \<Rightarrow> False
      then (if rev_dir = [] then ''/'' else abs_path (rev rev_dir) @ ''/'') @ rel
      else case rev_dir of [] \<Rightarrow> rel | _ # up \<Rightarrow> workspace_path_from file up rel)"

text \<open>An unknown current directory is the empty path, where both outcomes of the walk are \<open>rel\<close>.\<close>

definition workspace_path :: "shell \<Rightarrow> string \<Rightarrow> string act" where
  "workspace_path sh rel =
     observe (\<lambda>l. case sh_cwd sh of None \<Rightarrow> rel | Some d \<Rightarrow> workspace_path_from (sh_file sh l) (rev d) rel)"

definition clock_probe :: "string \<Rightarrow> command" where
  "clock_probe core =
     cmd ''taskset'' [''-c'', core, ''perf'', ''stat'', ''-e'', ''cycles'', ''-x,'', ''--'', ''timeout'', ''1'', ''yes'']"

definition effective_clock_ghz :: "shell \<Rightarrow> string \<Rightarrow> f64 option act" where
  "effective_clock_ghz sh core =
     abind (run_command sh (clock_probe core)) (\<lambda>r. case r of
        SpawnError _ \<Rightarrow> ok None
      | Exited _ _ stderr \<Rightarrow>
          ok (Option.bind (List.find (str_contains '',cycles'') (lines stderr)) (\<lambda>l.
            map_option (\<lambda>cycles. f64_div cycles (Fin 1000000000)) (parse_f64 (trim (hd (split_on CHR '','' l)))))))"

definition shell_line :: "shell \<Rightarrow> string \<Rightarrow> string list \<Rightarrow> string act" where
  "shell_line sh c args =
     abind (run_command sh (cmd c args)) (\<lambda>r. case r of
        Exited code out _ \<Rightarrow> ok (if code = Some 0 then trim out else ''?'')
      | SpawnError _ \<Rightarrow> ok ''?'')"

definition core_line :: "host \<Rightarrow> string \<Rightarrow> string" where
  "core_line h core =
     (case parse_u32 core of
        None \<Rightarrow> []
      | Some n \<Rightarrow>
          (let p = CorePrep_detect h n;
               khz = (\<lambda>v. case v of None \<Rightarrow> ''?'' | Some k \<Rightarrow> show_word (k :: u64));
               sibs = (if cp_smt_siblings_online p = [] then ''none''
                       else join '','' (map (\<lambda>c. ''cpu'' @ show_word c) (cp_smt_siblings_online p)))
           in writeln (''cpu'' @ show_word n @ ''     : governor='' @ cp_governor p @ '' clock min='' @ khz (cp_clock_min_khz p) @
                '' max='' @ khz (cp_clock_max_khz p) @ '' kHz, online SMT siblings: '' @ sibs)))"

definition write_environment :: "shell \<Rightarrow> string \<Rightarrow> string \<Rightarrow> string \<Rightarrow> f64 option \<Rightarrow> unit act" where
  "write_environment sh dir lat perf eff =
     abind (shell_line sh ''date'' [''-u'', ''+%FT%TZ'']) (\<lambda>date.
     abind (run_command sh (cmd ''git'' [''status'', ''--porcelain'', ''--untracked-files=no''])) (\<lambda>st.
     let dirty = (case st of Exited c out _ \<Rightarrow> c = Some 0 \<and> out \<noteq> [] | SpawnError _ \<Rightarrow> False) in
     abind (shell_line sh ''git'' [''rev-parse'', ''--short'', ''HEAD'']) (\<lambda>rev.
     abind (shell_line sh ''uname'' [''-a'']) (\<lambda>uname.
     abind (shell_line sh ''lscpu'' []) (\<lambda>lscpu.
     let s = writeln (''# dex-core perf capture '' @ em_dash @ '' run-level provenance'') @
           writeln (''date_utc : '' @ date) @
           writeln (''git_rev  : '' @ rev @ (if dirty then '' (dirty)'' else [])) @
           writeln (''kernel   : '' @ uname) @
           writeln (''cores    : latency=cpu'' @ lat @ '' perf=cpu'' @ perf @ '' (cross_core self-pins 2,3)'') @
           core_line (sh_host sh) lat @ core_line (sh_host sh) perf @
           writeln (''clock_eff: '' @ (case eff of Some g \<Rightarrow> f64_fmt 2 g @ '' GHz'' | None \<Rightarrow> ''unmeasured'') @
             '' (1s busy-loop probe on cpu'' @ lat @ ''; the rate the benches actually ran at)'') @
           writeln ([newline] @ ''Per-bench commit/rustc/governor/clock/affinity are in each report'' @ [CHR 0x27] @ ''s header.'') @
           writeln ([newline] @ ''## lscpu'' @ [newline] @ lscpu)
     in abind (fs_change sh (WriteFile (dir @ ''/ENVIRONMENT.txt'') s)) (\<lambda>w. case w of
          Some e \<Rightarrow> err (''write ENVIRONMENT.txt: '' @ e)
        | None \<Rightarrow> ok ()))))))"

definition capture_latency :: "shell \<Rightarrow> string \<Rightarrow> string \<Rightarrow> string \<Rightarrow> string \<Rightarrow> unit act" where
  "capture_latency sh krate target core dir =
     abind (build_bench_binary sh krate target) (\<lambda>bin.
       tee_run sh ((cmd ''taskset'' [''-c'', core, bin])\<lparr>cmd_env := [(''BENCH_OUT_DIR'', dir)]\<rparr>)
         (dir @ ''/'' @ krate @ ''_latency.txt''))"

definition capture_cross_core :: "shell \<Rightarrow> string \<Rightarrow> unit act" where
  "capture_cross_core sh dir =
     abind (build_bench_binary sh ''ipc'' ''cross_core'') (\<lambda>bin.
       tee_run sh ((cmd bin [])\<lparr>cmd_env := [(''BENCH_OUT_DIR'', dir)]\<rparr>) (dir @ ''/ipc_cross_core.txt''))"

definition capture_iai :: "shell \<Rightarrow> string \<Rightarrow> unit act" where
  "capture_iai sh dir =
     tee_run sh (cmd ''cargo'' [''bench'', ''-p'', ''matcher'', ''--features'', ''iai'', ''--bench'', ''matcher_iai''])
       (dir @ ''/matcher_iai.txt'')"

definition capture_alloc :: "shell \<Rightarrow> string \<Rightarrow> string \<Rightarrow> unit act" where
  "capture_alloc sh krate dir =
     abind (cargo_executable sh [''build'', ''--release'', ''--example'', ''alloc_proof'', ''-p'', krate]) (\<lambda>bin.
       tee_run sh ((cmd bin [])\<lparr>cmd_env := [(''BENCH_OUT_DIR'', dir)]\<rparr>) (dir @ ''/'' @ krate @ ''_alloc.txt''))"

definition gnuplot_ok :: "shell \<Rightarrow> string \<Rightarrow> string list \<Rightarrow> bool act" where
  "gnuplot_ok sh dir args =
     abind (run_command sh ((cmd ''gnuplot'' args)\<lparr>cmd_dir := Some dir\<rparr>)) (\<lambda>r.
       ok (case r of Exited c _ _ \<Rightarrow> c = Some 0 | SpawnError _ \<Rightarrow> False))"

fun render_scripts :: "shell \<Rightarrow> string \<Rightarrow> string list \<Rightarrow> string list act" where
  "render_scripts sh dir [] = ok []"
| "render_scripts sh dir (n # ns) =
     abind (gnuplot_ok sh dir [n]) (\<lambda>good.
     abind (render_scripts sh dir ns) (\<lambda>failed. ok (if good then failed else n # failed)))"

definition cross_core_script :: string where
  "cross_core_script =
     ''set terminal svg size 1100,680 font '' @ quoted ''sans,11'' @ '' background '' @ quoted ''#ffffff'' @ ''; '' @
     ''set output '' @ quoted ''ipc_cross_core.svg'' @ ''; '' @
     ''set title '' @ quoted (''ipc cross-core hop '' @ em_dash @ '' latency by percentile'') @ ''; '' @
     ''set xlabel '' @ quoted ''Percentile'' @ ''; set ylabel '' @ quoted ''Latency (ns)'' @ ''; '' @
     ''set logscale x; set grid; set datafile commentschars '' @ quoted ''#'' @ ''; '' @
     ''set xtics ('' @ quoted ''p50'' @ '' 2, '' @ quoted ''p90'' @ '' 10, '' @ quoted ''p99'' @ '' 100, '' @ quoted ''p99.9'' @
     '' 1000, '' @ quoted ''p99.99'' @ '' 10000, '' @ quoted ''p99.999'' @ '' 100000); '' @
     ''plot '' @ quoted ''ipc_cross_core.hdr'' @ '' using 4:1 with lines lw 2 title '' @ quoted ''hop''"

definition render_plots_in :: "shell \<Rightarrow> string \<Rightarrow> unit act" where
  "render_plots_in sh dir =
     abind (observe (\<lambda>l. sh_dir sh l dir)) (\<lambda>entries. case entries of
        None \<Rightarrow> err (''read '' @ dir)
      | Some es \<Rightarrow>
          (let names = sort (filter (ends_with ''.gnuplot'') es) in
           abind (render_scripts sh dir names) (\<lambda>failed.
           abind (observe (\<lambda>l. sh_exists sh l (dir @ ''/ipc_cross_core.hdr''))) (\<lambda>ex.
           abind (if ex then gnuplot_ok sh dir [''-e'', cross_core_script] else ok True) (\<lambda>good.
           let failed = failed @ (if good then [] else [''ipc_cross_core (direct)'']) in
           abind (guard_that (failed = []) (''gnuplot failed for: '' @ join '', '' failed)) (\<lambda>_.
             guard_that (names \<noteq> []) ''no .gnuplot scripts found to render''))))))"

text \<open>The passes of a capture in their order; a failing pass is noted and the next one runs.\<close>

definition capture_steps :: "shell \<Rightarrow> string \<Rightarrow> (string \<times> unit act) list" where
  "capture_steps sh dir =
     map (\<lambda>(k, b). (''latency '' @ k, capture_latency sh k b (lat_core sh) dir)) BENCH_CRATES @
     [(''cross_core'', capture_cross_core sh dir), (''matcher_iai'', capture_iai sh dir)] @
     map (\<lambda>k. (''alloc '' @ k, capture_alloc sh k dir)) ALLOC_CRATES @
     map (\<lambda>k. (''perfstat '' @ k, run_perfstat sh k (Some (dir @ ''/'' @ k @ ''_perfstat.txt'')))) [''ipc'', ''matcher''] @
     [(''plots'', render_plots_in sh dir)]"

fun run_steps :: "(string \<times> unit act) list \<Rightarrow> string list act" where
  "run_steps [] = ok []"
| "run_steps ((name, m) # steps) = (\<lambda>l.
     case m l of (r, l') \<Rightarrow>
       abind (run_steps steps) (\<lambda>fails. ok (case r of Inl _ \<Rightarrow> name # fails | Inr _ \<Rightarrow> fails)) l')"

fun missing_tools :: "shell \<Rightarrow> string list \<Rightarrow> string list act" where
  "missing_tools sh [] = ok []"
| "missing_tools sh (t # ts) =
     abind (tool_present sh t) (\<lambda>p. abind (missing_tools sh ts) (\<lambda>ms. ok (if p then ms else t # ms)))"

definition clear_capture_dir :: "shell \<Rightarrow> string \<Rightarrow> unit act" where
  "clear_capture_dir sh dir =
     abind (observe (\<lambda>l. sh_exists sh l dir \<and> (case sh_dir sh l dir of Some es \<Rightarrow> es \<noteq> [] | None \<Rightarrow> False))) (\<lambda>nonempty.
     if nonempty
     then abind (fs_change sh (RemoveDirAll dir)) (\<lambda>e. case e of
         Some e \<Rightarrow> err (''clear '' @ dir @ '': '' @ e)
       | None \<Rightarrow> ok ())
     else ok ())"

definition run_capture :: "shell \<Rightarrow> string list \<Rightarrow> unit act" where
  "run_capture sh rest =
     (case capture_args rest None of
        Inl e \<Rightarrow> err e
      | Inr out \<Rightarrow>
          abind (case out of Some d \<Rightarrow> ok d | None \<Rightarrow> workspace_path sh (''docs/perf/'' @ run_id (sh_host sh))) (\<lambda>dir.
          abind (missing_tools sh [''perf'', ''valgrind'', ''gnuplot'', ''taskset'']) (\<lambda>missing.
          abind (guard_that (missing = []) (''capture needs '' @ join '', '' missing @ '' on PATH'')) (\<lambda>_.
          abind (check_paranoid sh) (\<lambda>_.
          abind (clear_capture_dir sh dir) (\<lambda>_.
          abind (fs_change sh (CreateDirAll dir)) (\<lambda>e. case e of
             Some e \<Rightarrow> err (''create '' @ dir @ '': '' @ e)
           | None \<Rightarrow>
               abind (effective_clock_ghz sh (lat_core sh)) (\<lambda>eff.
               abind (write_environment sh dir (lat_core sh) (perf_core sh) eff) (\<lambda>_.
               abind (run_steps (capture_steps sh dir)) (\<lambda>fails.
                 guard_that (fails = []) (''capture INCOMPLETE '' @ em_dash @ '' failed: '' @ join '', '' fails)))))))))))"

section \<open>Compare mode and the entry point\<close>

fun compare_args :: "string list \<Rightarrow> string list \<Rightarrow> f64 \<Rightarrow> string + string list \<times> f64" where
  "compare_args [] positional noise = Inr (positional, noise)"
| "compare_args (a # rest) positional noise =
     (if a = ''--noise'' then
        (case rest of
           [] \<Rightarrow> Inl ''--noise needs a value''
         | v # rest' \<Rightarrow>
             (case parse_f64 v of
                None \<Rightarrow> Inl (''bad --noise value: '' @ v)
              | Some n \<Rightarrow> compare_args rest' positional n))
      else compare_args rest (positional @ [a]) noise)"

definition run_compare :: "shell \<Rightarrow> string list \<Rightarrow> unit act" where
  "run_compare sh rest =
     (case compare_args rest [] (Fin 5) of
        Inl e \<Rightarrow> err e
      | Inr (positional, noise) \<Rightarrow>
          (case positional of
             [base, cur] \<Rightarrow>
               abind (for_each (\<lambda>p. abind (observe (\<lambda>l. sh_exists sh l p)) (\<lambda>ex.
                 guard_that ex (''csv not found: '' @ p))) [base, cur]) (\<lambda>_.
               abind (observe (\<lambda>l. (sh_file sh l base, sh_file sh l cur))) (\<lambda>files. case files of
                  (Some b, Some c) \<Rightarrow>
                    guard_that (\<not> any_regressed (from_strings b c noise))
                      ''one or more scenarios regressed beyond the noise band''
                | _ \<Rightarrow> err ''compare failed''))
           | _ \<Rightarrow> err ''--compare needs exactly two CSV paths: BASELINE CURRENT''))"

definition selected_crates :: "Opts \<Rightarrow> string list" where
  "selected_crates opts =
     (if opt_all_crates opts then map fst BENCH_CRATES
      else case opt_krate opts of Some c \<Rightarrow> [c] | None \<Rightarrow> map fst BENCH_CRATES)"

definition require_tool :: "shell \<Rightarrow> bool \<Rightarrow> string \<Rightarrow> string \<Rightarrow> unit act" where
  "require_tool sh needed tool msg =
     (if needed then abind (tool_present sh tool) (\<lambda>p. guard_that p msg) else ok ())"

definition verify_tools :: "shell \<Rightarrow> Opts \<Rightarrow> unit act" where
  "verify_tools sh opts =
     abind (require_tool sh (''cache'' \<in> set (opt_intents opts)) ''valgrind''
       ''cache regime requested but `valgrind` is not on PATH. Install valgrind (and `cargo install iai-callgrind-runner`) or drop `cache` from --intent.'') (\<lambda>_.
     abind (require_tool sh (''perfstat'' \<in> set (opt_intents opts)) ''perf''
       ''perfstat regime requested but `perf` is not on PATH.'') (\<lambda>_.
     abind (require_tool sh (''plots'' \<in> set (opt_intents opts)) ''gnuplot''
       ''plots regime requested but `gnuplot` is not on PATH.'') (\<lambda>_.
     require_tool sh (opt_flamegraph opts) ''perf'' ''--flamegraph requested but `perf` is not on PATH.'')))"

definition run_crate :: "shell \<Rightarrow> Opts \<Rightarrow> string \<Rightarrow> unit act" where
  "run_crate sh opts krate =
     for_each (\<lambda>(requested, m). if requested then m else ok ())
       [(''latency'' \<in> set (opt_intents opts), run_latency sh krate),
        (''cache'' \<in> set (opt_intents opts), run_cache sh krate),
        (''alloc'' \<in> set (opt_intents opts), run_alloc sh krate),
        (''perfstat'' \<in> set (opt_intents opts), run_perfstat sh krate None),
        (''plots'' \<in> set (opt_intents opts), run_plots sh krate),
        (opt_flamegraph opts, run_flamegraph sh krate)]"

definition run :: "shell \<Rightarrow> string list \<Rightarrow> unit act" where
  "run sh args =
     (if args \<noteq> [] \<and> hd args = ''capture'' then run_capture sh (tl args)
      else if ''--compare'' \<in> set args then run_compare sh (tl (dropWhile (\<lambda>a. a \<noteq> ''--compare'') args))
      else if ''-h'' \<in> set args \<or> ''--help'' \<in> set args then ok ()
      else case parse args of
          Inl e \<Rightarrow> err e
        | Inr opts \<Rightarrow>
            abind (verify_tools sh opts) (\<lambda>_. for_each (run_crate sh opts) (selected_crates opts)))"

text \<open>\<open>main\<close>: a single leading separator is dropped; the exit code is 1 for an error.\<close>

definition xtask_main :: "shell \<Rightarrow> string list \<Rightarrow> int \<times> action list" where
  "xtask_main sh raw =
     (let args = (if raw \<noteq> [] \<and> hd raw = ''--'' then tl raw else raw)
      in case run sh args [] of (Inl _, l) \<Rightarrow> (1, l) | (Inr _, l) \<Rightarrow> (0, l))"

end
