(* ===== verification/Xtask_Props.thy ===== *)
theory Xtask_Props
  imports Xtask
begin

text \<open>
  Properties of the orchestrator: missing valgrind, perf or gnuplot stops the run before anything is
  measured, a missing FlameGraph script stops it late, and a run that reports success has really run,
  successfully, the commands of every requested regime that the selected crates support.
\<close>

named_theorems act_simps \<open>evaluation of the error-and-log monad\<close>

lemmas act_defs [act_simps] = ok_def err_def abind_def guard_that_def observe_def run_command_def fs_change_def

section \<open>Parsing\<close>

definition opts_ok :: "Opts \<Rightarrow> bool" where
  "opts_ok o1 \<longleftrightarrow> set (opt_intents o1) \<subseteq> set measuring_intents \<and> distinct (opt_intents o1)
     \<and> (\<forall>c. opt_krate o1 = Some c \<longrightarrow> latency_bench c \<noteq> None)"

lemma parse_intents_ok: "parse_intents ps o1 = Inr o2 \<Longrightarrow> opts_ok o1 \<Longrightarrow> opts_ok o2"
proof (induction ps arbitrary: o1)
  case (Cons p ps)
  then obtain o' where p: "parse_intent p o1 = Inr o'" "parse_intents ps o' = Inr o2" by (auto split: sum.splits)
  then have "opts_ok o'" using Cons.prems(2) by (auto simp: parse_intent_def opts_ok_def Let_def split: if_splits)
  with Cons.IH p(2) show ?case by blast
qed simp

lemma parse_args_ok: "parse_args as o1 = Inr o2 \<Longrightarrow> opts_ok o1 \<Longrightarrow> opts_ok o2"
proof (induction as o1 rule: parse_args.induct)
  case (2 a rest o1)
  show ?case
  proof (cases "a = ''--crate''")
    case True
    with "2.prems" obtain c rest' where r: "rest = c # rest'" "latency_bench c \<noteq> None"
        "parse_args rest' (o1\<lparr>opt_krate := Some c\<rparr>) = Inr o2"
      by (auto split: list.splits if_splits)
    then show ?thesis using "2.IH"(1) [OF True r(1)] "2.prems"(2) by (auto simp: opts_ok_def)
  next
    case nc: False
    show ?thesis
    proof (cases "a = ''--intent''")
      case True
      with "2.prems" nc obtain v rest' o' where r: "rest = v # rest'" "parse_intents (split_on CHR '','' v) o1 = Inr o'"
          "parse_args rest' o' = Inr o2"
        by (auto split: list.splits sum.splits)
      then show ?thesis using "2.IH" nc True "2.prems"(2) parse_intents_ok [OF r(2)] by simp
    next
      case False
      then show ?thesis using "2.IH" nc "2.prems" by (auto simp: opts_ok_def split: if_splits)
    qed
  qed
qed simp

lemma parse_ok:
  assumes "parse args = Inr opts"
  shows "opts_ok opts" and "opt_intents opts \<noteq> [] \<or> opt_flamegraph opts"
proof -
  obtain o1 where o1: "parse_args args \<lparr>opt_krate = None, opt_all_crates = False, opt_intents = [], opt_flamegraph = False\<rparr> = Inr o1"
    and opts: "opts = (if opt_intents o1 = [] \<and> \<not> opt_flamegraph o1 then o1\<lparr>opt_intents := [''latency'']\<rparr> else o1)"
    using assms by (auto simp: parse_def split: sum.splits)
  have "opts_ok o1" using parse_args_ok [OF o1] by (simp add: opts_ok_def)
  then show "opts_ok opts" "opt_intents opts \<noteq> [] \<or> opt_flamegraph opts"
    using opts by (auto simp: opts_ok_def measuring_intents_def)
qed

lemma selected_registered: "opts_ok opts \<Longrightarrow> c \<in> set (selected_crates opts) \<Longrightarrow> latency_bench c \<noteq> None"
  by (auto simp: selected_crates_def opts_ok_def BENCH_CRATES_def latency_bench_def split: if_splits option.splits)

section \<open>Verification before a claim\<close>

definition plain_mode :: "string list \<Rightarrow> bool" where
  "plain_mode args \<longleftrightarrow>
     \<not> (args \<noteq> [] \<and> hd args = ''capture'') \<and> ''--compare'' \<notin> set args \<and> ''-h'' \<notin> set args \<and> ''--help'' \<notin> set args"

definition required_tools :: "Opts \<Rightarrow> string list" where
  "required_tools opts =
     (if ''cache'' \<in> set (opt_intents opts) then [''valgrind''] else []) @
     (if ''perfstat'' \<in> set (opt_intents opts) \<or> opt_flamegraph opts then [''perf''] else []) @
     (if ''plots'' \<in> set (opt_intents opts) then [''gnuplot''] else [])"

definition probe :: "string \<Rightarrow> action" where
  "probe tool = Run (cmd ''sh'' [''-c'', ''command -v '' @ tool])"

definition tool_missing :: "shell \<Rightarrow> string \<Rightarrow> bool" where
  "tool_missing sh tool \<longleftrightarrow> (\<forall>l. fst (tool_present sh tool l) = Inr False)"

definition only_probes :: "action list \<Rightarrow> bool" where
  "only_probes l \<longleftrightarrow> set l \<subseteq> range probe"

lemma tool_present_log: "\<exists>b. tool_present sh t l = (Inr b, l @ [probe t])"
  by (simp add: tool_present_def probe_def act_simps)

lemma require_tool_log:
  "only_probes l \<Longrightarrow> (\<exists>r l'. require_tool sh n t m l = (r, l') \<and> only_probes l'
     \<and> (n \<longrightarrow> tool_missing sh t \<longrightarrow> r = Inl m))"
proof -
  assume l: "only_probes l"
  obtain b where b: "tool_present sh t l = (Inr b, l @ [probe t])" using tool_present_log by blast
  have "tool_missing sh t \<Longrightarrow> \<not> b" using b unfolding tool_missing_def by (metis fst_conv sum.inject(2))
  then show ?thesis using l b
    by (cases n; cases b) (auto simp: require_tool_def act_simps only_probes_def)
qed

lemma verify_tools_log:
  "\<exists>r l'. verify_tools sh opts [] = (r, l') \<and> only_probes l'
     \<and> ((\<exists>t \<in> set (required_tools opts). tool_missing sh t) \<longrightarrow> (\<exists>m. r = Inl m))"
proof -
  let ?i = "set (opt_intents opts)"
  note rt = require_tool_log [where sh = sh]
  have "only_probes []" by (simp add: only_probes_def)
  obtain r1 l1 where 1: "require_tool sh (''cache'' \<in> ?i) ''valgrind''
      ''cache regime requested but `valgrind` is not on PATH. Install valgrind (and `cargo install iai-callgrind-runner`) or drop `cache` from --intent.'' [] = (r1, l1)"
    "only_probes l1" "''cache'' \<in> ?i \<longrightarrow> tool_missing sh ''valgrind'' \<longrightarrow> (\<exists>m. r1 = Inl m)"
    using rt [OF \<open>only_probes []\<close>] by meson
  obtain r2 l2 where 2: "require_tool sh (''perfstat'' \<in> ?i) ''perf''
      ''perfstat regime requested but `perf` is not on PATH.'' l1 = (r2, l2)"
    "only_probes l2" "''perfstat'' \<in> ?i \<longrightarrow> tool_missing sh ''perf'' \<longrightarrow> (\<exists>m. r2 = Inl m)"
    using rt [OF 1(2)] by meson
  obtain r3 l3 where 3: "require_tool sh (''plots'' \<in> ?i) ''gnuplot''
      ''plots regime requested but `gnuplot` is not on PATH.'' l2 = (r3, l3)"
    "only_probes l3" "''plots'' \<in> ?i \<longrightarrow> tool_missing sh ''gnuplot'' \<longrightarrow> (\<exists>m. r3 = Inl m)"
    using rt [OF 2(2)] by meson
  obtain r4 l4 where 4: "require_tool sh (opt_flamegraph opts) ''perf''
      ''--flamegraph requested but `perf` is not on PATH.'' l3 = (r4, l4)"
    "only_probes l4" "opt_flamegraph opts \<longrightarrow> tool_missing sh ''perf'' \<longrightarrow> (\<exists>m. r4 = Inl m)"
    using rt [OF 3(2)] by meson
  show ?thesis
    unfolding verify_tools_def abind_def 1(1)
    using 1 2 3 4 by (auto simp: required_tools_def split: sum.splits if_splits)
qed

section \<open>Success means measured\<close>

text \<open>The command ran at some point of the log and ended with code 0.\<close>

definition ran_ok :: "shell \<Rightarrow> action list \<Rightarrow> command \<Rightarrow> bool" where
  "ran_ok sh l c \<longleftrightarrow> (\<exists>l1 l2 out e. l = l1 @ Run c # l2 \<and> sh_outcome sh l1 c = Exited (Some 0) out e)"

lemma ran_ok_append: "ran_ok sh l c \<Longrightarrow> ran_ok sh (l @ l') c"
  unfolding ran_ok_def by force

lemma ran_ok_last: "sh_outcome sh l c = Exited (Some 0) out e \<Longrightarrow> ran_ok sh (l @ [Run c]) c"
  unfolding ran_ok_def by force

text \<open>No function of the tool takes back an action.\<close>

definition grows :: "'a act \<Rightarrow> bool" where
  "grows m \<longleftrightarrow> (\<forall>l. \<exists>l'. snd (m l) = l @ l')"

named_theorems grows_intros \<open>closure properties of growing actions\<close>

lemma grows_basic [grows_intros]:
  "grows (ok x)" "grows (err e)" "grows (guard_that b e)" "grows (observe f)" "grows (run_command sh c)"
  "grows (fs_change sh a)"
  by (auto simp: grows_def act_simps)

lemma grows_abind [grows_intros]:
  assumes "grows m" and "\<And>x. grows (f x)"
  shows "grows (abind m f)"
  unfolding grows_def
proof
  fix l
  obtain r l1 where m: "m l = (r, l @ l1)" using assms(1) unfolding grows_def by (metis prod.collapse)
  show "\<exists>l'. snd (abind m f l) = l @ l'"
  proof (cases r)
    case (Inr x)
    obtain l2 where "snd (f x (l @ l1)) = (l @ l1) @ l2" using assms(2) unfolding grows_def by blast
    then show ?thesis using m Inr by (simp add: abind_def)
  qed (simp add: abind_def m)
qed

lemma grows_for_each [grows_intros]: "(\<And>x. x \<in> set xs \<Longrightarrow> grows (f x)) \<Longrightarrow> grows (for_each f xs)"
  by (induction xs) (auto intro!: grows_intros)

lemma grows_cases [grows_intros]:
  "(\<And>e. grows (f e)) \<Longrightarrow> (\<And>c s t. grows (g c s t)) \<Longrightarrow> grows (case r of SpawnError e \<Rightarrow> f e | Exited c s t \<Rightarrow> g c s t)"
  "grows f' \<Longrightarrow> (\<And>x. grows (g' x)) \<Longrightarrow> grows (case m of None \<Rightarrow> f' | Some x \<Rightarrow> g' x)"
  "grows a \<Longrightarrow> grows b \<Longrightarrow> grows (if p then a else b)"
  by (auto split: outcome.split option.split)

lemma grows_run_after:
  "grows m \<Longrightarrow> grows n \<Longrightarrow> grows (\<lambda>l. let (r, l1) = m l; (_, l2) = n l1 in (h r, l2))"
  unfolding grows_def by (simp add: case_prod_unfold Let_def) (metis append.assoc)

lemma grows_regimes [grows_intros]:
  "grows (tool_present sh t)" "grows (status_run sh c)" "grows (tee_run sh c txt)" "grows (cargo_executable sh as)"
  "grows (build_bench_binary sh k b)" "grows (cargo_bench sh k b ex)" "grows (need_bench k)" "grows (check_paranoid sh)"
  by (auto simp: tool_present_def status_run_def tee_run_def cargo_executable_def build_bench_binary_def cargo_bench_def
      need_bench_def check_paranoid_def Let_def intro!: grows_intros)

lemma grows_perf_pass [grows_intros]: "grows (perf_pass sh k tee c scratch)"
  unfolding perf_pass_def by (rule grows_run_after) (auto intro!: grows_intros)

lemma grows_run [grows_intros]:
  "grows (run_latency sh k)" "grows (run_cache sh k)" "grows (run_alloc sh k)" "grows (run_plots sh k)"
  "grows (run_flamegraph sh k)" "grows (run_perfstat sh k tee)"
  by (auto simp: run_latency_def run_cache_def run_alloc_def run_plots_def run_flamegraph_def run_perfstat_def Let_def
      intro!: grows_intros)

lemma grows_run_crate [grows_intros]: "grows (run_crate sh opts k)"
  unfolding run_crate_def by (rule grows_for_each) (auto intro!: grows_intros)

lemma abind_Inr: "abind m f l = (Inr y, l') \<longleftrightarrow> (\<exists>x l1. m l = (Inr x, l1) \<and> f x l1 = (Inr y, l'))"
  by (auto simp: abind_def split: prod.splits sum.splits)

lemma guard_that_Inr: "guard_that c e l = (Inr u, l') \<longleftrightarrow> c \<and> l' = l"
  by (auto simp: guard_that_def ok_def err_def)

lemma run_command_Inr: "run_command sh c l = (Inr r, l') \<longleftrightarrow> r = sh_outcome sh l c \<and> l' = l @ [Run c]"
  by (auto simp: run_command_def)

lemmas act_Inr = abind_Inr guard_that_Inr run_command_Inr

text \<open>In a loop that succeeds every body succeeded, and its actions stay in the log.\<close>

lemma for_each_Inr:
  "for_each f xs l = (Inr u, l') \<Longrightarrow> (\<And>x. x \<in> set xs \<Longrightarrow> grows (f x)) \<Longrightarrow> x \<in> set xs \<Longrightarrow>
     \<exists>l1 v l2 l3. f x l1 = (Inr v, l2) \<and> l' = l2 @ l3"
proof (induction xs arbitrary: l)
  case (Cons y ys)
  then obtain v l1 where y: "f y l = (Inr v, l1)" and ys: "for_each f ys l1 = (Inr u, l')" by (auto simp: abind_Inr)
  have "grows (for_each f ys)" using Cons.prems(2) by (intro grows_intros) simp
  then obtain l3 where "l' = l1 @ l3" using ys unfolding grows_def by (metis snd_conv)
  with y ys Cons show ?case by (cases "x = y") fastforce+
qed simp

lemma cargo_bench_ran: "cargo_bench sh k b ex l = (Inr u, l') \<Longrightarrow> ran_ok sh l' (bench_command k b ex)"
  by (auto simp: cargo_bench_def act_Inr err_def intro: ran_ok_last split: outcome.splits)

lemma need_bench_Inr: "need_bench k l = (Inr b, l') \<longleftrightarrow> latency_bench k = Some b \<and> l' = l"
  by (auto simp: need_bench_def ok_def err_def split: option.splits)

lemma run_latency_ran:
  "run_latency sh k l = (Inr u, l') \<Longrightarrow> \<exists>b. latency_bench k = Some b \<and> ran_ok sh l' (bench_command k b [])"
  by (auto simp: run_latency_def abind_Inr need_bench_Inr dest: cargo_bench_ran)

lemma run_cache_ran:
  "run_cache sh k l = (Inr u, l') \<Longrightarrow> k \<in> set IAI_CRATES \<Longrightarrow> ran_ok sh l' (bench_command k (k @ ''_iai'') [''--features'', ''iai''])"
  by (auto simp: run_cache_def dest: cargo_bench_ran)

lemma run_alloc_ran: "run_alloc sh k l = (Inr u, l') \<Longrightarrow> k \<in> set ALLOC_CRATES \<Longrightarrow> ran_ok sh l' (alloc_command k)"
  by (auto simp: run_alloc_def act_Inr err_def intro: ran_ok_last split: outcome.splits)

lemma run_plots_ran:
  assumes "run_plots sh k l = (Inr u, l')"
  shows "\<exists>n. is_plot_script k n \<and> ran_ok sh l' ((cmd ''gnuplot'' [n])\<lparr>cmd_dir := Some (bench_out_dir sh)\<rparr>)"
proof -
  obtain names l1 where o: "(case List.find (is_plot_script k) (unwrap_or names []) of
          None \<Rightarrow> err (''no gnuplot script for `'' @ k @ ''` in '' @ bench_out_dir sh @ '' '' @ em_dash @
            '' run a latency pass at this commit first (`cargo bench-all --crate '' @ k @ ''`).'')
        | Some n \<Rightarrow>
            abind (run_command sh ((cmd ''gnuplot'' [n])\<lparr>cmd_dir := Some (bench_out_dir sh)\<rparr>)) (\<lambda>r. case r of
               SpawnError e \<Rightarrow> err (''failed to spawn gnuplot: '' @ e)
             | Exited code _ _ \<Rightarrow>
                 guard_that (code = Some 0) (''['' @ k @ ''] gnuplot failed (exit '' @ show_code code @ '')''))) l1 = (Inr u, l')"
    using assms unfolding run_plots_def Let_def abind_Inr [of "observe _"] by blast
  then obtain n where n: "List.find (is_plot_script k) (unwrap_or names []) = Some n" by (auto simp: err_def split: option.splits)
  then have "is_plot_script k n" by (auto simp: find_Some_iff)
  moreover have "ran_ok sh l' ((cmd ''gnuplot'' [n])\<lparr>cmd_dir := Some (bench_out_dir sh)\<rparr>)"
    using o n by (auto simp: act_Inr err_def intro: ran_ok_last split: outcome.splits)
  ultimately show ?thesis by blast
qed

lemma status_run_ran: "status_run sh c l = (Inr u, l') \<Longrightarrow> ran_ok sh l' c"
  by (auto simp: status_run_def act_Inr err_def intro: ran_ok_last split: outcome.splits)

lemma perf_pass_ran:
  assumes "perf_pass sh k None c scratch l = (Inr u, l')"
  shows "ran_ok sh l' c"
proof -
  obtain r l1 where st: "status_run sh c l = (r, l1)" by (cases "status_run sh c l")
  then obtain v where "r = Inr v" "l' = l1 @ [Fs (RemoveDirAll scratch)]"
    using assms by (cases r) (auto simp: perf_pass_def fs_change_def)
  then show ?thesis using st status_run_ran ran_ok_append by blast
qed

lemma run_crate_regime:
  assumes "run_crate sh opts k l = (Inr u, l')"
    and "(True, m) \<in> set
       [(''latency'' \<in> set (opt_intents opts), run_latency sh k),
        (''cache'' \<in> set (opt_intents opts), run_cache sh k),
        (''alloc'' \<in> set (opt_intents opts), run_alloc sh k),
        (''perfstat'' \<in> set (opt_intents opts), run_perfstat sh k None),
        (''plots'' \<in> set (opt_intents opts), run_plots sh k),
        (opt_flamegraph opts, run_flamegraph sh k)]"
  shows "\<exists>l1 v l2 l3. m l1 = (Inr v, l2) \<and> l' = l2 @ l3"
  using for_each_Inr [OF assms(1) [unfolded run_crate_def] _ assms(2)] by (auto intro!: grows_intros)

text \<open>Cargo built the bench target of the crate and named the executable as the last one of its JSON
  messages.\<close>

definition built :: "shell \<Rightarrow> action list \<Rightarrow> string \<Rightarrow> string \<Rightarrow> string \<Rightarrow> bool" where
  "built sh l krate target bin \<longleftrightarrow>
     (\<exists>l1 l2 out e. let c = bench_command krate target [''--no-run'', ''--message-format=json''] in
        l = l1 @ Run c # l2 \<and> sh_outcome sh l1 c = Exited (Some 0) out e \<and> last_exe out = Some bin)"

definition perf_scratch :: "shell \<Rightarrow> string" where
  "perf_scratch sh = sh_temp_dir sh @ ''/benchkit_perfstat_'' @ show_word (sh_pid sh)"

lemma built_append: "built sh l k b bin \<Longrightarrow> built sh (l @ l') k b bin"
  unfolding built_def Let_def by force

lemma build_bench_binary_built:
  assumes "build_bench_binary sh k b l = (Inr bin, l')"
  shows "built sh l' k b bin"
  using assms
  by (auto simp: build_bench_binary_def cargo_executable_def bench_command_def built_def Let_def act_Inr err_def ok_def
      split: outcome.splits option.splits)

lemma growsD: "grows m \<Longrightarrow> m l = (r, l') \<Longrightarrow> \<exists>l''. l' = l @ l''"
  unfolding grows_def by (metis snd_conv)

lemma run_perfstat_ran:
  assumes "run_perfstat sh k None l = (Inr u, l')"
  shows "\<exists>b bin. latency_bench k = Some b \<and> built sh l' k b bin \<and>
    ran_ok sh l' (perf_command (perf_scratch sh) (perf_core sh) bin)"
proof -
  obtain b bin l1 l2 e where b: "latency_bench k = Some b" "build_bench_binary sh k b l1 = (Inr bin, l2)"
    and e: "(case e of Some e \<Rightarrow> err (''create scratch dir: '' @ e)
      | None \<Rightarrow> perf_pass sh k None (perf_command (perf_scratch sh) (perf_core sh) bin) (perf_scratch sh))
        (l2 @ [Fs (CreateDirAll (perf_scratch sh))]) = (Inr u, l')"
    using assms unfolding run_perfstat_def abind_Inr Let_def perf_scratch_def [symmetric]
    by (auto simp: need_bench_Inr fs_change_def)
  from e have pass: "perf_pass sh k None (perf_command (perf_scratch sh) (perf_core sh) bin) (perf_scratch sh)
      (l2 @ [Fs (CreateDirAll (perf_scratch sh))]) = (Inr u, l')" by (cases e) (auto simp: err_def)
  from growsD [OF grows_perf_pass pass] obtain l3 where "l' = l2 @ Fs (CreateDirAll (perf_scratch sh)) # l3" by auto
  with build_bench_binary_built [OF b(2)] have "built sh l' k b bin" by (auto intro: built_append)
  with b(1) perf_pass_ran [OF pass] show ?thesis by blast
qed

lemma tool_present_Inr: "tool_present sh t l = (Inr True, l') \<Longrightarrow> ran_ok sh l' (cmd ''sh'' [''-c'', ''command -v '' @ t])"
  by (auto simp: tool_present_def abind_Inr run_command_Inr ok_def intro: ran_ok_last split: outcome.splits)

lemma selected_crates_nonempty:
  obtains c where "c \<in> set (selected_crates opts)"
  by (cases "selected_crates opts") (auto simp: selected_crates_def BENCH_CRATES_def split: if_splits option.splits)

lemma run_flamegraph_Inr:
  assumes "run_flamegraph sh k l = (Inr u, l')"
  obtains b out e l1 where "latency_bench k = Some b"
    and "sh_outcome sh l (bench_command k b [''--no-run'']) = Exited (Some 0) out e"
    and "tool_present sh ''flamegraph.pl'' (l @ [Run (bench_command k b [''--no-run''])]) = (Inr True, l1)"
    and "tool_present sh ''stackcollapse-perf.pl'' l1 = (Inr True, l')"
proof -
  obtain b where b: "latency_bench k = Some b" using assms by (auto simp: run_flamegraph_def abind_Inr need_bench_Inr)
  let ?c = "bench_command k b [''--no-run'']"
  obtain out e where e: "sh_outcome sh l ?c = Exited (Some 0) out e"
    using assms b by (cases "sh_outcome sh l ?c") (auto simp: run_flamegraph_def act_Inr need_bench_Inr err_def)
  from assms b e obtain l1 where "tool_present sh ''flamegraph.pl'' (l @ [Run ?c]) = (Inr True, l1)"
    "tool_present sh ''stackcollapse-perf.pl'' l1 = (Inr True, l')"
    by (auto simp: run_flamegraph_def act_Inr need_bench_Inr ok_def split: if_splits)
  with b e that show thesis by blast
qed

lemma run_flamegraph_ran:
  assumes "run_flamegraph sh k l = (Inr u, l')"
  shows "(\<exists>b. latency_bench k = Some b \<and> ran_ok sh l' (bench_command k b [''--no-run''])) \<and>
    (\<forall>t \<in> {''flamegraph.pl'', ''stackcollapse-perf.pl''}. ran_ok sh l' (cmd ''sh'' [''-c'', ''command -v '' @ t]))"
  using assms
proof (cases rule: run_flamegraph_Inr)
  case (1 b out e l1)
  from growsD [OF grows_regimes(1) 1(3)] growsD [OF grows_regimes(1) 1(4)] obtain l2 l3 where
    "l1 = (l @ [Run (bench_command k b [''--no-run''])]) @ l2" "l' = l1 @ l3" by blast
  with ran_ok_last [OF 1(2)] 1(1) tool_present_Inr [OF 1(3)] tool_present_Inr [OF 1(4)] show ?thesis
    by (auto intro: ran_ok_append simp del: append_assoc)
qed

lemma tool_missing_False: "tool_missing sh t \<Longrightarrow> tool_present sh t l \<noteq> (Inr True, l')"
  unfolding tool_missing_def by (metis fst_conv sum.inject(2))

text \<open>C22: Success is never claimed for a measurement that did not run. When a run ends without an error,
  then for every selected crate each requested regime was executed and its commands ended with code 0:
  the crate's latency bench; for \<open>perfstat\<close> the build of that bench, whose output names the binary, and
  \<open>perf stat\<close> on that binary; gnuplot on one of the crate's scripts; for flame graphs the build of the
  bench and the probes for both FlameGraph scripts. The exception is stated too: only \<open>matcher\<close> has a
  callgrind bench and only \<open>matcher\<close> and \<open>ipc\<close> an allocation proof, which then ran; for the other
  crates \<open>cache\<close> and \<open>alloc\<close> are skipped without an error and without any action.\<close>

theorem success_means_measured:
  assumes "plain_mode args" and "parse args = Inr opts" and "run sh args [] = (Inr (), l)"
    and "c \<in> set (selected_crates opts)"
  shows "\<exists>b. latency_bench c = Some b
    \<and> (''latency'' \<in> set (opt_intents opts) \<longrightarrow> ran_ok sh l (bench_command c b []))
    \<and> (''cache'' \<in> set (opt_intents opts) \<longrightarrow>
        (if c = ''matcher'' then ran_ok sh l (bench_command c ''matcher_iai'' [''--features'', ''iai''])
         else \<forall>l. run_cache sh c l = (Inr (), l)))
    \<and> (''alloc'' \<in> set (opt_intents opts) \<longrightarrow>
        (if c = ''matcher'' \<or> c = ''ipc'' then ran_ok sh l (alloc_command c) else \<forall>l. run_alloc sh c l = (Inr (), l)))
    \<and> (''perfstat'' \<in> set (opt_intents opts) \<longrightarrow>
        (\<exists>bin. built sh l c b bin \<and> ran_ok sh l (perf_command (perf_scratch sh) (perf_core sh) bin)))
    \<and> (''plots'' \<in> set (opt_intents opts) \<longrightarrow>
        (\<exists>n. is_plot_script c n \<and> ran_ok sh l ((cmd ''gnuplot'' [n])\<lparr>cmd_dir := Some (bench_out_dir sh)\<rparr>)))
    \<and> (opt_flamegraph opts \<longrightarrow> ran_ok sh l (bench_command c b [''--no-run'']) \<and>
        (\<forall>t \<in> {''flamegraph.pl'', ''stackcollapse-perf.pl''}. ran_ok sh l (cmd ''sh'' [''-c'', ''command -v '' @ t])))"
proof -
  obtain l0 where "for_each (run_crate sh opts) (selected_crates opts) l0 = (Inr (), l)"
    using assms(1-3) by (auto simp: run_def plain_mode_def abind_Inr)
  from for_each_Inr [OF this _ assms(4)] obtain l1 v l2 l3 where
    rc: "run_crate sh opts c l1 = (Inr v, l2)" and l: "l = l2 @ l3" using grows_run_crate by blast
  have regime: "\<exists>la va lb lc. m la = (Inr va, lb) \<and> l = lb @ lc" if "(True, m) \<in> set
       [(''latency'' \<in> set (opt_intents opts), run_latency sh c), (''cache'' \<in> set (opt_intents opts), run_cache sh c),
        (''alloc'' \<in> set (opt_intents opts), run_alloc sh c), (''perfstat'' \<in> set (opt_intents opts), run_perfstat sh c None),
        (''plots'' \<in> set (opt_intents opts), run_plots sh c), (opt_flamegraph opts, run_flamegraph sh c)]" for m
    using run_crate_regime [OF rc that] l by (metis append.assoc)
  note app = ran_ok_append built_append
  obtain b where b: "latency_bench c = Some b"
    using selected_registered [OF parse_ok(1) [OF assms(2)] assms(4)] by blast
  show ?thesis
  proof (rule exI [of _ b], intro conjI impI b)
    assume "''latency'' \<in> set (opt_intents opts)"
    then show "ran_ok sh l (bench_command c b [])"
      using regime [of "run_latency sh c"] run_latency_ran b app by fastforce
  next
    assume "''cache'' \<in> set (opt_intents opts)"
    then show "if c = ''matcher'' then ran_ok sh l (bench_command c ''matcher_iai'' [''--features'', ''iai''])
         else \<forall>l. run_cache sh c l = (Inr (), l)"
      using regime [of "run_cache sh c"] run_cache_ran app by (fastforce simp: IAI_CRATES_def run_cache_def ok_def)
  next
    assume "''alloc'' \<in> set (opt_intents opts)"
    then show "if c = ''matcher'' \<or> c = ''ipc'' then ran_ok sh l (alloc_command c) else \<forall>l. run_alloc sh c l = (Inr (), l)"
      using regime [of "run_alloc sh c"] run_alloc_ran app by (fastforce simp: ALLOC_CRATES_def run_alloc_def ok_def)
  next
    assume "''perfstat'' \<in> set (opt_intents opts)"
    then obtain la va lb lc where "run_perfstat sh c None la = (Inr va, lb)" "l = lb @ lc"
      using regime [of "run_perfstat sh c None"] by auto
    moreover from run_perfstat_ran [OF this(1)] b obtain bin where "built sh lb c b bin"
      "ran_ok sh lb (perf_command (perf_scratch sh) (perf_core sh) bin)" by auto
    ultimately show "\<exists>bin. built sh l c b bin \<and> ran_ok sh l (perf_command (perf_scratch sh) (perf_core sh) bin)"
      using app by blast
  next
    assume "''plots'' \<in> set (opt_intents opts)"
    then obtain la va lb lc where "run_plots sh c la = (Inr va, lb)" "l = lb @ lc" using regime [of "run_plots sh c"] by auto
    then show "\<exists>n. is_plot_script c n \<and> ran_ok sh l ((cmd ''gnuplot'' [n])\<lparr>cmd_dir := Some (bench_out_dir sh)\<rparr>)"
      using run_plots_ran app by blast
  next
    assume f: "opt_flamegraph opts"
    then obtain la va lb lc where fg: "run_flamegraph sh c la = (Inr va, lb)" "l = lb @ lc"
      using regime [of "run_flamegraph sh c"] by auto
    from run_flamegraph_ran [OF fg(1)] fg(2) b app(1) show "ran_ok sh l (bench_command c b [''--no-run''])"
      "\<forall>t \<in> {''flamegraph.pl'', ''stackcollapse-perf.pl''}. ran_ok sh l (cmd ''sh'' [''-c'', ''command -v '' @ t])" by auto
  qed
qed

text \<open>C31: Verify before claim. When a requested regime needs a tool that is not there (valgrind for
  \<open>cache\<close>, perf for \<open>perfstat\<close> and flame graphs, gnuplot for \<open>plots\<close>), the run ends with an error
  and it has started nothing but probes for tools: no crate is benchmarked in any regime. The
  FlameGraph scripts are not among the tools checked up front: when one of them is missing a run that
  asks for flame graphs still ends with an error, but possibly after other regimes.\<close>

theorem missing_tool_stops_the_run:
  assumes "plain_mode args" and "parse args = Inr opts"
  defines "requested \<equiv> \<lambda>i. i \<in> set (opt_intents opts)"
  shows "(requested ''cache'' \<and> tool_missing sh ''valgrind'' \<or>
      (requested ''perfstat'' \<or> opt_flamegraph opts) \<and> tool_missing sh ''perf'' \<or>
      requested ''plots'' \<and> tool_missing sh ''gnuplot'' \<longrightarrow>
        (\<exists>msg l. run sh args [] = (Inl msg, l) \<and> only_probes l)) \<and>
    (opt_flamegraph opts \<and> (tool_missing sh ''flamegraph.pl'' \<or> tool_missing sh ''stackcollapse-perf.pl'') \<longrightarrow>
        (\<exists>msg l. run sh args [] = (Inl msg, l)))"
proof (intro conjI impI)
  assume "requested ''cache'' \<and> tool_missing sh ''valgrind'' \<or>
      (requested ''perfstat'' \<or> opt_flamegraph opts) \<and> tool_missing sh ''perf'' \<or>
      requested ''plots'' \<and> tool_missing sh ''gnuplot''"
  then have "\<exists>t \<in> set (required_tools opts). tool_missing sh t"
    by (auto simp: required_tools_def requested_def)
  with verify_tools_log [of sh opts] obtain m l where "verify_tools sh opts [] = (Inl m, l)" "only_probes l" by blast
  then show "\<exists>msg l. run sh args [] = (Inl msg, l) \<and> only_probes l"
    using assms(1,2) by (auto simp: run_def plain_mode_def abind_def)
next
  assume f: "opt_flamegraph opts \<and> (tool_missing sh ''flamegraph.pl'' \<or> tool_missing sh ''stackcollapse-perf.pl'')"
  show "\<exists>msg l. run sh args [] = (Inl msg, l)"
  proof (rule ccontr)
    assume "\<not> ?thesis"
    then obtain l where "run sh args [] = (Inr (), l)" by (metis old.unit.exhaust sum.exhaust surj_pair)
    then obtain l0 where loop: "for_each (run_crate sh opts) (selected_crates opts) l0 = (Inr (), l)"
      using assms(1,2) by (auto simp: run_def plain_mode_def abind_Inr)
    obtain c where "c \<in> set (selected_crates opts)" by (rule selected_crates_nonempty)
    from for_each_Inr [OF loop _ this] obtain l1 v l2 where "run_crate sh opts c l1 = (Inr v, l2)"
      using grows_run_crate by blast
    from run_crate_regime [OF this, of "run_flamegraph sh c"] f obtain la va lb where
      "run_flamegraph sh c la = (Inr va, lb)" by auto
    with f tool_missing_False show False by (elim run_flamegraph_Inr) blast
  qed
qed

text \<open>C36: The FlameGraph scripts are looked for too late. A run that asks for latency and a flame graph
  of a crate, on a machine with perf and a working cargo but without \<open>flamegraph.pl\<close>, measures the
  latency and builds the bench before it finds out, although every requested regime is meant to be
  verified before anything runs.\<close>

theorem flamegraph_checked_late:
  assumes "latency_bench c = Some b" and "\<And>l. fst (tool_present sh ''perf'' l) = Inr True"
    and "tool_missing sh ''flamegraph.pl''"
    and "\<And>l extra. \<exists>out e. sh_outcome sh l (bench_command c b extra) = Exited (Some 0) out e"
  shows "\<exists>msg. run sh [''--crate'', c, ''--intent'', ''latency,flamegraph''] [] =
    (Inl msg, [probe ''perf'', Run (bench_command c b []), Run (bench_command c b [''--no-run'']), probe ''flamegraph.pl''])"
proof -
  let ?o = "\<lparr>opt_krate = Some c, opt_all_crates = False, opt_intents = [''latency''], opt_flamegraph = True\<rparr>"
  have p: "parse [''--crate'', c, ''--intent'', ''latency,flamegraph''] = Inr ?o"
    using assms(1) by (simp add: parse_def parse_intent_def measuring_intents_def trim_def is_ws_def)
  obtain out1 e1 where o1: "sh_outcome sh [probe ''perf''] (bench_command c b []) = Exited (Some 0) out1 e1" using assms(4) by blast
  obtain out2 e2 where o2: "sh_outcome sh [probe ''perf'', Run (bench_command c b [])] (bench_command c b [''--no-run'']) = Exited (Some 0) out2 e2"
    using assms(4) by blast
  have perf: "tool_present sh ''perf'' [] = (Inr True, [probe ''perf''])"
    using tool_present_log [of sh "''perf''" "[]"] assms(2) [of "[]"] by auto
  let ?l = "[probe ''perf'', Run (bench_command c b []), Run (bench_command c b [''--no-run''])]"
  have fl: "tool_present sh ''flamegraph.pl'' ?l = (Inr False, ?l @ [probe ''flamegraph.pl''])"
    using tool_present_log [of sh "''flamegraph.pl''" ?l] tool_missing_False [OF assms(3)] by (metis (full_types))
  have "c \<noteq> ''--compare''" "c \<noteq> ''-h''" "c \<noteq> ''--help''"
    using assms(1) by (auto simp: latency_bench_def BENCH_CRATES_def)
  then show ?thesis using assms(1) o1 o2 perf fl
    by (simp add: run_def p verify_tools_def require_tool_def selected_crates_def run_crate_def run_latency_def need_bench_def
        cargo_bench_def run_flamegraph_def act_simps)
qed

section \<open>Instances\<close>

text \<open>A machine on which every process ends with the given code.\<close>

definition exit_shell :: "int \<Rightarrow> shell" where
  "exit_shell code =
     \<lparr>sh_outcome = (\<lambda>_ _. Exited (Some code) [] []), sh_fs = (\<lambda>_ _. None), sh_file = (\<lambda>_ _. None),
      sh_dir = (\<lambda>_ _. None), sh_exists = (\<lambda>_ _. False), sh_pipe_error = (\<lambda>_. None), sh_read_error = (\<lambda>_. None),
      sh_env = (\<lambda>_. None), sh_cwd = None, sh_temp_dir = ''/tmp'', sh_pid = 1,
      sh_host = \<lparr>h_file = (\<lambda>_. None), h_git_rev_parse = None, h_git_status = None, h_unix_secs = 0, h_rustc = ''rustc'',
        h_rustflags = [], h_debug_assertions = False\<rparr>\<rparr>"

text \<open>A machine that lacks one tool, and where everything else succeeds.\<close>

definition lacking_shell :: "string \<Rightarrow> shell" where
  "lacking_shell tool = (exit_shell 0)\<lparr>sh_outcome :=
     (\<lambda>_ c. Exited (Some (if c = cmd ''sh'' [''-c'', ''command -v '' @ tool] then 127 else 0)) [] [])\<rparr>"

lemma lacking_shell_tools:
  "tool_missing (lacking_shell t) t" "t' \<noteq> t \<Longrightarrow> fst (tool_present (lacking_shell t) t' l) = Inr True"
  by (simp_all add: tool_missing_def tool_present_def lacking_shell_def cmd_def act_simps)

theorem missing_tool_stops_the_run_witness:
  "(\<exists>msg l. run (lacking_shell ''valgrind'') [''--intent'', ''latency,cache''] [] = (Inl msg, l) \<and> only_probes l) \<and>
   (\<exists>msg l. run (lacking_shell ''stackcollapse-perf.pl'') [''--flamegraph''] [] = (Inl msg, l))"
proof -
  have "parse [''--intent'', ''latency,cache''] = Inr \<lparr>opt_krate = None, opt_all_crates = False,
      opt_intents = [''cache'', ''latency''], opt_flamegraph = False\<rparr>"
    "parse [''--flamegraph''] = Inr \<lparr>opt_krate = None, opt_all_crates = False, opt_intents = [], opt_flamegraph = True\<rparr>"
    "plain_mode [''--intent'', ''latency,cache'']" "plain_mode [''--flamegraph'']"
    by (simp_all add: parse_def parse_intent_def measuring_intents_def trim_def is_ws_def plain_mode_def)
  with missing_tool_stops_the_run [of "[''--intent'', ''latency,cache'']" _ "lacking_shell ''valgrind''"]
    missing_tool_stops_the_run [of "[''--flamegraph'']" _ "lacking_shell ''stackcollapse-perf.pl''"] lacking_shell_tools(1)
  show ?thesis by auto
qed

theorem flamegraph_checked_late_witness:
  "\<exists>msg. run (lacking_shell ''flamegraph.pl'') [''--crate'', ''arena'', ''--intent'', ''latency,flamegraph''] [] =
    (Inl msg, [probe ''perf'', Run (bench_command ''arena'' ''arena_bench'' []),
       Run (bench_command ''arena'' ''arena_bench'' [''--no-run'']), probe ''flamegraph.pl''])"
  by (rule flamegraph_checked_late)
    (simp_all add: latency_bench_def BENCH_CRATES_def lacking_shell_tools, simp add: lacking_shell_def bench_command_def cmd_def)

theorem success_means_measured_witness:
  "\<exists>l. run (exit_shell 0) [''--crate'', ''arena'', ''--intent'', ''latency,cache''] [] = (Inr (), l)
    \<and> ran_ok (exit_shell 0) l (bench_command ''arena'' ''arena_bench'' []) \<and> run_cache (exit_shell 0) ''arena'' l = (Inr (), l)"
proof -
  let ?as = "[''--crate'', ''arena'', ''--intent'', ''latency,cache'']"
  let ?o = "\<lparr>opt_krate = Some ''arena'', opt_all_crates = False, opt_intents = [''cache'', ''latency''], opt_flamegraph = False\<rparr>"
  have p: "parse ?as = Inr ?o" "latency_bench ''arena'' = Some ''arena_bench''" "plain_mode ?as"
    by (simp_all add: parse_def latency_bench_def BENCH_CRATES_def parse_intent_def measuring_intents_def trim_def is_ws_def plain_mode_def)
  have "run (exit_shell 0) ?as [] = (Inr (), [probe ''valgrind'', Run (bench_command ''arena'' ''arena_bench'' [])])"
    by (simp add: run_def p verify_tools_def require_tool_def selected_crates_def run_crate_def run_latency_def need_bench_def
        cargo_bench_def exit_shell_def tool_present_def probe_def run_cache_def IAI_CRATES_def act_simps)
  with success_means_measured [of ?as ?o "exit_shell 0" _ "''arena''"] p show ?thesis
    by (auto simp: selected_crates_def)
qed

end
