(* ===== verification/Test_Script.thy ===== *)
theory Test_Script
  imports Arena
begin

text \<open>
  The unit tests that stand beside the code, as definitions over the model: a test is a computation
  that returns or panics, in both build profiles, and the theorems of the test theories evaluate it.
  They tie the model to what the repository says of itself. A test is written the way the
  source has it: a fresh state, then calls that \<open>unwrap\<close> their result and assertions on the
  state they leave.
\<close>

type_synonym 's script = "'s \<Rightarrow> 's res"

fun run_script :: "'s script list \<Rightarrow> 's script" where
  "run_script [] s = Inr s"
| "run_script (c # cs) s = rbind (c s) (run_script cs)"

definition run_test :: "'s res \<Rightarrow> 's script list \<Rightarrow> unit res" where
  "run_test start cs = rbind start (\<lambda>s. rbind (run_script cs s) (\<lambda>_. Inr ()))"

text \<open>\<open>assert!\<close> on the state; an \<open>assert_eq!\<close> of an unwrapped value is written as an equation with \<open>Some\<close>.\<close>

definition check :: "('s \<Rightarrow> bool) \<Rightarrow> 's script" where
  "check P s = rbind (assert_that (P s) ''assertion failed'') (\<lambda>_. Inr s)"

definition unwrap :: "'a option \<Rightarrow> 'a res" where
  "unwrap r = expect ''called Option::unwrap() on a None value'' r"

fun asserts :: "bool list \<Rightarrow> unit res" where
  "asserts [] = Inr ()"
| "asserts (c # cs) = rbind (assert_that c ''assertion failed'') (\<lambda>_. asserts cs)"

text \<open>The arithmetic operators with overflow checks, for evaluation: a sum overflows when it is below a
  summand, a product is compared as an integer.\<close>

lemma plus_u_code [code]:
  "plus_u p a b =
     (case p of
        Debug \<Rightarrow> if a + b < a then Inl (Panic ''attempt to add with overflow'') else Inr (a + b)
      | Release \<Rightarrow> Inr (a + b))"
proof -
  have "2 ^ LENGTH('a) \<le> unat a + unat b \<longleftrightarrow> a + b < a"
    using no_olen_add_nat [of a b] by auto
  then show ?thesis by (cases p) (simp_all add: plus_u_def)
qed

lemma times_u_code [code]:
  "times_u p (a :: 'w::len word) b =
     (case p of
        Debug \<Rightarrow> if 2 ^ LENGTH('w) \<le> uint a * uint b then Inl (Panic ''attempt to multiply with overflow'') else Inr (a * b)
      | Release \<Rightarrow> Inr (a * b))"
proof -
  have "2 ^ LENGTH('w) \<le> unat a * unat b \<longleftrightarrow> 2 ^ LENGTH('w) \<le> int (unat a * unat b)"
    by (metis of_nat_le_iff of_nat_numeral of_nat_power)
  then show ?thesis by (cases p) (simp_all add: times_u_def)
qed

text \<open>\<open>iter.take(n)\<close> counts down a word, for evaluation at \<open>n = usize::MAX\<close>.\<close>

fun take_u :: "'w::len word \<Rightarrow> 'a list \<Rightarrow> 'a list" where
  "take_u n [] = []"
| "take_u n (x # xs) = (if n = 0 then [] else x # take_u (n - 1) xs)"

lemma take_u: "take_u n xs = take (unat n) xs"
proof (induction xs arbitrary: n)
  case (Cons x xs)
  show ?case
  proof (cases "n = 0")
    case False
    then have "unat n = Suc (unat (n - 1))" by (simp add: unat_minus_one unat_gt_0)
    with False Cons.IH show ?thesis by simp
  qed simp
qed simp

text \<open>A suite passes when every test of it returns.\<close>

definition suite_passes :: "(profile \<Rightarrow> unit res) list \<Rightarrow> profile \<Rightarrow> bool" where
  "suite_passes ts p = list_all (\<lambda>t. t p = Inr ()) ts"

lemma suite_profiles: "suite_passes ts Debug \<Longrightarrow> suite_passes ts Release \<Longrightarrow> suite_passes ts p"
  by (cases p) simp_all

end
