(* ===== verification/Arena_Tests.thy ===== *)
theory Arena_Tests
  imports Test_Script Dex_Types
begin

text \<open>The tests of \<open>arena/src/lib.rs\<close>.\<close>

definition alloc_unwrap :: "profile \<Rightarrow> 'a Arena \<Rightarrow> 'a \<Rightarrow> ('a Arena \<times> ArenaIdx) res" where
  "alloc_unwrap p a v = rbind (Arena_alloc p a v) (\<lambda>(a, r). rbind (unwrap r) (\<lambda>i. Inr (a, i)))"

definition alloc_is_none :: "profile \<Rightarrow> 'a Arena \<Rightarrow> 'a \<Rightarrow> 'a Arena res" where
  "alloc_is_none p a v = rbind (Arena_alloc p a v) (\<lambda>(a, r). rbind (assert_that (r = None) ''assertion failed'') (\<lambda>_. Inr a))"

definition remove_eq :: "profile \<Rightarrow> 'a Arena \<Rightarrow> ArenaIdx \<Rightarrow> 'a option \<Rightarrow> 'a Arena res" where
  "remove_eq p a i expected =
     rbind (Arena_remove p a i) (\<lambda>(a, r). rbind (assert_that (r = expected) ''assertion failed'') (\<lambda>_. Inr a))"

definition remove_only :: "profile \<Rightarrow> 'a Arena \<Rightarrow> ArenaIdx \<Rightarrow> 'a Arena res" where
  "remove_only p a i = rbind (Arena_remove p a i) (\<lambda>(a, _). Inr a)"

definition get_eq :: "'a Arena \<Rightarrow> ArenaIdx \<Rightarrow> 'a option \<Rightarrow> unit res" where
  "get_eq a i expected = rbind (Arena_get a i) (\<lambda>r. assert_that (r = expected) ''assertion failed'')"

section \<open>Round trip and basic operations\<close>

definition round_trip_alloc_get_remove :: "profile \<Rightarrow> unit res" where
  "round_trip_alloc_get_remove p =
     rbind (Arena_new 4) (\<lambda>a. rbind (alloc_unwrap p a (42 :: u64)) (\<lambda>(a, idx).
     rbind (assert_that (is_valid idx) ''assertion failed'') (\<lambda>_.
     rbind (get_eq a idx (Some 42)) (\<lambda>_.
     rbind (remove_eq p a idx (Some 42)) (\<lambda>a. get_eq a idx None)))))"

definition get_mut_allows_mutation :: "profile \<Rightarrow> unit res" where
  "get_mut_allows_mutation p =
     rbind (Arena_new 4) (\<lambda>a. rbind (alloc_unwrap p a (100 :: u64)) (\<lambda>(a, idx).
     rbind (Arena_get_mut a idx) (\<lambda>r. rbind (unwrap r) (\<lambda>(_, write). get_eq (write 200) idx (Some 200)))))"

definition initial_alloc_handle_is_valid :: "profile \<Rightarrow> unit res" where
  "initial_alloc_handle_is_valid p =
     rbind (Arena_new 1) (\<lambda>a. rbind (alloc_unwrap p a (42 :: u64)) (\<lambda>(_, idx).
       asserts [is_valid idx, idx_generation idx \<noteq> 0]))"

section \<open>Use after free\<close>

definition get_after_remove_returns_none :: "profile \<Rightarrow> unit res" where
  "get_after_remove_returns_none p =
     rbind (Arena_new 4) (\<lambda>a. rbind (alloc_unwrap p a (7 :: u64)) (\<lambda>(a, idx).
     rbind (remove_only p a idx) (\<lambda>a. rbind (get_eq a idx None) (\<lambda>_.
     rbind (Arena_get_mut a idx) (\<lambda>r. assert_that (case r of None \<Rightarrow> True | Some _ \<Rightarrow> False) ''assertion failed'')))))"

definition double_remove_returns_none :: "profile \<Rightarrow> unit res" where
  "double_remove_returns_none p =
     rbind (Arena_new 4) (\<lambda>a. rbind (alloc_unwrap p a (7 :: u64)) (\<lambda>(a, idx).
     rbind (remove_eq p a idx (Some 7)) (\<lambda>a. rbind (remove_eq p a idx None) (\<lambda>_. Inr ()))))"

definition stale_handle_after_slot_reuse_returns_none :: "profile \<Rightarrow> unit res" where
  "stale_handle_after_slot_reuse_returns_none p =
     rbind (Arena_new 4) (\<lambda>ar. rbind (alloc_unwrap p ar (1 :: u64)) (\<lambda>(ar, a).
     rbind (remove_only p ar a) (\<lambda>ar. rbind (alloc_unwrap p ar 2) (\<lambda>(ar, b).
     rbind (if idx_slot a = idx_slot b then assert_that (idx_generation a \<noteq> idx_generation b) ''generation must bump on reuse''
            else Inr ()) (\<lambda>_.
     rbind (get_eq ar a None) (\<lambda>_. get_eq ar b (Some 2)))))))"

section \<open>Capacity\<close>

definition alloc_returns_none_when_full :: "profile \<Rightarrow> unit res" where
  "alloc_returns_none_when_full p =
     rbind (Arena_new 2) (\<lambda>ar. rbind (alloc_unwrap p ar (1 :: u64)) (\<lambda>(ar, _). rbind (alloc_unwrap p ar 2) (\<lambda>(ar, _).
     rbind (alloc_is_none p ar 3) (\<lambda>_. Inr ()))))"

definition remove_makes_capacity_available_again :: "profile \<Rightarrow> unit res" where
  "remove_makes_capacity_available_again p =
     rbind (Arena_new 2) (\<lambda>ar. rbind (alloc_unwrap p ar (1 :: u64)) (\<lambda>(ar, a). rbind (alloc_unwrap p ar 2) (\<lambda>(ar, _).
     rbind (alloc_is_none p ar 3) (\<lambda>ar. rbind (remove_only p ar a) (\<lambda>ar.
     rbind (alloc_unwrap p ar 3) (\<lambda>(ar, c). get_eq ar c (Some 3)))))))"

definition free_list_is_lifo :: "profile \<Rightarrow> unit res" where
  "free_list_is_lifo p =
     rbind (Arena_new 4) (\<lambda>ar. rbind (alloc_unwrap p ar (1 :: u64)) (\<lambda>(ar, a).
     rbind (alloc_unwrap p ar 2) (\<lambda>(ar, b). rbind (alloc_unwrap p ar 3) (\<lambda>(ar, c).
     rbind (remove_only p ar a) (\<lambda>ar. rbind (remove_only p ar b) (\<lambda>ar. rbind (remove_only p ar c) (\<lambda>ar.
     rbind (alloc_unwrap p ar 10) (\<lambda>(ar, x). rbind (alloc_unwrap p ar 20) (\<lambda>(ar, y). rbind (alloc_unwrap p ar 30) (\<lambda>(ar, z).
       asserts [idx_slot x = idx_slot c, idx_slot y = idx_slot b, idx_slot z = idx_slot a]))))))))))"

section \<open>Generations\<close>

text \<open>The test pokes the private field \<open>generation\<close> of a slot and forges the handle that matches.\<close>

definition poke_generation :: "'a Arena \<Rightarrow> nat \<Rightarrow> u32 \<Rightarrow> 'a Arena res" where
  "poke_generation a i g =
     rbind (expect ''index out of bounds'' (slice_get (ar_slots a) i)) (\<lambda>s.
       Inr (a\<lparr>ar_slots := (ar_slots a)[i := s\<lparr>sl_generation := g\<rparr>]\<rparr>))"

definition generation_wraps_to_1_skipping_0 :: "profile \<Rightarrow> unit res" where
  "generation_wraps_to_1_skipping_0 p =
     rbind (Arena_new 1) (\<lambda>a. rbind (alloc_unwrap p a (42 :: u64)) (\<lambda>(a, idx).
     let slot_idx = unat (idx_slot idx) in
     rbind (poke_generation a slot_idx u32_MAX) (\<lambda>a.
     rbind (remove_eq p a (ArenaIdx_new (idx_slot idx) u32_MAX) (Some 42)) (\<lambda>a.
     rbind (assert_that (map_option sl_generation (slice_get (ar_slots a) slot_idx) = Some 1) ''generation must skip 0 on wraparound'') (\<lambda>_.
     rbind (alloc_unwrap p a 99) (\<lambda>(_, new_idx).
       asserts [is_valid new_idx, idx_generation new_idx = 1]))))))"

section \<open>Drop\<close>

text \<open>The destructor of \<open>Tracker\<close> counts: one call for the value \<open>remove\<close> returns and drops, and one for each
  value \<open>Drop for Arena\<close> finds.\<close>

definition drop_runs_on_remaining_occupants :: "profile \<Rightarrow> unit res" where
  "drop_runs_on_remaining_occupants p =
     rbind (Arena_new 4) (\<lambda>ar. rbind (alloc_unwrap p ar (1 :: u32)) (\<lambda>(ar, _).
     rbind (alloc_unwrap p ar 2) (\<lambda>(ar, b). rbind (alloc_unwrap p ar 3) (\<lambda>(ar, _).
     rbind (Arena_remove p ar b) (\<lambda>(ar, r).
     rbind (Arena_drop True ar) (\<lambda>dropped.
       assert_that ((case r of None \<Rightarrow> 0 | Some _ \<Rightarrow> 1) + length dropped = 3) ''Drop did not run on all live occupants''))))))"

section \<open>Generic instantiation\<close>

definition instantiates_with_u64 :: "profile \<Rightarrow> unit res" where
  "instantiates_with_u64 p =
     rbind (Arena_new 2) (\<lambda>a. rbind (alloc_unwrap p a (1 :: u64)) (\<lambda>(a, i). rbind (remove_eq p a i (Some 1)) (\<lambda>_. Inr ())))"

definition instantiates_with_u32 :: "profile \<Rightarrow> unit res" where
  "instantiates_with_u32 p =
     rbind (Arena_new 2) (\<lambda>a. rbind (alloc_unwrap p a (1 :: u32)) (\<lambda>(a, i). rbind (remove_eq p a i (Some 1)) (\<lambda>_. Inr ())))"

definition instantiates_with_tuple :: "profile \<Rightarrow> unit res" where
  "instantiates_with_tuple p =
     rbind (Arena_new 2) (\<lambda>a. rbind (alloc_unwrap p a (1 :: u32, 2 :: u32)) (\<lambda>(a, i). rbind (remove_eq p a i (Some (1, 2))) (\<lambda>_. Inr ())))"

definition instantiates_with_order :: "profile \<Rightarrow> unit res" where
  "instantiates_with_order p =
     (let order = \<lparr>o_order_id = OrderId 1, o_price = 100, o_quantity = 1, o_origin_ts = 0, o_instrument_id = 0, o_side = Ask,
                   o_order_type = Limit, o_tif = IOC, o_padding = 0, o_intent_hash = IntentHash (replicate 32 0)\<rparr> in
      rbind (Arena_new 2) (\<lambda>a. rbind (alloc_unwrap p a order) (\<lambda>(a, i).
      rbind (Arena_get a i) (\<lambda>r. assert_that (r \<noteq> None) ''Arena<Order> alloc/get round-trip failed''))))"

section \<open>Integrity of the free list\<close>

definition double_free_does_not_corrupt_list :: "profile \<Rightarrow> unit res" where
  "double_free_does_not_corrupt_list p =
     rbind (Arena_new 4) (\<lambda>ar. rbind (alloc_unwrap p ar (42 :: u64)) (\<lambda>(ar, idx).
     rbind (remove_eq p ar idx (Some 42)) (\<lambda>ar. rbind (remove_eq p ar idx None) (\<lambda>ar.
     rbind (alloc_unwrap p ar 1) (\<lambda>(ar, a). rbind (alloc_unwrap p ar 2) (\<lambda>(ar, b).
     rbind (assert_that (idx_slot a \<noteq> idx_slot b) ''free list corrupted by double-free'') (\<lambda>_.
     rbind (get_eq ar a (Some 1)) (\<lambda>_. get_eq ar b (Some 2)))))))))"

definition stale_remove_does_not_decrement_len :: "profile \<Rightarrow> unit res" where
  "stale_remove_does_not_decrement_len p =
     rbind (Arena_new 2) (\<lambda>ar. rbind (alloc_unwrap p ar (7 :: u64)) (\<lambda>(ar, idx).
     rbind (assert_that (ar_len ar = 1) ''assertion failed'') (\<lambda>_.
     rbind (remove_only p ar idx) (\<lambda>ar. rbind (assert_that (ar_len ar = 0) ''assertion failed'') (\<lambda>_.
     rbind (remove_only p ar idx) (\<lambda>ar. assert_that (ar_len ar = 0) ''len underflowed on stale remove''))))))"

definition arena_tests :: "(profile \<Rightarrow> unit res) list" where
  "arena_tests =
     [round_trip_alloc_get_remove, get_mut_allows_mutation, initial_alloc_handle_is_valid, get_after_remove_returns_none,
      double_remove_returns_none, stale_handle_after_slot_reuse_returns_none, alloc_returns_none_when_full,
      remove_makes_capacity_available_again, free_list_is_lifo, generation_wraps_to_1_skipping_0,
      drop_runs_on_remaining_occupants, instantiates_with_u64, instantiates_with_u32, instantiates_with_tuple,
      instantiates_with_order, double_free_does_not_corrupt_list, stale_remove_does_not_decrement_len]"

theorem arena_tests_pass: "suite_passes arena_tests p"
  by (rule suite_profiles) code_simp+

end
