(* ===== verification/Book_Tests.thy ===== *)
theory Book_Tests
  imports Test_Script Book_Props
begin

text \<open>The tests of \<open>orderbook/src/book.rs\<close>. Each starts from an empty book of 64 slots; \<open>make_order\<close> is their order builder.\<close>

definition book_test :: "OrderBook script list \<Rightarrow> unit res" where
  "book_test cs = run_test (OrderBook_new 1 64) cs"

text \<open>The calls of the tests: with \<open>unwrap()\<close>, with \<open>unwrap_err()\<close>, and inside an assertion.\<close>

definition insert_ok :: "profile \<Rightarrow> Order \<Rightarrow> OrderBook script" where
  "insert_ok p x b = rbind (OrderBook_insert p b x) (\<lambda>(b, r). case r of Inr _ \<Rightarrow> Inr b | Inl _ \<Rightarrow> Inl (Panic ''unwrap on Err''))"

definition insert_err :: "profile \<Rightarrow> Order \<Rightarrow> InsertError \<Rightarrow> OrderBook script" where
  "insert_err p x expected b =
     rbind (OrderBook_insert p b x) (\<lambda>(b, r).
       case r of Inr _ \<Rightarrow> Inl (Panic ''unwrap_err on Ok'')
       | Inl e \<Rightarrow> rbind (assert_that (e = expected) ''assertion failed'') (\<lambda>_. Inr b))"

definition cancel_eq :: "profile \<Rightarrow> IntentHash \<Rightarrow> Order option \<Rightarrow> OrderBook script" where
  "cancel_eq p h expected b =
     rbind (OrderBook_cancel p b h) (\<lambda>(b, r). rbind (assert_that (r = expected) ''assertion failed'') (\<lambda>_. Inr b))"

definition cancel_unwrap :: "profile \<Rightarrow> IntentHash \<Rightarrow> OrderBook script" where
  "cancel_unwrap p h b = rbind (OrderBook_cancel p b h) (\<lambda>(b, r). rbind (unwrap r) (\<lambda>_. Inr b))"

definition pop_eq :: "profile \<Rightarrow> Side \<Rightarrow> Order option \<Rightarrow> OrderBook script" where
  "pop_eq p side expected b =
     rbind (pop_top p b side) (\<lambda>(b, r). rbind (assert_that (r = expected) ''assertion failed'') (\<lambda>_. Inr b))"

definition pop_unwrap :: "profile \<Rightarrow> Side \<Rightarrow> OrderBook script" where
  "pop_unwrap p side b = rbind (pop_top p b side) (\<lambda>(b, r). rbind (unwrap r) (\<lambda>_. Inr b))"

definition reduce :: "profile \<Rightarrow> Side \<Rightarrow> u64 \<Rightarrow> OrderBook script" where
  "reduce p side qty b = reduce_top p b side qty"

text \<open>\<open>let (price, level) = book.best_bid().unwrap()\<close> and the three fields the tests compare.\<close>

definition bid_price :: "OrderBook \<Rightarrow> u64 option" where
  "bid_price b = map_option fst (best_bid b)"

definition bid_qty :: "OrderBook \<Rightarrow> u64 option" where
  "bid_qty b = map_option (\<lambda>(_, level). PriceLevel_total_qty level) (best_bid b)"

definition bid_len :: "OrderBook \<Rightarrow> usize option" where
  "bid_len b = map_option (\<lambda>(_, level). PriceLevel_len level) (best_bid b)"

text \<open>Code equations for the two depth views.\<close>

lemma depth_code [code]:
  "bid_depth b n = map (\<lambda>(p, l). (p, PriceLevel_total_qty l)) (take_u n (rev (ob_bids b)))"
  "ask_depth b n = map (\<lambda>(p, l). (p, PriceLevel_total_qty l)) (take_u n (ob_asks b))"
  by (simp_all add: bid_depth_def ask_depth_def take_u)

section \<open>Insertion\<close>

definition insert_one_bid_makes_it_best :: "profile \<Rightarrow> unit res" where
  "insert_one_bid_makes_it_best p = book_test
     [insert_ok p (make_order 100 10 Bid 1),
      check (\<lambda>b. bid_price b = Some 100), check (\<lambda>b. bid_qty b = Some 10), check (\<lambda>b. bid_len b = Some 1)]"

definition duplicate_intent_rejected :: "profile \<Rightarrow> unit res" where
  "duplicate_intent_rejected p = book_test
     [insert_ok p (make_order 100 10 Bid 1), insert_err p (make_order 101 5 Bid 1) IeDuplicateIntent]"

definition two_orders_same_price_share_level :: "profile \<Rightarrow> unit res" where
  "two_orders_same_price_share_level p = book_test
     [insert_ok p (make_order 100 10 Bid 1), insert_ok p (make_order 100 7 Bid 2),
      check (\<lambda>b. bid_qty b = Some 17), check (\<lambda>b. bid_len b = Some 2)]"

definition higher_bid_beats_lower :: "profile \<Rightarrow> unit res" where
  "higher_bid_beats_lower p = book_test
     [insert_ok p (make_order 100 10 Bid 1), insert_ok p (make_order 105 5 Bid 2), check (\<lambda>b. bid_price b = Some 105)]"

section \<open>Cancellation\<close>

definition cancel_existing_order_returns_it :: "profile \<Rightarrow> unit res" where
  "cancel_existing_order_returns_it p =
     (let original = make_order 100 10 Bid 1 in book_test
       [insert_ok p original, cancel_eq p (o_intent_hash original) (Some original)])"

definition cancel_nonexistent_returns_none :: "profile \<Rightarrow> unit res" where
  "cancel_nonexistent_returns_none p = book_test [cancel_eq p (IntentHash (replicate 32 99)) None]"

definition cancel_updates_total_qty :: "profile \<Rightarrow> unit res" where
  "cancel_updates_total_qty p =
     (let a = make_order 100 10 Bid 1; b = make_order 100 7 Bid 2 in book_test
       [insert_ok p a, insert_ok p b, cancel_unwrap p (o_intent_hash a),
        check (\<lambda>b. bid_qty b = Some 7), check (\<lambda>b. bid_len b = Some 1)])"

definition cancel_empties_level_removes_it :: "profile \<Rightarrow> unit res" where
  "cancel_empties_level_removes_it p =
     (let order = make_order 100 10 Bid 1 in book_test
       [insert_ok p order, check (\<lambda>b. best_bid b \<noteq> None), cancel_unwrap p (o_intent_hash order), check (\<lambda>b. best_bid b = None)])"

definition cancel_one_of_many_levels_preserves_others :: "profile \<Rightarrow> unit res" where
  "cancel_one_of_many_levels_preserves_others p =
     (let a = make_order 100 10 Bid 1; b = make_order 105 5 Bid 2 in book_test
       [insert_ok p a, insert_ok p b, cancel_unwrap p (o_intent_hash b), check (\<lambda>b. bid_price b = Some 100)])"

definition cancel_then_reinsert_same_hash_works :: "profile \<Rightarrow> unit res" where
  "cancel_then_reinsert_same_hash_works p =
     (let order = make_order 100 10 Bid 1 in book_test
       [insert_ok p order, cancel_unwrap p (o_intent_hash order), insert_ok p order])"

section \<open>Popping\<close>

definition pop_top_single_order_returns_it :: "profile \<Rightarrow> unit res" where
  "pop_top_single_order_returns_it p =
     (let order = make_order 100 10 Bid 1 in book_test
       [insert_ok p order, pop_eq p Bid (Some order), check (\<lambda>b. best_bid b = None)])"

definition pop_top_fifo_order :: "profile \<Rightarrow> unit res" where
  "pop_top_fifo_order p =
     (let a = make_order 100 10 Bid 1; b = make_order 100 7 Bid 2 in book_test
       [insert_ok p a, insert_ok p b, pop_eq p Bid (Some a), pop_eq p Bid (Some b)])"

definition pop_top_empty_side_returns_none :: "profile \<Rightarrow> unit res" where
  "pop_top_empty_side_returns_none p = book_test [pop_eq p Bid None, pop_eq p Ask None]"

definition pop_top_then_reinsert_works :: "profile \<Rightarrow> unit res" where
  "pop_top_then_reinsert_works p =
     (let order = make_order 100 10 Bid 1 in book_test [insert_ok p order, pop_unwrap p Bid, insert_ok p order])"

definition pop_top_walks_levels :: "profile \<Rightarrow> unit res" where
  "pop_top_walks_levels p =
     (let a = make_order 100 10 Bid 1; b = make_order 105 5 Bid 2 in book_test
       [insert_ok p a, insert_ok p b,
        \<lambda>bk. rbind (pop_top p bk Bid) (\<lambda>(bk, r). rbind (unwrap r) (\<lambda>popped. check (\<lambda>_. o_price popped = 105) bk)),
        check (\<lambda>b. bid_price b = Some 100)])"

section \<open>Reducing\<close>

definition reduce_top_partial_qty :: "profile \<Rightarrow> unit res" where
  "reduce_top_partial_qty p = book_test
     [insert_ok p (make_order 100 10 Bid 1), reduce p Bid 3, check (\<lambda>b. bid_qty b = Some 7), check (\<lambda>b. bid_len b = Some 1)]"

definition reduce_top_preserves_head_identity :: "profile \<Rightarrow> unit res" where
  "reduce_top_preserves_head_identity p =
     rbind (OrderBook_new 1 64) (\<lambda>b.
     rbind (insert_ok p (make_order 100 10 Bid 1) b) (\<lambda>b.
     rbind (peek_top b Bid) (\<lambda>r. rbind (unwrap r) (\<lambda>top_before.
     rbind (reduce p Bid 4 b) (\<lambda>b.
     rbind (peek_top b Bid) (\<lambda>r. rbind (unwrap r) (\<lambda>top_after.
       asserts [tv_arena_idx top_after = tv_arena_idx top_before, o_quantity (tv_order top_after) = 6])))))))"

definition reduce_top_multiple_calls_compound :: "profile \<Rightarrow> unit res" where
  "reduce_top_multiple_calls_compound p = book_test
     [insert_ok p (make_order 100 10 Bid 1), reduce p Bid 2, reduce p Bid 3, check (\<lambda>b. bid_qty b = Some 5)]"

text \<open>The two tests marked \<open>should_panic\<close>.\<close>

definition reduce_top_empty_side_panics_in_debug :: "profile \<Rightarrow> unit res" where
  "reduce_top_empty_side_panics_in_debug p = book_test [reduce p Bid 1]"

definition reduce_top_overfill_panics_in_debug :: "profile \<Rightarrow> unit res" where
  "reduce_top_overfill_panics_in_debug p = book_test [insert_ok p (make_order 100 10 Bid 1), reduce p Bid 10]"

section \<open>Cancelling inside a level\<close>

definition cancel_middle_of_three_preserves_fifo :: "profile \<Rightarrow> unit res" where
  "cancel_middle_of_three_preserves_fifo p =
     (let a = make_order 100 10 Bid 1; b = make_order 100 7 Bid 2; c = make_order 100 3 Bid 3 in book_test
       [insert_ok p a, insert_ok p b, insert_ok p c, cancel_unwrap p (o_intent_hash b),
        check (\<lambda>b. bid_len b = Some 2), check (\<lambda>b. bid_qty b = Some 13),
        pop_eq p Bid (Some a), pop_eq p Bid (Some c), check (\<lambda>b. best_bid b = None)])"

definition cancel_head_of_many_advances_head :: "profile \<Rightarrow> unit res" where
  "cancel_head_of_many_advances_head p =
     (let a = make_order 100 10 Bid 1; b = make_order 100 7 Bid 2; c = make_order 100 3 Bid 3 in book_test
       [insert_ok p a, insert_ok p b, insert_ok p c, cancel_unwrap p (o_intent_hash a),
        \<lambda>bk. rbind (peek_top bk Bid) (\<lambda>r. rbind (unwrap r) (\<lambda>top.
          check (\<lambda>_. o_intent_hash (tv_order top) = o_intent_hash b) bk)),
        pop_eq p Bid (Some b), pop_eq p Bid (Some c)])"

definition cancel_tail_of_many_retracts_tail :: "profile \<Rightarrow> unit res" where
  "cancel_tail_of_many_retracts_tail p =
     (let a = make_order 100 10 Bid 1; b = make_order 100 7 Bid 2; c = make_order 100 3 Bid 3; d = make_order 100 5 Bid 4 in book_test
       [insert_ok p a, insert_ok p b, insert_ok p c, cancel_unwrap p (o_intent_hash c), insert_ok p d,
        pop_eq p Bid (Some a), pop_eq p Bid (Some b), pop_eq p Bid (Some d), check (\<lambda>b. best_bid b = None)])"

definition cancel_drains_level_in_mixed_order_then_rebuilds :: "profile \<Rightarrow> unit res" where
  "cancel_drains_level_in_mixed_order_then_rebuilds p =
     (let a = make_order 100 10 Bid 1; b = make_order 100 7 Bid 2; c = make_order 100 3 Bid 3; e = make_order 100 4 Bid 5 in book_test
       [insert_ok p a, insert_ok p b, insert_ok p c,
        cancel_unwrap p (o_intent_hash b), cancel_unwrap p (o_intent_hash c), cancel_unwrap p (o_intent_hash a),
        check (\<lambda>b. best_bid b = None), insert_ok p e, check (\<lambda>b. bid_len b = Some 1), pop_eq p Bid (Some e)])"

text \<open>The checker itself: the total of a level is overwritten, then \<open>assert_invariants\<close> is called.\<close>

definition invariant_check_catches_total_qty_drift :: "profile \<Rightarrow> unit res" where
  "invariant_check_catches_total_qty_drift p = book_test
     [insert_ok p (make_order 100 10 Bid 1),
      \<lambda>b. rbind (unwrap (bt_get (ob_bids b) 100)) (\<lambda>level.
        Inr (b\<lparr>ob_bids := bt_insert 100 (level\<lparr>lv_total_qty := 999\<rparr>) (ob_bids b)\<rparr>)),
      \<lambda>b. rbind (assert_invariants b) (\<lambda>_. Inr b)]"

section \<open>The suite\<close>

definition book_tests :: "(profile \<Rightarrow> unit res) list" where
  "book_tests =
     [insert_one_bid_makes_it_best, duplicate_intent_rejected, two_orders_same_price_share_level, higher_bid_beats_lower,
      cancel_existing_order_returns_it, cancel_nonexistent_returns_none, cancel_updates_total_qty,
      cancel_empties_level_removes_it, cancel_one_of_many_levels_preserves_others, cancel_then_reinsert_same_hash_works,
      pop_top_single_order_returns_it, pop_top_fifo_order, pop_top_empty_side_returns_none, pop_top_then_reinsert_works,
      pop_top_walks_levels, reduce_top_partial_qty, reduce_top_preserves_head_identity, reduce_top_multiple_calls_compound,
      cancel_middle_of_three_preserves_fifo, cancel_head_of_many_advances_head, cancel_tail_of_many_retracts_tail,
      cancel_drains_level_in_mixed_order_then_rebuilds]"

lemma book_tests_debug: "suite_passes book_tests Debug"
  by code_simp

lemma book_tests_release: "suite_passes book_tests Release"
  by code_simp

theorem book_tests_pass: "suite_passes book_tests p"
  by (rule suite_profiles [OF book_tests_debug book_tests_release])

text \<open>The tests marked \<open>should_panic\<close>. The two on \<open>reduce_top\<close> panic in a debug build only; in release the call on
  an empty side returns, as the comment in the test says.\<close>

theorem book_panic_tests:
  "reduce_top_empty_side_panics_in_debug Debug = Inl (Panic ''reduce_top called on empty side'')"
  "reduce_top_empty_side_panics_in_debug Release = Inr ()"
  "reduce_top_overfill_panics_in_debug Debug =
     Inl (Panic ''invariant: reduce top called with full qty, use pop_top for full consumption'')"
  "reduce_top_overfill_panics_in_debug Release = Inr ()"
  "invariant_check_catches_total_qty_drift Debug = Inl (Panic ''I2 violated: total_qty'')"
  "invariant_check_catches_total_qty_drift Release = Inl (Panic ''I2 violated: total_qty'')"
  by code_simp+

end
