(* ===== verification/Engine_Tests.thy ===== *)
theory Engine_Tests
  imports Book_Tests Match_Props Engine
begin

text \<open>The tests of \<open>matcher/src/engine.rs\<close>; \<open>test_req\<close> is their request builder.\<close>

definition engine_with_book :: "Engine res" where
  "engine_with_book =
     rbind (add_instrument Engine_new 1 64) (\<lambda>(e, r). case r of Inr _ \<Rightarrow> Inr e | Inl _ \<Rightarrow> Inl (Panic ''unwrap on Err''))"

definition rest_maker :: "profile \<Rightarrow> Side \<Rightarrow> u64 \<Rightarrow> u64 \<Rightarrow> u8 \<Rightarrow> Engine script" where
  "rest_maker p side price qty hash_byte e =
     rbind (Engine_process Vec_emit p e (test_req side price qty GTC RqNew hash_byte) []) (\<lambda>(e, out).
     rbind (assert_that (case out of [EvNew _] \<Rightarrow> True | _ \<Rightarrow> False) ''maker should rest'') (\<lambda>_. Inr e))"

definition run_req :: "profile \<Rightarrow> Engine \<Rightarrow> OrderRequest \<Rightarrow> (Engine \<times> OrderEvent list) res" where
  "run_req p e r = Engine_process Vec_emit p e r []"

text \<open>Assertion helpers.\<close>

definition is_fill_event :: "OrderEvent \<Rightarrow> bool" where
  "is_fill_event ev = (case ev of EvFill _ _ _ _ _ \<Rightarrow> True | EvPartialFill _ _ _ _ _ _ \<Rightarrow> True | _ \<Rightarrow> False)"

definition fill_count :: "OrderEvent list \<Rightarrow> nat" where
  "fill_count ev = length (filter is_fill_event ev)"

definition reject_of :: "OrderEvent list \<Rightarrow> (RejectReason \<times> u64) option" where
  "reject_of ev =
     (case List.map_filter (\<lambda>e. case e of EvReject _ reason remaining_qty _ _ \<Rightarrow> Some (reason, remaining_qty) | _ \<Rightarrow> None) ev of
        [] \<Rightarrow> None | x # _ \<Rightarrow> Some x)"

definition new_event :: "OrderEvent list \<Rightarrow> Order option" where
  "new_event ev =
     (case List.map_filter (\<lambda>e. case e of EvNew x \<Rightarrow> Some x | _ \<Rightarrow> None) ev of [] \<Rightarrow> None | x # _ \<Rightarrow> Some x)"

text \<open>\<open>e.book(INSTR).unwrap()\<close>, and what the tests read of it.\<close>

definition book_of :: "Engine \<Rightarrow> OrderBook res" where
  "book_of e = unwrap (Engine_book e 1)"

definition level_view :: "(u64 \<times> PriceLevel) option \<Rightarrow> (u64 \<times> u64) option" where
  "level_view = map_option (\<lambda>(price, level). (price, PriceLevel_total_qty level))"

text \<open>A test that rests makers, runs one request and looks at the events and the book.\<close>

definition engine_test :: "profile \<Rightarrow> Engine script list \<Rightarrow> OrderRequest \<Rightarrow> (OrderEvent list \<Rightarrow> OrderBook \<Rightarrow> bool list) \<Rightarrow> unit res" where
  "engine_test p makers r checks =
     rbind engine_with_book (\<lambda>e. rbind (run_script makers e) (\<lambda>e.
     rbind (run_req p e r) (\<lambda>(e, out). rbind (book_of e) (\<lambda>b. asserts (checks out b)))))"

section \<open>GTC\<close>

definition gtc_with_no_cross_rests_whole_order :: "profile \<Rightarrow> unit res" where
  "gtc_with_no_cross_rests_whole_order p =
     engine_test p [] (test_req Bid 100 10 GTC RqNew 1) (\<lambda>out b.
       [fill_count out = 0, reject_of out = None,
        map_option (\<lambda>rested. (o_price rested, o_quantity rested)) (new_event out) = Some (100, 10),
        level_view (best_bid b) = Some (100, 10)])"

definition gtc_partial_cross_rests_remainder :: "profile \<Rightarrow> unit res" where
  "gtc_partial_cross_rests_remainder p =
     engine_test p [rest_maker p Ask 100 4 1] (test_req Bid 100 10 GTC RqNew 2) (\<lambda>out b.
       [fill_count out = 2, reject_of out = None, map_option o_quantity (new_event out) = Some 6,
        best_ask b = None, map_option snd (level_view (best_bid b)) = Some 6])"

section \<open>IOC\<close>

definition ioc_partial_fill_rejects_only_unfilled_remainder :: "profile \<Rightarrow> unit res" where
  "ioc_partial_fill_rejects_only_unfilled_remainder p =
     engine_test p [rest_maker p Ask 100 4 1] (test_req Bid 100 10 IOC RqNew 2) (\<lambda>out b.
       [fill_count out = 2, reject_of out = Some (InsufficientLiquidity, 6), best_bid b = None])"

definition ioc_with_no_liquidity_rejects_full_quantity_no_fills :: "profile \<Rightarrow> unit res" where
  "ioc_with_no_liquidity_rejects_full_quantity_no_fills p =
     engine_test p [] (test_req Bid 100 10 IOC RqNew 1) (\<lambda>out b.
       [fill_count out = 0, reject_of out = Some (InsufficientLiquidity, 10), best_bid b = None])"

section \<open>FOK\<close>

definition fok_insufficient_liquidity_rejects_with_zero_fills :: "profile \<Rightarrow> unit res" where
  "fok_insufficient_liquidity_rejects_with_zero_fills p =
     engine_test p [rest_maker p Ask 100 4 1] (test_req Bid 100 10 FOK RqNew 2) (\<lambda>out b.
       [fill_count out = 0, reject_of out = Some (InsufficientLiquidity, 10), map_option snd (level_view (best_ask b)) = Some 4])"

definition fok_sufficient_liquidity_fills_completely :: "profile \<Rightarrow> unit res" where
  "fok_sufficient_liquidity_fills_completely p =
     engine_test p [rest_maker p Ask 100 12 1] (test_req Bid 100 10 FOK RqNew 2) (\<lambda>out b.
       [fill_count out = 2, reject_of out = None, map_option snd (level_view (best_ask b)) = Some 2])"

definition fok_pre_check_respects_price_limit :: "profile \<Rightarrow> unit res" where
  "fok_pre_check_respects_price_limit p =
     engine_test p [rest_maker p Ask 110 50 1] (test_req Bid 100 10 FOK RqNew 2) (\<lambda>out b.
       [fill_count out = 0, reject_of out = Some (InsufficientLiquidity, 10), map_option snd (level_view (best_ask b)) = Some 50])"

section \<open>Price-time priority\<close>

definition fill_prices :: "OrderEvent list \<Rightarrow> u64 list" where
  "fill_prices = List.map_filter (\<lambda>ev. case ev of
     EvFill _ _ fill_price _ _ \<Rightarrow> Some fill_price | EvPartialFill _ _ fill_price _ _ _ \<Rightarrow> Some fill_price | _ \<Rightarrow> None)"

definition trade_executes_at_resting_maker_price :: "profile \<Rightarrow> unit res" where
  "trade_executes_at_resting_maker_price p =
     engine_test p [rest_maker p Ask 100 10 1] (test_req Bid 105 10 GTC RqNew 2) (\<lambda>out b.
       (fill_count out = 2) # map (\<lambda>fill_price. fill_price = 100) (fill_prices out))"

definition maker_seq :: "OrderEvent list \<Rightarrow> u8 list" where
  "maker_seq = List.map_filter (\<lambda>ev.
     case (case ev of EvFill _ _ _ _ h \<Rightarrow> Some (hash_bytes h ! 0) | EvPartialFill _ _ _ _ _ h \<Rightarrow> Some (hash_bytes h ! 0) | _ \<Rightarrow> None) of
       None \<Rightarrow> None | Some ih \<Rightarrow> if ih \<noteq> 9 then Some ih else None)"

definition taker_sweeps_multiple_makers_at_one_level_in_fifo :: "profile \<Rightarrow> unit res" where
  "taker_sweeps_multiple_makers_at_one_level_in_fifo p =
     engine_test p [rest_maker p Ask 100 4 1, rest_maker p Ask 100 3 2, rest_maker p Ask 100 5 3] (test_req Bid 100 10 IOC RqNew 9) (\<lambda>out b.
       [fill_count out = 6, reject_of out = None, maker_seq out = [1, 2, 3], map_option snd (level_view (best_ask b)) = Some 2])"

definition taker_sweeps_across_price_levels_best_first :: "profile \<Rightarrow> unit res" where
  "taker_sweeps_across_price_levels_best_first p =
     engine_test p [rest_maker p Ask 100 5 1, rest_maker p Ask 101 5 2] (test_req Bid 101 8 IOC RqNew 9) (\<lambda>out b.
       [fill_count out = 4, reject_of out = None, fill_prices out = [100, 100, 101, 101], level_view (best_ask b) = Some (101, 2)])"

section \<open>A sink that is no vector\<close>

record CountingSink =
  cs_fills :: usize
  cs_rejects :: usize
  cs_total :: usize

definition CountingSink_default :: CountingSink where
  "CountingSink_default = \<lparr>cs_fills = 0, cs_rejects = 0, cs_total = 0\<rparr>"

text \<open>The counters cannot overflow before \<open>2^64\<close> events; \<open>+=\<close> is the addition of words.\<close>

definition CountingSink_emit :: "CountingSink \<Rightarrow> OrderEvent \<Rightarrow> CountingSink" where
  "CountingSink_emit s event =
     (let s = s\<lparr>cs_total := cs_total s + 1\<rparr> in
      case event of
        EvFill _ _ _ _ _ \<Rightarrow> s\<lparr>cs_fills := cs_fills s + 1\<rparr>
      | EvPartialFill _ _ _ _ _ _ \<Rightarrow> s\<lparr>cs_fills := cs_fills s + 1\<rparr>
      | EvReject _ _ _ _ _ \<Rightarrow> s\<lparr>cs_rejects := cs_rejects s + 1\<rparr>
      | _ \<Rightarrow> s)"

definition emits_through_a_non_vec_sink :: "profile \<Rightarrow> unit res" where
  "emits_through_a_non_vec_sink p =
     rbind engine_with_book (\<lambda>e. rbind (rest_maker p Ask 100 4 1 e) (\<lambda>e.
     rbind (Engine_process CountingSink_emit p e (test_req Bid 100 10 IOC RqNew 2) CountingSink_default) (\<lambda>(_, sink).
       asserts [cs_fills sink = 2, cs_rejects sink = 1, cs_total sink = 3])))"

section \<open>The checker of the engine\<close>

definition raw_order :: "Side \<Rightarrow> u64 \<Rightarrow> u64 \<Rightarrow> u8 \<Rightarrow> Order" where
  "raw_order side price qty hash_byte =
     \<lparr>o_order_id = OrderId (ucast hash_byte), o_price = price, o_quantity = qty, o_origin_ts = 0, o_instrument_id = 1, o_side = side,
      o_order_type = Limit, o_tif = GTC, o_padding = 0, o_intent_hash = IntentHash (hash_byte # replicate 31 0)\<rparr>"

text \<open>The crossed book is made behind the engine's back, through the reference \<open>book_mut\<close> gives to the tests:
  the book, and the engine with another book in its place.\<close>

definition book_mut :: "Engine \<Rightarrow> u32 \<Rightarrow> (OrderBook \<times> (OrderBook \<Rightarrow> Engine)) option" where
  "book_mut e instrument_id =
     map_option (\<lambda>b. (b, \<lambda>b'. e\<lparr>en_books := hm_insert instrument_id b' (en_books e)\<rparr>)) (hm_get (en_books e) instrument_id)"

definition engine_invariant_catches_crossed_book :: "profile \<Rightarrow> unit res" where
  "engine_invariant_catches_crossed_book p =
     rbind engine_with_book (\<lambda>e. rbind (unwrap (book_mut e 1)) (\<lambda>(b, write).
     rbind (run_script [insert_ok p (raw_order Bid 105 10 1), insert_ok p (raw_order Ask 100 10 2)] b) (\<lambda>b.
       Engine_assert_invariants (write b))))"

section \<open>The suite\<close>

definition engine_tests :: "(profile \<Rightarrow> unit res) list" where
  "engine_tests =
     [gtc_with_no_cross_rests_whole_order, gtc_partial_cross_rests_remainder, ioc_partial_fill_rejects_only_unfilled_remainder,
      ioc_with_no_liquidity_rejects_full_quantity_no_fills, fok_insufficient_liquidity_rejects_with_zero_fills,
      fok_sufficient_liquidity_fills_completely, fok_pre_check_respects_price_limit, trade_executes_at_resting_maker_price,
      taker_sweeps_multiple_makers_at_one_level_in_fifo, taker_sweeps_across_price_levels_best_first, emits_through_a_non_vec_sink]"

lemma engine_tests_debug: "suite_passes engine_tests Debug"
  by code_simp

lemma engine_tests_release: "suite_passes engine_tests Release"
  by code_simp

theorem engine_tests_pass: "suite_passes engine_tests p"
  by (rule suite_profiles [OF engine_tests_debug engine_tests_release])

theorem engine_panic_test:
  "engine_invariant_catches_crossed_book Debug = Inl (Panic ''M1 violated: book is crossed at rest'')"
  "engine_invariant_catches_crossed_book Release = Inl (Panic ''M1 violated: book is crossed at rest'')"
  by code_simp+

end
