(* ===== verification/Ipc_Tests.thy ===== *)
theory Ipc_Tests
  imports Test_Script Ipc_Queue
begin

text \<open>The tests of \<open>ipc/tests/roundtrip.rs\<close> and \<open>ipc/tests/lap_policy.rs\<close>: a ring of \<open>u64\<close>, its producer and one consumer.\<close>

record RingTest =
  rt_queue :: "u64 Queue"
  rt_prod :: Producer
  rt_cons :: Consumer

definition ring_test :: "u32 \<Rightarrow> LapPolicy \<Rightarrow> RingTest script list \<Rightarrow> unit res" where
  "ring_test capacity policy cs =
     run_test (rbind (Queue_new 0 capacity) (\<lambda>(q, pd). Inr \<lparr>rt_queue = q, rt_prod = pd, rt_cons = subscribe q policy\<rparr>)) cs"

definition pub :: "profile \<Rightarrow> u64 \<Rightarrow> RingTest script" where
  "pub p v t = rbind (publish p (rt_queue t) (rt_prod t) v) (\<lambda>(q, pd, _). Inr (t\<lparr>rt_queue := q, rt_prod := pd\<rparr>))"

definition poll_eq :: "profile \<Rightarrow> u64 PollResult \<Rightarrow> RingTest script" where
  "poll_eq p expected t =
     rbind (poll p (rt_queue t) (rt_cons t)) (\<lambda>(c, r).
     rbind (assert_that (r = expected) ''assertion failed'') (\<lambda>_. Inr (t\<lparr>rt_cons := c\<rparr>)))"

definition resubscribe :: "LapPolicy \<Rightarrow> RingTest script" where
  "resubscribe policy t = Inr (t\<lparr>rt_cons := subscribe (rt_queue t) policy\<rparr>)"

definition publish_then_poll_roundtrip :: "profile \<Rightarrow> unit res" where
  "publish_then_poll_roundtrip p = ring_test 8 SkipToLatest
     (map (\<lambda>i. pub p (of_nat i * 10)) [0..<5] @ map (\<lambda>i. poll_eq p (Ready (of_nat i * 10))) [0..<5] @ [poll_eq p Empty])"

text \<open>The consumer of this test subscribes only after the five publications.\<close>

definition subscribe_after_publish_sees_no_history :: "profile \<Rightarrow> unit res" where
  "subscribe_after_publish_sees_no_history p = ring_test 8 SkipToLatest
     (map (\<lambda>i. pub p (of_nat i)) [0..<5] @ [resubscribe SkipToLatest, poll_eq p Empty])"

definition halt_is_sticky :: "profile \<Rightarrow> unit res" where
  "halt_is_sticky p = ring_test 4 Halt
     (map (\<lambda>i. pub p (of_nat i)) [0..<6] @ [poll_eq p (Halted 0 6), poll_eq p (Halted 0 6), check (\<lambda>t. is_halted (rt_cons t))])"

definition skip_to_latest_resyncs_then_resumes :: "profile \<Rightarrow> unit res" where
  "skip_to_latest_resyncs_then_resumes p = ring_test 4 SkipToLatest
     (map (\<lambda>i. pub p (of_nat i)) [0..<6] @ [poll_eq p (Skipped 6 6), poll_eq p Empty, pub p 999, poll_eq p (Ready 999)])"

definition panic_policy_panics :: "profile \<Rightarrow> unit res" where
  "panic_policy_panics p = ring_test 4 LpPanic
     (map (\<lambda>i. pub p (of_nat i)) [0..<6] @ [\<lambda>t. rbind (poll p (rt_queue t) (rt_cons t)) (\<lambda>(c, _). Inr (t\<lparr>rt_cons := c\<rparr>))])"

definition ring_tests :: "(profile \<Rightarrow> unit res) list" where
  "ring_tests =
     [publish_then_poll_roundtrip, subscribe_after_publish_sees_no_history, halt_is_sticky, skip_to_latest_resyncs_then_resumes]"

theorem ring_tests_pass: "suite_passes ring_tests p"
  by (rule suite_profiles) code_simp+

theorem ring_panic_test:
  "panic_policy_panics Debug = Inl (Panic ''ipc consumer lapped'')"
  "panic_policy_panics Release = Inl (Panic ''ipc consumer lapped'')"
  by code_simp+

end
