(* ===== verification/Wire_Tests.thy ===== *)
theory Wire_Tests
  imports Test_Script Wire
begin

text \<open>
  The tests of \<open>types/src/events.rs\<close>. The byte casts of bytemuck are parameters, as in the
  conversions; the suite passes for every pair of casts that meets the contract of \<open>wire_format\<close>.
\<close>

definition sample_order :: Order where
  "sample_order =
     \<lparr>o_order_id = OrderId 0xDEADBEEFCAFEBABE, o_price = 1234500000000, o_quantity = 11000, o_origin_ts = 999999999,
      o_instrument_id = 42, o_side = Ask, o_order_type = Limit, o_tif = IOC, o_padding = 0,
      o_intent_hash = IntentHash (replicate 32 0)\<rparr>"

text \<open>\<open>let back = pod.try_into().unwrap()\<close> and the comparison with the original.\<close>

definition back_eq :: "(u8 list \<Rightarrow> Order option) \<Rightarrow> (u8 list \<Rightarrow> RejectReason option) \<Rightarrow> PodOrderEvent \<Rightarrow> OrderEvent \<Rightarrow> unit res" where
  "back_eq try_order try_reason pod original =
     rbind (OrderEvent_try_from try_order try_reason pod) (\<lambda>r.
       case r of Inl _ \<Rightarrow> Inl (Panic ''Failed to convert back to OrderEvent'')
       | Inr back \<Rightarrow> assert_that (original = back) ''assertion failed'')"

definition fill_round_trip where
  "fill_round_trip bytes_of try_order try_reason =
     (let original = EvFill 42 100 50000 7777777 (IntentHash (replicate 32 0xAB)) in
      rbind (PodOrderEvent_from bytes_of original) (\<lambda>pod.
      rbind (asserts [pe_tag pod = 1, pe_origin_ts pod = 7777777]) (\<lambda>_. back_eq try_order try_reason pod original)))"

definition new_round_trip_preserves_all_enum_fields where
  "new_round_trip_preserves_all_enum_fields bytes_of try_order try_reason =
     (let original = EvNew sample_order in
      rbind (PodOrderEvent_from bytes_of original) (\<lambda>pod.
      rbind (asserts [pe_tag pod = 0, pe_origin_ts pod = 999999999]) (\<lambda>_. back_eq try_order try_reason pod original)))"

definition cancel_zeros_unused_payload_bytes where
  "cancel_zeros_unused_payload_bytes bytes_of =
     rbind (PodOrderEvent_from bytes_of (EvCancel 7 1 (IntentHash (replicate 32 0)))) (\<lambda>pod.
       asserts (map (\<lambda>b. b = 0) (drop 40 (pe_payload pod))))"

definition unknown_tag_returns_err where
  "unknown_tag_returns_err try_order try_reason =
     (let pod = \<lparr>pe_tag = 99, pe_pad = replicate 7 0, pe_origin_ts = 0, pe_payload = replicate 72 0\<rparr> in
      rbind (OrderEvent_try_from try_order try_reason pod) (\<lambda>r.
        if r = Inl (InvalidTag 99) then Inr () else Inl (Panic ''expected InvalidTag(99)'')))"

definition pod_order_event_size_is_88_bytes :: "unit res" where
  "pod_order_event_size_is_88_bytes =
     asserts [repr_c_size PodOrderEvent_layout = 88, repr_c_align PodOrderEvent_layout = 8]"

definition hash_cases :: "OrderEvent list" where
  "hash_cases =
     (let hash = IntentHash (replicate 32 0x5A) in
      [EvFill 1 2 3 4 hash, EvPartialFill 1 2 3 4 5 hash, EvCancel 1 2 hash, EvReject 1 InvalidPrice 7 2 hash])"

definition round_trip_case where
  "round_trip_case bytes_of try_order try_reason original =
     rbind (PodOrderEvent_from bytes_of original) (\<lambda>pod. back_eq try_order try_reason pod original)"

definition intent_hash_round_trips_for_every_variant where
  "intent_hash_round_trips_for_every_variant bytes_of try_order try_reason =
     run_script (map (\<lambda>original _. round_trip_case bytes_of try_order try_reason original) hash_cases) ()"

definition fill_origin_ts_propagates_round_trip where
  "fill_origin_ts_propagates_round_trip bytes_of try_order try_reason =
     round_trip_case bytes_of try_order try_reason (EvFill 1 1 1 0xCAFEF00DBABEBEEF (IntentHash (replicate 32 0)))"

context wire_format
begin

lemma case_passes:
  assumes "event_wf e"
  shows "round_trip_case bytes_of try_order try_reason e = Inr ()"
  using event_roundtrip [OF assms] by (auto simp: round_trip_case_def back_eq_def)

lemma tagged_case_passes:
  assumes "event_wf e" and "PodOrderEvent_from bytes_of e = Inr pod"
  shows "back_eq try_order try_reason pod e = Inr ()" "pe_origin_ts pod = (case e of EvNew ord \<Rightarrow> o_origin_ts ord | _ \<Rightarrow> ev_origin_ts e)"
  using event_roundtrip [OF assms(1)] assms(2) by (auto simp: back_eq_def)

end

theorem wire_tests_pass:
  assumes "wire_format bytes_of try_order try_reason"
  shows "fill_round_trip bytes_of try_order try_reason = Inr ()"
    and "new_round_trip_preserves_all_enum_fields bytes_of try_order try_reason = Inr ()"
    and "cancel_zeros_unused_payload_bytes bytes_of = Inr ()"
    and "unknown_tag_returns_err try_order try_reason = Inr ()"
    and "pod_order_event_size_is_88_bytes = Inr ()"
    and "intent_hash_round_trips_for_every_variant bytes_of try_order try_reason = Inr ()"
    and "fill_origin_ts_propagates_round_trip bytes_of try_order try_reason = Inr ()"
proof -
  have h: "event_wf (EvFill 42 100 50000 7777777 (IntentHash (replicate 32 0xAB)))" "event_wf (EvNew sample_order)"
    by (simp_all add: hash_wf_def order_wf_def sample_order_def)
  show "fill_round_trip bytes_of try_order try_reason = Inr ()"
    using wire_format.tagged_case_passes [OF assms h(1)] by (simp add: fill_round_trip_def wire_defs)
  obtain pod where pod: "PodOrderEvent_from bytes_of (EvNew sample_order) = Inr pod"
    using wire_format.event_roundtrip [OF assms h(2)] by blast
  then have "pe_tag pod = 0" "pe_origin_ts pod = 999999999"
    by (auto simp: wire_defs rbind_eq_Inr sample_order_def split: if_splits)
  with pod wire_format.tagged_case_passes(1) [OF assms h(2) pod]
  show "new_round_trip_preserves_all_enum_fields bytes_of try_order try_reason = Inr ()"
    by (simp add: new_round_trip_preserves_all_enum_fields_def)
  show "cancel_zeros_unused_payload_bytes bytes_of = Inr ()"
    by (simp add: cancel_zeros_unused_payload_bytes_def wire_defs numeral_eq_Suc)
  show "unknown_tag_returns_err try_order try_reason = Inr ()"
    by (simp add: unknown_tag_returns_err_def OrderEvent_try_from_def)
  show "pod_order_event_size_is_88_bytes = Inr ()" by code_simp
  have "\<forall>e \<in> set hash_cases. event_wf e" by (simp add: hash_cases_def hash_wf_def Let_def)
  then show "intent_hash_round_trips_for_every_variant bytes_of try_order try_reason = Inr ()"
    using wire_format.case_passes [OF assms] by (simp add: intent_hash_round_trips_for_every_variant_def hash_cases_def Let_def)
  show "fill_origin_ts_propagates_round_trip bytes_of try_order try_reason = Inr ()"
    using wire_format.case_passes [OF assms] by (simp add: fill_origin_ts_propagates_round_trip_def hash_wf_def)
qed

end
