(* ===== verification/Text_Eval.thy ===== *)
theory Text_Eval
  imports Bench_Report Test_Script
begin

text \<open>
  Code equations for the text and floating-point operations, on integers in binary where the
  definitions count with natural numbers. The tests of the reporting tools evaluate with them.
\<close>

section \<open>Integers as text\<close>

function show_z :: "int \<Rightarrow> string" where
  "show_z n = (if n < 10 then [digit_char (nat n)] else show_z (n div 10) @ [digit_char (nat (n mod 10))])"
  by auto
termination show_z by (relation "Wellfounded.measure nat") auto

declare show_z.simps [simp del]

lemma show_z: "show_z (int n) = show_nat n"
proof (induction n rule: show_nat.induct)
  case (1 n)
  have "int n div 10 = int (n div 10)" "nat (int n mod 10) = n mod 10"
    by (simp_all add: zdiv_int nat_mod_as_int)
  with 1 show ?case by (simp add: show_z.simps [of "int n"] show_nat.simps [of n])
qed

lemma show_word_code [code_unfold]: "show_nat (Word.the_nat w) = show_z (Word.the_int w)"
  by (simp flip: show_z)

lemma show_int_pad_code [code]:
  "show_int_pad w i = (if i < 0 then CHR ''-'' # pad0 (w - 1) (show_z (- i)) else pad0 w (show_z i))"
  by (simp add: show_int_pad_def flip: show_z)

definition read_z :: "string \<Rightarrow> int" where
  "read_z s = foldl (\<lambda>n c. 10 * n + int (digit_val c)) 0 s"

lemma read_z: "read_z s = int (read_digits s)"
proof -
  have "foldl (\<lambda>n c. 10 * n + int (digit_val c)) (int a) s = int (foldl (\<lambda>n c. 10 * n + digit_val c) a s)" for a
  proof (induction s arbitrary: a)
    case (Cons c s)
    show ?case using Cons [of "10 * a + digit_val c"] by simp
  qed simp
  from this [of 0] show ?thesis by (simp add: read_z_def read_digits_def)
qed

definition parse_z :: "int \<Rightarrow> string \<Rightarrow> int option" where
  "parse_z bound s =
     (let ds = (if s \<noteq> [] \<and> hd s = CHR ''+'' then tl s else s) in
      if ds = [] \<or> \<not> list_all is_digit ds then None
      else let n = read_z ds in if n < bound then Some n else None)"

lemma parse_z: "map_option int (parse_uint b s) = parse_z (int b) s"
  by (simp add: parse_z_def parse_uint_def read_z Let_def)

lemma parse_word: "map_option of_nat (parse_uint b s) = map_option of_int (parse_z (int b) s)"
  unfolding parse_z [symmetric] option.map_comp comp_def of_int_of_nat_eq ..

lemma parse_word_code [code]:
  "parse_u64 s = map_option of_int (parse_z 18446744073709551616 s)"
  "parse_u32 s = map_option of_int (parse_z 4294967296 s)"
  unfolding parse_u64_def parse_u32_def parse_word by simp_all

lemma utc_stamp_code [code]:
  "utc_stamp secs =
     (let z = uint secs in
      case civil_from_days (z div 86400) of
        (y, m, d) \<Rightarrow>
          show_int_pad 4 y @ ''-'' @ pad0 2 (show_word m) @ ''-'' @ pad0 2 (show_word d) @ ''_'' @
          pad0 2 (show_z (z mod 86400 div 3600)) @ ''-'' @ pad0 2 (show_z (z mod 3600 div 60)) @ ''-'' @ pad0 2 (show_z (z mod 60)))"
proof -
  define n where "n = unat secs"
  have z: "uint secs = int n" by (simp add: n_def)
  have "z mod 86400 div 3600 = int (n mod 86400 div 3600)" "z mod 3600 div 60 = int (n mod 3600 div 60)"
    "z mod 60 = int (n mod 60)" "z div 86400 = int (n div 86400)" if "z = int n" for z
    using that by (simp_all add: zdiv_int zmod_int)
  from this [OF z] show ?thesis
    unfolding utc_stamp_def Let_def n_def [symmetric] by (simp only: show_z)
qed

section \<open>Floating point\<close>

function exp2 :: "int \<Rightarrow> int" where
  "exp2 e = (if e \<le> 0 then 1 else let h = exp2 (e div 2) in if even e then h * h else 2 * h * h)"
  by auto
termination exp2 by (relation "Wellfounded.measure nat") auto

declare exp2.simps [simp del]

lemma exp2: "exp2 e = 2 ^ nat e"
proof (induction e rule: exp2.induct)
  case (1 e)
  show ?case
  proof (cases "e \<le> 0")
    case False
    then have IH: "exp2 (e div 2) = 2 ^ nat (e div 2)" using 1 by simp
    let ?k = "nat (e div 2)"
    have "nat e = ?k + ?k + (if even e then 0 else 1)" using False by (cases "even e") (auto elim!: evenE oddE simp: nat_add_distrib nat_mult_distrib)
    then have "(2 :: int) ^ nat e = (if even e then 1 else 2) * 2 ^ ?k * 2 ^ ?k" by (simp add: power_add)
    with False IH show ?thesis by (subst exp2.simps) (simp add: Let_def)
  qed (simp add: exp2.simps [of e])
qed

lemma pow2_code [code]: "pow2 e = (if 0 \<le> e then of_int (exp2 e) else 1 / of_int (exp2 (- e)))"
  by (simp add: pow2_def exp2)

lemma f64_of_u64_code [code]: "f64_of_u64 n = f64_round (of_int (uint n))"
  by (simp add: f64_of_u64_def of_nat_unat)

lemma show_fixed_code [code]:
  "show_fixed k r =
     (let n = max 0 (round_half_even (r * 10 ^ k)); b = 10 ^ k
      in if k = 0 then show_z n else show_z (n div b) @ ''.'' @ pad0 k (show_z (n mod b)))"
proof -
  define n where "n = nat (round_half_even (r * 10 ^ k))"
  have m: "max 0 (round_half_even (r * 10 ^ k)) = int n" by (simp add: n_def)
  have "int n div 10 ^ k = int (n div 10 ^ k)" "int n mod 10 ^ k = int (n mod 10 ^ k)"
    by (simp_all add: zdiv_int zmod_int)
  with m show ?thesis unfolding show_fixed_def Let_def n_def [symmetric] by (simp only: show_z)
qed

section \<open>Searching\<close>

lemma starts_with_code [code]:
  "starts_with [] s = True"
  "starts_with (c # p) [] = False"
  "starts_with (c # p) (x # s) = (if c = x then starts_with p s else False)"
  by (auto simp: starts_with_def)

lemma find_sub_append: "find_sub p (a @ p @ b) \<noteq> None"
proof (induction a)
  case Nil
  have "starts_with p (p @ b)" by (simp add: starts_with_def)
  then show ?case by (cases "p @ b") auto
qed (auto simp: starts_with_def)

lemma str_contains_append: "str_contains p (a @ p @ b)"
  by (simp add: str_contains_def find_sub_append)

lemma str_contains_iff: "str_contains p s \<longleftrightarrow> (\<exists>a b. s = a @ p @ b)"
proof
  assume "str_contains p s"
  then obtain n where "find_sub p s = Some n" by (auto simp: str_contains_def)
  then show "\<exists>a b. s = a @ p @ b"
  proof (induction s arbitrary: n)
    case (Cons x s)
    show ?case
    proof (cases "starts_with p (x # s)")
      case True
      then have "x # s = [] @ p @ drop (length p) (x # s)" unfolding starts_with_def by (metis append.left_neutral append_take_drop_id)
      then show ?thesis by blast
    next
      case False
      with Cons obtain a b where "s = a @ p @ b" by auto
      then have "x # s = (x # a) @ p @ b" by simp
      then show ?thesis by blast
    qed
  qed (simp split: if_splits)
qed (use str_contains_append in blast)

lemma str_contains_left: "str_contains p a \<Longrightarrow> str_contains p (a @ b)"
  by (metis append.assoc str_contains_iff)

lemma str_contains_right: "str_contains p b \<Longrightarrow> str_contains p (a @ b)"
  by (metis append.assoc str_contains_iff)

lemma ends_with_append: "ends_with p (a @ p)"
  by (simp add: ends_with_def)

text \<open>\<open>str::matches(p).count()\<close>, for a non-empty pattern.\<close>

function count_matches :: "string \<Rightarrow> string \<Rightarrow> nat" where
  "count_matches p s =
     (if p = [] \<or> s = [] then 0
      else if starts_with p s then Suc (count_matches p (drop (length p) s)) else count_matches p (tl s))"
  by auto
termination count_matches by (relation "Wellfounded.measure (\<lambda>(p, s). length s)") auto

declare count_matches.simps [simp del]

end
