(* ===== verification/Env_Tests.thy ===== *)
theory Env_Tests
  imports Text_Eval
begin

text \<open>The tests of \<open>benchkit/src/env.rs\<close>. Those that start from \<open>RunEnv::detect\<close> hold on every host.\<close>

section \<open>Parsing and the calendar\<close>

definition single_core_detection :: "unit res" where
  "single_core_detection =
     asserts [is_single_core ''3'', is_single_core ''0'', \<not> is_single_core ''0-7'', \<not> is_single_core ''1,3'',
              \<not> is_single_core ''?'', \<not> is_single_core []]"

definition utc_stamp_known_epochs :: "unit res" where
  "utc_stamp_known_epochs =
     asserts [utc_stamp 0 = ''1970-01-01_00-00-00'', utc_stamp 1000000000 = ''2001-09-09_01-46-40'',
              utc_stamp 1780000000 = ''2026-05-28_20-26-40'']"

definition cpu_list_parsing :: "unit res" where
  "cpu_list_parsing =
     asserts [parse_cpu_list ''2,6'' = [2, 6], parse_cpu_list ''0-3'' = [0, 1, 2, 3], parse_cpu_list ''0-1,4'' = [0, 1, 4],
              parse_cpu_list ''3'' = [3], parse_cpu_list [] = [], parse_cpu_list ''junk'' = []]"

definition core_prep_warnings_cover_all_three_checks :: "unit res" where
  "core_prep_warnings_cover_all_three_checks =
     (let p = \<lparr>cp_core = 2, cp_governor = ''performance'', cp_clock_min_khz = Some 4700000,
               cp_clock_max_khz = Some 4700000, cp_smt_siblings_online = []\<rparr> in
      rbind (assert_that (CorePrep_warnings p = []) ''clean prep produces no warnings'') (\<lambda>_.
      let p = p\<lparr>cp_governor := ''powersave'', cp_clock_min_khz := Some 400000, cp_smt_siblings_online := [6]\<rparr>;
          w = CorePrep_warnings p in
      rbind (assert_that (length w = 3) ''assertion failed'') (\<lambda>_.
        asserts [str_contains ''governor `powersave`'' (w ! 0), str_contains ''clock not pinned on cpu2'' (w ! 1),
                 str_contains ''SMT sibling cpu6'' (w ! 2)])))"

theorem env_tests_pass:
  "single_core_detection = Inr ()" "utc_stamp_known_epochs = Inr ()" "cpu_list_parsing = Inr ()"
  "core_prep_warnings_cover_all_three_checks = Inr ()"
  by code_simp+

section \<open>The detected environment\<close>

definition detect_never_panics_and_fills_fields :: "host \<Rightarrow> f64 \<Rightarrow> unit res" where
  "detect_never_panics_and_fills_fields h tpn =
     (let env = RunEnv_detect h tpn; hd = RunEnv_header (f64_fmt 2) env ''test_suite'' ''unit-test scope'' in
      asserts [re_cpu_model env \<noteq> [], re_governor env \<noteq> [], re_isolated env \<noteq> [], f64_less (Fin 0) (re_tsc_ghz env),
               str_contains ''test_suite'' hd, str_contains ''Hardware:'' hd, str_contains ''- code:'' hd,
               re_rustc env \<noteq> [], re_profile env = ''debug'', str_contains ''- build:'' hd])"

definition warnings_flag_unpinned_clock_and_online_siblings :: "host \<Rightarrow> f64 \<Rightarrow> unit res" where
  "warnings_flag_unpinned_clock_and_online_siblings h tpn =
     (let env = (RunEnv_detect h tpn)\<lparr>re_affinity := ''2'', re_pinned := True, re_governor := ''performance'',
            re_bench_core := Some 2, re_clock_min_khz := Some 4700000, re_clock_max_khz := Some 4700000,
            re_smt_siblings_online := []\<rparr> in
      rbind (assert_that (RunEnv_warnings env = []) ''clean prep produces no warnings'') (\<lambda>_.
      let env = env\<lparr>re_clock_min_khz := Some 1200000\<rparr>; w = RunEnv_warnings env in
      rbind (assert_that (length w = 1) ''assertion failed'') (\<lambda>_.
      rbind (asserts [str_contains ''clock not pinned on cpu2'' (w ! 0), str_contains ''min=1200000 max=4700000'' (w ! 0)]) (\<lambda>_.
      let env = env\<lparr>re_clock_min_khz := Some 4700000\<rparr>; env = env\<lparr>re_smt_siblings_online := [6]\<rparr>; w = RunEnv_warnings env in
      rbind (assert_that (length w = 1) ''assertion failed'') (\<lambda>_.
      rbind (asserts [str_contains ''SMT sibling cpu6'' (w ! 0), str_contains ''bench cpu2'' (w ! 0)]) (\<lambda>_.
      let hd = RunEnv_header (f64_fmt 2) env ''t'' ''s'' in
        asserts [str_contains (''- clock: cpu2 scaling min=4700000 max=4700000 kHz (pinned '' @ check_mark @ '')'') hd,
                 str_contains (warn_sign @ '' SMT sibling cpu6'') hd]))))))"

definition run_id_prefers_commit_and_marks_dirty :: "host \<Rightarrow> f64 \<Rightarrow> unit res" where
  "run_id_prefers_commit_and_marks_dirty h tpn =
     (let env = RunEnv_detect h tpn; env = env\<lparr>re_commit := Some ''abc1234'', re_dirty := False\<rparr> in
      rbind (assert_that (RunEnv_run_id env = ''abc1234'') ''assertion failed'') (\<lambda>_.
      let env = env\<lparr>re_dirty := True\<rparr> in
      rbind (assert_that (RunEnv_run_id env = ''abc1234-dirty'') ''assertion failed'') (\<lambda>_.
      let env = env\<lparr>re_commit := None\<rparr> in
        assert_that (RunEnv_run_id env = re_stamp env) ''off-git falls back to the timestamp'')))"

theorem run_id_test: "run_id_prefers_commit_and_marks_dirty h tpn = Inr ()"
  by (simp add: run_id_prefers_commit_and_marks_dirty_def RunEnv_run_id_def compose_run_id_def)

text \<open>\<open>detect\<close> fills the governor and the isolated cores on every host. The other fields are what the host
  and the build give it: a processor name, a compiler version, debug assertions, a positive clock rate.\<close>

lemma or_if_empty_fills: "d \<noteq> [] \<Longrightarrow> or_if_empty m d \<noteq> []"
  by (simp add: or_if_empty_def unwrap_or_def filter_opt_def split: option.splits)

theorem detect_test:
  assumes "cpu_model h \<noteq> []" and "h_rustc h \<noteq> []" and "h_debug_assertions h" and "f64_less (Fin 0) tpn"
  shows "detect_never_panics_and_fills_fields h tpn = Inr ()"
proof -
  let ?env = "RunEnv_detect h tpn"
  have fields: "re_cpu_model ?env \<noteq> []" "re_governor ?env \<noteq> []" "re_isolated ?env \<noteq> []" "re_tsc_ghz ?env = tpn"
    "re_rustc ?env \<noteq> []" "re_profile ?env = ''debug''"
    using assms
    by (auto simp: RunEnv_detect_def Let_def CorePrep_detect_def or_if_empty_fills split: option.splits prod.splits if_splits)
  let ?hd = "RunEnv_header (f64_fmt 2) ?env ''test_suite'' ''unit-test scope''"
  have "str_contains ''Hardware:'' ''**Hardware:** ''" "str_contains ''- code:'' ''- code: ''" "str_contains ''- build:'' ''- build: ''"
    by code_simp+
  note lits = this [THEN str_contains_left]
  have "str_contains ''test_suite'' ?hd"
    unfolding RunEnv_header_def writeln_def append_assoc by (rule str_contains_append)
  moreover have "str_contains ''Hardware:'' ?hd"
    unfolding RunEnv_header_def writeln_def by (rule str_contains_right, rule str_contains_left, rule str_contains_left, rule lits)
  moreover have "str_contains ''- code:'' ?hd"
    unfolding RunEnv_header_def writeln_def
    by (rule str_contains_right, rule str_contains_right, rule str_contains_left, rule str_contains_left, rule lits)
  moreover have "str_contains ''- build:'' ?hd"
    unfolding RunEnv_header_def writeln_def Let_def
    by (rule str_contains_right, rule str_contains_right, rule str_contains_right, rule str_contains_left, rule str_contains_left, rule lits)
  ultimately show ?thesis
    using fields assms(4) unfolding detect_never_panics_and_fills_fields_def Let_def by simp
qed

text \<open>The warnings depend only on the fields the test sets.\<close>

lemma clock_line:
  assumes "re_bench_core e = Some core" and "re_clock_min_khz e = Some mn" and "re_clock_max_khz e = Some mx"
    and "str_contains p (''- clock: cpu'' @ show_word core @ '' scaling min='' @ show_word mn @ '' max='' @ show_word mx @ '' kHz '' @
      (if mn = mx then ''(pinned '' @ check_mark @ '')'' else ''(NOT pinned '' @ warn_sign @ '')''))"
  shows "str_contains p (RunEnv_header fmt2 e title scope)"
  unfolding RunEnv_header_def assms(1-3) option.case prod.case writeln_def Let_def
  by (rule str_contains_right, rule str_contains_right, rule str_contains_right, rule str_contains_right, rule str_contains_right,
      rule str_contains_left, rule str_contains_left, rule assms(4))

lemma warning_line:
  assumes "w \<in> set (RunEnv_warnings e)" and "str_contains p (warn_sign @ '' '' @ w)"
  shows "str_contains p (RunEnv_header fmt2 e title scope)"
proof -
  obtain a b where "RunEnv_warnings e = a @ w # b" using assms(1) by (auto dest: split_list)
  moreover have "str_contains p (writeln (''- '' @ warn_sign @ '' '' @ w))"
    unfolding writeln_def by (rule str_contains_left, rule str_contains_right, rule assms(2))
  ultimately have "str_contains p (concat (map (\<lambda>w. writeln (''- '' @ warn_sign @ '' '' @ w)) (RunEnv_warnings e)))"
    by (simp add: str_contains_left str_contains_right)
  then show ?thesis unfolding RunEnv_header_def by (simp only: str_contains_right)
qed

lemma prepared_warnings:
  assumes "re_pinned e" and "re_governor e = ''performance''" and "re_bench_core e = Some 2"
  shows "RunEnv_warnings e =
    clock_push 2 (re_clock_min_khz e) (re_clock_max_khz e) @ smt_push 2 (re_smt_siblings_online e)"
  using assms by (simp add: RunEnv_warnings_def governor_push_def unwrap_or_def)

lemma warning_texts:
  "str_contains ''clock not pinned on cpu2'' (clock_warning 2 1200000 4700000)"
  "str_contains ''min=1200000 max=4700000'' (clock_warning 2 1200000 4700000)"
  "str_contains ''SMT sibling cpu6'' (smt_warning 2 [6])" "str_contains ''bench cpu2'' (smt_warning 2 [6])"
  "str_contains (warn_sign @ '' SMT sibling cpu6'') (warn_sign @ '' '' @ smt_warning 2 [6])"
  "str_contains (''- clock: cpu2 scaling min=4700000 max=4700000 kHz (pinned '' @ check_mark @ '')'')
     (''- clock: cpu'' @ show_word (2 :: u32) @ '' scaling min='' @ show_word (4700000 :: u64) @ '' max='' @ show_word (4700000 :: u64) @ '' kHz '' @
      (if (4700000 :: u64) = 4700000 then ''(pinned '' @ check_mark @ '')'' else ''(NOT pinned '' @ warn_sign @ '')''))"
  by code_simp+

theorem warnings_test: "warnings_flag_unpinned_clock_and_online_siblings h tpn = Inr ()"
proof -
  define base where "base = (RunEnv_detect h tpn)\<lparr>re_affinity := ''2'', re_pinned := True, re_governor := ''performance'',
    re_bench_core := Some 2, re_clock_min_khz := Some 4700000, re_clock_max_khz := Some 4700000, re_smt_siblings_online := []\<rparr>"
  let ?slow = "base\<lparr>re_clock_min_khz := Some 1200000\<rparr>"
  let ?smt = "?slow\<lparr>re_clock_min_khz := Some 4700000, re_smt_siblings_online := [6]\<rparr>"
  have w: "RunEnv_warnings base = []" "RunEnv_warnings ?slow = [clock_warning 2 1200000 4700000]"
      "RunEnv_warnings ?smt = [smt_warning 2 [6]]"
    by (subst prepared_warnings; simp add: base_def clock_push_def smt_push_def)+
  have "str_contains (''- clock: cpu2 scaling min=4700000 max=4700000 kHz (pinned '' @ check_mark @ '')'')
      (RunEnv_header (f64_fmt 2) ?smt ''t'' ''s'')"
    by (rule clock_line [OF _ _ _ warning_texts(6)]) (simp_all add: base_def)
  moreover have "str_contains (warn_sign @ '' SMT sibling cpu6'') (RunEnv_header (f64_fmt 2) ?smt ''t'' ''s'')"
    by (rule warning_line [OF _ warning_texts(5)]) (simp only: w list.set_intros)
  ultimately show ?thesis
    unfolding warnings_flag_unpinned_clock_and_online_siblings_def base_def [symmetric] Let_def
    by (simp only: w asserts.simps assert_that_def warning_texts rbind_Inr list.size nth_Cons_0 if_True simp_thms One_nat_def add_0)
qed

end
