(* ===== verification/Runner_Tests.thy ===== *)
theory Runner_Tests
  imports Text_Eval Bench_Workload Telemetry
begin

text \<open>
  The tests of \<open>benchkit/src/lcg.rs\<close>, \<open>stats.rs\<close>, \<open>runner.rs\<close>, \<open>suite.rs\<close> and of
  \<open>telemetry/src/primitives/clock.rs\<close>. A test that runs the measuring loop holds on every platform whose
  histogram counts: the locale \<open>counting_histogram\<close> is that contract, and the list histogram provides it.
\<close>

section \<open>lcg.rs\<close>

fun draws_agree :: "nat \<Rightarrow> Lcg \<Rightarrow> Lcg \<Rightarrow> unit res" where
  "draws_agree 0 a b = Inr ()"
| "draws_agree (Suc n) a b =
     (let (x, a) = next_u64 a; (y, b) = next_u64 b
      in rbind (assert_that (x = y) ''assertion failed'') (\<lambda>_. draws_agree n a b))"

definition same_seed_same_sequence :: "unit res" where
  "same_seed_same_sequence = draws_agree 1000 (Lcg_new 42) (Lcg_new 42)"

fun any_draw_differs :: "nat \<Rightarrow> Lcg \<Rightarrow> Lcg \<Rightarrow> bool" where
  "any_draw_differs 0 a b = False"
| "any_draw_differs (Suc n) a b =
     (let (x, a) = next_u64 a; (y, b) = next_u64 b in if x \<noteq> y then True else any_draw_differs n a b)"

definition different_seed_diverges :: "unit res" where
  "different_seed_diverges = asserts [any_draw_differs 8 (Lcg_new 1) (Lcg_new 2)]"

fun draws_below :: "nat \<Rightarrow> u64 \<Rightarrow> Lcg \<Rightarrow> Lcg res" where
  "draws_below 0 n r = Inr r"
| "draws_below (Suc k) n r =
     (let (x, r) = below n r in rbind (assert_that (x < n) ''assertion failed'') (\<lambda>_. draws_below k n r))"

definition below_is_in_range :: "unit res" where
  "below_is_in_range =
     rbind (draws_below 10000 50 (Lcg_new 7)) (\<lambda>r. assert_that (fst (below 0 r) = 0) ''assertion failed'')"

definition shuffle_is_a_permutation :: "unit res" where
  "shuffle_is_a_permutation =
     (let original = map of_nat [0..<256] :: u32 list in
      rbind (shuffle original (Lcg_new 0xCAFEF00D)) (\<lambda>(v, _). asserts [sort v = original, v \<noteq> original]))"

definition shuffle_is_deterministic :: "unit res" where
  "shuffle_is_deterministic =
     (let v = map of_nat [0..<100] :: u32 list in
      rbind (shuffle v (Lcg_new 99)) (\<lambda>(v1, _). rbind (shuffle v (Lcg_new 99)) (\<lambda>(v2, _). asserts [v1 = v2])))"

lemma draws_agree_same: "draws_agree n g g = Inr ()"
  by (induction n arbitrary: g) (simp_all add: Let_def split: prod.split)

lemma below_less: "n \<noteq> 0 \<Longrightarrow> fst (below n g) < n"
  by (simp add: below_def word_less_nat_alt unat_mod_distrib unat_gt_0 split: prod.split)

lemma draws_below_ok: "n \<noteq> 0 \<Longrightarrow> \<exists>r'. draws_below k n r = Inr r'"
proof (induction k arbitrary: r)
  case (Suc k)
  then show ?case using below_less [OF Suc.prems, of r] by (cases "below n r") auto
qed simp

text \<open>The first swap puts an element of the prefix at the last position, where no later swap reaches.\<close>

lemma shuffle_from_keeps:
  "i < length xs \<Longrightarrow> length xs < 2 ^ 64 \<Longrightarrow> shuffle_from i xs g = Inr (ys, g') \<Longrightarrow> i < k \<Longrightarrow> ys ! k = xs ! k"
proof (induction i arbitrary: xs g)
  case (Suc i)
  obtain x g1 where n: "next_u64 g = (x, g1)" by (cases "next_u64 g")
  let ?j = "unat (drop_bit 33 x mod of_nat (Suc i + 1))"
  have j: "?j \<le> Suc i" using unat_mod_index [of "Suc i" "drop_bit 33 x"] Suc.prems by simp
  let ?ys = "xs[Suc i := xs ! ?j, ?j := xs ! Suc i]"
  have "slice_swap (Suc i) ?j xs = Inr ?ys" using j Suc.prems by (simp add: slice_swap_def)
  then have "shuffle_from i ?ys g1 = Inr (ys, g')" using Suc.prems(3) n by (simp add: Let_def)
  then have "ys ! k = ?ys ! k" using Suc.IH [of ?ys g1] Suc.prems by simp
  then show ?case using j Suc.prems(4) by simp
qed simp

lemma shuffle_last:
  assumes "length xs = Suc (Suc n)" and "length xs < 2 ^ 64" and "shuffle xs g = Inr (ys, g')"
  shows "ys ! Suc n = xs ! unat (drop_bit 33 (fst (next_u64 g)) mod of_nat (Suc n + 1))"
proof -
  obtain x g1 where n: "next_u64 g = (x, g1)" by (cases "next_u64 g")
  let ?j = "unat (drop_bit 33 x mod of_nat (Suc n + 1))"
  have j: "?j \<le> Suc n" using unat_mod_index [of "Suc n" "drop_bit 33 x"] assms by simp
  let ?ys = "xs[Suc n := xs ! ?j, ?j := xs ! Suc n]"
  have "slice_swap (Suc n) ?j xs = Inr ?ys" using j assms by (simp add: slice_swap_def)
  then have "shuffle_from n ?ys g1 = Inr (ys, g')" using assms n by (simp add: shuffle_def Let_def)
  then have "ys ! Suc n = ?ys ! Suc n" using shuffle_from_keeps [of n ?ys g1 ys g' "Suc n"] assms by simp
  then show ?thesis using j assms n by (cases "?j = Suc n") simp_all
qed

lemma shuffle_returns:
  assumes "length xs < 2 ^ 64"
  shows "\<exists>ys g'. shuffle xs g = Inr (ys, g') \<and> mset ys = mset xs"
  using shuffle_from_perm [of "length xs - 1" xs g] assms by (cases xs) (auto simp: shuffle_def)

lemma sorted_range: "n \<le> 2 ^ 32 \<Longrightarrow> sorted (map of_nat [0..<n] :: u32 list)"
  by (auto simp: sorted_iff_nth_mono word_le_nat_alt unat_of_nat_small)

lemma shuffle_permutation_passes: "shuffle_is_a_permutation = Inr ()"
proof -
  let ?v = "map of_nat [0..<256] :: u32 list" let ?g = "Lcg_new 0xCAFEF00D"
  obtain ys g' where s: "shuffle ?v ?g = Inr (ys, g')" "mset ys = mset ?v" using shuffle_returns [of ?v ?g] by auto
  have sorted: "sort ys = ?v" by (rule properties_for_sort) (use s(2) sorted_range [of 256] in simp_all)
  have "unat (drop_bit 33 (fst (next_u64 ?g)) mod (of_nat (Suc 254 + 1) :: u64)) = 34" by code_simp
  moreover have "ys ! Suc 254 = ?v ! unat (drop_bit 33 (fst (next_u64 ?g)) mod (of_nat (Suc 254 + 1) :: u64))"
    by (rule shuffle_last [OF _ _ s(1)]) simp_all
  ultimately have "ys ! Suc 254 \<noteq> ?v ! Suc 254" by simp
  then have "ys \<noteq> ?v" by blast
  with sorted s(1) show ?thesis unfolding shuffle_is_a_permutation_def Let_def by simp
qed

theorem lcg_tests_pass:
  "same_seed_same_sequence = Inr ()" "different_seed_diverges = Inr ()" "below_is_in_range = Inr ()"
  "shuffle_is_a_permutation = Inr ()" "shuffle_is_deterministic = Inr ()"
proof -
  show "same_seed_same_sequence = Inr ()" by (simp add: same_seed_same_sequence_def draws_agree_same)
  show "different_seed_diverges = Inr ()" by code_simp
  obtain r where "draws_below 10000 50 (Lcg_new 7) = Inr r" using draws_below_ok [of 50 10000] by auto
  then show "below_is_in_range = Inr ()" by (simp add: below_is_in_range_def below_def)
  show "shuffle_is_a_permutation = Inr ()" by (rule shuffle_permutation_passes)
  let ?v = "map of_nat [0..<100] :: u32 list"
  obtain ys g' where "shuffle ?v (Lcg_new 99) = Inr (ys, g')" using shuffle_returns [of ?v "Lcg_new 99"] by auto
  then show "shuffle_is_deterministic = Inr ()" unfolding shuffle_is_deterministic_def Let_def by simp
qed

section \<open>stats.rs\<close>

definition delta_subtracts_fieldwise :: "unit res" where
  "delta_subtracts_fieldwise =
     (let a = \<lparr>ctx_voluntary = 10, ctx_involuntary = 5, minor_faults = 100, major_faults = 1, migrations = Some 3\<rparr>;
          b = \<lparr>ctx_voluntary = 4, ctx_involuntary = 5, minor_faults = 40, major_faults = 1, migrations = Some 1\<rparr>;
          d = delta_from a b
      in asserts [ctx_voluntary d = 6, ctx_involuntary d = 0, minor_faults d = 60, major_faults d = 0, migrations d = Some 2])"

definition delta_saturates_on_decrease :: "unit res" where
  "delta_saturates_on_decrease =
     (let a = RunStats_default\<lparr>ctx_voluntary := 1\<rparr>; b = RunStats_default\<lparr>ctx_voluntary := 9\<rparr>
      in asserts [ctx_voluntary (delta_from a b) = 0])"

definition migrations_none_if_either_side_none :: "unit res" where
  "migrations_none_if_either_side_none =
     (let a = RunStats_default\<lparr>migrations := Some 5\<rparr>; b = RunStats_default\<lparr>migrations := None\<rparr>
      in asserts [migrations (delta_from a b) = None])"

theorem stats_tests_pass:
  "delta_subtracts_fieldwise = Inr ()" "delta_saturates_on_decrease = Inr ()" "migrations_none_if_either_side_none = Inr ()"
  by code_simp+

section \<open>clock.rs\<close>

definition since_returns_difference :: "unit res" where
  "since_returns_difference = asserts [ticks_since 100 40 = 60]"

definition since_saturates_on_underflow :: "unit res" where
  "since_saturates_on_underflow = asserts [ticks_since 40 100 = 0]"

definition nanos_to_micros_conversion :: "unit res" where
  "nanos_to_micros_conversion = asserts [as_f64_micros 2500 = Fin (5 / 2)]"

definition core_id_from_aux_masks_low_byte :: "unit res" where
  "core_id_from_aux_masks_low_byte = asserts [CoreId_from_aux 0x12345 = 0x45]"

definition core_id_unknown_is_0xff :: "unit res" where
  "core_id_unknown_is_0xff = asserts [CoreId_UNKNOWN = 0xFF]"

theorem clock_tests_pass:
  "since_returns_difference = Inr ()" "since_saturates_on_underflow = Inr ()" "nanos_to_micros_conversion = Inr ()"
  "core_id_from_aux_masks_low_byte = Inr ()" "core_id_unknown_is_0xff = Inr ()"
  by code_simp+

section \<open>runner.rs\<close>

definition records_exactly_measure_samples :: "profile \<Rightarrow> ('w, 'h) platform \<Rightarrow> f64 \<Rightarrow> 'w \<Rightarrow> unit res" where
  "records_exactly_measure_samples p pf tpn w =
     rbind (bench_static p pf tpn ''noop'' (Iters_new 100 1000) () (\<lambda>s w. (s, w)) w) (\<lambda>(sample, _).
       assert_that (Histogram_len pf (hist sample) = 1000) ''only the measure phase is recorded'')"

definition arrival_model_is_back_to_back :: "profile \<Rightarrow> ('w, 'h) platform \<Rightarrow> f64 \<Rightarrow> 'w \<Rightarrow> unit res" where
  "arrival_model_is_back_to_back p pf tpn w =
     rbind (bench_static p pf tpn ''noop'' (Iters_new 10 100) () (\<lambda>s w. (s, w)) w) (\<lambda>(sample, _).
       assert_that (arrival_model sample = BackToBack) ''assertion failed'')"

text \<open>The state of the closures counts their calls; the additions are checked in a debug build.\<close>

definition count_prepare :: "profile \<Rightarrow> usize \<times> usize \<Rightarrow> usize \<Rightarrow> (u64 \<times> usize \<times> usize) res" where
  "count_prepare p = (\<lambda>(a, b) i. rbind (plus_u p a 1) (\<lambda>a. Inr (7, (a, b))))"

definition count_op :: "profile \<Rightarrow> usize \<times> usize \<Rightarrow> u64 \<Rightarrow> (u64 \<times> usize \<times> usize) res" where
  "count_op p = (\<lambda>(a, b) input. rbind (plus_u p b 1) (\<lambda>b. Inr (input, (a, b))))"

definition prepare_runs_total_times_op_runs_total_times :: "profile \<Rightarrow> ('w, 'h) platform \<Rightarrow> f64 \<Rightarrow> 'w \<Rightarrow> unit res" where
  "prepare_runs_total_times_op_runs_total_times p pf tpn w =
     (let iters = Iters_new 50 200 in
      rbind (run_scenario_of p pf tpn ''count'' iters (count_prepare p) (count_op p) (0, 0) w) (\<lambda>(sample, state, _).
      rbind state (\<lambda>((prepares, ops), _).
      rbind (Iters_total p iters) (\<lambda>total.
        asserts [prepares = total, ops = total, Histogram_len pf (hist sample) = measure iters]))))"

definition last_prepare :: "usize \<Rightarrow> usize \<Rightarrow> (usize \<times> usize) res" where
  "last_prepare seen_last i = Inr (i, i)"

definition last_op :: "usize \<Rightarrow> usize \<Rightarrow> (usize \<times> usize) res" where
  "last_op seen_last i = Inr (i, seen_last)"

definition prepare_index_advances :: "profile \<Rightarrow> ('w, 'h) platform \<Rightarrow> f64 \<Rightarrow> 'w \<Rightarrow> unit res" where
  "prepare_index_advances p pf tpn w =
     (let iters = Iters_new 5 10 in
      rbind (run_scenario_of p pf tpn ''idx'' iters last_prepare last_op 0 w) (\<lambda>(_, state, _).
      rbind state (\<lambda>(seen_last, _).
      rbind (Iters_total p iters) (\<lambda>total.
      rbind (minus_u p total 1) (\<lambda>last. assert_that (seen_last = last) ''i runs 0..total-1'')))))"

section \<open>suite.rs\<close>

definition suite_runs_latency_scenarios :: "host \<Rightarrow> profile \<Rightarrow> ('w, 'h) platform \<Rightarrow> f64 \<Rightarrow> 'w \<Rightarrow> unit res option" where
  "suite_runs_latency_scenarios h p pf tpn w =
     (let suite = set_iters (Iters_new 100 1000) (BenchmarkSuite_new h tpn ''test_suite'') in
      obind (run_scenario p pf ''inc'' (0 :: u64) (\<lambda>counter w. (counter + 1, w)) suite w) (\<lambda>(suite, _).
        Some (rbind (assert_that (length (suite_samples suite) = 1) ''assertion failed'') (\<lambda>_.
          asserts [Histogram_len pf (hist (suite_samples suite ! 0)) = 1000]))))"

definition intent_builder_composes :: "unit res" where
  "intent_builder_composes =
     (let i = with_allocations (with_load MeasurementIntent_LATENCY) in
      asserts [intent_latency i \<and> intent_latency_under_load i \<and> intent_allocations i, \<not> intent_cache_and_instructions i])"

definition at_rate_sets_interval :: "host \<Rightarrow> f64 \<Rightarrow> unit res" where
  "at_rate_sets_interval h tpn =
     (let suite = at_rate 1000000 (BenchmarkSuite_new h tpn ''t'' :: unit BenchmarkSuite) in
      asserts [suite_interval_ns suite = 1000])"

theorem suite_builder_tests: "intent_builder_composes = Inr ()" "at_rate_sets_interval h tpn = Inr ()"
proof -
  show "intent_builder_composes = Inr ()" by code_simp
  have "(1000000000 :: u64) div 1000000 = 1000" by code_simp
  then show "at_rate_sets_interval h tpn = Inr ()"
    by (simp add: at_rate_sets_interval_def at_rate_def)
qed

section \<open>Platforms whose histogram counts\<close>

locale counting_histogram =
  fixes pf :: "('w, 'h) platform"
  assumes accepts: "hdr_accepts pf"
    and new_empty: "hdr_new pf = Some h \<Longrightarrow> hdr_len pf h = 0"
    and record_counts: "hdr_record pf v h = Some h' \<Longrightarrow> hdr_len pf h' = hdr_len pf h + 1"
begin

lemma records_count:
  "fold_res (Histogram_record pf) vs h = Inr h' \<Longrightarrow> Histogram_len pf h' = Histogram_len pf h + of_nat (length vs)"
proof (induction vs arbitrary: h)
  case (Cons v vs)
  from Cons.prems obtain h1 where h1: "Histogram_record pf v h = Inr h1" "fold_res (Histogram_record pf) vs h1 = Inr h'"
    by (auto simp: rbind_eq_Inr)
  then have "Histogram_len pf h1 = Histogram_len pf h + 1"
    by (auto simp: Histogram_record_def rbind_eq_Inr expect_def record_counts split: option.splits)
  with Cons.IH [OF h1(2)] show ?case by simp
qed simp

lemma records_return: "\<exists>h'. fold_res (Histogram_record pf) vs h = Inr h' \<and> label h' = label h"
proof (induction vs arbitrary: h)
  case (Cons v vs)
  obtain i where "hdr_record pf v (inner h) = Some i" using accepts unfolding hdr_accepts_def by blast
  then show ?case using Cons.IH [of "h\<lparr>inner := i\<rparr>"] by (simp add: Histogram_record_def)
qed simp

lemma new_returns: "\<exists>h. Histogram_new pf l = Inr h \<and> label h = l \<and> Histogram_len pf h = 0"
proof -
  obtain i where "hdr_new pf = Some i" using accepts unfolding hdr_accepts_def by blast
  then show ?thesis using new_empty by (simp add: Histogram_new_def)
qed

lemma bench_counts:
  assumes "rusage_ok p pf" and "unat (warmup it) + unat (measure it) < 2 ^ 64"
  shows "\<exists>sample s' w'. bench p pf tpn l it s prepare op w = Inr (sample, s', w')
    \<and> Histogram_len pf (hist sample) = measure it \<and> arrival_model sample = BackToBack"
proof -
  obtain h0 where h0: "hdr_new pf = Some h0" using accepts unfolding hdr_accepts_def by blast
  have tot: "Iters_total p it = Inr (warmup it + measure it)" using assms(2) by (simp add: Iters_total_def plus_u_ok)
  have un: "unat (warmup it + measure it) = unat (warmup it) + unat (measure it)" using assms(2) by (simp add: arith_u)
  obtain h' b' s' w' vs where f:
      "fold_res (bench_iter p pf tpn it prepare op) (usize_upto (warmup it + measure it)) (\<lparr>inner = h0, label = l\<rparr>, RunStats_default, s, w)
        = Inr (h', b', s', w')"
      "length vs = length (filter (\<lambda>i. warmup it \<le> i) (usize_upto (warmup it + measure it)))"
      "fold_res (Histogram_record pf) vs \<lparr>inner = h0, label = l\<rparr> = Inr h'"
    using fold_bench_iter_ok [OF accepts assms(1), of tpn it prepare op "usize_upto (warmup it + measure it)"
        "\<lparr>inner = h0, label = l\<rparr>" RunStats_default s w] by blast
  have "length vs = unat (measure it)" using f(2) measured_indices [OF assms(2)] by (simp add: usize_upto_def un)
  then have "Histogram_len pf h' = measure it" using records_count [OF f(3)] new_empty [OF h0] by simp
  moreover obtain st w'' where "read_rusage_thread p pf w' = Inr (st, w'')" using read_rusage_ok [OF assms(1), of w'] by blast
  ultimately show ?thesis using tot f(1) h0 by (simp add: bench_def Histogram_new_def)
qed

end

interpretation list_counts: counting_histogram list_platform
  by unfold_locales (auto simp: list_platform_def hdr_accepts_def)

text \<open>The closures of the tests as scenarios: after \<open>k\<close> iterations both counters are \<open>k\<close>, and the last index
  seen is \<open>k - 1\<close>.\<close>

definition counted :: "nat \<Rightarrow> usize \<times> usize \<Rightarrow> bool" where
  "counted k s \<longleftrightarrow> s = (of_nat k, of_nat k)"

interpretation counting: scenario "count_prepare p" "count_op p" counted "\<lambda>k r. True" 250
proof
  fix k s assume s: "counted k s" and k: "k < 250"
  have "plus_u p (of_nat k) 1 = Inr (of_nat (Suc k) :: usize)" for p
    using k by (subst plus_u_ok) (simp_all add: unat_of_nat_small)
  with s show "\<exists>x s1 r s2. count_prepare p s (of_nat k) = Inr (x, s1) \<and> count_op p s1 x = Inr (r, s2) \<and> True \<and> counted (Suc k) s2"
    by (simp add: counted_def count_prepare_def count_op_def)
qed simp

definition last_seen :: "nat \<Rightarrow> usize \<Rightarrow> bool" where
  "last_seen k s \<longleftrightarrow> s = of_nat (k - 1)"

interpretation indexing: scenario last_prepare last_op last_seen "\<lambda>k r. True" 15
  by unfold_locales (auto simp: last_seen_def last_prepare_def last_op_def)

theorem runner_tests_pass:
  assumes "counting_histogram pf" and "rusage_ok p pf"
  shows "records_exactly_measure_samples p pf tpn w = Inr ()" and "arrival_model_is_back_to_back p pf tpn w = Inr ()"
    and "prepare_runs_total_times_op_runs_total_times p pf tpn w = Inr ()" and "prepare_index_advances p pf tpn w = Inr ()"
proof -
  note counts = counting_histogram.bench_counts [OF assms]
  have tot: "Iters_total p (Iters_new 50 200) = Inr 250" "Iters_total p (Iters_new 5 10) = Inr 15"
    by (simp_all add: Iters_total_def Iters_new_def plus_u_ok)
  obtain sample w' where "bench_static p pf tpn ''noop'' (Iters_new 100 1000) () (\<lambda>s w. (s, w)) w = Inr (sample, (), w')"
      "Histogram_len pf (hist sample) = 1000"
    using counts [of "Iters_new 100 1000" tpn "''noop''" "()" _ _ w] by (fastforce simp: bench_static_def Iters_new_def)
  then show "records_exactly_measure_samples p pf tpn w = Inr ()" by (simp add: records_exactly_measure_samples_def)
  obtain sample w' where "bench_static p pf tpn ''noop'' (Iters_new 10 100) () (\<lambda>s w. (s, w)) w = Inr (sample, (), w')"
      "arrival_model sample = BackToBack"
    using counts [of "Iters_new 10 100" tpn "''noop''" "()" _ _ w] by (fastforce simp: bench_static_def Iters_new_def)
  then show "arrival_model_is_back_to_back p pf tpn w = Inr ()" by (simp add: arrival_model_is_back_to_back_def)
  obtain sample st w' where run: "run_scenario_of p pf tpn ''count'' (Iters_new 50 200) (count_prepare p) (count_op p) (0, 0) w = Inr (sample, st, w')"
      "Histogram_len pf (hist sample) = 200"
    using counts [of "Iters_new 50 200"] unfolding run_scenario_of_def by (fastforce simp: Iters_new_def)
  have "st = drive (count_prepare p) (count_op p) 250 (0, 0)" using bench_drives [OF run(1)] by (simp add: Iters_new_def)
  moreover obtain rs where "drive (count_prepare p) (count_op p) 250 (0, 0) = Inr ((250, 250), rs)"
    using counting.drive_ok [of "(0, 0)" 250 p] by (auto simp: counted_def)
  ultimately show "prepare_runs_total_times_op_runs_total_times p pf tpn w = Inr ()"
    using run tot by (simp add: prepare_runs_total_times_op_runs_total_times_def Iters_new_def)
  obtain sample st w' where run: "run_scenario_of p pf tpn ''idx'' (Iters_new 5 10) last_prepare last_op 0 w = Inr (sample, st, w')"
    using counts [of "Iters_new 5 10"] unfolding run_scenario_of_def by (fastforce simp: Iters_new_def)
  have "st = drive last_prepare last_op 15 0" using bench_drives [OF run] by (simp add: Iters_new_def)
  moreover obtain rs where "drive last_prepare last_op 15 0 = Inr (14, rs)"
    using indexing.drive_ok [of 0 15] by (auto simp: last_seen_def)
  ultimately show "prepare_index_advances p pf tpn w = Inr ()"
    using run tot by (simp add: prepare_index_advances_def minus_u_def)
qed

theorem suite_latency_test:
  assumes "counting_histogram pf" and "rusage_ok p pf"
  shows "suite_runs_latency_scenarios h p pf tpn w = Some (Inr ())"
proof -
  obtain sample s' w' where "bench_static p pf tpn ''inc'' (Iters_new 100 1000) (0 :: u64) (\<lambda>counter w. (counter + 1, w)) w = Inr (sample, s', w')"
      "Histogram_len pf (hist sample) = 1000"
    using counting_histogram.bench_counts [OF assms, of "Iters_new 100 1000" tpn "''inc''" "0 :: u64" "\<lambda>s i w. ((), s, w)" "\<lambda>s _ w. (s + 1, w)" w]
    by (auto simp: bench_static_def Iters_new_def)
  then show ?thesis
    by (simp add: suite_runs_latency_scenarios_def run_scenario_def set_iters_def BenchmarkSuite_new_def MeasurementIntent_LATENCY_def
        Let_def obind_def)
qed

end
