(* ===== verification/Report_Tests.thy ===== *)
theory Report_Tests
  imports Runner_Tests Bench_Report_Props
begin

text \<open>
  The tests of \<open>benchkit/src/report.rs\<close>, and those of \<open>telemetry/src/primitives/histogram.rs\<close> that ask of
  the \<open>hdrhistogram\<close> crate no more than that it counts what it is given.
\<close>

section \<open>The comparison\<close>

definition csv_of :: "(string \<times> string \<times> u64 \<times> u64 \<times> u64) list \<Rightarrow> string" where
  "csv_of rows =
     ''regime,'' @ csv_header @ [newline] @
     concat (map (\<lambda>(regime, l, p50, p99, p99_99).
       regime @ '','' @ l @ '',1000,1,'' @ show_word p50 @ '','' @ show_word p99 @ '','' @ show_word p99_99 @ '','' @
       show_word p99_99 @ '',0'' @ [newline]) rows)"

definition within_noise_is_not_a_win :: "unit res" where
  "within_noise_is_not_a_win =
     (let base = csv_of [(''back_to_back'', ''cross'', 100, 100, 100)];
          cur = csv_of [(''back_to_back'', ''cross'', 101, 101, 101)];
          c = from_strings base cur (Fin 5)
      in asserts [\<not> any_regressed c, str_contains ''within noise'' (Comparison_to_markdown c)])"

definition regression_beyond_band_is_flagged :: "unit res" where
  "regression_beyond_band_is_flagged =
     (let base = csv_of [(''back_to_back'', ''cross'', 100, 100, 100)];
          cur = csv_of [(''back_to_back'', ''cross'', 130, 130, 130)];
          c = from_strings base cur (Fin 5)
      in asserts [any_regressed c])"

definition improvement_detected :: "unit res" where
  "improvement_detected =
     (let base = csv_of [(''back_to_back'', ''cross'', 100, 100, 100)];
          cur = csv_of [(''back_to_back'', ''cross'', 70, 70, 70)];
          c = from_strings base cur (Fin 5)
      in asserts [\<not> any_regressed c, str_contains ''improved'' (Comparison_to_markdown c)])"

definition same_label_different_regime_does_not_match :: "unit res" where
  "same_label_different_regime_does_not_match =
     (let base = csv_of [(''back_to_back'', ''cross'', 100, 100, 100)];
          cur = csv_of [(''open_loop'', ''cross'', 500, 500, 500)];
          c = from_strings base cur (Fin 5)
      in asserts [\<not> any_regressed c, count_matches ''incomparable'' (Comparison_to_markdown c) = 2])"

definition tail_regression_caught_when_p50_flat :: "unit res" where
  "tail_regression_caught_when_p50_flat =
     (let base = csv_of [(''back_to_back'', ''cross'', 100, 200, 400)];
          cur = csv_of [(''back_to_back'', ''cross'', 100, 205, 800)];
          c = from_strings base cur (Fin 5)
      in asserts [any_regressed c, str_contains ''REGRESSED (p99.99)'' (Comparison_to_markdown c)])"

definition p50_improvement_does_not_mask_tail_regression :: "unit res" where
  "p50_improvement_does_not_mask_tail_regression =
     (let base = csv_of [(''back_to_back'', ''cross'', 100, 200, 400)];
          cur = csv_of [(''back_to_back'', ''cross'', 50, 200, 800)];
          c = from_strings base cur (Fin 5)
      in asserts [any_regressed c, str_contains ''REGRESSED (p99.99)'' (Comparison_to_markdown c)])"

lemma within_noise_passes: "within_noise_is_not_a_win = Inr ()"
  by code_simp

lemma regression_passes: "regression_beyond_band_is_flagged = Inr ()"
  by code_simp

lemma improvement_passes: "improvement_detected = Inr ()"
  by code_simp

lemma different_regime_passes: "same_label_different_regime_does_not_match = Inr ()"
  by code_simp

lemma tail_regression_passes: "tail_regression_caught_when_p50_flat = Inr ()"
  by code_simp

lemma masked_tail_passes: "p50_improvement_does_not_mask_tail_regression = Inr ()"
  by code_simp

theorem comparison_tests_pass:
  "within_noise_is_not_a_win = Inr () \<and> regression_beyond_band_is_flagged = Inr () \<and> improvement_detected = Inr ()
    \<and> same_label_different_regime_does_not_match = Inr () \<and> tail_regression_caught_when_p50_flat = Inr ()
    \<and> p50_improvement_does_not_mask_tail_regression = Inr ()"
  by (intro conjI within_noise_passes regression_passes improvement_passes different_regime_passes
      tail_regression_passes masked_tail_passes)

section \<open>The rendered counters\<close>

text \<open>A histogram with one recorded value and a sample with seven involuntary context switches and three
  major faults, on any machine and any histogram that accepts the value.\<close>

definition noise_counters_render_in_markdown_and_csv :: "host \<Rightarrow> f64 \<Rightarrow> ('w, 'h) platform \<Rightarrow> unit res" where
  "noise_counters_render_in_markdown_and_csv h tpn pf =
     (let env = RunEnv_detect h tpn in
      rbind (Histogram_new pf ''noisy'') (\<lambda>hi. rbind (Histogram_record pf 100 hi) (\<lambda>hi.
      let sample = \<lparr>hist = hi, arrival_model = BackToBack,
            stats = RunStats_default\<lparr>ctx_involuntary := 7, major_faults := 3\<rparr>, sample_overloaded = False\<rparr>;
          report = Report_section ''S'' [sample] (Report_new env ''t'' ''scope'');
          md = Report_to_markdown pf report in
      rbind (asserts [str_contains ''| inv-cs | maj-flt |'' md, str_contains ''| 7 | 3 |'' md]) (\<lambda>_.
      rbind (unwrap (slice_get (lines (Report_to_csv pf report)) 1)) (\<lambda>row.
        asserts [length (split_on CHR '','' row) = 13, ends_with '',0,7,0,3'' row])))))"

theorem noise_counters_test:
  assumes "hdr_accepts pf"
  shows "noise_counters_render_in_markdown_and_csv h tpn pf = Inr ()"
proof -
  obtain i where i: "hdr_new pf = Some i" using assms unfolding hdr_accepts_def by blast
  obtain j where j: "hdr_record pf 100 i = Some j" using assms unfolding hdr_accepts_def by blast
  have new: "Histogram_new pf ''noisy'' = Inr \<lparr>inner = i, label = ''noisy''\<rparr>"
    and rec: "Histogram_record pf 100 \<lparr>inner = i, label = ''noisy''\<rparr> = Inr \<lparr>inner = j, label = ''noisy''\<rparr>"
    by (simp_all add: Histogram_new_def Histogram_record_def i j)
  define s where "s = \<lparr>hist = \<lparr>inner = j, label = ''noisy''\<rparr>, arrival_model = BackToBack,
    stats = RunStats_default\<lparr>ctx_involuntary := 7, major_faults := 3\<rparr>, sample_overloaded = False\<rparr>"
  let ?r = "Report_section ''S'' [s] (Report_new (RunEnv_detect h tpn) ''t'' ''scope'')"
  let ?row = "csv_row pf s"
  have plain: "plain_label s" by (simp add: plain_label_def s_def newline_def)
  have samples: "report_samples ?r = [s]" by (simp add: Report_section_def Report_new_def)
  have "drop 1 (lines (Report_to_csv pf ?r)) = [?row]" using csv_lines [of ?r pf] plain samples by simp
  then have row: "slice_get (lines (Report_to_csv pf ?r)) 1 = Some ?row"
    by (cases "lines (Report_to_csv pf ?r)") (auto simp: slice_get_def)
  have digits: "show_nat 0 = ''0''" "show_nat 7 = ''7''" "show_nat 3 = ''3''"
    by code_simp+
  have n13: "length (split_on CHR '','' ?row) = 13"
    unfolding csv_row_join using split_on_join [of "csv_fields pf s"] csv_fields_plain [OF plain, of pf]
    by (simp add: csv_fields_def)
  have "?row = (regime_tag BackToBack @ '','' @ render_csv pf (hist s)) @ '',0,7,0,3''"
    by (simp add: csv_row_def s_def RunStats_default_def digits)
  then have ends: "ends_with '',0,7,0,3'' ?row" by (simp only: ends_with_append)
  let ?md = "Report_to_markdown pf ?r"
  have md: "?md = (RunEnv_header (f64_fmt 2) (RunEnv_detect h tpn) ''t'' ''scope'' @
      writeln (''- `inv-cs`/`maj-flt`: involuntary context switches / major page faults during that scenario's measure phase. Nonzero marks a tail spike as OS noise.'') @
      writeln ([newline] @ ''**S**  _'' @ measured_under \<lparr>section_title = ''S'', section_samples = [s]\<rparr> @ ''_'' @ [newline])) @
      writeln ''| scenario | n | min | p50 | p99 | p99.99 | tail | M/s | inv-cs | maj-flt |'' @
      writeln ''|---|--:|--:|--:|--:|--:|--:|--:|--:|--:|'' @ writeln (table_row pf s)"
    by (simp add: Report_to_markdown_def Report_section_def Report_new_def)
  have "str_contains ''| inv-cs | maj-flt |'' (writeln ''| scenario | n | min | p50 | p99 | p99.99 | tail | M/s | inv-cs | maj-flt |'')"
    by code_simp
  then have md1: "str_contains ''| inv-cs | maj-flt |'' ?md"
    unfolding md by (intro str_contains_right [OF str_contains_left])
  obtain a where "table_row pf s = a @ ''| 7 | 3 |'' @ []"
    by (simp add: table_row_def Let_def s_def RunStats_default_def digits)
  then have "str_contains ''| 7 | 3 |'' (writeln (table_row pf s))"
    unfolding writeln_def by (metis str_contains_append str_contains_left)
  then have md2: "str_contains ''| 7 | 3 |'' ?md" unfolding md by (intro str_contains_right)
  from md1 md2 row n13 ends show ?thesis
    unfolding noise_counters_render_in_markdown_and_csv_def Let_def new rec rbind_Inr s_def [symmetric]
    by (simp add: unwrap_def)
qed

section \<open>histogram.rs\<close>

definition record_zero_does_not_panic :: "('w, 'h) platform \<Rightarrow> unit res" where
  "record_zero_does_not_panic pf =
     rbind (Histogram_new pf ''test'') (\<lambda>h. rbind (Histogram_record pf 0 h) (\<lambda>h. asserts [Histogram_len pf h = 1]))"

definition throughput_empty_is_zero :: "('w, 'h) platform \<Rightarrow> unit res" where
  "throughput_empty_is_zero pf = rbind (Histogram_new pf ''test'') (\<lambda>h. asserts [throughput_per_sec pf h = Fin 0])"

definition render_csv_fields_match_header :: "('w, 'h) platform \<Rightarrow> unit res" where
  "render_csv_fields_match_header pf =
     rbind (Histogram_new pf ''my_label'') (\<lambda>h.
     rbind (fold_res (Histogram_record pf) (map of_nat [1..<1001]) h) (\<lambda>h.
     let fields = split_on CHR '','' (render_csv pf h) in
     rbind (assert_that (length fields = length (split_on CHR '','' csv_header)) ''assertion failed'') (\<lambda>_.
       asserts [fields ! 0 = ''my_label'', fields ! 1 = ''1000''])))"

theorem histogram_tests_pass:
  assumes "counting_histogram pf"
  shows "record_zero_does_not_panic pf = Inr ()" and "throughput_empty_is_zero pf = Inr ()"
    and "render_csv_fields_match_header pf = Inr ()"
proof -
  note new = counting_histogram.new_returns [OF assms]
  note rec = counting_histogram.records_return [OF assms] and count = counting_histogram.records_count [OF assms]
  obtain h where h: "Histogram_new pf ''test'' = Inr h" "Histogram_len pf h = 0" using new by blast
  obtain h1 where h1: "fold_res (Histogram_record pf) [0] h = Inr h1" using rec by blast
  with count [OF h1] h show "record_zero_does_not_panic pf = Inr ()"
    by (auto simp: record_zero_does_not_panic_def rbind_eq_Inr)
  from h show "throughput_empty_is_zero pf = Inr ()" by (simp add: throughput_empty_is_zero_def throughput_per_sec_def Let_def)
  obtain g where g: "Histogram_new pf ''my_label'' = Inr g" "label g = ''my_label''" "Histogram_len pf g = 0" using new by blast
  obtain g1 where g1: "fold_res (Histogram_record pf) (map of_nat [1..<1001]) g = Inr g1" "label g1 = ''my_label''"
    using rec [of "map of_nat [1..<1001]" g] g(2) by auto
  have len: "Histogram_len pf g1 = 1000" using count [OF g1(1)] g(3) by simp
  define s where "s = \<lparr>hist = g1, arrival_model = BackToBack, stats = RunStats_default, sample_overloaded = False\<rparr>"
  let ?fs = "take 8 (tl (csv_fields pf s))"
  have "render_csv pf g1 = join '','' ?fs" by (simp add: csv_fields_def s_def render_csv_def)
  moreover have "plain_label s" using g1(2) by (simp add: plain_label_def s_def newline_def)
  then have "\<forall>f \<in> set ?fs. CHR '','' \<notin> set f" using csv_fields_plain [of s pf] by (simp add: csv_fields_def)
  then have "split_on CHR '','' (join '','' ?fs) = ?fs" by (intro split_on_join) (simp_all add: csv_fields_def)
  moreover have "length (split_on CHR '','' csv_header) = 8" by code_simp
  moreover have "show_word (1000 :: u64) = ''1000''" by code_simp
  ultimately show "render_csv_fields_match_header pf = Inr ()"
    unfolding render_csv_fields_match_header_def Let_def g(1) g1(1) rbind_Inr
    by (simp add: csv_fields_def s_def g1(2) len)
qed

end
