(* ===== verification/Spec2Isabelle.thy ===== *)
theory Spec2Isabelle
  imports Feed Ipc_TSO Ipc_Hop Matcher_Bench_Props
    Bench_Env_Props Open_Loop_Log Bench_Report_Props Xtask_Props
    Arena_Tests Engine_Tests Ipc_Tests Wire_Tests Env_Tests Report_Tests
begin

text \<open>
  Verification of dex-core.

  \<^bold>\<open>The program.\<close> The core of an exchange in Rust. \<open>crates/arena\<close> is a generational slot arena with
  an intrusive free list in uninitialised memory. \<open>crates/types\<close> has the domain types and their wire
  forms. \<open>crates/orderbook\<close> keeps one instrument's resting orders: two B-tree maps from price to level,
  each level a doubly linked list through the arena, and an index from intent hash to handle.
  \<open>crates/matcher\<close> crosses a new request against the opposing side, applies the time-in-force and
  routes requests to the books. \<open>crates/ipc\<close> broadcasts values from one producer to many consumers
  through a ring of sequence-locked slots. \<open>crates/telemetry\<close>, \<open>crates/benchkit\<close> and \<open>xtask\<close> measure
  all of it: clock and histogram, measuring loops, reports, comparison of runs, orchestration.

  \<^bold>\<open>Conventions\<close> (\<open>Prelude\<close>). Machine integers are words of their width. A computation that may panic
  or reach undefined behaviour is a sum whose left side is a \<open>fault\<close>; a theorem that something does
  not fault is an equation with \<open>Inr\<close>. The build profile is an argument: \<open>Debug\<close> checks overflow and
  runs \<open>debug_assert!\<close>, \<open>Release\<close> wraps. A theorem that does not name a profile holds in both. Every
  loop of the source is a total function here, except the one spin loop that waits for a hardware
  counter (\<open>spin_until\<close>, where not returning is \<open>None\<close>); no fuel is used. Hash maps are association
  lists with distinct keys, B-tree maps strictly sorted ones (\<open>BTree_Map\<close>).

  \<^bold>\<open>The trading core.\<close>
  \<^item> \<open>Arena\<close> (\<open>arena/src/lib.rs\<close>): slots, handles and operations; storage is a data type of what the
    bytes hold, so reading the wrong union member is a fault. The locale of a handle store is
    interpreted on it. The arena refines a finite map from handles to values, no sequence of calls
    with arbitrary handles faults, a stale handle is refused for the next \<open>2^32-2\<close> operations, and
    in a one-slot arena it is accepted again exactly at every multiple of \<open>2^32-1\<close> removals.
  \<^item> \<open>Dex_Types\<close>, \<open>Wire\<close> (\<open>types/src\<close>): enums with their discriminants, structs with their layouts, the
    conversions to and from the wire with round trips; decoding never panics, and its errors are exact.
  \<^item> \<open>Intrusive_List\<close>: list segments in a store, as a locale over the node's two links. \<open>Order_Book\<close>
    (\<open>book.rs\<close>, \<open>level.rs\<close>, \<open>invariants.rs\<close>): every operation of the book. \<open>Order_Book_Inv\<close>: the
    invariant and its preservation. \<open>Order_Book_Spec\<close>: the abstract queues in price-time order.
    \<open>Book_Interface\<close>: the contract of a book as a locale, interpreted on \<open>Order_Book\<close>; the matcher is
    proved from it. \<open>Book_Props\<close>: insertion, cancellation and removal from the top refine operations
    on the queues, the run-time checker accepts every reachable book, and a book panics only in a debug
    build: on an insertion that brings a level's total to \<open>2^64\<close>, and where the precondition of
    \<open>reduce_top\<close> fails.
  \<^item> \<open>Matching\<close>, \<open>Match_Props\<close> (\<open>matching.rs\<close>, \<open>events.rs\<close>, \<open>sink.rs\<close>): the crossing loop with its
    termination, the fill-or-kill gate, time-in-force. Price-time priority, maker's price, conservation
    of quantity, no crossed book, behaviour under each time-in-force, exactly when matching panics, and
    the overflow of the gate. That the event sink does not matter is the locale \<open>event_sink\<close>.
  \<^item> \<open>Engine\<close>, \<open>Engine_Props\<close> (\<open>engine.rs\<close>, \<open>invariants.rs\<close>): registration, id minting, dispatch. In every
    run all books are well formed and uncrossed; when a request panics is characterised exactly; a release
    build panics only on \<open>Amend\<close> and on registering with capacity \<open>u32::MAX\<close>, and every outcome of
    a registration is given; ids are unique within \<open>2^64\<close> calls; instruments do not affect each other.
  \<^item> \<open>Exchange_Spec\<close>: the exchange as its documentation describes it, two queues per market in
    price-time order and a counter of ids, with no arena, levels, links or index. The engine refines it
    through the locale \<open>simulation\<close> of \<open>Prelude\<close>: same books, same events, for whole runs.
    \<open>Event_Log\<close>: a subscriber's view; replaying the events gives the books. \<open>Feed\<close>: what rests and what
    is emitted is well formed, so the encoders and decoders of \<open>Wire\<close> carry whole feeds. The theorem
    below joins the three: a subscriber behind the wire holds the books.
  \<^item> \<open>Alloc_Workload\<close> (\<open>matcher/examples/alloc_proof.rs\<close>, \<open>ipc/examples/alloc_proof.rs\<close>): the workloads of the
    allocation proofs. The measured level keeps its depth and never empties, the other scenario empties
    it in every step, and the ring's two ends stay in lockstep.
  \<^item> \<open>Bench_Workload\<close>: the closures of a benchmark under \<open>Runner::bench\<close>, and the locale of a sound
    scenario; with it \<open>arena/benches/arena_bench.rs\<close>, in \<open>Book_Bench\<close>
    \<open>orderbook/benches/orderbook_bench.rs\<close>, in \<open>Matcher_Bench\<close> and \<open>Matcher_Bench_Props\<close>
    \<open>matcher/benches/matcher_bench.rs\<close> and \<open>matcher_iai.rs\<close>, and in \<open>Ipc_Hop\<close> \<open>ipc/benches/self_latency.rs\<close>: no iteration
    panics and every timed call takes the path its label names. The matcher's scenarios are followed on
    the exchange of \<open>Exchange_Spec\<close>. \<open>Ipc_Hop\<close> also has the two threads of
    \<open>cross_core.rs\<close> with every interleaving: no step panics, and the reader may stop one sample early.
  \<^item> \<open>Ipc_Queue\<close>, \<open>Ipc_Props\<close> (\<open>queue.rs\<close>, \<open>slot.rs\<close>, \<open>policy.rs\<close>): the ring with calls as atomic steps;
    a locale of a broadcast channel is interpreted on it. A poll is determined by the history and the
    cursor, laps are reported exactly. \<open>Ipc_Seqlock\<close> splits publish and poll into single loads and
    stores with arbitrary interleaving: no torn and no stale read, and a publish that runs alone is the
    atomic one. Memory is sequentially consistent there. \<open>Ipc_TSO\<close> puts a store buffer between the
    producer and memory, as the x86-64 target has, and carries the result over by simulation; without a
    reported skip a consumer misses nothing. The fences and acquire/release orderings are not modelled
    as such. The theorems assume fewer than \<open>2^63\<close> publications, where sequence numbers do not wrap.

  \<^bold>\<open>The measuring tools.\<close>
  \<^item> \<open>Rust_Str\<close>: the string functions of the standard library the tools use, with the round trips.
    \<open>F64\<close>: \<open>f64\<close> arithmetic as rationals rounded to 53 bits, exactness, signs and the relative error of one rounding.
  \<^item> \<open>Bench_Env\<close>, \<open>Bench_Env_Props\<close> (\<open>env.rs\<close>, \<open>build.rs\<close>): detection from files and git, warnings, run id,
    header, and the strings the build script bakes in.
    The calendar arithmetic against day-by-day counting, the cpu-list parser against a printer, and
    when no warning is given.
  \<^item> \<open>Bench_Runner\<close>, \<open>Bench_Runner_Props\<close> (\<open>lcg.rs\<close>, \<open>iters.rs\<close>, \<open>stats.rs\<close>, \<open>runner.rs\<close>, \<open>alloc.rs\<close>,
    telemetry's \<open>clock.rs\<close>, \<open>rdtsc.rs\<close>, \<open>histogram.rs\<close>): the loops over an abstract platform. Exactly
    the measured iterations are recorded and nothing but the operation is timed; short open-loop runs are
    always flagged; the shuffle permutes; the allocation gate is exact. \<open>Open_Loop_Log\<close>: the open loop on
    a platform that logs every counter reading; it returns, waits as its schedule says, and flags
    overload exactly when 5 percent of the logged operations were late.
  \<^item> \<open>Telemetry\<close> (\<open>calibration.rs\<close>, \<open>ids.rs\<close>, the rest of \<open>clock.rs\<close>): calibration of the counter against
    the wall clock. The rate converts the calibration interval back to its nanoseconds, or one less.
  \<^item> \<open>Bench_Report\<close>, \<open>Bench_Report_Props\<close> (\<open>report.rs\<close>, \<open>suite.rs\<close>): reports, CSV, artifacts, comparison,
    suite. A regression is never masked, stated over the exact growth of the three metrics with the error
    of the \<open>f64\<close> percentages bounded by \<open>2^-51\<close>; with a zero noise band the verdict is exact; the CSV round trip and
    where it fails, a run against itself is neutral, the suite keeps its regimes apart.
  \<^item> \<open>Xtask\<close>, \<open>Xtask_Props\<close> (\<open>xtask/src/main.rs\<close>): every mode as a transformer of a log of actions. A
    missing valgrind, perf or gnuplot stops the run before anything is measured, a missing FlameGraph script
    only after it; success means the commands of every requested regime ran with exit code 0, except
    that \<open>cache\<close> and \<open>alloc\<close> are skipped for crates without such a target.

  \<^bold>\<open>The repository's own tests.\<close> The unit tests of the source files are definitions too (\<open>Test_Script\<close>: a
  test is a computation that returns or panics), and the kernel evaluates them on the model: a definition
  that differed from the code where a test looks would fail there.
  \<^item> \<open>Arena_Tests\<close>, \<open>Book_Tests\<close>, \<open>Engine_Tests\<close>, \<open>Ipc_Tests\<close> (\<open>ipc/tests/roundtrip.rs\<close>, \<open>lap_policy.rs\<close>): every test
    in both profiles, the ones that must panic with their panic. \<open>Wire_Tests\<close>: for all casts that meet
    their contract.
  \<^item> \<open>Text_Eval\<close>: code equations in binary for text and \<open>f64\<close>. \<open>Env_Tests\<close>: on every host. \<open>Runner_Tests\<close>
    (\<open>lcg.rs\<close>, \<open>stats.rs\<close>, \<open>clock.rs\<close>, \<open>runner.rs\<close>, \<open>suite.rs\<close>): on every platform whose histogram counts, which is
    the locale \<open>counting_histogram\<close>. \<open>Report_Tests\<close>: the comparison, the rendered counters and the histogram's row.

  \<^bold>\<open>Parameters.\<close> What is not in the repository is an argument of the definitions that use it: the
  byte casts of bytemuck, the event sink, the time-stamp counter, \<open>getrusage\<close>, dhat, hdrhistogram
  (record \<open>platform\<close>), the wall clock and \<open>sleep\<close> (\<open>wall\<close>), the files, git and build strings (\<open>host\<close>,
  \<open>build_host\<close>), processes and the file system
  (\<open>shell\<close>). Each theorem with an assumption on them has a witness on a concrete instance.

  \<^bold>\<open>Not modelled.\<close> The tests whose outcome is real time or the hdrhistogram crate's percentiles (the
  counter's monotonicity, calibration, overload, heavier against lighter operations), the two-thread stress
  test of the ring, the loom shim and its tests (\<open>sync.rs\<close>, \<open>loom_model.rs\<close>), memory
  orderings weaker than store buffers, the profiler set-up and the printed tables of the two
  allocation proofs, the composition of the reports in the benchmarks' \<open>main\<close>, module files that only re-export, text printed on standard error by the
  orchestrator, and the wording of operating-system errors while a file is read.
\<close>

section \<open>Across the components\<close>

text \<open>
  C6: the wire carries the books. Take any run of the engine of fewer than 2^64 calls. Converting
  its events to \<open>PodOrderEvent\<close> never panics and gives one image with a 72-byte payload per
  event; a subscriber that decodes the images refuses none of them, and after applying the decoded
  events it holds, for every instrument and side, exactly the resting orders of the engine's book
  in price-time order. The casts of bytemuck are only required to be inverse on well-formed values.
\<close>

theorem wire_feed_reconstructs_books:
  assumes "checked_cast order_wf 72 bytes_of try_order"
    and "checked_cast (\<lambda>_. True) 1 (\<lambda>r. [RejectReason_u8 r]) try_reason"
    and "engine_exec p (Engine_new, []) cs = Inr (e, evlog)" and "length cs < 2 ^ 64" and "list_all command_wf cs"
  shows "\<exists>pods evs. encode_feed bytes_of evlog = Inr pods \<and> length pods = length evlog \<and>
    list_all (\<lambda>pod. length (pe_payload pod) = 72) pods \<and> decode_feed try_order try_reason pods = Inr (Inr evs) \<and>
    (\<forall>i s. replay evs (i, s) = (case Engine_book e i of None \<Rightarrow> [] | Some b \<Rightarrow> resting b s))"
proof -
  have fmt: "wire_format bytes_of try_order try_reason" by (rule wire_format.intro [OF assms(1,2)])
  from wire_format.feed_roundtrip [OF fmt event_ok_wf [OF run_events [OF assms(3-5)]]] run_log [OF assms(3,4)]
  show ?thesis by (auto simp: ledger_of_def Engine_book_def)
qed

theorem wire_feed_reconstructs_books_witness:
  "\<exists>e evlog b pods evs. engine_exec Debug (Engine_new, [])
       [AddInstrument 1 64, Process (test_req Ask 100 10 GTC RqNew 1)] = Inr (e, evlog) \<and> Engine_book e 1 = Some b \<and>
     encode_feed Order_bytes evlog = Inr pods \<and>
     decode_feed Order_of_bytes RejectReason_of_bytes pods = Inr (Inr evs) \<and>
     replay evs (1, Ask) = resting b Ask \<and> map o_quantity (resting b Ask) = [10]"
proof -
  let ?x = "resting_order (test_req Ask 100 10 GTC RqNew 1) 0 10"
  obtain e b where e: "engine_exec Debug (Engine_new, []) [AddInstrument 1 64, Process (test_req Ask 100 10 GTC RqNew 1)]
      = Inr (e, [EvNew ?x])" "map_of (en_books e) 1 = Some b" "resting b = (\<lambda>_. [])(Ask := [?x])"
    by (rule sample_engine_ask)
  have wf: "list_all command_wf [AddInstrument 1 64, Process (test_req Ask 100 10 GTC RqNew 1)]" by (simp add: hash_wf_def)
  have b: "Engine_book e 1 = Some b" "map o_quantity (resting b Ask) = [10]" using e by (simp_all add: Engine_book_def)
  from wire_feed_reconstructs_books [OF order_cast.checked_cast_axioms reason_cast.checked_cast_axioms e(1) _ wf]
  obtain pods evs where "encode_feed Order_bytes [EvNew ?x] = Inr pods"
    "decode_feed Order_of_bytes RejectReason_of_bytes pods = Inr (Inr evs)" "replay evs (1, Ask) = resting b Ask"
    using b(1) by auto
  with b e(1) show ?thesis by (intro exI conjI)
qed

end
